(* ===== verification/Rdf.thy ===== *)
theory Rdf
  imports Prelude
begin

text \<open>
  The RDF data model the repository takes from the \<^verbatim>\<open>oxrdf\<close> crate: terms, literals, graph names
  and quads, as the plain data the code builds and takes apart. A literal is what its accessors
  report: lexical form, language tag, base direction and datatype.
\<close>

datatype base_direction = Ltr | Rtl

record literal =
  lit_value :: string
  lit_language :: "string option"
  lit_direction :: "base_direction option"
  lit_datatype :: string

datatype named_or_blank = SNamed string | SBlank string

datatype rdf_term =
    NamedNode string
  | BlankNode string
  | Lit literal
  | TripleTerm named_or_blank string rdf_term

datatype graph_name = DefaultGraph | GNamed string | GBlank string

record quad =
  q_subject :: named_or_blank
  q_predicate :: string
  q_object :: rdf_term
  q_graph :: graph_name

section \<open>Vocabulary\<close>

definition xsd :: "string \<Rightarrow> string" where
  "xsd local = ''http://www.w3.org/2001/XMLSchema#'' @ local"

abbreviation xsd_string :: string where "xsd_string \<equiv> xsd ''string''"
abbreviation xsd_integer :: string where "xsd_integer \<equiv> xsd ''integer''"
abbreviation xsd_boolean :: string where "xsd_boolean \<equiv> xsd ''boolean''"
abbreviation xsd_double :: string where "xsd_double \<equiv> xsd ''double''"

definition rdf_ns :: "string \<Rightarrow> string" where
  "rdf_ns local = ''http://www.w3.org/1999/02/22-rdf-syntax-ns#'' @ local"

abbreviation rdf_lang_string :: string where "rdf_lang_string \<equiv> rdf_ns ''langString''"
abbreviation rdf_dir_lang_string :: string where "rdf_dir_lang_string \<equiv> rdf_ns ''dirLangString''"

lemma xsd_inj [simp]: "xsd a = xsd b \<longleftrightarrow> a = b"
  by (simp add: xsd_def)

section \<open>Literal constructors\<close>

definition simple_literal :: "string \<Rightarrow> literal" where
  "simple_literal v = \<lparr>lit_value = v, lit_language = None, lit_direction = None,
     lit_datatype = xsd_string\<rparr>"

definition typed_literal :: "string \<Rightarrow> string \<Rightarrow> literal" where
  "typed_literal v dt = \<lparr>lit_value = v, lit_language = None, lit_direction = None,
     lit_datatype = dt\<rparr>"

definition lang_literal :: "string \<Rightarrow> string \<Rightarrow> literal" where
  "lang_literal v lang = \<lparr>lit_value = v, lit_language = Some lang, lit_direction = None,
     lit_datatype = rdf_lang_string\<rparr>"

definition dir_lang_literal :: "string \<Rightarrow> string \<Rightarrow> base_direction \<Rightarrow> literal" where
  "dir_lang_literal v lang d = \<lparr>lit_value = v, lit_language = Some lang, lit_direction = Some d,
     lit_datatype = rdf_dir_lang_string\<rparr>"

text \<open>\<^verbatim>\<open>Literal::from(i64)\<close> and \<^verbatim>\<open>Literal::from(bool)\<close>.\<close>

definition int_literal :: "int \<Rightarrow> literal" where
  "int_literal i = typed_literal (show_int i) xsd_integer"

definition bool_literal :: "bool \<Rightarrow> literal" where
  "bool_literal b = typed_literal (if b then ''true'' else ''false'') xsd_boolean"

lemmas literal_defs =
  simple_literal_def typed_literal_def lang_literal_def dir_lang_literal_def
  int_literal_def bool_literal_def

text \<open>
  The literals the crate can build: language tags come with the language datatypes, a base
  direction only with a language tag.
\<close>

definition wf_literal :: "literal \<Rightarrow> bool" where
  "wf_literal l \<longleftrightarrow>
     (case lit_language l of
        None \<Rightarrow> lit_direction l = None
      | Some _ \<Rightarrow> lit_datatype l =
          (case lit_direction l of None \<Rightarrow> rdf_lang_string | Some _ \<Rightarrow> rdf_dir_lang_string))"

primrec wf_term :: "rdf_term \<Rightarrow> bool" where
  "wf_term (NamedNode _) = True"
| "wf_term (BlankNode _) = True"
| "wf_term (Lit l) = wf_literal l"
| "wf_term (TripleTerm _ _ o') = wf_term o'"

lemma wf_literal_cases [consumes 1, case_names plain lang dir]:
  assumes "wf_literal l"
  obtains (plain) v dt where "l = typed_literal v dt"
    | (lang) v lg where "l = lang_literal v lg"
    | (dir) v lg d where "l = dir_lang_literal v lg d"
proof (cases "lit_language l")
  case None
  then have "l = typed_literal (lit_value l) (lit_datatype l)"
    using assms by (cases l) (simp add: literal_defs wf_literal_def)
  then show ?thesis by (rule plain)
next
  case (Some lg)
  show ?thesis
  proof (cases "lit_direction l")
    case None
    with Some have "l = lang_literal (lit_value l) lg"
      using assms by (cases l) (simp add: literal_defs wf_literal_def)
    then show ?thesis by (rule lang)
  next
    case (Some d)
    with \<open>lit_language l = Some lg\<close> have "l = dir_lang_literal (lit_value l) lg d"
      using assms by (cases l) (simp add: literal_defs wf_literal_def)
    then show ?thesis by (rule dir)
  qed
qed

definition subject_term :: "named_or_blank \<Rightarrow> rdf_term" where
  "subject_term s = (case s of SNamed n \<Rightarrow> NamedNode n | SBlank b \<Rightarrow> BlankNode b)"

end
