(* ===== verification/Errors.thy ===== *)
theory Errors
  imports Prelude
begin

text \<open>
  The error types: \<^verbatim>\<open>oxilite_core::Error\<close> (\<^verbatim>\<open>error.rs\<close> of the core) with its
  classification of backend messages, and \<^verbatim>\<open>DatalogError\<close> of the Datalog frontend. Errors of
  third-party crates are carried by their rendered message.
\<close>

datatype error =
    Syntax string
  | ParseRdf string
  | Backend string
  | Unsupported string
  | Collision string
  | Corrupted string
  | Evaluation string
  | Io string
  | Other string

text \<open>\<^verbatim>\<open>str::contains\<close> of a string pattern.\<close>

fun contains_str :: "string \<Rightarrow> string \<Rightarrow> bool" where
  "contains_str pat [] = (pat = [])"
| "contains_str pat (c # s) = (starts_with pat (c # s) \<or> contains_str pat s)"

definition error_backend :: "string \<Rightarrow> error" where
  "error_backend msg =
     (if contains_str ''oxilite: term hash collision'' msg then Collision msg
      else if contains_str ''graph_does_not_exist'' msg then Other ''the graph does not exist''
      else if contains_str ''graph_already_exists'' msg then Other ''the graph already exists''
      else if contains_str ''vector_dimensions_mismatch'' msg
        then Other ''a value of the indexed property is not a JSON array with the index's dimensions''
      else if contains_str ''computed_value_not_storable'' msg
        then Unsupported ''an update template stores a computed non-integer value, which SQL cannot hash''
      else Backend msg)"

definition is_unsupported :: "error \<Rightarrow> bool" where
  "is_unsupported e = (case e of Unsupported _ \<Rightarrow> True | _ \<Rightarrow> False)"

text \<open>A position in a program text (\<^verbatim>\<open>Span\<close>).\<close>

record span =
  line :: nat
  column :: nat

datatype datalog_error =
    DlParse span string
  | DlUnsafe string string
  | DlUnstratified string "string list"
  | DlNotTripleShaped string
  | DlArity string nat nat
  | DlUnknownPrefix string
  | DlNoGoal
  | DlUnknownGoal string
  | DlIterationLimit string nat
  | DlUnsupported string
  | DlStore error

end
