(* ===== verification/Datalog_Ast.thy ===== *)
theory Datalog_Ast
  imports Rdf Errors
begin

text \<open>
  The abstract syntax of the Datalog dialect (\<^verbatim>\<open>ast.rs\<close>): predicates, atoms, heads, constraint
  expressions, rules and programs, the variable collectors, and the version references a program
  names (\<^verbatim>\<open>version_refs\<close> of \<^verbatim>\<open>lib.rs\<close>).
\<close>

section \<open>Predicates\<close>

datatype history_rel = Commit | Added | Removed | Branch

datatype pred = Edb string | Idb string | Triple bool | History history_rel | Nearest bool

definition history_from_name :: "string \<Rightarrow> history_rel option" where
  "history_from_name name =
     (if name = ''commit'' then Some Commit
      else if name = ''added'' then Some Added
      else if name = ''removed'' then Some Removed
      else if name = ''branch'' then Some Branch
      else None)"

fun history_name :: "history_rel \<Rightarrow> string" where
  "history_name Commit = ''commit''"
| "history_name Added = ''added''"
| "history_name Removed = ''removed''"
| "history_name Branch = ''branch''"

fun history_arity :: "history_rel \<Rightarrow> nat" where
  "history_arity Commit = 4"
| "history_arity Added = 5"
| "history_arity Removed = 5"
| "history_arity Branch = 2"

lemma history_from_name_iff: "history_from_name n = Some h \<longleftrightarrow> n = history_name h"
  by (cases h) (auto simp: history_from_name_def split: if_splits)

fun pred_arity :: "pred \<Rightarrow> nat option" where
  "pred_arity (Triple False) = Some 3"
| "pred_arity (Triple True) = Some 4"
| "pred_arity (History h) = Some (history_arity h)"
| "pred_arity (Nearest rank) = Some (if rank then 5 else 4)"
| "pred_arity (Edb _) = None"
| "pred_arity (Idb _) = None"

fun is_extensional :: "pred \<Rightarrow> bool" where
  "is_extensional (Idb _) = False"
| "is_extensional _ = True"

fun pred_to_string :: "pred \<Rightarrow> string" where
  "pred_to_string (Edb n) = ''<'' @ n @ ''>''"
| "pred_to_string (Idb n) = n"
| "pred_to_string (Triple False) = ''triple/3''"
| "pred_to_string (Triple True) = ''triple/4''"
| "pred_to_string (History h) = history_name h @ ''/'' @ show_nat (history_arity h)"
| "pred_to_string (Nearest rank) = ''nearest/'' @ show_nat (if rank then 5 else 4)"

section \<open>Atoms, heads and expressions\<close>

datatype arg = Var string | Wildcard | Const rdf_term

datatype at = AtVersion string | AtVar string

record atom =
  atom_pred :: pred
  atom_args :: "arg list"
  atom_span :: span
  atom_at :: "at option"

datatype agg_fn = Count | CountDistinct | Sum | AggMin | AggMax | Avg | Sample | GroupConcat

fun agg_fn_name :: "agg_fn \<Rightarrow> string" where
  "agg_fn_name Count = ''COUNT''"
| "agg_fn_name CountDistinct = ''COUNT''"
| "agg_fn_name Sum = ''SUM''"
| "agg_fn_name AggMin = ''MIN''"
| "agg_fn_name AggMax = ''MAX''"
| "agg_fn_name Avg = ''AVG''"
| "agg_fn_name Sample = ''SAMPLE''"
| "agg_fn_name GroupConcat = ''GROUP_CONCAT''"

datatype head_arg = Plain arg | Agg agg_fn string

record head =
  head_pred :: pred
  head_args :: "head_arg list"
  head_span :: span

definition aggregates :: "head \<Rightarrow> bool" where
  "aggregates h = list_ex (\<lambda>a. case a of Agg _ _ \<Rightarrow> True | Plain _ \<Rightarrow> False) (head_args h)"

datatype bin_op = Eq | Ne | Lt | Le | Gt | Ge | Add | Sub | Mul | Div | And | Or

fun is_comparison :: "bin_op \<Rightarrow> bool" where
  "is_comparison op = (op \<in> {Eq, Ne, Lt, Le, Gt, Ge})"

fun is_arithmetic :: "bin_op \<Rightarrow> bool" where
  "is_arithmetic op = (op \<in> {Add, Sub, Mul, Div})"

datatype expr =
    EVar string
  | EConst rdf_term
  | EBinary bin_op expr expr
  | ENot expr
  | ENeg expr
  | ECall string "expr list"

section \<open>Rules and programs\<close>

datatype body_item = Atom atom | Negated atom | Constraint expr

record rule =
  rule_head :: head
  rule_body :: "body_item list"

definition positive :: "rule \<Rightarrow> atom list" where
  "positive r = List.map_filter (\<lambda>i. case i of Atom a \<Rightarrow> Some a | _ \<Rightarrow> None) (rule_body r)"

definition negated :: "rule \<Rightarrow> atom list" where
  "negated r = List.map_filter (\<lambda>i. case i of Negated a \<Rightarrow> Some a | _ \<Rightarrow> None) (rule_body r)"

definition constraints :: "rule \<Rightarrow> expr list" where
  "constraints r = List.map_filter (\<lambda>i. case i of Constraint e \<Rightarrow> Some e | _ \<Rightarrow> None) (rule_body r)"

record goal =
  goal_atom :: atom
  goal_constraints :: "expr list"

record program =
  rules :: "rule list"
  prog_goal :: "goal option"
  version :: "string option"

definition rules_for :: "program \<Rightarrow> pred \<Rightarrow> rule list" where
  "rules_for p pr = filter (\<lambda>r. head_pred (rule_head r) = pr) (rules p)"

lemma in_positive [simp]: "a \<in> set (positive r) \<longleftrightarrow> Atom a \<in> set (rule_body r)"
  by (force simp: positive_def List.map_filter_def split: body_item.splits)

lemma in_negated [simp]: "a \<in> set (negated r) \<longleftrightarrow> Negated a \<in> set (rule_body r)"
  by (force simp: negated_def List.map_filter_def split: body_item.splits)

lemma in_constraints [simp]: "e \<in> set (constraints r) \<longleftrightarrow> Constraint e \<in> set (rule_body r)"
  by (force simp: constraints_def List.map_filter_def split: body_item.splits)

section \<open>Variables\<close>

text \<open>The collectors push each variable once, in order of first occurrence.\<close>

fun expr_vars :: "expr \<Rightarrow> string list \<Rightarrow> string list" where
  "expr_vars (EVar v) out = push_new v out"
| "expr_vars (EConst _) out = out"
| "expr_vars (EBinary _ l r) out = expr_vars r (expr_vars l out)"
| "expr_vars (ENot e) out = expr_vars e out"
| "expr_vars (ENeg e) out = expr_vars e out"
| "expr_vars (ECall _ as) out = fold expr_vars as out"

fun arg_vars :: "arg \<Rightarrow> string list \<Rightarrow> string list" where
  "arg_vars (Var v) out = push_new v out"
| "arg_vars _ out = out"

definition atom_vars :: "atom \<Rightarrow> string list \<Rightarrow> string list" where
  "atom_vars a out = fold arg_vars (atom_args a) out"

text \<open>The sets the collectors compute.\<close>

primrec expr_var_set :: "expr \<Rightarrow> string set" where
  "expr_var_set (EVar v) = {v}"
| "expr_var_set (EConst _) = {}"
| "expr_var_set (EBinary _ l r) = expr_var_set l \<union> expr_var_set r"
| "expr_var_set (ENot e) = expr_var_set e"
| "expr_var_set (ENeg e) = expr_var_set e"
| "expr_var_set (ECall _ as) = \<Union> (set (map expr_var_set as))"

definition atom_var_set :: "atom \<Rightarrow> string set" where
  "atom_var_set a = {v. Var v \<in> set (atom_args a)}"

lemma set_fold_collect:
  assumes "\<And>x out. x \<in> set xs \<Longrightarrow> set (f x out) = S x \<union> set out"
  shows "set (fold f xs out) = \<Union> (S ` set xs) \<union> set out"
  using assms by (induction xs arbitrary: out) auto

lemma set_expr_vars [simp]: "set (expr_vars e out) = expr_var_set e \<union> set out"
proof (induction e arbitrary: out)
  case (ECall n as)
  have "set (fold expr_vars as out) = \<Union> (expr_var_set ` set as) \<union> set out"
    by (rule set_fold_collect) (rule ECall.IH)
  then show ?case by simp
qed auto

lemma set_arg_vars: "set (arg_vars a out) = {v. a = Var v} \<union> set out"
  by (cases a) auto

lemma set_atom_vars [simp]: "set (atom_vars a out) = atom_var_set a \<union> set out"
  using set_fold_collect [of "atom_args a" arg_vars "\<lambda>x. {v. x = Var v}" out]
  by (auto simp: atom_vars_def atom_var_set_def set_arg_vars)

section \<open>Version references\<close>

definition item_atoms :: "body_item \<Rightarrow> atom list" where
  "item_atoms i = (case i of Atom a \<Rightarrow> [a] | Negated a \<Rightarrow> [a] | Constraint _ \<Rightarrow> [])"

definition push_version :: "atom \<Rightarrow> string list \<Rightarrow> string list" where
  "push_version a refs = (case atom_at a of Some (AtVersion r) \<Rightarrow> push_new r refs | _ \<Rightarrow> refs)"

text \<open>
  \<^verbatim>\<open>version_refs\<close> on a parsed program; \<open>as_of\<close> is the option of that name.
\<close>

definition version_refs :: "program \<Rightarrow> string option \<Rightarrow> string option \<times> string list" where
  "version_refs p as_of =
     (let whole = (case as_of of Some v \<Rightarrow> Some v | None \<Rightarrow> version p);
          in_rules = fold push_version (concat (map (\<lambda>r. concat (map item_atoms (rule_body r))) (rules p))) [];
          refs = (case prog_goal p of None \<Rightarrow> in_rules | Some g \<Rightarrow> push_version (goal_atom g) in_rules)
      in (whole, refs))"

end
