(* ===== verification/Scc.thy ===== *)
theory Scc
  imports Prelude
begin

text \<open>
  Tarjan's strongly connected components as \<^verbatim>\<open>program.rs\<close> of the Datalog frontend computes
  them (\<^verbatim>\<open>tarjan\<close>, \<^verbatim>\<open>strongconnect\<close>, \<^verbatim>\<open>component_of\<close>), and the proof that the result is the
  partition of the nodes into maximal strongly connected components.

  The Rust recursion is modelled with fuel, one unit per nested call of \<^verbatim>\<open>strongconnect\<close>; every
  nested call starts at a node that was not visited before, so as much fuel as there are nodes is
  enough (\<open>strongconnect_correct\<close>). Vectors are lists; the theorems show that the indices the code uses are in
  range. The node stack is a list with its top first.
\<close>

section \<open>The algorithm\<close>

record tarjan_state =
  ts_index :: "nat option list"
  ts_low :: "nat list"
  ts_on_stack :: "bool list"
  ts_stack :: "nat list"
  ts_next :: nat
  ts_out :: "nat list list"

definition succ_lists :: "nat \<Rightarrow> (nat \<times> nat) list \<Rightarrow> nat list list" where
  "succ_lists n es = fold (\<lambda>(from, to) s. s[from := s ! from @ [to]]) es (replicate n [])"

definition enter_node :: "nat \<Rightarrow> tarjan_state \<Rightarrow> tarjan_state" where
  "enter_node v st = st\<lparr>
     ts_index := (ts_index st)[v := Some (ts_next st)],
     ts_low := (ts_low st)[v := ts_next st],
     ts_next := Suc (ts_next st),
     ts_stack := v # ts_stack st,
     ts_on_stack := (ts_on_stack st)[v := True]\<rparr>"

definition lower_to :: "nat \<Rightarrow> nat \<Rightarrow> tarjan_state \<Rightarrow> tarjan_state" where
  "lower_to v k st = st\<lparr>ts_low := (ts_low st)[v := min (ts_low st ! v) k]\<rparr>"

fun pop_until :: "nat \<Rightarrow> nat list \<Rightarrow> bool list \<Rightarrow> nat list \<Rightarrow> nat list \<times> bool list \<times> nat list" where
  "pop_until v [] os acc = (acc, os, [])"
| "pop_until v (w # stk) os acc =
     (let os' = os[w := False]; acc' = acc @ [w]
      in if w = v then (acc', os', stk) else pop_until v stk os' acc')"

definition leave_node :: "nat \<Rightarrow> tarjan_state \<Rightarrow> tarjan_state" where
  "leave_node v st =
     (if ts_index st ! v = Some (ts_low st ! v)
      then (case pop_until v (ts_stack st) (ts_on_stack st) [] of
              (acc, os, stk) \<Rightarrow>
                st\<lparr>ts_stack := stk, ts_on_stack := os, ts_out := ts_out st @ [sort acc]\<rparr>)
      else st)"

fun strongconnect :: "nat \<Rightarrow> nat list list \<Rightarrow> nat \<Rightarrow> tarjan_state \<Rightarrow> tarjan_state option"
  and visit_succs :: "nat \<Rightarrow> nat list list \<Rightarrow> nat \<Rightarrow> nat list \<Rightarrow> tarjan_state \<Rightarrow> tarjan_state option"
where
  "strongconnect 0 succ v st = None"
| "strongconnect (Suc fuel) succ v st =
     map_option (leave_node v) (visit_succs fuel succ v (succ ! v) (enter_node v st))"
| "visit_succs fuel succ v [] st = Some st"
| "visit_succs fuel succ v (w # ws) st =
     (case ts_index st ! w of
        None \<Rightarrow>
          (case strongconnect fuel succ w st of
             None \<Rightarrow> None
           | Some st' \<Rightarrow> visit_succs fuel succ v ws (lower_to v (ts_low st' ! w) st'))
      | Some iw \<Rightarrow>
          visit_succs fuel succ v ws (if ts_on_stack st ! w then lower_to v iw st else st))"

definition tarjan_init :: "nat \<Rightarrow> tarjan_state" where
  "tarjan_init n = \<lparr>ts_index = replicate n None, ts_low = replicate n 0,
     ts_on_stack = replicate n False, ts_stack = [], ts_next = 0, ts_out = []\<rparr>"

fun tarjan_loop :: "nat \<Rightarrow> nat list list \<Rightarrow> nat list \<Rightarrow> tarjan_state \<Rightarrow> tarjan_state option" where
  "tarjan_loop fuel succ [] st = Some st"
| "tarjan_loop fuel succ (v # vs) st =
     (if ts_index st ! v = None
      then (case strongconnect fuel succ v st of
              None \<Rightarrow> None | Some st' \<Rightarrow> tarjan_loop fuel succ vs st')
      else tarjan_loop fuel succ vs st)"

definition tarjan :: "nat \<Rightarrow> (nat \<times> nat) list \<Rightarrow> nat list list option" where
  "tarjan n es = map_option ts_out (tarjan_loop n (succ_lists n es) [0..<n] (tarjan_init n))"

text \<open>The component each node belongs to.\<close>

definition component_of :: "nat \<Rightarrow> nat list list \<Rightarrow> nat list" where
  "component_of n sccs =
     fold (\<lambda>(ci, scc) out. fold (\<lambda>v out. out[v := ci]) scc out)
       (enumerate 0 sccs) (replicate n 0)"

section \<open>Reachability and components\<close>

definition arcs :: "nat list list \<Rightarrow> (nat \<times> nat) set" where
  "arcs succ = {(v, w). v < length succ \<and> w \<in> set (succ ! v)}"

abbreviation reach :: "nat list list \<Rightarrow> (nat \<times> nat) set" where
  "reach succ \<equiv> (arcs succ)\<^sup>*"

definition is_scc :: "nat list list \<Rightarrow> nat set \<Rightarrow> bool" where
  "is_scc succ C \<longleftrightarrow> C \<noteq> {} \<and>
     (\<forall>x \<in> C. \<forall>y. y \<in> C \<longleftrightarrow> (x, y) \<in> reach succ \<and> (y, x) \<in> reach succ)"

definition wf_graph :: "nat \<Rightarrow> nat list list \<Rightarrow> bool" where
  "wf_graph n succ \<longleftrightarrow> length succ = n \<and> (\<forall>v < n. set (succ ! v) \<subseteq> {..<n})"

section \<open>The invariant of the traversal\<close>

text \<open>
  Nodes are white (no index yet), gray (on the path of open calls, the set \<open>G\<close>) or black. On the
  node stack, nodes reach the ones above them, and every node reaches a gray node at or below it;
  the visited nodes that left the stack are closed under edges and make up the emitted components.
\<close>

definition visited :: "tarjan_state \<Rightarrow> nat set" where
  "visited st = {v. v < length (ts_index st) \<and> ts_index st ! v \<noteq> None}"

definition idx :: "tarjan_state \<Rightarrow> nat \<Rightarrow> nat" where
  "idx st v = the (ts_index st ! v)"

abbreviation on_stk :: "tarjan_state \<Rightarrow> nat set" where
  "on_stk st \<equiv> set (ts_stack st)"

definition closed :: "tarjan_state \<Rightarrow> nat set" where
  "closed st = visited st - on_stk st"

definition tshape :: "nat \<Rightarrow> tarjan_state \<Rightarrow> bool" where
  "tshape n st \<longleftrightarrow>
     length (ts_index st) = n \<and> length (ts_low st) = n \<and> length (ts_on_stack st) = n \<and>
     on_stk st \<subseteq> visited st \<and>
     sorted_wrt (\<lambda>x y. idx st y < idx st x) (ts_stack st) \<and>
     (\<forall>v < n. ts_on_stack st ! v \<longleftrightarrow> v \<in> on_stk st) \<and>
     (\<forall>v \<in> visited st. idx st v < ts_next st)"

definition tgraph :: "nat list list \<Rightarrow> nat set \<Rightarrow> tarjan_state \<Rightarrow> bool" where
  "tgraph succ G st \<longleftrightarrow>
     G \<subseteq> on_stk st \<and>
     (\<forall>v \<in> visited st - G. set (succ ! v) \<subseteq> visited st) \<and>
     (\<forall>v \<in> closed st. set (succ ! v) \<subseteq> closed st) \<and>
     (\<forall>x \<in> on_stk st. \<forall>y \<in> on_stk st. idx st x \<le> idx st y \<longrightarrow> (x, y) \<in> reach succ) \<and>
     (\<forall>y \<in> on_stk st. \<exists>g \<in> G. idx st g \<le> idx st y \<and> (y, g) \<in> reach succ)"

definition tout :: "nat list list \<Rightarrow> tarjan_state \<Rightarrow> bool" where
  "tout succ st \<longleftrightarrow>
     \<Union> (set ` set (ts_out st)) = closed st \<and>
     (\<forall>c \<in> set (ts_out st). is_scc succ (set c) \<and> sorted c) \<and>
     distinct (concat (ts_out st))"

definition tinv :: "nat \<Rightarrow> nat list list \<Rightarrow> nat set \<Rightarrow> tarjan_state \<Rightarrow> bool" where
  "tinv n succ G st \<longleftrightarrow> tshape n st \<and> tgraph succ G st \<and> tout succ st"

definition white :: "tarjan_state \<Rightarrow> nat set" where
  "white st = {v. v < length (ts_index st) \<and> ts_index st ! v = None}"

definition grows :: "nat set \<Rightarrow> tarjan_state \<Rightarrow> tarjan_state \<Rightarrow> bool" where
  "grows X st st' \<longleftrightarrow>
     length (ts_index st') = length (ts_index st) \<and>
     visited st \<subseteq> visited st' \<and>
     (\<forall>x \<in> visited st. idx st' x = idx st x) \<and>
     (\<forall>x \<in> visited st - X. ts_low st' ! x = ts_low st ! x) \<and>
     ts_next st \<le> ts_next st' \<and>
     (\<forall>x \<in> visited st' - visited st. ts_next st \<le> idx st' x) \<and>
     (\<exists>s. ts_stack st' = s @ ts_stack st \<and> set s \<inter> visited st = {})"

text \<open>Lowering a low-link touches nothing else.\<close>

lemma lower_to_simps [simp]:
  "ts_index (lower_to v k st) = ts_index st" "ts_stack (lower_to v k st) = ts_stack st"
  "ts_on_stack (lower_to v k st) = ts_on_stack st" "ts_next (lower_to v k st) = ts_next st"
  "ts_out (lower_to v k st) = ts_out st" "visited (lower_to v k st) = visited st"
  "idx (lower_to v k st) = idx st" "closed (lower_to v k st) = closed st"
  "length (ts_low (lower_to v k st)) = length (ts_low st)" "white (lower_to v k st) = white st"
  by (simp_all add: lower_to_def visited_def idx_def closed_def white_def fun_eq_iff)

lemma lower_to_low: "v < length (ts_low st) \<Longrightarrow>
    ts_low (lower_to v k st) ! x = (if x = v then min (ts_low st ! v) k else ts_low st ! x)"
  by (simp add: lower_to_def nth_list_update)

lemma tinv_lower_to [simp]: "tinv n succ G (lower_to v k st) = tinv n succ G st"
  by (simp add: tinv_def tshape_def tgraph_def tout_def)

text \<open>Entering a node.\<close>

lemma enter_node_simps:
  assumes "v < length (ts_index st)"
  shows "visited (enter_node v st) = insert v (visited st)"
    and "idx (enter_node v st) x = (if x = v then ts_next st else idx st x)"
    and "v \<notin> visited st \<Longrightarrow> closed (enter_node v st) = closed st"
    and "white (enter_node v st) = white st - {v}"
  using assms
  by (auto simp: visited_def idx_def closed_def white_def enter_node_def nth_list_update split: if_splits)

lemma enter_node_fields:
  "length (ts_index (enter_node v st)) = length (ts_index st)"
  "length (ts_low (enter_node v st)) = length (ts_low st)"
  "length (ts_on_stack (enter_node v st)) = length (ts_on_stack st)"
  "ts_stack (enter_node v st) = v # ts_stack st" "ts_next (enter_node v st) = Suc (ts_next st)"
  "ts_out (enter_node v st) = ts_out st"
  "ts_on_stack (enter_node v st) = (ts_on_stack st)[v := True]"
  "ts_low (enter_node v st) = (ts_low st)[v := ts_next st]"
  by (simp_all add: enter_node_def)

lemma tshape_enter:
  assumes "tshape n st" "v < n" "v \<notin> visited st"
  shows "tshape n (enter_node v st)"
proof -
  have sub: "on_stk st \<subseteq> visited st" and len: "v < length (ts_index st)"
    and srt: "sorted_wrt (\<lambda>x y. idx st y < idx st x) (ts_stack st)"
    using assms by (auto simp: tshape_def)
  have "sorted_wrt (\<lambda>x y. idx (enter_node v st) y < idx (enter_node v st) x) (ts_stack st)"
    using sub assms(3) len by (intro sorted_wrt_mono_rel [OF _ srt]) (auto simp: enter_node_simps)
  moreover have "\<forall>y \<in> on_stk st. idx st y < ts_next st" "v \<notin> on_stk st"
    using assms sub by (auto simp: tshape_def)
  ultimately show ?thesis
    using assms len
    by (auto simp: tshape_def enter_node_simps enter_node_fields nth_list_update less_Suc_eq)
qed

lemma tinv_enter:
  assumes inv: "tinv n succ G st" and v: "v < n" "v \<notin> visited st"
    and gray: "\<forall>g \<in> G. (g, v) \<in> reach succ"
  shows "tinv n succ (insert v G) (enter_node v st)"
proof -
  let ?st = "enter_node v st"
  have sh: "tshape n st" and gr: "tgraph succ G st" and out: "tout succ st"
    using inv by (auto simp: tinv_def)
  have len: "v < length (ts_index st)" and sub: "on_stk st \<subseteq> visited st"
    using sh v by (auto simp: tshape_def)
  have idx_lt: "\<And>y. y \<in> on_stk st \<Longrightarrow> idx st y < ts_next st" using sh sub by (auto simp: tshape_def)
  note [simp] = enter_node_simps [OF len] enter_node_fields
  have cl: "closed ?st = closed st" using v by simp
  have to_v: "(x, v) \<in> reach succ" if "x \<in> on_stk st" for x
  proof -
    from gr that obtain g where "g \<in> G" "(x, g) \<in> reach succ" by (auto simp: tgraph_def)
    with gray show ?thesis by (meson rtrancl_trans)
  qed
  have fwd: "\<forall>x \<in> on_stk ?st. \<forall>y \<in> on_stk ?st. idx ?st x \<le> idx ?st y \<longrightarrow> (x, y) \<in> reach succ"
    using gr to_v idx_lt by (auto simp: tgraph_def dest: leD)
  have "\<forall>y \<in> on_stk ?st. \<exists>g \<in> insert v G. idx ?st g \<le> idx ?st y \<and> (y, g) \<in> reach succ"
    using gr sub v(2) unfolding tgraph_def by (auto split: if_splits) (metis subsetD)
  with fwd cl gr v(2) sub have "tgraph succ (insert v G) ?st"
    unfolding tgraph_def by auto
  moreover have "tout succ ?st" using out cl by (simp add: tout_def)
  ultimately show ?thesis using tshape_enter [OF sh v] by (simp add: tinv_def)
qed

lemma grows_enter:
  assumes "tshape n st" "v < n" "v \<notin> visited st"
  shows "grows {} st (enter_node v st)"
proof -
  have "v < length (ts_index st)" using assms by (simp add: tshape_def)
  moreover have "ts_low (enter_node v st) ! x = ts_low st ! x" if "x \<in> visited st" for x
    using that assms(3) by (cases "x = v") (auto simp: enter_node_fields)
  moreover have "ts_stack (enter_node v st) = [v] @ ts_stack st" by (simp add: enter_node_fields)
  ultimately show ?thesis
    using assms unfolding grows_def
    by (auto simp: enter_node_simps enter_node_fields intro!: exI [of _ "[v]"])
qed

text \<open>Growth composes.\<close>

lemma grows_refl [simp]: "grows X st st"
  by (auto simp: grows_def)

lemma grows_trans:
  assumes "grows X st st1" "grows Y st1 st2" "X \<subseteq> Z" "Y \<inter> visited st \<subseteq> Z"
  shows "grows Z st st2"
proof -
  obtain s1 s2 where "ts_stack st1 = s1 @ ts_stack st" "set s1 \<inter> visited st = {}"
    "ts_stack st2 = s2 @ ts_stack st1" "set s2 \<inter> visited st1 = {}"
    using assms(1,2) by (auto simp: grows_def)
  then have "\<exists>s. ts_stack st2 = s @ ts_stack st \<and> set s \<inter> visited st = {}"
    using assms(1) by (intro exI [of _ "s2 @ s1"]) (auto simp: grows_def)
  moreover have "\<forall>x \<in> visited st2 - visited st. ts_next st \<le> idx st2 x"
    using assms(1,2) unfolding grows_def by (metis Diff_iff le_trans)
  moreover have "\<forall>x \<in> visited st - Z. ts_low st2 ! x = ts_low st ! x"
  proof
    fix x assume "x \<in> visited st - Z"
    with assms have "x \<in> visited st - X" "x \<in> visited st1 - Y" by (auto simp: grows_def)
    with assms(1,2) show "ts_low st2 ! x = ts_low st ! x" by (simp add: grows_def)
  qed
  moreover have "\<forall>x \<in> visited st. idx st2 x = idx st x" "visited st \<subseteq> visited st2"
    using assms(1,2) unfolding grows_def by auto
  ultimately show ?thesis using assms(1,2) by (simp add: grows_def)
qed

lemma grows_lower_to: "v < length (ts_low st) \<Longrightarrow> grows {v} st (lower_to v k st)"
  by (auto simp: grows_def lower_to_low)

lemma white_mono: "grows X st st' \<Longrightarrow> card (white st') \<le> card (white st)"
proof -
  assume g: "grows X st st'"
  have "white st' \<subseteq> white st"
  proof
    fix x assume "x \<in> white st'"
    then have "x < length (ts_index st)" "x \<notin> visited st"
      using g by (auto simp: grows_def white_def visited_def)
    then show "x \<in> white st" by (simp add: white_def visited_def)
  qed
  moreover have "finite (white st)" by (simp add: white_def)
  ultimately show ?thesis by (rule card_mono [rotated])
qed

section \<open>The successor loop\<close>

definition loop_inv :: "nat list list \<Rightarrow> nat \<Rightarrow> nat list \<Rightarrow> nat set \<Rightarrow> tarjan_state \<Rightarrow> bool" where
  "loop_inv succ v stk seen st \<longleftrightarrow>
     (\<exists>s. ts_stack st = s @ v # stk) \<and>
     ts_low st ! v \<le> idx st v \<and>
     (\<exists>y \<in> on_stk st. (v, y) \<in> reach succ \<and> idx st y = ts_low st ! v) \<and>
     seen \<subseteq> visited st \<and>
     (\<forall>y \<in> seen \<inter> set stk. ts_low st ! v \<le> idx st y) \<and>
     (\<forall>x \<in> on_stk st - set (v # stk). \<forall>y \<in> set (succ ! x) \<inter> set stk. ts_low st ! v \<le> idx st y)"

definition sc_post :: "nat list list \<Rightarrow> nat \<Rightarrow> tarjan_state \<Rightarrow> tarjan_state \<Rightarrow> bool" where
  "sc_post succ v st st' \<longleftrightarrow>
     v \<in> visited st' \<and>
     (v \<in> on_stk st' \<longrightarrow> (\<exists>y \<in> on_stk st'. (v, y) \<in> reach succ \<and> idx st' y = ts_low st' ! v)) \<and>
     (v \<notin> on_stk st' \<longrightarrow> ts_low st' ! v = idx st' v) \<and>
     (\<forall>x \<in> on_stk st' - on_stk st. \<forall>y \<in> set (succ ! x) \<inter> on_stk st. ts_low st' ! v \<le> idx st' y)"

lemma loop_inv_enter:
  assumes "tshape n st" "v < n" "v \<notin> visited st"
  shows "loop_inv succ v (ts_stack st) {} (enter_node v st)"
proof -
  have "v < length (ts_index st)" "v < length (ts_low st)" using assms by (auto simp: tshape_def)
  then show ?thesis by (auto simp: loop_inv_def enter_node_simps enter_node_fields)
qed

text \<open>Lowering to the index of a reachable node of the stack keeps the loop invariant.\<close>

lemma loop_inv_lower:
  assumes "loop_inv succ v stk seen st" and len: "v < length (ts_low st)"
    and y: "ts_low st ! v \<le> k \<or> (\<exists>y \<in> on_stk st. (v, y) \<in> reach succ \<and> idx st y = k)"
  shows "loop_inv succ v stk seen (lower_to v k st)"
proof -
  have low: "ts_low (lower_to v k st) ! v = min (ts_low st ! v) k" by (simp add: lower_to_low len)
  have "\<exists>y \<in> on_stk st. (v, y) \<in> reach succ \<and> idx st y = min (ts_low st ! v) k"
    using assms(1) y unfolding loop_inv_def min_def by (auto split: if_splits)
  with assms(1) show ?thesis
    unfolding loop_inv_def low lower_to_simps by (auto simp: min.coboundedI1 subset_iff)
qed

lemma loop_inv_seen:
  assumes "loop_inv succ v stk seen st" "w \<in> visited st" "w \<in> set stk \<Longrightarrow> ts_low st ! v \<le> idx st w"
  shows "loop_inv succ v stk (insert w seen) st"
  using assms by (auto simp: loop_inv_def)

text \<open>After a recursive call, the invariant holds up to the low-link of the node called on.\<close>

lemma sc_post_low:
  assumes inv: "loop_inv succ v stk seen st" and sh: "tshape n st" and v: "v \<in> visited st"
    and gr: "grows {} st st1" and post: "sc_post succ w st st1"
    and w: "w \<notin> visited st" "(v, w) \<in> arcs succ"
  shows "\<exists>y \<in> on_stk st1. (v, y) \<in> reach succ \<and> idx st1 y = min (ts_low st ! v) (ts_low st1 ! w)"
proof (cases "ts_low st ! v \<le> ts_low st1 ! w")
  case True
  have "on_stk st \<subseteq> visited st" "on_stk st \<subseteq> on_stk st1" using sh gr by (auto simp: tshape_def grows_def)
  moreover have "\<And>x. x \<in> visited st \<Longrightarrow> idx st1 x = idx st x" using gr by (simp add: grows_def)
  ultimately show ?thesis using inv True unfolding loop_inv_def min_def by (metis subsetD)
next
  case False
  have "w \<in> on_stk st1"
  proof (rule ccontr)
    assume "w \<notin> on_stk st1"
    with post have "ts_low st1 ! w = idx st1 w" "w \<in> visited st1" by (auto simp: sc_post_def)
    with gr w have "ts_next st \<le> ts_low st1 ! w" by (simp add: grows_def)
    moreover have "ts_low st ! v < ts_next st"
      using inv sh v unfolding loop_inv_def tshape_def by (meson le_less_trans)
    ultimately show False using False by simp
  qed
  with post w(2) False show ?thesis
    unfolding sc_post_def min_def by (metis converse_rtrancl_into_rtrancl)
qed

lemma sc_post_bound:
  assumes inv: "loop_inv succ v stk seen st" and gr: "grows {} st st1" and post: "sc_post succ w st st1"
    and stk: "set stk \<subseteq> on_stk st" "set stk \<subseteq> visited st"
    and x: "x \<in> on_stk st1 - set (v # stk)" and y: "y \<in> set (succ ! x) \<inter> set stk"
  shows "min (ts_low st ! v) (ts_low st1 ! w) \<le> idx st1 y"
proof (cases "x \<in> on_stk st")
  case True
  then have "ts_low st ! v \<le> idx st y" using inv x y by (auto simp: loop_inv_def)
  moreover have "idx st1 y = idx st y" using y stk(2) gr unfolding grows_def by blast
  ultimately show ?thesis by simp
next
  case False
  then have "ts_low st1 ! w \<le> idx st1 y" using post x y stk(1) by (auto simp: sc_post_def)
  then show ?thesis by simp
qed

lemma loop_inv_rec:
  assumes inv: "loop_inv succ v stk seen st" and sh: "tshape n st" "tshape n st1"
    and gr: "grows {} st st1" and post: "sc_post succ w st st1"
    and w: "w \<notin> visited st" "(v, w) \<in> arcs succ"
  shows "loop_inv succ v stk (insert w seen) (lower_to v (ts_low st1 ! w) st1)"
proof -
  let ?k = "ts_low st1 ! w"
  have stk: "set stk \<subseteq> on_stk st" "set stk \<subseteq> visited st" and v: "v \<in> visited st" "v < n"
    using inv sh(1) by (auto simp: loop_inv_def tshape_def visited_def)
  obtain s s1 where s: "ts_stack st1 = (s1 @ s) @ v # stk"
    using inv gr by (auto simp: loop_inv_def grows_def)
  have same: "ts_low st1 ! v = ts_low st ! v" "\<And>x. x \<in> visited st \<Longrightarrow> idx st1 x = idx st x"
    "visited st \<subseteq> visited st1"
    using gr v by (auto simp: grows_def)
  have low: "ts_low (lower_to v ?k st1) ! v = min (ts_low st ! v) ?k"
    using sh(2) v by (simp add: lower_to_low same tshape_def)
  have "w \<in> visited st1" using post by (simp add: sc_post_def)
  moreover have "w \<notin> set stk" using w stk by blast
  moreover note sc_post_low [OF inv sh(1) v(1) gr post w]
  moreover note sc_post_bound [OF inv gr post stk]
  moreover have "\<forall>y \<in> seen \<inter> set stk. min (ts_low st ! v) ?k \<le> idx st1 y"
    using inv same stk unfolding loop_inv_def by (metis Int_iff min.coboundedI1 subsetD)
  moreover have "min (ts_low st ! v) ?k \<le> idx st1 v"
    using inv same v unfolding loop_inv_def by (metis min.coboundedI1)
  moreover have "seen \<subseteq> visited st1" using inv same by (auto simp: loop_inv_def)
  ultimately show ?thesis using s unfolding loop_inv_def low lower_to_simps by blast
qed

section \<open>Leaving a node\<close>

lemma pop_until_app:
  "v \<notin> set s \<Longrightarrow> pop_until v (s @ v # stk) os acc =
     (acc @ s @ [v], fold (\<lambda>w os. os[w := False]) (s @ [v]) os, stk)"
  by (induction s arbitrary: os acc) (auto simp: Let_def)

lemma length_fold_clear [simp]: "length (fold (\<lambda>w os. os[w := False]) xs os) = length os"
  by (induction xs arbitrary: os) auto

lemma nth_fold_clear:
  "x < length os \<Longrightarrow> fold (\<lambda>w os. os[w := False]) xs os ! x = (os ! x \<and> x \<notin> set xs)"
proof (induction xs arbitrary: os)
  case (Cons w xs)
  then show ?case by (cases "x = w") auto
qed simp

lemma sorted_wrt_irrefl_distinct: "sorted_wrt P xs \<Longrightarrow> (\<And>x. \<not> P x x) \<Longrightarrow> distinct xs"
  by (induction xs) auto

lemma reach_within:
  assumes "\<forall>x \<in> A. set (succ ! x) \<subseteq> A" "x \<in> A" "(x, y) \<in> reach succ"
  shows "y \<in> A"
  using assms(3,2,1) by (induction rule: rtrancl_induct) (auto simp: arcs_def)

text \<open>What is known when all successors of a node have been visited.\<close>

definition loop_done :: "nat \<Rightarrow> nat list list \<Rightarrow> nat set \<Rightarrow> nat \<Rightarrow> nat list \<Rightarrow> nat list \<Rightarrow> tarjan_state \<Rightarrow> bool"
  where
  "loop_done n succ G v s stk st \<longleftrightarrow>
     tinv n succ (insert v G) st \<and> loop_inv succ v stk (set (succ ! v)) st \<and>
     ts_stack st = s @ v # stk \<and> G \<subseteq> set stk"

lemma loop_done_stack:
  assumes "loop_done n succ G v s stk st"
  shows "distinct (s @ v # stk)" and "\<And>y. y \<in> set stk \<Longrightarrow> idx st y < idx st v"
    and "\<And>y. y \<in> set s \<Longrightarrow> idx st v < idx st y" and "set (s @ v # stk) \<subseteq> visited st"
proof -
  have srt: "sorted_wrt (\<lambda>x y. idx st y < idx st x) (s @ v # stk)"
    and vis: "set (s @ v # stk) \<subseteq> visited st"
    using assms by (auto simp: loop_done_def tinv_def tshape_def)
  show "distinct (s @ v # stk)" by (rule sorted_wrt_irrefl_distinct [OF srt]) simp
  show "\<And>y. y \<in> set stk \<Longrightarrow> idx st y < idx st v" "\<And>y. y \<in> set s \<Longrightarrow> idx st v < idx st y"
    using srt by (auto simp: sorted_wrt_append)
  show "set (s @ v # stk) \<subseteq> visited st" by (rule vis)
qed

lemma loop_done_black:
  assumes "loop_done n succ G v s stk st" "x \<in> set (s @ [v])"
  shows "set (succ ! x) \<subseteq> visited st"
proof (cases "x = v")
  case True
  with assms(1) show ?thesis by (simp add: loop_done_def loop_inv_def)
next
  case False
  with assms(2) loop_done_stack(1,4) [OF assms(1)] have "x \<in> visited st - insert v G"
    using assms(1) unfolding loop_done_def by auto
  then show ?thesis using assms(1) by (auto simp: loop_done_def tinv_def tgraph_def)
qed

lemma loop_done_low:
  assumes "loop_done n succ G v s stk st" "x \<in> set (s @ [v])" "y \<in> set (succ ! x)" "y \<in> set stk"
  shows "ts_low st ! v \<le> idx st y"
proof (cases "x = v")
  case True
  with assms show ?thesis by (auto simp: loop_done_def loop_inv_def)
next
  case False
  with assms(2) loop_done_stack(1) [OF assms(1)] have "x \<in> on_stk st - set (v # stk)"
    using assms(1) unfolding loop_done_def by auto
  then show ?thesis using assms by (auto simp: loop_done_def loop_inv_def)
qed

lemma loop_done_exits:
  assumes d: "loop_done n succ G v s stk st" and eq: "ts_low st ! v = idx st v"
    and x: "x \<in> set (s @ [v])"
  shows "set (succ ! x) \<subseteq> set (s @ [v]) \<union> closed st"
proof
  fix y assume y: "y \<in> set (succ ! x)"
  have "y \<in> visited st" using loop_done_black [OF d x] y by blast
  moreover have "y \<notin> set stk"
    using loop_done_low [OF d x y] loop_done_stack(2) [OF d] eq by fastforce
  ultimately show "y \<in> set (s @ [v]) \<union> closed st"
    using d by (auto simp: closed_def loop_done_def)
qed

lemma loop_done_reach:
  assumes d: "loop_done n succ G v s stk st" and eq: "ts_low st ! v = idx st v"
    and x: "x \<in> set (s @ [v])" "(x, y) \<in> reach succ"
  shows "y \<in> set (s @ [v]) \<union> closed st"
proof (rule reach_within [OF _ _ x(2)])
  have "\<forall>x \<in> closed st. set (succ ! x) \<subseteq> closed st"
    using d by (simp add: loop_done_def tinv_def tgraph_def)
  with loop_done_exits [OF d eq]
  show "\<forall>x \<in> set (s @ [v]) \<union> closed st. set (succ ! x) \<subseteq> set (s @ [v]) \<union> closed st" by blast
qed (use x in blast)

lemma loop_done_scc:
  assumes d: "loop_done n succ G v s stk st" and eq: "ts_low st ! v = idx st v"
  shows "is_scc succ (set (s @ [v]))"
proof -
  have stk: "ts_stack st = s @ v # stk" and gr: "tgraph succ (insert v G) st" and G: "G \<subseteq> set stk"
    using d by (auto simp: loop_done_def tinv_def)
  note dist = loop_done_stack(1) [OF d]
  have to_v: "(x, v) \<in> reach succ" if x: "x \<in> set (s @ [v])" for x
  proof -
    obtain g where g: "g \<in> insert v G" "(x, g) \<in> reach succ"
      using gr x stk unfolding tgraph_def by (metis in_set_conv_decomp set_append Un_iff append_Cons append_assoc append_Nil)
    have "g \<in> set (s @ [v]) \<union> closed st" by (rule loop_done_reach [OF d eq x g(2)])
    with g(1) G dist stk have "g = v" by (auto simp: closed_def)
    with g show ?thesis by simp
  qed
  have from_v: "(v, y) \<in> reach succ" if "y \<in> set (s @ [v])" for y
    using gr that stk loop_done_stack(3) [OF d] unfolding tgraph_def by (auto simp: less_imp_le)
  have "y \<in> set (s @ [v])" if x: "x \<in> set (s @ [v])" and "(x, y) \<in> reach succ" "(y, x) \<in> reach succ" for x y
  proof (rule ccontr)
    assume "y \<notin> set (s @ [v])"
    then have "y \<in> closed st" using loop_done_reach [OF d eq x that(2)] by simp
    moreover have "\<forall>z \<in> closed st. set (succ ! z) \<subseteq> closed st" using gr by (simp add: tgraph_def)
    ultimately have "x \<in> closed st" using that(3) reach_within by blast
    with x stk show False by (auto simp: closed_def)
  qed
  with to_v from_v show ?thesis
    unfolding is_scc_def by (metis empty_iff in_set_conv_decomp rtrancl_trans)
qed

lemma leave_node_close:
  assumes d: "loop_done n succ G v s stk st" and eq: "ts_low st ! v = idx st v"
  shows "leave_node v st = st\<lparr>ts_stack := stk,
     ts_on_stack := fold (\<lambda>w os. os[w := False]) (s @ [v]) (ts_on_stack st),
     ts_out := ts_out st @ [sort (s @ [v])]\<rparr>"
proof -
  have "v \<in> visited st" "v \<notin> set s" "ts_stack st = s @ v # stk"
    using loop_done_stack(1,4) [OF d] d by (auto simp: loop_done_def)
  moreover from this eq have "ts_index st ! v = Some (ts_low st ! v)"
    by (auto simp: visited_def idx_def)
  ultimately show ?thesis by (simp add: leave_node_def pop_until_app)
qed

lemma leave_node_close_fields:
  assumes "loop_done n succ G v s stk st" "ts_low st ! v = idx st v"
  shows "visited (leave_node v st) = visited st" "idx (leave_node v st) = idx st"
    "ts_stack (leave_node v st) = stk" "ts_low (leave_node v st) = ts_low st"
    "ts_next (leave_node v st) = ts_next st" "length (ts_index (leave_node v st)) = length (ts_index st)"
    "ts_on_stack (leave_node v st) = fold (\<lambda>w os. os[w := False]) (s @ [v]) (ts_on_stack st)"
    "ts_out (leave_node v st) = ts_out st @ [sort (s @ [v])]"
  by (auto simp: leave_node_close [OF assms] visited_def idx_def)

lemma tinv_close:
  assumes d: "loop_done n succ G v s stk st" and eq: "ts_low st ! v = idx st v"
  shows "tinv n succ G (leave_node v st)"
proof -
  let ?st = "leave_node v st"
  have stk: "ts_stack st = s @ v # stk" and sh: "tshape n st" and gr: "tgraph succ (insert v G) st"
    and out: "tout succ st" and G: "G \<subseteq> set stk"
    using d by (auto simp: loop_done_def tinv_def)
  note dist = loop_done_stack(1) [OF d] and vis = loop_done_stack(4) [OF d]
  note [simp] = leave_node_close_fields [OF d eq]
  have on: "on_stk ?st = set stk" and cl: "closed ?st = closed st \<union> set (s @ [v])"
    using stk dist vis by (auto simp: closed_def)
  have "tshape n ?st"
    using sh stk dist by (auto simp: tshape_def nth_fold_clear sorted_wrt_append simp del: fold_append fold.simps)
  moreover have "tgraph succ G ?st"
  proof -
    have "\<forall>x \<in> visited st - G. set (succ ! x) \<subseteq> visited st"
      using gr loop_done_black [OF d, of v] unfolding tgraph_def by auto
    moreover have "\<forall>x \<in> closed ?st. set (succ ! x) \<subseteq> closed ?st"
      using gr loop_done_exits [OF d eq] unfolding cl tgraph_def by blast
    moreover have "\<forall>y \<in> set stk. \<exists>g \<in> G. idx st g \<le> idx st y \<and> (y, g) \<in> reach succ"
    proof
      fix y assume y: "y \<in> set stk"
      then obtain g where "g \<in> insert v G" "idx st g \<le> idx st y" "(y, g) \<in> reach succ"
        using gr stk unfolding tgraph_def by force
      with loop_done_stack(2) [OF d y] show "\<exists>g \<in> G. idx st g \<le> idx st y \<and> (y, g) \<in> reach succ" by auto
    qed
    ultimately show ?thesis using gr G stk unfolding tgraph_def on by auto
  qed
  moreover have "tout succ ?st"
  proof -
    have "closed st \<inter> set (s @ [v]) = {}" using stk by (auto simp: closed_def)
    then show ?thesis
      using out loop_done_scc [OF d eq] dist unfolding tout_def cl by auto
  qed
  ultimately show ?thesis by (simp add: tinv_def)
qed

lemma tinv_keep:
  assumes d: "loop_done n succ G v s stk st" and ne: "ts_low st ! v \<noteq> idx st v"
  shows "leave_node v st = st" "tinv n succ G st"
proof -
  have inv: "tinv n succ (insert v G) st" and stk: "ts_stack st = s @ v # stk" and G: "G \<subseteq> set stk"
    using d by (auto simp: loop_done_def)
  have gr: "tgraph succ (insert v G) st" using inv by (simp add: tinv_def)
  note vis = loop_done_stack(4) [OF d]
  show "leave_node v st = st" using ne by (auto simp: leave_node_def idx_def)
  obtain y where y: "y \<in> on_stk st" "(v, y) \<in> reach succ" "idx st y = ts_low st ! v" "ts_low st ! v < idx st v"
    using d ne unfolding loop_done_def loop_inv_def by force
  obtain g where g: "g \<in> insert v G" "idx st g \<le> idx st y" "(y, g) \<in> reach succ"
    using gr y(1) unfolding tgraph_def by blast
  have "g \<in> G" using g y by auto
  have "\<exists>g \<in> G. idx st g \<le> idx st x \<and> (x, g) \<in> reach succ" if x: "x \<in> on_stk st" for x
  proof -
    obtain h where h: "h \<in> insert v G" "idx st h \<le> idx st x" "(x, h) \<in> reach succ"
      using gr x unfolding tgraph_def by blast
    show ?thesis
    proof (cases "h \<in> G")
      case True
      with h show ?thesis by blast
    next
      case False
      with h have "h = v" by simp
      have "(x, g) \<in> reach succ" using h(3) y(2) g(3) unfolding \<open>h = v\<close> by (meson rtrancl_trans)
      moreover have "idx st g \<le> idx st x" using g(2) y(3,4) h(2) \<open>h = v\<close> by simp
      ultimately show ?thesis using \<open>g \<in> G\<close> by blast
    qed
  qed
  moreover have "\<forall>x \<in> visited st - G. set (succ ! x) \<subseteq> visited st"
    using gr loop_done_black [OF d, of v] unfolding tgraph_def by auto
  ultimately have "tgraph succ G st" using gr G stk unfolding tgraph_def by auto
  with inv show "tinv n succ G st" by (simp add: tinv_def)
qed

lemma leave_node_correct:
  assumes d: "loop_done n succ G v s stk st" and g: "grows {} st0 st" and stk: "ts_stack st0 = stk"
  shows "tinv n succ G (leave_node v st) \<and> grows {} st0 (leave_node v st)
    \<and> sc_post succ v st0 (leave_node v st)"
proof (cases "ts_low st ! v = idx st v")
  case True
  have "v \<in> visited st" "v \<notin> set stk" using loop_done_stack(1,4) [OF d] by auto
  then show ?thesis
    using tinv_close [OF d True] g True stk
    by (auto simp: grows_def sc_post_def leave_node_close_fields [OF d True])
next
  case False
  have "v \<in> visited st" using loop_done_stack(4) [OF d] by auto
  moreover have "\<exists>y \<in> on_stk st. (v, y) \<in> reach succ \<and> idx st y = ts_low st ! v"
    using d unfolding loop_done_def loop_inv_def by blast
  moreover have "v \<in> on_stk st" "on_stk st = set (s @ [v]) \<union> set stk" using d by (auto simp: loop_done_def)
  moreover have "\<forall>x \<in> set (s @ [v]). \<forall>y \<in> set (succ ! x) \<inter> set stk. ts_low st ! v \<le> idx st y"
    using loop_done_low [OF d] by blast
  ultimately have "sc_post succ v st0 st" unfolding sc_post_def stk by blast
  with tinv_keep [OF d False] g show ?thesis by simp
qed

section \<open>Correctness of the traversal\<close>

lemma white_enter:
  assumes "tshape n st" "v < n" "v \<notin> visited st"
  shows "card (white (enter_node v st)) < card (white st)"
proof -
  have len: "v < length (ts_index st)" using assms by (simp add: tshape_def)
  then have "v \<in> white st" using assms by (simp add: white_def visited_def)
  moreover have "finite (white st)" by (simp add: white_def)
  ultimately show ?thesis using len by (simp add: enter_node_simps card_Diff1_less del: card_Diff_insert)
qed

lemma loop_inv_old:
  assumes li: "loop_inv succ v stk seen st" and len: "v < length (ts_low st)"
    and w: "w \<in> visited st" "(v, w) \<in> arcs succ" and on: "on \<longleftrightarrow> w \<in> on_stk st"
  shows "loop_inv succ v stk (insert w seen) (if on then lower_to v (idx st w) st else st)"
proof (cases on)
  case True
  have "loop_inv succ v stk seen (lower_to v (idx st w) st)"
    by (rule loop_inv_lower [OF li len]) (use True on w in blast)
  then show ?thesis
    using True w by (auto intro!: loop_inv_seen simp: lower_to_low len)
next
  case False
  then have "w \<notin> set stk" using on li by (auto simp: loop_inv_def)
  then have "loop_inv succ v stk (insert w seen) st" by (intro loop_inv_seen [OF li w(1)]) simp
  with False show ?thesis by simp
qed

text \<open>What a call of the two functions establishes.\<close>

definition sc_ok :: "nat \<Rightarrow> nat \<Rightarrow> nat list list \<Rightarrow> nat set \<Rightarrow> nat \<Rightarrow> tarjan_state \<Rightarrow> bool" where
  "sc_ok n fuel succ G v st \<longleftrightarrow> (\<exists>st'. strongconnect fuel succ v st = Some st' \<and>
     tinv n succ G st' \<and> grows {} st st' \<and> sc_post succ v st st')"

definition vs_ok ::
  "nat \<Rightarrow> nat \<Rightarrow> nat list list \<Rightarrow> nat set \<Rightarrow> nat \<Rightarrow> nat list \<Rightarrow> nat list \<Rightarrow> nat set \<Rightarrow> tarjan_state \<Rightarrow> bool"
where
  "vs_ok n fuel succ G v ws stk seen st \<longleftrightarrow> (\<exists>st'. visit_succs fuel succ v ws st = Some st' \<and>
     tinv n succ (insert v G) st' \<and> grows {v} st st' \<and> loop_inv succ v stk (seen \<union> set ws) st')"

lemma sc_ok_step:
  assumes inv: "tinv n succ G st" and v: "v < n" "v \<notin> visited st"
    and IH: "vs_ok n fuel succ G v (succ ! v) (ts_stack st) {} (enter_node v st)"
  shows "sc_ok n (Suc fuel) succ G v st"
proof -
  have g1: "grows {} st (enter_node v st)"
    by (rule grows_enter) (use inv v in \<open>auto simp: tinv_def\<close>)
  obtain st2 where st2: "visit_succs fuel succ v (succ ! v) (enter_node v st) = Some st2"
    "tinv n succ (insert v G) st2" "grows {v} (enter_node v st) st2"
    "loop_inv succ v (ts_stack st) (set (succ ! v)) st2"
    using IH by (auto simp: vs_ok_def)
  obtain s where s: "ts_stack st2 = s @ v # ts_stack st" using st2(4) by (auto simp: loop_inv_def)
  have "G \<subseteq> on_stk st" using inv by (simp add: tinv_def tgraph_def)
  with st2 s have d: "loop_done n succ G v s (ts_stack st) st2" by (simp add: loop_done_def)
  have "grows {} st st2" by (rule grows_trans [OF g1 st2(3)]) (use v in auto)
  from leave_node_correct [OF d this refl] st2(1) show ?thesis by (auto simp: sc_ok_def)
qed

lemma vs_ok_rec:
  assumes inv: "tinv n succ (insert v G) st" and v: "v < n" and li: "loop_inv succ v stk seen st"
    and w: "ts_index st ! w = None" "(v, w) \<in> arcs succ"
    and st1: "strongconnect fuel succ w st = Some st1" "tinv n succ (insert v G) st1" "grows {} st st1"
      "sc_post succ w st st1"
    and IH: "loop_inv succ v stk (insert w seen) (lower_to v (ts_low st1 ! w) st1) \<Longrightarrow>
      vs_ok n fuel succ G v ws stk (insert w seen) (lower_to v (ts_low st1 ! w) st1)"
  shows "vs_ok n fuel succ G v (w # ws) stk seen st"
proof -
  let ?st2 = "lower_to v (ts_low st1 ! w) st1"
  have "w \<notin> visited st" using w by (simp add: visited_def)
  then have "loop_inv succ v stk (insert w seen) ?st2"
    using inv st1(2) w(2) by (intro loop_inv_rec [OF li _ _ st1(3,4)]) (auto simp: tinv_def)
  from IH [OF this] obtain st' where st': "visit_succs fuel succ v ws ?st2 = Some st'"
    "tinv n succ (insert v G) st'" "grows {v} ?st2 st'" "loop_inv succ v stk (insert w seen \<union> set ws) st'"
    by (auto simp: vs_ok_def)
  have "v < length (ts_low st1)" using st1(2) v by (simp add: tinv_def tshape_def)
  then have "grows {v} st ?st2" by (intro grows_trans [OF st1(3) grows_lower_to]) auto
  from grows_trans [OF this st'(3)] have "grows {v} st st'" by simp
  with st' w st1(1) show ?thesis by (simp add: vs_ok_def)
qed

lemma vs_ok_old:
  assumes inv: "tinv n succ (insert v G) st" and v: "v < n" and w: "ts_index st ! w = Some iw" "w < n"
    "(v, w) \<in> arcs succ" and li: "loop_inv succ v stk seen st"
    and IH: "loop_inv succ v stk (insert w seen) (if ts_on_stack st ! w then lower_to v iw st else st) \<Longrightarrow>
      vs_ok n fuel succ G v ws stk (insert w seen) (if ts_on_stack st ! w then lower_to v iw st else st)"
  shows "vs_ok n fuel succ G v (w # ws) stk seen st"
proof -
  let ?st2 = "if ts_on_stack st ! w then lower_to v iw st else st"
  have len: "v < length (ts_low st)" and on: "ts_on_stack st ! w \<longleftrightarrow> w \<in> on_stk st"
    and vis: "w \<in> visited st" "idx st w = iw"
    using inv v w by (auto simp: tinv_def tshape_def visited_def idx_def)
  have "loop_inv succ v stk (insert w seen) ?st2"
    using loop_inv_old [OF li len vis(1) w(3) on] unfolding vis(2) .
  from IH [OF this] obtain st' where st': "visit_succs fuel succ v ws ?st2 = Some st'"
    "tinv n succ (insert v G) st'" "grows {v} ?st2 st'" "loop_inv succ v stk (insert w seen \<union> set ws) st'"
    by (auto simp: vs_ok_def)
  have "grows {v} st ?st2" using grows_lower_to [OF len] by simp
  from grows_trans [OF this st'(3)] have "grows {v} st st'" by simp
  with st' w show ?thesis by (simp add: vs_ok_def)
qed

lemma strongconnect_correct:
  assumes wf: "wf_graph n succ"
  shows "tinv n succ G st \<Longrightarrow> v < n \<Longrightarrow> v \<notin> visited st \<Longrightarrow> \<forall>g \<in> G. (g, v) \<in> reach succ \<Longrightarrow>
      card (white st) \<le> fuel \<Longrightarrow> sc_ok n fuel succ G v st"
    and "tinv n succ (insert v G) st \<Longrightarrow> v < n \<Longrightarrow> \<forall>g \<in> G. (g, v) \<in> reach succ \<Longrightarrow>
      card (white st) \<le> fuel \<Longrightarrow> set ws \<subseteq> set (succ ! v) \<Longrightarrow> loop_inv succ v stk seen st \<Longrightarrow>
      vs_ok n fuel succ G v ws stk seen st"
  using wf
proof (induction fuel succ v st and fuel succ v ws st arbitrary: G and G stk seen
    rule: strongconnect_visit_succs.induct)
  case (1 succ v st)
  have "v \<in> white st" using 1 by (auto simp: white_def visited_def tinv_def tshape_def)
  moreover have "finite (white st)" by (simp add: white_def)
  ultimately show ?case using 1 by (simp add: card_eq_0_iff)
next
  case (2 fuel succ v st)
  have sh: "tshape n st" using 2 by (simp add: tinv_def)
  have "card (white (enter_node v st)) \<le> fuel"
    using white_enter [OF sh "2.prems"(2,3)] "2.prems"(5) by simp
  then have "vs_ok n fuel succ G v (succ ! v) (ts_stack st) {} (enter_node v st)"
    using tinv_enter [OF "2.prems"(1-4)] loop_inv_enter [OF sh "2.prems"(2,3)] "2.prems"
    by (intro "2.IH") auto
  then show ?case by (rule sc_ok_step [OF "2.prems"(1-3)])
next
  case (3 fuel succ v st)
  then show ?case by (simp add: vs_ok_def)
next
  case (4 fuel succ v w ws st)
  note p = "4.prems"
  have w: "w < n" "(v, w) \<in> arcs succ" "set ws \<subseteq> set (succ ! v)"
    using p by (auto simp: wf_graph_def arcs_def)
  show ?case
  proof (cases "ts_index st ! w")
    case None
    then have "w \<notin> visited st" by (simp add: visited_def)
    moreover have "\<forall>g \<in> insert v G. (g, w) \<in> reach succ" using p(3) w(2) by (auto intro: rtrancl_into_rtrancl)
    ultimately obtain st1 where st1: "strongconnect fuel succ w st = Some st1"
      "tinv n succ (insert v G) st1" "grows {} st st1" "sc_post succ w st st1"
      using "4.IH"(1) [OF None p(1) w(1) _ _ p(4,7)] by (auto simp: sc_ok_def)
    moreover have "card (white st1) \<le> fuel" using white_mono [OF st1(3)] p(4) by simp
    ultimately show ?thesis
      using p(2,3,7) w(3) by (intro vs_ok_rec [OF p(1,2,6) None w(2)]) (auto intro!: "4.IH"(2) [OF None])
  next
    case (Some iw)
    then show ?thesis
      using p(1-4,7) w(3) by (intro vs_ok_old [OF p(1,2) Some w(1,2) p(6)] "4.IH"(3) [OF Some]) auto
  qed
qed

lemma tarjan_loop_correct:
  assumes wf: "wf_graph n succ"
  shows "tinv n succ {} st \<Longrightarrow> set vs \<subseteq> {..<n} \<Longrightarrow>
    \<exists>st'. tarjan_loop n succ vs st = Some st' \<and> tinv n succ {} st' \<and> visited st \<union> set vs \<subseteq> visited st'"
proof (induction vs arbitrary: st)
  case (Cons v vs)
  have len: "length (ts_index st) = n" using Cons by (simp add: tinv_def tshape_def)
  show ?case
  proof (cases "ts_index st ! v = None")
    case True
    have "white st \<subseteq> {..<n}" using len by (auto simp: white_def)
    then have "card (white st) \<le> n" using card_mono [of "{..<n}"] by simp
    moreover have "v < n" "v \<notin> visited st" using Cons.prems True by (auto simp: visited_def)
    ultimately have "sc_ok n n succ {} v st" using strongconnect_correct(1) [OF wf Cons.prems(1)] by blast
    then obtain st1 where st1: "strongconnect n succ v st = Some st1" "tinv n succ {} st1"
      "grows {} st st1" "v \<in> visited st1"
      unfolding sc_ok_def sc_post_def by blast
    from Cons.IH [OF st1(2)] Cons.prems(2) obtain st' where "tarjan_loop n succ vs st1 = Some st'"
      "tinv n succ {} st'" "visited st1 \<union> set vs \<subseteq> visited st'" by auto
    with st1 True show ?thesis by (auto simp: grows_def)
  next
    case False
    then have "v \<in> visited st" using Cons.prems len by (simp add: visited_def)
    with Cons.IH [OF Cons.prems(1)] Cons.prems(2) False show ?thesis by auto
  qed
qed simp

lemma tinv_init: "tinv n succ {} (tarjan_init n)"
proof -
  have "visited (tarjan_init n) = {}" by (auto simp: visited_def tarjan_init_def)
  then show ?thesis by (auto simp: tinv_def tshape_def tgraph_def tout_def closed_def tarjan_init_def)
qed

text \<open>
  The components are the maximal strongly connected sets, each listed once and in increasing order,
  and every node is in exactly one of them.
\<close>

lemma tarjan_loop_components:
  assumes wf: "wf_graph n succ"
  shows "\<exists>st. tarjan_loop n succ [0..<n] (tarjan_init n) = Some st \<and>
    distinct (concat (ts_out st)) \<and> set (concat (ts_out st)) = {..<n} \<and>
    (\<forall>c \<in> set (ts_out st). is_scc succ (set c) \<and> sorted c)"
proof -
  obtain st where st: "tarjan_loop n succ [0..<n] (tarjan_init n) = Some st" "tinv n succ {} st"
    "{..<n} \<subseteq> visited st"
    using tarjan_loop_correct [OF wf tinv_init, of "[0..<n]"] by (auto simp: lessThan_atLeast0)
  have "on_stk st = {}" using st(2) by (auto simp: tinv_def tgraph_def)
  moreover have "visited st \<subseteq> {..<n}" using st(2) by (auto simp: visited_def tinv_def tshape_def)
  ultimately have "closed st = {..<n}" using st(3) by (auto simp: closed_def)
  with st show ?thesis by (auto simp: tinv_def tout_def)
qed

text \<open>The successor lists the edges give.\<close>

lemma succ_lists_append:
  "length (fold (\<lambda>(from, to) s. s[from := s ! from @ [to]]) es s) = length s"
  "v < length s \<Longrightarrow> fold (\<lambda>(from, to) s. s[from := s ! from @ [to]]) es s ! v =
     s ! v @ map snd (filter (\<lambda>e. fst e = v) es)"
  by (induction es arbitrary: s) (auto simp: nth_list_update)

lemma succ_lists_simps:
  "length (succ_lists n es) = n"
  "v < n \<Longrightarrow> succ_lists n es ! v = map snd (filter (\<lambda>e. fst e = v) es)"
  by (simp_all add: succ_lists_def succ_lists_append)

lemma arcs_succ_lists: "\<forall>(v, w) \<in> set es. v < n \<Longrightarrow> arcs (succ_lists n es) = set es"
  by (force simp: arcs_def succ_lists_simps)

lemma wf_succ_lists: "\<forall>(v, w) \<in> set es. v < n \<and> w < n \<Longrightarrow> wf_graph n (succ_lists n es)"
  by (auto simp: wf_graph_def succ_lists_simps)

text \<open>The components the code works with, and the owner table of the nodes.\<close>

lemma tarjan_components:
  assumes "\<forall>(v, w) \<in> set es. v < n \<and> w < n"
  obtains sccs where "tarjan n es = Some sccs" "distinct (concat sccs)" "set (concat sccs) = {..<n}"
    "\<And>c. c \<in> set sccs \<Longrightarrow> is_scc (succ_lists n es) (set c) \<and> sorted c"
  using tarjan_loop_components [OF wf_succ_lists [OF assms]] by (auto simp: tarjan_def)

lemma fold_owner_nth:
  "v \<notin> set scc \<Longrightarrow> fold (\<lambda>v out. out[v := ci]) scc out ! v = out ! v"
  "v < length out \<Longrightarrow> v \<in> set scc \<Longrightarrow> fold (\<lambda>v out. out[v := ci]) scc out ! v = ci"
  "length (fold (\<lambda>v out. out[v := ci]) scc out) = length out"
proof -
  show other: "v \<notin> set scc \<Longrightarrow> fold (\<lambda>v out. out[v := ci]) scc out ! v = out ! v" for out scc v
    by (induction scc arbitrary: out) auto
  show "v < length out \<Longrightarrow> v \<in> set scc \<Longrightarrow> fold (\<lambda>v out. out[v := ci]) scc out ! v = ci" for out
  proof (induction scc arbitrary: out)
    case (Cons w scc)
    then show ?case by (cases "v \<in> set scc") (auto simp: other)
  qed simp
  show "length (fold (\<lambda>v out. out[v := ci]) scc out) = length out"
    by (induction scc arbitrary: out) auto
qed

abbreviation set_owners :: "(nat \<times> nat list) list \<Rightarrow> nat list \<Rightarrow> nat list" where
  "set_owners \<equiv> fold (\<lambda>(ci, scc) out. fold (\<lambda>v out. out[v := ci]) scc out)"

lemma set_owners_other:
  "v \<notin> set (concat sccs) \<Longrightarrow> set_owners (enumerate k sccs) out ! v = out ! v"
  by (induction sccs arbitrary: k out) (auto simp: fold_owner_nth)

lemma set_owners_nth:
  "distinct (concat sccs) \<Longrightarrow> v < length out \<Longrightarrow> ci < length sccs \<Longrightarrow> v \<in> set (sccs ! ci) \<Longrightarrow>
   set_owners (enumerate k sccs) out ! v = k + ci"
proof (induction sccs arbitrary: k out ci)
  case (Cons scc sccs)
  let ?out = "fold (\<lambda>v out. out[v := k]) scc out"
  show ?case
  proof (cases ci)
    case 0
    with Cons.prems have "v \<notin> set (concat sccs)" "v \<in> set scc" by auto
    then show ?thesis using 0 Cons.prems(2) set_owners_other [of v sccs "Suc k" ?out]
      by (simp add: fold_owner_nth)
  next
    case (Suc c)
    with Cons.prems Cons.IH [of ?out c "Suc k"] show ?thesis by (simp add: fold_owner_nth)
  qed
qed simp

lemma component_of_nth:
  assumes "distinct (concat sccs)" "set (concat sccs) = {..<n}" "ci < length sccs" "v \<in> set (sccs ! ci)"
  shows "component_of n sccs ! v = ci"
proof -
  have "v \<in> set (concat sccs)" using assms(3,4) nth_mem by auto
  then have "v < n" unfolding assms(2) by simp
  with assms show ?thesis using set_owners_nth [of sccs v "replicate n 0" ci 0] by (simp add: component_of_def)
qed

lemma component_of_iff:
  assumes "distinct (concat sccs)" "set (concat sccs) = {..<n}" "v < n"
  shows "component_of n sccs ! v < length sccs"
    and "v \<in> set (sccs ! ci) \<and> ci < length sccs \<longleftrightarrow> component_of n sccs ! v = ci"
proof -
  have "v \<in> set (concat sccs)" using assms by simp
  then obtain ci where "ci < length sccs" "v \<in> set (sccs ! ci)" by (metis UN_E in_set_conv_nth set_concat)
  with component_of_nth [OF assms(1,2)] show "component_of n sccs ! v < length sccs"
    "v \<in> set (sccs ! ci') \<and> ci' < length sccs \<longleftrightarrow> component_of n sccs ! v = ci'" for ci'
    by auto
qed

text \<open>Two nodes have the same owner when each reaches the other.\<close>

lemma component_of_reach:
  assumes "distinct (concat sccs)" "set (concat sccs) = {..<n}"
    and scc: "\<And>c. c \<in> set sccs \<Longrightarrow> is_scc succ (set c)" and v: "v < n" and w: "w < n"
  shows "component_of n sccs ! v = component_of n sccs ! w \<longleftrightarrow> (v, w) \<in> reach succ \<and> (w, v) \<in> reach succ"
proof -
  let ?c = "component_of n sccs ! v"
  have c: "?c < length sccs" "v \<in> set (sccs ! ?c)" using component_of_iff [OF assms(1,2) v] by auto
  then have "is_scc succ (set (sccs ! ?c))" using scc by simp
  then have "w \<in> set (sccs ! ?c) \<longleftrightarrow> (v, w) \<in> reach succ \<and> (w, v) \<in> reach succ"
    using c(2) by (auto simp: is_scc_def)
  moreover have "w \<in> set (sccs ! ?c) \<longleftrightarrow> component_of n sccs ! w = ?c"
    using component_of_iff(2) [OF assms(1,2) w, of ?c] c(1) by auto
  ultimately show ?thesis by auto
qed

end
