(* ===== verification/Topo.thy ===== *)
theory Topo
  imports Scc
begin

text \<open>
  The evaluation order of the components (\<^verbatim>\<open>topological\<close> of \<^verbatim>\<open>program.rs\<close>): Kahn's algorithm
  over the component graph, taking the smallest ready component first, and the proof that it
  lists every component once, each after the components it depends on.

  \<^verbatim>\<open>indegree[j] -= 1\<close> panics below zero; the model returns \<^const>\<open>None\<close> there, so the theorems show
  that it never happens.
\<close>

section \<open>The algorithm\<close>

definition comp_edge :: "nat list \<Rightarrow> nat \<times> nat \<Rightarrow> nat list list \<times> nat list \<Rightarrow> nat list list \<times> nat list" where
  "comp_edge owner e st =
     (case (e, st) of ((from, to), (succ, indegree)) \<Rightarrow>
        let a = owner ! from; b = owner ! to
        in if a \<noteq> b \<and> a \<notin> set (succ ! b)
           then (succ[b := insort_insert a (succ ! b)], indegree[a := Suc (indegree ! a)])
           else (succ, indegree))"

definition comp_graph :: "nat \<Rightarrow> nat list \<Rightarrow> (nat \<times> nat) list \<Rightarrow> nat list list \<times> nat list" where
  "comp_graph n owner es = fold (comp_edge owner) es (replicate n [], replicate n 0)"

fun release :: "nat list \<Rightarrow> nat list \<Rightarrow> nat list \<Rightarrow> (nat list \<times> nat list) option" where
  "release [] indegree ready = Some (indegree, ready)"
| "release (j # js) indegree ready =
     (case indegree ! j of
        0 \<Rightarrow> None
      | Suc k \<Rightarrow> release js (indegree[j := k]) (if k = 0 then insort_insert j ready else ready))"

fun topo_loop :: "nat \<Rightarrow> nat list list \<Rightarrow> nat list \<Rightarrow> nat list \<Rightarrow> nat list \<Rightarrow> nat list option" where
  "topo_loop fuel succ indegree [] out = Some out"
| "topo_loop 0 succ indegree (i # ready) out = None"
| "topo_loop (Suc fuel) succ indegree (i # ready) out =
     (case release (succ ! i) indegree ready of
        None \<Rightarrow> None
      | Some (indegree', ready') \<Rightarrow> topo_loop fuel succ indegree' ready' (out @ [i]))"

definition topological :: "nat \<Rightarrow> nat list \<Rightarrow> (nat \<times> nat) list \<Rightarrow> nat list option" where
  "topological n owner es =
     (case comp_graph n owner es of
        (succ, indegree) \<Rightarrow>
          map_option (\<lambda>out. fold push_new [0..<n] out)
            (topo_loop n succ indegree (filter (\<lambda>i. indegree ! i = 0) [0..<n]) []))"

section \<open>The component graph\<close>

text \<open>\<open>comp_deps\<close> relates a component to the other components it depends on.\<close>

definition comp_deps :: "nat list \<Rightarrow> (nat \<times> nat) list \<Rightarrow> (nat \<times> nat) set" where
  "comp_deps owner es = {(owner ! x, owner ! y) | x y. (x, y) \<in> set es \<and> owner ! x \<noteq> owner ! y}"

definition graph_of :: "nat \<Rightarrow> (nat \<times> nat) set \<Rightarrow> nat list list \<times> nat list \<Rightarrow> bool" where
  "graph_of n D st \<longleftrightarrow>
     (case st of (succ, indegree) \<Rightarrow>
        length succ = n \<and> length indegree = n \<and>
        (\<forall>b < n. distinct (succ ! b) \<and> set (succ ! b) = {a. (a, b) \<in> D}) \<and>
        (\<forall>a < n. indegree ! a = card {b. (a, b) \<in> D}))"

lemma graph_of_edge:
  assumes g: "graph_of n D st" and D: "D \<subseteq> {..<n} \<times> {..<n}"
    and a: "owner ! x < n" and b: "owner ! y < n"
  shows "graph_of n (D \<union> comp_deps owner [(x, y)]) (comp_edge owner (x, y) st)"
proof -
  obtain succ indeg where st: "st = (succ, indeg)" by force
  let ?a = "owner ! x" and ?b = "owner ! y"
  show ?thesis
  proof (cases "?a \<noteq> ?b \<and> ?a \<notin> set (succ ! ?b)")
    case True
    then have "(?a, ?b) \<notin> D" using g b by (auto simp: graph_of_def st)
    have fin: "finite {c. (d, c) \<in> D}" for d
      by (rule finite_subset [of _ "{..<n}"]) (use D in auto)
    have "{c. c = ?b \<or> (?a, c) \<in> D} = insert ?b {c. (?a, c) \<in> D}" by auto
    then have card: "card {c. c = ?b \<or> (?a, c) \<in> D} = Suc (card {c. (?a, c) \<in> D})"
      using fin \<open>(?a, ?b) \<notin> D\<close> by simp
    have "comp_deps owner [(x, y)] = {(?a, ?b)}" using True by (auto simp: comp_deps_def)
    with True g a b card show ?thesis
      by (simp add: graph_of_def st comp_edge_def Let_def nth_list_update set_insort_insert distinct_insort_insert)
        auto
  next
    case False
    then have "D \<union> comp_deps owner [(x, y)] = D" using g b by (auto simp: graph_of_def st comp_deps_def)
    with False g show ?thesis by (auto simp: st comp_edge_def Let_def)
  qed
qed

lemma graph_of_fold:
  assumes "graph_of n D st" "D \<subseteq> {..<n} \<times> {..<n}"
    and "\<forall>(x, y) \<in> set es. owner ! x < n \<and> owner ! y < n"
  shows "graph_of n (D \<union> comp_deps owner es) (fold (comp_edge owner) es st)"
  using assms
proof (induction es arbitrary: D st)
  case Nil
  then show ?case by (simp add: comp_deps_def)
next
  case (Cons e es)
  obtain x y where e: "e = (x, y)" by force
  let ?D = "D \<union> comp_deps owner [(x, y)]"
  have "graph_of n ?D (comp_edge owner (x, y) st)" using Cons.prems e by (intro graph_of_edge) auto
  moreover have "?D \<subseteq> {..<n} \<times> {..<n}" using Cons.prems e by (auto simp: comp_deps_def)
  ultimately have "graph_of n (?D \<union> comp_deps owner es) (fold (comp_edge owner) es (comp_edge owner (x, y) st))"
    using Cons.prems by (intro Cons.IH) auto
  moreover have "?D \<union> comp_deps owner es = D \<union> comp_deps owner (e # es)" by (auto simp: comp_deps_def e)
  ultimately show ?case by (simp add: e)
qed

lemma comp_graph_correct:
  assumes "\<forall>(x, y) \<in> set es. owner ! x < n \<and> owner ! y < n"
  shows "graph_of n (comp_deps owner es) (comp_graph n owner es)"
  using graph_of_fold [of n "{}" "(replicate n [], replicate n 0)" es owner] assms
  by (simp add: comp_graph_def graph_of_def)

section \<open>The order\<close>

definition before :: "(nat \<times> nat) set \<Rightarrow> nat list \<Rightarrow> bool" where
  "before D out \<longleftrightarrow> (\<forall>i < length out. \<forall>b. (out ! i, b) \<in> D \<longrightarrow> b \<in> set (take i out))"

lemma before_snoc:
  "before D (out @ [i]) \<longleftrightarrow> before D out \<and> (\<forall>b. (i, b) \<in> D \<longrightarrow> b \<in> set out)"
  by (auto simp: before_def less_Suc_eq nth_append)

lemma release_correct:
  assumes "distinct js" "\<forall>j \<in> set js. j < length indeg \<and> 0 < indeg ! j" "sorted ready" "distinct ready"
  shows "\<exists>indeg' ready'. release js indeg ready = Some (indeg', ready') \<and>
    length indeg' = length indeg \<and>
    (\<forall>x. indeg' ! x = (if x \<in> set js then indeg ! x - 1 else indeg ! x)) \<and>
    sorted ready' \<and> distinct ready' \<and>
    set ready' = set ready \<union> {j \<in> set js. indeg ! j = 1}"
  using assms
proof (induction js arbitrary: indeg ready)
  case (Cons j js)
  obtain k where k: "indeg ! j = Suc k" using Cons.prems by (cases "indeg ! j") auto
  let ?rd = "if k = 0 then insort_insert j ready else ready"
  have "\<forall>i \<in> set js. i < length (indeg[j := k]) \<and> 0 < indeg[j := k] ! i" using Cons.prems by (auto simp: nth_list_update)
  moreover have "sorted ?rd" "distinct ?rd"
    using Cons.prems by (auto simp: sorted_insort_insert distinct_insort_insert)
  ultimately obtain i2 r2 where r: "release js (indeg[j := k]) ?rd = Some (i2, r2)"
    "length i2 = length indeg" "\<forall>x. i2 ! x = (if x \<in> set js then indeg[j := k] ! x - 1 else indeg[j := k] ! x)"
    "sorted r2" "distinct r2" "set r2 = set ?rd \<union> {i \<in> set js. indeg[j := k] ! i = 1}"
    using Cons.IH [of "indeg[j := k]" ?rd] Cons.prems(1) by auto
  have "i2 ! x = (if x \<in> set (j # js) then indeg ! x - 1 else indeg ! x)" for x
    using r(3) k Cons.prems(1,2) by (cases "x = j") auto
  moreover have "indeg[j := k] ! i = indeg ! i" if "i \<in> set js" for i
    using that Cons.prems(1) by (intro nth_list_update_neq) auto
  then have "{i \<in> set js. indeg[j := k] ! i = 1} = {i \<in> set js. indeg ! i = 1}" by auto
  with r(6) have "set r2 = set ?rd \<union> {i \<in> set js. indeg ! i = 1}" by (simp only:)
  then have "set r2 = set ready \<union> {i \<in> set (j # js). indeg ! i = 1}"
    using k by (cases "k = 0") (auto simp: set_insort_insert)
  ultimately show ?case using r k by simp
qed simp

definition topo_inv :: "nat \<Rightarrow> (nat \<times> nat) set \<Rightarrow> nat list \<Rightarrow> nat list \<Rightarrow> nat list \<Rightarrow> bool" where
  "topo_inv n D indeg ready out \<longleftrightarrow>
     length indeg = n \<and> set out \<subseteq> {..<n} \<and> distinct out \<and> before D out \<and>
     (\<forall>a < n. indeg ! a = card {b. (a, b) \<in> D \<and> b \<notin> set out}) \<and>
     sorted ready \<and> distinct ready \<and>
     set ready = {a. a < n \<and> a \<notin> set out \<and> indeg ! a = 0}"

text \<open>Taking a ready component out keeps the invariant.\<close>

lemma card_remove_dep:
  assumes "finite {b. (a, b) \<in> D}" "i \<notin> set out"
  shows "card {b. (a, b) \<in> D \<and> b \<notin> set (out @ [i])} =
    card {b. (a, b) \<in> D \<and> b \<notin> set out} - (if (a, i) \<in> D then 1 else 0)"
proof -
  have "{b. (a, b) \<in> D \<and> b \<notin> set (out @ [i])} = {b. (a, b) \<in> D \<and> b \<notin> set out} - {i}" by auto
  moreover have "finite {b. (a, b) \<in> D \<and> b \<notin> set out}" using assms(1) by (rule rev_finite_subset) auto
  ultimately show ?thesis using assms(2) by (simp add: card_Diff_singleton_if)
qed

lemma topo_inv_step:
  assumes inv: "topo_inv n D indeg (i # ready) out" and D: "D \<subseteq> {..<n} \<times> {..<n}"
    and js: "distinct js" "set js = {a. (a, i) \<in> D}"
  shows "\<exists>indeg' ready'. release js indeg ready = Some (indeg', ready') \<and>
    topo_inv n D indeg' ready' (out @ [i])"
proof -
  have i: "i < n" "i \<notin> set out" "indeg ! i = 0" "i \<notin> set ready"
    and card: "\<And>a. a < n \<Longrightarrow> indeg ! a = card {b. (a, b) \<in> D \<and> b \<notin> set out}"
    and rd: "sorted ready" "distinct ready" "set ready = {a. a < n \<and> a \<notin> set out \<and> indeg ! a = 0} - {i}"
    using inv unfolding topo_inv_def by auto
  have fin: "finite {b. (a, b) \<in> D}" for a by (rule finite_subset [of _ "{..<n}"]) (use D in auto)
  have fin': "finite {b. (a, b) \<in> D \<and> b \<notin> set out}" for a using fin by (rule rev_finite_subset) auto
  have pos: "\<forall>j \<in> set js. j < length indeg \<and> 0 < indeg ! j"
  proof
    fix j assume "j \<in> set js"
    then have j: "(j, i) \<in> D" "j < n" using js(2) D by auto
    then have "i \<in> {b. (j, b) \<in> D \<and> b \<notin> set out}" using i(2) by simp
    then have "0 < card {b. (j, b) \<in> D \<and> b \<notin> set out}" using fin' card_gt_0_iff by blast
    then show "j < length indeg \<and> 0 < indeg ! j" using j(2) card inv by (simp add: topo_inv_def)
  qed
  obtain indeg' ready' where r: "release js indeg ready = Some (indeg', ready')"
    "length indeg' = length indeg" "\<And>x. indeg' ! x = (if x \<in> set js then indeg ! x - 1 else indeg ! x)"
    "sorted ready'" "distinct ready'" "set ready' = set ready \<union> {j \<in> set js. indeg ! j = 1}"
    using release_correct [OF js(1) pos rd(1,2)] by blast
  have "{b. (i, b) \<in> D \<and> b \<notin> set out} = {}" using card i(1,3) fin' by (metis card_0_eq)
  then have "before D (out @ [i])" using inv by (auto simp: topo_inv_def before_snoc)
  moreover have "\<forall>a < n. indeg' ! a = card {b. (a, b) \<in> D \<and> b \<notin> set (out @ [i])}"
    using r(3) js(2) card card_remove_dep [OF fin i(2)] by simp
  moreover have "set ready' = {a. a < n \<and> a \<notin> set (out @ [i]) \<and> indeg' ! a = 0}"
  proof -
    have "a \<in> set ready' \<longleftrightarrow> a < n \<and> a \<notin> set (out @ [i]) \<and> indeg' ! a = 0" for a
    proof (cases "a \<in> set js")
      case True
      then have "a < n" "0 < indeg ! a" using pos inv by (auto simp: topo_inv_def)
      moreover have "a \<notin> set out"
      proof
        assume "a \<in> set out"
        then obtain m where "m < length out" "out ! m = a" by (auto simp: in_set_conv_nth)
        with True js(2) inv have "i \<in> set (take m out)" by (auto simp: topo_inv_def before_def)
        with i(2) show False by (auto dest: in_set_takeD)
      qed
      ultimately show ?thesis using True r(3,6) i(3) rd(3) by auto
    next
      case False
      with r(3,6) rd(3) show ?thesis by auto
    qed
    then show ?thesis by blast
  qed
  ultimately show ?thesis using r inv i(1,2) unfolding topo_inv_def by auto
qed

lemma topo_loop_correct:
  assumes D: "D \<subseteq> {..<n} \<times> {..<n}" and succ: "\<forall>b < n. distinct (succ ! b) \<and> set (succ ! b) = {a. (a, b) \<in> D}"
  shows "topo_inv n D indeg ready out \<Longrightarrow> n - length out \<le> fuel \<Longrightarrow>
    \<exists>out' indeg'. topo_loop fuel succ indeg ready out = Some out' \<and> topo_inv n D indeg' [] out'"
proof (induction fuel arbitrary: indeg ready out)
  case 0
  then have len: "n \<le> length out" "set out \<subseteq> {..<n}" "distinct out" by (auto simp: topo_inv_def)
  then have "set out = {..<n}"
    using distinct_card [of out] by (metis card_lessThan card_seteq finite_lessThan)
  then have "set ready = {}" using 0 unfolding topo_inv_def by auto
  then have "ready = []" by simp
  with 0 show ?case by auto
next
  case (Suc fuel)
  show ?case
  proof (cases ready)
    case Nil
    with Suc show ?thesis by auto
  next
    case (Cons i rd)
    have "i < n" using Suc.prems(1) Cons unfolding topo_inv_def by auto
    with topo_inv_step [OF Suc.prems(1) [unfolded Cons] D] succ obtain indeg' ready' where
      "release (succ ! i) indeg rd = Some (indeg', ready')" "topo_inv n D indeg' ready' (out @ [i])"
      by blast
    moreover have "n - length (out @ [i]) \<le> fuel" using Suc.prems(2) by simp
    ultimately show ?thesis using Suc.IH Cons by simp
  qed
qed

text \<open>When the component graph has no cycle, nothing is left over.\<close>

lemma topo_inv_complete:
  assumes inv: "topo_inv n D indeg [] out" and D: "D \<subseteq> {..<n} \<times> {..<n}" and acyc: "acyclic D"
  shows "set out = {..<n}"
proof (rule ccontr)
  assume "set out \<noteq> {..<n}"
  then obtain q where "q \<in> {..<n} - set out" using inv by (auto simp: topo_inv_def)
  have "wf (D\<inverse>)" using D acyc by (intro finite_acyclic_wf_converse) (auto intro: finite_subset)
  from wfE_min [OF this \<open>q \<in> _\<close>] obtain z where z: "z \<in> {..<n} - set out"
    "\<And>y. (z, y) \<in> D \<Longrightarrow> y \<notin> {..<n} - set out" by auto
  have "{b. (z, b) \<in> D \<and> b \<notin> set out} = {}" using z D by blast
  then have "indeg ! z = 0" using inv z(1) unfolding topo_inv_def by (metis DiffE card.empty lessThan_iff)
  with inv z(1) show False unfolding topo_inv_def by auto
qed

lemma fold_push_new_id: "set xs \<subseteq> set out \<Longrightarrow> fold push_new xs out = out"
  by (induction xs) (auto simp: push_new_def)

lemma topological_correct:
  assumes owner: "\<forall>(x, y) \<in> set es. owner ! x < n \<and> owner ! y < n"
    and acyc: "acyclic (comp_deps owner es)"
  shows "\<exists>out. topological n owner es = Some out \<and> distinct out \<and> set out = {..<n} \<and>
    before (comp_deps owner es) out"
proof -
  let ?D = "comp_deps owner es"
  obtain succ indeg where g: "comp_graph n owner es = (succ, indeg)" by force
  have go: "graph_of n ?D (succ, indeg)" using comp_graph_correct [OF owner] g by simp
  have D: "?D \<subseteq> {..<n} \<times> {..<n}" using owner by (auto simp: comp_deps_def)
  let ?ready = "filter (\<lambda>i. indeg ! i = 0) [0..<n]"
  have "topo_inv n ?D indeg ?ready []"
    using go by (auto simp: topo_inv_def graph_of_def before_def intro: sorted_wrt_filter)
  from topo_loop_correct [OF D _ this, of succ n] go obtain out indeg' where
    "topo_loop n succ indeg ?ready [] = Some out" "topo_inv n ?D indeg' [] out"
    by (auto simp: graph_of_def)
  moreover from topo_inv_complete [OF this(2) D acyc] have set: "set out = {..<n}" .
  moreover have "fold push_new [0..<n] out = out" by (rule fold_push_new_id) (simp add: set atLeast0LessThan)
  ultimately have "topological n owner es = Some out" by (simp add: topological_def g)
  with set \<open>topo_inv n ?D indeg' [] out\<close> show ?thesis by (auto simp: topo_inv_def)
qed

text \<open>The component graph of the strongly connected components has no cycle.\<close>

lemma comp_deps_acyclic:
  assumes es: "\<forall>(v, w) \<in> set es. v < n \<and> w < n"
    and owner: "\<And>v w. v < n \<Longrightarrow> w < n \<Longrightarrow> owner ! v = owner ! w \<longleftrightarrow>
      (v, w) \<in> (set es)\<^sup>* \<and> (w, v) \<in> (set es)\<^sup>*"
  shows "acyclic (comp_deps owner es)"
proof -
  let ?D = "comp_deps owner es"
  have reach: "(a, b) \<in> ?D\<^sup>* \<Longrightarrow> v < n \<Longrightarrow> w < n \<Longrightarrow> owner ! v = a \<Longrightarrow> owner ! w = b \<Longrightarrow> (v, w) \<in> (set es)\<^sup>*"
    for a b v w
  proof (induction arbitrary: w rule: rtrancl_induct)
    case base
    then show ?case using owner by blast
  next
    case (step b c)
    from step.hyps(2) obtain x y where xy: "(x, y) \<in> set es" "owner ! x = b" "owner ! y = c"
      by (auto simp: comp_deps_def)
    then have "x < n" "y < n" using es by auto
    with step xy have "(v, x) \<in> (set es)\<^sup>*" "(y, w) \<in> (set es)\<^sup>*" using owner by blast+
    with xy(1) show ?case by (meson rtrancl.rtrancl_into_rtrancl rtrancl_trans)
  qed
  have "(a, a) \<notin> ?D\<^sup>+" for a
  proof
    assume "(a, a) \<in> ?D\<^sup>+"
    then obtain b where b: "(a, b) \<in> ?D" "(b, a) \<in> ?D\<^sup>*" by (meson tranclD)
    then obtain x y where xy: "(x, y) \<in> set es" "owner ! x = a" "owner ! y = b" "a \<noteq> b"
      by (auto simp: comp_deps_def)
    then have n: "x < n" "y < n" using es by auto
    with reach [OF b(2)] xy have "(y, x) \<in> (set es)\<^sup>*" by blast
    with owner [OF n] xy show False by auto
  qed
  then show ?thesis by (simp add: acyclic_def)
qed

end
