(* ===== verification/Datalog_Program.thy ===== *)
theory Datalog_Program
  imports Datalog_Ast Topo
begin

text \<open>
  Program analysis (\<^verbatim>\<open>program.rs\<close> of the Datalog frontend): arities, safety, the dependency graph,
  stratification, the recursion shape of each component, and \<^verbatim>\<open>analyse\<close> which puts them together.

  \<open>analyse\<close> returns \<^const>\<open>None\<close> where the code would panic or not return; the theorems show that
  it never does.
\<close>

section \<open>Data\<close>

datatype dep = Positive | Negative | Aggregating

instantiation dep :: linorder
begin

primrec dep_rank :: "dep \<Rightarrow> nat" where
  "dep_rank Positive = 0"
| "dep_rank Negative = 1"
| "dep_rank Aggregating = 2"

definition less_eq_dep :: "dep \<Rightarrow> dep \<Rightarrow> bool" where
  "less_eq_dep a b \<longleftrightarrow> dep_rank a \<le> dep_rank b"

definition less_dep :: "dep \<Rightarrow> dep \<Rightarrow> bool" where
  "less_dep a b \<longleftrightarrow> dep_rank a < dep_rank b"

instance
proof
  fix x y :: dep
  show "x \<le> y \<Longrightarrow> y \<le> x \<Longrightarrow> x = y" by (cases x; cases y) (simp_all add: less_eq_dep_def)
qed (auto simp: less_eq_dep_def less_dep_def)

end

lemma Positive_least [simp]: "Positive \<le> d" "d \<le> Positive \<longleftrightarrow> d = Positive"
  by (cases d; simp add: less_eq_dep_def)+

datatype shape = NonRecursive | Linear | LinearMutual | NonLinear

record stratum =
  preds :: "pred list"
  shape :: shape

record analysis =
  strata :: "stratum list"
  arity :: "pred \<rightharpoonup> nat"

definition is_recursive :: "stratum \<Rightarrow> bool" where
  "is_recursive s \<longleftrightarrow> shape s \<noteq> NonRecursive"

definition stratum_of :: "analysis \<Rightarrow> pred \<Rightarrow> nat option" where
  "stratum_of a p = find_index (\<lambda>s. p \<in> set (preds s)) (strata a)"

section \<open>Checks\<close>

abbreviation body_atoms :: "rule \<Rightarrow> atom list" where
  "body_atoms r \<equiv> concat (map item_atoms (rule_body r))"

lemma in_body_atoms: "a \<in> set (body_atoms r) \<longleftrightarrow> Atom a \<in> set (rule_body r) \<or> Negated a \<in> set (rule_body r)"
proof
  assume "a \<in> set (body_atoms r)"
  then obtain i where "i \<in> set (rule_body r)" "a \<in> set (item_atoms i)" by auto
  then show "Atom a \<in> set (rule_body r) \<or> Negated a \<in> set (rule_body r)"
    by (cases i rule: body_item.exhaust) (auto simp: item_atoms_def)
qed (force simp: item_atoms_def)

definition check_arity :: "(pred \<rightharpoonup> nat) \<Rightarrow> pred \<Rightarrow> nat \<Rightarrow> datalog_error + unit" where
  "check_arity ar p n =
     (case ar p of
        Some known \<Rightarrow> if known \<noteq> n then Inl (DlArity (pred_to_string p) known n) else Inr ()
      | None \<Rightarrow> Inr ())"

fun head_arities :: "rule list \<Rightarrow> (pred \<rightharpoonup> nat) \<Rightarrow> datalog_error + (pred \<rightharpoonup> nat)" where
  "head_arities [] ar = Inr ar"
| "head_arities (r # rs) ar =
     (let p = head_pred (rule_head r); n = length (head_args (rule_head r))
      in case ar p of
           Some known \<Rightarrow>
             if known \<noteq> n then Inl (DlArity (pred_to_string p) known n) else head_arities rs ar
         | None \<Rightarrow> head_arities rs (ar(p \<mapsto> n)))"

definition arities :: "program \<Rightarrow> datalog_error + (pred \<rightharpoonup> nat)" where
  "arities p =
     rbind (head_arities (rules p) Map.empty) (\<lambda>ar.
     let check = (\<lambda>a. check_arity ar (atom_pred a) (length (atom_args a)))
     in rbind (check_all (\<lambda>r. check_all check (body_atoms r)) (rules p)) (\<lambda>_.
        rbind (case prog_goal p of Some g \<Rightarrow> check (goal_atom g) | None \<Rightarrow> Inr ()) (\<lambda>_.
        Inr ar)))"

definition check_iri_atom :: "atom \<Rightarrow> datalog_error + unit" where
  "check_iri_atom a =
     (case atom_pred a of
        Edb _ \<Rightarrow>
          if length (atom_args a) \<notin> {1, 2}
          then Inl (DlArity (pred_to_string (atom_pred a)) 2 (length (atom_args a)))
          else Inr ()
      | _ \<Rightarrow> Inr ())"

definition check_iri_atoms :: "program \<Rightarrow> datalog_error + unit" where
  "check_iri_atoms p =
     rbind (check_all (\<lambda>r. check_all check_iri_atom (body_atoms r)) (rules p)) (\<lambda>_.
     case prog_goal p of Some g \<Rightarrow> check_iri_atom (goal_atom g) | None \<Rightarrow> Inr ())"

definition require_bound :: "string list \<Rightarrow> string \<Rightarrow> string \<Rightarrow> datalog_error + unit" where
  "require_bound bound name v =
     (if v \<in> set bound then Inr () else Inl (DlUnsafe name (CHR ''?'' # v)))"

fun require_head_arg :: "string list \<Rightarrow> string \<Rightarrow> head_arg \<Rightarrow> datalog_error + unit" where
  "require_head_arg bound name (Plain (Var v)) = require_bound bound name v"
| "require_head_arg bound name (Agg _ var) =
     (if var \<noteq> ''*'' then require_bound bound name var else Inr ())"
| "require_head_arg bound name _ = Inr ()"

definition check_rule_safety :: "rule \<Rightarrow> datalog_error + unit" where
  "check_rule_safety r =
     (let bound = fold atom_vars (positive r) [];
          name = pred_to_string (head_pred (rule_head r));
          require = require_bound bound name
      in rbind (check_all (require_head_arg bound name) (head_args (rule_head r))) (\<lambda>_.
         rbind (check_all (\<lambda>a. check_all require (atom_vars a [])) (negated r)) (\<lambda>_.
         check_all (\<lambda>c. check_all require (expr_vars c [])) (constraints r))))"

definition check_safety :: "program \<Rightarrow> datalog_error + unit" where
  "check_safety p = check_all check_rule_safety (rules p)"

section \<open>The dependency graph\<close>

type_synonym edge_map = "((nat \<times> nat) \<times> dep) list"

definition add_node :: "rule \<Rightarrow> pred list \<times> (pred \<rightharpoonup> nat) \<Rightarrow> pred list \<times> (pred \<rightharpoonup> nat)" where
  "add_node r st =
     (case st of (nodes, index) \<Rightarrow>
        let p = head_pred (rule_head r)
        in if index p = None then (nodes @ [p], index(p \<mapsto> length nodes)) else (nodes, index))"

definition item_dep :: "bool \<Rightarrow> body_item \<Rightarrow> (atom \<times> dep) option" where
  "item_dep aggregating i =
     (case i of
        Atom a \<Rightarrow> Some (a, if aggregating then Aggregating else Positive)
      | Negated a \<Rightarrow> Some (a, Negative)
      | Constraint _ \<Rightarrow> None)"

definition add_edge :: "nat \<times> nat \<Rightarrow> dep \<Rightarrow> edge_map \<Rightarrow> edge_map" where
  "add_edge key d edges =
     (case bt_get edges key of
        None \<Rightarrow> bt_insert key d edges
      | Some entry \<Rightarrow> if d > entry then bt_insert key d edges else edges)"

definition add_item :: "(pred \<rightharpoonup> nat) \<Rightarrow> nat \<Rightarrow> bool \<Rightarrow> body_item \<Rightarrow> edge_map \<Rightarrow> edge_map" where
  "add_item index h agg i edges =
     (case item_dep agg i of
        None \<Rightarrow> edges
      | Some (a, d) \<Rightarrow>
          (case index (atom_pred a) of None \<Rightarrow> edges | Some to \<Rightarrow> add_edge (h, to) d edges))"

definition add_rule :: "(pred \<rightharpoonup> nat) \<Rightarrow> rule \<Rightarrow> edge_map \<Rightarrow> edge_map" where
  "add_rule index r edges =
     (let h = the (index (head_pred (rule_head r)))
      in fold (add_item index h (aggregates (rule_head r))) (rule_body r) edges)"

definition dependency_graph :: "program \<Rightarrow> pred list \<times> edge_map" where
  "dependency_graph p =
     (case fold add_node (rules p) ([], Map.empty) of
        (nodes, index) \<Rightarrow> (nodes, fold (add_rule index) (rules p) []))"

section \<open>Strata\<close>

definition check_edge ::
  "pred list \<Rightarrow> nat list list \<Rightarrow> nat list \<Rightarrow> (nat \<times> nat) \<times> dep \<Rightarrow> datalog_error + unit" where
  "check_edge nodes sccs owner e =
     (case e of ((from, to), d) \<Rightarrow>
        if d = Positive \<or> owner ! from \<noteq> owner ! to then Inr ()
        else Inl (DlUnstratified (if d = Negative then ''negation'' else ''aggregation'')
               (map (\<lambda>v. pred_to_string (nodes ! v)) (sccs ! (owner ! from)))))"

definition check_stratification ::
  "pred list \<Rightarrow> nat list list \<Rightarrow> nat list \<Rightarrow> edge_map \<Rightarrow> datalog_error + unit" where
  "check_stratification nodes sccs owner edges = check_all (check_edge nodes sccs owner) edges"

definition inner_atoms :: "pred list \<Rightarrow> rule \<Rightarrow> nat" where
  "inner_atoms ps r = length (filter (\<lambda>a. atom_pred a \<in> set ps) (positive r))"

definition shape_of :: "program \<Rightarrow> pred list \<Rightarrow> shape" where
  "shape_of p ps =
     (let inner = filter (\<lambda>r. head_pred (rule_head r) \<in> set ps) (rules p);
          recursive = list_ex (\<lambda>r. inner_atoms ps r > 0) inner;
          non_linear = list_ex (\<lambda>r. inner_atoms ps r > 1) inner
      in if \<not> recursive then NonRecursive
         else if non_linear then NonLinear
         else if length ps > 1 then LinearMutual
         else Linear)"

definition make_stratum :: "program \<Rightarrow> pred list \<Rightarrow> nat list list \<Rightarrow> nat \<Rightarrow> stratum" where
  "make_stratum p nodes sccs ci =
     (let ps = map (\<lambda>v. nodes ! v) (sccs ! ci) in \<lparr>preds = ps, shape = shape_of p ps\<rparr>)"

definition order_strata ::
  "program \<Rightarrow> (pred \<rightharpoonup> nat) \<Rightarrow> pred list \<Rightarrow> edge_map \<Rightarrow> nat list list \<Rightarrow> (datalog_error + analysis) option"
where
  "order_strata p ar nodes edges sccs =
     (let owner = component_of (length nodes) sccs
      in case check_stratification nodes sccs owner edges of
           Inl e \<Rightarrow> Some (Inl e)
         | Inr _ \<Rightarrow>
             map_option (\<lambda>order. Inr \<lparr>strata = map (make_stratum p nodes sccs) order, arity = ar\<rparr>)
               (topological (length sccs) owner (bt_keys edges)))"

definition analyse :: "program \<Rightarrow> (datalog_error + analysis) option" where
  "analyse p =
     (case rbind (check_iri_atoms p) (\<lambda>_. rbind (arities p) (\<lambda>ar. rbind (check_safety p) (\<lambda>_. Inr ar))) of
        Inl e \<Rightarrow> Some (Inl e)
      | Inr ar \<Rightarrow>
          (case dependency_graph p of (nodes, edges) \<Rightarrow>
             (case tarjan (length nodes) (bt_keys edges) of
                None \<Rightarrow> None
              | Some sccs \<Rightarrow> order_strata p ar nodes edges sccs)))"

section \<open>The specification\<close>

text \<open>
  The program-level notions the checks decide: predicates with a rule, the labelled dependencies of a
  program, consistent arities, range restriction, and stratification.
\<close>

definition derived :: "program \<Rightarrow> pred set" where
  "derived p = (\<lambda>r. head_pred (rule_head r)) ` set (rules p)"

definition depends :: "program \<Rightarrow> (pred \<times> dep \<times> pred) set" where
  "depends p = {(head_pred (rule_head r), d, atom_pred a) | r i a d.
     r \<in> set (rules p) \<and> i \<in> set (rule_body r) \<and>
     item_dep (aggregates (rule_head r)) i = Some (a, d) \<and> atom_pred a \<in> derived p}"

definition dep_rel :: "program \<Rightarrow> (pred \<times> pred) set" where
  "dep_rel p = {(h, t). \<exists>d. (h, d, t) \<in> depends p}"

definition stratified :: "program \<Rightarrow> bool" where
  "stratified p \<longleftrightarrow> (\<forall>h d t. (h, d, t) \<in> depends p \<longrightarrow> d \<noteq> Positive \<longrightarrow> (t, h) \<notin> (dep_rel p)\<^sup>*)"

definition atoms_of :: "program \<Rightarrow> atom set" where
  "atoms_of p = (\<Union>r \<in> set (rules p). set (body_atoms r)) \<union>
     (case prog_goal p of None \<Rightarrow> {} | Some g \<Rightarrow> {goal_atom g})"

definition iri_atoms_ok :: "program \<Rightarrow> bool" where
  "iri_atoms_ok p \<longleftrightarrow> (\<forall>a \<in> atoms_of p. \<forall>n. atom_pred a = Edb n \<longrightarrow> length (atom_args a) \<in> {1, 2})"

definition arity_ok :: "program \<Rightarrow> (pred \<rightharpoonup> nat) \<Rightarrow> bool" where
  "arity_ok p ar \<longleftrightarrow> dom ar = derived p \<and>
     (\<forall>r \<in> set (rules p). ar (head_pred (rule_head r)) = Some (length (head_args (rule_head r)))) \<and>
     (\<forall>a \<in> atoms_of p. \<forall>n. ar (atom_pred a) = Some n \<longrightarrow> length (atom_args a) = n)"

definition bound_vars :: "rule \<Rightarrow> string set" where
  "bound_vars r = (\<Union>a \<in> set (positive r). atom_var_set a)"

definition rule_safe :: "rule \<Rightarrow> bool" where
  "rule_safe r \<longleftrightarrow>
     (\<forall>v. Plain (Var v) \<in> set (head_args (rule_head r)) \<longrightarrow> v \<in> bound_vars r) \<and>
     (\<forall>f v. Agg f v \<in> set (head_args (rule_head r)) \<longrightarrow> v \<noteq> ''*'' \<longrightarrow> v \<in> bound_vars r) \<and>
     (\<forall>a \<in> set (negated r). atom_var_set a \<subseteq> bound_vars r) \<and>
     (\<forall>c \<in> set (constraints r). expr_var_set c \<subseteq> bound_vars r)"

section \<open>The checks decide the specification\<close>

lemma check_arity_ok [result_simps]:
  "check_arity ar q n = Inr () \<longleftrightarrow> (\<forall>k. ar q = Some k \<longrightarrow> n = k)"
  by (auto simp: check_arity_def split: option.splits)

abbreviation head_of :: "rule \<Rightarrow> pred" where
  "head_of r \<equiv> head_pred (rule_head r)"

abbreviation head_arity :: "rule \<Rightarrow> nat" where
  "head_arity r \<equiv> length (head_args (rule_head r))"

lemma head_arities_Inr:
  "head_arities rs ar = Inr ar' \<Longrightarrow>
     ar \<subseteq>\<^sub>m ar' \<and> dom ar' = dom ar \<union> head_of ` set rs \<and> (\<forall>r \<in> set rs. ar' (head_of r) = Some (head_arity r))"
proof (induction rs arbitrary: ar)
  case (Cons r rs)
  show ?case
  proof (cases "ar (head_of r)")
    case None
    with Cons.prems have "head_arities rs (ar(head_of r \<mapsto> head_arity r)) = Inr ar'" by (simp add: Let_def)
    from Cons.IH [OF this] have IH: "ar(head_of r \<mapsto> head_arity r) \<subseteq>\<^sub>m ar'"
      "dom ar' = insert (head_of r) (dom ar) \<union> head_of ` set rs"
      "\<forall>r \<in> set rs. ar' (head_of r) = Some (head_arity r)" by (auto simp del: fun_upd_apply)
    from IH(1) have "ar' (head_of r) = Some (head_arity r)" by (metis domI fun_upd_same map_le_def)
    moreover have "ar \<subseteq>\<^sub>m ar'" using None by (intro map_le_trans [OF _ IH(1)]) (auto simp: map_le_def)
    ultimately show ?thesis using IH(2,3) by auto
  next
    case (Some k)
    with Cons.prems have k: "k = head_arity r" "head_arities rs ar = Inr ar'"
      by (auto simp: Let_def split: if_splits)
    from Cons.IH [OF k(2)] have IH: "ar \<subseteq>\<^sub>m ar'" "dom ar' = dom ar \<union> head_of ` set rs"
      "\<forall>r \<in> set rs. ar' (head_of r) = Some (head_arity r)" by auto
    then have "ar' (head_of r) = Some (head_arity r)" using Some k(1) by (metis domI map_le_def)
    with IH Some show ?thesis by auto
  qed
qed auto

lemma head_arities_complete:
  "\<forall>r \<in> set rs. ar' (head_of r) = Some (head_arity r) \<Longrightarrow> ar \<subseteq>\<^sub>m ar' \<Longrightarrow> \<exists>ar''. head_arities rs ar = Inr ar''"
proof (induction rs arbitrary: ar)
  case (Cons r rs)
  have n: "ar' (head_of r) = Some (head_arity r)" using Cons.prems by simp
  show ?case
  proof (cases "ar (head_of r)")
    case None
    have "ar(head_of r \<mapsto> head_arity r) \<subseteq>\<^sub>m ar'" using n Cons.prems(2) by (simp add: map_le_def)
    with Cons.IH [OF _ this] Cons.prems(1) None show ?thesis by (simp add: Let_def del: fun_upd_apply)
  next
    case (Some k)
    then have "k = head_arity r" using n Cons.prems(2) by (metis domI map_le_def option.inject)
    then show ?thesis using Cons Some by (simp add: Let_def)
  qed
qed simp

lemma arities_Inr_iff: "arities p = Inr ar \<longleftrightarrow> head_arities (rules p) Map.empty = Inr ar \<and>
    (\<forall>a \<in> atoms_of p. \<forall>n. ar (atom_pred a) = Some n \<longrightarrow> length (atom_args a) = n)"
  by (auto simp: arities_def result_simps atoms_of_def Let_def split: option.splits)

lemma arities_sound: "arities p = Inr ar \<Longrightarrow> arity_ok p ar"
  using head_arities_Inr [of "rules p" Map.empty ar] by (auto simp: arities_Inr_iff arity_ok_def derived_def)

lemma arity_table_unique:
  assumes "dom ar = derived p" "dom ar' = derived p"
    and "\<forall>r \<in> set (rules p). ar (head_of r) = Some (head_arity r)"
    and "\<forall>r \<in> set (rules p). ar' (head_of r) = Some (head_arity r)"
  shows "ar = ar'"
proof
  fix q
  show "ar q = ar' q"
  proof (cases "q \<in> derived p")
    case True
    then obtain r where "r \<in> set (rules p)" "q = head_of r" by (auto simp: derived_def)
    with assms(3,4) show ?thesis by simp
  next
    case False
    with assms(1,2) show ?thesis by (metis domIff)
  qed
qed

lemma arities_iff: "arities p = Inr ar \<longleftrightarrow> arity_ok p ar"
proof
  assume ok: "arity_ok p ar"
  then obtain ar' where ar': "head_arities (rules p) Map.empty = Inr ar'"
    using head_arities_complete [of "rules p" ar Map.empty] by (auto simp: arity_ok_def)
  have "ar' = ar"
    by (rule arity_table_unique [of _ p]) (use head_arities_Inr [OF ar'] ok in \<open>auto simp: arity_ok_def derived_def\<close>)
  with ar' ok show "arities p = Inr ar" by (simp add: arities_Inr_iff arity_ok_def)
qed (rule arities_sound)

lemma check_iri_atom_ok [result_simps]:
  "check_iri_atom a = Inr () \<longleftrightarrow> (\<forall>n. atom_pred a = Edb n \<longrightarrow> length (atom_args a) \<in> {1, 2})"
  by (auto simp: check_iri_atom_def split: pred.splits)

lemma check_iri_atoms_iff: "check_iri_atoms p = Inr () \<longleftrightarrow> iri_atoms_ok p"
  by (auto simp: check_iri_atoms_def iri_atoms_ok_def atoms_of_def result_simps split: option.splits)

lemma require_bound_ok [result_simps]: "require_bound b n v = Inr () \<longleftrightarrow> v \<in> set b"
  by (simp add: require_bound_def)

lemma require_head_arg_ok [result_simps]:
  "require_head_arg b n a = Inr () \<longleftrightarrow>
     (\<forall>v. a = Plain (Var v) \<longrightarrow> v \<in> set b) \<and> (\<forall>f v. a = Agg f v \<longrightarrow> v \<noteq> ''*'' \<longrightarrow> v \<in> set b)"
  by (induction b n a rule: require_head_arg.induct) (auto simp: result_simps)

lemma set_bound: "set (fold atom_vars as out) = (\<Union>a \<in> set as. atom_var_set a) \<union> set out"
  by (rule set_fold_collect) simp

lemma check_rule_safety_iff: "check_rule_safety r = Inr () \<longleftrightarrow> rule_safe r"
  unfolding check_rule_safety_def rule_safe_def Let_def bound_vars_def
  by (simp add: result_simps set_bound subset_eq) blast

lemma check_safety_iff: "check_safety p = Inr () \<longleftrightarrow> (\<forall>r \<in> set (rules p). rule_safe r)"
  by (simp add: check_safety_def result_simps check_rule_safety_iff)

section \<open>The graph is the dependency relation\<close>

text \<open>\<open>index_ok nodes index\<close>: the table is the inverse of the node list.\<close>

definition index_ok :: "pred list \<Rightarrow> (pred \<rightharpoonup> nat) \<Rightarrow> bool" where
  "index_ok nodes index \<longleftrightarrow> distinct nodes \<and>
     (\<forall>q i. index q = Some i \<longleftrightarrow> i < length nodes \<and> nodes ! i = q)"

lemma index_ok_dom: "index_ok nodes index \<Longrightarrow> index q = None \<longleftrightarrow> q \<notin> set nodes"
proof -
  assume ok: "index_ok nodes index"
  then have "q \<in> set nodes \<longleftrightarrow> (\<exists>i. index q = Some i)" by (auto simp: index_ok_def in_set_conv_nth)
  then show ?thesis by auto
qed

lemma index_ok_add:
  assumes "index_ok nodes index" "q \<notin> set nodes"
  shows "index_ok (nodes @ [q]) (index(q \<mapsto> length nodes))"
  using assms unfolding index_ok_def
  by (auto simp: nth_append less_Suc_eq in_set_conv_nth split: if_splits)

lemma add_node_simps:
  "index (head_of r) = None \<Longrightarrow>
     add_node r (nodes, index) = (nodes @ [head_of r], index(head_of r \<mapsto> length nodes))"
  "index (head_of r) = Some i \<Longrightarrow> add_node r (nodes, index) = (nodes, index)"
  by (simp_all add: add_node_def Let_def)

lemma add_node_fold:
  "index_ok nodes index \<Longrightarrow> fold add_node rs (nodes, index) = (nodes', index') \<Longrightarrow>
     index_ok nodes' index' \<and> set nodes' = set nodes \<union> head_of ` set rs"
proof (induction rs arbitrary: nodes index)
  case (Cons r rs)
  show ?case
  proof (cases "index (head_of r)")
    case None
    then have "head_of r \<notin> set nodes" using Cons.prems(1) index_ok_dom by blast
    from Cons.IH [OF index_ok_add [OF Cons.prems(1) this]] Cons.prems(2) None show ?thesis
      by (simp add: add_node_simps del: fun_upd_apply)
  next
    case (Some i)
    then have "head_of r \<in> set nodes" using index_ok_dom [OF Cons.prems(1), of "head_of r"] by simp
    with Cons Some show ?thesis by (auto simp: add_node_simps)
  qed
qed simp

text \<open>An edge map holds the strongest of the labels asked for.\<close>

definition edges_for :: "edge_map \<Rightarrow> ((nat \<times> nat) \<times> dep) set \<Rightarrow> bool" where
  "edges_for E S \<longleftrightarrow> bt_invar E \<and>
     (\<forall>k. case bt_get E k of
            None \<Rightarrow> \<forall>d. (k, d) \<notin> S
          | Some d \<Rightarrow> (k, d) \<in> S \<and> (\<forall>d'. (k, d') \<in> S \<longrightarrow> d' \<le> d))"

lemma edges_for_add:
  assumes "edges_for E S"
  shows "edges_for (add_edge k d E) (insert (k, d) S)"
proof -
  have inv: "bt_invar E" and E: "\<And>k. case bt_get E k of None \<Rightarrow> \<forall>d. (k, d) \<notin> S
      | Some d \<Rightarrow> (k, d) \<in> S \<and> (\<forall>d'. (k, d') \<in> S \<longrightarrow> d' \<le> d)"
    using assms by (auto simp: edges_for_def)
  have "case bt_get (add_edge k d E) k' of None \<Rightarrow> \<forall>d'. (k', d') \<notin> insert (k, d) S
      | Some e \<Rightarrow> (k', e) \<in> insert (k, d) S \<and> (\<forall>d'. (k', d') \<in> insert (k, d) S \<longrightarrow> d' \<le> e)" for k'
    using E [of k'] btree.lookup_insert [OF inv, of k d]
    by (auto simp: add_edge_def split: option.splits)
  then show ?thesis
    using btree.invar_insert [OF inv] inv by (auto simp: edges_for_def add_edge_def split: option.splits)
qed

definition item_edges :: "(pred \<rightharpoonup> nat) \<Rightarrow> nat \<Rightarrow> bool \<Rightarrow> body_item \<Rightarrow> ((nat \<times> nat) \<times> dep) set" where
  "item_edges index h agg i =
     {((h, t), d) | a d t. item_dep agg i = Some (a, d) \<and> index (atom_pred a) = Some t}"

lemma edges_for_item:
  "edges_for E S \<Longrightarrow> edges_for (add_item index h agg i E) (item_edges index h agg i \<union> S)"
  by (auto simp: add_item_def item_edges_def edges_for_add split: option.splits)

lemma edges_for_fold:
  assumes "\<And>x E S. edges_for E S \<Longrightarrow> edges_for (f x E) (F x \<union> S)" "edges_for E S"
  shows "edges_for (fold f xs E) (\<Union> (F ` set xs) \<union> S)"
  using assms(2)
proof (induction xs arbitrary: E S)
  case (Cons x xs)
  have "\<Union> (F ` set (x # xs)) \<union> S = \<Union> (F ` set xs) \<union> (F x \<union> S)" by auto
  with Cons.IH [OF assms(1) [OF Cons.prems]] show ?case by simp
qed simp

definition rule_edges :: "(pred \<rightharpoonup> nat) \<Rightarrow> rule \<Rightarrow> ((nat \<times> nat) \<times> dep) set" where
  "rule_edges index r =
     \<Union> (item_edges index (the (index (head_of r))) (aggregates (rule_head r)) ` set (rule_body r))"

lemma edges_for_rule: "edges_for E S \<Longrightarrow> edges_for (add_rule index r E) (rule_edges index r \<union> S)"
  unfolding add_rule_def rule_edges_def Let_def by (rule edges_for_fold [OF edges_for_item])

text \<open>The node list and the edge map of a program.\<close>

lemma dependency_graph_correct:
  assumes "dependency_graph p = (nodes, edges)"
  shows "distinct nodes" "set nodes = derived p"
    and "edges_for edges {((v, w), d). v < length nodes \<and> w < length nodes \<and> (nodes ! v, d, nodes ! w) \<in> depends p}"
proof -
  obtain index where f: "fold add_node (rules p) ([], Map.empty) = (nodes, index)"
    "edges = fold (add_rule index) (rules p) []"
    using assms by (auto simp: dependency_graph_def split: prod.splits)
  have ok: "index_ok nodes index" "set nodes = derived p"
    using add_node_fold [OF _ f(1)] by (auto simp: index_ok_def derived_def)
  then show "distinct nodes" "set nodes = derived p" by (auto simp: index_ok_def)
  have head: "index (head_of r) = Some v \<longleftrightarrow> v < length nodes \<and> nodes ! v = head_of r" for r v
    using ok by (auto simp: index_ok_def)
  have "edges_for edges (\<Union> (rule_edges index ` set (rules p)))"
    using edges_for_fold [of "add_rule index" "rule_edges index" "[]" "{}" "rules p", OF edges_for_rule] f(2)
    by (simp add: edges_for_def [of "[]"])
  moreover have "\<Union> (rule_edges index ` set (rules p)) =
      {((v, w), d). v < length nodes \<and> w < length nodes \<and> (nodes ! v, d, nodes ! w) \<in> depends p}"
    (is "?L = ?R")
  proof -
    have "((v, w), d) \<in> ?L \<longleftrightarrow> ((v, w), d) \<in> ?R" for v w d
    proof -
      have "((v, w), d) \<in> ?L \<longleftrightarrow> (\<exists>r \<in> set (rules p). \<exists>i \<in> set (rule_body r). \<exists>a.
          the (index (head_of r)) = v \<and> item_dep (aggregates (rule_head r)) i = Some (a, d) \<and> index (atom_pred a) = Some w)"
        by (auto simp: rule_edges_def item_edges_def)
      also have "\<dots> \<longleftrightarrow> (\<exists>r \<in> set (rules p). \<exists>i \<in> set (rule_body r). \<exists>a.
          v < length nodes \<and> nodes ! v = head_of r \<and> item_dep (aggregates (rule_head r)) i = Some (a, d) \<and>
          w < length nodes \<and> nodes ! w = atom_pred a)"
      proof -
        have "the (index (head_of r)) = v \<longleftrightarrow> v < length nodes \<and> nodes ! v = head_of r" if "r \<in> set (rules p)" for r
        proof -
          have "head_of r \<in> set nodes" using that ok(2) by (auto simp: derived_def)
          then obtain u where "index (head_of r) = Some u" using index_ok_dom [OF ok(1), of "head_of r"] by auto
          then show ?thesis using head by (metis option.sel)
        qed
        moreover have "index q = Some w \<longleftrightarrow> w < length nodes \<and> nodes ! w = q" for q
          using ok(1) by (auto simp: index_ok_def)
        ultimately show ?thesis by (metis (no_types, lifting))
      qed
      also have "\<dots> \<longleftrightarrow> ((v, w), d) \<in> ?R"
        using ok(2) by (auto simp: depends_def) (metis nth_mem)+
      finally show ?thesis .
    qed
    then show ?thesis by (auto simp del: UN_iff)
  qed
  ultimately show "edges_for edges {((v, w), d). v < length nodes \<and> w < length nodes \<and> (nodes ! v, d, nodes ! w) \<in> depends p}"
    by simp
qed

section \<open>Components and strata\<close>

lemma depends_derived: "(h, d, t) \<in> depends p \<Longrightarrow> h \<in> derived p \<and> t \<in> derived p"
  by (auto simp: depends_def derived_def)

lemma dep_rel_derived: "(h, t) \<in> dep_rel p \<Longrightarrow> h \<in> derived p \<and> t \<in> derived p"
  using depends_derived by (auto simp: dep_rel_def)

lemma edge_map_entry: "edges_for E S \<Longrightarrow> (k, d) \<in> set E \<longleftrightarrow> bt_get E k = Some d"
  using btree.distinct_keys [of E] map_of_is_SomeI by (fastforce simp: edges_for_def dest: map_of_SomeD)

lemma edge_map_keys: "edges_for E S \<Longrightarrow> k \<in> set (bt_keys E) \<longleftrightarrow> (\<exists>d. (k, d) \<in> S)"
proof -
  assume ef: "edges_for E S"
  then have "k \<in> set (bt_keys E) \<longleftrightarrow> bt_get E k \<noteq> None" using btree.set_keys [of E] by (auto simp: edges_for_def)
  moreover have "case bt_get E k of None \<Rightarrow> \<forall>d. (k, d) \<notin> S | Some d \<Rightarrow> (k, d) \<in> S"
    using ef unfolding edges_for_def by (metis (no_types, lifting) option.case_eq_if)
  ultimately show ?thesis by (cases "bt_get E k") auto
qed

text \<open>Reachability between node indices is reachability between predicates.\<close>

lemma reach_nodes:
  assumes nodes: "set nodes = derived p" "distinct nodes"
    and K: "\<And>v w. (v, w) \<in> K \<longleftrightarrow> v < length nodes \<and> w < length nodes \<and> (nodes ! v, nodes ! w) \<in> dep_rel p"
    and v: "v < length nodes" and w: "w < length nodes"
  shows "(v, w) \<in> K\<^sup>* \<longleftrightarrow> (nodes ! v, nodes ! w) \<in> (dep_rel p)\<^sup>*"
proof
  assume "(v, w) \<in> K\<^sup>*"
  then show "(nodes ! v, nodes ! w) \<in> (dep_rel p)\<^sup>*"
    by (induction rule: rtrancl_induct) (auto simp: K intro: rtrancl.rtrancl_into_rtrancl)
next
  have "(nodes ! v, t) \<in> (dep_rel p)\<^sup>* \<Longrightarrow> \<forall>w < length nodes. nodes ! w = t \<longrightarrow> (v, w) \<in> K\<^sup>*" for t
  proof (induction rule: rtrancl_induct)
    case base
    then show ?case using nodes(2) v nth_eq_iff_index_eq by blast
  next
    case (step s t)
    from dep_rel_derived [OF step.hyps(2)] nodes(1) obtain u where u: "u < length nodes" "nodes ! u = s"
      by (metis in_set_conv_nth)
    with step show ?case by (auto simp: K intro: rtrancl.rtrancl_into_rtrancl)
  qed
  then show "(nodes ! v, nodes ! w) \<in> (dep_rel p)\<^sup>* \<Longrightarrow> (v, w) \<in> K\<^sup>*" using w by blast
qed

text \<open>What the steps of \<open>analyse\<close> compute, for every program.\<close>

definition mutual :: "program \<Rightarrow> pred \<Rightarrow> pred \<Rightarrow> bool" where
  "mutual p q q' \<longleftrightarrow> (q, q') \<in> (dep_rel p)\<^sup>* \<and> (q', q) \<in> (dep_rel p)\<^sup>*"

definition graph_facts :: "program \<Rightarrow> pred list \<Rightarrow> edge_map \<Rightarrow> nat list list \<Rightarrow> nat list \<Rightarrow> bool" where
  "graph_facts p nodes edges sccs order \<longleftrightarrow>
     (let n = length nodes; owner = component_of n sccs in
     distinct nodes \<and> set nodes = derived p \<and>
     edges_for edges {((v, w), d). v < n \<and> w < n \<and> (nodes ! v, d, nodes ! w) \<in> depends p} \<and>
     distinct (concat sccs) \<and> set (concat sccs) = {..<n} \<and> [] \<notin> set sccs \<and>
     (\<forall>v < n. \<forall>w < n. owner ! v = owner ! w \<longleftrightarrow> mutual p (nodes ! v) (nodes ! w)) \<and>
     distinct order \<and> set order = {..<length sccs} \<and> before (comp_deps owner (bt_keys edges)) order)"

lemma graph_facts_exist:
  obtains nodes edges sccs order where "dependency_graph p = (nodes, edges)"
    "tarjan (length nodes) (bt_keys edges) = Some sccs"
    "topological (length sccs) (component_of (length nodes) sccs) (bt_keys edges) = Some order"
    "graph_facts p nodes edges sccs order"
proof -
  obtain nodes edges where g: "dependency_graph p = (nodes, edges)" by force
  let ?n = "length nodes" and ?K = "set (bt_keys edges)"
  note dg = dependency_graph_correct [OF g]
  have K: "(v, w) \<in> ?K \<longleftrightarrow> v < ?n \<and> w < ?n \<and> (nodes ! v, nodes ! w) \<in> dep_rel p" for v w
    unfolding edge_map_keys [OF dg(3)] by (auto simp: dep_rel_def)
  then have es: "\<forall>(v, w) \<in> ?K. v < ?n \<and> w < ?n" by (metis (no_types, lifting) case_prodI2)
  obtain sccs where t: "tarjan ?n (bt_keys edges) = Some sccs" "distinct (concat sccs)" "set (concat sccs) = {..<?n}"
    and scc: "\<And>c. c \<in> set sccs \<Longrightarrow> is_scc (succ_lists ?n (bt_keys edges)) (set c)"
    using tarjan_components [OF es] by metis
  let ?owner = "component_of ?n sccs"
  have "arcs (succ_lists ?n (bt_keys edges)) = ?K" using es by (intro arcs_succ_lists) auto
  then have own: "v < ?n \<Longrightarrow> w < ?n \<Longrightarrow> ?owner ! v = ?owner ! w \<longleftrightarrow> (v, w) \<in> ?K\<^sup>* \<and> (w, v) \<in> ?K\<^sup>*" for v w
    using component_of_reach [OF t(2,3) scc] by simp
  then have "acyclic (comp_deps ?owner (bt_keys edges))" using es by (intro comp_deps_acyclic)
  moreover have "\<forall>(x, y) \<in> ?K. ?owner ! x < length sccs \<and> ?owner ! y < length sccs"
    using es component_of_iff(1) [OF t(2,3)] by auto
  ultimately obtain order where "topological (length sccs) ?owner (bt_keys edges) = Some order"
    "distinct order" "set order = {..<length sccs}" "before (comp_deps ?owner (bt_keys edges)) order"
    using topological_correct by blast
  moreover have "[] \<notin> set sccs" using scc by (force simp: is_scc_def)
  moreover have "mutual p (nodes ! v) (nodes ! w) \<longleftrightarrow> ?owner ! v = ?owner ! w" if "v < ?n" "w < ?n" for v w
    using own [OF that] reach_nodes [OF dg(2,1) K that] reach_nodes [OF dg(2,1) K that(2,1)]
    by (simp add: mutual_def)
  ultimately have "graph_facts p nodes edges sccs order" using dg t(2,3) by (simp add: graph_facts_def Let_def)
  with that g t(1) \<open>topological _ _ _ = _\<close> show ?thesis by blast
qed

lemma check_edge_ok:
  "check_edge nodes sccs owner ((v, w), d) = Inr () \<longleftrightarrow> d = Positive \<or> owner ! v \<noteq> owner ! w"
  by (auto simp: check_edge_def)

lemma check_stratification_iff:
  assumes "graph_facts p nodes edges sccs order"
  shows "check_stratification nodes sccs (component_of (length nodes) sccs) edges = Inr () \<longleftrightarrow> stratified p"
    (is "?C \<longleftrightarrow> _")
proof -
  let ?n = "length nodes" and ?owner = "component_of (length nodes) sccs"
  have ef: "edges_for edges {((v, w), d). v < ?n \<and> w < ?n \<and> (nodes ! v, d, nodes ! w) \<in> depends p}"
    and own: "\<And>v w. v < ?n \<Longrightarrow> w < ?n \<Longrightarrow> ?owner ! v = ?owner ! w \<longleftrightarrow> mutual p (nodes ! v) (nodes ! w)"
    and nodes: "set nodes = derived p"
    using assms by (auto simp: graph_facts_def Let_def)
  have "?C \<longleftrightarrow> (\<forall>v w d. bt_get edges (v, w) = Some d \<longrightarrow> d = Positive \<or> ?owner ! v \<noteq> ?owner ! w)"
  proof -
    have "?C \<longleftrightarrow> (\<forall>e \<in> set edges. check_edge nodes sccs ?owner e = Inr ())"
      by (simp add: check_stratification_def check_all_ok)
    also have "\<dots> \<longleftrightarrow> (\<forall>v w d. ((v, w), d) \<in> set edges \<longrightarrow> check_edge nodes sccs ?owner ((v, w), d) = Inr ())"
      by auto
    finally show ?thesis by (simp only: edge_map_entry [OF ef] check_edge_ok)
  qed
  also have "\<dots> \<longleftrightarrow> stratified p"
  proof
    assume ok: "\<forall>v w d. bt_get edges (v, w) = Some d \<longrightarrow> d = Positive \<or> ?owner ! v \<noteq> ?owner ! w"
    show "stratified p"
      unfolding stratified_def
    proof (intro allI impI)
      fix h d t assume dep: "(h, d, t) \<in> depends p" "d \<noteq> Positive"
      from depends_derived [OF dep(1)] nodes obtain v w where vw: "v < ?n" "nodes ! v = h" "w < ?n" "nodes ! w = t"
        by (metis in_set_conv_nth)
      with dep ef obtain d' where "bt_get edges (v, w) = Some d'" "d \<le> d'"
        by (auto simp: edges_for_def split: option.splits) (metis not_None_eq)
      with ok dep(2) have "\<not> mutual p h t" using own [OF vw(1,3)] vw by (metis Positive_least(2))
      moreover have "(h, t) \<in> dep_rel p" using dep by (auto simp: dep_rel_def)
      ultimately show "(t, h) \<notin> (dep_rel p)\<^sup>*" by (auto simp: mutual_def)
    qed
  next
    assume st: "stratified p"
    show "\<forall>v w d. bt_get edges (v, w) = Some d \<longrightarrow> d = Positive \<or> ?owner ! v \<noteq> ?owner ! w"
    proof (intro allI impI)
      fix v w d assume "bt_get edges (v, w) = Some d"
      with ef have "v < ?n" "w < ?n" "(nodes ! v, d, nodes ! w) \<in> depends p"
        by (auto simp: edges_for_def split: option.splits)
      with st own show "d = Positive \<or> ?owner ! v \<noteq> ?owner ! w" by (auto simp: stratified_def mutual_def)
    qed
  qed
  finally show ?thesis .
qed

definition program_ok :: "program \<Rightarrow> (pred \<rightharpoonup> nat) \<Rightarrow> bool" where
  "program_ok p ar \<longleftrightarrow> iri_atoms_ok p \<and> arity_ok p ar \<and> (\<forall>r \<in> set (rules p). rule_safe r) \<and> stratified p"

lemma checks_iff:
  "rbind (check_iri_atoms p) (\<lambda>_. rbind (arities p) (\<lambda>ar. rbind (check_safety p) (\<lambda>_. Inr ar))) = Inr ar \<longleftrightarrow>
     iri_atoms_ok p \<and> arity_ok p ar \<and> (\<forall>r \<in> set (rules p). rule_safe r)"
  by (auto simp: rbind_Inr_iff check_iri_atoms_iff arities_iff check_safety_iff)

text \<open>\<open>analyse\<close> accepts exactly the programs of the specification, and what it returns.\<close>

lemma analyse_Inr_iff:
  assumes "dependency_graph p = (nodes, edges)" "tarjan (length nodes) (bt_keys edges) = Some sccs"
    "topological (length sccs) (component_of (length nodes) sccs) (bt_keys edges) = Some order"
    "graph_facts p nodes edges sccs order"
  shows "analyse p = Some (Inr a) \<longleftrightarrow>
    (\<exists>ar. program_ok p ar \<and> a = \<lparr>strata = map (make_stratum p nodes sccs) order, arity = ar\<rparr>)"
proof -
  have c: "check_stratification nodes sccs (component_of (length nodes) sccs) edges = Inr () \<longleftrightarrow> stratified p"
    by (rule check_stratification_iff [OF assms(4)])
  let ?checks = "rbind (check_iri_atoms p) (\<lambda>_. rbind (arities p) (\<lambda>ar. rbind (check_safety p) (\<lambda>_. Inr ar)))"
  have iff: "program_ok p ar \<longleftrightarrow> ?checks = Inr ar \<and> stratified p" for ar
    unfolding checks_iff program_ok_def by blast
  show ?thesis
  proof (cases ?checks)
    case (Inl e)
    with iff show ?thesis by (simp add: analyse_def)
  next
    case (Inr ar)
    with iff c show ?thesis
      by (cases "check_stratification nodes sccs (component_of (length nodes) sccs) edges")
        (auto simp: analyse_def assms(1-3) order_strata_def Let_def)
  qed
qed

lemma find_index_unique:
  assumes "\<And>i j. i < length xs \<Longrightarrow> j < length xs \<Longrightarrow> P (xs ! i) \<Longrightarrow> P (xs ! j) \<Longrightarrow> i = j"
  shows "find_index P xs = Some k \<longleftrightarrow> k < length xs \<and> P (xs ! k)"
proof
  assume k: "k < length xs \<and> P (xs ! k)"
  then obtain i where "find_index P xs = Some i" using find_index_None [of P xs] by (metis not_None_eq nth_mem)
  with find_index_Some [OF this] k assms show "find_index P xs = Some k" by metis
qed (use find_index_Some in blast)

text \<open>The strata of a program, by their position in the evaluation order.\<close>

lemma in_stratum_iff:
  assumes f: "graph_facts p nodes edges sccs order" and v: "v < length nodes" and k: "k < length order"
  shows "nodes ! v \<in> set (preds (make_stratum p nodes sccs (order ! k))) \<longleftrightarrow>
    order ! k = component_of (length nodes) sccs ! v"
proof -
  have d: "distinct nodes" "distinct (concat sccs)" "set (concat sccs) = {..<length nodes}"
    and ok: "order ! k < length sccs"
    using f k nth_mem [OF k] by (auto simp: graph_facts_def Let_def)
  have "u < length nodes" if "u \<in> set (sccs ! (order ! k))" for u
    using that ok d(3) by (metis UN_I lessThan_iff nth_mem set_concat)
  then have "nodes ! v \<in> set (preds (make_stratum p nodes sccs (order ! k))) \<longleftrightarrow> v \<in> set (sccs ! (order ! k))"
    using v d(1) by (auto simp: make_stratum_def Let_def nth_eq_iff_index_eq)
  also have "\<dots> \<longleftrightarrow> order ! k = component_of (length nodes) sccs ! v"
    using component_of_iff(2) [OF d(2,3) v, of "order ! k"] ok by auto
  finally show ?thesis .
qed

lemma stratum_of_iff:
  assumes f: "graph_facts p nodes edges sccs order" and v: "v < length nodes"
    and a: "strata a = map (make_stratum p nodes sccs) order"
  shows "stratum_of a (nodes ! v) = Some k \<longleftrightarrow>
    k < length order \<and> order ! k = component_of (length nodes) sccs ! v"
proof -
  have d: "distinct order" using f by (simp add: graph_facts_def Let_def)
  have "stratum_of a (nodes ! v) = Some k \<longleftrightarrow>
      k < length (strata a) \<and> nodes ! v \<in> set (preds (strata a ! k))"
    unfolding stratum_of_def
  proof (rule find_index_unique)
    fix i j assume ij: "i < length (strata a)" "j < length (strata a)"
      "nodes ! v \<in> set (preds (strata a ! i))" "nodes ! v \<in> set (preds (strata a ! j))"
    then have "order ! i = order ! j" using in_stratum_iff [OF f v] a by simp
    with ij a d show "i = j" by (simp add: nth_eq_iff_index_eq)
  qed
  then show ?thesis using in_stratum_iff [OF f v, of k] a by (cases "k < length order") simp_all
qed

lemma stratum_of_exists:
  assumes f: "graph_facts p nodes edges sccs order" and v: "v < length nodes"
    and a: "strata a = map (make_stratum p nodes sccs) order"
  obtains k where "stratum_of a (nodes ! v) = Some k" "k < length order"
    "order ! k = component_of (length nodes) sccs ! v"
proof -
  have "component_of (length nodes) sccs ! v \<in> set order"
    using f component_of_iff(1) [of sccs "length nodes" v] v by (simp add: graph_facts_def Let_def)
  then show thesis using that stratum_of_iff [OF f v a] by (auto simp: in_set_conv_nth)
qed

text \<open>An accepted program, taken apart.\<close>

lemma analyse_accepted:
  assumes "analyse p = Some (Inr a)"
  obtains nodes edges sccs order where "graph_facts p nodes edges sccs order"
    "strata a = map (make_stratum p nodes sccs) order" "program_ok p (arity a)"
proof -
  obtain nodes edges sccs order where *: "dependency_graph p = (nodes, edges)"
    "tarjan (length nodes) (bt_keys edges) = Some sccs"
    "topological (length sccs) (component_of (length nodes) sccs) (bt_keys edges) = Some order"
    "graph_facts p nodes edges sccs order" by (rule graph_facts_exist)
  from assms analyse_Inr_iff [OF *, of a] obtain ar where "program_ok p ar"
    "a = \<lparr>strata = map (make_stratum p nodes sccs) order, arity = ar\<rparr>" by blast
  with that *(4) show thesis by simp
qed

lemma derived_node:
  assumes "graph_facts p nodes edges sccs order" "q \<in> derived p"
  obtains v where "v < length nodes" "nodes ! v = q"
  using assms by (metis graph_facts_def in_set_conv_nth)

lemma stratum_of_mutual:
  assumes "analyse p = Some (Inr a)" "q \<in> derived p" "q' \<in> derived p"
  shows "stratum_of a q = stratum_of a q' \<longleftrightarrow> mutual p q q'"
proof -
  obtain nodes edges sccs order where f: "graph_facts p nodes edges sccs order"
    and a: "strata a = map (make_stratum p nodes sccs) order"
    using analyse_accepted [OF assms(1)] .
  obtain v w where v: "v < length nodes" "nodes ! v = q" and w: "w < length nodes" "nodes ! w = q'"
    using derived_node [OF f] assms(2,3) by metis
  obtain i j where i: "stratum_of a q = Some i" "i < length order" "order ! i = component_of (length nodes) sccs ! v"
    and j: "stratum_of a q' = Some j" "j < length order" "order ! j = component_of (length nodes) sccs ! w"
    using stratum_of_exists [OF f _ a] v w by metis
  have "i = j \<longleftrightarrow> order ! i = order ! j"
    using i(2) j(2) f by (auto simp: graph_facts_def Let_def nth_eq_iff_index_eq)
  with i j v w f show ?thesis by (auto simp: graph_facts_def Let_def)
qed

lemma stratum_of_le:
  assumes "analyse p = Some (Inr a)" "(h, t) \<in> dep_rel p"
  shows "\<exists>i j. stratum_of a h = Some i \<and> stratum_of a t = Some j \<and> j \<le> i"
proof -
  obtain nodes edges sccs order where f: "graph_facts p nodes edges sccs order"
    and a: "strata a = map (make_stratum p nodes sccs) order"
    using analyse_accepted [OF assms(1)] .
  let ?owner = "component_of (length nodes) sccs"
  have ht: "h \<in> derived p" "t \<in> derived p" using dep_rel_derived [OF assms(2)] by auto
  obtain v w where v: "v < length nodes" "nodes ! v = h" and w: "w < length nodes" "nodes ! w = t"
    using derived_node [OF f] ht by metis
  obtain i j where i: "stratum_of a h = Some i" "i < length order" "order ! i = ?owner ! v"
    and j: "stratum_of a t = Some j" "j < length order" "order ! j = ?owner ! w"
    using stratum_of_exists [OF f _ a] v w by metis
  have d: "distinct order" using f by (simp add: graph_facts_def Let_def)
  show ?thesis
  proof (cases "?owner ! v = ?owner ! w")
    case True
    with i j d have "i = j" by (metis nth_eq_iff_index_eq)
    with i j show ?thesis by auto
  next
    case False
    have "edges_for edges {((v, w), d). v < length nodes \<and> w < length nodes \<and> (nodes ! v, d, nodes ! w) \<in> depends p}"
      using f by (simp add: graph_facts_def Let_def)
    then have "(v, w) \<in> set (bt_keys edges)"
      using edge_map_keys assms(2) v w by (simp add: dep_rel_def)
    with False have "(order ! i, ?owner ! w) \<in> comp_deps ?owner (bt_keys edges)"
      using i(3) by (auto simp: comp_deps_def simp del: list.set_map set_map)
    then have "?owner ! w \<in> set (take i order)"
      using f i(2) by (auto simp: graph_facts_def Let_def before_def)
    then obtain m where "m < i" "order ! m = order ! j" using j(3) by (auto simp: in_set_conv_nth)
    then have "m = j" using d i(2) j(2) by (metis less_trans nth_eq_iff_index_eq)
    with \<open>m < i\<close> i(1) j(1) show ?thesis by auto
  qed
qed

text \<open>The classification of a component.\<close>

lemma inner_atoms_pos:
  "0 < inner_atoms ps r \<longleftrightarrow> (\<exists>a. Atom a \<in> set (rule_body r) \<and> atom_pred a \<in> set ps)"
  by (auto simp: inner_atoms_def filter_empty_conv)

lemma shape_NonRecursive_iff:
  "shape_of p ps \<noteq> NonRecursive \<longleftrightarrow>
     (\<exists>r \<in> set (rules p). head_of r \<in> set ps \<and> (\<exists>a. Atom a \<in> set (rule_body r) \<and> atom_pred a \<in> set ps))"
  by (auto simp: shape_of_def Let_def list_ex_iff inner_atoms_pos)

lemma depends_cases:
  assumes "(h, d, t) \<in> depends p"
  obtains r a where "r \<in> set (rules p)" "head_of r = h" "atom_pred a = t"
    "Atom a \<in> set (rule_body r)" "d = (if aggregates (rule_head r) then Aggregating else Positive)"
  | r a where "r \<in> set (rules p)" "head_of r = h" "atom_pred a = t" "Negated a \<in> set (rule_body r)" "d = Negative"
proof -
  from assms obtain r i a where r: "r \<in> set (rules p)" "i \<in> set (rule_body r)" "head_of r = h" "atom_pred a = t"
    "item_dep (aggregates (rule_head r)) i = Some (a, d)" by (auto simp: depends_def)
  then show thesis using that by (cases i) (auto simp: item_dep_def)
qed

lemma depends_atom:
  assumes "r \<in> set (rules p)" "Atom a \<in> set (rule_body r)" "atom_pred a \<in> derived p"
  shows "(head_of r, if aggregates (rule_head r) then Aggregating else Positive, atom_pred a) \<in> depends p"
  using assms unfolding depends_def item_dep_def by force

lemma depends_negated:
  assumes "r \<in> set (rules p)" "Negated a \<in> set (rule_body r)" "atom_pred a \<in> derived p"
  shows "(head_of r, Negative, atom_pred a) \<in> depends p"
  using assms unfolding depends_def item_dep_def by force

lemma component_recursive:
  assumes st: "stratified p" and ps: "ps \<noteq> []" "set ps \<subseteq> derived p"
    and scc: "\<And>q q'. q \<in> set ps \<Longrightarrow> q' \<in> derived p \<Longrightarrow> q' \<in> set ps \<longleftrightarrow> mutual p q q'"
    and q: "q \<in> set ps"
  shows "shape_of p ps \<noteq> NonRecursive \<longleftrightarrow> (q, q) \<in> (dep_rel p)\<^sup>+"
proof
  assume "shape_of p ps \<noteq> NonRecursive"
  then obtain r a where r: "r \<in> set (rules p)" "head_of r \<in> set ps" "Atom a \<in> set (rule_body r)" "atom_pred a \<in> set ps"
    using shape_NonRecursive_iff by blast
  then have "(head_of r, atom_pred a) \<in> dep_rel p"
    using ps(2) depends_atom [of r p a] unfolding dep_rel_def by blast
  moreover have "(q, head_of r) \<in> (dep_rel p)\<^sup>*" "(atom_pred a, q) \<in> (dep_rel p)\<^sup>*"
    using scc [OF q, of "head_of r"] scc [OF q, of "atom_pred a"] r(2,4) ps(2) by (auto simp: mutual_def)
  ultimately show "(q, q) \<in> (dep_rel p)\<^sup>+" by (meson rtrancl_into_trancl1 trancl_rtrancl_trancl)
next
  assume "(q, q) \<in> (dep_rel p)\<^sup>+"
  then obtain t where t: "(q, t) \<in> dep_rel p" "(t, q) \<in> (dep_rel p)\<^sup>*" by (meson tranclD)
  then obtain d where d: "(q, d, t) \<in> depends p" by (auto simp: dep_rel_def)
  with st t have "d = Positive" by (auto simp: stratified_def)
  from d this obtain r a where r: "r \<in> set (rules p)" "head_of r = q" "atom_pred a = t" "Atom a \<in> set (rule_body r)"
    by (cases rule: depends_cases) auto
  have "t \<in> set ps" using scc [OF q] depends_derived [OF d] t by (auto simp: mutual_def)
  with r q show "shape_of p ps \<noteq> NonRecursive" unfolding shape_NonRecursive_iff by blast
qed

lemma stratum_is_component:
  assumes "analyse p = Some (Inr a)" "s \<in> set (strata a)"
  shows "preds s \<noteq> []" "set (preds s) \<subseteq> derived p" "distinct (preds s)" "shape s = shape_of p (preds s)"
    and "q \<in> set (preds s) \<Longrightarrow> q' \<in> derived p \<Longrightarrow> q' \<in> set (preds s) \<longleftrightarrow> mutual p q q'"
proof -
  obtain nodes edges sccs order where f: "graph_facts p nodes edges sccs order"
    and a: "strata a = map (make_stratum p nodes sccs) order"
    using analyse_accepted [OF assms(1)] .
  from a assms(2) obtain k where k: "k < length order" "s = make_stratum p nodes sccs (order ! k)"
    by (auto simp: in_set_conv_nth)
  have d: "distinct nodes" "set nodes = derived p" "distinct (concat sccs)" "set (concat sccs) = {..<length nodes}"
    "[] \<notin> set sccs" and ok: "order ! k < length sccs"
    using f k(1) nth_mem [OF k(1)] by (auto simp: graph_facts_def Let_def)
  have sub: "set (sccs ! (order ! k)) \<subseteq> {..<length nodes}" using d(4) ok by (metis UN_upper nth_mem set_concat)
  show "preds s \<noteq> []" "shape s = shape_of p (preds s)"
    using d(5) k(2) nth_mem [OF ok] by (auto simp: make_stratum_def Let_def simp del: nth_mem)
  show sd: "set (preds s) \<subseteq> derived p" using sub k(2) unfolding d(2) [symmetric] by (auto simp: make_stratum_def Let_def)
  have "distinct (sccs ! (order ! k))" using d(3) ok by (simp add: distinct_concat_iff)
  then show "distinct (preds s)" using sub d(1) k(2)
    by (auto simp: make_stratum_def Let_def distinct_map inj_on_def subset_iff nth_eq_iff_index_eq)
  assume q: "q \<in> set (preds s)" "q' \<in> derived p"
  then obtain v w where v: "v < length nodes" "nodes ! v = q" and w: "w < length nodes" "nodes ! w = q'"
    using derived_node [OF f] sd by (metis subsetD)
  have "q' \<in> set (preds s) \<longleftrightarrow> component_of (length nodes) sccs ! v = component_of (length nodes) sccs ! w"
    using in_stratum_iff [OF f v(1) k(1)] in_stratum_iff [OF f w(1) k(1)] q(1) v(2) w(2) k(2) by auto
  with f v w show "q' \<in> set (preds s) \<longleftrightarrow> mutual p q q'" by (auto simp: graph_facts_def Let_def)
qed

section \<open>Properties\<close>

text \<open>
  A program used by the witnesses: reachability over a stored edge relation, its complement under
  negation, and a count of the reached nodes.
\<close>

definition mk_atom :: "pred \<Rightarrow> arg list \<Rightarrow> atom" where
  "mk_atom q as = \<lparr>atom_pred = q, atom_args = as, atom_span = \<lparr>line = 1, column = 1\<rparr>, atom_at = None\<rparr>"

definition mk_rule :: "string \<Rightarrow> head_arg list \<Rightarrow> body_item list \<Rightarrow> rule" where
  "mk_rule h as b =
     \<lparr>rule_head = \<lparr>head_pred = Idb h, head_args = as, head_span = \<lparr>line = 1, column = 1\<rparr>\<rparr>, rule_body = b\<rparr>"

definition reach_program :: program where
  "reach_program =
     (let x = Var ''x''; y = Var ''y''; z = Var ''z'';
          edge = (\<lambda>a b. mk_atom (Edb ''e'') [a, b]); path = (\<lambda>a b. mk_atom (Idb ''p'') [a, b])
      in \<lparr>rules =
            [mk_rule ''u'' [Plain x, Plain y]
               [Atom (mk_atom (Edb ''n'') [x]), Atom (mk_atom (Edb ''n'') [y]), Negated (path x y)],
             mk_rule ''p'' [Plain x, Plain y] [Atom (edge x y)],
             mk_rule ''p'' [Plain x, Plain z] [Atom (edge x y), Atom (path y z)],
             mk_rule ''c'' [Plain x, Agg Count ''y''] [Atom (path x y)]],
          prog_goal = None, version = None\<rparr>)"

lemma reach_program_accepted:
  "\<exists>a. analyse reach_program = Some (Inr a) \<and> map preds (strata a) = [[Idb ''p''], [Idb ''u''], [Idb ''c'']]
     \<and> map shape (strata a) = [Linear, NonRecursive, NonRecursive]"
proof -
  have "case analyse reach_program of Some (Inr a) \<Rightarrow>
      map preds (strata a) = [[Idb ''p''], [Idb ''u''], [Idb ''c'']]
      \<and> map shape (strata a) = [Linear, NonRecursive, NonRecursive] | _ \<Rightarrow> False"
    by code_simp
  then show ?thesis by (auto split: option.splits sum.splits)
qed

text \<open>Three more facts on accepted programs the properties use.\<close>

lemma stratum_of_derived: "analyse p = Some (Inr a) \<Longrightarrow> q \<in> derived p \<Longrightarrow> stratum_of a q \<noteq> None"
  using analyse_accepted derived_node stratum_of_exists by (metis option.distinct(1))

lemma stratum_of_Some: "analyse p = Some (Inr a) \<Longrightarrow> q \<in> derived p \<Longrightarrow>
    i < length (strata a) \<Longrightarrow> q \<in> set (preds (strata a ! i)) \<Longrightarrow> stratum_of a q = Some i"
proof -
  assume a: "analyse p = Some (Inr a)" "q \<in> derived p" "i < length (strata a)" "q \<in> set (preds (strata a ! i))"
  obtain nodes edges sccs order where f: "graph_facts p nodes edges sccs order"
    and st: "strata a = map (make_stratum p nodes sccs) order"
    using analyse_accepted [OF a(1)] .
  obtain v where v: "v < length nodes" "nodes ! v = q" using derived_node [OF f a(2)] .
  show "stratum_of a q = Some i"
    using stratum_of_iff [OF f v(1) st, of i] in_stratum_iff [OF f v(1), of i] a(3,4) st v(2) by simp
qed

text \<open>
  C5. \<^verbatim>\<open>analyse\<close> decides the static semantics of the dialect: it always returns without a panic, and
  it accepts a program exactly when its IRI atoms are triple patterns or classes, every derived
  predicate has one arity that all its uses agree with, every rule is range restricted, and no
  negated or aggregating dependency lies on a cycle of the dependency relation.
\<close>

theorem analyse_decides:
  "analyse p \<noteq> None \<and> ((\<exists>a. analyse p = Some (Inr a)) \<longleftrightarrow> (\<exists>ar. program_ok p ar))"
proof -
  obtain nodes edges sccs order where *: "dependency_graph p = (nodes, edges)"
    "tarjan (length nodes) (bt_keys edges) = Some sccs"
    "topological (length sccs) (component_of (length nodes) sccs) (bt_keys edges) = Some order"
    "graph_facts p nodes edges sccs order" by (rule graph_facts_exist)
  then have "analyse p \<noteq> None"
    by (auto simp: analyse_def order_strata_def Let_def split: sum.splits)
  then show ?thesis using analyse_Inr_iff [OF *] by blast
qed

text \<open>
  C9. The strata partition the derived predicates into the strongly connected components of the
  dependency relation: a predicate is found in a stratum exactly when a rule defines it, it is in no
  other stratum, and two derived predicates share a stratum exactly when each depends on the other.
\<close>

theorem analyse_partition:
  assumes "analyse p = Some (Inr a)"
  shows "(stratum_of a q \<noteq> None \<longleftrightarrow> q \<in> derived p) \<and>
    (stratum_of a q = Some i \<longleftrightarrow> i < length (strata a) \<and> q \<in> set (preds (strata a ! i))) \<and>
    (q \<in> derived p \<and> q' \<in> derived p \<longrightarrow> (stratum_of a q = stratum_of a q' \<longleftrightarrow> mutual p q q'))"
proof -
  have found: "j < length (strata a) \<and> q \<in> set (preds (strata a ! j))" if "stratum_of a q = Some j" for j
    using find_index_Some that by (fastforce simp: stratum_of_def)
  have sub: "q \<in> derived p" if "j < length (strata a)" "q \<in> set (preds (strata a ! j))" for j
    using stratum_is_component(2) [OF assms nth_mem] that by blast
  then have "stratum_of a q \<noteq> None \<longleftrightarrow> q \<in> derived p" using found stratum_of_derived [OF assms] by auto
  moreover have "stratum_of a q = Some i \<longleftrightarrow> i < length (strata a) \<and> q \<in> set (preds (strata a ! i))"
    using found sub stratum_of_Some [OF assms] by blast
  ultimately show ?thesis using stratum_of_mutual [OF assms] by blast
qed

theorem analyse_partition_witness:
  "\<exists>a. analyse reach_program = Some (Inr a) \<and>
     (stratum_of a (Idb ''u'') = Some 1 \<longleftrightarrow> 1 < length (strata a) \<and> Idb ''u'' \<in> set (preds (strata a ! 1)))"
  using reach_program_accepted analyse_partition by blast

text \<open>
  C4. The evaluation order is sound: in an accepted program, a derived predicate a rule reads is in
  the stratum of the rule's head or in an earlier one, and strictly earlier when the rule negates it
  or aggregates over its body.
\<close>

theorem analyse_order:
  assumes "analyse p = Some (Inr a)" "r \<in> set (rules p)" "b \<in> set (body_atoms r)" "atom_pred b \<in> derived p"
  shows "\<exists>i j. stratum_of a (head_of r) = Some i \<and> stratum_of a (atom_pred b) = Some j \<and> j \<le> i \<and>
    (Negated b \<in> set (rule_body r) \<or> aggregates (rule_head r) \<longrightarrow> j < i)"
proof -
  let ?h = "head_of r" and ?t = "atom_pred b"
  have item: "Atom b \<in> set (rule_body r) \<or> Negated b \<in> set (rule_body r)"
    using assms(3) by (simp only: in_body_atoms)
  then have dep: "(?h, ?t) \<in> dep_rel p"
    using depends_atom [OF assms(2)] depends_negated [OF assms(2)] assms(4) unfolding dep_rel_def by blast
  obtain i j where ij: "stratum_of a ?h = Some i" "stratum_of a ?t = Some j" "j \<le> i"
    using stratum_of_le [OF assms(1) dep] by blast
  have "j < i" if neg: "Negated b \<in> set (rule_body r) \<or> aggregates (rule_head r)"
  proof -
    obtain d where "(?h, d, ?t) \<in> depends p" "d \<noteq> Positive"
    proof (cases "Negated b \<in> set (rule_body r)")
      case True
      from that [OF depends_negated [OF assms(2) True assms(4)]] show thesis by simp
    next
      case False
      with item neg have "Atom b \<in> set (rule_body r)" "aggregates (rule_head r)" by auto
      from that [OF depends_atom [OF assms(2) this(1) assms(4)]] this(2) show thesis by simp
    qed
    moreover have "stratified p" using analyse_accepted [OF assms(1)] by (metis program_ok_def)
    ultimately have "\<not> mutual p ?h ?t" by (auto simp: stratified_def mutual_def)
    then have "i \<noteq> j" using stratum_of_mutual [OF assms(1), of ?h ?t] dep_rel_derived [OF dep] ij by auto
    with ij(3) show ?thesis by simp
  qed
  with ij show ?thesis by blast
qed

theorem analyse_order_witness:
  "\<exists>a i j. analyse reach_program = Some (Inr a) \<and> stratum_of a (Idb ''u'') = Some i \<and>
     stratum_of a (Idb ''p'') = Some j \<and> j < i"
proof -
  let ?r = "rules reach_program ! 0" and ?b = "mk_atom (Idb ''p'') [Var ''x'', Var ''y'']"
  have r: "?r \<in> set (rules reach_program)" "?b \<in> set (body_atoms ?r)" "atom_pred ?b \<in> derived reach_program"
    "head_of ?r = Idb ''u''" "Negated ?b \<in> set (rule_body ?r)" "atom_pred ?b = Idb ''p''"
    by (simp_all add: reach_program_def Let_def mk_rule_def mk_atom_def item_atoms_def derived_def)
  from reach_program_accepted obtain a where a: "analyse reach_program = Some (Inr a)" by blast
  from analyse_order [OF a r(1-3)] a r(4-6) show ?thesis by (metis (no_types, lifting))
qed

text \<open>
  C30. The recursion shape is right: a stratum of an accepted program is evaluated recursively exactly
  when its predicates depend on themselves; it is \<^verbatim>\<open>NonLinear\<close> exactly when a rule for one of its predicates
  has two or more body atoms inside the stratum, and \<^verbatim>\<open>Linear\<close> strata define one predicate.
\<close>

theorem analyse_shape:
  assumes "analyse p = Some (Inr a)" "s \<in> set (strata a)" "q \<in> set (preds s)"
  shows "(is_recursive s \<longleftrightarrow> (q, q) \<in> (dep_rel p)\<^sup>+) \<and>
    (shape s = NonLinear \<longleftrightarrow> (\<exists>r \<in> set (rules p). head_of r \<in> set (preds s) \<and> 2 \<le> inner_atoms (preds s) r)) \<and>
    (shape s = Linear \<longrightarrow> preds s = [q]) \<and> (shape s = LinearMutual \<longrightarrow> 2 \<le> length (preds s))"
proof -
  note c = stratum_is_component [OF assms(1,2)]
  have st: "stratified p" using analyse_accepted [OF assms(1)] by (metis program_ok_def)
  have "is_recursive s \<longleftrightarrow> (q, q) \<in> (dep_rel p)\<^sup>+"
    unfolding is_recursive_def c(4) by (rule component_recursive [OF st c(1,2) c(5) assms(3)])
  moreover have "shape s = NonLinear \<longleftrightarrow> (\<exists>r \<in> set (rules p). head_of r \<in> set (preds s) \<and> 2 \<le> inner_atoms (preds s) r)"
    unfolding c(4) by (auto simp: shape_of_def Let_def list_ex_iff)
  moreover have "preds s = [q]" if "shape s = Linear"
  proof -
    have "length (preds s) \<le> 1" using that unfolding c(4) by (auto simp: shape_of_def Let_def split: if_splits)
    with c(1) assms(3) show ?thesis by (cases "preds s") auto
  qed
  moreover have "2 \<le> length (preds s)" if "shape s = LinearMutual"
    using that unfolding c(4) by (auto simp: shape_of_def Let_def split: if_splits)
  ultimately show ?thesis by blast
qed

theorem analyse_shape_witness:
  "(Idb ''p'', Idb ''p'') \<in> (dep_rel reach_program)\<^sup>+"
proof -
  obtain a where a: "analyse reach_program = Some (Inr a)"
    "map preds (strata a) = [[Idb ''p''], [Idb ''u''], [Idb ''c'']]"
    "map shape (strata a) = [Linear, NonRecursive, NonRecursive]"
    using reach_program_accepted by (elim exE conjE) (rule that)
  then have "strata a \<noteq> []" by auto
  then have "hd (strata a) \<in> set (strata a)" "preds (hd (strata a)) = [Idb ''p'']" "shape (hd (strata a)) = Linear"
    using arg_cong [OF a(2), of hd] arg_cong [OF a(3), of hd] by (simp_all add: hd_map)
  with analyse_shape [OF a(1), of "hd (strata a)" "Idb ''p''"] show ?thesis by (simp add: is_recursive_def)
qed

end
