(* ===== verification/F64.thy ===== *)
theory F64
  imports Prelude
begin

unbundle bit_operations_syntax

text \<open>
  The parts of Rust's \<^verbatim>\<open>f64\<close> the sources use. A float is its bit pattern (\<^verbatim>\<open>to_bits\<close>), a
  64-bit word. The value of a finite float is an integer multiple of \<open>2\<^sup>-\<^sup>1\<^sup>0\<^sup>7\<^sup>4\<close>, and \<open>f64_scaled\<close> is
  that integer, so comparisons of values are comparisons of integers. Parsing and arithmetic round
  to nearest, ties to even; \<^verbatim>\<open>{:?}\<close> prints the shortest digits that read back as the same float.
\<close>

type_synonym f64 = "64 word"

section \<open>Bit patterns and values\<close>

definition f64_sign :: "f64 \<Rightarrow> bool" where
  "f64_sign x = bit x 63"

definition f64_mag :: "f64 \<Rightarrow> int" where
  "f64_mag x = uint x mod 2 ^ 63"

abbreviation inf_mag :: int where
  "inf_mag \<equiv> 2047 * 2 ^ 52"

definition f64_is_finite :: "f64 \<Rightarrow> bool" where
  "f64_is_finite x \<longleftrightarrow> f64_mag x < inf_mag"

definition f64_is_nan :: "f64 \<Rightarrow> bool" where
  "f64_is_nan x \<longleftrightarrow> f64_mag x > inf_mag"

text \<open>The reciprocal of the smallest subnormal.\<close>

definition F64_UNIT :: int where
  "F64_UNIT = 2 ^ 1074"

text \<open>The value of a magnitude in units of the smallest subnormal.\<close>

definition mag_scaled :: "int \<Rightarrow> int" where
  "mag_scaled m =
     (let e = m div 2 ^ 52; f = m mod 2 ^ 52
      in if e = 0 then f else (2 ^ 52 + f) * 2 ^ nat (e - 1))"

definition f64_scaled :: "f64 \<Rightarrow> int" where
  "f64_scaled x = (if f64_sign x then - mag_scaled (f64_mag x) else mag_scaled (f64_mag x))"

definition make_f64 :: "bool \<Rightarrow> int \<Rightarrow> f64" where
  "make_f64 s m = word_of_int ((if s then 2 ^ 63 else 0) + m)"

abbreviation f64_inf :: "bool \<Rightarrow> f64" where
  "f64_inf s \<equiv> make_f64 s inf_mag"

section \<open>Rounding\<close>

fun bit_len :: "int \<Rightarrow> nat" where
  "bit_len n = (if n \<le> 0 then 0 else Suc (bit_len (n div 2)))"

declare bit_len.simps [simp del]

text \<open>The magnitude nearest to \<open>n / d\<close>, for \<open>0 \<le> n\<close> and \<open>0 < d\<close>.\<close>

definition round_mag :: "int \<Rightarrow> int \<Rightarrow> int" where
  "round_mag n d =
     (let N = n * F64_UNIT;
          q = N div d;
          b = bit_len q - 53;
          c = q div 2 ^ b;
          m = int b * 2 ^ 52 + c;
          r = N - c * 2 ^ b * d;
          up = (2 * r > 2 ^ b * d \<or> (2 * r = 2 ^ b * d \<and> odd m))
      in min (if up then m + 1 else m) inf_mag)"

definition f64_of_ratio :: "bool \<Rightarrow> int \<Rightarrow> int \<Rightarrow> f64" where
  "f64_of_ratio s n d = make_f64 s (round_mag n d)"

text \<open>\<^verbatim>\<open>i as f64\<close>.\<close>

definition f64_of_int :: "int \<Rightarrow> f64" where
  "f64_of_int i = f64_of_ratio (i < 0) \<bar>i\<bar> 1"

text \<open>Sums, differences and products of finite floats; a zero sum of opposite signs is positive.\<close>

definition f64_neg :: "f64 \<Rightarrow> f64" where
  "f64_neg x = x XOR push_bit 63 1"

definition f64_add :: "f64 \<Rightarrow> f64 \<Rightarrow> f64" where
  "f64_add x y =
     (let v = f64_scaled x + f64_scaled y
      in f64_of_ratio (if v = 0 then f64_sign x \<and> f64_sign y else v < 0) \<bar>v\<bar> (F64_UNIT))"

definition f64_sub :: "f64 \<Rightarrow> f64 \<Rightarrow> f64" where
  "f64_sub x y = f64_add x (f64_neg y)"

definition f64_mul :: "f64 \<Rightarrow> f64 \<Rightarrow> f64" where
  "f64_mul x y =
     f64_of_ratio (f64_sign x \<noteq> f64_sign y) \<bar>f64_scaled x * f64_scaled y\<bar> (F64_UNIT * F64_UNIT)"

text \<open>\<^verbatim>\<open>x.fract() == 0.0\<close>, \<^verbatim>\<open>x.abs() < k\<close> for an integer \<open>k\<close>, and \<^verbatim>\<open>x as i64\<close>.\<close>

definition f64_is_integral :: "f64 \<Rightarrow> bool" where
  "f64_is_integral x \<longleftrightarrow> f64_is_finite x \<and> f64_scaled x mod F64_UNIT = 0"

definition f64_abs_lt :: "f64 \<Rightarrow> int \<Rightarrow> bool" where
  "f64_abs_lt x k \<longleftrightarrow> f64_is_finite x \<and> \<bar>f64_scaled x\<bar> < k * F64_UNIT"

definition f64_as_i64 :: "f64 \<Rightarrow> int" where
  "f64_as_i64 x =
     (if f64_is_nan x then 0
      else if \<not> f64_is_finite x then (if f64_sign x then i64_min else i64_max)
      else max i64_min (min i64_max (sgn (f64_scaled x) * (\<bar>f64_scaled x\<bar> div F64_UNIT))))"

section \<open>Reading\<close>

text \<open>Trailing and leading white space in the sense of \<^verbatim>\<open>str::trim\<close>, as UTF-8 byte sequences.\<close>

definition utf8_spaces :: "string list" where
  "utf8_spaces = map (map char_of)
     ([[9], [10], [11], [12], [13], [32], [194, 133], [194, 160], [225, 154, 128]]
      @ map (\<lambda>b. [226, 128, b]) ([128..<139] @ [168, 169, 175])
      @ [[226, 129, 159], [227, 128, 128]] :: nat list list)"

fun trim_start_n :: "nat \<Rightarrow> string \<Rightarrow> string" where
  "trim_start_n 0 s = s"
| "trim_start_n (Suc n) s =
     (case List.find (\<lambda>w. starts_with w s) utf8_spaces of
        None \<Rightarrow> s | Some w \<Rightarrow> trim_start_n n (drop (length w) s))"

fun trim_end_n :: "nat \<Rightarrow> string \<Rightarrow> string" where
  "trim_end_n 0 s = s"
| "trim_end_n (Suc n) s =
     (case List.find (\<lambda>w. starts_with (rev w) (rev s)) utf8_spaces of
        None \<Rightarrow> s | Some w \<Rightarrow> trim_end_n n (take (length s - length w) s))"

definition trim :: "string \<Rightarrow> string" where
  "trim s = (let t = trim_start_n (length s) s in trim_end_n (length t) t)"

text \<open>
  \<^verbatim>\<open>f64::from_str\<close>: an optional sign, then \<^verbatim>\<open>inf\<close>, \<^verbatim>\<open>infinity\<close> or \<^verbatim>\<open>nan\<close> in any case,
  or digits with an optional point and exponent.
\<close>

definition f64_nan :: f64 where
  "f64_nan = make_f64 False (inf_mag + 2 ^ 51)"

definition decimal_f64 :: "bool \<Rightarrow> string \<Rightarrow> string \<Rightarrow> int \<Rightarrow> f64" where
  "decimal_f64 s ip fp e =
     (let n = int (digits_val (ip @ fp)); k = e - int (length fp)
      in if n = 0 then make_f64 s 0
         else if 0 \<le> k then f64_of_ratio s (n * 10 ^ nat k) 1
         else f64_of_ratio s n (10 ^ nat (- k)))"

definition parse_exponent :: "string \<Rightarrow> int option" where
  "parse_exponent s =
     (let (neg, ds) =
        (case s of
           c # r \<Rightarrow> if c = CHR ''-'' then (True, r) else if c = CHR ''+'' then (False, r) else (False, s)
         | [] \<Rightarrow> (False, []))
      in if ds = [] \<or> \<not> list_all is_ascii_digit ds then None
         else Some (if neg then - int (digits_val ds) else int (digits_val ds)))"

definition parse_decimal :: "bool \<Rightarrow> string \<Rightarrow> f64 option" where
  "parse_decimal s t =
     (let ip = takeWhile is_ascii_digit t;
          r = dropWhile is_ascii_digit t;
          (fp, r2) = (case r of c # r' \<Rightarrow> if c = CHR ''.'' then (takeWhile is_ascii_digit r', dropWhile is_ascii_digit r')
                                 else ([], r) | [] \<Rightarrow> ([], []))
      in if ip = [] \<and> fp = [] then None
         else (case r2 of
                 [] \<Rightarrow> Some (decimal_f64 s ip fp 0)
               | c # r3 \<Rightarrow>
                   if c = CHR ''e'' \<or> c = CHR ''E''
                   then map_option (decimal_f64 s ip fp) (parse_exponent r3)
                   else None))"

definition f64_from_str :: "string \<Rightarrow> f64 option" where
  "f64_from_str str =
     (let (s, t) =
        (case str of
           c # r \<Rightarrow> if c = CHR ''-'' then (True, r) else if c = CHR ''+'' then (False, r) else (False, str)
         | [] \<Rightarrow> (False, []))
      in if eq_ignore_ascii_case t ''inf'' \<or> eq_ignore_ascii_case t ''infinity'' then Some (f64_inf s)
         else if eq_ignore_ascii_case t ''nan'' then Some f64_nan
         else parse_decimal s t)"

section \<open>Printing\<close>

text \<open>
  The shortest decimal digits. \<open>dec_digits n d\<close> is the number of digits before the point of \<open>n / d\<close>
  (zero or negative below one).
\<close>

fun up_ten :: "nat \<Rightarrow> int \<Rightarrow> int \<Rightarrow> int \<Rightarrow> int" where
  "up_ten 0 n d k = k"
| "up_ten (Suc f) n d k = (if n \<ge> d then up_ten f n (10 * d) (k + 1) else k)"

fun down_ten :: "nat \<Rightarrow> int \<Rightarrow> int \<Rightarrow> int \<Rightarrow> int" where
  "down_ten 0 n d k = k"
| "down_ten (Suc f) n d k = (if 10 * n < d then down_ten f (10 * n) d (k - 1) else k)"

definition dec_digits :: "int \<Rightarrow> int \<Rightarrow> int" where
  "dec_digits n d = (if n \<ge> d then up_ten 400 n d 0 else down_ten 400 n d 0)"

text \<open>Ten to a power \<open>k\<close> as a fraction, and the value of \<open>c * 10 ^ k\<close> rounded.\<close>

definition round_dec :: "int \<Rightarrow> int \<Rightarrow> int" where
  "round_dec c k = (if 0 \<le> k then round_mag (c * 10 ^ nat k) 1 else round_mag c (10 ^ nat (- k)))"

definition candidates :: "int \<Rightarrow> int \<Rightarrow> int \<Rightarrow> int list" where
  "candidates n d k =
     (let (a, b) = (if 0 \<le> k then (n, d * 10 ^ nat k) else (n * 10 ^ nat (- k), d));
          q = a div b; r = a - q * b
      in if 2 * r \<le> b then [q, q + 1] else [q + 1, q])"

fun shortest_from :: "nat \<Rightarrow> int \<Rightarrow> int \<Rightarrow> int \<Rightarrow> int \<Rightarrow> int \<Rightarrow> int \<times> int" where
  "shortest_from 0 m n d p len = (hd (candidates n d (p - len)), p - len)"
| "shortest_from (Suc f) m n d p len =
     (case List.find (\<lambda>c. 0 < c \<and> round_dec c (p - len) = m) (candidates n d (p - len)) of
        Some c \<Rightarrow> (c, p - len)
      | None \<Rightarrow> shortest_from f m n d p (len + 1))"

fun strip_zeros :: "nat \<Rightarrow> int \<Rightarrow> int \<Rightarrow> int \<times> int" where
  "strip_zeros 0 c k = (c, k)"
| "strip_zeros (Suc f) c k = (if c mod 10 = 0 then strip_zeros f (c div 10) (k + 1) else (c, k))"

definition shortest :: "int \<Rightarrow> int \<times> int" where
  "shortest m =
     (let n = mag_scaled m; d = F64_UNIT; p = dec_digits n d;
          (c, k) = shortest_from 20 m n d p 1
      in strip_zeros 20 c k)"

definition print_decimal :: "int \<Rightarrow> int \<Rightarrow> string" where
  "print_decimal c k =
     (let ds = show_int c
      in if 0 \<le> k then ds @ replicate (nat k) (CHR ''0'') @ ''.0''
         else let j = nat (- k)
              in if j < length ds then take (length ds - j) ds @ ''.'' @ drop (length ds - j) ds
                 else ''0.'' @ replicate (j - length ds) (CHR ''0'') @ ds)"

definition print_exp :: "int \<Rightarrow> int \<Rightarrow> string" where
  "print_exp c k =
     (let ds = show_int c; e = k + int (length ds) - 1
      in take 1 ds @ (if length ds > 1 then ''.'' @ drop 1 ds else []) @ ''e'' @ show_int e)"

definition f64_debug :: "f64 \<Rightarrow> string" where
  "f64_debug x =
     (if f64_is_nan x then ''NaN''
      else (if f64_sign x then ''-'' else []) @
        (let m = f64_mag x; v = mag_scaled m
         in if m = inf_mag then ''inf''
            else if m = 0 then ''0.0''
            else (case shortest m of (c, k) \<Rightarrow>
                    if v \<ge> 10 ^ 16 * F64_UNIT \<or> v * 10 ^ 4 < F64_UNIT then print_exp c k
                    else print_decimal c k)))"

text \<open>\<^verbatim>\<open>{}\<close> of a float: never an exponent, no fraction for a whole number.\<close>

definition f64_display :: "f64 \<Rightarrow> string" where
  "f64_display x =
     (if f64_is_nan x then ''NaN''
      else (if f64_sign x then ''-'' else []) @
        (let m = f64_mag x
         in if m = inf_mag then ''inf''
            else if m = 0 then ''0''
            else (case shortest m of (c, k) \<Rightarrow>
                    if 0 \<le> k then show_int c @ replicate (nat k) (CHR ''0'') else print_decimal c k)))"

section \<open>Order\<close>

lemma mag_scaled_parts:
  assumes "0 \<le> f" "f < 2 ^ 52"
  shows "mag_scaled (e * 2 ^ 52 + f) = (if e = 0 then f else (2 ^ 52 + f) * 2 ^ nat (e - 1))"
proof -
  have "(e * 2 ^ 52 + f) div 2 ^ 52 = e" "(e * 2 ^ 52 + f) mod 2 ^ 52 = f"
    using assms by (simp_all add: div_pos_pos_trivial mod_pos_pos_trivial)
  then show ?thesis unfolding mag_scaled_def Let_def by (simp only:)
qed

lemma mag_scaled_Suc:
  assumes "0 \<le> m"
  shows "mag_scaled m < mag_scaled (m + 1)"
proof -
  define e f where "e = m div 2 ^ 52" and "f = m mod 2 ^ 52"
  have m: "m = e * 2 ^ 52 + f" by (simp add: e_def f_def)
  have e: "0 \<le> e" and f: "0 \<le> f" "f < 2 ^ 52" using assms by (simp_all add: e_def f_def pos_imp_zdiv_nonneg_iff)
  have sm: "mag_scaled m = (if e = 0 then f else (2 ^ 52 + f) * 2 ^ nat (e - 1))"
    unfolding m by (rule mag_scaled_parts [OF f])
  show ?thesis
  proof (cases "f + 1 = 2 ^ 52")
    case True
    then have "m + 1 = (e + 1) * 2 ^ 52 + 0" using m by simp
    then have s: "mag_scaled (m + 1) = 2 ^ 52 * 2 ^ nat e"
      using mag_scaled_parts [of 0 "e + 1"] e by (simp only:) simp
    show ?thesis
    proof (cases "e = 0")
      case False
      then have "nat e = Suc (nat (e - 1))" using e by simp
      then have "mag_scaled (m + 1) = (2 * 2 ^ 52) * 2 ^ nat (e - 1)" unfolding s by simp
      moreover have "(2 ^ 52 + f) * 2 ^ nat (e - 1) < (2 * 2 ^ 52) * 2 ^ nat (e - 1)"
        using f by (intro mult_strict_right_mono) simp_all
      ultimately show ?thesis using sm False by simp
    qed (use s sm f in simp)
  next
    case False
    then have "mag_scaled (m + 1) = (if e = 0 then f + 1 else (2 ^ 52 + (f + 1)) * 2 ^ nat (e - 1))"
      using m f mag_scaled_parts [of "f + 1" e] by (simp add: add.assoc)
    moreover have "(2 ^ 52 + f) * 2 ^ nat (e - 1) < (2 ^ 52 + (f + 1)) * 2 ^ nat (e - 1)"
      by (intro mult_strict_right_mono) simp_all
    ultimately show ?thesis using sm by simp
  qed
qed

lemma mag_scaled_less: "0 \<le> m \<Longrightarrow> m < n \<Longrightarrow> mag_scaled m < mag_scaled n"
proof -
  assume m: "0 \<le> m" "m < n"
  have "mag_scaled (int (nat m)) < mag_scaled (int (nat n))"
    by (rule lift_Suc_mono_less [of "\<lambda>k. mag_scaled (int k)"]) (use mag_scaled_Suc [of "int k" for k] m in \<open>simp_all add: add.commute\<close>)
  with m show ?thesis by simp
qed

lemma mag_scaled_less_iff: "0 \<le> m \<Longrightarrow> 0 \<le> n \<Longrightarrow> mag_scaled m < mag_scaled n \<longleftrightarrow> m < n"
  using mag_scaled_less [of m n] mag_scaled_less [of n m] by (cases m n rule: linorder_cases) auto

lemma f64_mag_nonneg [simp]: "0 \<le> f64_mag x"
  by (simp add: f64_mag_def)

lemma mag_scaled_nonneg: "0 \<le> m \<Longrightarrow> 0 \<le> mag_scaled m"
  by (simp add: mag_scaled_def Let_def)

text \<open>The exact cases of rounding.\<close>

lemma bit_len_eq: "2 ^ k \<le> n \<Longrightarrow> n < 2 ^ Suc k \<Longrightarrow> bit_len n = Suc k"
proof (induction k arbitrary: n)
  case 0
  then have "n = 1" by simp
  then show ?case by (simp add: bit_len.simps [of 1] bit_len.simps [of 0])
next
  case (Suc k)
  have "(0 :: int) < 2 ^ Suc k" by simp
  then have "0 < n" using Suc.prems(1) by linarith
  have "2 ^ k \<le> n div 2" "n div 2 < 2 ^ Suc k" using Suc.prems by auto
  then have "bit_len (n div 2) = Suc k" by (rule Suc.IH)
  then show ?case using \<open>0 < n\<close> by (subst bit_len.simps) simp
qed

lemma round_mag_exact:
  assumes "n * F64_UNIT = c * 2 ^ b * d" "2 ^ 52 \<le> c" "c < 2 ^ 53" "0 < d" "int b \<le> 2045"
  shows "round_mag n d = int b * 2 ^ 52 + c"
proof -
  have q: "n * F64_UNIT div d = c * 2 ^ b" using assms by simp
  have "bit_len (c * 2 ^ b) = Suc (52 + b)"
    by (rule bit_len_eq) (use assms(2,3) in \<open>simp_all add: power_add\<close>)
  then have "bit_len (c * 2 ^ b) - 53 = b" by simp
  moreover have "int b * 2 ^ 52 + c \<le> inf_mag" using assms(3,5) by simp
  moreover have "(0 :: int) < 2 ^ b * d" using assms(4) by simp
  then have "\<not> 2 ^ b * d < (0 :: int)" "2 ^ b * d \<noteq> (0 :: int)" by linarith+
  ultimately show ?thesis unfolding round_mag_def Let_def q using assms(1) by simp
qed

section \<open>Floats from their parts\<close>

lemma uint_sign: "uint x = (if f64_sign x then 2 ^ 63 else 0) + f64_mag x"
proof -
  have b: "0 \<le> uint x" "uint x < 2 ^ 64" using uint_lt2p [of x] by simp_all
  have "f64_sign x \<longleftrightarrow> odd (uint x div 2 ^ 63)"
    unfolding f64_sign_def by (simp only: bit_iff_odd [symmetric] bit_uint_iff) simp
  moreover have "uint x div 2 ^ 63 = 0 \<or> uint x div 2 ^ 63 = 1"
  proof -
    have "uint x div 2 ^ 63 < 2" using b(2) by (simp add: div_less_iff_less_mult)
    moreover have "0 \<le> uint x div 2 ^ 63" using b(1) by (simp add: pos_imp_zdiv_nonneg_iff)
    ultimately show ?thesis by linarith
  qed
  moreover have "uint x = 2 ^ 63 * (uint x div 2 ^ 63) + f64_mag x" by (simp add: f64_mag_def)
  ultimately show ?thesis by auto
qed

lemma make_f64_parts:
  assumes "0 \<le> m" "m < 2 ^ 63"
  shows "f64_sign (make_f64 s m) = s" "f64_mag (make_f64 s m) = m"
proof -
  have "uint (make_f64 s m) = (if s then 2 ^ 63 else 0) + m"
    unfolding make_f64_def uint_word_of_int using assms by (intro mod_pos_pos_trivial) auto
  moreover from this show "f64_mag (make_f64 s m) = m" using assms unfolding f64_mag_def by simp
  ultimately show "f64_sign (make_f64 s m) = s" using uint_sign [of "make_f64 s m"] assms by (auto split: if_splits)
qed

lemma f64_of_ratio_exact:
  assumes "n * F64_UNIT = c * 2 ^ b * d" "2 ^ 52 \<le> c" "c < 2 ^ 53" "0 < d" "int b \<le> 2045"
  shows "f64_is_finite (f64_of_ratio s n d)" "f64_scaled (f64_of_ratio s n d) = (if s then - 1 else 1) * (c * 2 ^ b)"
proof -
  let ?m = "int b * 2 ^ 52 + c"
  have r: "f64_of_ratio s n d = make_f64 s ?m" unfolding f64_of_ratio_def using round_mag_exact [OF assms] by simp
  have m: "0 \<le> ?m" "?m < 2 ^ 63" "?m < inf_mag" using assms(2,3,5) by simp_all
  show "f64_is_finite (f64_of_ratio s n d)" unfolding r f64_is_finite_def make_f64_parts [OF m(1,2)] by (rule m(3))
  have "?m = (int b + 1) * 2 ^ 52 + (c - 2 ^ 52)" by (simp add: algebra_simps)
  then have "mag_scaled ?m = (2 ^ 52 + (c - 2 ^ 52)) * 2 ^ nat (int b + 1 - 1)"
    using mag_scaled_parts [of "c - 2 ^ 52" "int b + 1"] assms(2,3) by simp
  then have "mag_scaled ?m = c * 2 ^ b" by simp
  then show "f64_scaled (f64_of_ratio s n d) = (if s then - 1 else 1) * (c * 2 ^ b)"
    unfolding r f64_scaled_def make_f64_parts [OF m(1,2)] by simp
qed

lemma F64_UNIT_pos: "0 < F64_UNIT"
  by (simp add: F64_UNIT_def)

section \<open>Printed floats are not integers\<close>

lemma print_decimal_point: "CHR ''.'' \<in> set (print_decimal c k)"
  by (simp add: print_decimal_def Let_def)

lemma print_exp_e: "CHR ''e'' \<in> set (print_exp c k)"
  by (simp add: print_exp_def Let_def)

lemma f64_debug_not_int:
  assumes "f64_is_finite x"
  shows "f64_debug x \<noteq> show_int i"
proof
  assume eq: "f64_debug x = show_int i"
  obtain c k where "shortest (f64_mag x) = (c, k)" by force
  then have "CHR ''.'' \<in> set (f64_debug x) \<or> CHR ''e'' \<in> set (f64_debug x)"
    using assms
    by (simp add: f64_debug_def f64_is_finite_def f64_is_nan_def Let_def print_decimal_point print_exp_e)
  then show False unfolding eq using show_int_chars by (fastforce simp: is_ascii_digit_def)
qed

end
