(* ===== verification/Encoding.thy ===== *)
theory Encoding
  imports Rdf Errors F64 "HOL-Library.Signed_Division"
begin

text \<open>
  Term encoding (\<^verbatim>\<open>encoding.rs\<close> of the core): the 64-bit ids, the rows that let an id be decoded,
  the value and sort keys of triple terms, and decoding.

  An id is an \<^verbatim>\<open>i64\<close>, a 64-bit word read with \<^const>\<open>sint\<close>. The hash function of \<^verbatim>\<open>xxhash_rust\<close>
  and the date parsers of \<^verbatim>\<open>oxsdatatypes\<close> are code outside the repository: they are the fields of
  the record \<open>ext\<close> every operation that needs them takes.
\<close>

type_synonym i64 = "64 word"

section \<open>Ids\<close>

abbreviation PAYLOAD_BITS :: nat where "PAYLOAD_BITS \<equiv> 59"

definition PAYLOAD_MASK :: i64 where
  "PAYLOAD_MASK = push_bit PAYLOAD_BITS 1 - 1"

definition INT_OFFSET :: int where
  "INT_OFFSET = 2 ^ (PAYLOAD_BITS - 1)"

definition INT_MIN :: int where
  "INT_MIN = - INT_OFFSET"

definition INT_MAX :: int where
  "INT_MAX = INT_OFFSET - 1"

definition DEFAULT_GRAPH_ID :: i64 where
  "DEFAULT_GRAPH_ID = 0"

datatype tag =
    TagDefault | TagIri | TagBlankNode | TagString | TagLangString | TagTyped
  | TagInteger | TagBoolean | TagTriple | TagDirLangString

fun tag_num :: "tag \<Rightarrow> nat" where
  "tag_num TagDefault = 0"
| "tag_num TagIri = 1"
| "tag_num TagBlankNode = 2"
| "tag_num TagString = 3"
| "tag_num TagLangString = 4"
| "tag_num TagTyped = 5"
| "tag_num TagInteger = 6"
| "tag_num TagBoolean = 7"
| "tag_num TagTriple = 9"
| "tag_num TagDirLangString = 10"

definition tag_from_u8 :: "nat \<Rightarrow> tag option" where
  "tag_from_u8 v =
     (if v = 0 then Some TagDefault
      else if v = 1 then Some TagIri
      else if v = 2 then Some TagBlankNode
      else if v = 3 then Some TagString
      else if v = 4 then Some TagLangString
      else if v = 5 then Some TagTyped
      else if v = 6 then Some TagInteger
      else if v = 7 then Some TagBoolean
      else if v = 9 then Some TagTriple
      else if v = 10 then Some TagDirLangString
      else None)"

definition tag_base :: "tag \<Rightarrow> i64" where
  "tag_base t = push_bit PAYLOAD_BITS (of_nat (tag_num t))"

fun is_hashed :: "tag \<Rightarrow> bool" where
  "is_hashed t = (t \<in> {TagIri, TagBlankNode, TagString, TagLangString, TagTyped, TagDirLangString})"

fun is_literal_tag :: "tag \<Rightarrow> bool" where
  "is_literal_tag t = (t \<in> {TagString, TagLangString, TagTyped, TagInteger, TagBoolean, TagDirLangString})"

definition tag_of :: "i64 \<Rightarrow> tag option" where
  "tag_of i = tag_from_u8 (unat (signed_drop_bit PAYLOAD_BITS i AND 0xF))"

definition make_id :: "tag \<Rightarrow> i64 \<Rightarrow> i64" where
  "make_id t payload = tag_base t OR (payload AND PAYLOAD_MASK)"

text \<open>What is outside the repository: the hash, and the XSD date and time parsers.\<close>

record xsd_date_time =
  dt_year :: int
  dt_month :: int
  dt_day :: int
  dt_hour :: int
  dt_minute :: int
  dt_second :: f64
  dt_timezone :: "(int \<times> int) option"

record ext =
  xxh3_64 :: "string \<Rightarrow> i64"
  date_time_from_str :: "string \<Rightarrow> xsd_date_time option"
  date_from_str :: "string \<Rightarrow> xsd_date_time option"

definition hash_key :: "tag \<Rightarrow> string list \<Rightarrow> string" where
  "hash_key t key = char_of (tag_num t) # join [char_of (0 :: nat)] key"

definition hashed :: "ext \<Rightarrow> tag \<Rightarrow> string list \<Rightarrow> i64" where
  "hashed x t key = make_id t (xxh3_64 x (hash_key t key) AND PAYLOAD_MASK)"

definition integer_id :: "int \<Rightarrow> i64 option" where
  "integer_id v =
     (if INT_MIN \<le> v \<and> v \<le> INT_MAX then Some (make_id TagInteger (word_of_int (v + INT_OFFSET))) else None)"

definition boolean_id :: "bool \<Rightarrow> i64" where
  "boolean_id b = make_id TagBoolean (if b then 1 else 0)"

section \<open>Rows\<close>

record term_row =
  tr_id :: i64
  tr_lex :: string
  tr_dt :: "string option"
  tr_lang :: "string option"
  tr_dir :: "int option"
  tr_num :: "f64 option"
  tr_nt :: "int option"
  tr_ts :: "f64 option"

record triple_row =
  pr_id :: i64
  pr_s :: i64
  pr_p :: i64
  pr_o :: i64
  pr_vk :: string
  pr_sk :: string

record encoded_rows =
  er_terms :: "term_row list"
  er_triples :: "triple_row list"

definition no_rows :: encoded_rows where
  "no_rows = \<lparr>er_terms = [], er_triples = []\<rparr>"

definition plain_row :: "i64 \<Rightarrow> string \<Rightarrow> string option \<Rightarrow> int option \<Rightarrow> term_row" where
  "plain_row i lx lang dir = \<lparr>tr_id = i, tr_lex = lx, tr_dt = None, tr_lang = lang, tr_dir = dir,
     tr_num = None, tr_nt = None, tr_ts = None\<rparr>"

definition named_node_id :: "ext \<Rightarrow> string \<Rightarrow> i64" where
  "named_node_id x iri = hashed x TagIri [iri]"

definition blank_node_id :: "ext \<Rightarrow> string \<Rightarrow> i64" where
  "blank_node_id x label = hashed x TagBlankNode [label]"

section \<open>Values of literals\<close>

definition integer_family :: "string \<Rightarrow> bool" where
  "integer_family dt \<longleftrightarrow> dt \<in> set (map xsd
     [''integer'', ''int'', ''long'', ''short'', ''byte'', ''nonNegativeInteger'', ''positiveInteger'',
      ''nonPositiveInteger'', ''negativeInteger'', ''unsignedLong'', ''unsignedInt'', ''unsignedShort'',
      ''unsignedByte''])"

definition numeric_rank :: "string \<Rightarrow> int option" where
  "numeric_rank dt =
     (if integer_family dt then Some 1
      else if dt = xsd ''decimal'' then Some 2
      else if dt = xsd ''float'' then Some 3
      else if dt = xsd ''double'' then Some 4
      else None)"

definition parse_xsd_float :: "string \<Rightarrow> f64 option" where
  "parse_xsd_float lx =
     (if lx = ''INF'' \<or> lx = ''+INF'' then Some (f64_inf False)
      else if lx = ''-INF'' then Some (f64_inf True)
      else if lx = ''NaN'' then None
      else (case f64_from_str (trim lx) of
              None \<Rightarrow> None | Some v \<Rightarrow> if f64_is_finite v then Some v else None))"

definition days_from_civil :: "int \<Rightarrow> int \<Rightarrow> int \<Rightarrow> int" where
  "days_from_civil y0 m d =
     (let y = (if m \<le> 2 then y0 - 1 else y0);
          era = (if y \<ge> 0 then y else y - 399) sdiv 400;
          yoe = y - era * 400;
          mp = (m + 9) smod 12;
          doy = (153 * mp + 2) sdiv 5 + d - 1;
          doe = yoe * 365 + yoe sdiv 4 - yoe sdiv 100 + doy
      in era * 146097 + doe - 719468)"

definition tz_seconds :: "(int \<times> int) option \<Rightarrow> f64" where
  "tz_seconds tz = (case tz of None \<Rightarrow> make_f64 False 0 | Some (h, m) \<Rightarrow> f64_of_int (h * 3600 + m * 60))"

definition timestamp :: "ext \<Rightarrow> string \<Rightarrow> string \<Rightarrow> f64 option" where
  "timestamp x lx dt =
     (if dt = xsd ''dateTime'' \<or> dt = xsd ''dateTimeStamp''
      then map_option (\<lambda>v.
             let days = days_from_civil (dt_year v) (dt_month v) (dt_day v);
                 t1 = f64_mul (f64_of_int days) (f64_of_int 86400);
                 t2 = f64_add t1 (f64_mul (f64_of_int (dt_hour v)) (f64_of_int 3600));
                 t3 = f64_add t2 (f64_mul (f64_of_int (dt_minute v)) (f64_of_int 60));
                 t4 = f64_add t3 (dt_second v)
             in f64_sub t4 (tz_seconds (dt_timezone v))) (date_time_from_str x lx)
      else if dt = xsd ''date''
      then map_option (\<lambda>v.
             let days = days_from_civil (dt_year v) (dt_month v) (dt_day v)
             in f64_sub (f64_mul (f64_of_int days) (f64_of_int 86400)) (tz_seconds (dt_timezone v)))
             (date_from_str x lx)
      else None)"

definition timezone_flag :: "ext \<Rightarrow> string \<Rightarrow> string \<Rightarrow> int option" where
  "timezone_flag x lx dt =
     (case timestamp x lx dt of
        None \<Rightarrow> None
      | Some _ \<Rightarrow>
          let n = length lx;
              tz = (lx \<noteq> [] \<and> last lx = CHR ''Z'') \<or>
                   (n > 6 \<and> (lx ! (n - 6) = CHR ''+'' \<or> lx ! (n - 6) = CHR ''-'') \<and> lx ! (n - 3) = CHR '':'')
          in Some (if tz then 1 else 0))"

definition encode_literal :: "ext \<Rightarrow> literal \<Rightarrow> i64 \<times> term_row option" where
  "encode_literal x l =
     (let lx = lit_value l; dt = lit_datatype l in
      case lit_language l of
        Some lang \<Rightarrow>
          (case lit_direction l of
             Some dir \<Rightarrow>
               let i = hashed x TagDirLangString [lang, (case dir of Ltr \<Rightarrow> ''ltr'' | Rtl \<Rightarrow> ''rtl''), lx]
               in (i, Some (plain_row i lx (Some lang) (Some (case dir of Ltr \<Rightarrow> 1 | Rtl \<Rightarrow> 2))))
           | None \<Rightarrow>
               let i = hashed x TagLangString [lang, lx]
               in (i, Some (plain_row i lx (Some lang) None)))
      | None \<Rightarrow>
          let int_id = (if dt = xsd_integer
                        then (case parse_i64 lx of
                                Some v \<Rightarrow> if show_int v = lx then integer_id v else None
                              | None \<Rightarrow> None)
                        else None)
          in if dt = xsd_string
             then (let i = hashed x TagString [lx] in (i, Some (plain_row i lx None None)))
             else if int_id \<noteq> None then (the int_id, None)
             else if dt = xsd_boolean \<and> lx = ''true'' then (boolean_id True, None)
             else if dt = xsd_boolean \<and> lx = ''false'' then (boolean_id False, None)
             else
               (let i = hashed x TagTyped [dt, lx];
                    nt = numeric_rank dt;
                    num = (if dt = xsd_boolean
                           then (if trim lx = ''1'' \<or> trim lx = ''true'' then Some (f64_of_int 1)
                                 else if trim lx = ''0'' \<or> trim lx = ''false'' then Some (f64_of_int 0)
                                 else None)
                           else if nt \<noteq> None then parse_xsd_float lx else None)
                in (i, Some \<lparr>tr_id = i, tr_lex = lx, tr_dt = Some dt, tr_lang = None,
                      tr_dir = timezone_flag x lx dt, tr_num = num,
                      tr_nt = (if num \<noteq> None then nt else None), tr_ts = timestamp x lx dt\<rparr>)))"

section \<open>Keys of triple terms\<close>

definition inline_int :: "i64 \<Rightarrow> int" where
  "inline_int i = sint (i AND PAYLOAD_MASK) - INT_OFFSET"

definition literal_value_key :: "ext \<Rightarrow> literal \<Rightarrow> string" where
  "literal_value_key x l =
     (case encode_literal x l of
        (i, row) \<Rightarrow>
          if tag_of i = Some TagInteger then ''n'' @ show_int (inline_int i)
          else if tag_of i = Some TagBoolean then ''B'' @ show_int (sint (i AND 1))
          else (case row of
                  Some r \<Rightarrow>
                    (case (tr_num r, tr_nt r, tr_ts r) of
                       (Some n, Some _, _) \<Rightarrow>
                         if f64_is_integral n \<and> f64_abs_lt n (9 * 10 ^ 15) then ''n'' @ show_int (f64_as_i64 n)
                         else ''n'' @ f64_debug n
                     | (Some b, None, ts) \<Rightarrow>
                         if lit_datatype l = xsd_boolean then ''B'' @ show_int (f64_as_i64 b)
                         else (case ts of
                                 Some t \<Rightarrow> ''t'' @ lit_datatype l @ ''|'' @
                                   show_int (case tr_dir r of Some d \<Rightarrow> d | None \<Rightarrow> 0) @ ''|'' @ f64_debug t
                               | None \<Rightarrow> ''l'' @ show_int (sint i))
                     | (None, _, Some t) \<Rightarrow> ''t'' @ lit_datatype l @ ''|'' @
                         show_int (case tr_dir r of Some d \<Rightarrow> d | None \<Rightarrow> 0) @ ''|'' @ f64_debug t
                     | (None, _, None) \<Rightarrow> ''l'' @ show_int (sint i))
                | None \<Rightarrow> ''l'' @ show_int (sint i)))"

primrec value_key :: "ext \<Rightarrow> rdf_term \<Rightarrow> string" where
  "value_key x (NamedNode n) = ''i'' @ show_int (sint (named_node_id x n))"
| "value_key x (BlankNode b) = ''b'' @ show_int (sint (blank_node_id x b))"
| "value_key x (Lit l) = literal_value_key x l"
| "value_key x (TripleTerm s p ob) =
     ''('' @ (case s of SNamed n \<Rightarrow> ''i'' @ show_int (sint (named_node_id x n))
                     | SBlank b \<Rightarrow> ''b'' @ show_int (sint (blank_node_id x b)))
     @ '' '' @ ''i'' @ show_int (sint (named_node_id x p)) @ '' '' @ value_key x ob @ '')''"

definition hex_char :: "nat \<Rightarrow> char" where
  "hex_char n = char_of (if n < 10 then 48 + n else 87 + n)"

text \<open>\<^verbatim>\<open>format!("{n:0w$x}")\<close> of a number below \<open>16 ^ w\<close>.\<close>

fun hex_fixed :: "nat \<Rightarrow> nat \<Rightarrow> string" where
  "hex_fixed 0 n = []"
| "hex_fixed (Suc w) n = hex_char (n div 16 ^ w) # hex_fixed w (n mod 16 ^ w)"

definition sort_number :: "f64 \<Rightarrow> string" where
  "sort_number n = hex_fixed 16 (unat (if f64_sign n then NOT n else n OR push_bit 63 1))"

definition literal_number :: "ext \<Rightarrow> literal \<Rightarrow> f64 option" where
  "literal_number x l =
     (case encode_literal x l of
        (i, row) \<Rightarrow>
          if tag_of i = Some TagInteger then Some (f64_of_int (inline_int i))
          else (case row of
                  Some r \<Rightarrow> if tr_nt r \<noteq> None then tr_num r else None
                | None \<Rightarrow> None))"

definition literal_sort_key :: "ext \<Rightarrow> literal \<Rightarrow> string" where
  "literal_sort_key x l =
     (case literal_number x l of
        Some n \<Rightarrow> ''2'' @ sort_number n
      | None \<Rightarrow> ''3'' @ lit_value l @ [char_of (1 :: nat)] @ lit_datatype l)"

primrec sort_key :: "ext \<Rightarrow> rdf_term \<Rightarrow> string" where
  "sort_key x (BlankNode b) = ''0'' @ b"
| "sort_key x (NamedNode n) = ''1'' @ n"
| "sort_key x (Lit l) = literal_sort_key x l"
| "sort_key x (TripleTerm s p ob) =
     ''4'' @ (case s of SNamed n \<Rightarrow> ''1'' @ n | SBlank b \<Rightarrow> ''0'' @ b)
     @ [char_of (2 :: nat)] @ ''1'' @ p @ [char_of (2 :: nat)] @ sort_key x ob"

section \<open>Ids of terms\<close>

definition to_be_bytes :: "i64 \<Rightarrow> string" where
  "to_be_bytes w = map (\<lambda>k. char_of (unat (drop_bit k w) mod 256)) [56, 48, 40, 32, 24, 16, 8, 0]"

definition subject_id :: "ext \<Rightarrow> named_or_blank \<Rightarrow> i64" where
  "subject_id x s = (case s of SNamed n \<Rightarrow> named_node_id x n | SBlank b \<Rightarrow> blank_node_id x b)"

definition graph_id :: "ext \<Rightarrow> graph_name \<Rightarrow> i64" where
  "graph_id x g =
     (case g of DefaultGraph \<Rightarrow> DEFAULT_GRAPH_ID | GNamed n \<Rightarrow> named_node_id x n | GBlank b \<Rightarrow> blank_node_id x b)"

primrec term_id :: "ext \<Rightarrow> rdf_term \<Rightarrow> i64" where
  "term_id x (NamedNode n) = named_node_id x n"
| "term_id x (BlankNode b) = blank_node_id x b"
| "term_id x (Lit l) = fst (encode_literal x l)"
| "term_id x (TripleTerm s p ob) =
     hashed x TagTriple
       [to_be_bytes (subject_id x s), to_be_bytes (named_node_id x p), to_be_bytes (term_id x ob)]"

section \<open>Collecting rows\<close>

definition push_term :: "term_row \<Rightarrow> encoded_rows \<Rightarrow> encoded_rows" where
  "push_term r er = er\<lparr>er_terms := er_terms er @ [r]\<rparr>"

definition er_iri :: "ext \<Rightarrow> string \<Rightarrow> encoded_rows \<Rightarrow> i64 \<times> encoded_rows" where
  "er_iri x iri er = (let i = named_node_id x iri in (i, push_term (plain_row i iri None None) er))"

definition er_bnode :: "ext \<Rightarrow> string \<Rightarrow> encoded_rows \<Rightarrow> i64 \<times> encoded_rows" where
  "er_bnode x label er = (let i = blank_node_id x label in (i, push_term (plain_row i label None None) er))"

definition er_subject :: "ext \<Rightarrow> named_or_blank \<Rightarrow> encoded_rows \<Rightarrow> i64 \<times> encoded_rows" where
  "er_subject x s er = (case s of SNamed n \<Rightarrow> er_iri x n er | SBlank b \<Rightarrow> er_bnode x b er)"

definition er_graph :: "ext \<Rightarrow> graph_name \<Rightarrow> encoded_rows \<Rightarrow> i64 \<times> encoded_rows" where
  "er_graph x g er =
     (case g of DefaultGraph \<Rightarrow> (DEFAULT_GRAPH_ID, er) | GNamed n \<Rightarrow> er_iri x n er | GBlank b \<Rightarrow> er_bnode x b er)"

primrec er_term :: "ext \<Rightarrow> rdf_term \<Rightarrow> encoded_rows \<Rightarrow> i64 \<times> encoded_rows" where
  "er_term x (NamedNode n) er = er_iri x n er"
| "er_term x (BlankNode b) er = er_bnode x b er"
| "er_term x (Lit l) er =
     (case encode_literal x l of
        (i, Some row) \<Rightarrow> (i, push_term row er)
      | (i, None) \<Rightarrow> (i, er))"
| "er_term x (TripleTerm sb pr ob) er =
     (let (s, er1) = er_subject x sb er;
          (p, er2) = er_iri x pr er1;
          (o', er3) = er_term x ob er2;
          i = hashed x TagTriple [to_be_bytes s, to_be_bytes p, to_be_bytes o'];
          row = \<lparr>pr_id = i, pr_s = s, pr_p = p, pr_o = o',
            pr_vk = value_key x (TripleTerm sb pr ob), pr_sk = sort_key x (TripleTerm sb pr ob)\<rparr>
      in (i, er3\<lparr>er_triples := er_triples er3 @ [row]\<rparr>))"

definition er_quad :: "ext \<Rightarrow> quad \<Rightarrow> encoded_rows \<Rightarrow> (i64 \<times> i64 \<times> i64 \<times> i64) \<times> encoded_rows" where
  "er_quad x q er =
     (let (s, er1) = er_subject x (q_subject q) er;
          (p, er2) = er_iri x (q_predicate q) er1;
          (o', er3) = er_term x (q_object q) er2;
          (g, er4) = er_graph x (q_graph q) er3
      in ((s, p, o', g), er4))"

definition er_is_empty :: "encoded_rows \<Rightarrow> bool" where
  "er_is_empty er \<longleftrightarrow> er_terms er = [] \<and> er_triples er = []"

text \<open>\<^verbatim>\<open>sort_by_key\<close> is stable; \<^verbatim>\<open>dedup_by_key\<close> drops a row whose key is that of the row kept before it.\<close>

fun dedup_by_key :: "('a \<Rightarrow> 'k) \<Rightarrow> 'a list \<Rightarrow> 'a list" where
  "dedup_by_key f [] = []"
| "dedup_by_key f [r] = [r]"
| "dedup_by_key f (r # r' # rs) =
     (if f r = f r' then dedup_by_key f (r # rs) else r # dedup_by_key f (r' # rs))"

definition dedup :: "encoded_rows \<Rightarrow> encoded_rows" where
  "dedup er = \<lparr>
     er_terms = dedup_by_key (\<lambda>r. sint (tr_id r)) (List.sort_key (\<lambda>r. sint (tr_id r)) (er_terms er)),
     er_triples = dedup_by_key (\<lambda>r. sint (pr_id r)) (List.sort_key (\<lambda>r. sint (pr_id r)) (er_triples er))\<rparr>"

section \<open>Decoding\<close>

definition decode_inline :: "i64 \<Rightarrow> rdf_term option" where
  "decode_inline i =
     (case tag_of i of
        Some TagInteger \<Rightarrow> Some (Lit (int_literal (inline_int i)))
      | Some TagBoolean \<Rightarrow> Some (Lit (bool_literal (i AND PAYLOAD_MASK \<noteq> 0)))
      | _ \<Rightarrow> None)"

definition decode_row ::
  "i64 \<Rightarrow> string \<Rightarrow> string option \<Rightarrow> string option \<Rightarrow> int option \<Rightarrow> error + rdf_term" where
  "decode_row i lx dt lang dir =
     rbind (ok_or (Corrupted (''invalid term id '' @ show_int (sint i))) (tag_of i)) (\<lambda>t.
     case t of
       TagIri \<Rightarrow> Inr (NamedNode lx)
     | TagBlankNode \<Rightarrow> Inr (BlankNode lx)
     | TagString \<Rightarrow> Inr (Lit (simple_literal lx))
     | TagLangString \<Rightarrow>
         rbind (ok_or (Corrupted ''language tag missing'') lang) (\<lambda>lg. Inr (Lit (lang_literal lx lg)))
     | TagDirLangString \<Rightarrow>
         rbind (ok_or (Corrupted ''language tag missing'') lang) (\<lambda>lg.
           Inr (Lit (dir_lang_literal lx lg (if dir = Some 2 then Rtl else Ltr))))
     | TagTyped \<Rightarrow>
         rbind (ok_or (Corrupted ''datatype missing'') dt) (\<lambda>d. Inr (Lit (typed_literal lx d)))
     | TagInteger \<Rightarrow> ok_or (Corrupted ''bad inline term'') (decode_inline i)
     | TagBoolean \<Rightarrow> ok_or (Corrupted ''bad inline term'') (decode_inline i)
     | TagTriple \<Rightarrow> Inl (Corrupted (''id '' @ show_int (sint i) @ '' is not a plain term''))
     | TagDefault \<Rightarrow> Inl (Corrupted (''id '' @ show_int (sint i) @ '' is not a plain term'')))"

definition make_triple :: "rdf_term \<Rightarrow> rdf_term \<Rightarrow> rdf_term \<Rightarrow> error + rdf_term" where
  "make_triple s p ob =
     rbind (case s of
              NamedNode n \<Rightarrow> Inr (SNamed n)
            | BlankNode b \<Rightarrow> Inr (SBlank b)
            | _ \<Rightarrow> Inl (Corrupted ''invalid triple term subject'')) (\<lambda>s'.
     case p of
       NamedNode n \<Rightarrow> Inr (TripleTerm s' n ob)
     | _ \<Rightarrow> Inl (Corrupted ''invalid triple term predicate''))"

definition to_subject :: "rdf_term \<Rightarrow> error + named_or_blank" where
  "to_subject t =
     (case t of
        NamedNode n \<Rightarrow> Inr (SNamed n) | BlankNode b \<Rightarrow> Inr (SBlank b) | _ \<Rightarrow> Inl (Corrupted ''invalid subject''))"

definition to_graph_name :: "i64 \<Rightarrow> rdf_term option \<Rightarrow> error + graph_name" where
  "to_graph_name i t =
     (if i = DEFAULT_GRAPH_ID then Inr DefaultGraph
      else (case t of
              Some (NamedNode n) \<Rightarrow> Inr (GNamed n)
            | Some (BlankNode b) \<Rightarrow> Inr (GBlank b)
            | _ \<Rightarrow> Inl (Corrupted ''invalid graph name'')))"

definition make_quad :: "rdf_term \<Rightarrow> rdf_term \<Rightarrow> rdf_term \<Rightarrow> graph_name \<Rightarrow> error + quad" where
  "make_quad s p ob g =
     (case p of
        NamedNode n \<Rightarrow>
          rbind (to_subject s) (\<lambda>s'. Inr \<lparr>q_subject = s', q_predicate = n, q_object = ob, q_graph = g\<rparr>)
      | _ \<Rightarrow> Inl (Corrupted ''invalid predicate''))"

section \<open>Tags and payloads\<close>

lemma PAYLOAD_MASK_mask: "PAYLOAD_MASK = mask 59"
  by (simp add: PAYLOAD_MASK_def mask_eq_exp_minus_1)

lemma and_payload: "w AND PAYLOAD_MASK = take_bit 59 w"
  by (simp add: PAYLOAD_MASK_mask take_bit_eq_mask)

lemma tag_num_less: "tag_num t < 16" "tag_num t \<le> 10"
  by (cases t; simp)+

lemma uint_tag_base: "uint (tag_base t) = int (tag_num t) * 2 ^ 59"
  by (cases t) (simp_all add: tag_base_def push_bit_eq_mult)

lemma make_id_plus: "make_id t p = tag_base t + take_bit 59 p"
  unfolding make_id_def and_payload
  by (rule disjunctive_add [symmetric]) (simp add: tag_base_def bit_simps)

lemma uint_payload: "uint (take_bit 59 (p :: i64)) = uint p mod 2 ^ 59"
  by (subst unsigned_take_bit_eq) (simp only: take_bit_eq_mod)

lemma uint_make_id: "uint (make_id t p) = int (tag_num t) * 2 ^ 59 + uint p mod 2 ^ 59"
proof -
  have "uint p mod 2 ^ 59 < 2 ^ 59" "0 \<le> uint p mod 2 ^ 59" by (rule pos_mod_bound, simp, simp)
  moreover have "int (tag_num t) \<le> 10" using tag_num_less(2) [of t] by simp
  then have "int (tag_num t) * 2 ^ 59 \<le> 10 * 2 ^ 59" by simp
  ultimately have "int (tag_num t) * 2 ^ 59 + uint p mod 2 ^ 59 < 2 ^ 64" by simp
  then show ?thesis unfolding make_id_plus
    by (subst uint_add_lem [THEN iffD1]) (simp_all add: uint_tag_base uint_payload)
qed

lemma tag_of_uint: "tag_of i = tag_from_u8 (nat (uint i div 2 ^ 59 mod 16))"
proof -
  have "(0xF :: i64) = mask 4" by (simp add: mask_eq_exp_minus_1)
  then have "signed_drop_bit 59 i AND 0xF = take_bit 4 (signed_drop_bit 59 i)" by (simp add: take_bit_eq_mask)
  moreover have "take_bit 4 (signed_drop_bit 59 i) = take_bit 4 (drop_bit 59 i)"
    by (rule bit_word_eqI) (auto simp: bit_simps)
  moreover have "uint i mod 2 ^ 64 = uint i" using uint_lt2p [of i] by (simp add: mod_pos_pos_trivial)
  ultimately have "uint (signed_drop_bit 59 i AND 0xF) = uint i div 2 ^ 59 mod 16"
    by (simp only: unsigned_take_bit_eq unsigned_drop_bit_eq) (simp add: take_bit_eq_mod drop_bit_eq_div)
  then have "unat (signed_drop_bit 59 i AND 0xF) = nat (uint i div 2 ^ 59 mod 16)"
    by (metis nat_uint_eq)
  then show ?thesis by (simp add: tag_of_def)
qed

lemma uint_make_id_less: "uint (make_id t p) < 2 ^ 63"
proof -
  have "uint p mod 2 ^ 59 < 2 ^ 59" by simp
  moreover have "int (tag_num t) * 2 ^ 59 \<le> 10 * 2 ^ 59" using tag_num_less(2) [of t] by simp
  ultimately show ?thesis unfolding uint_make_id by simp
qed

lemma sint_uint_pos: "uint (w :: i64) < 2 ^ 63 \<Longrightarrow> sint w = uint w"
  unfolding sint_uint
  by (rule signed_take_bit_int_eq_self) (auto intro: order_trans [OF _ uint_ge_0])

lemma sint_make_id: "sint (make_id t p) = int (tag_num t) * 2 ^ 59 + uint p mod 2 ^ 59"
  using sint_uint_pos [OF uint_make_id_less, of t p] uint_make_id by simp

lemma tag_from_u8_tag_num [simp]: "tag_from_u8 (tag_num t) = Some t"
  by (cases t) (simp_all add: tag_from_u8_def)

lemma tag_of_make_id [simp]: "tag_of (make_id t p) = Some t"
proof -
  have "(int (tag_num t) * 2 ^ 59 + uint p mod 2 ^ 59) div 2 ^ 59 mod 16 = int (tag_num t)"
    using tag_num_less(1) [of t] by simp
  then show ?thesis by (simp add: tag_of_uint uint_make_id)
qed

lemma payload_make_id: "make_id t p AND PAYLOAD_MASK = take_bit 59 p"
proof -
  have "uint (make_id t p AND PAYLOAD_MASK) = uint (take_bit 59 p)"
    unfolding and_payload uint_payload uint_make_id by simp
  then show ?thesis by (rule word_uint_eqI)
qed

lemma make_id_inj: "make_id t p = make_id u q \<Longrightarrow> t = u \<and> take_bit 59 p = take_bit 59 q"
  by (metis tag_of_make_id option.inject payload_make_id)

lemma tag_of_hashed [simp]: "tag_of (hashed x t k) = Some t"
  by (simp add: hashed_def)

lemma hashed_eq:
  "hashed x t k = hashed x u l \<longleftrightarrow>
     t = u \<and> take_bit 59 (xxh3_64 x (hash_key t k)) = take_bit 59 (xxh3_64 x (hash_key u l))"
proof -
  have "hashed x t k = make_id t (take_bit 59 (xxh3_64 x (hash_key t k)))" for t k
    by (simp add: hashed_def and_payload)
  then show ?thesis by (auto dest: make_id_inj)
qed

lemma integer_id_Some:
  assumes "integer_id v = Some i"
  shows "tag_of i = Some TagInteger" "inline_int i = v" "sint i = 6 * 2 ^ 59 + (v + INT_OFFSET)"
proof -
  from assms have v: "INT_MIN \<le> v" "v \<le> INT_MAX" and i: "i = make_id TagInteger (word_of_int (v + INT_OFFSET))"
    by (auto simp: integer_id_def split: if_splits)
  then have r: "0 \<le> v + INT_OFFSET" "v + INT_OFFSET < 2 ^ 59"
    by (auto simp: INT_MIN_def INT_MAX_def INT_OFFSET_def)
  then have u: "uint (word_of_int (v + INT_OFFSET) :: i64) mod 2 ^ 59 = v + INT_OFFSET"
    using uint_word_of_int [of "v + INT_OFFSET", where 'a = 64]
    by (simp add: mod_pos_pos_trivial del: of_int_add)
  show "tag_of i = Some TagInteger" by (simp add: i)
  show "sint i = 6 * 2 ^ 59 + (v + INT_OFFSET)" unfolding i sint_make_id u by simp
  have "uint (i AND PAYLOAD_MASK) = v + INT_OFFSET" unfolding i payload_make_id uint_payload u ..
  moreover have "sint (i AND PAYLOAD_MASK) = uint (i AND PAYLOAD_MASK)"
    using r calculation by (intro sint_uint_pos) simp
  ultimately show "inline_int i = v" by (simp add: inline_int_def)
qed

lemma boolean_id_facts [simp]:
  "tag_of (boolean_id b) = Some TagBoolean" "boolean_id b AND PAYLOAD_MASK \<noteq> 0 \<longleftrightarrow> b"
  by (simp_all add: boolean_id_def payload_make_id)

section \<open>Literals\<close>

text \<open>The four ways a literal without a language tag is encoded.\<close>

lemma encode_typed_cases [consumes 1, case_names string integer boolean typed]:
  assumes "encode_literal x (typed_literal v dt) = (i, row)"
  obtains (string) "dt = xsd_string" "i = hashed x TagString [v]" "row = Some (plain_row i v None None)"
  | (integer) n where "dt = xsd_integer" "v = show_int n" "integer_id n = Some i" "row = None"
  | (boolean) b where "dt = xsd_boolean" "v = (if b then ''true'' else ''false'')" "i = boolean_id b" "row = None"
  | (typed) r where "dt \<noteq> xsd_string" "i = hashed x TagTyped [dt, v]" "row = Some r"
      "tr_id r = i" "tr_lex r = v" "tr_dt r = Some dt" "tr_lang r = None"
      "tr_nt r \<noteq> None \<Longrightarrow> tr_num r = parse_xsd_float v" "tr_num r \<noteq> None \<Longrightarrow> tr_nt r = numeric_rank dt"
  using assms
  by (auto simp: encode_literal_def typed_literal_def Let_def numeric_rank_def integer_family_def
      split: if_splits option.splits) (metis (full_types))

lemma decode_inline_facts:
  "integer_id n = Some i \<Longrightarrow> decode_inline i = Some (Lit (int_literal n))"
  "decode_inline (boolean_id b) = Some (Lit (bool_literal b))"
  by (simp_all add: decode_inline_def integer_id_Some)

definition row_decodes :: "term_row \<Rightarrow> rdf_term \<Rightarrow> bool" where
  "row_decodes r t \<longleftrightarrow> decode_row (tr_id r) (tr_lex r) (tr_dt r) (tr_lang r) (tr_dir r) = Inr t"

lemma encode_literal_decodes:
  assumes "wf_literal l" "encode_literal x l = (i, row)"
  shows "case row of Some r \<Rightarrow> tr_id r = i \<and> row_decodes r (Lit l) | None \<Rightarrow> decode_inline i = Some (Lit l)"
  using assms(1)
proof (cases rule: wf_literal_cases)
  case (plain v dt)
  from assms(2) [unfolded plain] show ?thesis
    by (cases rule: encode_typed_cases)
      (auto simp: plain row_decodes_def decode_row_def plain_row_def decode_inline_facts
        simple_literal_def typed_literal_def int_literal_def bool_literal_def)
next
  case (lang v lg)
  with assms(2) show ?thesis
    by (auto simp: encode_literal_def row_decodes_def decode_row_def plain_row_def lang_literal_def Let_def)
next
  case (dir v lg d)
  with assms(2) show ?thesis
    by (cases d) (auto simp: encode_literal_def row_decodes_def decode_row_def plain_row_def
        dir_lang_literal_def Let_def)
qed

section \<open>Ids are injective up to hash collisions\<close>

text \<open>
  The byte strings that are hashed to encode a term, and a collision among a set of such strings: two of
  them that differ and agree on the 59 bits that are kept.
\<close>

definition literal_keys :: "literal \<Rightarrow> string set" where
  "literal_keys l =
     (case lit_language l of
        Some lg \<Rightarrow>
          (case lit_direction l of
             Some d \<Rightarrow> {hash_key TagDirLangString [lg, case d of Ltr \<Rightarrow> ''ltr'' | Rtl \<Rightarrow> ''rtl'', lit_value l]}
           | None \<Rightarrow> {hash_key TagLangString [lg, lit_value l]})
      | None \<Rightarrow>
          if lit_datatype l = xsd_string then {hash_key TagString [lit_value l]}
          else {hash_key TagTyped [lit_datatype l, lit_value l]})"

definition subject_keys :: "named_or_blank \<Rightarrow> string set" where
  "subject_keys s = (case s of SNamed n \<Rightarrow> {hash_key TagIri [n]} | SBlank b \<Rightarrow> {hash_key TagBlankNode [b]})"

primrec term_keys :: "ext \<Rightarrow> rdf_term \<Rightarrow> string set" where
  "term_keys x (NamedNode n) = {hash_key TagIri [n]}"
| "term_keys x (BlankNode b) = {hash_key TagBlankNode [b]}"
| "term_keys x (Lit l) = literal_keys l"
| "term_keys x (TripleTerm s p ob) =
     {hash_key TagTriple [to_be_bytes (subject_id x s), to_be_bytes (named_node_id x p), to_be_bytes (term_id x ob)]}
     \<union> subject_keys s \<union> {hash_key TagIri [p]} \<union> term_keys x ob"

definition collision :: "ext \<Rightarrow> string set \<Rightarrow> bool" where
  "collision x K \<longleftrightarrow>
     (\<exists>k \<in> K. \<exists>k' \<in> K. k \<noteq> k' \<and> take_bit 59 (xxh3_64 x k) = take_bit 59 (xxh3_64 x k'))"

abbreviation nul_free :: "string \<Rightarrow> bool" where
  "nul_free s \<equiv> char_of (0 :: nat) \<notin> set s"

definition nul_free_literal :: "literal \<Rightarrow> bool" where
  "nul_free_literal l \<longleftrightarrow> nul_free (case lit_language l of Some lg \<Rightarrow> lg | None \<Rightarrow> lit_datatype l)"

primrec nul_free_term :: "rdf_term \<Rightarrow> bool" where
  "nul_free_term (NamedNode _) = True"
| "nul_free_term (BlankNode _) = True"
| "nul_free_term (Lit l) = nul_free_literal l"
| "nul_free_term (TripleTerm _ _ ob) = nul_free_term ob"

lemma append_sep_inj:
  "c \<notin> set a \<Longrightarrow> c \<notin> set a' \<Longrightarrow> a @ c # b = a' @ c # b' \<longleftrightarrow> a = a' \<and> b = b'"
proof (induction a arbitrary: a')
  case Nil
  then show ?case by (cases a') auto
next
  case (Cons y a)
  then show ?case by (cases a') auto
qed

lemma hashed_collide:
  "hashed x t k = hashed x u k' \<Longrightarrow> hash_key t k \<in> K \<Longrightarrow> hash_key u k' \<in> K \<Longrightarrow>
     t = u \<and> (hash_key t k = hash_key u k' \<or> collision x K)"
  by (auto simp: hashed_eq collision_def)

lemma to_be_bytes_inj: "to_be_bytes v = to_be_bytes w \<Longrightarrow> v = w"
proof (rule bit_word_eqI)
  fix n assume eq: "to_be_bytes v = to_be_bytes w" and n: "n < LENGTH(64)"
  have "unat (drop_bit k v) mod 256 = unat (drop_bit k w) mod 256" if "k \<in> {0, 8, 16, 24, 32, 40, 48, 56}" for k
  proof -
    have "(char_of (unat (drop_bit k v) mod 256) :: char) = char_of (unat (drop_bit k w) mod 256)"
      using eq that by (auto simp: to_be_bytes_def)
    then show ?thesis by (simp add: char_of_eq_iff) (metis char_of_eq_iff of_char_mod_256 of_char_of mod_mod_trivial)
  qed
  moreover have "8 * (n div 8) \<in> {0, 8, 16, 24, 32, 40, 48, 56}"
  proof -
    have "n div 8 < 8" using n by simp
    then have "n div 8 \<in> {0, 1, 2, 3, 4, 5, 6, 7}" by auto
    then show ?thesis by auto
  qed
  ultimately have "take_bit 8 (unat (drop_bit (8 * (n div 8)) v)) = take_bit 8 (unat (drop_bit (8 * (n div 8)) w))"
    by (simp add: take_bit_eq_mod)
  then have "bit (take_bit 8 (unat (drop_bit (8 * (n div 8)) v))) (n mod 8) =
      bit (take_bit 8 (unat (drop_bit (8 * (n div 8)) w))) (n mod 8)" by simp
  then show "bit v n = bit w n" by (simp add: bit_take_bit_iff bit_unsigned_iff bit_drop_bit_eq)
qed

lemma length_to_be_bytes [simp]: "length (to_be_bytes w) = 8"
  by (simp add: to_be_bytes_def)

lemma hash_key_inj:
  "hash_key t [a] = hash_key t [b] \<longleftrightarrow> a = b"
  "nul_free a \<Longrightarrow> nul_free b \<Longrightarrow> hash_key t [a, v] = hash_key t [b, w] \<longleftrightarrow> a = b \<and> v = w"
  "nul_free a \<Longrightarrow> nul_free b \<Longrightarrow> length c = length d \<Longrightarrow>
     hash_key t [a, c, v] = hash_key t [b, d, w] \<longleftrightarrow> a = b \<and> c = d \<and> v = w"
  by (auto simp: hash_key_def append_sep_inj)

lemma hash_key_triple_inj:
  "hash_key t [to_be_bytes a, to_be_bytes b, to_be_bytes c] = hash_key t [to_be_bytes a', to_be_bytes b', to_be_bytes c']
     \<Longrightarrow> a = a' \<and> b = b' \<and> c = c'"
  by (auto simp: hash_key_def append_eq_append_conv dest!: to_be_bytes_inj)

text \<open>How the id of a literal determines the literal.\<close>

lemma literal_id_cases [consumes 1, case_names dir lang string typed inline]:
  assumes "wf_literal l"
  obtains (dir) v lg d where "l = dir_lang_literal v lg d"
      "fst (encode_literal x l) = hashed x TagDirLangString [lg, case d of Ltr \<Rightarrow> ''ltr'' | Rtl \<Rightarrow> ''rtl'', v]"
  | (lang) v lg where "l = lang_literal v lg" "fst (encode_literal x l) = hashed x TagLangString [lg, v]"
  | (string) v where "l = simple_literal v" "fst (encode_literal x l) = hashed x TagString [v]"
  | (typed) v dt where "l = typed_literal v dt" "fst (encode_literal x l) = hashed x TagTyped [dt, v]"
      "dt \<noteq> xsd_string"
  | (inline) "decode_inline (fst (encode_literal x l)) = Some (Lit l)"
  using assms
proof (cases rule: wf_literal_cases)
  case (plain v dt)
  obtain i row where e: "encode_literal x (typed_literal v dt) = (i, row)" by force
  then show ?thesis
  proof (cases rule: encode_typed_cases)
    case string
    show ?thesis by (rule that(3) [of v]) (use string e plain in \<open>simp_all add: simple_literal_def typed_literal_def\<close>)
  next
    case (integer n)
    show ?thesis by (rule that(5)) (use encode_literal_decodes [OF assms, of x i row] integer e plain in simp)
  next
    case (boolean b)
    show ?thesis by (rule that(5)) (use encode_literal_decodes [OF assms, of x i row] boolean e plain in simp)
  next
    case (typed r)
    show ?thesis by (rule that(4)) (use typed e plain in simp_all)
  qed
next
  case (lang v lg)
  show ?thesis by (rule that(2) [OF lang]) (simp add: lang encode_literal_def lang_literal_def Let_def)
next
  case (dir v lg d)
  show ?thesis by (rule that(1) [OF dir]) (simp add: dir encode_literal_def dir_lang_literal_def Let_def)
qed

lemma decode_inline_hashed [simp]: "t \<noteq> TagInteger \<Longrightarrow> t \<noteq> TagBoolean \<Longrightarrow> decode_inline (hashed x t k) = None"
  by (cases t) (simp_all add: decode_inline_def)

lemma literal_id_inj:
  assumes wf: "wf_literal l" "wf_literal l'" and nf: "nul_free_literal l" "nul_free_literal l'"
    and eq: "fst (encode_literal x l) = fst (encode_literal x l')"
    and K: "literal_keys l \<subseteq> K" "literal_keys l' \<subseteq> K"
  shows "l = l' \<or> collision x K"
  using wf(1)
proof (cases rule: literal_id_cases [where x = x])
  case (dir v lg d)
  note l = this
  have not_inline: "decode_inline (fst (encode_literal x l')) = None" unfolding eq [symmetric] l(2) by simp
  from wf(2) show ?thesis
  proof (cases rule: literal_id_cases [where x = x])
    case (dir v' lg' d')
    then show ?thesis using l eq nf K hashed_collide [of x TagDirLangString _ TagDirLangString _ K]
      by (force simp: nul_free_literal_def dir_lang_literal_def hash_key_inj literal_keys_def split: base_direction.splits)
  qed (use l eq not_inline in \<open>auto simp: hashed_eq\<close>)
next
  case (lang v lg)
  note l = this
  have not_inline: "decode_inline (fst (encode_literal x l')) = None" unfolding eq [symmetric] l(2) by simp
  from wf(2) show ?thesis
  proof (cases rule: literal_id_cases [where x = x])
    case (lang v' lg')
    then show ?thesis using l eq nf K hashed_collide [of x TagLangString _ TagLangString _ K]
      by (force simp: nul_free_literal_def lang_literal_def hash_key_inj literal_keys_def)
  qed (use l eq not_inline in \<open>auto simp: hashed_eq\<close>)
next
  case (string v)
  note l = this
  have not_inline: "decode_inline (fst (encode_literal x l')) = None" unfolding eq [symmetric] l(2) by simp
  from wf(2) show ?thesis
  proof (cases rule: literal_id_cases [where x = x])
    case (string v')
    then show ?thesis using l eq K hashed_collide [of x TagString _ TagString _ K]
      by (force simp: hash_key_inj literal_keys_def simple_literal_def)
  qed (use l eq not_inline in \<open>auto simp: hashed_eq\<close>)
next
  case (typed v dt)
  note l = this
  have not_inline: "decode_inline (fst (encode_literal x l')) = None" unfolding eq [symmetric] l(2) by simp
  from wf(2) show ?thesis
  proof (cases rule: literal_id_cases [where x = x])
    case (typed v' dt')
    then show ?thesis using l eq nf K hashed_collide [of x TagTyped _ TagTyped _ K]
      by (force simp: nul_free_literal_def typed_literal_def hash_key_inj literal_keys_def)
  qed (use l eq not_inline in \<open>auto simp: hashed_eq\<close>)
next
  case inline
  from wf(2) show ?thesis
    by (cases rule: literal_id_cases [where x = x]) (use inline eq in auto)
qed


lemma named_node_id_inj:
  "named_node_id x a = named_node_id x b \<Longrightarrow> hash_key TagIri [a] \<in> K \<Longrightarrow> hash_key TagIri [b] \<in> K \<Longrightarrow>
     a = b \<or> collision x K"
  using hashed_collide [of x TagIri "[a]" TagIri "[b]" K] by (auto simp: named_node_id_def hash_key_inj)

lemma blank_node_id_inj:
  "blank_node_id x a = blank_node_id x b \<Longrightarrow> hash_key TagBlankNode [a] \<in> K \<Longrightarrow> hash_key TagBlankNode [b] \<in> K \<Longrightarrow>
     a = b \<or> collision x K"
  using hashed_collide [of x TagBlankNode "[a]" TagBlankNode "[b]" K] by (auto simp: blank_node_id_def hash_key_inj)

lemma tag_of_ids [simp]:
  "tag_of (named_node_id x n) = Some TagIri" "tag_of (blank_node_id x b) = Some TagBlankNode"
  by (simp_all add: named_node_id_def blank_node_id_def)

lemma subject_id_inj:
  "subject_id x s = subject_id x s' \<Longrightarrow> subject_keys s \<subseteq> K \<Longrightarrow> subject_keys s' \<subseteq> K \<Longrightarrow> s = s' \<or> collision x K"
proof (cases s; cases s')
  assume eq: "subject_id x s = subject_id x s'" and K: "subject_keys s \<subseteq> K" "subject_keys s' \<subseteq> K"
  fix a b
  { assume "s = SNamed a" "s' = SNamed b"
    with eq K show ?thesis by (auto simp: subject_id_def subject_keys_def dest: named_node_id_inj [where K = K]) }
  { assume "s = SBlank a" "s' = SBlank b"
    with eq K show ?thesis by (auto simp: subject_id_def subject_keys_def dest: blank_node_id_inj [where K = K]) }
  { assume "s = SNamed a" "s' = SBlank b"
    with arg_cong [OF eq, of tag_of] show ?thesis by (simp add: subject_id_def) }
  { assume "s = SBlank a" "s' = SNamed b"
    with arg_cong [OF eq, of tag_of] show ?thesis by (simp add: subject_id_def) }
qed

lemma literal_tag:
  assumes "wf_literal l"
  shows "tag_of (fst (encode_literal x l)) \<in>
    Some ` {TagString, TagLangString, TagTyped, TagInteger, TagBoolean, TagDirLangString}"
  using assms
proof (cases rule: literal_id_cases [where x = x])
  case inline
  then show ?thesis by (auto simp: decode_inline_def split: option.splits tag.splits)
qed (simp_all only: tag_of_hashed image_insert insert_iff simp_thms)

text \<open>The tag of an id tells the kind of the term.\<close>

fun kind_tags :: "rdf_term \<Rightarrow> tag set" where
  "kind_tags (NamedNode _) = {TagIri}"
| "kind_tags (BlankNode _) = {TagBlankNode}"
| "kind_tags (Lit _) = {TagString, TagLangString, TagTyped, TagInteger, TagBoolean, TagDirLangString}"
| "kind_tags (TripleTerm _ _ _) = {TagTriple}"

lemma term_id_kind: "wf_term t \<Longrightarrow> \<exists>g \<in> kind_tags t. tag_of (term_id x t) = Some g"
proof (cases t)
  case (Lit l)
  assume "wf_term t"
  with Lit literal_tag [of l x] show ?thesis by auto
qed simp_all

lemma term_id_same_kind:
  "wf_term t \<Longrightarrow> wf_term u \<Longrightarrow> term_id x t = term_id x u \<Longrightarrow> kind_tags t \<inter> kind_tags u \<noteq> {}"
  using term_id_kind [of t x] term_id_kind [of u x] by auto

lemma term_id_inj_aux:
  "wf_term t \<Longrightarrow> wf_term u \<Longrightarrow> nul_free_term t \<Longrightarrow> nul_free_term u \<Longrightarrow> term_id x t = term_id x u \<Longrightarrow>
     term_keys x t \<subseteq> K \<Longrightarrow> term_keys x u \<subseteq> K \<Longrightarrow> t = u \<or> collision x K"
proof (induction t arbitrary: u)
  case (NamedNode n)
  from term_id_same_kind [OF NamedNode(1,2,5)] NamedNode(5-7) show ?case
    by (cases u) (auto dest: named_node_id_inj [where K = K])
next
  case (BlankNode n)
  from term_id_same_kind [OF BlankNode(1,2,5)] BlankNode(5-7) show ?case
    by (cases u) (auto dest: blank_node_id_inj [where K = K])
next
  case (Lit l)
  from term_id_same_kind [OF Lit(1,2,5)] obtain l' where "u = Lit l'"
    by (cases u) auto
  with literal_id_inj [of l l' x K] Lit show ?case by simp
next
  case (TripleTerm s p ob)
  from term_id_same_kind [OF TripleTerm.prems(1,2,5)]
  obtain s' p' ob' where u: "u = TripleTerm s' p' ob'" by (cases u) auto
  show ?case
  proof (cases "collision x K")
    case False
    with hashed_collide [of x TagTriple _ TagTriple _ K] TripleTerm.prems(5-7) u
    have "hash_key TagTriple [to_be_bytes (subject_id x s), to_be_bytes (named_node_id x p), to_be_bytes (term_id x ob)] =
      hash_key TagTriple [to_be_bytes (subject_id x s'), to_be_bytes (named_node_id x p'), to_be_bytes (term_id x ob')]"
      by auto
    from hash_key_triple_inj [OF this] have "subject_id x s = subject_id x s'"
      "named_node_id x p = named_node_id x p'" "term_id x ob = term_id x ob'" by auto
    then have "s = s'" "p = p'" "ob = ob'"
      using False subject_id_inj [of x s s' K] named_node_id_inj [of x p p' K] TripleTerm.IH [of ob'] TripleTerm.prems u
      by auto
    with u show ?thesis by simp
  qed simp
qed

section \<open>Collected rows\<close>

lemma er_id_simps [simp]:
  "fst (er_iri x n er) = named_node_id x n" "fst (er_bnode x b er) = blank_node_id x b"
  "fst (er_subject x s er) = subject_id x s" "fst (er_graph x g er) = graph_id x g"
  by (simp_all add: er_iri_def er_bnode_def er_subject_def er_graph_def subject_id_def graph_id_def Let_def
      split: named_or_blank.splits graph_name.splits)

lemma er_term_id [simp]: "fst (er_term x t er) = term_id x t"
proof (induction t arbitrary: er)
  case (Lit l)
  then show ?case by (auto split: prod.splits option.splits)
next
  case (TripleTerm s p ob)
  then show ?case
    by (simp add: Let_def split_beta) 
qed simp_all


text \<open>Removing duplicates keeps the first row of every id, in id order.\<close>

lemma dedup_by_key_sub: "set (dedup_by_key f rs) \<subseteq> set rs"
  by (induction f rs rule: dedup_by_key.induct) auto

lemma dedup_by_key_hd: "rs \<noteq> [] \<Longrightarrow> dedup_by_key f rs \<noteq> [] \<and> hd (dedup_by_key f rs) = hd rs"
  by (induction f rs rule: dedup_by_key.induct) auto

lemma dedup_by_key_sorted:
  fixes f :: "'a \<Rightarrow> 'k :: linorder"
  shows "sorted (map f rs) \<Longrightarrow> sorted_wrt (<) (map f (dedup_by_key f rs))"
proof (induction f rs rule: dedup_by_key.induct)
  case (3 f r r' rs)
  show ?case
  proof (cases "f r = f r'")
    case True
    with 3 show ?thesis by simp
  next
    case False
    then have IH: "sorted_wrt (<) (map f (dedup_by_key f (r' # rs)))" using 3 by simp
    have "\<forall>y \<in> set (dedup_by_key f (r' # rs)). f r < f y"
      using dedup_by_key_sub [of f "r' # rs"] 3(3) False by force
    with IH False show ?thesis by simp
  qed
qed simp_all

lemma dedup_by_key_find:
  fixes f :: "'a \<Rightarrow> 'k :: linorder"
  shows "sorted (map f rs) \<Longrightarrow> List.find (\<lambda>r. f r = k) (dedup_by_key f rs) = List.find (\<lambda>r. f r = k) rs"
  by (induction f rs rule: dedup_by_key.induct) auto

lemma find_filter: "List.find P xs = (case filter P xs of [] \<Rightarrow> None | y # _ \<Rightarrow> Some y)"
  by (induction xs) auto

lemma find_sort_key: "List.find (\<lambda>r. f r = k) (List.sort_key f rs) = List.find (\<lambda>r. f r = k) rs"
proof -
  have "filter (\<lambda>r. f r = k) (List.sort_key f rs) = filter (\<lambda>r. f r = k) rs" by (rule sort_key_stable)
  then show ?thesis by (simp add: find_filter [of "\<lambda>r. f r = k"])
qed

lemma dedup_sort:
  fixes f :: "'a \<Rightarrow> 'k :: linorder"
  shows "sorted_wrt (<) (map f (dedup_by_key f (List.sort_key f rs)))"
    and "List.find (\<lambda>r. f r = k) (dedup_by_key f (List.sort_key f rs)) = List.find (\<lambda>r. f r = k) rs"
  by (simp_all add: dedup_by_key_sorted dedup_by_key_find find_sort_key)

section \<open>Sort keys of numbers\<close>

lemma hex_char_less: "a < b \<Longrightarrow> b < 16 \<Longrightarrow> hex_char a < hex_char b"
  by (auto simp: hex_char_def less_char_def)

lemma hex_fixed_less: "a < b \<Longrightarrow> b < 16 ^ w \<Longrightarrow> hex_fixed w a < hex_fixed w b"
proof (induction w arbitrary: a b)
  case (Suc w)
  have b: "b div 16 ^ w < 16" using Suc.prems(2) by (simp add: less_mult_imp_div_less)
  consider "a div 16 ^ w < b div 16 ^ w" | "a div 16 ^ w = b div 16 ^ w"
    using Suc.prems(1) by (meson div_le_mono le_neq_implies_less less_imp_le)
  then show ?case
  proof cases
    case 1
    with hex_char_less [OF 1 b] show ?thesis by simp
  next
    case 2
    then have "a mod 16 ^ w < b mod 16 ^ w"
      using Suc.prems(1) by (metis div_mult_mod_eq nat_add_left_cancel_less)
    with Suc.IH [OF this] 2 show ?thesis by simp
  qed
qed simp

section \<open>Properties\<close>

lemma literal_id_made:
  assumes "wf_literal l"
  shows "\<exists>g p. fst (encode_literal x l) = make_id g p"
  using assms
proof (cases rule: wf_literal_cases)
  case (plain v dt)
  obtain i row where e: "encode_literal x (typed_literal v dt) = (i, row)" by force
  then have "\<exists>g p. i = make_id g p"
    by (cases rule: encode_typed_cases) (auto simp: hashed_def boolean_id_def integer_id_def split: if_splits)
  with e plain show ?thesis by simp
qed (auto simp: encode_literal_def lang_literal_def dir_lang_literal_def hashed_def Let_def)

lemma term_id_made: "wf_term t \<Longrightarrow> \<exists>g \<in> kind_tags t. \<exists>p. term_id x t = make_id g p"
proof -
  assume wf: "wf_term t"
  have "\<exists>g p. term_id x t = make_id g p"
  proof (cases t)
    case (Lit l)
    with wf literal_id_made [of l x] show ?thesis by simp
  qed (auto simp: named_node_id_def blank_node_id_def hashed_def)
  with term_id_kind [OF wf, of x] show ?thesis by auto
qed

text \<open>
  Every well-formed term gets a positive id whose tag tells its kind, so no term is mistaken for
  the default graph (id 0) and terms of different kinds never share an id.
\<close>

theorem term_id_shape:
  assumes "wf_term t"
  shows "2 ^ 59 \<le> sint (term_id x t) \<and> term_id x t \<noteq> DEFAULT_GRAPH_ID \<and>
    (\<exists>g \<in> kind_tags t. tag_of (term_id x t) = Some g)"
proof -
  obtain g p where g: "g \<in> kind_tags t" "term_id x t = make_id g p" using term_id_made [OF assms] by blast
  then have "g \<noteq> TagDefault" by (cases t) auto
  then have "1 \<le> int (tag_num g)" by (cases g) simp_all
  then have "2 ^ 59 \<le> sint (term_id x t)"
    unfolding g(2) sint_make_id using mult_right_mono [of 1 "int (tag_num g)" "2 ^ 59"] by (simp add: add_increasing2)
  moreover from this have "term_id x t \<noteq> DEFAULT_GRAPH_ID" by (auto simp: DEFAULT_GRAPH_ID_def)
  ultimately show ?thesis using g by auto
qed

definition toy_ext :: ext where
  "toy_ext = \<lparr>xxh3_64 = (\<lambda>s. of_nat (foldl (\<lambda>h c. 31 * h + of_char c) 7 s)),
     date_time_from_str = (\<lambda>_. None), date_from_str = (\<lambda>_. None)\<rparr>"

theorem term_id_shape_witness:
  "term_id toy_ext (Lit (int_literal 42)) \<noteq> DEFAULT_GRAPH_ID"
  using term_id_shape [of "Lit (int_literal 42)" toy_ext]
  by (simp add: wf_literal_def int_literal_def typed_literal_def)

text \<open>
  Inline integers sort by value: the order of two inline ids is the order of the integers, so a
  range filter is an id range scan; and an inline id decodes to the canonical literal of its integer.
\<close>

theorem integer_id_order:
  assumes "integer_id v = Some i" "integer_id w = Some j"
  shows "(sint i < sint j \<longleftrightarrow> v < w) \<and> (i = j \<longleftrightarrow> v = w) \<and> decode_inline i = Some (Lit (int_literal v))"
proof -
  have "i = j \<longleftrightarrow> v = w" using assms integer_id_Some(2) by (metis option.inject)
  then show ?thesis
    using integer_id_Some(3) [OF assms(1)] integer_id_Some(3) [OF assms(2)] decode_inline_facts(1) [OF assms(1)] by simp
qed

theorem integer_id_order_witness:
  "sint (the (integer_id (- 5))) < sint (the (integer_id 17))"
proof -
  have "integer_id (- 5) = Some (the (integer_id (- 5)))" "integer_id 17 = Some (the (integer_id 17))"
    by (simp_all add: integer_id_def INT_MIN_def INT_MAX_def INT_OFFSET_def)
  from integer_id_order [OF this] show ?thesis by simp
qed

text \<open>
  C11. Encoding a literal loses nothing: a literal stored inline is decoded from its id alone, any
  other literal from the row \<^verbatim>\<open>encode_literal\<close> returns for it.
\<close>

theorem encode_literal_roundtrip:
  assumes "wf_literal l"
  shows "case encode_literal x l of
      (i, None) \<Rightarrow> decode_inline i = Some (Lit l)
    | (i, Some r) \<Rightarrow> tr_id r = i \<and> decode_row i (tr_lex r) (tr_dt r) (tr_lang r) (tr_dir r) = Inr (Lit l)"
  using encode_literal_decodes [OF assms, of x]
  by (auto simp: row_decodes_def split: prod.splits option.splits)

theorem encode_literal_roundtrip_witness:
  "case encode_literal toy_ext (lang_literal ''chat'' ''fr'') of (i, None) \<Rightarrow> False
    | (i, Some r) \<Rightarrow> decode_row i (tr_lex r) (tr_dt r) (tr_lang r) (tr_dir r) = Inr (Lit (lang_literal ''chat'' ''fr''))"
  using encode_literal_roundtrip [of "lang_literal ''chat'' ''fr''" toy_ext]
  by (auto simp: wf_literal_def lang_literal_def encode_literal_def Let_def)

text \<open>
  C3. Two different terms share an id only through a collision of the 59 hash bits of the byte strings
  hashed for them: those strings differ whenever the terms do (language tags and datatype IRIs hold no
  NUL byte), so the encoding itself never confuses two terms.
\<close>

theorem term_id_injective:
  assumes "wf_term t" "wf_term u" "nul_free_term t" "nul_free_term u" "term_id x t = term_id x u"
  shows "t = u \<or> collision x (term_keys x t \<union> term_keys x u)"
  using assms by (rule term_id_inj_aux) auto

theorem term_id_injective_witness:
  "NamedNode ''a'' = NamedNode ''a'' \<or> collision toy_ext (term_keys toy_ext (NamedNode ''a'') \<union> term_keys toy_ext (NamedNode ''a''))"
  by (rule term_id_injective) simp_all

text \<open>
  The row collector and the plain encoder agree on every id, whatever rows were collected before.
\<close>

theorem er_quad_ids:
  "fst (er_quad x q er) =
     (subject_id x (q_subject q), named_node_id x (q_predicate q), term_id x (q_object q), graph_id x (q_graph q)) \<and>
   fst (er_term x t er) = term_id x t"
  by (simp add: er_quad_def Let_def split_beta)

text \<open>
  \<^verbatim>\<open>dedup\<close> leaves the rows in strictly increasing id order, and looking an id up finds the row
  that was collected first for it.
\<close>

theorem dedup_rows:
  "sorted_wrt (<) (map (\<lambda>r. sint (tr_id r)) (er_terms (dedup er))) \<and>
   sorted_wrt (<) (map (\<lambda>r. sint (pr_id r)) (er_triples (dedup er))) \<and>
   List.find (\<lambda>r. sint (tr_id r) = k) (er_terms (dedup er)) = List.find (\<lambda>r. sint (tr_id r) = k) (er_terms er) \<and>
   List.find (\<lambda>r. sint (pr_id r) = k) (er_triples (dedup er)) = List.find (\<lambda>r. sint (pr_id r) = k) (er_triples er)"
  by (simp add: dedup_def dedup_sort)

section \<open>Order and value keys\<close>

lemma uint_not: "uint (NOT x) = 2 ^ 64 - 1 - uint (x :: i64)"
proof -
  have b: "0 \<le> uint x" "uint x < 2 ^ 64" using uint_lt2p [of x] by simp_all
  have "uint (NOT x) = (- uint x - 1) mod 2 ^ 64"
    by (subst unsigned_not_eq) (simp add: take_bit_eq_mod not_eq_complement)
  also have "\<dots> = (2 ^ 64 - 1 - uint x) mod 2 ^ 64"
    using mod_add_self2 [of "- uint x - 1" "2 ^ 64"] by (simp add: algebra_simps)
  also have "\<dots> = 2 ^ 64 - 1 - uint x" by (intro mod_pos_pos_trivial; use b in linarith)
  finally show ?thesis .
qed

lemma uint_or_sign: "\<not> f64_sign x \<Longrightarrow> uint (x OR push_bit 63 1) = 2 ^ 63 + uint x"
proof -
  assume s: "\<not> f64_sign x"
  have "x OR push_bit 63 1 = x + push_bit 63 1"
    by (rule disjunctive_add [symmetric], unfold push_bit_of_1 bit_exp_iff) (use s in \<open>auto simp: f64_sign_def\<close>)
  moreover have "uint x < 2 ^ 63" using uint_sign [of x] s by (simp add: f64_mag_def)
  ultimately show ?thesis by (simp add: uint_word_ariths(1) push_bit_eq_mult mod_pos_pos_trivial)
qed

text \<open>The transformed bits order like the values.\<close>

lemma sort_bits_less:
  assumes "f64_scaled x < f64_scaled y"
  shows "uint (if f64_sign x then NOT x else x OR push_bit 63 1) < uint (if f64_sign y then NOT y else y OR push_bit 63 1)"
proof -
  have m: "f64_mag x < 2 ^ 63" "f64_mag y < 2 ^ 63" by (simp_all add: f64_mag_def)
  have nn: "0 \<le> mag_scaled (f64_mag x)" "0 \<le> mag_scaled (f64_mag y)" by (simp_all add: mag_scaled_nonneg)
  note less = mag_scaled_less_iff [of "f64_mag x" "f64_mag y"] mag_scaled_less_iff [of "f64_mag y" "f64_mag x"]
  note u = uint_sign [of x] uint_sign [of y]
  consider (pp) "\<not> f64_sign x" "\<not> f64_sign y" | (np) "f64_sign x" "\<not> f64_sign y"
    | (pn) "\<not> f64_sign x" "f64_sign y" | (nn) "f64_sign x" "f64_sign y" by blast
  then show ?thesis
  proof cases
    case pp
    have "f64_mag x < f64_mag y" using assms less pp by (simp add: f64_scaled_def)
    then have "2 ^ 63 + uint x < 2 ^ 63 + uint y" using u pp by simp
    then show ?thesis by (simp only: pp if_False uint_or_sign [OF pp(1)] uint_or_sign [OF pp(2)])
  next
    case np
    have "2 ^ 64 - 1 - uint x < 2 ^ 63 + uint y" 
    proof -
      have "uint x = 2 ^ 63 + f64_mag x" "uint y = f64_mag y" using u np by simp_all
      moreover have "(2 :: int) ^ 64 = 2 * 2 ^ 63" by simp
      ultimately show ?thesis using f64_mag_nonneg [of x] f64_mag_nonneg [of y] by linarith
    qed
    then show ?thesis by (simp only: np if_True if_False uint_or_sign [OF np(2)] uint_not)
  next
    case pn
    with assms nn show ?thesis by (simp add: f64_scaled_def)
  next
    case nn
    have "f64_mag y < f64_mag x" using assms less nn by (simp add: f64_scaled_def)
    then have "2 ^ 64 - 1 - uint x < 2 ^ 64 - 1 - uint y" using u nn by simp
    then show ?thesis by (simp only: nn if_True uint_not)
  qed
qed

lemma sort_number_less: "f64_scaled x < f64_scaled y \<Longrightarrow> sort_number x < sort_number y"
proof -
  assume "f64_scaled x < f64_scaled y"
  from sort_bits_less [OF this] have "unat (if f64_sign x then NOT x else x OR push_bit 63 1)
      < unat (if f64_sign y then NOT y else y OR push_bit 63 1)"
    by (simp only: word_less_def [symmetric] word_less_nat_alt)
  then show ?thesis unfolding sort_number_def
    by (rule hex_fixed_less) (rule order_less_le_trans [OF unsigned_less], simp)
qed

text \<open>
  C31. The byte order of sort keys is the order of \<^verbatim>\<open>ORDER BY\<close>: blank nodes, then IRIs, then numbers by
  their numeric value, then other literals, then triple terms.
\<close>

theorem sort_key_order:
  "sort_key x (BlankNode b) < sort_key x (NamedNode n) \<and>
   sort_key x (NamedNode n) < sort_key x (Lit l) \<and>
   (literal_number x l = Some u \<and> literal_number x l' = Some v \<and> f64_scaled u < f64_scaled v \<longrightarrow>
      sort_key x (Lit l) < sort_key x (Lit l')) \<and>
   (literal_number x l \<noteq> None \<and> literal_number x l' = None \<longrightarrow> sort_key x (Lit l) < sort_key x (Lit l')) \<and>
   sort_key x (Lit l) < sort_key x (TripleTerm s p ob)"
  by (auto simp: literal_sort_key_def sort_number_less less_char_def split: option.splits)

theorem sort_key_order_witness:
  "sort_key toy_ext (BlankNode ''b0'') < sort_key toy_ext (NamedNode ''http://a'')"
  using sort_key_order by blast

lemma inline_value_key:
  assumes "lit_language l = None" "encode_literal x l = (i, None)" "tag_of i = Some TagInteger" "inline_int i = v"
  shows "value_key x (Lit l) = ''n'' @ show_int v"
  using assms by (simp add: literal_value_key_def)

lemma typed_value_key:
  assumes "encode_literal x l = (i, Some r)" "tag_of i = Some TagTyped" "tr_num r = Some n" "tr_nt r = Some k"
  shows "value_key x (Lit l) =
    (if f64_is_integral n \<and> f64_abs_lt n (9 * 10 ^ 15) then ''n'' @ show_int (f64_as_i64 n) else ''n'' @ f64_debug n)"
  using assms by (simp add: literal_value_key_def)


lemma f64_as_i64_integral:
  assumes "f64_is_finite n" "f64_scaled n = v * F64_UNIT" "i64_min \<le> v" "v \<le> i64_max"
  shows "f64_as_i64 n = v"
proof -
  have "sgn (v * F64_UNIT) * (\<bar>v * F64_UNIT\<bar> div F64_UNIT) = v"
    using F64_UNIT_pos by (simp add: abs_mult sgn_mult sgn_mult_abs)
  then show ?thesis using assms by (simp add: f64_as_i64_def f64_is_nan_def f64_is_finite_def)
qed

lemma numeric_row_typed:
  assumes "wf_literal l" "encode_literal x l = (i, Some r)" "tr_nt r = Some k"
  shows "tag_of i = Some TagTyped"
  using assms(1)
proof (cases rule: wf_literal_cases)
  case (plain v dt)
  from assms(2) [unfolded plain] show ?thesis
    by (cases rule: encode_typed_cases) (use assms(3) in \<open>auto simp: plain_row_def\<close>)
qed (use assms in \<open>auto simp: encode_literal_def lang_literal_def dir_lang_literal_def plain_row_def Let_def\<close>)

text \<open>
  C32. The value key of a stored number and of an inline integer with the same value agree exactly
  below 9e15 in magnitude: above it the stored number is keyed by its printed float, which is never
  the printed integer, although the two terms are equal in value.
\<close>

theorem value_key_numeric:
  assumes "encode_literal x l = (i, None)" "integer_id v = Some i"
    and "wf_literal l'" "encode_literal x l' = (j, Some r)" "tr_num r = Some n" "tr_nt r = Some k"
    and "f64_is_finite n" "f64_scaled n = v * F64_UNIT"
  shows "value_key x (Lit l) = value_key x (Lit l') \<longleftrightarrow> \<bar>v\<bar> < 9 * 10 ^ 15"
proof -
  have l: "value_key x (Lit l) = ''n'' @ show_int v"
    using assms(1) integer_id_Some [OF assms(2)] by (simp add: literal_value_key_def)
  have "f64_is_integral n" using assms(7,8) by (simp add: f64_is_integral_def)
  moreover have "f64_abs_lt n (9 * 10 ^ 15) \<longleftrightarrow> \<bar>v\<bar> < 9 * 10 ^ 15"
    using assms(7,8) F64_UNIT_pos by (simp add: f64_abs_lt_def abs_mult mult_less_cancel_right_disj)
  moreover have "f64_as_i64 n = v" if "\<bar>v\<bar> < 9 * 10 ^ 15"
    by (rule f64_as_i64_integral [OF assms(7,8)]) (use that in simp_all)
  ultimately have "value_key x (Lit l') = (if \<bar>v\<bar> < 9 * 10 ^ 15 then ''n'' @ show_int v else ''n'' @ f64_debug n)"
    using typed_value_key [OF assms(4) numeric_row_typed [OF assms(3,4,6)] assms(5,6)] by simp
  then show ?thesis using l f64_debug_not_int [OF assms(7), of v] by (auto dest: sym)
qed

theorem value_key_numeric_witness:
  "value_key toy_ext (Lit (int_literal (10 ^ 16))) \<noteq> value_key toy_ext (Lit (typed_literal ''1e16'' (xsd ''double'')))"
proof -
  let ?l' = "typed_literal ''1e16'' (xsd ''double'')"
  let ?n = "f64_of_ratio False (10 ^ 16) 1"
  have n: "f64_is_finite ?n" "f64_scaled ?n = 10 ^ 16 * F64_UNIT"
    using f64_of_ratio_exact [of "10 ^ 16" "5 * 10 ^ 15" 1075 1 False] by (simp_all add: F64_UNIT_def)
  have "trim ''1e16'' = ''1e16''" by code_simp
  then have p: "parse_xsd_float ''1e16'' = Some ?n"
    using n(1) by (simp add: parse_xsd_float_def f64_from_str_def parse_decimal_def parse_exponent_def
        decimal_f64_def eq_ignore_ascii_case_def is_ascii_digit_def digits_val_def digit_val_def) 
  obtain j r where e: "encode_literal toy_ext ?l' = (j, Some r)" "tr_num r = Some ?n" "tr_nt r = Some 4"
    using p by (simp add: encode_literal_def typed_literal_def Let_def numeric_rank_def integer_family_def)
  have i: "integer_id (10 ^ 16) = Some (make_id TagInteger (word_of_int (10 ^ 16 + INT_OFFSET)))" (is "_ = Some ?i")
    by (simp add: integer_id_def INT_MIN_def INT_MAX_def INT_OFFSET_def)
  have "encode_literal toy_ext (int_literal (10 ^ 16)) = (?i, None)"
    using i by (simp add: encode_literal_def int_literal_def typed_literal_def Let_def)
  from value_key_numeric [OF this i _ e n] show ?thesis by (simp add: wf_literal_def typed_literal_def)
qed

end
