(* ===== verification/Sql.thy ===== *)
theory Sql
  imports Encoding
begin

text \<open>
  The contract between the engine and a SQLite backend (\<^verbatim>\<open>sql.rs\<close> of the core): values, statements,
  requests, responses and capabilities, the writers of SQL literals, and \<^verbatim>\<open>union_all\<close>. The \<^verbatim>\<open>serde\<close>
  (de)serialisation of values is left to its crate.
\<close>

section \<open>Values, requests and responses\<close>

datatype sql_value = SqlNull | SqlInteger i64 | SqlReal f64 | SqlText string

definition as_i64 :: "sql_value \<Rightarrow> i64 option" where
  "as_i64 v =
     (case v of
        SqlInteger i \<Rightarrow> Some i
      | SqlText s \<Rightarrow> map_option word_of_int (parse_i64 s)
      | SqlReal r \<Rightarrow>
          if f64_is_integral r \<and> f64_abs_lt r (9 * 10 ^ 15) then Some (word_of_int (f64_as_i64 r)) else None
      | SqlNull \<Rightarrow> None)"

definition as_f64 :: "sql_value \<Rightarrow> f64 option" where
  "as_f64 v =
     (case v of
        SqlInteger i \<Rightarrow> Some (f64_of_int (sint i))
      | SqlReal r \<Rightarrow> Some r
      | SqlText s \<Rightarrow> f64_from_str s
      | SqlNull \<Rightarrow> None)"

definition as_str :: "sql_value \<Rightarrow> string option" where
  "as_str v = (case v of SqlText s \<Rightarrow> Some s | _ \<Rightarrow> None)"

definition into_string :: "sql_value \<Rightarrow> string option" where
  "into_string v =
     (case v of
        SqlText s \<Rightarrow> Some s
      | SqlInteger i \<Rightarrow> Some (show_int (sint i))
      | SqlReal r \<Rightarrow> Some (f64_display r)
      | SqlNull \<Rightarrow> None)"

definition is_null :: "sql_value \<Rightarrow> bool" where
  "is_null v \<longleftrightarrow> v = SqlNull"

record statement =
  st_sql :: string
  st_params :: "sql_value list"

definition statement_new :: "string \<Rightarrow> statement" where
  "statement_new s = \<lparr>st_sql = s, st_params = []\<rparr>"

datatype mode = Read | Atomic

record request =
  rq_statements :: "statement list"
  rq_mode :: mode

definition request_read :: "statement list \<Rightarrow> request" where
  "request_read ss = \<lparr>rq_statements = ss, rq_mode = Read\<rparr>"

definition request_atomic :: "statement list \<Rightarrow> request" where
  "request_atomic ss = \<lparr>rq_statements = ss, rq_mode = Atomic\<rparr>"

record result_set =
  rs_rows :: "sql_value list list"
  rs_changes :: nat

type_synonym response = "result_set list"

datatype versioning = Off | Stamped | Log

fun versioning_rank :: "versioning \<Rightarrow> nat" where
  "versioning_rank Off = 0"
| "versioning_rank Stamped = 1"
| "versioning_rank Log = 2"

record capabilities =
  max_sql_len :: nat
  max_statements :: nat
  udf :: bool
  interactive_transactions :: bool
  int64_as_text :: bool
  max_compound_select :: nat
  compound_recursive_cte :: bool
  vectors :: bool
  vector_index_methods :: bool
  cap_name :: string
  cap_versioning :: versioning

definition caps_native :: capabilities where
  "caps_native = \<lparr>max_sql_len = 1000000, max_statements = 10000, udf = False,
     interactive_transactions = True, int64_as_text = False, max_compound_select = 500,
     compound_recursive_cte = True, vectors = False, vector_index_methods = False,
     cap_name = ''sqlite'', cap_versioning = Off\<rparr>"

definition caps_d1 :: capabilities where
  "caps_d1 = \<lparr>max_sql_len = 90000, max_statements = 50, udf = False,
     interactive_transactions = False, int64_as_text = True, max_compound_select = 5,
     compound_recursive_cte = False, vectors = False, vector_index_methods = False,
     cap_name = ''d1'', cap_versioning = Off\<rparr>"

definition col :: "sql_value list \<Rightarrow> nat \<Rightarrow> error + sql_value" where
  "col row i = ok_or (Corrupted (''missing column '' @ show_nat i @ '' in result row'')) (get_nth row i)"

definition expect_len :: "response \<Rightarrow> nat \<Rightarrow> error + unit" where
  "expect_len r n =
     (if length r < n
      then Inl (error_backend (''backend returned '' @ show_nat (length r) @ '' result sets, expected '' @ show_nat n))
      else Inr ())"

section \<open>Literals\<close>

definition hex_upper :: "nat \<Rightarrow> char" where
  "hex_upper n = char_of (if n < 10 then 48 + n else 55 + n)"

definition hex_byte :: "char \<Rightarrow> string" where
  "hex_byte c = [hex_upper (byte c div 16), hex_upper (byte c mod 16)]"

definition quote_str :: "string \<Rightarrow> string \<Rightarrow> string" where
  "quote_str out s =
     (if char_of (0 :: nat) \<in> set s
      then out @ ''CAST(X'' @ [CHR 0x27] @ concat (map hex_byte s) @ [CHR 0x27] @ '' AS TEXT)''
      else out @ [CHR 0x27] @ concat (map (\<lambda>c. if c = CHR 0x27 then [CHR 0x27, c] else [c]) s) @ [CHR 0x27])"

definition sql_str :: "string \<Rightarrow> string" where
  "sql_str s = quote_str [] s"

definition sql_opt_str :: "string option \<Rightarrow> string" where
  "sql_opt_str s = (case s of None \<Rightarrow> ''NULL'' | Some s' \<Rightarrow> sql_str s')"

definition sql_f64 :: "f64 \<Rightarrow> string" where
  "sql_f64 v =
     (if f64_is_nan v then ''NULL''
      else if v = f64_inf False then ''9e999''
      else if v = f64_inf True then ''-9e999''
      else let s = f64_debug v
           in if CHR ''.'' \<in> set s \<or> CHR ''e'' \<in> set s \<or> contains_str ''inf'' s then s else s @ ''.0'')"

section \<open>Compound selects\<close>

definition union_chunk :: "string list \<Rightarrow> string" where
  "union_chunk c =
     (if length c = 1 then hd c else ''SELECT * FROM ('' @ join '' UNION ALL '' c @ '')'')"

function union_loop :: "nat \<Rightarrow> string list \<Rightarrow> string list" where
  "union_loop k parts =
     (if 2 \<le> k \<and> k < length parts then union_loop k (map union_chunk (chunks k parts)) else parts)"
  by pat_completeness auto
termination
  by (relation "measure (\<lambda>(k, parts). length parts)") (auto intro: length_chunks_less)

declare union_loop.simps [simp del]

definition union_all :: "string list \<Rightarrow> nat \<Rightarrow> string" where
  "union_all parts max_terms = join '' UNION ALL '' (union_loop (max max_terms 2) parts)"

section \<open>Literals are read back\<close>

text \<open>
  SQL's reading of a text literal at the start of a statement's rest: a quoted string ends at the
  first quote that is not doubled. The second form is a blob literal, cast to text.
\<close>

fun read_quoted :: "string \<Rightarrow> (string \<times> string) option" where
  "read_quoted [] = None"
| "read_quoted (c # s) =
     (if c = CHR 0x27
      then (case s of
              d # r \<Rightarrow> if d = CHR 0x27 then map_option (\<lambda>(t, r'). (CHR 0x27 # t, r')) (read_quoted r) else Some ([], s)
            | [] \<Rightarrow> Some ([], []))
      else map_option (\<lambda>(t, r'). (c # t, r')) (read_quoted s))"

definition hex_val :: "char \<Rightarrow> nat option" where
  "hex_val c =
     (if 48 \<le> byte c \<and> byte c \<le> 57 then Some (byte c - 48)
      else if 65 \<le> byte c \<and> byte c \<le> 70 then Some (byte c - 55)
      else None)"

fun read_hex :: "string \<Rightarrow> (string \<times> string) option" where
  "read_hex (a # b # r) =
     (if a = CHR 0x27 then Some ([], b # r)
      else (case (hex_val a, hex_val b) of
              (Some h, Some l) \<Rightarrow> map_option (\<lambda>(t, r'). (char_of (16 * h + l) # t, r')) (read_hex r)
            | _ \<Rightarrow> None))"
| "read_hex [a] = (if a = CHR 0x27 then Some ([], []) else None)"
| "read_hex [] = None"

definition read_sql_text :: "string \<Rightarrow> (string \<times> string) option" where
  "read_sql_text s =
     (case strip_prefix [CHR 0x27] s of
        Some r \<Rightarrow> read_quoted r
      | None \<Rightarrow>
          (case strip_prefix (''CAST(X'' @ [CHR 0x27]) s of
             None \<Rightarrow> None
           | Some r \<Rightarrow>
               (case read_hex r of
                  None \<Rightarrow> None
                | Some (t, r') \<Rightarrow> map_option (\<lambda>r''. (t, r'')) (strip_prefix '' AS TEXT)'' r'))))"

lemma read_quoted_escaped:
  assumes "case rest of [] \<Rightarrow> True | c # _ \<Rightarrow> c \<noteq> CHR 0x27"
  shows "read_quoted (concat (map (\<lambda>c. if c = CHR 0x27 then [CHR 0x27, c] else [c]) s) @ CHR 0x27 # rest) = Some (s, rest)"
  using assms by (induction s) (auto split: list.splits)

lemma hex_val_upper: "n < 16 \<Longrightarrow> hex_val (hex_upper n) = Some n"
  by (auto simp: hex_val_def hex_upper_def)

lemma hex_upper_not_quote: "n < 16 \<Longrightarrow> hex_upper n \<noteq> CHR 0x27"
  using hex_val_upper [of n] by (auto simp: hex_val_def)

lemma read_hex_bytes: "read_hex (concat (map hex_byte s) @ CHR 0x27 # rest) = Some (s, rest)"
proof (induction s)
  case Nil
  then show ?case by (cases rest) simp_all
next
  case (Cons c s)
  have "byte c < 256" by simp
  then have "byte c div 16 < 16" by linarith
  with Cons show ?case by (simp add: hex_byte_def hex_val_upper hex_upper_not_quote)
qed

lemma read_sql_text_str:
  assumes "case rest of [] \<Rightarrow> True | c # _ \<Rightarrow> c \<noteq> CHR 0x27"
  shows "read_sql_text (sql_str s @ rest) = Some (s, rest)"
proof (cases "char_of (0 :: nat) \<in> set s")
  case True
  have "strip_prefix [CHR 0x27] (''CAST(X'' @ [CHR 0x27] @ t) = None" for t
    by (simp add: strip_prefix_def starts_with_def)
  moreover have "sql_str s @ rest =
      (''CAST(X'' @ [CHR 0x27]) @ concat (map hex_byte s) @ CHR 0x27 # ('' AS TEXT)'' @ rest)"
    using True by (simp add: sql_str_def quote_str_def)
  ultimately show ?thesis
    using read_hex_bytes [of s "'' AS TEXT)'' @ rest"]
    by (simp add: read_sql_text_def strip_prefix_def starts_with_def)
next
  case False
  then have "sql_str s @ rest =
      [CHR 0x27] @ concat (map (\<lambda>c. if c = CHR 0x27 then [CHR 0x27, c] else [c]) s) @ CHR 0x27 # rest"
    by (simp add: sql_str_def quote_str_def)
  then show ?thesis using read_quoted_escaped [OF assms]
    by (simp only: read_sql_text_def strip_prefix_append option.case)
qed

section \<open>The shape of a nested union\<close>

datatype union_tree = Select string | Nested "union_tree list"

primrec render :: "union_tree \<Rightarrow> string" where
  "render (Select s) = s"
| "render (Nested ts) = ''SELECT * FROM ('' @ join '' UNION ALL '' (map render ts) @ '')''"

primrec leaves :: "union_tree \<Rightarrow> string list" where
  "leaves (Select s) = [s]"
| "leaves (Nested ts) = concat (map leaves ts)"

primrec width_ok :: "nat \<Rightarrow> union_tree \<Rightarrow> bool" where
  "width_ok k (Select s) = True"
| "width_ok k (Nested ts) = (2 \<le> length ts \<and> length ts \<le> k \<and> list_all (width_ok k) ts)"

lemma union_chunk_tree:
  assumes "c \<noteq> []" "length c \<le> k" "list_all (width_ok k) c"
  shows "\<exists>t. union_chunk (map render c) = render t \<and> leaves t = concat (map leaves c) \<and> width_ok k t"
proof (cases "length c = 1")
  case True
  then obtain t where "c = [t]" by (cases c) auto
  with assms show ?thesis by (auto simp: union_chunk_def)
next
  case False
  with assms(1) have "2 \<le> length c" by (cases c; cases "tl c") auto
  with assms False show ?thesis by (intro exI [of _ "Nested c"]) (simp add: union_chunk_def)
qed

lemma chunks_map: "chunks k (map f xs) = map (map f) (chunks k xs)"
proof (induction k xs rule: chunks.induct)
  case (1 k xs)
  show ?case
  proof (cases "xs = [] \<or> k = 0")
    case True
    then show ?thesis by (auto simp: chunks.simps)
  next
    case False
    with 1 show ?thesis by (simp add: chunks.simps [of k xs] chunks.simps [of k "map f xs"] take_map drop_map)
  qed
qed

lemma leaves_concat:
  "\<forall>c \<in> set cs. leaves (g c) = concat (map leaves c) \<Longrightarrow>
     concat (map leaves (map g cs)) = concat (map leaves (concat cs))"
  by (induction cs) auto

lemma union_loop_tree:
  "2 \<le> k \<Longrightarrow> list_all (width_ok k) ts \<Longrightarrow> parts = map render ts \<Longrightarrow>
    \<exists>ts'. union_loop k parts = map render ts' \<and> concat (map leaves ts') = concat (map leaves ts) \<and>
      list_all (width_ok k) ts' \<and> length ts' \<le> k"
proof (induction k parts arbitrary: ts rule: union_loop.induct)
  case (1 k parts)
  note assms = 1(2)
  show ?case
  proof (cases "k < length parts")
    case False
    then have "union_loop k parts = parts" by (simp add: union_loop.simps [of k parts])
    with False 1 show ?thesis by (intro exI [of _ ts]) simp
  next
    case True
    have "\<exists>t. union_chunk (map render c) = render t \<and> leaves t = concat (map leaves c) \<and> width_ok k t"
      if "c \<in> set (chunks k ts)" for c
    proof (rule union_chunk_tree)
      have "set c \<subseteq> set (concat (chunks k ts))" using that by auto
      also have "concat (chunks k ts) = ts" using assms by (simp add: concat_chunks)
      finally show "list_all (width_ok k) c" using 1(3) by (auto simp: list_all_iff)
    qed (use chunks_nonempty [OF that] in auto)
    then obtain g where g: "\<And>c. c \<in> set (chunks k ts) \<Longrightarrow>
        union_chunk (map render c) = render (g c) \<and> leaves (g c) = concat (map leaves c) \<and> width_ok k (g c)"
      by metis
    have eq: "map union_chunk (chunks k parts) = map render (map g (chunks k ts))"
      using g by (simp add: 1(4) chunks_map)
    have "concat (map leaves (map g (chunks k ts))) = concat (map leaves (concat (chunks k ts)))"
      by (rule leaves_concat) (use g in blast)
    also have "\<dots> = concat (map leaves ts)" using assms by (simp add: concat_chunks)
    finally have lv: "concat (map leaves (map g (chunks k ts))) = concat (map leaves ts)" .
    have "list_all (width_ok k) (map g (chunks k ts))" using g by (simp add: list_all_iff)
    from 1(1) [OF _ assms this eq] True assms lv show ?thesis
      by (simp add: union_loop.simps [of k parts] eq)
  qed
qed

section \<open>Properties\<close>

text \<open>
  C33. A SQL text literal cannot be broken out of: whatever bytes a string holds, quotes and NULs
  included, SQL reads exactly that string back from the literal \<^verbatim>\<open>quote_str\<close> writes, and the rest of
  the statement starts right behind it.
\<close>

theorem quote_str_roundtrip:
  assumes "case rest of [] \<Rightarrow> True | c # _ \<Rightarrow> c \<noteq> CHR 0x27"
  shows "quote_str out s = out @ sql_str s \<and> read_sql_text (sql_str s @ rest) = Some (s, rest)"
  using read_sql_text_str [OF assms] by (simp add: sql_str_def quote_str_def)

theorem quote_str_roundtrip_witness:
  "read_sql_text (sql_str ''it's'' @ '', 1)'') = Some (''it's'', '', 1)'')"
  using quote_str_roundtrip [of "'', 1)''" "[]" "''it's''"] by simp

text \<open>
  C34. \<^verbatim>\<open>union_all\<close> terminates and respects the backend's limit: the statement is a tree of unions with
  the given selects as its leaves, in order, and no union in it has more than \<^verbatim>\<open>max(max_terms, 2)\<close> terms.
\<close>

theorem union_all_tree:
  "\<exists>ts. union_all parts m = join '' UNION ALL '' (map render ts) \<and> concat (map leaves ts) = parts \<and>
     length ts \<le> max m 2 \<and> list_all (width_ok (max m 2)) ts"
proof -
  have "concat (map leaves (map Select parts)) = parts" by (induction parts) auto
  moreover have "list_all (width_ok (max m 2)) (map Select parts)" by (simp add: list_all_iff)
  ultimately show ?thesis
    using union_loop_tree [of "max m 2" "map Select parts" parts] by (force simp: union_all_def comp_def)
qed

text \<open>
  Ids survive a backend that cannot carry 64-bit integers: the text of an id reads back as that id,
  for every id.
\<close>

theorem id_as_text_roundtrip: "as_i64 (SqlText (show_int (sint i))) = Some i \<and> as_i64 (SqlInteger i) = Some i"
proof -
  have "i64_min \<le> sint i" "sint i \<le> i64_max" using sint_ge [of i] sint_lt [of i] by simp_all
  then show ?thesis by (simp add: as_i64_def)
qed

end
