(* ===== verification/Job.thy ===== *)
theory Job
  imports Sql "HOL-Library.Monad_Syntax"
begin

text \<open>
  The execution model without I/O (\<^verbatim>\<open>job.rs\<close> of the core): jobs as step machines, the driver loop
  \<^verbatim>\<open>run_sync\<close>, and the jobs \<^verbatim>\<open>OneShot\<close>, \<^verbatim>\<open>Sequence\<close> and \<^verbatim>\<open>Then\<close>. \<^verbatim>\<open>run_async\<close> is the same loop
  with an awaited backend.

  A step returns \<^const>\<open>None\<close> where the code panics. A backend is a function on its own state. The driver
  loop may run forever, so it is a partial function whose value is \<^const>\<open>None\<close> when it does (or when
  a step panics); the locale \<open>job\<close> states what makes it return.
\<close>

section \<open>Jobs and the driver\<close>

datatype 'o job_step = Execute request | Done 'o

type_synonym ('s, 'o) stepper = "'s \<Rightarrow> response option \<Rightarrow> (error + 's \<times> 'o job_step) option"
type_synonym 'b backend = "'b \<Rightarrow> request \<Rightarrow> 'b \<times> (error + response)"

partial_function (option) run_sync ::
  "'b backend \<Rightarrow> ('s, 'o) stepper \<Rightarrow> 's \<Rightarrow> response option \<Rightarrow> 'b \<Rightarrow> ('b \<times> (error + 'o)) option" where
  "run_sync ex step s r b =
     Option.bind (step s r) (\<lambda>res.
       case res of
         Inl e \<Rightarrow> Some (b, Inl e)
       | Inr (s', Done out) \<Rightarrow> Some (b, Inr out)
       | Inr (s', Execute rq) \<Rightarrow>
           (case ex b rq of
              (b', Inl e) \<Rightarrow> Some (b', Inl e)
            | (b', Inr resp) \<Rightarrow> run_sync ex step s' (Some resp) b'))"

record one_shot =
  os_request :: "request option"
  os_decode :: bool

definition one_shot_new :: "request \<Rightarrow> one_shot" where
  "one_shot_new rq = \<lparr>os_request = Some rq, os_decode = True\<rparr>"

definition one_shot_step :: "(response \<Rightarrow> error + 'o) \<Rightarrow> (one_shot, 'o) stepper" where
  "one_shot_step decode s r =
     (case r of
        None \<Rightarrow>
          (case os_request s of
             None \<Rightarrow> None
           | Some rq \<Rightarrow> Some (Inr (s\<lparr>os_request := None\<rparr>, Execute rq)))
      | Some resp \<Rightarrow>
          if os_decode s
          then Some (rbind (decode resp) (\<lambda>out. Inr (s\<lparr>os_decode := False\<rparr>, Done out)))
          else None)"

record sequence_job =
  sq_requests :: "request list"
  sq_changes :: nat

definition sequence_new :: "request list \<Rightarrow> sequence_job" where
  "sequence_new rqs = \<lparr>sq_requests = rqs, sq_changes = 0\<rparr>"

definition sequence_step :: "(sequence_job, nat) stepper" where
  "sequence_step s r =
     (let changes = sq_changes s + (case r of None \<Rightarrow> 0 | Some resp \<Rightarrow> sum_list (map rs_changes resp))
      in Some (Inr (case sq_requests s of
           rq # rqs \<Rightarrow> (\<lparr>sq_requests = rqs, sq_changes = changes\<rparr>, Execute rq)
         | [] \<Rightarrow> (\<lparr>sq_requests = [], sq_changes = changes\<rparr>, Done changes))))"

record ('a, 'b) then_job =
  th_first :: 'a
  th_next :: bool
  th_second :: "'b option"

definition then_new :: "'a \<Rightarrow> ('a, 'b) then_job" where
  "then_new a = \<lparr>th_first = a, th_next = True, th_second = None\<rparr>"

definition lift_second ::
  "('a, 'b) then_job \<Rightarrow> (error + 'b \<times> 'o job_step) option \<Rightarrow> (error + ('a, 'b) then_job \<times> 'o job_step) option" where
  "lift_second s res =
     map_option (\<lambda>x. rbind x (\<lambda>(b', st). Inr (s\<lparr>th_second := Some b'\<rparr>, st))) res"

definition then_step ::
  "('a, 'x) stepper \<Rightarrow> ('x \<Rightarrow> error + 'b) \<Rightarrow> ('b, 'o) stepper \<Rightarrow> (('a, 'b) then_job, 'o) stepper" where
  "then_step stepA mk stepB s r =
     (case th_second s of
        Some b \<Rightarrow> lift_second s (stepB b r)
      | None \<Rightarrow>
          Option.bind (stepA (th_first s) r) (\<lambda>res.
            case res of
              Inl e \<Rightarrow> Some (Inl e)
            | Inr (a', Execute rq) \<Rightarrow> Some (Inr (s\<lparr>th_first := a'\<rparr>, Execute rq))
            | Inr (a', Done out) \<Rightarrow>
                if th_next s
                then (case mk out of
                        Inl e \<Rightarrow> Some (Inl e)
                      | Inr b \<Rightarrow> lift_second (s\<lparr>th_first := a', th_next := False\<rparr>) (stepB b None))
                else None))"

section \<open>The contract of a job\<close>

text \<open>
  \<open>inv s r\<close> says when a step may be taken in state \<open>s\<close> with the response \<open>r\<close>; \<open>resp_ok s rq resp\<close> which
  responses the job may be resumed with after it asked for \<open>rq\<close>; \<open>size\<close> bounds the requests still to come.
\<close>

locale job =
  fixes step :: "('s, 'o) stepper"
    and inv :: "'s \<Rightarrow> response option \<Rightarrow> bool"
    and resp_ok :: "'s \<Rightarrow> request \<Rightarrow> response \<Rightarrow> bool"
    and size :: "'s \<Rightarrow> response option \<Rightarrow> nat"
  assumes no_panic: "inv s r \<Longrightarrow> step s r \<noteq> None"
    and progress: "inv s r \<Longrightarrow> step s r = Some (Inr (s', Execute rq)) \<Longrightarrow> resp_ok s' rq resp \<Longrightarrow>
      inv s' (Some resp) \<and> size s' (Some resp) < size s r"
begin

lemma run_returns:
  assumes ex: "\<And>b b' s rq resp. ex b rq = (b', Inr resp) \<Longrightarrow> resp_ok s rq resp"
  shows "inv s r \<Longrightarrow> \<exists>res. run_sync ex step s r b = Some res"
proof (induction "size s r" arbitrary: s r b rule: less_induct)
  case less
  obtain res where res: "step s r = Some res" using no_panic [OF less.prems] by auto
  show ?case
  proof (cases res)
    case (Inl e)
    with res show ?thesis by (simp add: run_sync.simps [of ex step s r b])
  next
    case (Inr p)
    obtain s' st where p: "p = (s', st)" by force
    show ?thesis
    proof (cases st)
      case (Done out)
      with res Inr p show ?thesis by (simp add: run_sync.simps [of ex step s r b])
    next
      case (Execute rq)
      obtain b' a where e: "ex b rq = (b', a)" by force
      show ?thesis
      proof (cases a)
        case (Inl e')
        with res Inr p Execute e show ?thesis by (simp add: run_sync.simps [of ex step s r b])
      next
        case (Inr resp)
        with e ex have "resp_ok s' rq resp" by blast
        from progress [OF less.prems _ this] res \<open>res = _\<close> p Execute
        have "inv s' (Some resp)" "size s' (Some resp) < size s r" by auto
        with less.hyps [of s' "Some resp" b'] res \<open>res = _\<close> p Execute e Inr show ?thesis
          by (simp add: run_sync.simps [of ex step s r b])
      qed
    qed
  qed
qed

end

interpretation one_shot: job "one_shot_step decode"
  "\<lambda>s r. (case r of None \<Rightarrow> os_request s \<noteq> None \<and> os_decode s | Some _ \<Rightarrow> os_decode s)"
  "\<lambda>s rq resp. True" "\<lambda>s r. (case r of None \<Rightarrow> 1 | Some _ \<Rightarrow> 0)"
proof unfold_locales
  fix s r
  show "(case r of None \<Rightarrow> os_request s \<noteq> None \<and> os_decode s | Some _ \<Rightarrow> os_decode s) \<Longrightarrow>
    one_shot_step decode s r \<noteq> None"
    by (auto simp: one_shot_step_def split: option.splits)
next
  fix s :: one_shot and r s' rq resp
  show "(case r of None \<Rightarrow> os_request s \<noteq> None \<and> os_decode s | Some _ \<Rightarrow> os_decode s) \<Longrightarrow>
    one_shot_step decode s r = Some (Inr (s', Execute rq)) \<Longrightarrow> True \<Longrightarrow>
    (case Some resp of None \<Rightarrow> os_request s' \<noteq> None \<and> os_decode s' | Some _ \<Rightarrow> os_decode s') \<and>
    (case Some resp of None \<Rightarrow> 1 | Some _ \<Rightarrow> 0) < (case r of None \<Rightarrow> 1 | Some _ \<Rightarrow> (0 :: nat))"
    by (auto simp: one_shot_step_def rbind_Inr_iff split: option.splits if_splits)
qed

interpretation sequence: job sequence_step "\<lambda>s r. True" "\<lambda>s rq resp. True" "\<lambda>s r. length (sq_requests s)"
  by unfold_locales (auto simp: sequence_step_def Let_def split: list.splits)

section \<open>Sequential composition\<close>

text \<open>One iteration of the driver, for both directions of the equations below.\<close>

definition drive :: "('s \<Rightarrow> response option \<Rightarrow> 'b \<Rightarrow> ('b \<times> (error + 'o)) option) \<Rightarrow> 'b backend \<Rightarrow>
    (error + 's \<times> 'o job_step) option \<Rightarrow> 'b \<Rightarrow> ('b \<times> (error + 'o)) option" where
  "drive run ex m b =
     Option.bind m (\<lambda>res.
       case res of
         Inl e \<Rightarrow> Some (b, Inl e)
       | Inr (s', Done out) \<Rightarrow> Some (b, Inr out)
       | Inr (s', Execute rq) \<Rightarrow>
           (case ex b rq of (b', Inl e) \<Rightarrow> Some (b', Inl e) | (b', Inr resp) \<Rightarrow> run s' (Some resp) b'))"

lemma run_sync_drive: "run_sync ex step s r b = drive (run_sync ex step) ex (step s r) b"
  by (subst run_sync.simps) (simp add: drive_def)

lemma run_sync_induct [consumes 1, case_names iter]:
  assumes "run_sync ex step s r b = Some y"
    and "\<And>run s r b y. (\<And>s r b y. run s r b = Some y \<Longrightarrow> P s r b y) \<Longrightarrow> drive run ex (step s r) b = Some y \<Longrightarrow> P s r b y"
  shows "P s r b y"
proof -
  let ?P = "\<lambda>ex' step' s r b y. ex' = ex \<longrightarrow> step' = step \<longrightarrow> P s r b y"
  have "?P ex step s r b y"
  proof (rule run_sync.raw_induct [where P = ?P, OF _ assms(1)])
    fix run ex' step' s r b y
    assume IH: "\<And>ex' step' s r b y. run ex' step' s r b = Some y \<Longrightarrow> ?P ex' step' s r b y"
      and eq: "Option.bind (step' s r) (\<lambda>res. case res of Inl e \<Rightarrow> Some (b, Inl e)
          | Inr (s', Execute rq) \<Rightarrow>
              (case ex' b rq of (b', Inl e) \<Rightarrow> Some (b', Inl e) | (b', Inr resp) \<Rightarrow> run ex' step' s' (Some resp) b')
          | Inr (s', Done out) \<Rightarrow> Some (b, Inr out)) = Some y"
    show "?P ex' step' s r b y"
    proof (intro impI)
      assume e: "ex' = ex" "step' = step"
      show "P s r b y"
      proof (rule assms(2) [of "run ex step"])
        show "drive (run ex step) ex (step s r) b = Some y" using eq unfolding e drive_def .
      qed (use IH in blast)
    qed
  qed
  then show ?thesis by simp
qed

lemma then_second_step:
  "th_second s = Some b \<Longrightarrow> then_step stepA mk stepB s r = lift_second s (stepB b r)"
  by (simp add: then_step_def)


lemma drive_cases:
  assumes "drive run ex m b = Some y"
  obtains (err) e where "m = Some (Inl e)" "y = (b, Inl e)"
  | (finish) s' out where "m = Some (Inr (s', Done out))" "y = (b, Inr out)"
  | (fail) s' rq b' e where "m = Some (Inr (s', Execute rq))" "ex b rq = (b', Inl e)" "y = (b', Inl e)"
  | (go) s' rq b' resp where "m = Some (Inr (s', Execute rq))" "ex b rq = (b', Inr resp)" "run s' (Some resp) b' = Some y"
proof (cases m)
  case (Some res)
  show ?thesis
  proof (cases res)
    case (Inl e)
    with Some assms err show ?thesis by (simp add: drive_def)
  next
    case (Inr p)
    obtain s' st where p: "p = (s', st)" by force
    show ?thesis
    proof (cases st)
      case (Done out)
      with Some Inr p assms finish show ?thesis by (simp add: drive_def)
    next
      case (Execute rq)
      obtain b' z where e: "ex b rq = (b', z)" by force
      with Some Inr p Execute assms fail go show ?thesis by (cases z) (auto simp: drive_def)
    qed
  qed
qed (use assms in \<open>simp add: drive_def\<close>)

lemma drive_simps [simp]:
  "drive run ex (Some (Inl e)) b = Some (b, Inl e)"
  "drive run ex (Some (Inr (s', Done out))) b = Some (b, Inr out)"
  "ex b rq = (b', Inl e) \<Longrightarrow> drive run ex (Some (Inr (s', Execute rq))) b = Some (b', Inl e)"
  "ex b rq = (b', Inr resp) \<Longrightarrow> drive run ex (Some (Inr (s', Execute rq))) b = run s' (Some resp) b'"
  by (simp_all add: drive_def)

lemma lift_second_simps [simp]:
  "lift_second s None = None" "lift_second s (Some (Inl e)) = Some (Inl e)"
  "lift_second s (Some (Inr (b, st))) = Some (Inr (s\<lparr>th_second := Some b\<rparr>, st))"
  by (simp_all add: lift_second_def)

lemma lift_second_Some:
  "lift_second s m = Some (Inl e) \<longleftrightarrow> m = Some (Inl e)"
  "lift_second s m = Some (Inr (s', st)) \<longleftrightarrow> (\<exists>b. m = Some (Inr (b, st)) \<and> s' = s\<lparr>th_second := Some b\<rparr>)"
  by (auto simp: lift_second_def rbind_Inr_iff rbind_Inl_iff)

lemma then_first_step:
  assumes "th_second s = None"
  shows "stepA (th_first s) r = None \<Longrightarrow> then_step stepA mk stepB s r = None"
    "stepA (th_first s) r = Some (Inl e) \<Longrightarrow> then_step stepA mk stepB s r = Some (Inl e)"
    "stepA (th_first s) r = Some (Inr (a, Execute rq)) \<Longrightarrow>
      then_step stepA mk stepB s r = Some (Inr (s\<lparr>th_first := a\<rparr>, Execute rq))"
    "stepA (th_first s) r = Some (Inr (a, Done out)) \<Longrightarrow> th_next s \<Longrightarrow> mk out = Inl e \<Longrightarrow>
      then_step stepA mk stepB s r = Some (Inl e)"
    "stepA (th_first s) r = Some (Inr (a, Done out)) \<Longrightarrow> th_next s \<Longrightarrow> mk out = Inr b \<Longrightarrow>
      then_step stepA mk stepB s r = lift_second (s\<lparr>th_first := a, th_next := False\<rparr>) (stepB b None)"
  using assms by (simp_all add: then_step_def)

text \<open>Once the second job runs, the composition is that job.\<close>

lemma then_second_le:
  assumes "run_sync ex stepB b r k = Some y"
  shows "run_sync ex (then_step stepA mk stepB) (s\<lparr>th_second := Some b\<rparr>) r k = Some y"
  using assms
proof (induction arbitrary: s rule: run_sync_induct)
  case (iter run b r k y)
  from iter(2) show ?case
    by (cases rule: drive_cases) (auto simp: run_sync_drive [of ex "then_step stepA mk stepB" "s\<lparr>th_second := Some b\<rparr>" r]
        then_second_step iter(1))
qed

lemma then_second_ge:
  assumes "run_sync ex (then_step stepA mk stepB) s r k = Some y"
  shows "th_second s = Some b \<Longrightarrow> run_sync ex stepB b r k = Some y"
  using assms
proof (induction arbitrary: b rule: run_sync_induct)
  case (iter run s r k y)
  from iter(2) show ?case
    unfolding then_second_step [OF iter(3)]
    by (cases rule: drive_cases) (auto simp: run_sync_drive [of ex stepB b r] lift_second_Some iter(1))
qed

lemma then_second_run:
  "run_sync ex (then_step stepA mk stepB) (s\<lparr>th_second := Some b\<rparr>) r k = run_sync ex stepB b r k"
  using then_second_le [of ex stepB b r k _ stepA mk s] then_second_ge [of ex stepA mk stepB "s\<lparr>th_second := Some b\<rparr>" r k _ b]
  by (cases "run_sync ex stepB b r k"; cases "run_sync ex (then_step stepA mk stepB) (s\<lparr>th_second := Some b\<rparr>) r k") auto

text \<open>What runs after the first job returned.\<close>

definition continue_with ::
  "'k backend \<Rightarrow> ('x \<Rightarrow> error + 'b) \<Rightarrow> ('b, 'o) stepper \<Rightarrow> 'k \<times> (error + 'x) \<Rightarrow> ('k \<times> (error + 'o)) option" where
  "continue_with ex mk stepB y =
     (case y of
        (k, Inl e) \<Rightarrow> Some (k, Inl e)
      | (k, Inr out) \<Rightarrow> (case mk out of Inl e \<Rightarrow> Some (k, Inl e) | Inr b \<Rightarrow> run_sync ex stepB b None k))"

lemma lift_second_overwrite [simp]: "lift_second (s\<lparr>th_second := b\<rparr>) m = lift_second s m"
  by (simp add: lift_second_def)

lemma then_start_second:
  "drive (run_sync ex (then_step stepA mk stepB)) ex (lift_second s (stepB b None)) k = run_sync ex stepB b None k"
proof -
  have "run_sync ex (then_step stepA mk stepB) (s\<lparr>th_second := Some b\<rparr>) None k = run_sync ex stepB b None k"
    by (rule then_second_run)
  then show ?thesis
    by (simp add: run_sync_drive [of ex "then_step stepA mk stepB" "s\<lparr>th_second := Some b\<rparr>"] then_second_step)
qed

lemma then_first_done:
  assumes "th_second s = None" "th_next s" "stepA (th_first s) r = Some (Inr (a, Done out))"
  shows "run_sync ex (then_step stepA mk stepB) s r k = continue_with ex mk stepB (k, Inr out)"
  using assms
  by (cases "mk out") (simp_all add: run_sync_drive [of ex "then_step stepA mk stepB" s] then_first_step continue_with_def
      then_start_second)

lemma then_first_le:
  assumes "run_sync ex stepA a r k = Some y"
  shows "th_second s = None \<Longrightarrow> th_next s \<Longrightarrow> th_first s = a \<Longrightarrow>
    run_sync ex (then_step stepA mk stepB) s r k = continue_with ex mk stepB y"
  using assms
proof (induction arbitrary: s rule: run_sync_induct)
  case (iter run a r k y)
  note s = iter(3-5)
  from iter(2) show ?case
  proof (cases rule: drive_cases)
    case (finish s' out)
    with then_first_done [of s stepA r s' out] s show ?thesis by simp
  next
    case (go s' rq k' resp)
    have "run_sync ex (then_step stepA mk stepB) (s\<lparr>th_first := s'\<rparr>) (Some resp) k' = continue_with ex mk stepB y"
      by (rule iter(1)) (use go s in simp_all)
    with go s show ?thesis by (simp add: run_sync_drive [of ex "then_step stepA mk stepB" s] then_first_step)
  qed (use s in \<open>simp_all add: run_sync_drive [of ex "then_step stepA mk stepB" s] then_first_step continue_with_def\<close>)
qed

lemma then_first_ge:
  assumes "run_sync ex (then_step stepA mk stepB) s r k = Some y"
  shows "th_second s = None \<Longrightarrow> th_next s \<Longrightarrow> run_sync ex stepA (th_first s) r k \<noteq> None"
  using assms
proof (induction rule: run_sync_induct)
  case (iter run s r k y)
  note s = iter(3-4)
  show ?case
  proof (cases "stepA (th_first s) r")
    case None
    with iter(2) s show ?thesis by (simp add: then_first_step drive_def)
  next
    case (Some res)
    show ?thesis
    proof (cases res)
      case (Inl e)
      with Some show ?thesis by (simp add: run_sync_drive [of ex stepA "th_first s"])
    next
      case (Inr p)
      obtain a st where p: "p = (a, st)" by force
      show ?thesis
      proof (cases st)
        case (Done out)
        with Some Inr p show ?thesis by (simp add: run_sync_drive [of ex stepA "th_first s"])
      next
        case (Execute rq)
        obtain k' z where e: "ex k rq = (k', z)" by force
        show ?thesis
        proof (cases z)
          case (Inl e')
          with Some Inr p Execute e show ?thesis by (simp add: run_sync_drive [of ex stepA "th_first s"])
        next
          case (Inr resp)
          with iter(2) Some \<open>res = _\<close> p Execute e s have "run (s\<lparr>th_first := a\<rparr>) (Some resp) k' = Some y"
            by (simp add: then_first_step)
          from iter(1) [OF this] s have "run_sync ex stepA a (Some resp) k' \<noteq> None" by simp
          with Some \<open>res = _\<close> p Execute e Inr show ?thesis by (simp add: run_sync_drive [of ex stepA "th_first s"])
        qed
      qed
    qed
  qed
qed

section \<open>Properties\<close>

fun send_all :: "'b backend \<Rightarrow> request list \<Rightarrow> nat \<Rightarrow> 'b \<Rightarrow> 'b \<times> (error + nat)" where
  "send_all ex [] n b = (b, Inr n)"
| "send_all ex (rq # rqs) n b =
     (case ex b rq of
        (b', Inl e) \<Rightarrow> (b', Inl e)
      | (b', Inr resp) \<Rightarrow> send_all ex rqs (n + sum_list (map rs_changes resp)) b')"

lemma sequence_run_from:
  "run_sync ex sequence_step \<lparr>sq_requests = rqs, sq_changes = n\<rparr> r b =
     Some (send_all ex rqs (n + (case r of None \<Rightarrow> 0 | Some resp \<Rightarrow> sum_list (map rs_changes resp))) b)"
proof (induction rqs arbitrary: n r b)
  case Nil
  show ?case by (subst run_sync.simps) (simp add: sequence_step_def Let_def)
next
  case (Cons rq rqs)
  show ?case by (subst run_sync.simps) (simp add: sequence_step_def Let_def Cons.IH split: prod.splits sum.splits)
qed

text \<open>
  A \<^verbatim>\<open>Sequence\<close> sends its requests one by one in order and stops at the first error: on a backend
  that answers, it returns the total number of changes its requests reported.
\<close>

theorem sequence_run: "run_sync ex sequence_step (sequence_new rqs) None b = Some (send_all ex rqs 0 b)"
  by (simp add: sequence_new_def sequence_run_from)

text \<open>
  \<^verbatim>\<open>OneShot\<close> sends its one request and decodes the response.
\<close>

theorem one_shot_run:
  "run_sync ex (one_shot_step decode) (one_shot_new rq) None b =
     Some (case ex b rq of (b', Inl e) \<Rightarrow> (b', Inl e) | (b', Inr resp) \<Rightarrow> (b', decode resp))"
proof -
  have "run_sync ex (one_shot_step decode) \<lparr>os_request = None, os_decode = True\<rparr> (Some resp) b' = Some (b', decode resp)"
    for resp b' by (subst run_sync.simps) (cases "decode resp"; simp add: one_shot_step_def)
  then show ?thesis
    by (subst run_sync.simps) (simp add: one_shot_step_def one_shot_new_def split: prod.splits sum.splits)
qed

text \<open>
  \<^verbatim>\<open>Then\<close> is sequential composition: running it is running the first job, building the second job
  from its output and running that, with errors of either and of the continuation passed through; it
  runs forever exactly when one of them does, and the continuation is never taken twice.
\<close>

theorem then_run:
  "run_sync ex (then_step stepA mk stepB) (then_new a) None k =
     Option.bind (run_sync ex stepA a None k) (continue_with ex mk stepB)"
proof (cases "run_sync ex stepA a None k")
  case None
  then show ?thesis
    using then_first_ge [of ex stepA mk stepB "then_new a" None k]
    by (cases "run_sync ex (then_step stepA mk stepB) (then_new a) None k") (simp_all add: then_new_def)
next
  case (Some y)
  with then_first_le [OF Some, of "then_new a" mk stepB] show ?thesis by (simp add: then_new_def)
qed

end
