(* ===== verification/Writer.thy ===== *)
theory Writer
  imports Sql
begin

text \<open>
  The write path (\<^verbatim>\<open>writer.rs\<close> of the core): quads are encoded and turned into \<^verbatim>\<open>INSERT\<close> and \<^verbatim>\<open>DELETE\<close>
  statements, split so that each stays below the backend's SQL length limit.
\<close>

section \<open>The chunker\<close>

record chunker =
  ck_prefix :: string
  ck_suffix :: string
  ck_max :: nat
  ck_current :: string
  ck_out :: "statement list"

definition chunker_new :: "string \<Rightarrow> string \<Rightarrow> nat \<Rightarrow> chunker" where
  "chunker_new prefix suffix mx =
     \<lparr>ck_prefix = prefix, ck_suffix = suffix, ck_max = mx, ck_current = [], ck_out = []\<rparr>"

definition ck_flush :: "chunker \<Rightarrow> chunker" where
  "ck_flush c =
     (if ck_current c \<noteq> []
      then c\<lparr>ck_current := [], ck_out := ck_out c @ [statement_new (ck_current c @ ck_suffix c)]\<rparr>
      else c)"

definition ck_push :: "string \<Rightarrow> chunker \<Rightarrow> chunker" where
  "ck_push tuple c0 =
     (let c = (if ck_current c0 \<noteq> [] \<and>
                  length (ck_current c0) + length tuple + length (ck_suffix c0) + 1 > ck_max c0
               then ck_flush c0 else c0);
          cur = (if ck_current c = [] then ck_prefix c else ck_current c @ '','')
      in c\<lparr>ck_current := cur @ tuple\<rparr>)"

definition ck_finish :: "chunker \<Rightarrow> statement list" where
  "ck_finish c = ck_out (ck_flush c)"

definition chunked :: "string \<Rightarrow> string \<Rightarrow> nat \<Rightarrow> string list \<Rightarrow> statement list" where
  "chunked prefix suffix mx tuples = ck_finish (fold ck_push tuples (chunker_new prefix suffix mx))"

section \<open>Statements\<close>

definition opt_str :: "string \<Rightarrow> string option \<Rightarrow> string" where
  "opt_str out v = (case v of Some s \<Rightarrow> quote_str out s | None \<Rightarrow> out @ ''NULL'')"

definition show_id :: "i64 \<Rightarrow> string" where
  "show_id i = show_int (sint i)"

definition term_tuple :: "term_row \<Rightarrow> string" where
  "term_tuple r =
     (let t1 = quote_str (''('' @ show_id (tr_id r) @ '','') (tr_lex r) @ '','';
          t2 = opt_str t1 (tr_dt r) @ '','';
          t3 = opt_str t2 (tr_lang r)
      in t3 @ '','' @ (case tr_dir r of None \<Rightarrow> ''NULL'' | Some v \<Rightarrow> show_int v)
            @ '','' @ (case tr_num r of None \<Rightarrow> ''NULL'' | Some v \<Rightarrow> sql_f64 v)
            @ '','' @ (case tr_nt r of None \<Rightarrow> ''NULL'' | Some v \<Rightarrow> show_int v)
            @ '','' @ (case tr_ts r of None \<Rightarrow> ''NULL'' | Some v \<Rightarrow> sql_f64 v) @ '')'')"

definition triple_tuple :: "triple_row \<Rightarrow> string" where
  "triple_tuple t =
     (let t1 = quote_str (''('' @ show_id (pr_id t) @ '','' @ show_id (pr_s t) @ '','' @ show_id (pr_p t)
                 @ '','' @ show_id (pr_o t) @ '','') (pr_vk t) @ '',''
      in quote_str t1 (pr_sk t) @ '')'')"

definition term_statements :: "encoded_rows \<Rightarrow> capabilities \<Rightarrow> statement list" where
  "term_statements rows caps =
     chunked ''INSERT OR IGNORE INTO terms(id, lex, dt, lang, dir, num, nt, ts) VALUES '' []
       (max_sql_len caps) (map term_tuple (er_terms rows))
     @ chunked ''INSERT OR IGNORE INTO triple_terms(id, s, p, o, vk, sk) VALUES '' []
       (max_sql_len caps) (map triple_tuple (er_triples rows))"

type_synonym quad_ids = "i64 \<times> i64 \<times> i64 \<times> i64"

fun quad_tuple :: "quad_ids \<Rightarrow> string" where
  "quad_tuple (s, p, ob, g) = ''('' @ show_id s @ '','' @ show_id p @ '','' @ show_id ob @ '','' @ show_id g @ '')''"

definition CURRENT_TICK :: string where
  "CURRENT_TICK = ''(SELECT max(t) FROM ticks)''"

definition insert_prefix :: "string \<Rightarrow> capabilities \<Rightarrow> string \<times> string" where
  "insert_prefix table caps =
     (if table = ''quads'' \<and> versioning_rank (cap_versioning caps) \<ge> versioning_rank Stamped
      then (''INSERT OR IGNORE INTO '' @ table @ ''(s, p, o, g, t) SELECT column1, column2, column3, column4, ''
              @ CURRENT_TICK @ '' FROM (VALUES '', '')'')
      else (''INSERT OR IGNORE INTO '' @ table @ ''(s, p, o, g) VALUES '', []))"

definition insert_statements_into :: "string \<Rightarrow> quad_ids list \<Rightarrow> capabilities \<Rightarrow> statement list" where
  "insert_statements_into table quads caps =
     (case insert_prefix table caps of
        (prefix, suffix) \<Rightarrow> chunked prefix suffix (max_sql_len caps) (map quad_tuple quads))"

definition quad_insert_statements :: "quad_ids list \<Rightarrow> capabilities \<Rightarrow> statement list" where
  "quad_insert_statements quads caps = insert_statements_into ''quads'' quads caps"

definition quad_delete_statements :: "quad_ids list \<Rightarrow> capabilities \<Rightarrow> statement list" where
  "quad_delete_statements quads caps =
     (case quads of
        [(s, p, ob, g)] \<Rightarrow>
          [statement_new (''DELETE FROM quads WHERE s = '' @ show_id s @ '' AND p = '' @ show_id p
             @ '' AND o = '' @ show_id ob @ '' AND g = '' @ show_id g)]
      | _ \<Rightarrow> chunked ''DELETE FROM quads WHERE (s, p, o, g) IN (VALUES '' '')'' (max_sql_len caps)
               (map quad_tuple quads))"

record encoded_quads =
  eq_rows :: encoded_rows
  eq_quads :: "quad_ids list"

definition push_quad :: "ext \<Rightarrow> quad \<Rightarrow> encoded_quads \<Rightarrow> encoded_quads" where
  "push_quad x q me =
     (case er_quad x q (eq_rows me) of (ids, rows) \<Rightarrow> \<lparr>eq_rows = rows, eq_quads = eq_quads me @ [ids]\<rparr>)"

definition encoded_quads_new :: "ext \<Rightarrow> quad list \<Rightarrow> encoded_quads" where
  "encoded_quads_new x qs =
     (let me = fold (push_quad x) qs \<lparr>eq_rows = no_rows, eq_quads = []\<rparr>
      in me\<lparr>eq_rows := dedup (eq_rows me)\<rparr>)"

definition graph_ids :: "encoded_quads \<Rightarrow> i64 list" where
  "graph_ids eq =
     dedup_by_key (\<lambda>i. i) (List.sort_key sint (filter (\<lambda>g. g \<noteq> DEFAULT_GRAPH_ID) (map (\<lambda>(s, p, ob, g). g) (eq_quads eq))))"

definition eq_insert_statements :: "encoded_quads \<Rightarrow> capabilities \<Rightarrow> statement list" where
  "eq_insert_statements eq caps =
     term_statements (eq_rows eq) caps
     @ chunked ''INSERT OR IGNORE INTO graphs(id) VALUES '' [] (max_sql_len caps)
         (map (\<lambda>i. ''('' @ show_id i @ '')'') (graph_ids eq))
     @ quad_insert_statements (eq_quads eq) caps"

definition eq_delete_statements :: "encoded_quads \<Rightarrow> capabilities \<Rightarrow> statement list" where
  "eq_delete_statements eq caps = quad_delete_statements (eq_quads eq) caps"

definition atomic_request ::
  "statement list \<Rightarrow> encoded_quads \<Rightarrow> statement list \<Rightarrow> capabilities \<Rightarrow> nat + request" where
  "atomic_request prefix quads suffix caps =
     (let s = prefix @ eq_insert_statements quads caps @ suffix
      in if length s > max_statements caps then Inl (length s) else Inr (request_atomic s))"

section \<open>What the chunker writes\<close>

text \<open>
  \<open>ck_inv tss ts c\<close>: the groups \<open>tss\<close> were flushed as statements, the group \<open>ts\<close> is being written.
\<close>

definition group_sql :: "string \<Rightarrow> string \<Rightarrow> string list \<Rightarrow> string" where
  "group_sql prefix suffix ts = prefix @ join '','' ts @ suffix"

definition ck_inv :: "string list list \<Rightarrow> string list \<Rightarrow> chunker \<Rightarrow> bool" where
  "ck_inv tss ts c \<longleftrightarrow>
     ck_out c = map (\<lambda>g. statement_new (group_sql (ck_prefix c) (ck_suffix c) g)) tss \<and> [] \<notin> set tss \<and>
     ck_current c = (if ts = [] then [] else ck_prefix c @ join '','' ts)"

lemma join_snoc: "ts \<noteq> [] \<Longrightarrow> join sep (ts @ [t]) = join sep ts @ sep @ t"
proof (induction ts)
  case (Cons a ts)
  then show ?case by (cases ts) auto
qed simp

lemma ck_inv_flush:
  assumes "ck_inv tss ts c" "ck_prefix c \<noteq> []"
  shows "ck_inv (if ts = [] then tss else tss @ [ts]) [] (ck_flush c)" "ck_prefix (ck_flush c) = ck_prefix c"
    "ck_suffix (ck_flush c) = ck_suffix c" "ck_max (ck_flush c) = ck_max c"
  using assms by (auto simp: ck_inv_def ck_flush_def group_sql_def)

lemma ck_push_fields [simp]:
  "ck_prefix (ck_push t c) = ck_prefix c" "ck_suffix (ck_push t c) = ck_suffix c" "ck_max (ck_push t c) = ck_max c"
  by (simp_all add: ck_push_def Let_def ck_flush_def)

definition fits :: "chunker \<Rightarrow> string list \<Rightarrow> bool" where
  "fits c ts \<longleftrightarrow> length (group_sql (ck_prefix c) (ck_suffix c) ts) \<le> ck_max c"

lemma ck_inv_push:
  assumes inv: "ck_inv tss ts c" and pre: "ck_prefix c \<noteq> []"
    and len: "length (ck_prefix c) + length t + length (ck_suffix c) \<le> ck_max c"
    and ok: "\<forall>g \<in> set tss. fits c g" "ts \<noteq> [] \<Longrightarrow> fits c ts"
  shows "\<exists>tss' ts'. ck_inv tss' ts' (ck_push t c) \<and> concat tss' @ ts' = concat tss @ ts @ [t] \<and>
    (\<forall>g \<in> set tss'. fits c g) \<and> ts' \<noteq> [] \<and> fits c ts'"
proof (cases "ts \<noteq> [] \<and> length (ck_current c) + length t + length (ck_suffix c) + 1 > ck_max c")
  case True
  let ?c = "ck_flush c"
  have f: "ck_inv (tss @ [ts]) [] ?c" using ck_inv_flush(1) [OF inv pre] True by simp
  have cur: "ck_current c \<noteq> []" using inv True pre by (simp add: ck_inv_def)
  then have "ck_push t c = ?c\<lparr>ck_current := ck_prefix c @ t\<rparr>"
    using True ck_inv_flush(2) [OF inv pre] f by (simp add: ck_push_def Let_def ck_inv_def)
  then have "ck_inv (tss @ [ts]) [t] (ck_push t c)"
    using f ck_inv_flush(2,3) [OF inv pre] by (simp add: ck_inv_def)
  moreover have "fits c [t]" using len by (simp add: fits_def group_sql_def)
  ultimately show ?thesis using ok True by (intro exI [of _ "tss @ [ts]"] exI [of _ "[t]"]) auto
next
  case False
  have cur: "ck_current c = [] \<longleftrightarrow> ts = []" using inv pre by (auto simp: ck_inv_def)
  then have "ck_push t c = c\<lparr>ck_current := (if ts = [] then ck_prefix c else ck_current c @ '','') @ t\<rparr>"
    using False by (auto simp: ck_push_def Let_def)
  then have "ck_inv tss (ts @ [t]) (ck_push t c)"
    using inv by (cases "ts = []") (auto simp: ck_inv_def join_snoc)
  moreover have "fits c (ts @ [t])"
  proof (cases "ts = []")
    case False
    then have "length (ck_current c) = length (ck_prefix c) + length (join '','' ts)" using inv by (simp add: ck_inv_def)
    with False \<open>\<not> (ts \<noteq> [] \<and> _)\<close> show ?thesis by (simp add: fits_def group_sql_def join_snoc)
  qed (use len in \<open>simp add: fits_def group_sql_def\<close>)
  ultimately show ?thesis using ok by (intro exI [of _ tss] exI [of _ "ts @ [t]"]) auto
qed

lemma ck_inv_pushes:
  assumes "ck_prefix c \<noteq> []" "\<forall>t \<in> set us. length (ck_prefix c) + length t + length (ck_suffix c) \<le> ck_max c"
    and "ck_inv tss ts c" "\<forall>g \<in> set tss. fits c g" "ts \<noteq> [] \<Longrightarrow> fits c ts"
  shows "\<exists>tss' ts'. ck_inv tss' ts' (fold ck_push us c) \<and> concat tss' @ ts' = concat tss @ ts @ us \<and>
    (\<forall>g \<in> set tss'. fits c g) \<and> (ts' \<noteq> [] \<longrightarrow> fits c ts')"
  using assms
proof (induction us arbitrary: c tss ts)
  case Nil
  then show ?case by auto
next
  case (Cons u us)
  have same: "fits (ck_push u c) = fits c" by (simp add: fits_def fun_eq_iff)
  obtain tss1 ts1 where 1: "ck_inv tss1 ts1 (ck_push u c)" "concat tss1 @ ts1 = concat tss @ ts @ [u]"
    "\<forall>g \<in> set tss1. fits c g" "ts1 \<noteq> []" "fits c ts1"
    using ck_inv_push [OF Cons.prems(3,1) _ Cons.prems(4,5), of u] Cons.prems(2) by auto
  from Cons.IH [of "ck_push u c" tss1 ts1] Cons.prems 1 same
  obtain tss2 ts2 where "ck_inv tss2 ts2 (fold ck_push us (ck_push u c))" "concat tss2 @ ts2 = concat tss1 @ ts1 @ us"
    "\<forall>g \<in> set tss2. fits c g" "ts2 \<noteq> [] \<longrightarrow> fits c ts2" by auto
  with 1(2) show ?case by (intro exI [of _ tss2] exI [of _ ts2]) (simp add: append_assoc [symmetric] del: append_assoc)
qed

lemma fold_push_fields [simp]:
  "ck_prefix (fold ck_push us c) = ck_prefix c" "ck_suffix (fold ck_push us c) = ck_suffix c"
  "ck_max (fold ck_push us c) = ck_max c"
  by (induction us arbitrary: c) simp_all

text \<open>The statements hold the tuples in order, each once, and stay below the limit.\<close>

lemma chunked_groups:
  assumes "prefix \<noteq> []" "\<forall>t \<in> set us. length prefix + length t + length suffix \<le> mx"
  obtains gs where "chunked prefix suffix mx us = map (\<lambda>g. statement_new (group_sql prefix suffix g)) gs"
    "concat gs = us" "[] \<notin> set gs" "\<forall>s \<in> set (chunked prefix suffix mx us). length (st_sql s) \<le> mx"
proof -
  let ?c = "chunker_new prefix suffix mx"
  have f: "ck_prefix ?c = prefix" "ck_suffix ?c = suffix" "ck_max ?c = mx" by (simp_all add: chunker_new_def)
  have "ck_inv [] [] ?c" by (simp add: ck_inv_def chunker_new_def)
  from ck_inv_pushes [OF _ _ this, of us] obtain tss ts where
    i: "ck_inv tss ts (fold ck_push us ?c)" "concat tss @ ts = us" "\<forall>g \<in> set tss. fits ?c g" "ts \<noteq> [] \<longrightarrow> fits ?c ts"
    using assms f by auto
  let ?gs = "if ts = [] then tss else tss @ [ts]"
  have fl: "ck_inv ?gs [] (ck_flush (fold ck_push us ?c))" using ck_inv_flush(1) [OF i(1)] assms f by simp
  then have out: "chunked prefix suffix mx us = map (\<lambda>g. statement_new (group_sql prefix suffix g)) ?gs"
    using ck_inv_flush(2,3) [OF i(1)] assms f by (simp add: ck_inv_def chunked_def ck_finish_def)
  moreover have "concat ?gs = us" using i(2) by auto
  moreover have "[] \<notin> set ?gs" using fl by (simp add: ck_inv_def)
  moreover have "\<forall>s \<in> set (chunked prefix suffix mx us). length (st_sql s) \<le> mx"
    unfolding out using i(3,4) f by (auto simp: fits_def statement_new_def)
  ultimately show thesis by (rule that)
qed

section \<open>Properties\<close>

lemma length_show_id: "length (show_id i) \<le> 20"
proof -
  have "- (2 ^ 63) \<le> sint i" "sint i < 2 ^ 63" using sint_ge [of i] sint_lt [of i] by simp_all
  then have b: "nat (- sint i) < 10 ^ 19" "nat (sint i) < 10 ^ 19" by (simp_all add: nat_less_iff)
  have "length (show_nat (nat (- sint i))) \<le> 19" "length (show_nat (nat (sint i))) \<le> 19"
    by (rule length_show_nat_le; use b in simp)+
  then show ?thesis by (simp add: show_id_def show_int_def)
qed

lemma length_quad_tuple: "length (quad_tuple q) \<le> 85"
proof (cases q)
  case (fields a b c d)
  have "length (show_id a) \<le> 20" "length (show_id b) \<le> 20" "length (show_id c) \<le> 20" "length (show_id d) \<le> 20"
    by (rule length_show_id)+
  then show ?thesis by (simp add: fields)
qed

text \<open>
  Splitting loses nothing and respects the limit: when every tuple fits with its prefix and suffix, the
  statements are the prefix, a group of tuples and the suffix, the groups concatenate to the tuples in
  order, no statement is empty, and none is longer than the limit.
\<close>

theorem chunked_statements:
  assumes "prefix \<noteq> []" "\<forall>t \<in> set us. length prefix + length t + length suffix \<le> mx"
  shows "\<exists>gs. chunked prefix suffix mx us = map (\<lambda>g. statement_new (prefix @ join '','' g @ suffix)) gs \<and>
    concat gs = us \<and> [] \<notin> set gs \<and> (\<forall>s \<in> set (chunked prefix suffix mx us). length (st_sql s) \<le> mx)"
  using chunked_groups [OF assms] unfolding group_sql_def by metis

theorem chunked_statements_witness:
  "\<exists>gs. chunked ''I '' [] 8 [''(1)'', ''(2)'', ''(3)''] = map (\<lambda>g. statement_new (''I '' @ join '','' g)) gs \<and>
    concat gs = [''(1)'', ''(2)'', ''(3)'']"
proof -
  have "\<forall>t \<in> set [''(1)'', ''(2)'', ''(3)'']. length ''I '' + length t + length ([] :: string) \<le> 8" by simp
  from chunked_statements [OF _ this] show ?thesis by auto
qed

text \<open>
  C35. On every backend whose statements may be 300 bytes long, the statements that insert or delete
  quads are below the limit and carry all the quads, in order, whatever the ids are; a versioned store's
  inserts included.
\<close>

theorem quad_statements_bounded:
  assumes "300 \<le> max_sql_len caps"
  shows "(\<forall>s \<in> set (quad_insert_statements qs caps @ quad_delete_statements qs caps).
      length (st_sql s) \<le> max_sql_len caps) \<and>
    (\<exists>prefix suffix gs. quad_insert_statements qs caps = map (\<lambda>g. statement_new (prefix @ join '','' g @ suffix)) gs \<and>
      concat gs = map quad_tuple qs)"
proof -
  obtain pre suf where i: "insert_prefix ''quads'' caps = (pre, suf)" by force
  then have ps: "pre \<noteq> []" "length pre + 85 + length suf \<le> 300"
    by (auto simp: insert_prefix_def CURRENT_TICK_def split: if_splits)
  have "\<forall>t \<in> set (map quad_tuple qs). length pre + length t + length suf \<le> max_sql_len caps"
  proof
    fix t assume "t \<in> set (map quad_tuple qs)"
    then have "length t \<le> 85" using length_quad_tuple by auto
    with assms ps(2) show "length pre + length t + length suf \<le> max_sql_len caps" by linarith
  qed
  note fit = this
  have qi: "quad_insert_statements qs caps = chunked pre suf (max_sql_len caps) (map quad_tuple qs)"
    by (simp add: quad_insert_statements_def insert_statements_into_def i)
  obtain gs where gs:
    "quad_insert_statements qs caps = map (\<lambda>g. statement_new (group_sql pre suf g)) gs" "concat gs = map quad_tuple qs"
    "\<forall>s \<in> set (quad_insert_statements qs caps). length (st_sql s) \<le> max_sql_len caps"
    by (rule chunked_groups [OF ps(1) fit]) (rule that [unfolded qi])
  have "\<forall>s \<in> set (quad_delete_statements qs caps). length (st_sql s) \<le> max_sql_len caps"
  proof -
    let ?d = "''DELETE FROM quads WHERE (s, p, o, g) IN (VALUES ''"
    have "\<forall>t \<in> set (map quad_tuple qs). length ?d + length t + length '')'' \<le> max_sql_len caps"
    proof
      fix t assume "t \<in> set (map quad_tuple qs)"
      then have "length t \<le> 85" using length_quad_tuple by auto
      with assms show "length ?d + length t + length '')'' \<le> max_sql_len caps" by simp
    qed
    note fit = this
    have "?d \<noteq> []" by simp
    from chunked_groups [OF this fit]
    have many: "\<forall>s \<in> set (chunked ?d '')'' (max_sql_len caps) (map quad_tuple qs)). length (st_sql s) \<le> max_sql_len caps"
      by assumption
    have "length (st_sql (statement_new (''DELETE FROM quads WHERE s = '' @ show_id a @ '' AND p = '' @ show_id b
             @ '' AND o = '' @ show_id c @ '' AND g = '' @ show_id d))) \<le> max_sql_len caps" for a b c d
      using length_show_id [of a] length_show_id [of b] length_show_id [of c] length_show_id [of d] assms
      by (simp add: statement_new_def)
    with many show ?thesis by (auto simp: quad_delete_statements_def split: list.splits)
  qed
  with gs show ?thesis unfolding group_sql_def by (metis UnE set_append)
qed

theorem quad_statements_bounded_witness:
  "list_all (\<lambda>s. length (st_sql s) \<le> 90000) (quad_insert_statements [(1, 2, 3, 0)] caps_d1)"
  using quad_statements_bounded [of caps_d1 "[(1, 2, 3, 0)]"] by (simp add: caps_d1_def list_all_iff)

text \<open>
  An atomic write is one request with all its statements in order, or is refused with their number
  when they are more than the backend takes: it is never split.
\<close>

theorem atomic_request_whole:
  "case atomic_request pre quads suf caps of
     Inr r \<Rightarrow> rq_mode r = Atomic \<and> rq_statements r = pre @ eq_insert_statements quads caps @ suf \<and>
       length (rq_statements r) \<le> max_statements caps
   | Inl n \<Rightarrow> n = length (pre @ eq_insert_statements quads caps @ suf) \<and> max_statements caps < n"
  by (simp add: atomic_request_def request_atomic_def Let_def)

end
