(* ===== verification/Resolve.thy ===== *)
theory Resolve
  imports Job Writer
begin

text \<open>
  Batched id to term resolution (\<^verbatim>\<open>resolve.rs\<close> of the core). The hash maps of the resolver are a map
  (\<open>rv_known\<close>) and an association list with distinct keys (\<open>rv_triples\<close>, iterated in list order: the
  result of \<^verbatim>\<open>assemble\<close> does not depend on it); the ordered set of pending ids is a list sorted by the
  signed value of the ids.
\<close>

datatype lookup = LTerms | LTriples

type_synonym parts = "i64 \<times> i64 \<times> i64"

record resolver =
  rv_known :: "i64 \<rightharpoonup> rdf_term"
  rv_pending :: "i64 list"
  rv_triples :: "(i64 \<times> parts) list"
  rv_in_flight :: "lookup list"

abbreviation CHUNK :: nat where "CHUNK \<equiv> 400"

definition with_constants :: "(i64 \<rightharpoonup> rdf_term) \<Rightarrow> resolver" where
  "with_constants constants = \<lparr>rv_known = constants, rv_pending = [], rv_triples = [], rv_in_flight = []\<rparr>"

definition want :: "i64 \<Rightarrow> resolver \<Rightarrow> resolver" where
  "want i r =
     (if i = DEFAULT_GRAPH_ID \<or> rv_known r i \<noteq> None \<or> i \<in> fst ` set (rv_triples r) then r
      else (case decode_inline i of
              Some t \<Rightarrow> r\<lparr>rv_known := (rv_known r)(i \<mapsto> t)\<rparr>
            | None \<Rightarrow> r\<lparr>rv_pending := insort_insert_key sint i (rv_pending r)\<rparr>))"

definition id_col :: "capabilities \<Rightarrow> string \<Rightarrow> string" where
  "id_col caps c = (if int64_as_text caps then ''CAST('' @ c @ '' AS TEXT)'' else c)"

definition join_ids :: "i64 list \<Rightarrow> string" where
  "join_ids ids = join '','' (map (\<lambda>i. show_int (sint i)) ids)"

definition terms_query :: "capabilities \<Rightarrow> i64 list \<Rightarrow> statement" where
  "terms_query caps ids = statement_new (''SELECT '' @ id_col caps ''id''
     @ '', lex, dt, lang, dir FROM terms WHERE id IN ('' @ join_ids ids @ '')'')"

definition triples_query :: "capabilities \<Rightarrow> i64 list \<Rightarrow> statement" where
  "triples_query caps ids = statement_new (''SELECT '' @ id_col caps ''id'' @ '', '' @ id_col caps ''s''
     @ '', '' @ id_col caps ''p'' @ '', '' @ id_col caps ''o''
     @ '' FROM triple_terms WHERE id IN ('' @ join_ids ids @ '')'')"

text \<open>The groups of ids the next request looks up, with the table each is looked up in.\<close>

definition groups :: "resolver \<Rightarrow> (lookup \<times> i64 list) list" where
  "groups r =
     map (Pair LTerms) (chunks CHUNK (filter (\<lambda>i. tag_of i \<noteq> Some TagTriple) (rv_pending r)))
     @ map (Pair LTriples) (chunks CHUNK (filter (\<lambda>i. tag_of i = Some TagTriple) (rv_pending r)))"

definition request :: "capabilities \<Rightarrow> resolver \<Rightarrow> request option \<times> resolver" where
  "request caps r =
     (if rv_pending r = [] then (None, r)
      else (Some (request_read (map (\<lambda>(k, ids). case k of LTerms \<Rightarrow> terms_query caps ids
                                                  | LTriples \<Rightarrow> triples_query caps ids) (groups r))),
            r\<lparr>rv_pending := [], rv_in_flight := map fst (groups r)\<rparr>))"

definition hm_insert :: "'k \<Rightarrow> 'v \<Rightarrow> ('k \<times> 'v) list \<Rightarrow> ('k \<times> 'v) list" where
  "hm_insert k v m = filter (\<lambda>e. fst e \<noteq> k) m @ [(k, v)]"

definition cell_text :: "sql_value list \<Rightarrow> nat \<Rightarrow> string option" where
  "cell_text row i = (case get_nth row i of None \<Rightarrow> None | Some v \<Rightarrow> into_string v)"

definition absorb_term :: "i64 \<Rightarrow> sql_value list \<Rightarrow> resolver \<Rightarrow> error + resolver" where
  "absorb_term i row r =
     (let lx = (case cell_text row 1 of Some s \<Rightarrow> s | None \<Rightarrow> []);
          dt = cell_text row 2;
          lang = cell_text row 3;
          dir = (case get_nth row 4 of None \<Rightarrow> None | Some v \<Rightarrow> map_option sint (as_i64 v))
      in rbind (decode_row i lx dt lang dir) (\<lambda>t. Inr (r\<lparr>rv_known := (rv_known r)(i \<mapsto> t)\<rparr>)))"

definition id_cell :: "string \<Rightarrow> sql_value list \<Rightarrow> nat \<Rightarrow> error + i64" where
  "id_cell msg row i = rbind (col row i) (\<lambda>v. ok_or (Corrupted msg) (as_i64 v))"

definition absorb_triple :: "i64 \<Rightarrow> sql_value list \<Rightarrow> resolver \<Rightarrow> error + resolver" where
  "absorb_triple i row r =
     rbind (id_cell ''bad triple term row'' row 1) (\<lambda>s.
     rbind (id_cell ''bad triple term row'' row 2) (\<lambda>p.
     rbind (id_cell ''bad triple term row'' row 3) (\<lambda>ob.
       Inr (want ob (want p (want s (r\<lparr>rv_triples := hm_insert i (s, p, ob) (rv_triples r)\<rparr>)))))))"

definition absorb_row :: "lookup \<Rightarrow> sql_value list \<Rightarrow> resolver \<Rightarrow> error + resolver" where
  "absorb_row kind row r =
     rbind (id_cell ''bad id in lookup'' row 0) (\<lambda>i.
       case kind of LTerms \<Rightarrow> absorb_term i row r | LTriples \<Rightarrow> absorb_triple i row r)"

fun absorb_rows :: "(lookup \<times> sql_value list) list \<Rightarrow> resolver \<Rightarrow> error + resolver" where
  "absorb_rows [] r = Inr r"
| "absorb_rows ((k, row) # rows) r = rbind (absorb_row k row r) (absorb_rows rows)"

definition ready :: "resolver \<Rightarrow> i64 list" where
  "ready r = map fst (filter (\<lambda>(i, (s, p, ob)). rv_known r s \<noteq> None \<and> rv_known r p \<noteq> None \<and> rv_known r ob \<noteq> None)
     (rv_triples r))"

definition assemble_one :: "i64 \<Rightarrow> resolver \<Rightarrow> resolver" where
  "assemble_one i r =
     (case map_of (rv_triples r) i of
        None \<Rightarrow> r
      | Some (s, p, ob) \<Rightarrow>
          let r' = r\<lparr>rv_triples := filter (\<lambda>e. fst e \<noteq> i) (rv_triples r)\<rparr>
          in case make_triple (the (rv_known r s)) (the (rv_known r p)) (the (rv_known r ob)) of
               Inr t \<Rightarrow> r'\<lparr>rv_known := (rv_known r')(i \<mapsto> t)\<rparr>
             | Inl _ \<Rightarrow> r')"

lemma assemble_one_triples [simp]:
  "rv_triples (assemble_one i r) = filter (\<lambda>e. fst e \<noteq> i) (rv_triples r)"
  by (auto simp: assemble_one_def Let_def map_of_eq_None_iff split: option.splits sum.splits intro: sym filter_True)

lemma assemble_fold_triples:
  "rv_triples (fold assemble_one is r) = filter (\<lambda>e. fst e \<notin> set is) (rv_triples r)"
  by (induction "is" arbitrary: r) (auto intro: filter_cong)

function assemble :: "resolver \<Rightarrow> resolver" where
  "assemble r = (if ready r = [] then r else assemble (fold assemble_one (ready r) r))"
  by pat_completeness auto
termination
proof (relation "measure (\<lambda>r. length (rv_triples r))")
  fix r assume "ready r \<noteq> []"
  then obtain i where "i \<in> set (ready r)" by (cases "ready r") auto
  moreover from this have "i \<in> fst ` set (rv_triples r)" by (auto simp: ready_def)
  ultimately obtain e where "e \<in> set (rv_triples r)" "fst e \<in> set (ready r)" by auto
  then have "length (filter (\<lambda>e. fst e \<notin> set (ready r)) (rv_triples r)) < length (rv_triples r)"
    by (intro length_filter_less [of e]) auto
  then show "(fold assemble_one (ready r) r, r) \<in> measure (\<lambda>r. length (rv_triples r))"
    by (simp add: assemble_fold_triples)
qed simp

declare assemble.simps [simp del]

definition absorb :: "response \<Rightarrow> resolver \<Rightarrow> error + resolver" where
  "absorb resp r =
     (let kinds = rv_in_flight r;
          rows = concat (map (\<lambda>(k, rs). map (Pair k) (rs_rows rs)) (zip kinds resp))
      in rbind (absorb_rows rows (r\<lparr>rv_in_flight := []\<rparr>)) (\<lambda>r'. Inr (assemble r')))"

definition is_complete :: "resolver \<Rightarrow> bool" where
  "is_complete r \<longleftrightarrow> rv_pending r = []"

definition get :: "i64 \<Rightarrow> resolver \<Rightarrow> error + rdf_term" where
  "get i r =
     ok_or (Corrupted (''term '' @ show_int (sint i) @ '' not found in the dictionary''))
       (case rv_known r i of Some t \<Rightarrow> Some t | None \<Rightarrow> decode_inline i)"

definition ids_of :: "response \<Rightarrow> nat \<Rightarrow> i64 list" where
  "ids_of resp i =
     (case get_nth resp i of
        None \<Rightarrow> []
      | Some rs \<Rightarrow> List.map_filter (\<lambda>row. case row of [] \<Rightarrow> None | v # _ \<Rightarrow> as_i64 v) (rs_rows rs))"

text \<open>The loop of a job that resolves its ids: ask, absorb, until nothing is pending.\<close>

fun resolve_loop ::
  "nat \<Rightarrow> ((lookup \<times> i64 list) list \<Rightarrow> response) \<Rightarrow> capabilities \<Rightarrow> resolver \<Rightarrow> (error + resolver) option" where
  "resolve_loop fuel answer caps r =
     (case request caps r of
        (None, r') \<Rightarrow> Some (Inr r')
      | (Some rq, r') \<Rightarrow>
          (case fuel of
             0 \<Rightarrow> None
           | Suc n \<Rightarrow>
               (case absorb (answer (groups r)) r' of
                  Inl e \<Rightarrow> Some (Inl e)
                | Inr r'' \<Rightarrow> resolve_loop n answer caps r'')))"

declare resolve_loop.simps [simp del]

section \<open>Resolving against a dictionary\<close>

text \<open>
  What a row of a lookup says of a term: a \<^verbatim>\<open>terms\<close> row decodes to it, a \<^verbatim>\<open>triple_terms\<close> row holds the
  ids of its parts.
\<close>

primrec depth :: "rdf_term \<Rightarrow> nat" where
  "depth (NamedNode _) = 0"
| "depth (BlankNode _) = 0"
| "depth (Lit _) = 0"
| "depth (TripleTerm _ _ ob) = Suc (depth ob)"

definition term_cells :: "i64 \<Rightarrow> rdf_term \<Rightarrow> sql_value list \<Rightarrow> bool" where
  "term_cells i t row \<longleftrightarrow>
     decode_row i (case cell_text row 1 of Some s \<Rightarrow> s | None \<Rightarrow> []) (cell_text row 2) (cell_text row 3)
       (case get_nth row 4 of None \<Rightarrow> None | Some v \<Rightarrow> map_option sint (as_i64 v)) = Inr t"

definition row_for :: "ext \<Rightarrow> lookup \<Rightarrow> rdf_term \<Rightarrow> sql_value list \<Rightarrow> bool" where
  "row_for x k t row \<longleftrightarrow> id_cell ''bad id in lookup'' row 0 = Inr (term_id x t) \<and>
     (case k of
        LTerms \<Rightarrow> term_cells (term_id x t) t row
      | LTriples \<Rightarrow>
          (case t of
             TripleTerm s p ob \<Rightarrow>
               id_cell ''bad triple term row'' row 1 = Inr (subject_id x s) \<and>
               id_cell ''bad triple term row'' row 2 = Inr (named_node_id x p) \<and>
               id_cell ''bad triple term row'' row 3 = Inr (term_id x ob)
           | _ \<Rightarrow> False))"

text \<open>
  The interface to the store: \<open>D\<close> is a finite set of terms, closed under parts and without colliding ids,
  whose rows the store has; a lookup of ids of \<open>D\<close> is answered with a row for each of them.
\<close>

locale dictionary =
  fixes x :: ext and D :: "rdf_term set" and answer :: "(lookup \<times> i64 list) list \<Rightarrow> response"
  assumes wf_D: "t \<in> D \<Longrightarrow> wf_term t"
    and parts_D: "TripleTerm s p ob \<in> D \<Longrightarrow> subject_term s \<in> D \<and> NamedNode p \<in> D \<and> ob \<in> D"
    and inj_D: "t \<in> D \<Longrightarrow> u \<in> D \<Longrightarrow> term_id x t = term_id x u \<Longrightarrow> t = u"
    and length_answer: "length (answer gs) = length gs"
    and answer_sound: "i < length gs \<Longrightarrow> gs ! i = (k, ids) \<Longrightarrow> set ids \<subseteq> term_id x ` D \<Longrightarrow>
      row \<in> set (rs_rows (answer gs ! i)) \<Longrightarrow> \<exists>t \<in> D. term_id x t \<in> set ids \<and> row_for x k t row"
    and answer_complete: "i < length gs \<Longrightarrow> gs ! i = (k, ids) \<Longrightarrow> set ids \<subseteq> term_id x ` D \<Longrightarrow>
      t \<in> D \<Longrightarrow> term_id x t \<in> set ids \<Longrightarrow> decode_inline (term_id x t) = None \<Longrightarrow>
      k = (case t of TripleTerm _ _ _ \<Rightarrow> LTriples | _ \<Rightarrow> LTerms) \<Longrightarrow>
      \<exists>row \<in> set (rs_rows (answer gs ! i)). row_for x k t row"
begin

definition settled :: "resolver \<Rightarrow> i64 set \<Rightarrow> i64 \<Rightarrow> bool" where
  "settled r F i \<longleftrightarrow> rv_known r i \<noteq> None \<or> i \<in> set (rv_pending r) \<or> i \<in> fst ` set (rv_triples r) \<or> i \<in> F"

definition known_ok :: "resolver \<Rightarrow> bool" where
  "known_ok r \<longleftrightarrow> (\<forall>t \<in> D. \<forall>u. rv_known r (term_id x t) = Some u \<longrightarrow> u = t)"

definition triples_ok :: "resolver \<Rightarrow> bool" where
  "triples_ok r \<longleftrightarrow> distinct (map fst (rv_triples r)) \<and>
     (\<forall>(i, parts) \<in> set (rv_triples r). \<exists>s p ob. TripleTerm s p ob \<in> D \<and> i = term_id x (TripleTerm s p ob) \<and>
        parts = (subject_id x s, named_node_id x p, term_id x ob))"

definition parts_settled :: "resolver \<Rightarrow> i64 set \<Rightarrow> bool" where
  "parts_settled r F \<longleftrightarrow> (\<forall>(i, (a, b, c)) \<in> set (rv_triples r). settled r F a \<and> settled r F b \<and> settled r F c)"

definition pending_ok :: "nat \<Rightarrow> resolver \<Rightarrow> bool" where
  "pending_ok n r \<longleftrightarrow> (\<forall>i \<in> set (rv_pending r). decode_inline i = None \<and> (\<exists>t \<in> D. term_id x t = i \<and> depth t < n))"

definition rinv :: "nat \<Rightarrow> resolver \<Rightarrow> i64 set \<Rightarrow> bool" where
  "rinv n r F \<longleftrightarrow> known_ok r \<and> triples_ok r \<and> parts_settled r F \<and> pending_ok n r"

lemma set_insort_insert_sint: "set (insort_insert_key sint i xs) = insert i (set (xs :: i64 list))"
  by (auto simp: insort_insert_key_def set_insort_key dest: signed_word_eqI)

lemma decode_inline_D: "t \<in> D \<Longrightarrow> decode_inline (term_id x t) = Some u \<Longrightarrow> u = t"
proof -
  assume t: "t \<in> D" "decode_inline (term_id x t) = Some u"
  show "u = t"
  proof (cases t)
    case (Lit l)
    obtain i row where e: "encode_literal x l = (i, row)" by force
    have "wf_literal l" using wf_D [OF t(1)] Lit by simp
    from encode_literal_decodes [OF this e] show ?thesis
    proof (cases row)
      case (Some r)
      with encode_literal_decodes [OF \<open>wf_literal l\<close> e] have d: "tr_id r = i" "row_decodes r (Lit l)" by auto
      from t(2) e Lit have di: "decode_inline i = Some u" by simp
      then have "tag_of i = Some TagInteger \<or> tag_of i = Some TagBoolean"
        by (auto simp: decode_inline_def split: option.splits tag.splits)
      with d di have "Inr u = (Inr (Lit l) :: error + rdf_term)" by (auto simp: row_decodes_def decode_row_def)
      with Lit show ?thesis by simp
    qed (use t(2) e Lit in simp)
  qed (use t(2) in \<open>simp_all add: named_node_id_def blank_node_id_def\<close>)
qed

lemma want_effect:
  assumes "t \<in> D" "depth t < n" "rinv n r F"
  shows "rinv n (want (term_id x t) r) F" "settled (want (term_id x t) r) G (term_id x t)"
    "settled r G i \<Longrightarrow> settled (want (term_id x t) r) G i"
    "rv_triples (want (term_id x t) r) = rv_triples r" "rv_in_flight (want (term_id x t) r) = rv_in_flight r"
    "rv_known r j = Some u \<Longrightarrow> rv_known (want (term_id x t) r) j = Some u"
proof -
  let ?i = "term_id x t"
  have z: "?i \<noteq> DEFAULT_GRAPH_ID"
  proof
    assume "?i = DEFAULT_GRAPH_ID"
    moreover obtain g where "g \<in> kind_tags t" "tag_of ?i = Some g" using term_id_kind [OF wf_D [OF assms(1)], of x] by blast
    moreover have "tag_of DEFAULT_GRAPH_ID = Some TagDefault" by (simp add: DEFAULT_GRAPH_ID_def tag_of_def tag_from_u8_def)
    ultimately show False by (cases t) auto
  qed
  show tr: "rv_triples (want ?i r) = rv_triples r" and "rv_in_flight (want ?i r) = rv_in_flight r"
    by (auto simp: want_def split: option.splits)
  show kn: "rv_known r j = Some u \<Longrightarrow> rv_known (want ?i r) j = Some u" for j u
    by (auto simp: want_def split: option.splits)
  show s: "settled (want ?i r) G ?i"
    using z by (auto simp: want_def settled_def set_insort_insert_sint split: option.splits)
  have pe: "j \<in> set (rv_pending r) \<Longrightarrow> j \<in> set (rv_pending (want ?i r))" for j
    by (auto simp: want_def set_insort_insert_sint split: option.splits)
  show mono: "settled r G i \<Longrightarrow> settled (want ?i r) G i" for i G
    using tr kn pe by (auto simp: settled_def)
  have "known_ok (want ?i r)"
    unfolding known_ok_def
  proof (intro ballI allI impI)
    fix t' u assume t': "t' \<in> D" "rv_known (want ?i r) (term_id x t') = Some u"
    show "u = t'"
    proof (cases "rv_known r (term_id x t') = Some u")
      case True
      with assms(3) t'(1) show ?thesis by (auto simp: rinv_def known_ok_def)
    next
      case False
      with t'(2) have "term_id x t' = ?i" "decode_inline ?i = Some u"
        by (auto simp: want_def split: if_splits option.splits)
      with decode_inline_D t'(1) show ?thesis by metis
    qed
  qed
  moreover have "pending_ok n (want ?i r)"
    using assms unfolding rinv_def pending_ok_def
    by (auto simp: want_def set_insort_insert_sint split: if_splits option.splits)
  moreover have "parts_settled (want ?i r) F"
    using assms(3) mono by (fastforce simp: rinv_def parts_settled_def tr)
  ultimately show "rinv n (want ?i r) F" using assms(3) by (simp add: rinv_def triples_ok_def tr)
qed

lemma settled_discharge: "settled r (insert a F) i \<Longrightarrow> settled r F a \<Longrightarrow> settled r F i"
  by (auto simp: settled_def)

lemma rinv_discharge: "rinv n r (insert a F) \<Longrightarrow> settled r F a \<Longrightarrow> rinv n r F"
  unfolding rinv_def parts_settled_def using settled_discharge by fast

lemma subject_term_id: "term_id x (subject_term s) = subject_id x s" "depth (subject_term s) = 0"
  by (cases s; simp add: subject_term_def subject_id_def)+

text \<open>A row of a lookup settles the id it is for.\<close>

lemma absorb_term_row:
  assumes t: "t \<in> D" and row: "row_for x LTerms t row" and inv: "rinv n r (insert (term_id x t) F)"
  shows "\<exists>r'. absorb_row LTerms row r = Inr r' \<and> rinv n r' F \<and> rv_in_flight r' = rv_in_flight r \<and>
    (\<forall>i. settled r (insert (term_id x t) F) i \<longrightarrow> settled r' F i)"
proof -
  let ?i = "term_id x t" and ?r = "r\<lparr>rv_known := (rv_known r)(term_id x t \<mapsto> t)\<rparr>"
  have a: "absorb_row LTerms row r = Inr ?r"
    using row by (simp add: absorb_row_def row_for_def absorb_term_def term_cells_def Let_def)
  have st: "settled r (insert ?i F) j \<Longrightarrow> settled ?r F j" for j by (auto simp: settled_def)
  have "known_ok ?r" using inv inj_D [OF _ t] by (auto simp: rinv_def known_ok_def)
  moreover have "parts_settled ?r F" using inv st by (fastforce simp: rinv_def parts_settled_def)
  ultimately have "rinv n ?r F" using inv by (simp add: rinv_def triples_ok_def pending_ok_def)
  with a st show ?thesis by auto
qed

lemma absorb_triple_row:
  assumes t: "t \<in> D" "depth t \<le> n" and row: "row_for x LTriples t row" and inv: "rinv n r (insert (term_id x t) F)"
  shows "\<exists>r'. absorb_row LTriples row r = Inr r' \<and> rinv n r' F \<and> rv_in_flight r' = rv_in_flight r \<and>
    (\<forall>i. settled r (insert (term_id x t) F) i \<longrightarrow> settled r' F i)"
proof -
  obtain s p ob where tt: "t = TripleTerm s p ob" using row by (cases t) (auto simp: row_for_def)
  let ?i = "term_id x t" and ?a = "subject_id x s" and ?b = "named_node_id x p" and ?c = "term_id x ob"
  have D: "subject_term s \<in> D" "NamedNode p \<in> D" "ob \<in> D" using parts_D t(1) tt by blast+
  have dp: "depth (subject_term s) < n" "depth (NamedNode p) < n" "depth ob < n"
    using t(2) tt subject_term_id(2) by auto
  define r1 where "r1 = r\<lparr>rv_triples := hm_insert ?i (?a, ?b, ?c) (rv_triples r)\<rparr>"
  have a: "absorb_row LTriples row r = Inr (want ?c (want ?b (want ?a r1)))"
    using row by (simp add: absorb_row_def row_for_def absorb_triple_def tt r1_def)
  let ?F = "insert ?a (insert ?b (insert ?c F))"
  have st: "settled r (insert ?i F) j \<Longrightarrow> settled r1 ?F j" for j by (auto simp: settled_def r1_def hm_insert_def)
  have "triples_ok r1"
    using inv t(1) tt by (auto simp: rinv_def triples_ok_def r1_def hm_insert_def distinct_map_filter)
  moreover have "parts_settled r1 ?F"
    using inv st by (fastforce simp: rinv_def parts_settled_def r1_def hm_insert_def settled_def [of _ ?F ?a]
        settled_def [of _ ?F ?b] settled_def [of _ ?F ?c])
  ultimately have i1: "rinv n r1 ?F" using inv by (simp add: rinv_def known_ok_def pending_ok_def r1_def)
  define r2 where "r2 = want ?a r1"
  define r3 where "r3 = want ?b r2"
  define r4 where "r4 = want ?c r3"
  note w1 = want_effect [OF D(1) dp(1) i1, unfolded subject_term_id, folded r2_def]
  note w2 = want_effect [OF D(2) dp(2) w1(1), unfolded term_id.simps, folded r3_def]
  note w3 = want_effect [OF D(3) dp(3) w2(1), folded r4_def]
  have sa: "settled r4 F ?a" "settled r4 F ?b" "settled r4 F ?c"
    using w3(2,3) w2(2,3) w1(2) by blast+
  have up: "settled r4 ?F j \<Longrightarrow> settled r4 F j" for j using sa by (auto simp: settled_def)
  have "rinv n r4 F" using w3(1) up by (fastforce simp: rinv_def parts_settled_def)
  moreover have "settled r (insert ?i F) j \<Longrightarrow> settled r4 F j" for j using st w1(3) w2(3) w3(3) up by blast
  moreover have "rv_in_flight r4 = rv_in_flight r" using w1(5) w2(5) w3(5) by (simp add: r1_def)
  ultimately show ?thesis using a by (simp add: r2_def r3_def r4_def)
qed

lemma absorb_row_ok:
  assumes "t \<in> D" "depth t \<le> n" "row_for x k t row" "rinv n r (insert (term_id x t) F)"
  shows "\<exists>r'. absorb_row k row r = Inr r' \<and> rinv n r' F \<and> rv_in_flight r' = rv_in_flight r \<and>
    (\<forall>i. settled r (insert (term_id x t) F) i \<longrightarrow> settled r' F i)"
proof (cases k)
  case LTerms
  with absorb_term_row assms show ?thesis by blast
next
  case LTriples
  with absorb_triple_row assms show ?thesis by blast
qed

definition row_ids :: "(lookup \<times> sql_value list) list \<Rightarrow> i64 set" where
  "row_ids rows = (\<Union>(k, row) \<in> set rows. {term_id x t | t. t \<in> D \<and> row_for x k t row})"

lemma absorb_rows_ok:
  "\<forall>(k, row) \<in> set rows. \<exists>t \<in> D. depth t \<le> n \<and> row_for x k t row \<Longrightarrow>
   rinv n r (row_ids rows) \<Longrightarrow>
   \<exists>r'. absorb_rows rows r = Inr r' \<and> rinv n r' {} \<and>
     (\<forall>i. settled r (row_ids rows) i \<longrightarrow> settled r' {} i)"
proof (induction rows arbitrary: r)
  case (Cons e rows)
  obtain k row where e: "e = (k, row)" by force
  obtain t where t: "t \<in> D" "depth t \<le> n" "row_for x k t row" using Cons.prems(1) e by auto
  let ?F = "row_ids rows"
  have one: "term_id x u = term_id x t" if "u \<in> D" "row_for x k u row" for u
    using that t(3) by (simp add: row_for_def)
  have "{term_id x t | t. t \<in> D \<and> row_for x k t row} = {term_id x t}" using one t by blast
  then have F: "row_ids (e # rows) = insert (term_id x t) ?F" by (simp add: row_ids_def e)
  obtain r1 where r1: "absorb_row k row r = Inr r1" "rinv n r1 ?F"
    "\<forall>i. settled r (insert (term_id x t) ?F) i \<longrightarrow> settled r1 ?F i"
    using absorb_row_ok [OF t Cons.prems(2) [unfolded F]] by blast
  have "\<forall>(k, row) \<in> set rows. \<exists>t \<in> D. depth t \<le> n \<and> row_for x k t row" using Cons.prems(1) by simp
  from Cons.IH [OF this r1(2)] obtain r2 where r2: "absorb_rows rows r1 = Inr r2" "rinv n r2 {}"
    "\<forall>i. settled r1 ?F i \<longrightarrow> settled r2 {} i" by blast
  have "absorb_rows (e # rows) r = Inr r2" using r1(1) r2(1) e by simp
  then show ?case unfolding F using r1(3) r2(2,3) by blast
qed (simp add: row_ids_def)

text \<open>Assembling triple terms.\<close>

definition can_assemble :: "resolver \<Rightarrow> i64 \<Rightarrow> bool" where
  "can_assemble r i \<longleftrightarrow> (\<exists>a b c. map_of (rv_triples r) i = Some (a, b, c) \<and>
     rv_known r a \<noteq> None \<and> rv_known r b \<noteq> None \<and> rv_known r c \<noteq> None)"

lemma ready_iff:
  assumes "triples_ok r"
  shows "i \<in> set (ready r) \<longleftrightarrow> can_assemble r i"
proof -
  have "distinct (map fst (rv_triples r))" using assms by (simp add: triples_ok_def)
  then have "(i, e) \<in> set (rv_triples r) \<longleftrightarrow> map_of (rv_triples r) i = Some e" for e by simp
  moreover have "i \<in> set (ready r) \<longleftrightarrow> (\<exists>a b c. (i, (a, b, c)) \<in> set (rv_triples r) \<and>
      rv_known r a \<noteq> None \<and> rv_known r b \<noteq> None \<and> rv_known r c \<noteq> None)"
    by (fastforce simp: ready_def image_iff)
  ultimately show ?thesis by (simp only: can_assemble_def)
qed

lemma map_of_filter_key: "j \<noteq> i \<Longrightarrow> map_of (filter (\<lambda>e. fst e \<noteq> i) m) j = map_of m j"
  by (induction m) auto

lemma assemble_one_ok:
  assumes inv: "rinv n r F" and can: "can_assemble r i"
  shows "rinv n (assemble_one i r) F" "settled r F j \<Longrightarrow> settled (assemble_one i r) F j"
    "j \<noteq> i \<Longrightarrow> can_assemble r j \<Longrightarrow> can_assemble (assemble_one i r) j"
    "rv_pending (assemble_one i r) = rv_pending r"
proof -
  obtain a b c where abc: "map_of (rv_triples r) i = Some (a, b, c)"
    "rv_known r a \<noteq> None" "rv_known r b \<noteq> None" "rv_known r c \<noteq> None" using can by (auto simp: can_assemble_def)
  then obtain s p ob where t: "TripleTerm s p ob \<in> D" "i = term_id x (TripleTerm s p ob)"
    "a = subject_id x s" "b = named_node_id x p" "c = term_id x ob"
    using inv map_of_SomeD [OF abc(1)] by (fastforce simp: rinv_def triples_ok_def)
  have kn: "u \<in> D \<Longrightarrow> rv_known r (term_id x u) \<noteq> None \<Longrightarrow> rv_known r (term_id x u) = Some u" for u
    using inv by (auto simp: rinv_def known_ok_def)
  have "rv_known r a = Some (subject_term s)" "rv_known r b = Some (NamedNode p)" "rv_known r c = Some ob"
    using kn [of "subject_term s"] kn [of "NamedNode p"] kn [of ob] parts_D [OF t(1)] abc t(3-5)
    by (auto simp: subject_term_id)
  then have mk: "make_triple (the (rv_known r a)) (the (rv_known r b)) (the (rv_known r c)) = Inr (TripleTerm s p ob)"
    by (cases s) (simp_all add: make_triple_def subject_term_def)
  let ?tr = "filter (\<lambda>e. fst e \<noteq> i) (rv_triples r)"
  have eq: "assemble_one i r = r\<lparr>rv_triples := ?tr, rv_known := (rv_known r)(i \<mapsto> TripleTerm s p ob)\<rparr>"
    using abc(1) mk by (simp add: assemble_one_def Let_def)
  show "rv_pending (assemble_one i r) = rv_pending r" by (simp add: eq)
  show st: "settled r F j \<Longrightarrow> settled (assemble_one i r) F j" for j by (auto simp: settled_def eq)
  show "j \<noteq> i \<Longrightarrow> can_assemble r j \<Longrightarrow> can_assemble (assemble_one i r) j"
  proof -
    assume "j \<noteq> i" "can_assemble r j"
    then obtain a' b' c' where m: "map_of (rv_triples (assemble_one i r)) j = Some (a', b', c')"
      "rv_known r a' \<noteq> None" "rv_known r b' \<noteq> None" "rv_known r c' \<noteq> None"
      by (auto simp: can_assemble_def eq map_of_filter_key)
    then have "rv_known (assemble_one i r) a' \<noteq> None" "rv_known (assemble_one i r) b' \<noteq> None"
      "rv_known (assemble_one i r) c' \<noteq> None" by (simp_all add: eq)
    with m(1) show "can_assemble (assemble_one i r) j" unfolding can_assemble_def by (intro exI conjI)
  qed
  have "known_ok (assemble_one i r)"
  proof -
    have "u \<in> D \<Longrightarrow> term_id x u = i \<Longrightarrow> u = TripleTerm s p ob" for u using inj_D t(1,2) by blast
    then show ?thesis using inv by (auto simp: rinv_def known_ok_def eq split: if_splits)
  qed
  moreover have "triples_ok (assemble_one i r)" using inv by (auto simp: rinv_def triples_ok_def eq distinct_map_filter)
  moreover have "parts_settled (assemble_one i r) F" using inv st by (fastforce simp: rinv_def parts_settled_def eq)
  ultimately show "rinv n (assemble_one i r) F" using inv by (simp add: rinv_def pending_ok_def eq)
qed

lemma assemble_fold_ok:
  "rinv n r F \<Longrightarrow> distinct is \<Longrightarrow> \<forall>i \<in> set is. can_assemble r i \<Longrightarrow>
     rinv n (fold assemble_one is r) F \<and> (\<forall>j. settled r F j \<longrightarrow> settled (fold assemble_one is r) F j) \<and>
     rv_pending (fold assemble_one is r) = rv_pending r"
proof (induction "is" arbitrary: r)
  case (Cons i "is")
  have can: "can_assemble r i" using Cons.prems by simp
  note one = assemble_one_ok [OF Cons.prems(1) can]
  have "\<forall>j \<in> set is. can_assemble (assemble_one i r) j" 
  proof
    fix j assume j: "j \<in> set is"
    then have "j \<noteq> i" "can_assemble r j" using Cons.prems(2,3) by auto
    then show "can_assemble (assemble_one i r) j" by (rule one(3))
  qed
  with Cons.IH [OF one(1)] Cons.prems(2) one(2,4) show ?case by simp
qed simp

lemma assemble_ok:
  "rinv n r F \<Longrightarrow> rinv n (assemble r) F \<and> (\<forall>j. settled r F j \<longrightarrow> settled (assemble r) F j) \<and>
     rv_pending (assemble r) = rv_pending r \<and> ready (assemble r) = []"
proof (induction r rule: assemble.induct)
  case (1 r)
  show ?case
  proof (cases "ready r = []")
    case True
    then have "assemble r = r" by (simp add: assemble.simps [of r])
    with True 1(2) show ?thesis by simp
  next
    case False
    let ?r = "fold assemble_one (ready r) r"
    have tok: "triples_ok r" using 1(2) by (simp add: rinv_def)
    have "distinct (ready r)" using tok by (auto simp: triples_ok_def ready_def distinct_map_filter)
    with assemble_fold_ok [OF 1(2)] ready_iff [OF tok]
    have f: "rinv n ?r F" "\<forall>j. settled r F j \<longrightarrow> settled ?r F j" "rv_pending ?r = rv_pending r" by auto
    have "assemble r = assemble ?r" using False by (simp add: assemble.simps [of r])
    with 1(1) [OF False f(1)] f(2,3) show ?thesis by auto
  qed
qed

text \<open>One round of a lookup.\<close>

lemma groups_ids:
  assumes "(k, ids) \<in> set (groups r)"
  shows "set ids \<subseteq> set (rv_pending r)" "i \<in> set ids \<Longrightarrow> k = (if tag_of i = Some TagTriple then LTriples else LTerms)"
proof -
  have sub: "c \<in> set (chunks CHUNK xs) \<Longrightarrow> set c \<subseteq> set xs" for c and xs :: "i64 list"
  proof -
    assume "c \<in> set (chunks CHUNK xs)"
    then have "set c \<subseteq> set (concat (chunks CHUNK xs))" by auto
    then show ?thesis by (simp add: concat_chunks del: set_concat)
  qed
  from assms show "set ids \<subseteq> set (rv_pending r)" "i \<in> set ids \<Longrightarrow> k = (if tag_of i = Some TagTriple then LTriples else LTerms)"
    using sub by (force simp: groups_def)+
qed

lemma groups_cover:
  assumes "i \<in> set (rv_pending r)"
  shows "\<exists>k ids. (k, ids) \<in> set (groups r) \<and> i \<in> set ids"
proof -
  have cov: "j \<in> set xs \<Longrightarrow> \<exists>c \<in> set (chunks CHUNK xs). j \<in> set c" for j and xs :: "i64 list"
  proof -
    assume "j \<in> set xs"
    then have "j \<in> set (concat (chunks CHUNK xs))" by (simp add: concat_chunks del: set_concat)
    then show ?thesis by auto
  qed
  show ?thesis
  proof (cases "tag_of i = Some TagTriple")
    case True
    with cov [of i "filter (\<lambda>i. tag_of i = Some TagTriple) (rv_pending r)"] assms obtain c where
      "c \<in> set (chunks CHUNK (filter (\<lambda>i. tag_of i = Some TagTriple) (rv_pending r)))" "i \<in> set c" by auto
    then show ?thesis by (intro exI [of _ LTriples] exI [of _ c]) (simp add: groups_def)
  next
    case False
    with cov [of i "filter (\<lambda>i. tag_of i \<noteq> Some TagTriple) (rv_pending r)"] assms obtain c where
      "c \<in> set (chunks CHUNK (filter (\<lambda>i. tag_of i \<noteq> Some TagTriple) (rv_pending r)))" "i \<in> set c" by auto
    then show ?thesis by (intro exI [of _ LTerms] exI [of _ c]) (simp add: groups_def)
  qed
qed

lemma triple_kind:
  "t \<in> D \<Longrightarrow> (if tag_of (term_id x t) = Some TagTriple then LTriples else LTerms) =
     (case t of TripleTerm _ _ _ \<Rightarrow> LTriples | _ \<Rightarrow> LTerms)"
  using term_id_kind [OF wf_D, of t x] by (cases t) auto

definition lookup_rows :: "resolver \<Rightarrow> (lookup \<times> sql_value list) list" where
  "lookup_rows r = concat (map (\<lambda>(k, rs). map (Pair k) (rs_rows rs)) (zip (map fst (groups r)) (answer (groups r))))"

lemma lookup_rows_iff:
  "(k, row) \<in> set (lookup_rows r) \<longleftrightarrow>
     (\<exists>j < length (groups r). fst (groups r ! j) = k \<and> row \<in> set (rs_rows (answer (groups r) ! j)))"
  using length_answer [of "groups r"] by (fastforce simp: lookup_rows_def set_zip)

lemma lookup_sound:
  assumes "pending_ok (Suc n) r" "(k, row) \<in> set (lookup_rows r)"
  shows "\<exists>t \<in> D. depth t \<le> n \<and> row_for x k t row"
proof -
  obtain j where j: "j < length (groups r)" "fst (groups r ! j) = k" "row \<in> set (rs_rows (answer (groups r) ! j))"
    using assms(2) lookup_rows_iff by blast
  obtain ids where ids: "groups r ! j = (k, ids)" using j(2) by (cases "groups r ! j") auto
  then have "(k, ids) \<in> set (groups r)" using j(1) nth_mem by metis
  from groups_ids(1) [OF this] have sub: "set ids \<subseteq> set (rv_pending r)" .
  then have "set ids \<subseteq> term_id x ` D" using assms(1) by (force simp: pending_ok_def)
  from answer_sound [OF j(1) ids this j(3)] obtain t where t: "t \<in> D" "term_id x t \<in> set ids" "row_for x k t row" by blast
  then have "term_id x t \<in> set (rv_pending r)" using sub by blast
  then obtain u where "u \<in> D" "term_id x u = term_id x t" "depth u < Suc n" using assms(1) by (auto simp: pending_ok_def)
  then have "depth t \<le> n" using inj_D t(1) by fastforce
  with t show ?thesis by blast
qed

lemma lookup_complete:
  assumes "pending_ok (Suc n) r"
  shows "set (rv_pending r) \<subseteq> row_ids (lookup_rows r)"
proof
  fix i assume i: "i \<in> set (rv_pending r)"
  then obtain t where t: "t \<in> D" "term_id x t = i" "decode_inline i = None" using assms by (auto simp: pending_ok_def)
  obtain k ids where g: "(k, ids) \<in> set (groups r)" "i \<in> set ids" using groups_cover [OF i] by blast
  obtain j where j: "j < length (groups r)" "groups r ! j = (k, ids)" using g(1) by (metis in_set_conv_nth)
  have sub: "set ids \<subseteq> term_id x ` D" using groups_ids(1) [OF g(1)] assms by (force simp: pending_ok_def)
  have "k = (case t of TripleTerm _ _ _ \<Rightarrow> LTriples | _ \<Rightarrow> LTerms)"
    using groups_ids(2) [OF g] triple_kind [OF t(1)] t(2) by simp
  from answer_complete [OF j sub t(1) _ _ this] g(2) t(2,3) obtain row where
    "row \<in> set (rs_rows (answer (groups r) ! j))" "row_for x k t row" by auto
  then have "(k, row) \<in> set (lookup_rows r)" using lookup_rows_iff j by fastforce
  with \<open>row_for x k t row\<close> t show "i \<in> row_ids (lookup_rows r)" by (auto simp: row_ids_def)
qed

lemma round_ok:
  assumes inv: "rinv (Suc n) r {}" and pend: "rv_pending r \<noteq> []"
  obtains rq r' r'' where "request caps r = (Some rq, r')" "absorb (answer (groups r)) r' = Inr r''"
    "rinv n r'' {}" "ready r'' = []" "\<And>i. settled r {} i \<Longrightarrow> settled r'' {} i"
proof -
  let ?r0 = "r\<lparr>rv_pending := [], rv_in_flight := []\<rparr>" and ?rows = "lookup_rows r"
  obtain rq r' where rq: "request caps r = (Some rq, r')"
    "r' = r\<lparr>rv_pending := [], rv_in_flight := map fst (groups r)\<rparr>" using pend by (simp add: request_def)
  have p: "pending_ok (Suc n) r" using inv by (simp add: rinv_def)
  have st: "settled r {} i \<Longrightarrow> settled ?r0 (row_ids ?rows) i" for i
    using lookup_complete [OF p] by (auto simp: settled_def)
  have "rinv n ?r0 (row_ids ?rows)"
    using inv st by (fastforce simp: rinv_def known_ok_def triples_ok_def parts_settled_def pending_ok_def)
  moreover have "\<forall>(k, row) \<in> set ?rows. \<exists>t \<in> D. depth t \<le> n \<and> row_for x k t row"
    using lookup_sound [OF p] by auto
  ultimately obtain r1 where r1: "absorb_rows ?rows ?r0 = Inr r1" "rinv n r1 {}"
    "\<And>i. settled ?r0 (row_ids ?rows) i \<Longrightarrow> settled r1 {} i" using absorb_rows_ok by blast
  have "absorb (answer (groups r)) r' = Inr (assemble r1)"
    using r1(1) by (simp add: absorb_def rq(2) lookup_rows_def)
  with that [OF rq(1) this] assemble_ok [OF r1(2)] r1(3) st show thesis by blast
qed

lemma resolve_loop_ok:
  "rinv n r {} \<Longrightarrow> ready r = [] \<Longrightarrow> n \<le> fuel \<Longrightarrow>
   \<exists>r'. resolve_loop fuel answer caps r = Some (Inr r') \<and> rinv 0 r' {} \<and> ready r' = [] \<and> rv_pending r' = [] \<and>
     (\<forall>i. settled r {} i \<longrightarrow> settled r' {} i)"
proof (induction n arbitrary: r fuel)
  case 0
  then have "rv_pending r = []" by (cases "rv_pending r") (auto simp: rinv_def pending_ok_def)
  with 0 show ?case by (subst resolve_loop.simps) (simp add: request_def)
next
  case (Suc n)
  show ?case
  proof (cases "rv_pending r = []")
    case True
    then have "rinv 0 r {}" using Suc.prems(1) by (simp add: rinv_def pending_ok_def)
    with True Suc.prems show ?thesis by (subst resolve_loop.simps) (simp add: request_def)
  next
    case False
    obtain m where fuel: "fuel = Suc m" "n \<le> m" using Suc.prems(3) by (cases fuel) auto
    obtain rq r' r'' where rd: "request caps r = (Some rq, r')" "absorb (answer (groups r)) r' = Inr r''"
      "rinv n r'' {}" "ready r'' = []" "\<And>i. settled r {} i \<Longrightarrow> settled r'' {} i"
      using round_ok [OF Suc.prems(1) False, of caps] by blast
    have "resolve_loop fuel answer caps r = resolve_loop m answer caps r''"
      using rd(1,2) fuel by (subst resolve_loop.simps) simp
    with Suc.IH [OF rd(3,4) fuel(2)] rd(5) show ?thesis by auto
  qed
qed

lemma known_unique: "rinv n r F \<Longrightarrow> t \<in> D \<Longrightarrow> rv_known r (term_id x t) \<noteq> None \<Longrightarrow> rv_known r (term_id x t) = Some t"
  by (auto simp: rinv_def known_ok_def)

lemma settled_plain:
  assumes "rinv 0 r {}" "rv_pending r = []" "settled r {} i" "tag_of i \<noteq> Some TagTriple"
  shows "rv_known r i \<noteq> None"
proof -
  have "i \<notin> fst ` set (rv_triples r)"
  proof
    assume "i \<in> fst ` set (rv_triples r)"
    then obtain e where "(i, e) \<in> set (rv_triples r)" by auto
    then obtain s p ob where "i = term_id x (TripleTerm s p ob)" using assms(1)
      unfolding rinv_def triples_ok_def by blast
    with assms(4) show False by simp
  qed
  with assms(2,3) show ?thesis by (auto simp: settled_def)
qed

lemma settled_known:
  assumes "rinv 0 r {}" "ready r = []" "rv_pending r = []"
  shows "t \<in> D \<Longrightarrow> settled r {} (term_id x t) \<Longrightarrow> rv_known r (term_id x t) = Some t"
proof (induction t)
  case (TripleTerm s p ob)
  let ?t = "TripleTerm s p ob"
  show ?case
  proof (cases "rv_known r (term_id x ?t)")
    case None
    have tok: "triples_ok r" and ps: "parts_settled r {}" and ko: "known_ok r" using assms(1) by (auto simp: rinv_def)
    from None TripleTerm.prems(2) assms(3) obtain e where e: "(term_id x ?t, e) \<in> set (rv_triples r)"
      by (auto simp: settled_def simp del: term_id.simps)
    then obtain s' p' ob' where "TripleTerm s' p' ob' \<in> D" "term_id x ?t = term_id x (TripleTerm s' p' ob')"
      "e = (subject_id x s', named_node_id x p', term_id x ob')" using tok by (auto simp: triples_ok_def simp del: term_id.simps)
    then have ev: "e = (subject_id x s, named_node_id x p, term_id x ob)"
      using inj_D [OF TripleTerm.prems(1)] by (auto simp del: term_id.simps)
    have D: "subject_term s \<in> D" "NamedNode p \<in> D" "ob \<in> D" using parts_D [OF TripleTerm.prems(1)] by auto
    have st: "settled r {} (subject_id x s)" "settled r {} (named_node_id x p)" "settled r {} (term_id x ob)"
      using ps e ev by (auto simp: parts_settled_def simp del: term_id.simps)
    have "rv_known r (term_id x ob) \<noteq> None" using TripleTerm.IH [OF D(3) st(3)] by simp
    moreover have "rv_known r (subject_id x s) \<noteq> None"
      by (rule settled_plain [OF assms(1,3) st(1)]) (simp add: subject_id_def split: named_or_blank.splits)
    moreover have "rv_known r (named_node_id x p) \<noteq> None" by (rule settled_plain [OF assms(1,3) st(2)]) simp
    moreover have "map_of (rv_triples r) (term_id x ?t) = Some e"
      using e tok by (auto simp: triples_ok_def simp del: term_id.simps)
    ultimately have "can_assemble r (term_id x ?t)" unfolding can_assemble_def ev by blast
    with ready_iff [OF tok] assms(2) show ?thesis by (metis empty_iff empty_set)
  next
    case (Some u)
    then show ?thesis using assms(1) TripleTerm.prems(1) by (auto simp: rinv_def known_ok_def simp del: term_id.simps)
  qed
next
  case (NamedNode n)
  then show ?case using settled_plain [OF assms(1,3)] known_unique [OF assms(1)] by simp
next
  case (BlankNode b)
  then show ?case using settled_plain [OF assms(1,3)] known_unique [OF assms(1)] by simp
next
  case (Lit l)
  have "tag_of (term_id x (Lit l)) \<noteq> Some TagTriple" using term_id_kind [OF wf_D [OF Lit(1)], of x] by auto
  with Lit show ?case using settled_plain [OF assms(1,3)] known_unique [OF assms(1)] by blast
qed

text \<open>Every wanted term of the dictionary comes back.\<close>

lemma wants_ok:
  "rinv n r {} \<Longrightarrow> set ts \<subseteq> D \<Longrightarrow> \<forall>t \<in> set ts. depth t < n \<Longrightarrow>
     rinv n (fold (\<lambda>t. want (term_id x t)) ts r) {} \<and> rv_triples (fold (\<lambda>t. want (term_id x t)) ts r) = rv_triples r \<and>
     (\<forall>i. settled r {} i \<or> i \<in> term_id x ` set ts \<longrightarrow> settled (fold (\<lambda>t. want (term_id x t)) ts r) {} i)"
proof (induction ts arbitrary: r)
  case (Cons t ts)
  have t: "t \<in> D" "depth t < n" using Cons.prems by auto
  note w = want_effect [OF t Cons.prems(1)]
  from Cons.IH [OF w(1)] Cons.prems(2,3) w(2-4) show ?case by auto
qed simp

lemma resolves:
  assumes ts: "set ts \<subseteq> D" "\<forall>t \<in> set ts. depth t < n" and fuel: "n \<le> fuel"
    and cok: "\<forall>t \<in> D. \<forall>u. c (term_id x t) = Some u \<longrightarrow> u = t"
  shows "\<exists>r. resolve_loop fuel answer caps (fold (\<lambda>t. want (term_id x t)) ts (with_constants c)) = Some (Inr r) \<and>
    (\<forall>t \<in> set ts. get (term_id x t) r = Inr t)"
proof -
  let ?r0 = "fold (\<lambda>t. want (term_id x t)) ts (with_constants c)"
  have "rinv n (with_constants c) {}"
    using cok by (simp add: rinv_def known_ok_def triples_ok_def parts_settled_def pending_ok_def with_constants_def)
  from wants_ok [OF this ts] have w: "rinv n ?r0 {}" "rv_triples ?r0 = []" "\<forall>i \<in> term_id x ` set ts. settled ?r0 {} i"
    by (auto simp: with_constants_def)
  have "ready ?r0 = []" using w(2) by (simp add: ready_def)
  from resolve_loop_ok [OF w(1) this fuel, of caps] obtain r where r:
    "resolve_loop fuel answer caps ?r0 = Some (Inr r)" "rinv 0 r {}" "ready r = []" "rv_pending r = []"
    "\<forall>i. settled ?r0 {} i \<longrightarrow> settled r {} i" by blast
  have "get (term_id x t) r = Inr t" if "t \<in> set ts" for t
    using settled_known [OF r(2-4), of t] that ts(1) w(3) r(5) by (auto simp: get_def)
  with r(1) show ?thesis by blast
qed

end

end
