(* ===== verification/Ops.thy ===== *)
theory Ops
  imports Resolve
begin

text \<open>
  The store operations as jobs (\<^verbatim>\<open>ops.rs\<close> of the core), with what they use of \<^verbatim>\<open>reason.rs\<close>, \<^verbatim>\<open>shapes.rs\<close>
  and \<^verbatim>\<open>registry.rs\<close>: which writes touch the schema caches, and the attribution of inferences to producers.

  The SQL of the cache rebuilds and of a materialization round (the texts built by \<^verbatim>\<open>closure_statements\<close>,
  \<^verbatim>\<open>refresh_statements\<close> and \<^verbatim>\<open>materialize_round\<close>) are the fields of the record \<open>schema_texts\<close>: the jobs only append
  them to a request. A \<^verbatim>\<open>OneShot\<close> job is its request together with its decoding function.
\<close>

record schema_texts =
  closure_statements :: "statement list"
  refresh_statements :: "statement list"
  materialize_round :: "statement list"

section \<open>Which writes touch the schema\<close>

definition SCHEMA_GRAPH :: string where "SCHEMA_GRAPH = ''oxilite:schema''"
definition VOCABULARY_GRAPH :: string where "VOCABULARY_GRAPH = ''oxilite:vocabulary''"

definition OWL :: string where "OWL = ''http://www.w3.org/2002/07/owl#''"
definition SH :: string where "SH = ''http://www.w3.org/ns/shacl#''"

definition rdfs :: "string \<Rightarrow> string" where
  "rdfs local = ''http://www.w3.org/2000/01/rdf-schema#'' @ local"

definition registry_graph :: "graph_name \<Rightarrow> bool" where
  "registry_graph g = (case g of GNamed n \<Rightarrow> n = SCHEMA_GRAPH | _ \<Rightarrow> False)"

definition is_registry_quad :: "quad \<Rightarrow> bool" where
  "is_registry_quad q = registry_graph (q_graph q)"

definition is_schema_iri :: "string \<Rightarrow> bool" where
  "is_schema_iri p \<longleftrightarrow> p = rdfs ''subClassOf'' \<or> p = rdfs ''subPropertyOf'' \<or> p = rdfs ''domain'' \<or> p = rdfs ''range'' \<or>
     (case strip_prefix OWL p of
        None \<Rightarrow> False
      | Some l \<Rightarrow> l \<in> {''equivalentClass'', ''equivalentProperty'', ''inverseOf'', ''imports''})"

definition is_axiom_class :: "string \<Rightarrow> bool" where
  "is_axiom_class ob \<longleftrightarrow>
     (case strip_prefix OWL ob of None \<Rightarrow> False | Some l \<Rightarrow> l \<in> {''SymmetricProperty'', ''TransitiveProperty''})"

definition is_schema_quad :: "quad \<Rightarrow> bool" where
  "is_schema_quad q \<longleftrightarrow> is_registry_quad q \<or> is_schema_iri (q_predicate q) \<or>
     (q_predicate q = rdf_ns ''type'' \<and> (case q_object q of NamedNode n \<Rightarrow> is_axiom_class n | _ \<Rightarrow> False))"

definition SHAPE_LOCALS :: "string list" where
  "SHAPE_LOCALS = [''targetClass'', ''property'', ''path'', ''datatype'', ''minCount'', ''maxCount'', ''pattern'',
     ''class'', ''node'', ''in'']"

definition is_shape_iri :: "string \<Rightarrow> bool" where
  "is_shape_iri p \<longleftrightarrow> (case strip_prefix SH p of None \<Rightarrow> False | Some l \<Rightarrow> l \<in> set SHAPE_LOCALS)"

definition is_shape_quad :: "quad \<Rightarrow> bool" where
  "is_shape_quad q \<longleftrightarrow> is_registry_quad q \<or> is_shape_iri (q_predicate q)"

definition schema_refresh :: "schema_texts \<Rightarrow> bool \<Rightarrow> bool \<Rightarrow> statement list" where
  "schema_refresh t closure shapes =
     (if closure then closure_statements t else []) @ (if shapes then refresh_statements t else [])"

text \<open>The loop stops as soon as both flags are set.\<close>

fun refresh_flags :: "quad list \<Rightarrow> bool \<Rightarrow> bool \<Rightarrow> bool \<times> bool" where
  "refresh_flags [] closure shapes = (closure, shapes)"
| "refresh_flags (q # qs) closure shapes =
     (let closure' = (closure \<or> is_schema_quad q); shapes' = (shapes \<or> is_shape_quad q)
      in if closure' \<and> shapes' then (closure', shapes') else refresh_flags qs closure' shapes')"

definition schema_refresh_for :: "schema_texts \<Rightarrow> quad list \<Rightarrow> statement list" where
  "schema_refresh_for t qs = (case refresh_flags qs False False of (closure, shapes) \<Rightarrow> schema_refresh t closure shapes)"

section \<open>Producers of inferences\<close>

definition OWL_PRODUCER :: string where "OWL_PRODUCER = ''owl2rl''"

definition producer_id :: "ext \<Rightarrow> string \<Rightarrow> i64" where
  "producer_id x name = drop_bit 2 (xxh3_64 x name)"

definition replace_quote :: "string \<Rightarrow> string" where
  "replace_quote s = concat (map (\<lambda>c. if c = CHR 0x27 then [CHR 0x27, CHR 0x27] else [c]) s)"

definition inference_reset :: "ext \<Rightarrow> string \<Rightarrow> statement list" where
  "inference_reset x name =
     (let i = show_id (producer_id x name) in
      [statement_new (''INSERT OR REPLACE INTO inf_producers(id, name) VALUES ('' @ i @ '', '' @ [CHR 0x27]
         @ replace_quote name @ [CHR 0x27] @ '')''),
       statement_new (''DELETE FROM quads_inf_src WHERE src = '' @ i),
       statement_new (''DELETE FROM quads_inf WHERE NOT EXISTS (SELECT 1 FROM quads_inf_src q ''
         @ ''WHERE q.s = quads_inf.s AND q.p = quads_inf.p AND q.o = quads_inf.o AND q.g = quads_inf.g)'')])"

definition inference_attribute :: "ext \<Rightarrow> string \<Rightarrow> statement" where
  "inference_attribute x name = statement_new (
     ''INSERT OR IGNORE INTO quads_inf_src(src, s, p, o, g) SELECT '' @ show_id (producer_id x name)
     @ '', i.s, i.p, i.o, i.g FROM quads_inf i ''
     @ ''WHERE NOT EXISTS (SELECT 1 FROM quads_inf_src q WHERE q.s = i.s AND q.p = i.p AND q.o = i.o AND q.g = i.g)'')"

fun signed_ids :: "quad_ids \<Rightarrow> int list" where
  "signed_ids (s, p, ob, g) = map sint [s, p, ob, g]"

definition inference_replace :: "ext \<Rightarrow> string \<Rightarrow> quad list \<Rightarrow> capabilities \<Rightarrow> request \<times> nat" where
  "inference_replace x producer qs caps =
     (let me = fold (push_quad x) qs \<lparr>eq_rows = no_rows, eq_quads = []\<rparr>;
          ids = dedup_by_key (\<lambda>i. i) (List.sort_key signed_ids (eq_quads me));
          stmts = inference_reset x producer @ term_statements (dedup (eq_rows me)) caps
            @ insert_statements_into ''quads_inf'' ids caps @ [inference_attribute x producer]
      in (request_atomic stmts, length ids))"

definition materialize_reset_for :: "ext \<Rightarrow> capabilities \<Rightarrow> string \<Rightarrow> statement list" where
  "materialize_reset_for x caps producer =
     (let iris = [rdf_ns ''type'', rdfs ''subClassOf'', rdfs ''subPropertyOf'', rdfs ''domain'', rdfs ''range'']
            @ map (\<lambda>l. OWL @ l) [''sameAs'', ''equivalentClass'', ''equivalentProperty'', ''Thing'', ''Nothing'', ''Class''];
          rows = fold (\<lambda>iri er. snd (er_iri x iri er)) iris no_rows
      in inference_reset x producer @ term_statements (dedup rows) caps)"

definition materialize_reset :: "ext \<Rightarrow> capabilities \<Rightarrow> statement list" where
  "materialize_reset x caps = materialize_reset_for x caps OWL_PRODUCER"

section \<open>Writes\<close>

definition count_tail :: "response \<Rightarrow> nat \<Rightarrow> nat" where
  "count_tail r n = sum_list (map rs_changes (take n (rev r)))"

definition insert_job :: "ext \<Rightarrow> schema_texts \<Rightarrow> quad list \<Rightarrow> capabilities \<Rightarrow> request \<times> (response \<Rightarrow> error + nat)" where
  "insert_job x t qs caps =
     (let refresh = schema_refresh_for t qs;
          enc = encoded_quads_new x qs;
          quad_stmts = length (quad_insert_statements (eq_quads enc) caps);
          stmts = eq_insert_statements enc caps
      in (request_atomic (stmts @ refresh), \<lambda>r. Inr (count_tail (take (length stmts) r) quad_stmts)))"

definition insert_request :: "ext \<Rightarrow> quad list \<Rightarrow> capabilities \<Rightarrow> request" where
  "insert_request x qs caps = request_atomic (eq_insert_statements (encoded_quads_new x qs) caps)"

definition remove_job :: "ext \<Rightarrow> schema_texts \<Rightarrow> quad list \<Rightarrow> capabilities \<Rightarrow> request \<times> (response \<Rightarrow> error + nat)" where
  "remove_job x t qs caps =
     (let stmts = eq_delete_statements (encoded_quads_new x qs) caps
      in (request_atomic (stmts @ schema_refresh_for t qs),
          \<lambda>r. Inr (sum_list (map rs_changes (take (length stmts) r)))))"

definition insert_named_graph_job ::
  "ext \<Rightarrow> named_or_blank \<Rightarrow> capabilities \<Rightarrow> request \<times> (response \<Rightarrow> error + bool)" where
  "insert_named_graph_job x g caps =
     (let (i, rows) = er_subject x g no_rows;
          stmts = term_statements rows caps
            @ [statement_new (''INSERT OR IGNORE INTO graphs(id) VALUES ('' @ show_id i @ '')'')]
      in (request_atomic stmts, \<lambda>r. Inr (count_tail r 1 > 0)))"

definition remove_named_graph_job :: "ext \<Rightarrow> schema_texts \<Rightarrow> named_or_blank \<Rightarrow> request \<times> (response \<Rightarrow> error + bool)" where
  "remove_named_graph_job x t g =
     (let i = show_id (subject_id x g);
          stmts = [statement_new (''DELETE FROM quads WHERE g = '' @ i),
            statement_new (''DELETE FROM graphs WHERE id = '' @ i),
            statement_new (''DELETE FROM quads WHERE g = '' @ show_id (named_node_id x SCHEMA_GRAPH) @ '' AND s = '' @ i)]
      in (request_atomic (stmts @ schema_refresh t True True),
          \<lambda>r. Inr (\<exists>rs \<in> set (take 2 r). rs_changes rs > 0)))"

definition clear_graph_job :: "ext \<Rightarrow> schema_texts \<Rightarrow> graph_name \<Rightarrow> request \<times> (response \<Rightarrow> error + unit)" where
  "clear_graph_job x t g =
     (request_atomic (statement_new (''DELETE FROM quads WHERE g = '' @ show_id (graph_id x g)) # schema_refresh t True True),
      \<lambda>r. Inr ())"

definition clear_job :: "request \<times> (response \<Rightarrow> error + unit)" where
  "clear_job =
     (request_atomic (map (\<lambda>table. statement_new (''DELETE FROM '' @ table))
        [''quads'', ''quads_inf'', ''quads_inf_src'', ''inf_producers'', ''tbox_closure'', ''shapes_index'',
         ''shapes_in'', ''graphs'', ''triple_terms'', ''terms'']), \<lambda>r. Inr ())"

definition clear_inferences_job :: "request \<times> (response \<Rightarrow> error + unit)" where
  "clear_inferences_job =
     (request_atomic [statement_new ''DELETE FROM quads_inf'', statement_new ''DELETE FROM quads_inf_src''], \<lambda>r. Inr ())"

definition clear_inferences_of_job :: "ext \<Rightarrow> string \<Rightarrow> request \<times> (response \<Rightarrow> error + unit)" where
  "clear_inferences_of_job x producer = (request_atomic (inference_reset x producer), \<lambda>r. Inr ())"

section \<open>Reads of one value\<close>

definition first_value :: "response \<Rightarrow> sql_value option" where
  "first_value r = Option.bind (get_nth r 0) (\<lambda>rs. Option.bind (get_nth (rs_rows rs) 0) (\<lambda>row. get_nth row 0))"

definition scalar :: "response \<Rightarrow> i64" where
  "scalar r = (case Option.bind (first_value r) as_i64 of Some i \<Rightarrow> i | None \<Rightarrow> 0)"

definition contains_job :: "ext \<Rightarrow> quad \<Rightarrow> request \<times> (response \<Rightarrow> error + bool)" where
  "contains_job x q =
     (request_read [statement_new (''SELECT EXISTS (SELECT 1 FROM quads WHERE s = '' @ show_id (subject_id x (q_subject q))
        @ '' AND p = '' @ show_id (named_node_id x (q_predicate q)) @ '' AND o = '' @ show_id (term_id x (q_object q))
        @ '' AND g = '' @ show_id (graph_id x (q_graph q)) @ '')'')],
      \<lambda>r. Inr (scalar r \<noteq> 0))"

definition len_job :: "request \<times> (response \<Rightarrow> error + i64)" where
  "len_job = (request_read [statement_new ''SELECT COUNT(*) FROM quads''], \<lambda>r. Inr (scalar r))"

definition is_empty_job :: "request \<times> (response \<Rightarrow> error + bool)" where
  "is_empty_job = (request_read [statement_new ''SELECT NOT EXISTS (SELECT 1 FROM quads)''], \<lambda>r. Inr (scalar r \<noteq> 0))"

definition contains_named_graph_job :: "ext \<Rightarrow> named_or_blank \<Rightarrow> request \<times> (response \<Rightarrow> error + bool)" where
  "contains_named_graph_job x g =
     (request_read [statement_new (''SELECT EXISTS (SELECT 1 FROM graphs WHERE id = '' @ show_id (subject_id x g) @ '')'')],
      \<lambda>r. Inr (scalar r \<noteq> 0))"

definition inference_producers_job :: "ext \<Rightarrow> quad \<Rightarrow> request \<times> (response \<Rightarrow> error + string list)" where
  "inference_producers_job x q =
     (request_read [statement_new (''SELECT p.name FROM quads_inf_src q JOIN inf_producers p ON p.id = q.src ''
        @ ''WHERE q.s = '' @ show_id (subject_id x (q_subject q)) @ '' AND q.p = '' @ show_id (named_node_id x (q_predicate q))
        @ '' AND q.o = '' @ show_id (term_id x (q_object q)) @ '' AND q.g = '' @ show_id (graph_id x (q_graph q))
        @ '' ORDER BY p.name'')],
      \<lambda>r. Inr (case get_nth r 0 of
          None \<Rightarrow> []
        | Some rs \<Rightarrow> List.map_filter (\<lambda>row. case get_nth row 0 of Some (SqlText t) \<Rightarrow> Some t | _ \<Rightarrow> None) (rs_rows rs)))"

section \<open>Scans\<close>

record scan_job =
  sj_sql :: "string option"
  sj_caps :: capabilities
  sj_resolver :: resolver
  sj_rows :: "quad_ids list"
  sj_started :: bool

definition scan_from_source :: "string \<Rightarrow> string \<Rightarrow> capabilities \<Rightarrow> scan_job" where
  "scan_from_source source where_clause caps = \<lparr>
     sj_sql = Some (''SELECT '' @ id_col caps ''s'' @ '', '' @ id_col caps ''p'' @ '', '' @ id_col caps ''o'' @ '', ''
       @ id_col caps ''g'' @ '' FROM '' @ source @ (if where_clause = [] then [] else '' WHERE '' @ where_clause)),
     sj_caps = caps, sj_resolver = with_constants Map.empty, sj_rows = [], sj_started = False\<rparr>"

definition scan_new :: "string \<Rightarrow> capabilities \<Rightarrow> scan_job" where
  "scan_new = scan_from_source ''quads''"

definition finish_quad :: "resolver \<Rightarrow> quad_ids \<Rightarrow> error + quad" where
  "finish_quad r ids =
     (case ids of (s, p, ob, g) \<Rightarrow>
        rbind (if g = DEFAULT_GRAPH_ID then Inr DefaultGraph
               else rbind (get g r) (\<lambda>t. to_graph_name g (Some t))) (\<lambda>gname.
        rbind (get s r) (\<lambda>st. rbind (get p r) (\<lambda>pt. rbind (get ob r) (\<lambda>ot. make_quad st pt ot gname)))))"

definition scan_finish :: "scan_job \<Rightarrow> error + quad list" where
  "scan_finish j = map_result (finish_quad (sj_resolver j)) (sj_rows j)"

definition scan_row :: "sql_value list \<Rightarrow> scan_job \<Rightarrow> error + scan_job" where
  "scan_row row j =
     (case List.map_filter as_i64 row of
        [s, p, ob, g] \<Rightarrow> Inr (j\<lparr>sj_resolver := fold want [s, p, ob, g] (sj_resolver j), sj_rows := sj_rows j @ [(s, p, ob, g)]\<rparr>)
      | _ \<Rightarrow> Inl (Corrupted ''bad quad row''))"

fun scan_rows :: "sql_value list list \<Rightarrow> scan_job \<Rightarrow> error + scan_job" where
  "scan_rows [] j = Inr j"
| "scan_rows (row # rows) j = rbind (scan_row row j) (scan_rows rows)"

text \<open>The end of a step: ask for the pending terms, or finish.\<close>

definition scan_next :: "scan_job \<Rightarrow> error + scan_job \<times> quad list job_step" where
  "scan_next j =
     (case request (sj_caps j) (sj_resolver j) of
        (Some rq, r) \<Rightarrow> Inr (j\<lparr>sj_resolver := r\<rparr>, Execute rq)
      | (None, r) \<Rightarrow> rbind (scan_finish (j\<lparr>sj_resolver := r\<rparr>)) (\<lambda>qs. Inr (j\<lparr>sj_resolver := r\<rparr>, Done qs)))"

definition scan_step :: "(scan_job, quad list) stepper" where
  "scan_step j resp = Some (
     case sj_sql j of
       Some sql \<Rightarrow> Inr (j\<lparr>sj_sql := None\<rparr>, Execute (request_read [statement_new sql]))
     | None \<Rightarrow>
         rbind (ok_or (Other ''scan resumed without response'') resp) (\<lambda>response.
         rbind (if sj_started j
                then rbind (absorb response (sj_resolver j)) (\<lambda>r. Inr (j\<lparr>sj_resolver := r\<rparr>))
                else scan_rows (concat (map rs_rows response)) (j\<lparr>sj_started := True\<rparr>)) scan_next))"

definition id_list :: "string list \<Rightarrow> string" where
  "id_list ids = (if ids = [] then ''NULL'' else join '','' ids)"

record reasoning_input =
  ri_subject :: "named_or_blank option"
  ri_object :: "rdf_term option"
  ri_predicates :: "string list option"
  ri_graphs :: "graph_name list option"
  ri_include_inferred :: bool
  ri_exclude_producer :: "string option"

definition opt_clause :: "('a \<Rightarrow> string) \<Rightarrow> 'a option \<Rightarrow> string list" where
  "opt_clause f v = (case v of None \<Rightarrow> [] | Some a \<Rightarrow> [f a])"

definition reasoning_input_job :: "ext \<Rightarrow> reasoning_input \<Rightarrow> capabilities \<Rightarrow> scan_job" where
  "reasoning_input_job x input caps =
     (let source = (if ri_include_inferred input
            then ''(SELECT s, p, o, g FROM quads UNION SELECT i.s, i.p, i.o, i.g FROM quads_inf i'' @
              (case ri_exclude_producer input of
                 Some p \<Rightarrow> '' WHERE EXISTS (SELECT 1 FROM quads_inf_src q WHERE q.s = i.s AND q.p = i.p ''
                   @ ''AND q.o = i.o AND q.g = i.g AND q.src != '' @ show_id (producer_id x p) @ '')''
               | None \<Rightarrow> []) @ '')''
            else ''quads'');
          w = opt_clause (\<lambda>s. ''s = '' @ show_id (subject_id x s)) (ri_subject input)
            @ opt_clause (\<lambda>ob. ''o = '' @ show_id (term_id x ob)) (ri_object input)
            @ opt_clause (\<lambda>ps. ''p IN ('' @ id_list (map (\<lambda>p. show_id (named_node_id x p)) ps) @ '')'') (ri_predicates input)
            @ [case ri_graphs input of
                 Some gs \<Rightarrow> ''g IN ('' @ id_list (map (\<lambda>g. show_id (graph_id x g)) gs) @ '')''
               | None \<Rightarrow> ''g NOT IN ('' @ id_list (map (\<lambda>g. show_id (named_node_id x g)) [SCHEMA_GRAPH, VOCABULARY_GRAPH]) @ '')'']
      in scan_from_source source (join '' AND '' w) caps)"

definition neighbourhood_job ::
  "ext \<Rightarrow> rdf_term list \<Rightarrow> bool \<Rightarrow> string list option \<Rightarrow> bool \<Rightarrow> capabilities \<Rightarrow> scan_job" where
  "neighbourhood_job x nodes incoming predicates default_graph_only caps =
     (let w = [(if incoming then ''o'' else ''s'') @ '' IN ('' @ id_list (map (\<lambda>t. show_id (term_id x t)) nodes) @ '')'']
            @ opt_clause (\<lambda>ps. ''p IN ('' @ id_list (map (\<lambda>p. show_id (named_node_id x p)) ps) @ '')'') predicates
            @ (if default_graph_only then [''g = '' @ show_id DEFAULT_GRAPH_ID] else [])
      in scan_new (join '' AND '' w) caps)"

definition scan_pattern_job ::
  "ext \<Rightarrow> named_or_blank option \<Rightarrow> string option \<Rightarrow> rdf_term option \<Rightarrow> graph_name option \<Rightarrow> capabilities \<Rightarrow> scan_job" where
  "scan_pattern_job x s p ob g caps =
     scan_new (join '' AND '' (
       opt_clause (\<lambda>v. ''s = '' @ show_id (subject_id x v)) s
       @ opt_clause (\<lambda>v. ''p = '' @ show_id (named_node_id x v)) p
       @ opt_clause (\<lambda>v. ''o = '' @ show_id (term_id x v)) ob
       @ opt_clause (\<lambda>v. ''g = '' @ show_id (graph_id x v)) g)) caps"

section \<open>Named graphs\<close>

record graphs_job =
  gj_sql :: "string option"
  gj_caps :: capabilities
  gj_resolver :: resolver
  gj_ids :: "i64 list"
  gj_started :: bool

definition named_graphs_job :: "capabilities \<Rightarrow> graphs_job" where
  "named_graphs_job caps = \<lparr>gj_sql = Some (''SELECT '' @ id_col caps ''id'' @ '' FROM graphs''), gj_caps = caps,
     gj_resolver = with_constants Map.empty, gj_ids = [], gj_started = False\<rparr>"

definition graphs_next :: "graphs_job \<Rightarrow> error + graphs_job \<times> named_or_blank list job_step" where
  "graphs_next j =
     (case request (gj_caps j) (gj_resolver j) of
        (Some rq, r) \<Rightarrow> Inr (j\<lparr>gj_resolver := r\<rparr>, Execute rq)
      | (None, r) \<Rightarrow>
          rbind (map_result (\<lambda>i. rbind (get i r) to_subject) (gj_ids j)) (\<lambda>gs. Inr (j\<lparr>gj_resolver := r\<rparr>, Done gs)))"

definition graphs_step :: "(graphs_job, named_or_blank list) stepper" where
  "graphs_step j resp = Some (
     case gj_sql j of
       Some sql \<Rightarrow> Inr (j\<lparr>gj_sql := None\<rparr>, Execute (request_read [statement_new sql]))
     | None \<Rightarrow>
         (let response = (case resp of Some r \<Rightarrow> r | None \<Rightarrow> []) in
          rbind (if gj_started j
                 then rbind (absorb response (gj_resolver j)) (\<lambda>r. Inr (j\<lparr>gj_resolver := r\<rparr>))
                 else Inr (j\<lparr>gj_started := True, gj_ids := ids_of response 0,
                        gj_resolver := fold want (ids_of response 0) (gj_resolver j)\<rparr>)) graphs_next))"

section \<open>Materialization\<close>

record materialize_job =
  mj_reset :: "request option"
  mj_round :: nat
  mj_max_rounds :: nat
  mj_counting :: bool

definition materialize_new :: "ext \<Rightarrow> nat \<Rightarrow> capabilities \<Rightarrow> materialize_job" where
  "materialize_new x max_rounds caps =
     \<lparr>mj_reset = Some (request_atomic (materialize_reset x caps)), mj_round = 0, mj_max_rounds = max_rounds, mj_counting = False\<rparr>"

definition total_changes :: "response option \<Rightarrow> nat" where
  "total_changes r = (case r of None \<Rightarrow> 0 | Some rs \<Rightarrow> sum_list (map rs_changes rs))"

definition materialize_step :: "schema_texts \<Rightarrow> (materialize_job, nat) stepper" where
  "materialize_step t j resp = Some (Inr (
     case mj_reset j of
       Some rq \<Rightarrow> (j\<lparr>mj_reset := None\<rparr>, Execute rq)
     | None \<Rightarrow>
         if mj_counting j
         then (j, Done (nat (max (sint (scalar (case resp of Some r \<Rightarrow> r | None \<Rightarrow> []))) 0)))
         else let changed = total_changes resp in
              if mj_round j > 0 \<and> (changed = 0 \<or> mj_round j \<ge> mj_max_rounds j)
              then (j\<lparr>mj_counting := True\<rparr>, Execute (request_read [statement_new ''SELECT COUNT(*) FROM quads_inf'']))
              else (j\<lparr>mj_round := mj_round j + 1\<rparr>, Execute (request_atomic (materialize_round t)))))"

section \<open>What the writes send and report\<close>

lemma refresh_flags_eq:
  "refresh_flags qs c s = (c \<or> (\<exists>q \<in> set qs. is_schema_quad q), s \<or> (\<exists>q \<in> set qs. is_shape_quad q))"
  by (induction qs arbitrary: c s) (auto simp: Let_def)

lemma schema_refresh_for_eq:
  "schema_refresh_for t qs = schema_refresh t (\<exists>q \<in> set qs. is_schema_quad q) (\<exists>q \<in> set qs. is_shape_quad q)"
  by (simp add: schema_refresh_for_def refresh_flags_eq)

lemma eq_insert_ends:
  obtains A where "eq_insert_statements e caps = A @ quad_insert_statements (eq_quads e) caps"
  by (simp add: eq_insert_statements_def)

lemma count_tail_append: "length rb = n \<Longrightarrow> count_tail (ra @ rb) n = sum_list (map rs_changes rb)"
  by (simp add: count_tail_def rev_map [symmetric] sum_list_rev)

section \<open>Scans resolve what they read\<close>

definition lookup_statement :: "capabilities \<Rightarrow> lookup \<times> i64 list \<Rightarrow> statement" where
  "lookup_statement caps g = (case g of (LTerms, ids) \<Rightarrow> terms_query caps ids | (LTriples, ids) \<Rightarrow> triples_query caps ids)"

text \<open>A backend that answers every lookup of the dictionary tables as \<open>answer\<close> does, and is not changed by it.\<close>

definition answers_lookups ::
  "'b backend \<Rightarrow> 'b \<Rightarrow> capabilities \<Rightarrow> ((lookup \<times> i64 list) list \<Rightarrow> response) \<Rightarrow> bool" where
  "answers_lookups ex b caps answer \<longleftrightarrow>
     (\<forall>gs. list_all (\<lambda>(k, ids). ids \<noteq> []) gs \<longrightarrow>
        ex b (request_read (map (lookup_statement caps) gs)) = (b, Inr (answer gs)))"

lemma groups_nonempty: "list_all (\<lambda>(k, ids). ids \<noteq> []) (groups r)"
proof -
  have "c \<in> set (chunks CHUNK xs) \<Longrightarrow> c \<noteq> []" for c and xs :: "i64 list"
    using chunks_nonempty by fastforce
  then show ?thesis by (auto simp: groups_def list_all_iff)
qed

lemma request_lookups:
  "request caps r = (if rv_pending r = [] then (None, r)
     else (Some (request_read (map (lookup_statement caps) (groups r))),
           r\<lparr>rv_pending := [], rv_in_flight := map fst (groups r)\<rparr>))"
  by (auto simp: request_def lookup_statement_def split: prod.splits lookup.splits intro!: arg_cong [where f = request_read] map_cong)

lemma scan_resolves:
  assumes "answers_lookups ex b (sj_caps j) answer"
    and "resolve_loop fuel answer (sj_caps j) r = Some (Inr r')"
    and "sj_sql j = None" "sj_started j"
  shows "drive (run_sync ex scan_step) ex (Some (scan_next (j\<lparr>sj_resolver := r\<rparr>))) b =
    Some (b, scan_finish (j\<lparr>sj_resolver := r'\<rparr>))"
  using assms(2)
proof (induction fuel arbitrary: r)
  case 0
  then have "rv_pending r = []" "r' = r" by (auto simp: resolve_loop.simps [of 0] request_lookups split: if_splits)
  then show ?case
    by (cases "scan_finish (j\<lparr>sj_resolver := r\<rparr>)") (simp_all add: scan_next_def request_lookups)
next
  case (Suc n)
  show ?case
  proof (cases "rv_pending r = []")
    case True
    with Suc.prems have "r' = r" by (simp add: resolve_loop.simps [of "Suc n"] request_lookups)
    with True show ?thesis
      by (cases "scan_finish (j\<lparr>sj_resolver := r\<rparr>)") (simp_all add: scan_next_def request_lookups)
  next
    case False
    let ?r = "r\<lparr>rv_pending := [], rv_in_flight := map fst (groups r)\<rparr>" and ?rq = "request_read (map (lookup_statement (sj_caps j)) (groups r))"
    obtain r'' where r'': "absorb (answer (groups r)) ?r = Inr r''" "resolve_loop n answer (sj_caps j) r'' = Some (Inr r')"
      using Suc.prems False by (auto simp: resolve_loop.simps [of "Suc n"] request_lookups split: sum.splits)
    have ex: "ex b ?rq = (b, Inr (answer (groups r)))" using assms(1) groups_nonempty by (auto simp: answers_lookups_def)
    have next_eq: "scan_next (j\<lparr>sj_resolver := r\<rparr>) = Inr (j\<lparr>sj_resolver := ?r\<rparr>, Execute ?rq)"
      using False by (simp add: scan_next_def request_lookups)
    have "scan_step (j\<lparr>sj_resolver := ?r\<rparr>) (Some (answer (groups r))) = Some (scan_next (j\<lparr>sj_resolver := r''\<rparr>))"
      using assms(3,4) r''(1) by (simp add: scan_step_def)
    then show ?thesis
      using Suc.IH [OF r''(2)] by (simp add: next_eq ex run_sync_drive [of ex scan_step "j\<lparr>sj_resolver := ?r\<rparr>"])
  qed
qed

definition id_value :: "capabilities \<Rightarrow> i64 \<Rightarrow> sql_value" where
  "id_value caps i = (if int64_as_text caps then SqlText (show_int (sint i)) else SqlInteger i)"

lemma as_i64_id_value [simp]: "as_i64 (id_value caps i) = Some i"
proof -
  have "i64_min \<le> sint i" "sint i \<le> i64_max" using sint_ge [of i] sint_lt [of i] by simp_all
  then show ?thesis by (simp add: id_value_def as_i64_def)
qed

fun quad_values :: "capabilities \<Rightarrow> quad_ids \<Rightarrow> sql_value list" where
  "quad_values caps (s, p, ob, g) = map (id_value caps) [s, p, ob, g]"

fun want_quad :: "quad_ids \<Rightarrow> resolver \<Rightarrow> resolver" where
  "want_quad (s, p, ob, g) r = fold want [s, p, ob, g] r"

lemma scan_rows_ids:
  "scan_rows (map (quad_values caps) ids) j =
     Inr (j\<lparr>sj_resolver := fold want_quad ids (sj_resolver j), sj_rows := sj_rows j @ ids\<rparr>)"
proof (induction ids arbitrary: j)
  case (Cons q ids)
  obtain s p ob g where "q = (s, p, ob, g)" by (cases q)
  with Cons show ?case by (simp add: scan_row_def List.map_filter_simps)
qed simp

text \<open>The two requests of a scan: its statement, then the lookups.\<close>

lemma scan_run:
  assumes "answers_lookups ex b caps answer"
    and scan: "ex b (request_read [statement_new sql]) = (b, Inr [\<lparr>rs_rows = map (quad_values caps) ids, rs_changes = n\<rparr>])"
    and "resolve_loop fuel answer caps (fold want_quad ids (with_constants Map.empty)) = Some (Inr r)"
    and j: "sj_sql j = Some sql" "sj_caps j = caps" "sj_resolver j = with_constants Map.empty" "sj_rows j = []" "\<not> sj_started j"
  shows "run_sync ex scan_step j None b = Some (b, map_result (finish_quad r) ids)"
proof -
  let ?j = "j\<lparr>sj_sql := None, sj_started := True, sj_rows := ids\<rparr>"
  have 1: "scan_step j None = Some (Inr (j\<lparr>sj_sql := None\<rparr>, Execute (request_read [statement_new sql])))"
    using j by (simp add: scan_step_def)
  have 2: "scan_step (j\<lparr>sj_sql := None\<rparr>) (Some [\<lparr>rs_rows = map (quad_values caps) ids, rs_changes = n\<rparr>]) =
      Some (scan_next (?j\<lparr>sj_resolver := fold want_quad ids (with_constants Map.empty)\<rparr>))"
    using j by (cases j) (simp add: scan_step_def scan_rows_ids)
  have "drive (run_sync ex scan_step) ex
      (Some (scan_next (?j\<lparr>sj_resolver := fold want_quad ids (with_constants Map.empty)\<rparr>))) b =
    Some (b, scan_finish (?j\<lparr>sj_resolver := r\<rparr>))"
    by (rule scan_resolves [where fuel = fuel and answer = answer]) (use assms in simp_all)
  then show ?thesis
    by (simp add: run_sync_drive [of ex scan_step j] 1 scan run_sync_drive [of ex scan_step "j\<lparr>sj_sql := None\<rparr>"] 2 scan_finish_def)
qed

section \<open>Materialization rounds\<close>

text \<open>The reference: rounds until one changes nothing or the limit is reached, then a count.\<close>

definition materialize_count :: "'b backend \<Rightarrow> 'b \<Rightarrow> 'b \<times> (error + nat)" where
  "materialize_count ex b =
     (case ex b (request_read [statement_new ''SELECT COUNT(*) FROM quads_inf'']) of
        (b', Inl e) \<Rightarrow> (b', Inl e)
      | (b', Inr resp) \<Rightarrow> (b', Inr (nat (max (sint (scalar resp)) 0))))"

fun materialize_rounds :: "'b backend \<Rightarrow> schema_texts \<Rightarrow> nat \<Rightarrow> 'b \<Rightarrow> 'b \<times> (error + nat)" where
  "materialize_rounds ex t 0 b = materialize_count ex b"
| "materialize_rounds ex t (Suc n) b =
     (case ex b (request_atomic (materialize_round t)) of
        (b', Inl e) \<Rightarrow> (b', Inl e)
      | (b', Inr resp) \<Rightarrow>
          if sum_list (map rs_changes resp) = 0 then materialize_count ex b' else materialize_rounds ex t n b')"

lemma materialize_counting:
  assumes "mj_reset j = None" "mj_round j > 0" "total_changes resp = 0 \<or> mj_round j \<ge> mj_max_rounds j" "\<not> mj_counting j"
  shows "run_sync ex (materialize_step t) j resp b = Some (materialize_count ex b)"
proof -
  have "run_sync ex (materialize_step t) (j\<lparr>mj_counting := True\<rparr>) (Some r) b' =
      Some (b', Inr (nat (max (sint (scalar r)) 0)))" for r b'
    using assms by (subst run_sync.simps) (simp add: materialize_step_def)
  with assms show ?thesis
    by (subst run_sync.simps) (auto simp: materialize_step_def materialize_count_def Let_def split: prod.splits sum.splits)
qed

lemma materialize_rounds_run:
  assumes "mj_reset j = None" "\<not> mj_counting j" "mj_round j + n = max 1 (mj_max_rounds j)"
    and "mj_round j > 0 \<Longrightarrow> n > 0 \<Longrightarrow> total_changes resp > 0"
  shows "run_sync ex (materialize_step t) j resp b = Some (materialize_rounds ex t n b)"
  using assms
proof (induction n arbitrary: j resp b)
  case 0
  then show ?case using materialize_counting [of j resp ex t b] by (simp split: if_splits)
next
  case (Suc n)
  let ?j = "j\<lparr>mj_round := mj_round j + 1\<rparr>" and ?rq = "request_atomic (materialize_round t)"
  have st: "materialize_step t j resp = Some (Inr (?j, Execute ?rq))"
    using Suc.prems by (auto simp: materialize_step_def Let_def)
  obtain b' z where e: "ex b ?rq = (b', z)" by force
  show ?case
  proof (cases z)
    case (Inl err)
    with st e show ?thesis by (simp add: run_sync_drive [of ex "materialize_step t" j])
  next
    case (Inr r)
    have run: "run_sync ex (materialize_step t) j resp b = run_sync ex (materialize_step t) ?j (Some r) b'"
      using st e Inr by (simp add: run_sync_drive [of ex "materialize_step t" j])
    show ?thesis
    proof (cases "sum_list (map rs_changes r) = 0")
      case True
      then have "run_sync ex (materialize_step t) ?j (Some r) b' = Some (materialize_count ex b')"
        using Suc.prems by (intro materialize_counting) (simp_all add: total_changes_def)
      with run True e Inr show ?thesis by simp
    next
      case False
      then have "total_changes (Some r) > 0" by (simp only: total_changes_def option.simps neq0_conv)
      then have "run_sync ex (materialize_step t) ?j (Some r) b' = Some (materialize_rounds ex t n b')"
        by (intro Suc.IH) (use Suc.prems in simp_all)
      with run False e Inr show ?thesis by (simp del: sum_list_eq_0_iff)
    qed
  qed
qed

section \<open>Properties\<close>

text \<open>
  C36. \<^verbatim>\<open>insert_job\<close> sends one atomic request that ends with the quad inserts and then the rebuilds of the schema
  caches its quads touch, and from the response it reports exactly the rows the quad inserts changed: neither
  the dictionary rows before them nor the rebuilds after them are counted.
\<close>

theorem insert_job_counts:
  assumes "insert_job x t qs caps = (rq, decode)"
    and "length resp = length (rq_statements rq)"
  shows "\<exists>before. rq = request_atomic (before @ quad_insert_statements (eq_quads (encoded_quads_new x qs)) caps @
      schema_refresh t (\<exists>q \<in> set qs. is_schema_quad q) (\<exists>q \<in> set qs. is_shape_quad q)) \<and>
    decode resp = Inr (sum_list (map rs_changes
      (take (length (quad_insert_statements (eq_quads (encoded_quads_new x qs)) caps)) (drop (length before) resp))))"
proof -
  let ?qi = "quad_insert_statements (eq_quads (encoded_quads_new x qs)) caps"
  obtain A where A: "eq_insert_statements (encoded_quads_new x qs) caps = A @ ?qi" by (rule eq_insert_ends)
  let ?n = "length A" and ?m = "length ?qi"
  have rq: "rq = request_atomic (A @ ?qi @ schema_refresh_for t qs)"
    and d: "decode = (\<lambda>r. Inr (count_tail (take (?n + ?m) r) ?m))"
    using assms(1) A by (auto simp: insert_job_def Let_def)
  have "take (?n + ?m) resp = take ?n resp @ take ?m (drop ?n resp)" by (rule take_add)
  moreover have "length (take ?m (drop ?n resp)) = ?m" using assms(2) rq by (simp add: request_atomic_def)
  ultimately have "count_tail (take (?n + ?m) resp) ?m = sum_list (map rs_changes (take ?m (drop ?n resp)))"
    by (simp add: count_tail_append)
  then show ?thesis using rq d by (auto simp: schema_refresh_for_eq)
qed

definition toy_texts :: schema_texts where
  "toy_texts = \<lparr>closure_statements = [statement_new ''DELETE FROM tbox_closure''], refresh_statements = [],
     materialize_round = []\<rparr>"

definition toy_quad :: quad where
  "toy_quad = \<lparr>q_subject = SNamed ''http://a'', q_predicate = rdfs ''subClassOf'', q_object = NamedNode ''http://b'',
     q_graph = DefaultGraph\<rparr>"

theorem insert_job_counts_witness:
  "\<exists>before. fst (insert_job toy_ext toy_texts [toy_quad] caps_native) =
      request_atomic (before @ quad_insert_statements (eq_quads (encoded_quads_new toy_ext [toy_quad])) caps_native @
        schema_refresh toy_texts (\<exists>q \<in> set [toy_quad]. is_schema_quad q) (\<exists>q \<in> set [toy_quad]. is_shape_quad q)) \<and>
    snd (insert_job toy_ext toy_texts [toy_quad] caps_native) (replicate (length (rq_statements
        (fst (insert_job toy_ext toy_texts [toy_quad] caps_native)))) \<lparr>rs_rows = [], rs_changes = 1\<rparr>) =
      Inr (sum_list (map rs_changes (take (length (quad_insert_statements (eq_quads (encoded_quads_new toy_ext [toy_quad])) caps_native))
        (drop (length before) (replicate (length (rq_statements
          (fst (insert_job toy_ext toy_texts [toy_quad] caps_native)))) \<lparr>rs_rows = [], rs_changes = 1\<rparr>)))))"
  by (rule insert_job_counts) simp_all

text \<open>
  C37. Materialization returns for every backend: it is the reset, then at most \<open>max 1 n\<close> rounds stopping after
  the first that changes nothing, then the count; an error of any request ends it.
\<close>

theorem materialize_run:
  "run_sync ex (materialize_step t) (materialize_new x n caps) None b =
     Some (case ex b (request_atomic (materialize_reset x caps)) of
        (b', Inl e) \<Rightarrow> (b', Inl e)
      | (b', Inr _) \<Rightarrow> materialize_rounds ex t (max 1 n) b')"
proof -
  let ?j = "materialize_new x n caps\<lparr>mj_reset := None\<rparr>"
  have "run_sync ex (materialize_step t) ?j (Some r) b' = Some (materialize_rounds ex t (max 1 n) b')" for r b'
    by (rule materialize_rounds_run) (simp_all add: materialize_new_def)
  moreover have "materialize_step t (materialize_new x n caps) None =
      Some (Inr (?j, Execute (request_atomic (materialize_reset x caps))))"
    by (simp add: materialize_step_def materialize_new_def)
  ultimately show ?thesis
    by (subst run_sync_drive) (simp add: drive_def split: prod.splits sum.splits)
qed

end
