(* ===== verification/Roundtrip.thy ===== *)
theory Roundtrip
  imports Ops
begin

text \<open>
  Writing and reading meet: the rows \<^verbatim>\<open>EncodedQuads::new\<close> collects are the dictionary the resolver reads
  from, so what was encoded is decoded again. The tables are modelled by the rows stored in them; a lookup
  \<^verbatim>\<open>SELECT \<dots> WHERE id IN (\<dots>)\<close> answers with the rows whose id is in the list.
\<close>

section \<open>The stored tables\<close>

definition opt_value :: "('a \<Rightarrow> sql_value) \<Rightarrow> 'a option \<Rightarrow> sql_value" where
  "opt_value f v = (case v of None \<Rightarrow> SqlNull | Some a \<Rightarrow> f a)"

definition term_values :: "capabilities \<Rightarrow> term_row \<Rightarrow> sql_value list" where
  "term_values caps r = [id_value caps (tr_id r), SqlText (tr_lex r), opt_value SqlText (tr_dt r),
     opt_value SqlText (tr_lang r), opt_value (\<lambda>d. SqlInteger (word_of_int d)) (tr_dir r)]"

definition triple_values :: "capabilities \<Rightarrow> triple_row \<Rightarrow> sql_value list" where
  "triple_values caps r = map (id_value caps) [pr_id r, pr_s r, pr_p r, pr_o r]"

definition stored_answer :: "capabilities \<Rightarrow> encoded_rows \<Rightarrow> (lookup \<times> i64 list) list \<Rightarrow> response" where
  "stored_answer caps rows gs = map (\<lambda>(k, ids). \<lparr>rs_rows =
     (case k of
        LTerms \<Rightarrow> map (term_values caps) (filter (\<lambda>r. tr_id r \<in> set ids) (er_terms rows))
      | LTriples \<Rightarrow> map (triple_values caps) (filter (\<lambda>r. pr_id r \<in> set ids) (er_triples rows))), rs_changes = 0\<rparr>) gs"

section \<open>Which rows are collected\<close>

primrec subterms :: "rdf_term \<Rightarrow> rdf_term set" where
  "subterms (NamedNode n) = {NamedNode n}"
| "subterms (BlankNode b) = {BlankNode b}"
| "subterms (Lit l) = {Lit l}"
| "subterms (TripleTerm s p ob) = {TripleTerm s p ob, subject_term s, NamedNode p} \<union> subterms ob"

definition graph_terms :: "graph_name \<Rightarrow> rdf_term set" where
  "graph_terms g = (case g of DefaultGraph \<Rightarrow> {} | GNamed n \<Rightarrow> {NamedNode n} | GBlank b \<Rightarrow> {BlankNode b})"

definition quad_terms :: "quad \<Rightarrow> rdf_term set" where
  "quad_terms q = {subject_term (q_subject q), NamedNode (q_predicate q)} \<union> subterms (q_object q) \<union> graph_terms (q_graph q)"

fun term_row_of :: "ext \<Rightarrow> rdf_term \<Rightarrow> term_row option" where
  "term_row_of x (NamedNode n) = Some (plain_row (named_node_id x n) n None None)"
| "term_row_of x (BlankNode b) = Some (plain_row (blank_node_id x b) b None None)"
| "term_row_of x (Lit l) = snd (encode_literal x l)"
| "term_row_of x (TripleTerm s p ob) = None"

fun triple_row_of :: "ext \<Rightarrow> rdf_term \<Rightarrow> triple_row option" where
  "triple_row_of x (TripleTerm s p ob) = Some \<lparr>pr_id = term_id x (TripleTerm s p ob), pr_s = subject_id x s,
     pr_p = named_node_id x p, pr_o = term_id x ob, pr_vk = value_key x (TripleTerm s p ob),
     pr_sk = sort_key x (TripleTerm s p ob)\<rparr>"
| "triple_row_of x _ = None"

text \<open>The rows of \<open>er\<close> are those of the terms in \<open>T\<close>.\<close>

definition exact_rows :: "ext \<Rightarrow> rdf_term set \<Rightarrow> encoded_rows \<Rightarrow> bool" where
  "exact_rows x T er \<longleftrightarrow>
     set (er_terms er) = {r. \<exists>t \<in> T. term_row_of x t = Some r} \<and>
     set (er_triples er) = {r. \<exists>t \<in> T. triple_row_of x t = Some r}"

lemma exact_iri: "exact_rows x T er \<Longrightarrow> exact_rows x (insert (NamedNode n) T) (snd (er_iri x n er))"
  by (auto simp: exact_rows_def er_iri_def push_term_def Let_def)

lemma exact_bnode: "exact_rows x T er \<Longrightarrow> exact_rows x (insert (BlankNode b) T) (snd (er_bnode x b er))"
  by (auto simp: exact_rows_def er_bnode_def push_term_def Let_def)

lemma exact_subject: "exact_rows x T er \<Longrightarrow> exact_rows x (insert (subject_term s) T) (snd (er_subject x s er))"
  by (cases s) (simp_all add: er_subject_def subject_term_def exact_iri exact_bnode)

lemma exact_graph: "exact_rows x T er \<Longrightarrow> exact_rows x (T \<union> graph_terms g) (snd (er_graph x g er))"
  by (cases g) (simp_all add: er_graph_def graph_terms_def exact_iri exact_bnode)

lemma exact_term: "exact_rows x T er \<Longrightarrow> exact_rows x (T \<union> subterms t) (snd (er_term x t er))"
proof (induction t arbitrary: T er)
  case (Lit l)
  obtain i row where e: "encode_literal x l = (i, row)" by force
  with Lit show ?case by (cases row) (auto simp: exact_rows_def push_term_def)
next
  case (TripleTerm s p ob)
  let ?t = "TripleTerm s p ob"
  obtain i1 er1 where 1: "er_subject x s er = (i1, er1)" by force
  obtain i2 er2 where 2: "er_iri x p er1 = (i2, er2)" by force
  obtain i3 er3 where 3: "er_term x ob er2 = (i3, er3)" by force
  have ids: "i1 = subject_id x s" "i2 = named_node_id x p" "i3 = term_id x ob"
    using arg_cong [OF 1, of fst] arg_cong [OF 2, of fst] arg_cong [OF 3, of fst] by simp_all
  have "exact_rows x (insert (subject_term s) T) er1" using exact_subject [OF TripleTerm.prems, of s] 1 by simp
  from exact_iri [OF this, of p] have "exact_rows x (insert (NamedNode p) (insert (subject_term s) T)) er2" using 2 by simp
  from TripleTerm.IH [OF this] have e3: "exact_rows x (insert (NamedNode p) (insert (subject_term s) T) \<union> subterms ob) er3"
    using 3 by simp
  have "snd (er_term x ?t er) = er3\<lparr>er_triples := er_triples er3 @ [the (triple_row_of x ?t)]\<rparr>"
    using 1 2 3 ids by (simp add: Let_def)
  with e3 show ?case by (auto simp: exact_rows_def)
qed (simp_all add: exact_iri exact_bnode)

lemma exact_quad: "exact_rows x T er \<Longrightarrow> exact_rows x (T \<union> quad_terms q) (snd (er_quad x q er))"
proof -
  assume T: "exact_rows x T er"
  obtain i1 er1 where 1: "er_subject x (q_subject q) er = (i1, er1)" by force
  obtain i2 er2 where 2: "er_iri x (q_predicate q) er1 = (i2, er2)" by force
  obtain i3 er3 where 3: "er_term x (q_object q) er2 = (i3, er3)" by force
  obtain i4 er4 where 4: "er_graph x (q_graph q) er3 = (i4, er4)" by force
  have "exact_rows x (insert (subject_term (q_subject q)) T) er1" using exact_subject [OF T, of "q_subject q"] 1 by simp
  from exact_iri [OF this, of "q_predicate q"]
  have "exact_rows x (insert (NamedNode (q_predicate q)) (insert (subject_term (q_subject q)) T)) er2" using 2 by simp
  from exact_graph [OF exact_term [OF this, of "q_object q"], of "q_graph q"] 3
  have "exact_rows x (insert (NamedNode (q_predicate q)) (insert (subject_term (q_subject q)) T) \<union> subterms (q_object q)
      \<union> graph_terms (q_graph q)) er4" using 4 by simp
  moreover have "insert (NamedNode (q_predicate q)) (insert (subject_term (q_subject q)) T) \<union> subterms (q_object q)
      \<union> graph_terms (q_graph q) = T \<union> quad_terms q" by (auto simp: quad_terms_def)
  moreover have "snd (er_quad x q er) = er4" using 1 2 3 4 by (simp add: er_quad_def)
  ultimately show ?thesis by simp
qed

lemma exact_quads:
  "exact_rows x T (eq_rows me) \<Longrightarrow> exact_rows x (T \<union> \<Union> (quad_terms ` set qs)) (eq_rows (fold (push_quad x) qs me))"
proof (induction qs arbitrary: T me)
  case (Cons q qs)
  have "eq_rows (push_quad x q me) = snd (er_quad x q (eq_rows me))" by (simp add: push_quad_def split: prod.splits)
  with exact_quad [OF Cons.prems, of q] have "exact_rows x (T \<union> quad_terms q) (eq_rows (push_quad x q me))" by simp
  from Cons.IH [OF this] show ?case by (simp add: Un_assoc)
qed simp

lemma eq_quads_ids:
  "eq_quads (encoded_quads_new x qs) =
     map (\<lambda>q. (subject_id x (q_subject q), named_node_id x (q_predicate q), term_id x (q_object q), graph_id x (q_graph q))) qs"
proof -
  have "eq_quads (fold (push_quad x) qs me) = eq_quads me @ map (\<lambda>q. (subject_id x (q_subject q),
      named_node_id x (q_predicate q), term_id x (q_object q), graph_id x (q_graph q))) qs" for me
  proof (induction qs arbitrary: me)
    case (Cons q qs)
    have "eq_quads (push_quad x q me) = eq_quads me @ [fst (er_quad x q (eq_rows me))]"
      by (simp add: push_quad_def split: prod.splits)
    with Cons show ?case by (simp add: er_quad_def Let_def split_beta)
  qed simp
  then show ?thesis by (simp add: encoded_quads_new_def Let_def)
qed

section \<open>The store is a dictionary\<close>

text \<open>
  The terms of a list of quads can be stored when they are well formed, their language tags and datatypes hold
  no NUL byte, and none of the strings hashed for them collide. \<open>stored_terms\<close> is what a reader may ask for.
\<close>

definition all_terms :: "quad list \<Rightarrow> rdf_term set" where
  "all_terms qs = \<Union> (quad_terms ` set qs)"

definition store_ok :: "ext \<Rightarrow> quad list \<Rightarrow> bool" where
  "store_ok x qs \<longleftrightarrow> (\<forall>q \<in> set qs. wf_term (q_object q) \<and> nul_free_term (q_object q)) \<and>
     \<not> collision x (\<Union> (term_keys x ` all_terms qs))"

definition stored_terms :: "ext \<Rightarrow> quad list \<Rightarrow> rdf_term set" where
  "stored_terms x qs = (if store_ok x qs then all_terms qs else {})"

lemma subject_term_plain [simp]:
  "wf_term (subject_term s)" "nul_free_term (subject_term s)" "TripleTerm s' p' ob' \<noteq> subject_term s"
  by (cases s; simp add: subject_term_def)+

lemma graph_terms_plain:
  "u \<in> graph_terms g \<Longrightarrow> wf_term u \<and> nul_free_term u" "TripleTerm s' p' ob' \<notin> graph_terms g"
  by (cases g; simp add: graph_terms_def)+

lemma subterms_facts:
  "u \<in> subterms t \<Longrightarrow> wf_term t \<Longrightarrow> wf_term u"
  "u \<in> subterms t \<Longrightarrow> nul_free_term t \<Longrightarrow> nul_free_term u"
  "t \<in> subterms t"
  "TripleTerm s p ob \<in> subterms t \<Longrightarrow> {subject_term s, NamedNode p, ob} \<subseteq> subterms t"
proof -
  show self: "t \<in> subterms t" for t by (cases t) auto
  show "u \<in> subterms t \<Longrightarrow> wf_term t \<Longrightarrow> wf_term u" by (induction t) auto
  show "u \<in> subterms t \<Longrightarrow> nul_free_term t \<Longrightarrow> nul_free_term u" by (induction t) auto
  show "TripleTerm s p ob \<in> subterms t \<Longrightarrow> {subject_term s, NamedNode p, ob} \<subseteq> subterms t"
    by (induction t) (auto simp: self)
qed

lemma all_terms_facts:
  assumes "\<forall>q \<in> set qs. wf_term (q_object q) \<and> nul_free_term (q_object q)" "t \<in> all_terms qs"
  shows "wf_term t" "nul_free_term t"
  using assms graph_terms_plain(1) subterms_facts(1,2) by (auto simp: all_terms_def quad_terms_def)

lemma all_terms_parts:
  assumes "TripleTerm s p ob \<in> all_terms qs"
  shows "{subject_term s, NamedNode p, ob} \<subseteq> all_terms qs"
proof -
  obtain q where q: "q \<in> set qs" "TripleTerm s p ob \<in> quad_terms q" using assms by (auto simp: all_terms_def)
  then have "TripleTerm s p ob \<in> subterms (q_object q)"
    using graph_terms_plain(2) by (auto simp: quad_terms_def)
  from subterms_facts(4) [OF this] q(1) show ?thesis by (auto simp: all_terms_def quad_terms_def)
qed

lemma stored_facts:
  assumes "t \<in> stored_terms x qs"
  shows "wf_term t" "TripleTerm s p ob = t \<Longrightarrow> subject_term s \<in> stored_terms x qs \<and> NamedNode p \<in> stored_terms x qs \<and> ob \<in> stored_terms x qs"
    "u \<in> stored_terms x qs \<Longrightarrow> term_id x t = term_id x u \<Longrightarrow> t = u"
proof -
  have ok: "store_ok x qs" and t: "t \<in> all_terms qs" using assms by (auto simp: stored_terms_def split: if_splits)
  then have w: "\<forall>q \<in> set qs. wf_term (q_object q) \<and> nul_free_term (q_object q)" by (simp add: store_ok_def)
  note facts = all_terms_facts [OF w]
  show "wf_term t" by (rule facts(1) [OF t])
  show "TripleTerm s p ob = t \<Longrightarrow> subject_term s \<in> stored_terms x qs \<and> NamedNode p \<in> stored_terms x qs \<and> ob \<in> stored_terms x qs"
    using all_terms_parts [of s p ob qs] t ok by (simp add: stored_terms_def)
  assume "u \<in> stored_terms x qs" and eq: "term_id x t = term_id x u"
  then have u: "u \<in> all_terms qs" using ok by (simp add: stored_terms_def)
  have "t = u \<or> collision x (\<Union> (term_keys x ` all_terms qs))"
    by (rule term_id_inj_aux [OF facts(1) [OF t] facts(1) [OF u] facts(2) [OF t] facts(2) [OF u] eq]) (use t u in auto)
  with ok show "t = u" by (simp add: store_ok_def)
qed

text \<open>Ids keep rows apart, so removing duplicates loses none.\<close>

lemma set_dedup_by_key: "inj_on f (set rs) \<Longrightarrow> set (dedup_by_key f rs) = set rs"
  by (induction f rs rule: dedup_by_key.induct) (auto simp: inj_on_def)

lemma term_row_of_facts:
  assumes "term_row_of x t = Some r" "wf_term t"
  shows "tr_id r = term_id x t" "row_decodes r t" "tr_dir r \<in> {None, Some 0, Some 1, Some 2}"
proof -
  show "tr_id r = term_id x t" "row_decodes r t"
    using assms encode_literal_decodes [of _ x "fst (encode_literal x _)" "Some r"]
    by (cases t; auto simp: plain_row_def row_decodes_def decode_row_def prod_eq_iff)+
  have "snd (encode_literal x l) = Some r \<Longrightarrow> tr_dir r \<in> {None, Some 0, Some 1, Some 2}" for l
    by (auto simp: encode_literal_def Let_def plain_row_def timezone_flag_def split: option.splits if_splits base_direction.splits)
  then show "tr_dir r \<in> {None, Some 0, Some 1, Some 2}"
    using assms by (cases t) (auto simp: plain_row_def)
qed

lemma triple_row_of_facts:
  assumes "triple_row_of x t = Some r"
  obtains s p ob where "t = TripleTerm s p ob" "pr_id r = term_id x t" "pr_s r = subject_id x s"
    "pr_p r = named_node_id x p" "pr_o r = term_id x ob"
  using assms by (cases t) auto

lemma stored_rows:
  assumes "store_ok x qs"
  shows "exact_rows x (stored_terms x qs) (eq_rows (encoded_quads_new x qs))"
proof -
  let ?er = "eq_rows (fold (push_quad x) qs \<lparr>eq_rows = no_rows, eq_quads = []\<rparr>)" and ?D = "stored_terms x qs"
  have D: "?D = all_terms qs" using assms by (simp add: stored_terms_def)
  have "exact_rows x ({} \<union> \<Union> (quad_terms ` set qs)) ?er"
    by (rule exact_quads) (simp add: exact_rows_def no_rows_def)
  then have er: "exact_rows x ?D ?er" by (simp add: D all_terms_def)
  have "inj_on (\<lambda>r. sint (tr_id r)) (set (er_terms ?er))"
  proof (rule inj_onI)
    fix a b assume ab: "a \<in> set (er_terms ?er)" "b \<in> set (er_terms ?er)" "sint (tr_id a) = sint (tr_id b)"
    then obtain t u where tu: "t \<in> ?D" "term_row_of x t = Some a" "u \<in> ?D" "term_row_of x u = Some b"
      using er by (auto simp: exact_rows_def)
    with ab(3) term_row_of_facts(1) stored_facts(1) have "term_id x t = term_id x u" by (metis signed_word_eqI)
    with stored_facts(3) tu show "a = b" by fastforce
  qed
  moreover have "inj_on (\<lambda>r. sint (pr_id r)) (set (er_triples ?er))"
  proof (rule inj_onI)
    fix a b assume ab: "a \<in> set (er_triples ?er)" "b \<in> set (er_triples ?er)" "sint (pr_id a) = sint (pr_id b)"
    then obtain t u where tu: "t \<in> ?D" "triple_row_of x t = Some a" "u \<in> ?D" "triple_row_of x u = Some b"
      using er by (auto simp: exact_rows_def)
    with ab(3) have "term_id x t = term_id x u" by (metis triple_row_of_facts signed_word_eqI)
    with stored_facts(3) tu show "a = b" by fastforce
  qed
  ultimately show ?thesis using er
    by (simp add: encoded_quads_new_def Let_def dedup_def exact_rows_def set_dedup_by_key)
qed

text \<open>What a stored row says when it is read back.\<close>

lemma opt_text_value: "into_string (opt_value SqlText v) = v"
  by (cases v) (simp_all add: opt_value_def into_string_def)

lemma dir_value:
  "d \<in> {None, Some 0, Some 1, Some 2} \<Longrightarrow>
     map_option sint (as_i64 (opt_value (\<lambda>d. SqlInteger (word_of_int d)) d)) = d"
  by (auto simp: opt_value_def as_i64_def)

lemma term_row_for:
  assumes "term_row_of x t = Some r" "wf_term t"
  shows "row_for x LTerms t (term_values caps r)"
  using term_row_of_facts [OF assms] dir_value [OF term_row_of_facts(3) [OF assms]]
  by (simp add: row_for_def term_values_def id_cell_def col_def term_cells_def cell_text_def opt_text_value
      row_decodes_def numeral_eq_Suc into_string_def [of "SqlText _"])

lemma triple_row_for:
  assumes "triple_row_of x t = Some r"
  shows "row_for x LTriples t (triple_values caps r)"
  using assms by (cases t) (auto simp: row_for_def triple_values_def id_cell_def col_def numeral_eq_Suc)

lemma stored_answer_row:
  assumes "i < length gs" "gs ! i = (k, ids)"
  shows "row \<in> set (rs_rows (stored_answer caps rows gs ! i)) \<longleftrightarrow>
    (case k of LTerms \<Rightarrow> \<exists>r \<in> set (er_terms rows). tr_id r \<in> set ids \<and> row = term_values caps r
      | LTriples \<Rightarrow> \<exists>r \<in> set (er_triples rows). pr_id r \<in> set ids \<and> row = triple_values caps r)"
  using assms by (cases k) (auto simp: stored_answer_def)

interpretation stored: dictionary x "stored_terms x qs" "stored_answer caps (eq_rows (encoded_quads_new x qs))" for x qs caps
proof (unfold_locales, goal_cases)
  case (1 t)
  then show ?case by (rule stored_facts(1))
next
  case (2 s p ob)
  then show ?case using stored_facts(2) by blast
next
  case (3 t u)
  then show ?case by (rule stored_facts(3))
next
  case (4 gs)
  show ?case by (simp add: stored_answer_def)
next
  case (5 i gs k ids row)
  let ?rows = "eq_rows (encoded_quads_new x qs)"
  show ?case
  proof (cases "store_ok x qs")
    case True
    note ex = stored_rows [OF True, unfolded exact_rows_def]
    show ?thesis
    proof (cases k)
      case LTerms
      with 5(4) stored_answer_row [OF 5(1,2)] obtain r where r: "r \<in> set (er_terms ?rows)" "tr_id r \<in> set ids"
        "row = term_values caps r" by auto
      then obtain t where t: "t \<in> stored_terms x qs" "term_row_of x t = Some r" using ex by blast
      note wf = stored_facts(1) [OF t(1)]
      show ?thesis using term_row_for [OF t(2) wf, of caps] term_row_of_facts(1) [OF t(2) wf] r t(1) LTerms by auto
    next
      case LTriples
      with 5(4) stored_answer_row [OF 5(1,2)] obtain r where r: "r \<in> set (er_triples ?rows)" "pr_id r \<in> set ids"
        "row = triple_values caps r" by auto
      then obtain t where t: "t \<in> stored_terms x qs" "triple_row_of x t = Some r" using ex by blast
      from t(2) have "pr_id r = term_id x t" by (rule triple_row_of_facts)
      with triple_row_for [OF t(2), of caps] r t(1) LTriples show ?thesis by auto
    qed
  next
    case False
    then have "ids = []" using 5(3) by (simp add: stored_terms_def)
    with 5(4) stored_answer_row [OF 5(1,2)] show ?thesis by (auto split: lookup.splits)
  qed
next
  case (6 i gs k ids t)
  let ?rows = "eq_rows (encoded_quads_new x qs)"
  have "store_ok x qs" using 6(4) by (auto simp: stored_terms_def split: if_splits)
  note ex = stored_rows [OF this, unfolded exact_rows_def] and wf = stored_facts(1) [OF 6(4)]
  show ?case
  proof (cases "triple_row_of x t")
    case (Some r)
    then have k: "k = LTriples" and "pr_id r = term_id x t" using 6(7) by (cases t; auto)+
    moreover have "r \<in> set (er_triples ?rows)" using ex 6(4) Some by blast
    ultimately have "triple_values caps r \<in> set (rs_rows (stored_answer caps ?rows gs ! i))"
      unfolding stored_answer_row [OF 6(1,2)] using 6(5) by (simp del: term_id.simps) (rule bexI [of _ r]; simp)
    with triple_row_for [OF Some, of caps] k show ?thesis by blast
  next
    case None
    then have k: "k = LTerms" using 6(7) by (cases t) auto
    obtain r where r: "term_row_of x t = Some r"
    proof (cases t)
      case (Lit l)
      then show thesis
        using encode_literal_decodes [of l x "fst (encode_literal x l)" "snd (encode_literal x l)"] 6(6) wf that
        by (auto split: option.splits)
    qed (use None that in auto)
    moreover have "r \<in> set (er_terms ?rows)" using ex 6(4) r by blast
    ultimately have "term_values caps r \<in> set (rs_rows (stored_answer caps ?rows gs ! i))"
      unfolding stored_answer_row [OF 6(1,2)] using 6(5) term_row_of_facts(1) [OF r wf] k
      by (simp del: term_id.simps) (rule bexI [of _ r]; simp)
    with term_row_for [OF r wf, of caps] k show ?thesis by blast
  qed
qed

section \<open>Scanning the stored quads\<close>

definition quad_ids_of :: "ext \<Rightarrow> quad \<Rightarrow> quad_ids" where
  "quad_ids_of x q = (subject_id x (q_subject q), named_node_id x (q_predicate q), term_id x (q_object q), graph_id x (q_graph q))"

definition graph_term_list :: "graph_name \<Rightarrow> rdf_term list" where
  "graph_term_list g = (case g of DefaultGraph \<Rightarrow> [] | GNamed n \<Rightarrow> [NamedNode n] | GBlank b \<Rightarrow> [BlankNode b])"

definition quad_term_list :: "quad \<Rightarrow> rdf_term list" where
  "quad_term_list q = [subject_term (q_subject q), NamedNode (q_predicate q), q_object q] @ graph_term_list (q_graph q)"

lemma subject_term_simps [simp]: "term_id x (subject_term s) = subject_id x s" "depth (subject_term s) = 0"
  by (cases s; simp add: subject_term_def subject_id_def)+

lemma want_default [simp]: "want DEFAULT_GRAPH_ID r = r"
  by (simp add: want_def)

lemma want_quad_terms: "want_quad (quad_ids_of x q) r = fold (\<lambda>t. want (term_id x t)) (quad_term_list q) r"
  by (cases "q_graph q") (simp_all add: quad_ids_of_def quad_term_list_def graph_term_list_def graph_id_def)

lemma want_quads_terms:
  "fold want_quad (map (quad_ids_of x) qs) r = fold (\<lambda>t. want (term_id x t)) (concat (map quad_term_list qs)) r"
  by (induction qs arbitrary: r) (simp_all add: want_quad_terms)

lemma quad_term_list_sub: "set (quad_term_list q) \<subseteq> quad_terms q"
  using subterms_facts(3) [of "q_object q"]
  by (cases "q_graph q") (auto simp: quad_term_list_def graph_term_list_def quad_terms_def graph_terms_def)

lemma quad_term_list_depth: "t \<in> set (quad_term_list q) \<Longrightarrow> depth t \<le> depth (q_object q)"
  by (cases "q_graph q") (auto simp: quad_term_list_def graph_term_list_def)

lemma finish_quad_ok:
  assumes "\<forall>t \<in> set (quad_term_list q). get (term_id x t) r = Inr t"
  shows "finish_quad r (quad_ids_of x q) = Inr q"
proof -
  have g: "get (subject_id x (q_subject q)) r = Inr (subject_term (q_subject q))"
    "get (named_node_id x (q_predicate q)) r = Inr (NamedNode (q_predicate q))"
    "get (term_id x (q_object q)) r = Inr (q_object q)"
    using assms by (force simp: quad_term_list_def)+
  have s: "to_subject (subject_term (q_subject q)) = Inr (q_subject q)"
    by (cases "q_subject q") (simp_all add: to_subject_def subject_term_def)
  have nz: "named_node_id x n \<noteq> DEFAULT_GRAPH_ID" "blank_node_id x n \<noteq> DEFAULT_GRAPH_ID" for n
    using tag_of_ids [of x n] by (auto simp: DEFAULT_GRAPH_ID_def tag_of_def tag_from_u8_def)
  show ?thesis
    using assms g s nz
    by (cases "q_graph q") (simp_all add: finish_quad_def quad_ids_of_def quad_term_list_def graph_term_list_def graph_id_def
        make_quad_def to_graph_name_def)
qed

text \<open>
  A backend that reads the tables: a statement that is neither of the two lookups is taken to be a scan of the
  quads. It shows that what is asked of a backend below can be met.
\<close>

fun split_char :: "char \<Rightarrow> string \<Rightarrow> string list" where
  "split_char c [] = [[]]"
| "split_char c (d # s) = (if d = c then [] # split_char c s
     else (case split_char c s of w # ws \<Rightarrow> (d # w) # ws | [] \<Rightarrow> [[d]]))"

definition read_ids :: "string \<Rightarrow> i64 list" where
  "read_ids s = map (\<lambda>w. word_of_int (the (parse_i64 w))) (split_char CHR '','' (butlast s))"

definition terms_prefix :: "capabilities \<Rightarrow> string" where
  "terms_prefix caps = ''SELECT '' @ id_col caps ''id'' @ '', lex, dt, lang, dir FROM terms WHERE id IN (''"

definition triples_prefix :: "capabilities \<Rightarrow> string" where
  "triples_prefix caps = ''SELECT '' @ id_col caps ''id'' @ '', '' @ id_col caps ''s''
     @ '', '' @ id_col caps ''p'' @ '', '' @ id_col caps ''o'' @ '' FROM triple_terms WHERE id IN (''"

definition table_result :: "capabilities \<Rightarrow> encoded_quads \<Rightarrow> string \<Rightarrow> result_set" where
  "table_result caps e sql =
     (case strip_prefix (terms_prefix caps) sql of
        Some rest \<Rightarrow> hd (stored_answer caps (eq_rows e) [(LTerms, read_ids rest)])
      | None \<Rightarrow>
          (case strip_prefix (triples_prefix caps) sql of
             Some rest \<Rightarrow> hd (stored_answer caps (eq_rows e) [(LTriples, read_ids rest)])
           | None \<Rightarrow> \<lparr>rs_rows = map (quad_values caps) (eq_quads e), rs_changes = 0\<rparr>))"

definition table_backend :: "capabilities \<Rightarrow> encoded_quads \<Rightarrow> unit backend" where
  "table_backend caps e b rq = (b, Inr (map (\<lambda>st. table_result caps e (st_sql st)) (rq_statements rq)))"

lemma split_char_join:
  "xs \<noteq> [] \<Longrightarrow> \<forall>s \<in> set xs. c \<notin> set s \<Longrightarrow> split_char c (join [c] xs) = xs"
proof (induction "[c]" xs rule: join.induct)
  case (2 s)
  then have "c \<notin> set s" by simp
  then show ?case by (induction s) auto
next
  case (3 s s' ss)
  then have IH: "split_char c (join [c] (s' # ss)) = s' # ss" and s: "c \<notin> set s" by auto
  from s have "split_char c (s @ c # join [c] (s' # ss)) = s # s' # ss" by (induction s) (auto simp: IH)
  then show ?case by simp
qed simp

lemma show_int_no_comma: "CHR '','' \<notin> set (show_int i)"
  using show_int_chars [of "CHR '',''" i] by (auto simp: is_ascii_digit_def)

lemma read_join_ids: "ids \<noteq> [] \<Longrightarrow> read_ids (join_ids ids @ '')'') = ids"
proof -
  assume ids: "ids \<noteq> []"
  have "word_of_int (the (parse_i64 (show_int (sint i)))) = i" for i :: i64
  proof -
    have "i64_min \<le> sint i" "sint i \<le> i64_max" using sint_ge [of i] sint_lt [of i] by simp_all
    then show ?thesis by simp
  qed
  moreover have "split_char CHR '','' (join_ids ids) = map (\<lambda>i. show_int (sint i)) ids"
    unfolding join_ids_def by (rule split_char_join) (use ids show_int_no_comma in auto)
  ultimately show ?thesis by (simp add: read_ids_def butlast_append comp_def)
qed

lemma table_lookup:
  "ids \<noteq> [] \<Longrightarrow> table_result caps e (st_sql (lookup_statement caps (k, ids))) = hd (stored_answer caps (eq_rows e) [(k, ids)])"
proof (cases k)
  case LTerms
  assume "ids \<noteq> []"
  then have "strip_prefix (terms_prefix caps) (st_sql (lookup_statement caps (k, ids))) = Some (join_ids ids @ '')'')"
    using strip_prefix_append [of "terms_prefix caps" "join_ids ids @ '')''"]
    by (simp add: LTerms lookup_statement_def terms_query_def statement_new_def terms_prefix_def del: strip_prefix_append)
  with \<open>ids \<noteq> []\<close> LTerms show ?thesis by (simp add: table_result_def read_join_ids)
next
  case LTriples
  assume ids: "ids \<noteq> []"
  have "st_sql (lookup_statement caps (k, ids)) = triples_prefix caps @ join_ids ids @ '')''"
    by (simp add: LTriples lookup_statement_def triples_query_def statement_new_def triples_prefix_def)
  moreover have "strip_prefix (terms_prefix caps) (triples_prefix caps @ s) = None" for s
    by (simp add: strip_prefix_def starts_with_def terms_prefix_def triples_prefix_def id_col_def)
  ultimately show ?thesis using ids LTriples by (simp add: table_result_def read_join_ids)
qed

lemma table_answers: "answers_lookups (table_backend caps e) b caps (stored_answer caps (eq_rows e))"
  unfolding answers_lookups_def table_backend_def request_read_def
proof (intro allI impI)
  fix gs :: "(lookup \<times> i64 list) list" assume "list_all (\<lambda>(k, ids). ids \<noteq> []) gs"
  then have "map (\<lambda>g. table_result caps e (st_sql (lookup_statement caps g))) gs = stored_answer caps (eq_rows e) gs"
    by (induction gs) (auto simp: table_lookup stored_answer_def)
  then show "(b, Inr (map (\<lambda>st. table_result caps e (st_sql st))
      (rq_statements \<lparr>rq_statements = map (lookup_statement caps) gs, rq_mode = Read\<rparr>))) = (b, Inr (stored_answer caps (eq_rows e) gs))"
    by (simp add: comp_def)
qed

section \<open>Properties\<close>

text \<open>
  C2. What is written is read back. A scan over a store that holds the rows \<^verbatim>\<open>EncodedQuads::new\<close> collected, run by
  the driver on any backend that answers the scan with rows of the quad table and the lookups with the dictionary
  rows, returns (it does not loop, fail or report corruption) the quads of those rows, in order, each one of the
  quads written. Hypotheses: the terms are well formed and their hashes do not collide (\<open>store_ok\<close>).
\<close>

theorem scan_returns_written_quads:
  assumes ok: "store_ok x qs"
    and lookups: "answers_lookups ex b caps (stored_answer caps (eq_rows (encoded_quads_new x qs)))"
    and sql: "sj_sql (scan_from_source source w caps) = Some sql"
    and scan: "ex b (request_read [statement_new sql]) = (b, Inr [\<lparr>rs_rows = map (quad_values caps) ids, rs_changes = n\<rparr>])"
    and ids: "set ids \<subseteq> set (eq_quads (encoded_quads_new x qs))"
  shows "\<exists>out. run_sync ex scan_step (scan_from_source source w caps) None b = Some (b, Inr out) \<and>
    map (quad_ids_of x) out = ids \<and> set out \<subseteq> set qs"
proof -
  have "\<forall>i \<in> set ids. \<exists>q. i = quad_ids_of x q \<and> q \<in> set qs"
    using ids by (force simp: eq_quads_ids quad_ids_of_def)
  then have "\<exists>out. ids = map (quad_ids_of x) out \<and> set out \<subseteq> set qs"
  proof (induction ids)
    case (Cons i ids)
    then obtain q out where "i = quad_ids_of x q" "q \<in> set qs" "ids = map (quad_ids_of x) out" "set out \<subseteq> set qs" by auto
    then show ?case by (intro exI [of _ "q # out"]) simp
  qed simp
  then obtain out where out: "ids = map (quad_ids_of x) out" "set out \<subseteq> set qs" by blast
  let ?ts = "concat (map quad_term_list out)" and ?ans = "stored_answer caps (eq_rows (encoded_quads_new x qs))"
  let ?n = "Suc (Max (insert 0 (depth ` set ?ts)))"
  have ts: "set ?ts \<subseteq> stored_terms x qs"
    using out(2) ok quad_term_list_sub by (fastforce simp: stored_terms_def all_terms_def)
  have "\<forall>t \<in> set ?ts. depth t < ?n" by (auto intro!: le_imp_less_Suc Max_ge simp del: set_concat)
  from stored.resolves [OF ts this le_refl, of Map.empty caps caps] obtain r where r:
    "resolve_loop ?n ?ans caps (fold want_quad ids (with_constants Map.empty)) = Some (Inr r)"
    "\<forall>t \<in> set ?ts. get (term_id x t) r = Inr t"
    unfolding out(1) want_quads_terms by auto
  have "map_result (finish_quad r) ids = Inr out"
    using r(2) unfolding out(1) by (induction out) (auto simp: finish_quad_ok)
  with scan_run [OF lookups scan r(1), of "scan_from_source source w caps"] sql show ?thesis
    using out by (auto simp: scan_from_source_def)
qed

definition toy_quads :: "quad list" where
  "toy_quads = [\<lparr>q_subject = SNamed ''a'', q_predicate = ''p'', q_object = Lit (typed_literal ''7'' xsd_integer), q_graph = DefaultGraph\<rparr>,
     \<lparr>q_subject = SBlank ''b'', q_predicate = ''p'', q_object = NamedNode ''c'', q_graph = GNamed ''g''\<rparr>]"

lemma toy_quads_ok: "store_ok toy_ext toy_quads"
  by (simp add: store_ok_def toy_quads_def all_terms_def quad_terms_def graph_terms_def subject_term_def wf_literal_def
      int_literal_def typed_literal_def nul_free_literal_def literal_keys_def collision_def hash_key_def toy_ext_def xsd_def char_of_def)

lemma starts_with_simps:
  "starts_with [] s" "\<not> starts_with (c # p) []" "starts_with (c # p) (d # s) \<longleftrightarrow> c = d \<and> starts_with p s"
  by (auto simp: starts_with_def)

lemma table_scan_d1:
  assumes "sj_sql (scan_new [] caps_d1) = Some sql"
  shows "table_backend caps_d1 e b (request_read [statement_new sql]) =
    (b, Inr [\<lparr>rs_rows = map (quad_values caps_d1) (eq_quads e), rs_changes = 0\<rparr>])"
proof -
  have "strip_prefix (terms_prefix caps_d1) (the (sj_sql (scan_new [] caps_d1))) = None"
    "strip_prefix (triples_prefix caps_d1) (the (sj_sql (scan_new [] caps_d1))) = None"
    by (simp_all add: strip_prefix_def starts_with_simps terms_prefix_def triples_prefix_def scan_new_def scan_from_source_def
        id_col_def caps_d1_def)
  with assms show ?thesis by (simp add: table_backend_def table_result_def request_read_def statement_new_def)
qed

theorem scan_returns_written_quads_witness:
  "\<exists>out. run_sync (table_backend caps_d1 (encoded_quads_new toy_ext toy_quads)) scan_step (scan_from_source ''quads'' [] caps_d1) None () =
       Some ((), Inr out) \<and>
     map (quad_ids_of toy_ext) out = eq_quads (encoded_quads_new toy_ext toy_quads) \<and> set out \<subseteq> set toy_quads"
proof -
  have sql: "sj_sql (scan_from_source ''quads'' [] caps_d1) = Some (the (sj_sql (scan_new [] caps_d1)))"
    by (simp add: scan_new_def scan_from_source_def)
  show ?thesis
    by (rule scan_returns_written_quads [OF toy_quads_ok table_answers sql table_scan_d1])
      (use sql in \<open>simp_all add: scan_new_def\<close>)
qed

end
