(* ===== verification/Datalog_Exec.thy ===== *)
theory Datalog_Exec
  imports Roundtrip
begin

text \<open>
  Running a compiled Datalog program (\<^verbatim>\<open>exec.rs\<close> of the Datalog crate, with the records of \<^verbatim>\<open>sql.rs\<close> it runs):
  the step machine that seeds and iterates the components that need it, reads the goal, removes its work rows and
  resolves the terms. A step is \<^const>\<open>None\<close> where an index or \<^verbatim>\<open>expect\<close> of the code would panic.
\<close>

section \<open>Compiled programs\<close>

record fixpoint_phase =
  fp_preds :: "string list"
  fp_seed :: "string list"
  fp_step :: "string list"

record fixpoint =
  fx_run :: i64
  fx_phases :: "fixpoint_phase list"
  fx_max_iterations :: nat

definition fx_is_empty :: "fixpoint \<Rightarrow> bool" where
  "fx_is_empty f \<longleftrightarrow> fx_phases f = []"

definition fx_cleanup :: "fixpoint \<Rightarrow> string" where
  "fx_cleanup f = ''DELETE FROM datalog_work WHERE run = '' @ show_int (sint (fx_run f))"

definition fx_count :: "fixpoint \<Rightarrow> string" where
  "fx_count f = ''SELECT COUNT(*) FROM datalog_work WHERE run = '' @ show_int (sint (fx_run f))"

record compiled =
  cp_sql :: string
  cp_variables :: "string list"
  cp_constants :: "i64 \<rightharpoonup> rdf_term"
  cp_notes :: "string list"
  cp_fixpoint :: fixpoint

record datalog_result =
  dr_variables :: "string list"
  dr_rows :: "rdf_term option list list"
  dr_rounds :: "nat list"

definition dr_index_of :: "datalog_result \<Rightarrow> string \<Rightarrow> nat option" where
  "dr_index_of r name =
     (let n = (case strip_prefix ''?'' name of Some n \<Rightarrow> n | None \<Rightarrow> name) in find_index (\<lambda>v. v = n) (dr_variables r))"

definition dr_get :: "datalog_result \<Rightarrow> nat \<Rightarrow> string \<Rightarrow> rdf_term option" where
  "dr_get r row name =
     Option.bind (dr_index_of r name) (\<lambda>i. Option.bind (get_nth (dr_rows r) row) (\<lambda>cells. Option.bind (get_nth cells i) (\<lambda>c. c)))"

section \<open>The step machine\<close>

datatype dl_state = Start | Seeded nat | Stepped nat i64 nat | Rows | CleaningUp | Resolving | Finished

record datalog_job =
  dj_compiled :: compiled
  dj_caps :: capabilities
  dj_state :: dl_state
  dj_resolver :: resolver
  dj_ids :: "i64 option list list"
  dj_rounds :: "nat list"

definition datalog_job_new :: "compiled \<Rightarrow> capabilities \<Rightarrow> datalog_job" where
  "datalog_job_new c caps = \<lparr>dj_compiled = c, dj_caps = caps, dj_state = Start,
     dj_resolver = with_constants (cp_constants c), dj_ids = [], dj_rounds = []\<rparr>"

definition seed_request :: "fixpoint \<Rightarrow> nat \<Rightarrow> request option" where
  "seed_request f phase =
     map_option (\<lambda>ph. request_atomic (
         (if phase = 0 then [statement_new (fx_cleanup f)] else []) @ map statement_new (fp_seed ph)
         @ [statement_new (fx_count f)])) (get_nth (fx_phases f) phase)"

definition step_once :: "fixpoint \<Rightarrow> nat \<Rightarrow> request option" where
  "step_once f phase =
     map_option (\<lambda>ph. request_atomic (map statement_new (fp_step ph) @ [statement_new (fx_count f)])) (get_nth (fx_phases f) phase)"

definition main_query :: "compiled \<Rightarrow> request" where
  "main_query c = request_read [statement_new (cp_sql c)]"

definition count_of :: "response \<Rightarrow> i64" where
  "count_of resp =
     (case (if resp = [] then None
            else Option.bind (get_nth (rs_rows (last resp)) 0) (\<lambda>row. Option.bind (get_nth row 0) as_i64)) of
        Some n \<Rightarrow> n | None \<Rightarrow> 0)"

definition after_phase :: "datalog_job \<Rightarrow> nat \<Rightarrow> (datalog_job \<times> request) option" where
  "after_phase j phase =
     (let f = cp_fixpoint (dj_compiled j) in
      if phase + 1 < length (fx_phases f)
      then map_option (\<lambda>rq. (j\<lparr>dj_state := Seeded (phase + 1)\<rparr>, rq)) (seed_request f (phase + 1))
      else Some (j\<lparr>dj_state := Rows\<rparr>, main_query (dj_compiled j)))"

definition cell_id :: "sql_value list \<Rightarrow> nat \<Rightarrow> i64 option" where
  "cell_id row i =
     (case (case get_nth row i of
              None \<Rightarrow> None
            | Some v \<Rightarrow>
                if v = SqlNull then None
                else (case as_i64 v of
                        Some n \<Rightarrow> Some n
                      | None \<Rightarrow> Option.bind (as_str v) (\<lambda>s. map_option word_of_int (parse_i64 s)))) of
        None \<Rightarrow> None
      | Some n \<Rightarrow> if n = DEFAULT_GRAPH_ID then None else Some n)"

definition row_cells :: "nat \<Rightarrow> sql_value list \<Rightarrow> i64 option list" where
  "row_cells width row = map (cell_id row) [0..<width]"

definition want_cells :: "i64 option list \<Rightarrow> resolver \<Rightarrow> resolver" where
  "want_cells cells r = fold (\<lambda>c r. case c of None \<Rightarrow> r | Some i \<Rightarrow> want i r) cells r"

definition dj_absorb :: "response \<Rightarrow> datalog_job \<Rightarrow> error + datalog_job" where
  "dj_absorb resp j =
     (case resp of
        [] \<Rightarrow> Inl (error_backend ''empty response'')
      | rs # _ \<Rightarrow>
          let cells = map (row_cells (length (cp_variables (dj_compiled j)))) (rs_rows rs)
          in Inr (j\<lparr>dj_resolver := fold want_cells cells (dj_resolver j), dj_ids := dj_ids j @ cells\<rparr>))"

definition finish_cell :: "resolver \<Rightarrow> i64 option \<Rightarrow> error + rdf_term option" where
  "finish_cell r c = (case c of None \<Rightarrow> Inr None | Some i \<Rightarrow> rbind (get i r) (\<lambda>t. Inr (Some t)))"

definition dj_finish :: "datalog_job \<Rightarrow> error + datalog_result" where
  "dj_finish j =
     rbind (map_result (map_result (finish_cell (dj_resolver j))) (dj_ids j)) (\<lambda>rows.
       Inr \<lparr>dr_variables = cp_variables (dj_compiled j), dr_rows = rows, dr_rounds = dj_rounds j\<rparr>)"

definition resolve_or_done :: "datalog_job \<Rightarrow> error + datalog_job \<times> datalog_result job_step" where
  "resolve_or_done j =
     (case request (dj_caps j) (dj_resolver j) of
        (Some rq, r) \<Rightarrow> Inr (j\<lparr>dj_resolver := r, dj_state := Resolving\<rparr>, Execute rq)
      | (None, r) \<Rightarrow>
          (let j' = j\<lparr>dj_resolver := r, dj_state := Finished\<rparr> in rbind (dj_finish j') (\<lambda>out. Inr (j', Done out))))"

text \<open>\<^verbatim>\<open>into_core\<close> of \<^verbatim>\<open>DatalogError::IterationLimit\<close>; the store errors the job meets pass through it unchanged.\<close>

definition iteration_limit :: "string list \<Rightarrow> nat \<Rightarrow> error" where
  "iteration_limit preds rounds = error_backend (''the component '' @ join '', '' preds @ '' did not reach a fixpoint within ''
     @ show_nat rounds @ '' rounds; raise Options::max_iterations if the program really needs more'')"

definition datalog_step :: "(datalog_job, datalog_result) stepper" where
  "datalog_step j resp =
     (let c = dj_compiled j; f = cp_fixpoint c; response = (case resp of Some r \<Rightarrow> r | None \<Rightarrow> []) in
      case dj_state j of
        Start \<Rightarrow>
          if fx_is_empty f then Some (Inr (j\<lparr>dj_state := Rows\<rparr>, Execute (main_query c)))
          else map_option (\<lambda>rq. Inr (j\<lparr>dj_state := Seeded 0\<rparr>, Execute rq)) (seed_request f 0)
      | Seeded phase \<Rightarrow>
          map_option (\<lambda>rq. Inr (j\<lparr>dj_rounds := dj_rounds j @ [0], dj_state := Stepped phase (count_of response) 1\<rparr>, Execute rq))
            (step_once f phase)
      | Stepped phase before round \<Rightarrow>
          if dj_rounds j = [] then None
          else (let after = count_of response;
                    j' = j\<lparr>dj_rounds := butlast (dj_rounds j) @ [round]\<rparr> in
                if after = before then map_option (\<lambda>(j'', rq). Inr (j'', Execute rq)) (after_phase j' phase)
                else if round \<ge> fx_max_iterations f
                then map_option (\<lambda>ph. Inl (iteration_limit (fp_preds ph) round)) (get_nth (fx_phases f) phase)
                else map_option (\<lambda>rq. Inr (j'\<lparr>dj_state := Stepped phase after (round + 1)\<rparr>, Execute rq)) (step_once f phase))
      | Rows \<Rightarrow>
          Some (rbind (ok_or (error_backend ''missing response for the program'') resp) (\<lambda>r.
            rbind (dj_absorb r j) (\<lambda>j'.
              if fx_is_empty f then resolve_or_done j'
              else Inr (j'\<lparr>dj_state := CleaningUp\<rparr>, Execute (request_atomic [statement_new (fx_cleanup f)])))))
      | CleaningUp \<Rightarrow> Some (resolve_or_done j)
      | Resolving \<Rightarrow>
          Some (rbind (case resp of None \<Rightarrow> Inr j | Some r \<Rightarrow> rbind (absorb r (dj_resolver j)) (\<lambda>rv. Inr (j\<lparr>dj_resolver := rv\<rparr>)))
            resolve_or_done)
      | Finished \<Rightarrow> Some (Inl (error_backend ''the program is already finished'')))"

section \<open>The reference: phases one after the other\<close>

text \<open>Step a phase until the count stops changing or the limit is reached.\<close>

function phase_rounds :: "'b backend \<Rightarrow> fixpoint \<Rightarrow> fixpoint_phase \<Rightarrow> request \<Rightarrow> nat \<Rightarrow> i64 \<Rightarrow> 'b \<Rightarrow> 'b \<times> (error + nat)" where
  "phase_rounds ex f ph rq round before b =
     (case ex b rq of
        (b', Inl e) \<Rightarrow> (b', Inl e)
      | (b', Inr resp) \<Rightarrow>
          if count_of resp = before then (b', Inr round)
          else if round \<ge> fx_max_iterations f then (b', Inl (iteration_limit (fp_preds ph) round))
          else phase_rounds ex f ph rq (round + 1) (count_of resp) b')"
  by pat_completeness auto
termination by (relation "measure (\<lambda>(ex, f, ph, rq, round, before, b). fx_max_iterations f - round)") auto

declare phase_rounds.simps [simp del]

definition run_phase :: "'b backend \<Rightarrow> fixpoint \<Rightarrow> nat \<Rightarrow> 'b \<Rightarrow> 'b \<times> (error + nat)" where
  "run_phase ex f phase b =
     (case ex b (the (seed_request f phase)) of
        (b', Inl e) \<Rightarrow> (b', Inl e)
      | (b', Inr resp) \<Rightarrow> phase_rounds ex f (fx_phases f ! phase) (the (step_once f phase)) 1 (count_of resp) b')"

fun run_phases :: "'b backend \<Rightarrow> fixpoint \<Rightarrow> nat list \<Rightarrow> nat list \<Rightarrow> 'b \<Rightarrow> 'b \<times> (error + nat list)" where
  "run_phases ex f [] rounds b = (b, Inr rounds)"
| "run_phases ex f (phase # phases) rounds b =
     (case run_phase ex f phase b of
        (b', Inl e) \<Rightarrow> (b', Inl e)
      | (b', Inr n) \<Rightarrow> run_phases ex f phases (rounds @ [n]) b')"

text \<open>What follows: the goal statement, then cleaning up and resolution.\<close>

definition run_goal :: "'b backend \<Rightarrow> datalog_job \<Rightarrow> 'b \<Rightarrow> ('b \<times> (error + datalog_result)) option" where
  "run_goal ex j b =
     (case ex b (main_query (dj_compiled j)) of
        (b', Inl e) \<Rightarrow> Some (b', Inl e)
      | (b', Inr resp) \<Rightarrow> run_sync ex datalog_step (j\<lparr>dj_state := Rows\<rparr>) (Some resp) b')"

section \<open>The step machine runs the reference\<close>

lemma after_phase_state [simp]: "after_phase (j\<lparr>dj_state := st\<rparr>) phase = after_phase j phase"
  by (simp add: after_phase_def Let_def)

abbreviation go :: "'b backend \<Rightarrow> (error + datalog_job \<times> datalog_result job_step) option \<Rightarrow> 'b \<Rightarrow> ('b \<times> (error + datalog_result)) option" where
  "go ex m b \<equiv> drive (run_sync ex datalog_step) ex m b"

abbreviation execute_next :: "(datalog_job \<times> request) option \<Rightarrow> (error + datalog_job \<times> datalog_result job_step) option" where
  "execute_next m \<equiv> map_option (\<lambda>(j, rq). Inr (j, Execute rq)) m"

lemma phase_requests:
  "phase < length (fx_phases f) \<Longrightarrow> step_once f phase = Some (the (step_once f phase))"
  "phase < length (fx_phases f) \<Longrightarrow> seed_request f phase = Some (the (seed_request f phase))"
  "phase < length (fx_phases f) \<Longrightarrow> get_nth (fx_phases f) phase = Some (fx_phases f ! phase)"
  by (simp_all add: step_once_def seed_request_def get_nth_def)

lemma stepped_go:
  assumes "f = cp_fixpoint (dj_compiled j)" "phase < length (fx_phases f)"
    and "dj_state j = Stepped phase before round" "dj_rounds j \<noteq> []"
  shows "go ex (Some (Inr (j, Execute (the (step_once f phase))))) b =
    (case phase_rounds ex f (fx_phases f ! phase) (the (step_once f phase)) round before b of
       (b', Inl e) \<Rightarrow> Some (b', Inl e)
     | (b', Inr n) \<Rightarrow> go ex (execute_next (after_phase (j\<lparr>dj_rounds := butlast (dj_rounds j) @ [n]\<rparr>) phase)) b')"
  using assms
proof (induction "fx_max_iterations f - round" arbitrary: j before round b rule: less_induct)
  case less
  let ?rq = "the (step_once f phase)" and ?ph = "fx_phases f ! phase"
  obtain b' z where e: "ex b ?rq = (b', z)" by force
  show ?case
  proof (cases z)
    case (Inl err)
    with e show ?thesis by (simp add: phase_rounds.simps [of ex f ?ph ?rq round])
  next
    case (Inr resp)
    let ?j = "j\<lparr>dj_rounds := butlast (dj_rounds j) @ [round]\<rparr>"
    have st: "datalog_step j (Some resp) =
      (if count_of resp = before then execute_next (after_phase ?j phase)
       else if round \<ge> fx_max_iterations f then Some (Inl (iteration_limit (fp_preds ?ph) round))
       else Some (Inr (?j\<lparr>dj_state := Stepped phase (count_of resp) (round + 1)\<rparr>, Execute ?rq)))"
      using less.prems phase_requests [of phase f] by (simp add: datalog_step_def Let_def)
    have g: "go ex (Some (Inr (j, Execute ?rq))) b = go ex (datalog_step j (Some resp)) b'"
      using e Inr by (simp add: run_sync_drive [of ex datalog_step j])
    show ?thesis
    proof (cases "count_of resp = before \<or> round \<ge> fx_max_iterations f")
      case True
      with e Inr g st show ?thesis by (auto simp: phase_rounds.simps [of ex f ?ph ?rq round])
    next
      case False
      let ?j' = "?j\<lparr>dj_state := Stepped phase (count_of resp) (round + 1)\<rparr>"
      have dec: "fx_max_iterations f - (round + 1) < fx_max_iterations f - round" using False by linarith
      have ap: "after_phase (?j'\<lparr>dj_rounds := butlast (dj_rounds ?j') @ [n]\<rparr>) phase =
          after_phase (j\<lparr>dj_rounds := butlast (dj_rounds j) @ [n]\<rparr>) phase" for n
        by (simp add: after_phase_def Let_def)
      have IH: "go ex (Some (Inr (?j', Execute ?rq))) b' =
          (case phase_rounds ex f ?ph ?rq (round + 1) (count_of resp) b' of
             (b'', Inl e) \<Rightarrow> Some (b'', Inl e)
           | (b'', Inr n) \<Rightarrow> go ex (execute_next (after_phase (?j'\<lparr>dj_rounds := butlast (dj_rounds ?j') @ [n]\<rparr>) phase)) b'')"
        by (rule less.hyps [OF dec]) (use less.prems in simp_all)
      show ?thesis using False e Inr g st IH [unfolded ap] by (simp add: phase_rounds.simps [of ex f ?ph ?rq round])
    qed
  qed
qed

lemma run_goal_cong:
  assumes "j\<lparr>dj_state := Rows\<rparr> = j'\<lparr>dj_state := Rows\<rparr>"
  shows "run_goal ex j b = run_goal ex j' b"
proof -
  have "dj_compiled j = dj_compiled j'" using arg_cong [OF assms, of dj_compiled] by simp
  then show ?thesis unfolding run_goal_def assms by simp
qed

lemma phases_go:
  assumes "f = cp_fixpoint (dj_compiled j)" "phase < length (fx_phases f)" "dj_state j = Seeded phase"
  shows "go ex (Some (Inr (j, Execute (the (seed_request f phase))))) b =
    (case run_phases ex f [phase..<length (fx_phases f)] (dj_rounds j) b of
       (b', Inl e) \<Rightarrow> Some (b', Inl e)
     | (b', Inr rounds) \<Rightarrow> run_goal ex (j\<lparr>dj_rounds := rounds\<rparr>) b')"
  using assms
proof (induction "length (fx_phases f) - phase" arbitrary: j phase b rule: less_induct)
  case less
  let ?rq = "the (seed_request f phase)" and ?st = "the (step_once f phase)" and ?ph = "fx_phases f ! phase"
  have upt: "[phase..<length (fx_phases f)] = phase # [phase + 1..<length (fx_phases f)]"
    using less.prems(2) by (simp add: upt_conv_Cons)
  obtain b1 z where e: "ex b ?rq = (b1, z)" by force
  show ?case
  proof (cases z)
    case (Inl err)
    with e upt show ?thesis by (simp add: run_phase_def)
  next
    case (Inr resp)
    let ?j = "j\<lparr>dj_rounds := dj_rounds j @ [0], dj_state := Stepped phase (count_of resp) 1\<rparr>"
    have "datalog_step j (Some resp) = Some (Inr (?j, Execute ?st))"
      using less.prems phase_requests(1) [OF less.prems(2)] by (simp add: datalog_step_def Let_def)
    then have g: "go ex (Some (Inr (j, Execute ?rq))) b = go ex (Some (Inr (?j, Execute ?st))) b1"
      using e Inr by (simp add: run_sync_drive [of ex datalog_step j])
    let ?res = "phase_rounds ex f ?ph ?st 1 (count_of resp) b1"
    have s: "go ex (Some (Inr (?j, Execute ?st))) b1 =
        (case ?res of (b', Inl e) \<Rightarrow> Some (b', Inl e)
         | (b', Inr n) \<Rightarrow> go ex (execute_next (after_phase (?j\<lparr>dj_rounds := butlast (dj_rounds ?j) @ [n]\<rparr>) phase)) b')"
      by (rule stepped_go) (use less.prems in simp_all)
    have run: "run_phase ex f phase b = ?res" using e Inr by (simp add: run_phase_def)
    obtain b2 y where res: "?res = (b2, y)" by force
    show ?thesis
    proof (cases y)
      case (Inl err)
      with g s run res upt show ?thesis by simp
    next
      case (Inr n)
      let ?j2 = "j\<lparr>dj_rounds := dj_rounds j @ [n]\<rparr>"
      have ap: "after_phase (?j\<lparr>dj_rounds := butlast (dj_rounds ?j) @ [n]\<rparr>) phase = after_phase ?j2 phase"
        by (simp add: after_phase_def Let_def)
      show ?thesis
      proof (cases "phase + 1 < length (fx_phases f)")
        case True
        have a2: "after_phase ?j2 phase = Some (?j2\<lparr>dj_state := Seeded (phase + 1)\<rparr>, the (seed_request f (phase + 1)))"
          using True less.prems(1) phase_requests(2) [OF True] by (simp add: after_phase_def Let_def)
        have IH: "go ex (Some (Inr (?j2\<lparr>dj_state := Seeded (phase + 1)\<rparr>, Execute (the (seed_request f (phase + 1)))))) b2 =
            (case run_phases ex f [phase + 1..<length (fx_phases f)] (dj_rounds (?j2\<lparr>dj_state := Seeded (phase + 1)\<rparr>)) b2 of
               (b', Inl e) \<Rightarrow> Some (b', Inl e)
             | (b', Inr rounds) \<Rightarrow> run_goal ex (?j2\<lparr>dj_state := Seeded (phase + 1), dj_rounds := rounds\<rparr>) b')"
          by (rule less.hyps) (use True less.prems in simp_all)
        have rg: "run_goal ex (?j2\<lparr>dj_state := Seeded (phase + 1), dj_rounds := rounds\<rparr>) b' =
            run_goal ex (j\<lparr>dj_rounds := rounds\<rparr>) b'" for rounds b'
          by (rule run_goal_cong) (cases j; simp)
        show ?thesis using g s ap a2 IH [unfolded rg] run res Inr upt by simp
      next
        case False
        then have "after_phase ?j2 phase = Some (?j2\<lparr>dj_state := Rows\<rparr>, main_query (dj_compiled j))"
          using less.prems(1) by (simp add: after_phase_def Let_def)
        moreover have "go ex (Some (Inr (?j2\<lparr>dj_state := Rows\<rparr>, Execute (main_query (dj_compiled j))))) b2 = run_goal ex ?j2 b2"
          by (simp add: run_goal_def drive_def split: prod.splits sum.splits)
        ultimately show ?thesis using False g s ap run res Inr upt by simp
      qed
    qed
  qed
qed

section \<open>A phase computes a least fixpoint\<close>

text \<open>
  The work table as a set of facts: the seed request puts \<open>S\<close> into it, a step request adds what the recursive rules
  \<open>T\<close> derive, both report the number of facts with the count that is their last statement. \<open>U\<close> is a finite
  universe the rules stay in, small enough for a count.
\<close>

definition counts :: "response \<Rightarrow> 'f set \<Rightarrow> bool" where
  "counts resp F \<longleftrightarrow> resp \<noteq> [] \<and> (\<exists>row rows. rs_rows (last resp) = row # rows \<and> (\<exists>v vs. row = v # vs \<and> as_i64 v = Some (of_nat (card F))))"

definition runs_rules ::
  "('f set) backend \<Rightarrow> request \<Rightarrow> request \<Rightarrow> ('f set \<Rightarrow> 'f set) \<Rightarrow> 'f set \<Rightarrow> ('f set \<Rightarrow> 'f set) \<Rightarrow> 'f set \<Rightarrow> bool" where
  "runs_rules ex seed_rq step_rq seeded U T b0 \<longleftrightarrow>
     (\<exists>resp. ex b0 seed_rq = (seeded b0, Inr resp) \<and> counts resp (seeded b0)) \<and> seeded b0 \<subseteq> U \<and>
     (\<forall>b. b \<subseteq> U \<longrightarrow> T b \<subseteq> U \<and> (\<exists>resp. ex b step_rq = (b \<union> T b, Inr resp) \<and> counts resp (b \<union> T b)))"

lemma count_of_counts: "counts resp F \<Longrightarrow> count_of resp = of_nat (card F)"
  by (auto simp: counts_def count_of_def)

lemma of_nat_eq_iff_64: "m < 2 ^ 64 \<Longrightarrow> n < 2 ^ 64 \<Longrightarrow> (of_nat m :: i64) = of_nat n \<longleftrightarrow> m = n"
  by (auto dest!: arg_cong [where f = unat] simp: unat_of_nat)

lemma same_count:
  assumes "finite U" "card U < 2 ^ 63" "B \<subseteq> U" "A \<subseteq> B" "(of_nat (card B) :: i64) = of_nat (card A)"
  shows "A = B"
proof -
  have c: "card B \<le> card U" "card A \<le> card U" "finite B"
    using card_mono [OF assms(1), of B] card_mono [OF assms(1), of A] assms(3,4) finite_subset [OF assms(3,1)] by auto
  then have "card B < 2 ^ 64" "card A < 2 ^ 64" using assms(2) by auto
  with assms(5) have "card B = card A" using of_nat_eq_iff_64 by blast
  with c(3) assms(4) show ?thesis by (metis card_subset_eq)
qed

lemma phase_rounds_lfp:
  assumes U: "finite U" "card U < 2 ^ 63" and mono: "mono T" and b: "b \<subseteq> U"
    and step: "\<And>b. b \<subseteq> U \<Longrightarrow> T b \<subseteq> U \<and> (\<exists>resp. ex b rq = (b \<union> T b, Inr resp) \<and> counts resp (b \<union> T b))"
    and limit: "card U < card b + (fx_max_iterations f + 1 - round)"
  shows "\<exists>n. phase_rounds ex f ph rq round (of_nat (card b)) b = (lfp (\<lambda>X. b \<union> T X), Inr n)"
  using b limit
proof (induction "card U - card b" arbitrary: b round rule: less_induct)
  case less
  obtain resp where r: "T b \<subseteq> U" "ex b rq = (b \<union> T b, Inr resp)" "counts resp (b \<union> T b)" using step [OF less.prems(1)] by blast
  have sub: "b \<union> T b \<subseteq> U" using less.prems(1) r(1) by blast
  have mono': "mono (\<lambda>X. b \<union> T X)" using mono by (auto simp: mono_def)
  show ?case
  proof (cases "T b \<subseteq> b")
    case True
    have "lfp (\<lambda>X. b \<union> T X) = b"
    proof (rule antisym)
      show "lfp (\<lambda>X. b \<union> T X) \<subseteq> b" by (rule lfp_lowerbound) (use True in blast)
      show "b \<subseteq> lfp (\<lambda>X. b \<union> T X)" by (subst lfp_unfold [OF mono']) blast
    qed
    moreover have "b \<union> T b = b" using True by blast
    ultimately show ?thesis
      using r count_of_counts [OF r(3)] by (simp add: phase_rounds.simps [of ex f ph rq round])
  next
    case False
    have less_card: "card b < card (b \<union> T b)" "card (b \<union> T b) \<le> card U"
      using False U(1) sub by (auto intro!: psubset_card_mono card_mono dest: finite_subset)
    have ne: "count_of resp \<noteq> of_nat (card b)"
      using same_count [OF U sub, of b] False count_of_counts [OF r(3)] by auto
    have nl: "\<not> round \<ge> fx_max_iterations f" using less.prems(2) less_card by linarith
    have "lfp (\<lambda>X. (b \<union> T b) \<union> T X) = lfp (\<lambda>X. b \<union> T X)"
    proof (rule antisym)
      have "b \<union> T b \<subseteq> lfp (\<lambda>X. b \<union> T X)"
      proof -
        have "b \<subseteq> lfp (\<lambda>X. b \<union> T X)" by (subst lfp_unfold [OF mono']) blast
        then have "T b \<subseteq> T (lfp (\<lambda>X. b \<union> T X))" using mono by (simp add: monoD)
        then show ?thesis by (subst lfp_unfold [OF mono']) blast
      qed
      then show "lfp (\<lambda>X. (b \<union> T b) \<union> T X) \<subseteq> lfp (\<lambda>X. b \<union> T X)"
        by (intro lfp_lowerbound) (use lfp_unfold [OF mono'] in blast)
      show "lfp (\<lambda>X. b \<union> T X) \<subseteq> lfp (\<lambda>X. (b \<union> T b) \<union> T X)" by (rule lfp_mono) blast
    qed
    moreover obtain n where "phase_rounds ex f ph rq (round + 1) (of_nat (card (b \<union> T b))) (b \<union> T b) =
        (lfp (\<lambda>X. (b \<union> T b) \<union> T X), Inr n)"
    proof -
      have "card U - card (b \<union> T b) < card U - card b" using less_card by linarith
      moreover have "card U < card (b \<union> T b) + (fx_max_iterations f + 1 - (round + 1))" using less.prems(2) less_card(1) nl by linarith
      ultimately show thesis using that less.hyps [of "b \<union> T b" "round + 1"] sub by blast
    qed
    ultimately show ?thesis
      using r(2) ne nl count_of_counts [OF r(3)] by (subst phase_rounds.simps) auto
  qed
qed

section \<open>The goal's rows are resolved\<close>

text \<open>
  The same loop as a scan's: ask the dictionary until nothing is pending.
\<close>

lemma dl_finishes:
  assumes "rv_pending r = []"
  shows "go ex (Some (resolve_or_done (j\<lparr>dj_resolver := r, dj_state := st\<rparr>))) b = Some (b, dj_finish (j\<lparr>dj_resolver := r\<rparr>))"
proof -
  let ?j = "j\<lparr>dj_resolver := r, dj_state := Finished\<rparr>"
  have f: "dj_finish ?j = dj_finish (j\<lparr>dj_resolver := r\<rparr>)" by (simp add: dj_finish_def)
  have "j\<lparr>dj_resolver := r, dj_state := st, dj_resolver := r, dj_state := Finished\<rparr> = ?j" by (cases j) simp
  then have "resolve_or_done (j\<lparr>dj_resolver := r, dj_state := st\<rparr>) = rbind (dj_finish ?j) (\<lambda>out. Inr (?j, Done out))"
    using assms by (simp add: resolve_or_done_def request_lookups Let_def)
  then show ?thesis unfolding f by (cases "dj_finish (j\<lparr>dj_resolver := r\<rparr>)") simp_all
qed

lemma dl_resolves:
  assumes "answers_lookups ex b (dj_caps j) answer"
    and "resolve_loop fuel answer (dj_caps j) r = Some (Inr r')"
  shows "go ex (Some (resolve_or_done (j\<lparr>dj_resolver := r, dj_state := st\<rparr>))) b =
    Some (b, dj_finish (j\<lparr>dj_resolver := r'\<rparr>))"
  using assms(2)
proof (induction fuel arbitrary: r st)
  case 0
  then have "rv_pending r = []" "r' = r" by (auto simp: resolve_loop.simps [of 0] request_lookups split: if_splits)
  then show ?case by (simp add: dl_finishes)
next
  case (Suc n)
  show ?case
  proof (cases "rv_pending r = []")
    case True
    with Suc.prems have "r' = r" by (simp add: resolve_loop.simps [of "Suc n"] request_lookups)
    with True show ?thesis by (simp add: dl_finishes)
  next
    case False
    let ?r = "r\<lparr>rv_pending := [], rv_in_flight := map fst (groups r)\<rparr>" and ?rq = "request_read (map (lookup_statement (dj_caps j)) (groups r))"
    obtain r'' where r'': "absorb (answer (groups r)) ?r = Inr r''" "resolve_loop n answer (dj_caps j) r'' = Some (Inr r')"
      using Suc.prems False by (auto simp: resolve_loop.simps [of "Suc n"] request_lookups split: sum.splits)
    have ex: "ex b ?rq = (b, Inr (answer (groups r)))" using assms(1) groups_nonempty by (auto simp: answers_lookups_def)
    have nx: "resolve_or_done (j\<lparr>dj_resolver := r, dj_state := st\<rparr>) = Inr (j\<lparr>dj_resolver := ?r, dj_state := Resolving\<rparr>, Execute ?rq)"
      using False by (cases j) (simp add: resolve_or_done_def request_lookups)
    have "datalog_step (j\<lparr>dj_resolver := ?r, dj_state := Resolving\<rparr>) (Some (answer (groups r))) =
        Some (resolve_or_done (j\<lparr>dj_resolver := r'', dj_state := Resolving\<rparr>))"
      using r''(1) by (cases j) (simp add: datalog_step_def Let_def)
    then show ?thesis
      using Suc.IH [OF r''(2), of Resolving]
      by (simp add: nx ex run_sync_drive [of ex datalog_step "j\<lparr>dj_resolver := ?r, dj_state := Resolving\<rparr>"])
  qed
qed

definition cell_value :: "ext \<Rightarrow> capabilities \<Rightarrow> rdf_term option \<Rightarrow> sql_value" where
  "cell_value x caps c = (case c of None \<Rightarrow> SqlNull | Some t \<Rightarrow> id_value caps (term_id x t))"

lemma term_id_not_default: "wf_term t \<Longrightarrow> term_id x t \<noteq> DEFAULT_GRAPH_ID"
proof
  assume "wf_term t" "term_id x t = DEFAULT_GRAPH_ID"
  moreover obtain g where "g \<in> kind_tags t" "tag_of (term_id x t) = Some g" using term_id_kind [OF \<open>wf_term t\<close>, of x] by blast
  moreover have "tag_of DEFAULT_GRAPH_ID = Some TagDefault" by (simp add: DEFAULT_GRAPH_ID_def tag_of_def tag_from_u8_def)
  ultimately show False by (cases t) auto
qed

lemma id_value_not_null [simp]: "id_value caps i \<noteq> SqlNull"
  by (simp add: id_value_def)

lemma row_cells_values:
  assumes "\<forall>c \<in> set row. \<forall>t. c = Some t \<longrightarrow> wf_term t"
  shows "row_cells (length row) (map (cell_value x caps) row) = map (map_option (term_id x)) row"
proof (rule nth_equalityI)
  fix i assume "i < length (row_cells (length row) (map (cell_value x caps) row))"
  then have i: "i < length row" by (simp add: row_cells_def)
  then have "row ! i \<in> set row" by simp
  with assms have "row ! i = Some t \<Longrightarrow> term_id x t \<noteq> DEFAULT_GRAPH_ID" for t using term_id_not_default by metis
  with i show "row_cells (length row) (map (cell_value x caps) row) ! i = map (map_option (term_id x)) row ! i"
    by (cases "row ! i") (auto simp: row_cells_def cell_id_def cell_value_def get_nth_def)
qed (simp add: row_cells_def)

definition row_terms :: "rdf_term option list \<Rightarrow> rdf_term list" where
  "row_terms row = List.map_filter (\<lambda>c. c) row"

lemma want_cells_terms:
  "want_cells (map (map_option (term_id x)) row) r = fold (\<lambda>t. want (term_id x t)) (row_terms row) r"
  by (induction row arbitrary: r) (auto simp: want_cells_def row_terms_def List.map_filter_simps split: option.splits)

lemma want_rows_terms:
  "fold want_cells (map (map (map_option (term_id x))) rows) r = fold (\<lambda>t. want (term_id x t)) (concat (map row_terms rows)) r"
  by (induction rows arbitrary: r) (simp_all add: want_cells_terms)

lemma set_row_terms: "set (row_terms row) = {t. Some t \<in> set row}"
  by (induction row) (auto simp: row_terms_def List.map_filter_simps split: option.splits)

lemma finish_row:
  assumes "\<forall>t \<in> set (row_terms row). get (term_id x t) r = Inr t"
  shows "map_result (finish_cell r) (map (map_option (term_id x)) row) = Inr row"
  using assms by (induction row) (auto simp: set_row_terms finish_cell_def split: option.splits)

lemma finish_rows:
  assumes "\<forall>t \<in> set (concat (map row_terms rows)). get (term_id x t) r = Inr t"
  shows "map_result (map_result (finish_cell r)) (map (map (map_option (term_id x))) rows) = Inr rows"
  using assms by (induction rows) (simp_all add: finish_row)

text \<open>From the goal's response to the result.\<close>

lemma goal_answers:
  assumes ok: "store_ok x qs"
    and goal: "ex b1 (main_query (dj_compiled j)) = (b2, Inr (\<lparr>rs_rows = map (map (cell_value x (dj_caps j))) rows, rs_changes = n\<rparr> # extra))"
    and clean: "if fx_is_empty (cp_fixpoint (dj_compiled j)) then b3 = b2
      else \<exists>resp. ex b2 (request_atomic [statement_new (fx_cleanup (cp_fixpoint (dj_compiled j)))]) = (b3, Inr resp)"
    and lookups: "answers_lookups ex b3 (dj_caps j) (stored_answer (dj_caps j) (eq_rows (encoded_quads_new x qs)))"
    and rows: "\<forall>row \<in> set rows. length row = length (cp_variables (dj_compiled j)) \<and> (\<forall>t. Some t \<in> set row \<longrightarrow> t \<in> all_terms qs)"
    and constants: "\<forall>t \<in> all_terms qs. \<forall>u. c (term_id x t) = Some u \<longrightarrow> u = t"
    and j: "dj_resolver j = with_constants c" "dj_ids j = []"
  shows "run_goal ex j b1 = Some (b3, Inr \<lparr>dr_variables = cp_variables (dj_compiled j), dr_rows = rows, dr_rounds = dj_rounds j\<rparr>)"
proof -
  let ?D = "stored_terms x qs" and ?ans = "stored_answer (dj_caps j) (eq_rows (encoded_quads_new x qs))"
  let ?ts = "concat (map row_terms rows)" and ?cells = "map (map (map_option (term_id x))) rows"
  let ?n = "Suc (Max (insert 0 (depth ` set ?ts)))" and ?f = "cp_fixpoint (dj_compiled j)"
  let ?r = "fold (\<lambda>t. want (term_id x t)) ?ts (with_constants c)"
  have D: "?D = all_terms qs" using ok by (simp add: stored_terms_def)
  have ts: "set ?ts \<subseteq> ?D" using rows D by (auto simp: set_row_terms)
  have "\<forall>t \<in> set ?ts. depth t < ?n" by (auto intro!: le_imp_less_Suc Max_ge simp del: set_concat)
  from stored.resolves [OF ts this le_refl, of c "dj_caps j" "dj_caps j"] constants D obtain r where r:
    "resolve_loop ?n ?ans (dj_caps j) ?r = Some (Inr r)" "\<forall>t \<in> set ?ts. get (term_id x t) r = Inr t" by auto
  have wf: "\<forall>row \<in> set rows. \<forall>c \<in> set row. \<forall>t. c = Some t \<longrightarrow> wf_term t" using rows D stored_facts(1) [of _ x qs] by auto
  have "row_cells (length (cp_variables (dj_compiled j))) (map (cell_value x (dj_caps j)) row) = map (map_option (term_id x)) row"
    if "row \<in> set rows" for row using row_cells_values [of row x] wf rows that by metis
  then have cells: "map (row_cells (length (cp_variables (dj_compiled j)))) (map (map (cell_value x (dj_caps j))) rows) = ?cells" by simp
  let ?j = "j\<lparr>dj_ids := ?cells\<rparr>"
  have ab: "dj_absorb (\<lparr>rs_rows = map (map (cell_value x (dj_caps j))) rows, rs_changes = n\<rparr> # extra) (j\<lparr>dj_state := Rows\<rparr>) =
      Inr (?j\<lparr>dj_resolver := ?r, dj_state := Rows\<rparr>)"
    using cells j by (cases j) (simp add: dj_absorb_def want_rows_terms Let_def del: map_eq_conv)
  have fin: "go ex (Some (resolve_or_done (?j\<lparr>dj_resolver := ?r, dj_state := st\<rparr>))) b3 =
      Some (b3, Inr \<lparr>dr_variables = cp_variables (dj_compiled j), dr_rows = rows, dr_rounds = dj_rounds j\<rparr>)" for st
    using dl_resolves [of ex b3 ?j ?ans ?n ?r r st] lookups r finish_rows [of rows x r] by (simp add: dj_finish_def)
  show ?thesis
  proof (cases "fx_is_empty ?f")
    case True
    have "datalog_step (j\<lparr>dj_state := Rows\<rparr>) (Some (\<lparr>rs_rows = map (map (cell_value x (dj_caps j))) rows, rs_changes = n\<rparr> # extra)) =
        Some (resolve_or_done (?j\<lparr>dj_resolver := ?r, dj_state := Rows\<rparr>))"
      using ab True by (simp add: datalog_step_def Let_def)
    with True clean fin show ?thesis
      by (simp add: run_goal_def goal run_sync_drive [of ex datalog_step "j\<lparr>dj_state := Rows\<rparr>"])
  next
    case False
    let ?rq = "request_atomic [statement_new (fx_cleanup ?f)]"
    have 1: "datalog_step (j\<lparr>dj_state := Rows\<rparr>) (Some (\<lparr>rs_rows = map (map (cell_value x (dj_caps j))) rows, rs_changes = n\<rparr> # extra)) =
        Some (Inr (?j\<lparr>dj_resolver := ?r, dj_state := CleaningUp\<rparr>, Execute ?rq))"
      using ab False by (simp add: datalog_step_def Let_def)
    have 2: "datalog_step (?j\<lparr>dj_resolver := ?r, dj_state := CleaningUp\<rparr>) resp =
        Some (resolve_or_done (?j\<lparr>dj_resolver := ?r, dj_state := CleaningUp\<rparr>))" for resp
      by (simp add: datalog_step_def Let_def)
    from clean False obtain resp where "ex b2 ?rq = (b3, Inr resp)" by auto
    with 1 2 fin show ?thesis
      by (simp add: run_goal_def goal run_sync_drive [of ex datalog_step "j\<lparr>dj_state := Rows\<rparr>"]
          run_sync_drive [of ex datalog_step "?j\<lparr>dj_resolver := ?r, dj_state := CleaningUp\<rparr>"])
  qed
qed

section \<open>From the start\<close>

lemma datalog_start:
  "run_sync ex datalog_step (datalog_job_new c caps) None b =
     (case run_phases ex (cp_fixpoint c) [0..<length (fx_phases (cp_fixpoint c))] [] b of
        (b', Inl e) \<Rightarrow> Some (b', Inl e)
      | (b', Inr rounds) \<Rightarrow> run_goal ex (datalog_job_new c caps\<lparr>dj_rounds := rounds\<rparr>) b')"
proof -
  let ?j = "datalog_job_new c caps" and ?f = "cp_fixpoint c"
  show ?thesis
  proof (cases "fx_is_empty ?f")
    case True
    have "datalog_step ?j None = Some (Inr (?j\<lparr>dj_state := Rows\<rparr>, Execute (main_query c)))"
      using True by (simp add: datalog_step_def datalog_job_new_def Let_def)
    moreover have "?j\<lparr>dj_rounds := []\<rparr> = ?j" "dj_compiled ?j = c" by (simp_all add: datalog_job_new_def)
    ultimately show ?thesis
      using True by (subst run_sync_drive) (simp add: fx_is_empty_def run_goal_def drive_def split: prod.splits sum.splits)
  next
    case False
    then have l: "0 < length (fx_phases ?f)" by (simp add: fx_is_empty_def)
    have "datalog_step ?j None = Some (Inr (?j\<lparr>dj_state := Seeded 0\<rparr>, Execute (the (seed_request ?f 0))))"
      using False phase_requests(2) [OF l] by (simp add: datalog_step_def datalog_job_new_def Let_def)
    moreover have "go ex (Some (Inr (?j\<lparr>dj_state := Seeded 0\<rparr>, Execute (the (seed_request ?f 0))))) b =
        (case run_phases ex ?f [0..<length (fx_phases ?f)] (dj_rounds (?j\<lparr>dj_state := Seeded 0\<rparr>)) b of
           (b', Inl e) \<Rightarrow> Some (b', Inl e)
         | (b', Inr rounds) \<Rightarrow> run_goal ex (?j\<lparr>dj_state := Seeded 0, dj_rounds := rounds\<rparr>) b')"
      by (rule phases_go) (use l in \<open>simp_all add: datalog_job_new_def\<close>)
    moreover have "run_goal ex (?j\<lparr>dj_state := Seeded 0, dj_rounds := rounds\<rparr>) b' = run_goal ex (?j\<lparr>dj_rounds := rounds\<rparr>) b'" for rounds b'
      by (rule run_goal_cong) (simp add: datalog_job_new_def)
    ultimately show ?thesis
      by (subst run_sync_drive) (simp add: datalog_job_new_def split: prod.splits sum.splits)
  qed
qed

section \<open>Properties\<close>



definition toy_fixpoint :: fixpoint where
  "toy_fixpoint = \<lparr>fx_run = 1, fx_phases = [\<lparr>fp_preds = [''p''], fp_seed = [''S''], fp_step = [''T'']\<rparr>], fx_max_iterations = 10\<rparr>"

definition toy_rules :: "nat set \<Rightarrow> nat set" where
  "toy_rules b = {n \<in> {1, 2, 3}. n - 1 \<in> b}"

definition toy_rule_backend :: "(nat set) backend" where
  "toy_rule_backend b rq =
     (let b' = (if rq = the (seed_request toy_fixpoint 0) then {1} else b \<union> toy_rules b)
      in (b', Inr [\<lparr>rs_rows = [[SqlInteger (of_nat (card b'))]], rs_changes = 0\<rparr>]))"


text \<open>
  C8. The result of a program is its goal's rows: when the phases ran, the goal statement returned rows of ids of stored
  terms (and nulls), and the lookups are answered from the dictionary, the job returns those rows as terms, with the goal's
  variables and the rounds of each phase, after the work rows were removed.
\<close>

theorem datalog_answers:
  assumes "store_ok x qs"
    and phases: "run_phases ex (cp_fixpoint c) [0..<length (fx_phases (cp_fixpoint c))] [] b = (b1, Inr rounds)"
    and "ex b1 (main_query c) = (b2, Inr (\<lparr>rs_rows = map (map (cell_value x caps)) rows, rs_changes = n\<rparr> # extra))"
    and "if fx_is_empty (cp_fixpoint c) then b3 = b2
      else \<exists>resp. ex b2 (request_atomic [statement_new (fx_cleanup (cp_fixpoint c))]) = (b3, Inr resp)"
    and "answers_lookups ex b3 caps (stored_answer caps (eq_rows (encoded_quads_new x qs)))"
    and "\<forall>row \<in> set rows. length row = length (cp_variables c) \<and> (\<forall>t. Some t \<in> set row \<longrightarrow> t \<in> all_terms qs)"
    and "\<forall>t \<in> all_terms qs. \<forall>u. cp_constants c (term_id x t) = Some u \<longrightarrow> u = t"
  shows "run_sync ex datalog_step (datalog_job_new c caps) None b =
    Some (b3, Inr \<lparr>dr_variables = cp_variables c, dr_rows = rows, dr_rounds = rounds\<rparr>)"
proof -
  let ?j = "datalog_job_new c caps\<lparr>dj_rounds := rounds\<rparr>"
  have "run_sync ex datalog_step (datalog_job_new c caps) None b = run_goal ex ?j b1"
    using phases by (simp add: datalog_start)
  also have "\<dots> = Some (b3, Inr \<lparr>dr_variables = cp_variables (dj_compiled ?j), dr_rows = rows, dr_rounds = dj_rounds ?j\<rparr>)"
    by (rule goal_answers [where c = "cp_constants c" and ?b1.0 = b1 and ?b2.0 = b2 and ?b3.0 = b3 and n = n and extra = extra and x = x and qs = qs])
      (use assms in \<open>simp_all add: datalog_job_new_def del: if_split\<close>)
  finally show ?thesis by (simp add: datalog_job_new_def)
qed

definition toy_compiled :: compiled where
  "toy_compiled = \<lparr>cp_sql = ''GOAL'', cp_variables = [''s'', ''p'', ''o'', ''g''], cp_constants = Map.empty, cp_notes = [],
     cp_fixpoint = \<lparr>fx_run = 1, fx_phases = [], fx_max_iterations = 10\<rparr>\<rparr>"

definition toy_graph_quads :: "quad list" where
  "toy_graph_quads = [\<lparr>q_subject = SBlank ''b'', q_predicate = ''p'', q_object = NamedNode ''c'', q_graph = GNamed ''g''\<rparr>]"

theorem datalog_answers_witness:
  "run_sync (table_backend caps_native (encoded_quads_new toy_ext toy_graph_quads)) datalog_step
     (datalog_job_new toy_compiled caps_native) None () =
   Some ((), Inr \<lparr>dr_variables = [''s'', ''p'', ''o'', ''g''],
     dr_rows = [[Some (BlankNode ''b''), Some (NamedNode ''p''), Some (NamedNode ''c''), Some (NamedNode ''g'')]], dr_rounds = []\<rparr>)"
proof -
  let ?e = "encoded_quads_new toy_ext toy_graph_quads"
  let ?rows = "[[Some (BlankNode ''b''), Some (NamedNode ''p''), Some (NamedNode ''c''), Some (NamedNode ''g'')]]"
  have ok: "store_ok toy_ext toy_graph_quads"
    by (simp add: store_ok_def toy_graph_quads_def all_terms_def quad_terms_def graph_terms_def subject_term_def
        collision_def hash_key_def toy_ext_def)
  have "strip_prefix (terms_prefix caps_native) ''GOAL'' = None" "strip_prefix (triples_prefix caps_native) ''GOAL'' = None"
    by (simp_all add: strip_prefix_def starts_with_simps terms_prefix_def triples_prefix_def)
  then have goal: "table_backend caps_native ?e () (main_query toy_compiled) =
      ((), Inr [\<lparr>rs_rows = map (map (cell_value toy_ext caps_native)) ?rows, rs_changes = 0\<rparr>])"
    by (simp add: table_backend_def main_query_def request_read_def toy_compiled_def statement_new_def table_result_def
        eq_quads_ids toy_graph_quads_def cell_value_def subject_id_def graph_id_def)
  have "run_sync (table_backend caps_native ?e) datalog_step (datalog_job_new toy_compiled caps_native) None () =
      Some ((), Inr \<lparr>dr_variables = cp_variables toy_compiled, dr_rows = ?rows, dr_rounds = []\<rparr>)"
    by (rule datalog_answers [OF ok _ goal _ table_answers])
      (simp_all add: toy_compiled_def fx_is_empty_def toy_graph_quads_def all_terms_def quad_terms_def graph_terms_def subject_term_def)
  then show ?thesis by (simp add: toy_compiled_def)
qed

end
