(* ===== verification/Datalog_Lexer.thy ===== *)
theory Datalog_Lexer
  imports Datalog_Ast F64
begin

text \<open>
  The tokenizer of the Datalog dialect (\<^verbatim>\<open>lexer.rs\<close>). The lexer's state is the input that is left with the line and
  column of its first byte. A byte pushed with \<^verbatim>\<open>b as char\<close> becomes the character of that code point, whose UTF-8
  encoding has two bytes from \<open>0x80\<close> on (\<open>latin1\<close>); \<^verbatim>\<open>read_string\<close> undoes this with \<^verbatim>\<open>fix_utf8\<close>, so there the bytes are
  kept (the source is valid UTF-8 and a string ends at an ASCII byte, so \<^verbatim>\<open>from_utf8_lossy\<close> changes nothing).
\<close>

section \<open>Tokens\<close>

datatype tok =
    TVar string
  | TWildcard
  | TName string
  | TIri string
  | TCurie string string
  | TStr string "string option" "tok option"
  | TInt int
  | TNum f64
  | TImplies | TQuery | TAtPrefix | TAtVersion
  | TLParen | TRParen | TComma | TDot
  | TEq | TNe | TLt | TLe | TGt | TGe
  | TPlus | TMinus | TStar | TSlash
  | TAnd | TOr | TBang

record spanned =
  sp_tok :: tok
  sp_span :: span

record lexer =
  lx_src :: string
  lx_line :: nat
  lx_column :: nat

definition lexer_new :: "string \<Rightarrow> lexer" where
  "lexer_new src = \<lparr>lx_src = src, lx_line = 1, lx_column = 1\<rparr>"

definition lx_span :: "lexer \<Rightarrow> span" where
  "lx_span l = \<lparr>line = lx_line l, column = lx_column l\<rparr>"

definition lx_peek :: "lexer \<Rightarrow> char option" where
  "lx_peek l = get_nth (lx_src l) 0"

definition lx_peek_at :: "lexer \<Rightarrow> nat \<Rightarrow> char option" where
  "lx_peek_at l n = get_nth (lx_src l) n"

abbreviation newline :: char where "newline \<equiv> CHR 0x0A"
abbreviation quote1 :: char where "quote1 \<equiv> CHR 0x27"
abbreviation quote2 :: char where "quote2 \<equiv> CHR 0x22"
abbreviation backslash :: char where "backslash \<equiv> CHR 0x5C"

text \<open>The state after the next byte was consumed.\<close>

definition lx_bump :: "lexer \<Rightarrow> lexer" where
  "lx_bump l =
     (case lx_src l of
        [] \<Rightarrow> l
      | c # s \<Rightarrow> if c = newline then \<lparr>lx_src = s, lx_line = lx_line l + 1, lx_column = 1\<rparr>
                 else \<lparr>lx_src = s, lx_line = lx_line l, lx_column = lx_column l + 1\<rparr>)"

lemma bump_length: "lx_src l \<noteq> [] \<Longrightarrow> length (lx_src (lx_bump l)) < length (lx_src l)"
  by (auto simp: lx_bump_def split: list.splits)

lemma bump_length_le: "length (lx_src (lx_bump l)) \<le> length (lx_src l)"
  by (auto simp: lx_bump_def split: list.splits)

lemma peek_nonempty: "lx_peek l = Some c \<Longrightarrow> lx_src l \<noteq> []"
  by (auto simp: lx_peek_def)

section \<open>Trivia and names\<close>

function skip_comment :: "lexer \<Rightarrow> lexer" where
  "skip_comment l =
     (case lx_peek l of
        None \<Rightarrow> l
      | Some b \<Rightarrow> if b = newline then l else skip_comment (lx_bump l))"
  by pat_completeness auto
termination by (relation "measure (\<lambda>l. length (lx_src l))") (auto intro!: bump_length peek_nonempty)

declare skip_comment.simps [simp del]

lemma skip_comment_length: "length (lx_src (skip_comment l)) \<le> length (lx_src l)"
proof (induction l rule: skip_comment.induct)
  case (1 l)
  show ?case
  proof (cases "lx_peek l")
    case (Some b)
    with 1 bump_length_le [of l] show ?thesis by (auto simp: skip_comment.simps [of l])
  qed (simp add: skip_comment.simps [of l])
qed

lemma skip_comment_less:
  assumes "lx_peek l = Some b" "b \<noteq> newline"
  shows "length (lx_src (skip_comment l)) < length (lx_src l)"
proof -
  have "skip_comment l = skip_comment (lx_bump l)" using assms by (simp add: skip_comment.simps [of l])
  then show ?thesis using bump_length [OF peek_nonempty [OF assms(1)]] skip_comment_length [of "lx_bump l"] by simp
qed

function skip_trivia :: "lexer \<Rightarrow> lexer" where
  "skip_trivia l =
     (case lx_peek l of
        None \<Rightarrow> l
      | Some b \<Rightarrow>
          if is_ascii_whitespace b then skip_trivia (lx_bump l)
          else if b = CHR ''%'' \<or> b = CHR ''#'' then skip_trivia (skip_comment l)
          else l)"
  by pat_completeness auto
termination
  by (relation "measure (\<lambda>l. length (lx_src l))")
    (auto intro!: bump_length peek_nonempty skip_comment_less)

declare skip_trivia.simps [simp del]

definition is_name_start :: "char \<Rightarrow> bool" where
  "is_name_start b \<longleftrightarrow> is_ascii_alphabetic b \<or> b = CHR ''_''"

definition is_name_byte :: "char \<Rightarrow> bool" where
  "is_name_byte b \<longleftrightarrow> is_ascii_alphanumeric b \<or> b = CHR ''_'' \<or> b = CHR ''-'' \<or> b = CHR ''.''"

definition or_space :: "char option \<Rightarrow> char" where
  "or_space b = (case b of Some c \<Rightarrow> c | None \<Rightarrow> CHR '' '')"

function name_loop :: "lexer \<Rightarrow> string \<times> lexer" where
  "name_loop l =
     (case lx_peek l of
        None \<Rightarrow> ([], l)
      | Some b \<Rightarrow>
          if b = CHR ''.'' \<and> \<not> is_name_byte (or_space (lx_peek_at l 1)) then ([], l)
          else if \<not> is_name_byte b then ([], l)
          else (case name_loop (lx_bump l) of (s, l') \<Rightarrow> (b # s, l')))"
  by pat_completeness auto
termination by (relation "measure (\<lambda>l. length (lx_src l))") (auto intro!: bump_length peek_nonempty)

declare name_loop.simps [simp del]

definition dl_error :: "span \<Rightarrow> string \<Rightarrow> datalog_error + 'a" where
  "dl_error sp msg = Inl (DlParse sp msg)"

definition read_name :: "span \<Rightarrow> lexer \<Rightarrow> datalog_error + string \<times> lexer" where
  "read_name sp l = (case name_loop l of (s, l') \<Rightarrow> if s = [] then dl_error sp ''expected a name'' else Inr (s, l'))"

section \<open>IRIs, numbers and strings\<close>

definition latin1 :: "char \<Rightarrow> string" where
  "latin1 b = (if byte b < 128 then [b] else [char_of (192 + byte b div 64), char_of (128 + byte b mod 64)])"

text \<open>The scan of \<^verbatim>\<open>is_iri_start\<close> over what follows the \<open><\<close>.\<close>

fun iri_closes :: "string \<Rightarrow> bool" where
  "iri_closes [] = False"
| "iri_closes (b # s) =
     (if b = CHR ''>'' then True else if is_ascii_whitespace b \<or> b = CHR ''<'' then False else iri_closes s)"

definition is_iri_start :: "lexer \<Rightarrow> bool" where
  "is_iri_start l = (case tl (lx_src l) of [] \<Rightarrow> False | b # s \<Rightarrow> if b = CHR ''>'' then False else iri_closes (b # s))"

function iri_loop :: "lexer \<Rightarrow> (string \<times> lexer) option" where
  "iri_loop l =
     (case lx_peek l of
        None \<Rightarrow> None
      | Some b \<Rightarrow>
          if b = CHR ''>'' then Some ([], lx_bump l)
          else (case iri_loop (lx_bump l) of None \<Rightarrow> None | Some (s, l') \<Rightarrow> Some (latin1 b @ s, l')))"
  by pat_completeness auto
termination by (relation "measure (\<lambda>l. length (lx_src l))") (auto intro!: bump_length peek_nonempty)

declare iri_loop.simps [simp del]

definition read_iri :: "span \<Rightarrow> lexer \<Rightarrow> datalog_error + tok \<times> lexer" where
  "read_iri sp l =
     (case iri_loop (lx_bump l) of
        None \<Rightarrow> dl_error sp ''unterminated IRI''
      | Some (s, l') \<Rightarrow> Inr (TIri s, l'))"

function number_loop :: "lexer \<Rightarrow> string \<times> bool \<times> lexer" where
  "number_loop l =
     (case lx_peek l of
        None \<Rightarrow> ([], False, l)
      | Some b \<Rightarrow>
          if is_ascii_digit b then (case number_loop (lx_bump l) of (s, f, l') \<Rightarrow> (b # s, f, l'))
          else if b = CHR ''.'' \<and> (case lx_peek_at l 1 of Some d \<Rightarrow> is_ascii_digit d | None \<Rightarrow> False)
          then (case number_loop (lx_bump l) of (s, f, l') \<Rightarrow> (b # s, True, l'))
          else if b = CHR ''e'' \<or> b = CHR ''E''
          then (let l1 = lx_bump l in
                case lx_peek l1 of
                  Some c \<Rightarrow>
                    if c = CHR ''+'' \<or> c = CHR ''-''
                    then (case number_loop (lx_bump l1) of (s, f, l') \<Rightarrow> (b # c # s, True, l'))
                    else (case number_loop l1 of (s, f, l') \<Rightarrow> (b # s, True, l'))
                | None \<Rightarrow> ([b], True, l1))
          else ([], False, l))"
  by pat_completeness auto
termination
proof (relation "measure (\<lambda>l. length (lx_src l))", goal_cases)
  case (4 l b l1 c)
  then show ?case using bump_length [OF peek_nonempty [OF 4(1)]] bump_length_le [of l1] by simp
qed (auto intro!: bump_length peek_nonempty)

declare number_loop.simps [simp del]

definition read_number :: "span \<Rightarrow> lexer \<Rightarrow> datalog_error + tok \<times> lexer" where
  "read_number sp l =
     (case number_loop l of
        (text, float, l') \<Rightarrow>
          let as_float = (case f64_from_str text of
                Some v \<Rightarrow> Inr (TNum v, l')
              | None \<Rightarrow> dl_error sp (''invalid number `'' @ text @ ''`''))
          in if float then as_float
             else (case parse_i64 text of Some v \<Rightarrow> Inr (TInt v, l') | None \<Rightarrow> as_float))"

definition escape_char :: "char \<Rightarrow> char option" where
  "escape_char e =
     (if e = CHR ''n'' then Some newline
      else if e = CHR ''t'' then Some (CHR 0x09)
      else if e = CHR ''r'' then Some (CHR 0x0D)
      else if e = quote2 then Some quote2
      else if e = quote1 then Some quote1
      else if e = backslash then Some backslash
      else None)"

function string_loop :: "span \<Rightarrow> char \<Rightarrow> lexer \<Rightarrow> datalog_error + string \<times> lexer" where
  "string_loop sp q l =
     (case lx_peek l of
        None \<Rightarrow> dl_error sp ''unterminated string''
      | Some b \<Rightarrow>
          if b = backslash
          then (let l1 = lx_bump l in
                case lx_peek l1 of
                  None \<Rightarrow> dl_error sp ''unterminated escape''
                | Some e \<Rightarrow>
                    (case escape_char e of
                       None \<Rightarrow> dl_error sp (''unknown escape `'' @ [backslash] @ latin1 e @ ''`'')
                     | Some c \<Rightarrow> rbind (string_loop sp q (lx_bump l1)) (\<lambda>(s, l'). Inr (c # s, l'))))
          else if b = q then Inr ([], lx_bump l)
          else rbind (string_loop sp q (lx_bump l)) (\<lambda>(s, l'). Inr (b # s, l')))"
  by pat_completeness auto
termination
proof (relation "measure (\<lambda>(sp, q, l). length (lx_src l))", goal_cases)
  case (2 sp q l b l1 e c)
  then show ?case using bump_length [OF peek_nonempty [OF 2(1)]] bump_length_le [of l1] by simp
qed (auto intro!: bump_length peek_nonempty)

declare string_loop.simps [simp del]

definition read_datatype :: "lexer \<Rightarrow> datalog_error + tok \<times> lexer" where
  "read_datatype l =
     (let sp = lx_span l in
      case lx_peek l of
        Some b \<Rightarrow>
          if b = CHR ''<'' then read_iri sp l
          else if b = CHR '':'' then rbind (read_name sp (lx_bump l)) (\<lambda>(n, l1). Inr (TCurie [] n, l1))
          else if is_name_start b
          then rbind (read_name sp l) (\<lambda>(prefix, l1).
                 if lx_peek l1 = Some (CHR '':'')
                 then rbind (read_name sp (lx_bump l1)) (\<lambda>(n, l2). Inr (TCurie prefix n, l2))
                 else Inr (TName prefix, l1))
          else dl_error sp ''expected a datatype IRI''
      | None \<Rightarrow> dl_error sp ''expected a datatype IRI'')"

definition read_string :: "span \<Rightarrow> lexer \<Rightarrow> datalog_error + tok \<times> lexer" where
  "read_string sp l =
     (case lx_peek l of
        None \<Rightarrow> dl_error sp ''unterminated string''
      | Some q \<Rightarrow>
          rbind (string_loop sp q (lx_bump l)) (\<lambda>(text, l1).
            if lx_peek l1 = Some (CHR ''@'')
            then rbind (read_name sp (lx_bump l1)) (\<lambda>(lang, l2). Inr (TStr text (Some lang) None, l2))
            else if lx_peek l1 = Some (CHR ''^'') \<and> lx_peek_at l1 1 = Some (CHR ''^'')
            then rbind (read_datatype (lx_bump (lx_bump l1))) (\<lambda>(dt, l2). Inr (TStr text None (Some dt), l2))
            else Inr (TStr text None None, l1)))"

section \<open>The loop\<close>

text \<open>The body of the loop of \<^verbatim>\<open>tokenize\<close>, at a byte \<open>b\<close> that is not trivia.\<close>

definition one_tok :: "tok \<Rightarrow> lexer \<Rightarrow> datalog_error + tok \<times> lexer" where
  "one_tok t l = Inr (t, lx_bump l)"

definition two_toks :: "char \<Rightarrow> tok \<Rightarrow> tok \<Rightarrow> lexer \<Rightarrow> datalog_error + tok \<times> lexer" where
  "two_toks c t2 t1 l =
     (let l1 = lx_bump l in if lx_peek l1 = Some c then Inr (t2, lx_bump l1) else Inr (t1, l1))"

definition read_var :: "span \<Rightarrow> lexer \<Rightarrow> datalog_error + tok \<times> lexer" where
  "read_var sp l = rbind (read_name sp l) (\<lambda>(n, l'). Inr (TVar n, l'))"

definition read_directive :: "span \<Rightarrow> lexer \<Rightarrow> datalog_error + tok \<times> lexer" where
  "read_directive sp l =
     rbind (read_name sp (lx_bump l)) (\<lambda>(word, l').
       if word = ''prefix'' \<or> word = ''base'' then Inr (TAtPrefix, l')
       else if word = ''version'' then Inr (TAtVersion, l')
       else dl_error sp (''unknown directive @'' @ word))"

definition read_word :: "span \<Rightarrow> lexer \<Rightarrow> datalog_error + tok \<times> lexer" where
  "read_word sp l =
     rbind (read_name sp l) (\<lambda>(name, l1).
       if lx_peek l1 = Some (CHR '':'') \<and> lx_peek_at l1 1 \<noteq> Some (CHR ''-'')
       then (let l2 = lx_bump l1 in
             if is_name_start (or_space (lx_peek l2))
             then rbind (read_name sp l2) (\<lambda>(local, l3). Inr (TCurie name local, l3))
             else Inr (TCurie name [], l2))
       else Inr (TName name, l1))"

definition next_token :: "char \<Rightarrow> lexer \<Rightarrow> datalog_error + tok \<times> lexer" where
  "next_token b l =
     (let sp = lx_span l in
      if b = CHR ''?''
      then (let l1 = lx_bump l in if lx_peek l1 = Some (CHR ''-'') then Inr (TQuery, lx_bump l1) else read_var sp l1)
      else if b = CHR ''$'' then read_var sp (lx_bump l)
      else if b = CHR ''<''
      then (if lx_peek_at l 1 = Some (CHR ''='') then Inr (TLe, lx_bump (lx_bump l))
            else if is_iri_start l then read_iri sp l
            else one_tok TLt l)
      else if b = CHR ''>'' then two_toks (CHR ''='') TGe TGt l
      else if b = CHR ''='' then two_toks (CHR ''='') TEq TEq l
      else if b = CHR ''!'' then two_toks (CHR ''='') TNe TBang l
      else if b = CHR '':''
      then (if lx_peek_at l 1 = Some (CHR ''-'') then Inr (TImplies, lx_bump (lx_bump l))
            else rbind (read_name sp (lx_bump l)) (\<lambda>(n, l'). Inr (TCurie [] n, l')))
      else if b = CHR ''@'' then read_directive sp l
      else if b = CHR ''&'' then two_toks (CHR ''&'') TAnd TAnd l
      else if b = CHR ''|'' then two_toks (CHR ''|'') TOr TOr l
      else if b = quote2 \<or> b = quote1 then read_string sp l
      else if b = CHR ''('' then one_tok TLParen l
      else if b = CHR '')'' then one_tok TRParen l
      else if b = CHR '','' then one_tok TComma l
      else if b = CHR ''.'' then one_tok TDot l
      else if b = CHR ''+'' then one_tok TPlus l
      else if b = CHR ''-'' then one_tok TMinus l
      else if b = CHR ''*'' then one_tok TStar l
      else if b = CHR ''/'' then one_tok TSlash l
      else if is_ascii_digit b then read_number sp l
      else if b = CHR ''_'' \<and> \<not> is_name_byte (or_space (lx_peek_at l 1)) then one_tok TWildcard l
      else if is_name_start b then read_word sp l
      else dl_error sp (''unexpected character `'' @ latin1 b @ ''`''))"

section \<open>Every token consumes input\<close>

lemma bump_src: "lx_peek l = Some b \<Longrightarrow> lx_src l = b # lx_src (lx_bump l)"
  by (auto simp: lx_peek_def lx_bump_def get_nth_def split: list.splits)

lemma name_loop_src: "name_loop l = (s, l') \<Longrightarrow> lx_src l = s @ lx_src l'"
proof (induction l arbitrary: s l' rule: name_loop.induct)
  case (1 l)
  from 1(2) show ?case
    by (auto simp: name_loop.simps [of l] bump_src 1(1) split: option.splits if_splits prod.splits)
qed

lemma read_name_src: "read_name sp l = Inr (s, l') \<Longrightarrow> s \<noteq> [] \<and> lx_src l = s @ lx_src l'"
  by (auto simp: read_name_def dl_error_def name_loop_src split: prod.splits if_splits)

lemma read_name_less: "read_name sp l = Inr (s, l') \<Longrightarrow> length (lx_src l') < length (lx_src l)"
  by (drule read_name_src) auto

lemma iri_loop_less: "iri_loop l = Some (s, l') \<Longrightarrow> length (lx_src l') < length (lx_src l)"
proof (induction l arbitrary: s l' rule: iri_loop.induct)
  case (1 l)
  from 1(2) show ?case
    by (auto simp: iri_loop.simps [of l] bump_src split: option.splits if_splits dest!: 1(1))
qed

lemma number_loop_cases:
  assumes "number_loop l = (s, f, l')"
  obtains (stop) "s = []" "l' = l"
  | (one) b s' f' where "lx_peek l = Some b" "s = b # s'" "number_loop (lx_bump l) = (s', f', l')"
  | (expo) b c s' f' where "lx_peek l = Some b" "lx_peek (lx_bump l) = Some c" "s = b # c # s'"
      "number_loop (lx_bump (lx_bump l)) = (s', f', l')"
  | (last) b where "lx_peek l = Some b" "s = [b]" "l' = lx_bump l"
  using assms
  by (subst (asm) number_loop.simps) (auto simp: Let_def split: option.splits if_splits prod.splits)

lemma number_loop_src: "number_loop l = (s, f, l') \<Longrightarrow> lx_src l = s @ lx_src l'"
proof (induction "length (lx_src l)" arbitrary: l s f l' rule: less_induct)
  case less
  from less.prems show ?case
  proof (cases rule: number_loop_cases)
    case (one b s' f')
    from less.hyps [OF bump_length [OF peek_nonempty [OF one(1)]] one(3)] bump_src [OF one(1)] one(2) show ?thesis by simp
  next
    case (expo b c s' f')
    have "length (lx_src (lx_bump (lx_bump l))) < length (lx_src l)"
      using bump_length [OF peek_nonempty [OF expo(1)]] bump_length_le [of "lx_bump l"] by linarith
    from less.hyps [OF this expo(4)] bump_src [OF expo(1)] bump_src [OF expo(2)] expo(3) show ?thesis by simp
  qed (simp_all add: bump_src)
qed

lemma string_loop_less: "string_loop sp q l = Inr (s, l') \<Longrightarrow> length (lx_src l') < length (lx_src l)"
proof (induction sp q l arbitrary: s l' rule: string_loop.induct)
  case (1 sp q l)
  obtain b where b: "lx_peek l = Some b"
    using 1(3) by (cases "lx_peek l") (auto simp: string_loop.simps [of sp q l] dl_error_def)
  note len = bump_length [OF peek_nonempty [OF b]] bump_length_le [of "lx_bump l"]
  show ?case
  proof (cases "b = backslash")
    case True
    with 1(3) b obtain e c s' where "lx_peek (lx_bump l) = Some e" "escape_char e = Some c"
      "string_loop sp q (lx_bump (lx_bump l)) = Inr (s', l')"
      by (auto simp: string_loop.simps [of sp q l] Let_def dl_error_def rbind_Inr_iff split: option.splits)
    with 1(1) [OF b True refl this(1,2)] len show ?thesis by fastforce
  next
    case False
    show ?thesis
    proof (cases "b = q")
      case True
      with 1(3) b False len show ?thesis by (auto simp: string_loop.simps [of sp q l])
    next
      case nq: False
      with 1(3) b False obtain s' where "string_loop sp q (lx_bump l) = Inr (s', l')"
        by (auto simp: string_loop.simps [of sp q l] rbind_Inr_iff)
      with 1(2) [OF b False nq] len show ?thesis by fastforce
    qed
  qed
qed

lemma dl_error_neq [simp]: "dl_error sp m \<noteq> Inr x"
  by (simp add: dl_error_def)

lemma read_iri_less: "read_iri sp l = Inr (t, l') \<Longrightarrow> length (lx_src l') < length (lx_src l)"
  using bump_length_le [of l] by (auto simp: read_iri_def split: option.splits dest!: iri_loop_less)

lemma read_datatype_less:
  assumes "read_datatype l = Inr (t, l')" shows "length (lx_src l') < length (lx_src l)"
proof -
  consider "read_iri (lx_span l) l = Inr (t, l')"
    | n where "read_name (lx_span l) (lx_bump l) = Inr (n, l')"
    | n where "read_name (lx_span l) l = Inr (n, l')"
    | n l1 m where "read_name (lx_span l) l = Inr (n, l1)" "read_name (lx_span l) (lx_bump l1) = Inr (m, l')"
    using assms by (auto simp: read_datatype_def rbind_Inr_iff Let_def split: option.splits if_splits)
  then show ?thesis
  proof cases
    case (4 n l1 m)
    from read_name_less [OF 4(1)] read_name_less [OF 4(2)] bump_length_le [of l1] show ?thesis by linarith
  qed (use bump_length_le [of l] in \<open>auto dest!: read_iri_less read_name_less\<close>)
qed

lemma read_string_less:
  assumes "read_string sp l = Inr (t, l')" shows "length (lx_src l') < length (lx_src l)"
proof -
  obtain q s l1 where l1: "string_loop sp q (lx_bump l) = Inr (s, l1)"
    and l': "l' = l1 \<or> (\<exists>n. read_name sp (lx_bump l1) = Inr (n, l')) \<or> (\<exists>d. read_datatype (lx_bump (lx_bump l1)) = Inr (d, l'))"
    using assms by (auto simp: read_string_def rbind_Inr_iff split: option.splits if_splits)
  have "length (lx_src l') \<le> length (lx_src l1)"
    using l' bump_length_le [of l1] bump_length_le [of "lx_bump l1"] by (auto dest!: read_name_less read_datatype_less)
  with string_loop_less [OF l1] bump_length_le [of l] show ?thesis by linarith
qed

lemma one_tok_less:
  assumes "lx_peek l = Some b"
  shows "one_tok t0 l = Inr (t, l') \<Longrightarrow> length (lx_src l') < length (lx_src l)"
    and "two_toks c t2 t1 l = Inr (t, l') \<Longrightarrow> length (lx_src l') < length (lx_src l)"
  using bump_length [OF peek_nonempty [OF assms]] bump_length_le [of "lx_bump l"]
  by (auto simp: one_tok_def two_toks_def Let_def split: if_splits)

lemma read_word_less:
  assumes "read_word sp l = Inr (t, l')" shows "length (lx_src l') < length (lx_src l)"
proof -
  obtain n l1 where l1: "read_name sp l = Inr (n, l1)"
    and l': "l' = l1 \<or> l' = lx_bump l1 \<or> (\<exists>m. read_name sp (lx_bump l1) = Inr (m, l'))"
    using assms by (auto simp: read_word_def rbind_Inr_iff Let_def split: if_splits)
  then show ?thesis using read_name_less [OF l1] bump_length_le [of l1] by (auto dest!: read_name_less)
qed

text \<open>A lexing step that, when it succeeds, leaves less input.\<close>

definition consumes :: "lexer \<Rightarrow> datalog_error + tok \<times> lexer \<Rightarrow> bool" where
  "consumes l r \<longleftrightarrow> (\<forall>t l'. r = Inr (t, l') \<longrightarrow> length (lx_src l') < length (lx_src l))"

lemma consumes_if: "(c \<Longrightarrow> consumes l a) \<Longrightarrow> (\<not> c \<Longrightarrow> consumes l b) \<Longrightarrow> consumes l (if c then a else b)"
  by simp

lemma consumes_read_var: "lx_peek l = Some b \<Longrightarrow> consumes l (read_var sp (lx_bump l))"
  using bump_length_le [of l] by (auto simp: consumes_def read_var_def rbind_Inr_iff dest!: read_name_less)

lemma consumes_curie: "lx_peek l = Some b \<Longrightarrow> consumes l (rbind (read_name sp (lx_bump l)) (\<lambda>(n, l'). Inr (TCurie [] n, l')))"
  using bump_length_le [of l] by (auto simp: consumes_def rbind_Inr_iff dest!: read_name_less)

lemma consumes_directive: "lx_peek l = Some b \<Longrightarrow> consumes l (read_directive sp l)"
  using bump_length_le [of l] by (auto simp: consumes_def read_directive_def rbind_Inr_iff split: if_splits dest!: read_name_less)

lemma consumes_bump2: "lx_peek l = Some b \<Longrightarrow> consumes l (Inr (t, lx_bump (lx_bump l)))"
  using bump_length [OF peek_nonempty, of l b] bump_length_le [of "lx_bump l"] by (simp add: consumes_def)

lemma consumes_number:
  assumes "lx_peek l = Some b" "is_ascii_digit b"
  shows "consumes l (read_number sp l)"
proof -
  obtain s f l1 where n: "number_loop l = (s, f, l1)" by (cases "number_loop l")
  then have "s \<noteq> []" using assms by (subst (asm) number_loop.simps) (auto split: prod.splits)
  with number_loop_src [OF n] have "length (lx_src l1) < length (lx_src l)" by simp
  with n show ?thesis by (auto simp: consumes_def read_number_def Let_def split: if_splits option.splits)
qed

lemma consumes_rest:
  "lx_peek l = Some b \<Longrightarrow> consumes l (one_tok t l)" "lx_peek l = Some b \<Longrightarrow> consumes l (two_toks c t2 t1 l)"
  "consumes l (read_iri sp l)" "consumes l (read_string sp l)" "consumes l (read_word sp l)" "consumes l (dl_error sp m)"
  by (auto simp: consumes_def dest: one_tok_less read_iri_less read_string_less read_word_less)

lemmas consumes_intros = consumes_if consumes_read_var consumes_curie consumes_directive consumes_bump2 consumes_number consumes_rest

lemma next_token_consumes: "lx_peek l = Some b \<Longrightarrow> consumes l (next_token b l)"
  unfolding next_token_def Let_def by (intro consumes_intros; assumption)

lemma skip_trivia_le: "length (lx_src (skip_trivia l)) \<le> length (lx_src l)"
proof (induction l rule: skip_trivia.induct)
  case (1 l)
  show ?case
  proof (cases "lx_peek l")
    case (Some b)
    with 1 bump_length_le [of l] skip_comment_length [of l] show ?thesis by (auto simp: skip_trivia.simps [of l])
  qed (simp add: skip_trivia.simps [of l])
qed

function tokenize :: "lexer \<Rightarrow> datalog_error + spanned list" where
  "tokenize l0 =
     (let l = skip_trivia l0 in
      case lx_peek l of
        None \<Rightarrow> Inr []
      | Some b \<Rightarrow>
          rbind (next_token b l) (\<lambda>(t, l'). rbind (tokenize l') (\<lambda>ts. Inr (\<lparr>sp_tok = t, sp_span = lx_span l\<rparr> # ts))))"
  by pat_completeness auto
termination
proof (relation "measure (\<lambda>l. length (lx_src l))", goal_cases)
  case (2 l0 l b r t l')
  then have "length (lx_src l') < length (lx_src l)"
    using next_token_consumes [OF 2(2)] by (auto simp: consumes_def)
  with 2(1) skip_trivia_le [of l0] show ?case by simp
qed simp

declare tokenize.simps [simp del]

section \<open>Printing tokens\<close>

definition escape :: "string \<Rightarrow> string" where
  "escape s = concat (map (\<lambda>c. if c = backslash \<or> c = quote2 then [backslash, c] else [c]) s)"

fun show_tok :: "tok \<Rightarrow> string" where
  "show_tok (TVar v) = ''?'' @ v"
| "show_tok TWildcard = ''_''"
| "show_tok (TName n) = n"
| "show_tok (TIri i) = ''<'' @ i @ ''>''"
| "show_tok (TCurie p l) = p @ '':'' @ l"
| "show_tok (TStr v lang dt) = [quote2] @ escape v @ [quote2] @
     (case lang of Some lg \<Rightarrow> ''@'' @ lg | None \<Rightarrow> (case dt of Some t \<Rightarrow> ''^^'' @ show_tok t | None \<Rightarrow> []))"
| "show_tok (TInt n) = show_int n"
| "show_tok (TNum v) = f64_debug v"
| "show_tok TImplies = '':-''"
| "show_tok TQuery = ''?-''"
| "show_tok TAtPrefix = ''@prefix''"
| "show_tok TAtVersion = ''@version''"
| "show_tok TLParen = ''(''"
| "show_tok TRParen = '')''"
| "show_tok TComma = '',''"
| "show_tok TDot = ''.''"
| "show_tok TEq = ''=''"
| "show_tok TNe = ''!=''"
| "show_tok TLt = ''<''"
| "show_tok TLe = ''<=''"
| "show_tok TGt = ''>''"
| "show_tok TGe = ''>=''"
| "show_tok TPlus = ''+''"
| "show_tok TMinus = ''-''"
| "show_tok TStar = ''*''"
| "show_tok TSlash = ''/''"
| "show_tok TAnd = ''&&''"
| "show_tok TOr = ''||''"
| "show_tok TBang = ''!''"

text \<open>The tokens a program text can denote; floating point numbers are left out.\<close>

definition name_ok :: "string \<Rightarrow> bool" where
  "name_ok s \<longleftrightarrow> s \<noteq> [] \<and> list_all is_name_byte s \<and> last s \<noteq> CHR ''.''"

definition word_ok :: "string \<Rightarrow> bool" where
  "word_ok s \<longleftrightarrow> name_ok s \<and> is_name_start (hd s) \<and> s \<noteq> ''_''"

definition iri_ok :: "string \<Rightarrow> bool" where
  "iri_ok s \<longleftrightarrow> s \<noteq> [] \<and> hd s \<noteq> CHR ''='' \<and>
     list_all (\<lambda>c. byte c < 128 \<and> \<not> is_ascii_whitespace c \<and> c \<noteq> CHR ''<'' \<and> c \<noteq> CHR ''>'') s"

fun lexable :: "tok \<Rightarrow> bool" where
  "lexable (TVar v) = (name_ok v \<and> hd v \<noteq> CHR ''-'')"
| "lexable (TName n) = word_ok n"
| "lexable (TIri i) = iri_ok i"
| "lexable (TCurie p l) =
     (if p = [] then name_ok l \<and> hd l \<noteq> CHR ''-'' else word_ok p \<and> (l = [] \<or> name_ok l \<and> is_name_start (hd l)))"
| "lexable (TStr v lang dt) =
     (case lang of
        Some lg \<Rightarrow> name_ok lg \<and> dt = None
      | None \<Rightarrow>
          (case dt of
             None \<Rightarrow> True
           | Some (TIri i) \<Rightarrow> iri_ok i
           | Some (TCurie p l) \<Rightarrow> name_ok l \<and> (p = [] \<or> word_ok p)
           | Some (TName n) \<Rightarrow> word_ok n
           | Some _ \<Rightarrow> False))"
| "lexable (TInt n) = (0 \<le> n \<and> n \<le> i64_max)"
| "lexable (TNum v) = False"
| "lexable _ = True"

definition yields :: "'a \<Rightarrow> string \<Rightarrow> datalog_error + 'a \<times> lexer \<Rightarrow> bool" where
  "yields t rest r \<longleftrightarrow> (\<exists>l'. r = Inr (t, l') \<and> lx_src l' = rest)"

lemma src_simps:
  "lx_src l = c # s \<Longrightarrow> lx_peek l = Some c" "lx_src l = c # s \<Longrightarrow> lx_src (lx_bump l) = s"
  "lx_src l = c # s \<Longrightarrow> lx_peek_at l (Suc 0) = get_nth s 0"
  by (auto simp: lx_peek_def lx_bump_def lx_peek_at_def)

lemma yields_rbind:
  "yields a s r \<Longrightarrow> (\<And>l'. lx_src l' = s \<Longrightarrow> yields t rest (f (a, l'))) \<Longrightarrow> yields t rest (rbind r f)"
  by (auto simp: yields_def)

lemma yields_Inr [simp]: "yields t rest (Inr (t', l')) \<longleftrightarrow> t = t' \<and> lx_src l' = rest"
  by (auto simp: yields_def)

lemma name_loop_yields:
  "list_all is_name_byte s \<Longrightarrow> s = [] \<or> last s \<noteq> CHR ''.'' \<Longrightarrow> \<not> is_name_byte c \<Longrightarrow> lx_src l = s @ c # rest \<Longrightarrow>
     \<exists>l'. name_loop l = (s, l') \<and> lx_src l' = c # rest"
proof (induction s arbitrary: l)
  case Nil
  then have "lx_peek l = Some c" by (simp add: src_simps)
  with Nil show ?case by (simp add: name_loop.simps [of l])
next
  case (Cons b s)
  have l: "lx_src l = b # (s @ c # rest)" using Cons.prems by simp
  have dot: "b = CHR ''.'' \<Longrightarrow> is_name_byte (or_space (lx_peek_at l 1))"
    using Cons.prems src_simps(3) [OF l] by (cases s) (auto simp: or_space_def)
  obtain l' where "name_loop (lx_bump l) = (s, l')" "lx_src l' = c # rest"
    using Cons.IH [of "lx_bump l"] Cons.prems src_simps(2) [OF l] by (auto split: if_splits)
  with Cons.prems(1) src_simps(1) [OF l] dot show ?case by (simp add: name_loop.simps [of l])
qed

lemma read_name_yields:
  "name_ok s \<Longrightarrow> \<not> is_name_byte c \<Longrightarrow> lx_src l = s @ c # rest \<Longrightarrow> yields s (c # rest) (read_name sp l)"
  using name_loop_yields [of s c l rest] by (auto simp: name_ok_def yields_def read_name_def)

lemma space_not_name [simp]: "\<not> is_name_byte (CHR '' '')" "\<not> is_name_byte (CHR '':'')"
  by (simp_all add: is_name_byte_def is_ascii_alphanumeric_def is_ascii_alphabetic_def is_ascii_upper_def is_ascii_lower_def
      is_ascii_digit_def)

lemma iri_loop_yields:
  "list_all (\<lambda>c. byte c < 128 \<and> c \<noteq> CHR ''>'') s \<Longrightarrow> lx_src l = s @ CHR ''>'' # rest \<Longrightarrow>
     \<exists>l'. iri_loop l = Some (s, l') \<and> lx_src l' = rest"
proof (induction s arbitrary: l)
  case Nil
  then have l: "lx_src l = CHR ''>'' # rest" by simp
  then show ?case by (simp add: iri_loop.simps [of l] src_simps [OF l])
next
  case (Cons b s)
  have l: "lx_src l = b # (s @ CHR ''>'' # rest)" using Cons.prems by simp
  obtain l' where "iri_loop (lx_bump l) = Some (s, l')" "lx_src l' = rest"
    using Cons.IH [of "lx_bump l"] Cons.prems src_simps(2) [OF l] by auto
  with Cons.prems(1) src_simps(1) [OF l] show ?case by (simp add: iri_loop.simps [of l] latin1_def)
qed

lemma read_iri_yields:
  assumes "iri_ok s" "lx_src l = CHR ''<'' # s @ CHR ''>'' # rest"
  shows "yields (TIri s) rest (read_iri sp l)"
proof -
  have "list_all (\<lambda>c. byte c < 128 \<and> c \<noteq> CHR ''>'') s" using assms(1) by (auto simp: iri_ok_def list_all_iff)
  from iri_loop_yields [OF this, of "lx_bump l" rest] src_simps(2) [OF assms(2)] show ?thesis
    by (auto simp: read_iri_def yields_def)
qed

lemma iri_closes_ok: "list_all (\<lambda>c. \<not> is_ascii_whitespace c \<and> c \<noteq> CHR ''<'' \<and> c \<noteq> CHR ''>'') s \<Longrightarrow> iri_closes (s @ CHR ''>'' # rest)"
  by (induction s) auto

lemma is_iri_start_ok:
  assumes "iri_ok s" "lx_src l = CHR ''<'' # s @ CHR ''>'' # rest"
  shows "is_iri_start l"
proof -
  have "iri_closes (s @ CHR ''>'' # rest)" by (rule iri_closes_ok) (use assms(1) in \<open>auto simp: iri_ok_def list_all_iff\<close>)
  with assms show ?thesis by (cases s) (auto simp: is_iri_start_def iri_ok_def)
qed

lemma number_loop_digits:
  "list_all is_ascii_digit s \<Longrightarrow> lx_src l = s @ CHR '' '' # rest \<Longrightarrow> \<exists>l'. number_loop l = (s, False, l') \<and> lx_src l' = CHR '' '' # rest"
proof (induction s arbitrary: l)
  case Nil
  then have l: "lx_src l = CHR '' '' # rest" by simp
  then show ?case by (simp add: number_loop.simps [of l] src_simps [OF l] is_ascii_digit_def)
next
  case (Cons b s)
  have l: "lx_src l = b # (s @ CHR '' '' # rest)" using Cons.prems by simp
  obtain l' where "number_loop (lx_bump l) = (s, False, l')" "lx_src l' = CHR '' '' # rest"
    using Cons.IH [of "lx_bump l"] Cons.prems src_simps(2) [OF l] by auto
  with Cons.prems(1) src_simps(1) [OF l] show ?case by (simp add: number_loop.simps [of l])
qed

lemma string_loop_yields:
  "lx_src l = escape s @ quote2 # rest \<Longrightarrow> yields s rest (string_loop sp quote2 l)"
proof (induction s arbitrary: l)
  case Nil
  then have l: "lx_src l = quote2 # rest" by (simp add: escape_def)
  then show ?case by (subst string_loop.simps) (simp add: src_simps [OF l])
next
  case (Cons c s)
  show ?case
  proof (cases "c = backslash \<or> c = quote2")
    case True
    have l: "lx_src l = backslash # (c # escape s @ quote2 # rest)" using True Cons.prems by (auto simp: escape_def)
    note l1 = src_simps(2) [OF l]
    have "yields s rest (string_loop sp quote2 (lx_bump (lx_bump l)))" by (rule Cons.IH) (simp add: src_simps(2) [OF l1])
    moreover have "escape_char c = Some c" using True by (auto simp: escape_char_def)
    ultimately show ?thesis
      by (subst string_loop.simps) (auto simp: src_simps(1) [OF l] src_simps(1) [OF l1] Let_def intro: yields_rbind)
  next
    case False
    have l: "lx_src l = c # (escape s @ quote2 # rest)" using False Cons.prems by (auto simp: escape_def)
    have "yields s rest (string_loop sp quote2 (lx_bump l))" by (rule Cons.IH) (simp add: src_simps(2) [OF l])
    with False show ?thesis
      by (subst string_loop.simps) (auto simp: src_simps(1) [OF l] intro: yields_rbind)
  qed
qed

section \<open>Reading printed tokens\<close>

lemmas char_class_defs =
  is_name_start_def is_name_byte_def is_ascii_alphanumeric_def is_ascii_alphabetic_def is_ascii_upper_def is_ascii_lower_def
  is_ascii_digit_def is_ascii_whitespace_def

lemma next_token_word:
  assumes "is_name_start b" "b = CHR ''_'' \<Longrightarrow> is_name_byte (or_space (lx_peek_at l 1))"
  shows "next_token b l = read_word (lx_span l) l"
proof -
  have "b \<notin> {CHR ''?'', CHR ''$'', CHR ''<'', CHR ''>'', CHR ''='', CHR ''!'', CHR '':'', CHR ''@'', CHR ''&'', CHR ''|'', quote2, quote1,
      CHR ''('', CHR '')'', CHR '','', CHR ''.'', CHR ''+'', CHR ''-'', CHR ''*'', CHR ''/''}" "\<not> is_ascii_digit b"
    using assms(1) by (auto simp: char_class_defs)
  moreover have "(b = CHR ''_'' \<and> \<not> is_name_byte (or_space (lx_peek_at l 1))) = False" using assms(2) by blast
  ultimately show ?thesis
    using assms(1) unfolding next_token_def Let_def
    by (simp only: insert_iff empty_iff de_Morgan_disj simp_thms if_False if_True)
qed

lemma next_token_digit: "is_ascii_digit b \<Longrightarrow> next_token b l = read_number (lx_span l) l"
proof -
  assume d: "is_ascii_digit b"
  have "b \<notin> {CHR ''?'', CHR ''$'', CHR ''<'', CHR ''>'', CHR ''='', CHR ''!'', CHR '':'', CHR ''@'', CHR ''&'', CHR ''|'', quote2, quote1,
      CHR ''('', CHR '')'', CHR '','', CHR ''.'', CHR ''+'', CHR ''-'', CHR ''*'', CHR ''/''}"
    using d by (auto simp: char_class_defs)
  with d show ?thesis unfolding next_token_def Let_def by simp
qed

lemma word_next:
  assumes "word_ok n" "lx_src l = n @ c # rest" "\<not> is_name_byte c"
  shows "lx_peek l = Some (hd n)" "next_token (hd n) l = read_word (lx_span l) l"
proof -
  obtain b n' where n: "n = b # n'" using assms(1) by (cases n) (auto simp: word_ok_def name_ok_def)
  then have l: "lx_src l = b # (n' @ c # rest)" using assms(2) by simp
  show "lx_peek l = Some (hd n)" using src_simps(1) [OF l] n by simp
  have "b = CHR ''_'' \<Longrightarrow> is_name_byte (or_space (lx_peek_at l 1))"
    using assms(1) n src_simps(3) [OF l] by (cases n') (auto simp: word_ok_def name_ok_def or_space_def)
  with assms(1) n show "next_token (hd n) l = read_word (lx_span l) l" by (simp add: next_token_word word_ok_def)
qed

lemma read_word_name:
  assumes "word_ok n" "lx_src l = n @ CHR '' '' # rest"
  shows "yields (TName n) (CHR '' '' # rest) (read_word sp l)"
  unfolding read_word_def
  by (rule yields_rbind [OF read_name_yields [of n "CHR '' ''" l rest]])
    (use assms in \<open>auto simp: word_ok_def src_simps\<close>)

lemma read_word_curie:
  assumes "word_ok p" "l = [] \<or> name_ok l \<and> is_name_start (hd l)" "lx_src x = p @ CHR '':'' # l @ CHR '' '' # rest"
  shows "yields (TCurie p l) (CHR '' '' # rest) (read_word sp x)"
  unfolding read_word_def
proof (rule yields_rbind [OF read_name_yields [of p "CHR '':''" x "l @ CHR '' '' # rest"]])
  fix x1 :: lexer assume x1: "lx_src x1 = CHR '':'' # l @ CHR '' '' # rest"
  note x2 = src_simps(2) [OF x1]
  have pk: "lx_peek_at x1 1 \<noteq> Some (CHR ''-'')"
    using assms(2) src_simps(3) [OF x1] by (cases l) (auto simp: char_class_defs)
  show "yields (TCurie p l) (CHR '' '' # rest)
      (case (p, x1) of (name, l1) \<Rightarrow>
        if lx_peek l1 = Some (CHR '':'') \<and> lx_peek_at l1 1 \<noteq> Some (CHR ''-'')
        then (let l2 = lx_bump l1 in
             if is_name_start (or_space (lx_peek l2))
             then rbind (read_name sp l2) (\<lambda>(local, l3). Inr (TCurie name local, l3))
             else Inr (TCurie name [], l2))
        else Inr (TName name, l1))"
  proof (cases l)
    case Nil
    have "\<not> is_name_start (or_space (lx_peek (lx_bump x1)))" using x2 Nil by (simp add: src_simps or_space_def char_class_defs)
    with Nil pk x1 x2 show ?thesis by (simp add: src_simps Let_def)
  next
    case (Cons c l')
    then have ok: "name_ok l" "is_name_start (or_space (lx_peek (lx_bump x1)))" using assms(2) x2 by (auto simp: src_simps or_space_def)
    have "yields l (CHR '' '' # rest) (read_name sp (lx_bump x1))"
      by (rule read_name_yields) (use ok x2 in simp_all)
    then have "yields (TCurie p l) (CHR '' '' # rest) (rbind (read_name sp (lx_bump x1)) (\<lambda>(local, l3). Inr (TCurie p local, l3)))"
      by (rule yields_rbind) simp
    with ok pk x1 show ?thesis by (simp add: src_simps Let_def)
  qed
qed (use assms in \<open>simp_all add: word_ok_def\<close>)

lemma read_datatype_yields:
  assumes "lexable (TStr v None (Some t))" "lx_src l = show_tok t @ CHR '' '' # rest"
  shows "yields t (CHR '' '' # rest) (read_datatype l)"
proof -
  consider (iri) i where "t = TIri i" "iri_ok i" | (curie) p n where "t = TCurie p n" "name_ok n" "p = [] \<or> word_ok p"
    | (name) n where "t = TName n" "word_ok n"
    using assms(1) by (auto split: tok.splits)
  then show ?thesis
  proof cases
    case iri
    then have l: "lx_src l = CHR ''<'' # i @ CHR ''>'' # (CHR '' '' # rest)" using assms(2) by simp
    from read_iri_yields [OF iri(2) l] show ?thesis by (simp add: iri read_datatype_def src_simps(1) [OF l] Let_def)
  next
    case curie
    show ?thesis
    proof (cases "p = []")
      case True
      then have l: "lx_src l = CHR '':'' # n @ CHR '' '' # rest" using assms(2) curie by simp
      have "yields t (CHR '' '' # rest) (rbind (read_name (lx_span l) (lx_bump l)) (\<lambda>(n, l1). Inr (TCurie [] n, l1)))"
        by (rule yields_rbind [OF read_name_yields [OF curie(2), of "CHR '' ''"]]) (use src_simps(2) [OF l] True curie in simp_all)
      then show ?thesis by (simp add: read_datatype_def src_simps(1) [OF l] Let_def)
    next
      case False
      then have p: "word_ok p" using curie by simp
      then obtain b p' where b: "p = b # p'" "is_name_start b" by (cases p) (auto simp: word_ok_def name_ok_def)
      have l: "lx_src l = b # (p' @ CHR '':'' # n @ CHR '' '' # rest)" using assms(2) curie b by simp
      have nb: "b \<noteq> CHR ''<''" "b \<noteq> CHR '':''" using b(2) by (auto simp: char_class_defs)
      have "yields t (CHR '' '' # rest) (rbind (read_name (lx_span l) l) (\<lambda>(prefix, l1).
          if lx_peek l1 = Some (CHR '':'')
          then rbind (read_name (lx_span l) (lx_bump l1)) (\<lambda>(n, l2). Inr (TCurie prefix n, l2)) else Inr (TName prefix, l1)))"
      proof (rule yields_rbind [OF read_name_yields [of p "CHR '':''" _ "n @ CHR '' '' # rest"]])
        fix l1 :: lexer assume l1: "lx_src l1 = CHR '':'' # n @ CHR '' '' # rest"
        have "yields t (CHR '' '' # rest) (rbind (read_name (lx_span l) (lx_bump l1)) (\<lambda>(n, l2). Inr (TCurie p n, l2)))"
          by (rule yields_rbind [OF read_name_yields [OF curie(2), of "CHR '' ''"]]) (use src_simps(2) [OF l1] curie in simp_all)
        then show "yields t (CHR '' '' # rest) (case (p, l1) of (prefix, l1) \<Rightarrow>
          if lx_peek l1 = Some (CHR '':'')
          then rbind (read_name (lx_span l) (lx_bump l1)) (\<lambda>(n, l2). Inr (TCurie prefix n, l2)) else Inr (TName prefix, l1))"
          using l1 by (simp add: src_simps)
      qed (use p l b in \<open>simp_all add: word_ok_def\<close>)
      with nb b show ?thesis by (simp add: read_datatype_def src_simps(1) [OF l] Let_def)
    qed
  next
    case name
    then obtain b n' where b: "n = b # n'" "is_name_start b" by (cases n) (auto simp: word_ok_def name_ok_def)
    have l: "lx_src l = b # (n' @ CHR '' '' # rest)" using assms(2) name b by simp
    have nb: "b \<noteq> CHR ''<''" "b \<noteq> CHR '':''" using b(2) by (auto simp: char_class_defs)
    have "yields t (CHR '' '' # rest) (rbind (read_name (lx_span l) l) (\<lambda>(prefix, l1).
        if lx_peek l1 = Some (CHR '':'')
        then rbind (read_name (lx_span l) (lx_bump l1)) (\<lambda>(n, l2). Inr (TCurie prefix n, l2)) else Inr (TName prefix, l1)))"
      by (rule yields_rbind [OF read_name_yields [of n "CHR '' ''" _ rest]])
        (use name l b in \<open>auto simp: word_ok_def src_simps\<close>)
    with nb b show ?thesis by (simp add: read_datatype_def src_simps(1) [OF l] Let_def)
  qed
qed

lemma read_string_yields:
  assumes "lexable (TStr v lang dt)" "lx_src l = show_tok (TStr v lang dt) @ CHR '' '' # rest"
  shows "yields (TStr v lang dt) (CHR '' '' # rest) (read_string sp l)"
proof -
  let ?suffix = "case lang of Some lg \<Rightarrow> ''@'' @ lg | None \<Rightarrow> (case dt of Some t \<Rightarrow> ''^^'' @ show_tok t | None \<Rightarrow> [])"
  have l: "lx_src l = quote2 # (escape v @ quote2 # (?suffix @ CHR '' '' # rest))" using assms(2) by simp
  have "yields v (?suffix @ CHR '' '' # rest) (string_loop sp quote2 (lx_bump l))"
    by (rule string_loop_yields) (simp add: src_simps(2) [OF l])
  then show ?thesis unfolding read_string_def src_simps(1) [OF l] option.case
  proof (rule yields_rbind)
    fix l1 :: lexer assume l1: "lx_src l1 = ?suffix @ CHR '' '' # rest"
    let ?f = "\<lambda>(text, l1).
            if lx_peek l1 = Some (CHR ''@'')
            then rbind (read_name sp (lx_bump l1)) (\<lambda>(lang, l2). Inr (TStr text (Some lang) None, l2))
            else if lx_peek l1 = Some (CHR ''^'') \<and> lx_peek_at l1 1 = Some (CHR ''^'')
            then rbind (read_datatype (lx_bump (lx_bump l1))) (\<lambda>(dt, l2). Inr (TStr text None (Some dt), l2))
            else Inr (TStr text None None, l1)"
    show "yields (TStr v lang dt) (CHR '' '' # rest) (?f (v, l1))"
    proof (cases lang)
      case (Some lg)
      then have n: "name_ok lg" "dt = None" "lx_src l1 = CHR ''@'' # lg @ CHR '' '' # rest" using assms(1) l1 by simp_all
      have "yields (TStr v lang dt) (CHR '' '' # rest)
          (rbind (read_name sp (lx_bump l1)) (\<lambda>(lang, l2). Inr (TStr v (Some lang) None, l2)))"
        by (rule yields_rbind [OF read_name_yields [OF n(1), of "CHR '' ''"]]) (use src_simps(2) [OF n(3)] Some n in simp_all)
      with src_simps(1) [OF n(3)] show ?thesis by simp
    next
      case None
      show ?thesis
      proof (cases dt)
        case (Some t)
        have l2: "lx_src l1 = CHR ''^'' # CHR ''^'' # show_tok t @ CHR '' '' # rest" using l1 None Some by simp
        note l3 = src_simps(2) [OF l2]
        have "yields t (CHR '' '' # rest) (read_datatype (lx_bump (lx_bump l1)))"
          by (rule read_datatype_yields) (use assms(1) None Some src_simps(2) [OF l3] in simp_all)
        then have "yields (TStr v lang dt) (CHR '' '' # rest)
            (rbind (read_datatype (lx_bump (lx_bump l1))) (\<lambda>(dt, l2). Inr (TStr v None (Some dt), l2)))"
          by (rule yields_rbind) (simp add: None Some)
        with src_simps(1) [OF l2] src_simps(3) [OF l2] show ?thesis by simp
      next
        case dn: None
        then have "lx_src l1 = CHR '' '' # rest" using l1 None by simp
        with None dn show ?thesis by (simp add: src_simps)
      qed
    qed
  qed
qed

lemma trivia_no_token:
  assumes "is_ascii_whitespace b \<or> b = CHR ''%'' \<or> b = CHR ''#''"
  shows "\<not> yields t rest (next_token b l)"
proof -
  have bytes: "byte (CHR 0x09) = (9 :: nat)" "byte (CHR 0x0A) = (10 :: nat)" "byte (CHR 0x0C) = (12 :: nat)"
    "byte (CHR 0x0D) = (13 :: nat)" "byte (CHR '' '') = (32 :: nat)" by simp_all
  have "is_ascii_whitespace b \<Longrightarrow> b \<in> {CHR 0x09, CHR 0x0A, CHR 0x0C, CHR 0x0D, CHR '' ''}"
    unfolding is_ascii_whitespace_def bytes [symmetric] by (simp only: insert_iff empty_iff of_char_eq_iff)
  then have "b \<in> {CHR 0x09, CHR 0x0A, CHR 0x0C, CHR 0x0D, CHR '' '', CHR ''%'', CHR ''#''}"
    using assms by blast
  then have "next_token b l = dl_error (lx_span l) (''unexpected character `'' @ latin1 b @ ''`'')"
    by (elim insertE emptyE; simp add: next_token_def char_class_defs)
  then show ?thesis by (simp add: yields_def)
qed

definition reads :: "tok \<Rightarrow> string \<Rightarrow> lexer \<Rightarrow> bool" where
  "reads t rest l \<longleftrightarrow> (\<exists>b. lx_peek l = Some b \<and> yields t rest (next_token b l))"

lemma readsI: "lx_src l = b # s \<Longrightarrow> yields t rest (next_token b l) \<Longrightarrow> reads t rest l"
  by (auto simp: reads_def src_simps)

lemma reads_word:
  assumes "word_ok n" "lx_src l = n @ CHR '' '' # rest" shows "reads (TName n) (CHR '' '' # rest) l"
  using word_next [OF assms(1,2)] read_word_name [OF assms] by (simp add: reads_def)

lemma reads_curie:
  assumes "lexable (TCurie p n)" "lx_src l = show_tok (TCurie p n) @ CHR '' '' # rest"
  shows "reads (TCurie p n) (CHR '' '' # rest) l"
proof (cases "p = []")
  case True
  then have n: "name_ok n" "hd n \<noteq> CHR ''-''" and l: "lx_src l = CHR '':'' # n @ CHR '' '' # rest" using assms by simp_all
  have pk: "lx_peek_at l (Suc 0) \<noteq> Some (CHR ''-'')" using n src_simps(3) [OF l] by (cases n) (auto simp: name_ok_def)
  have "yields (TCurie p n) (CHR '' '' # rest) (rbind (read_name (lx_span l) (lx_bump l)) (\<lambda>(n, l'). Inr (TCurie [] n, l')))"
    by (rule yields_rbind [OF read_name_yields [OF n(1), of "CHR '' ''"]]) (use src_simps(2) [OF l] True in simp_all)
  with pk have "yields (TCurie p n) (CHR '' '' # rest) (next_token (CHR '':'') l)" by (simp add: next_token_def Let_def)
  with l show ?thesis by (rule readsI)
next
  case False
  then have p: "word_ok p" "n = [] \<or> name_ok n \<and> is_name_start (hd n)" and l: "lx_src l = p @ CHR '':'' # n @ CHR '' '' # rest"
    using assms by simp_all
  from word_next [OF p(1) l] read_word_curie [OF p l] show ?thesis by (simp add: reads_def)
qed

lemma reads_var:
  assumes "name_ok v" "hd v \<noteq> CHR ''-''" "lx_src l = CHR ''?'' # v @ CHR '' '' # rest"
  shows "reads (TVar v) (CHR '' '' # rest) l"
proof (rule readsI [OF assms(3)])
  note l1 = src_simps(2) [OF assms(3)]
  obtain c v' where v: "v = c # v'" "c \<noteq> CHR ''-''" using assms(1,2) by (cases v) (auto simp: name_ok_def)
  then have "lx_peek (lx_bump l) \<noteq> Some (CHR ''-'')" using l1 by (simp add: src_simps)
  moreover have "yields (TVar v) (CHR '' '' # rest) (read_var (lx_span l) (lx_bump l))"
    unfolding read_var_def by (rule yields_rbind [OF read_name_yields [OF assms(1), of "CHR '' ''"]]) (use l1 in simp_all)
  ultimately show "yields (TVar v) (CHR '' '' # rest) (next_token (CHR ''?'') l)" by (simp add: next_token_def Let_def)
qed

lemma reads_iri:
  assumes "iri_ok i" "lx_src l = CHR ''<'' # i @ CHR ''>'' # rest"
  shows "reads (TIri i) rest l"
proof (rule readsI [OF assms(2)])
  have "lx_peek_at l (Suc 0) \<noteq> Some (CHR ''='')" using assms src_simps(3) [OF assms(2)] by (cases i) (auto simp: iri_ok_def)
  then show "yields (TIri i) rest (next_token (CHR ''<'') l)"
    using is_iri_start_ok [OF assms] read_iri_yields [OF assms] by (simp add: next_token_def Let_def)
qed

lemma reads_int:
  assumes "0 \<le> n" "n \<le> i64_max" "lx_src l = show_int n @ CHR '' '' # rest"
  shows "reads (TInt n) (CHR '' '' # rest) l"
proof -
  have d: "list_all is_ascii_digit (show_int n)" using assms(1) show_nat_digits by (auto simp: show_int_def list_all_iff)
  obtain b s where b: "show_int n = b # s" by (cases "show_int n") simp
  then have l: "lx_src l = b # (s @ CHR '' '' # rest)" using assms(3) by simp
  obtain l' where "number_loop l = (show_int n, False, l')" "lx_src l' = CHR '' '' # rest"
    using number_loop_digits [OF d assms(3)] by blast
  moreover have "parse_i64 (show_int n) = Some n" using assms(1,2) by simp
  ultimately have "yields (TInt n) (CHR '' '' # rest) (read_number (lx_span l) l)" by (simp add: read_number_def)
  moreover have "is_ascii_digit b" using d b by simp
  ultimately show ?thesis using readsI [OF l] by (simp add: next_token_digit)
qed

lemma reads_directive:
  assumes "(w, t) \<in> {(''prefix'', TAtPrefix), (''version'', TAtVersion)}" "lx_src l = CHR ''@'' # w @ CHR '' '' # rest"
  shows "reads t (CHR '' '' # rest) l"
proof (rule readsI [OF assms(2)])
  have "name_ok w" using assms(1) by (auto simp: name_ok_def char_class_defs)
  then have "yields w (CHR '' '' # rest) (read_name (lx_span l) (lx_bump l))"
    by (rule read_name_yields) (use src_simps(2) [OF assms(2)] in simp_all)
  then have "yields t (CHR '' '' # rest) (read_directive (lx_span l) l)"
    unfolding read_directive_def by (rule yields_rbind) (use assms(1) in auto)
  then show "yields t (CHR '' '' # rest) (next_token (CHR ''@'') l)" by (simp add: next_token_def Let_def)
qed

text \<open>The tokens without content.\<close>

fun is_symbol :: "tok \<Rightarrow> bool" where
  "is_symbol (TVar _) = False" | "is_symbol (TName _) = False" | "is_symbol (TIri _) = False" | "is_symbol (TCurie _ _) = False"
| "is_symbol (TStr _ _ _) = False" | "is_symbol (TInt _) = False" | "is_symbol (TNum _) = False" | "is_symbol TAtPrefix = False"
| "is_symbol TAtVersion = False" | "is_symbol _ = True"

lemma symbol_peeks:
  assumes "lx_src l = [c] @ CHR '' '' # rest"
  shows "lx_peek l = Some c" "lx_src (lx_bump l) = CHR '' '' # rest" "lx_peek (lx_bump l) = Some (CHR '' '')"
    "lx_peek_at l (Suc 0) = Some (CHR '' '')" "c = CHR ''<'' \<Longrightarrow> \<not> is_iri_start l"
  using assms by (auto simp: src_simps is_iri_start_def char_class_defs)

lemma symbol_peeks2:
  assumes "lx_src l = [c, d] @ CHR '' '' # rest"
  shows "lx_peek l = Some c" "lx_peek (lx_bump l) = Some d" "lx_src (lx_bump (lx_bump l)) = CHR '' '' # rest"
    "lx_peek_at l (Suc 0) = Some d"
  using assms by (auto simp: src_simps)

lemma reads_symbol:
  assumes "is_symbol t" "lx_src l = show_tok t @ CHR '' '' # rest"
  shows "reads t (CHR '' '' # rest) l"
  using assms(1)
  by (cases t; use assms(2) in \<open>auto simp: reads_def next_token_def Let_def one_tok_def two_toks_def symbol_peeks symbol_peeks2
      or_space_def char_class_defs\<close>)

lemma reads_lexable:
  assumes "lexable t" "lx_src l = show_tok t @ CHR '' '' # rest"
  shows "reads t (CHR '' '' # rest) l"
proof (cases "is_symbol t")
  case True
  then show ?thesis using assms(2) by (rule reads_symbol)
next
  case False
  show ?thesis
  proof (cases t)
    case (TStr v lang dt)
    obtain s where l: "lx_src l = quote2 # s" using assms(2) TStr by simp
    have "next_token quote2 l = read_string (lx_span l) l" by (simp add: next_token_def Let_def)
    with read_string_yields [of v lang dt l rest] assms TStr show ?thesis using readsI [OF l] by simp
  qed (use False assms in \<open>simp_all add: reads_var reads_word reads_iri reads_curie reads_int reads_directive [where w = "''prefix''"]
      reads_directive [where w = "''version''"]\<close>)
qed

definition print_toks :: "tok list \<Rightarrow> string" where
  "print_toks ts = concat (map (\<lambda>t. show_tok t @ '' '') ts)"

lemma tokenize_printed:
  "list_all lexable ts \<Longrightarrow> lx_src l = print_toks ts \<or> lx_src l = CHR '' '' # print_toks ts \<Longrightarrow>
     \<exists>sps. tokenize l = Inr sps \<and> map sp_tok sps = ts"
proof (induction ts arbitrary: l)
  case Nil
  let ?l = "skip_trivia l"
  have "lx_src ?l = []"
  proof (cases "lx_src l")
    case (Cons c s)
    then have c: "lx_src l = CHR '' '' # []" using Nil by (simp add: print_toks_def)
    then have "skip_trivia l = skip_trivia (lx_bump l)" by (simp add: skip_trivia.simps [of l] src_simps is_ascii_whitespace_def)
    with src_simps(2) [OF c] show ?thesis by (simp add: skip_trivia.simps [of "lx_bump l"] lx_peek_def)
  qed (use Nil in \<open>simp add: skip_trivia.simps [of l] lx_peek_def\<close>)
  then show ?case by (subst tokenize.simps) (simp add: lx_peek_def Let_def)
next
  case (Cons t ts)
  let ?rest = "CHR '' '' # print_toks ts"
  have src: "print_toks (t # ts) = show_tok t @ ?rest" by (simp add: print_toks_def)
  obtain m where m: "lx_src m = show_tok t @ ?rest" "skip_trivia l = skip_trivia m"
  proof (cases "lx_src l = print_toks (t # ts)")
    case True
    with src that show thesis by simp
  next
    case False
    then have c: "lx_src l = CHR '' '' # print_toks (t # ts)" using Cons.prems by simp
    then have "skip_trivia l = skip_trivia (lx_bump l)" by (simp add: skip_trivia.simps [of l] src_simps is_ascii_whitespace_def)
    with src_simps(2) [OF c] src that show thesis by simp
  qed
  from reads_lexable [OF _ m(1)] Cons.prems obtain b where b: "lx_peek m = Some b" "yields t ?rest (next_token b m)"
    by (auto simp: reads_def)
  then have "skip_trivia m = m" using trivia_no_token [of b t ?rest m] by (auto simp: skip_trivia.simps [of m])
  moreover obtain l' where l': "next_token b m = Inr (t, l')" "lx_src l' = ?rest" using b(2) by (auto simp: yields_def)
  moreover obtain sps where "tokenize l' = Inr sps" "map sp_tok sps = ts" using Cons l'(2) by auto
  ultimately show ?case using m(2) b(1) by (subst tokenize.simps) (simp add: Let_def)
qed

section \<open>Properties\<close>



lemma iri_loop_latin1:
  "list_all (\<lambda>c. c \<noteq> CHR ''>'') s \<Longrightarrow> lx_src l = s @ CHR ''>'' # rest \<Longrightarrow>
     \<exists>l'. iri_loop l = Some (concat (map latin1 s), l') \<and> lx_src l' = rest"
proof (induction s arbitrary: l)
  case Nil
  then have l: "lx_src l = CHR ''>'' # rest" by simp
  then show ?case by (simp add: iri_loop.simps [of l] src_simps [OF l])
next
  case (Cons b s)
  have l: "lx_src l = b # (s @ CHR ''>'' # rest)" using Cons.prems by simp
  obtain l' where "iri_loop (lx_bump l) = Some (concat (map latin1 s), l')" "lx_src l' = rest"
    using Cons.IH [of "lx_bump l"] Cons.prems src_simps(2) [OF l] by auto
  with Cons.prems(1) src_simps(1) [OF l] show ?case by (simp add: iri_loop.simps [of l])
qed

lemma latin1_length: "length (concat (map latin1 s)) = length s + length (filter (\<lambda>c. byte c \<ge> 128) s)"
  by (induction s) (auto simp: latin1_def)

lemma latin1_same: "concat (map latin1 s) = s \<longleftrightarrow> list_all (\<lambda>c. byte c < 128) s"
proof
  assume "concat (map latin1 s) = s"
  with latin1_length [of s] have "filter (\<lambda>c. byte c \<ge> 128) s = []" by simp
  then show "list_all (\<lambda>c. byte c < 128) s" by (auto simp: filter_empty_conv list_all_iff)
next
  show "list_all (\<lambda>c. byte c < 128) s \<Longrightarrow> concat (map latin1 s) = s" by (induction s) (auto simp: latin1_def)
qed

text \<open>
  An IRI is read byte by byte as characters: one with a byte from \<open>0x80\<close> on (any non-ASCII IRI) comes out with every such
  byte doubled into a two-byte character, so the token never denotes the IRI that was written; an ASCII IRI is kept.
\<close>

theorem iri_token_ascii_only:
  assumes "list_all (\<lambda>c. c \<noteq> CHR ''>'') s" "lx_src l = CHR ''<'' # s @ CHR ''>'' # rest"
  shows "\<exists>i l'. read_iri sp l = Inr (TIri i, l') \<and> lx_src l' = rest \<and> (i = s \<longleftrightarrow> list_all (\<lambda>c. byte c < 128) s)"
proof -
  from iri_loop_latin1 [OF assms(1), of "lx_bump l" rest] src_simps(2) [OF assms(2)]
  obtain l' where "iri_loop (lx_bump l) = Some (concat (map latin1 s), l')" "lx_src l' = rest" by auto
  then show ?thesis using latin1_same [of s] by (simp add: read_iri_def)
qed

theorem iri_token_ascii_only_witness:
  "\<exists>i l'. read_iri \<lparr>line = 1, column = 1\<rparr> (lexer_new (CHR ''<'' # [CHR ''u'', CHR '':'', CHR 0xC3, CHR 0xA9] @ CHR ''>'' # '' .'')) =
       Inr (TIri i, l') \<and> lx_src l' = '' .'' \<and> (i = [CHR ''u'', CHR '':'', CHR 0xC3, CHR 0xA9] \<longleftrightarrow> list_all (\<lambda>c. byte c < 128) [CHR ''u'', CHR '':'', CHR 0xC3, CHR 0xA9])"
  by (rule iri_token_ascii_only) (simp_all add: lexer_new_def)

end
