(* ===== verification/Datalog_Parser.thy ===== *)
theory Datalog_Parser
  imports Datalog_Lexer
begin

text \<open>
  The recursive-descent parser of the Datalog dialect (\<^verbatim>\<open>parser.rs\<close>). The parser's state is the tokens that are left, the
  span reported at the end of the program (that of the last token) and the prefixes. Loops and nested expressions take
  fuel; a result is \<^const>\<open>None\<close> when it runs out, and \<open>parse\<close> gives as much as the program has tokens, which is
  always enough.

  Outside the repository, and so the fields of \<open>parse_ext\<close>: the IRI check of \<^verbatim>\<open>NamedNode::new\<close> (its error message), the language tag
  check of \<^verbatim>\<open>Literal::new_language_tagged_literal\<close> (its error message, or the tag it stores) and the derived \<^verbatim>\<open>Debug\<close>
  of a token, which only error messages show.
\<close>

record parse_ext =
  px_iri_error :: "string \<Rightarrow> string option"
  px_lang_tag :: "string \<Rightarrow> string + string"
  px_debug :: "tok \<Rightarrow> string"

record parser =
  ps_toks :: "spanned list"
  ps_end :: span
  ps_prefixes :: "string \<rightharpoonup> string"

type_synonym 'a pres = "(datalog_error + 'a \<times> parser) option"

definition pret :: "'a \<Rightarrow> parser \<Rightarrow> 'a pres" where
  "pret a p = Some (Inr (a, p))"

definition pfail :: "datalog_error \<Rightarrow> 'a pres" where
  "pfail e = Some (Inl e)"

definition perr :: "span \<Rightarrow> string \<Rightarrow> 'a pres" where
  "perr sp msg = pfail (DlParse sp msg)"

definition pbind :: "'a pres \<Rightarrow> ('a \<Rightarrow> parser \<Rightarrow> 'b pres) \<Rightarrow> 'b pres" where
  "pbind r f = (case r of None \<Rightarrow> None | Some (Inl e) \<Rightarrow> Some (Inl e) | Some (Inr (a, p)) \<Rightarrow> f a p)"

section \<open>Looking at tokens\<close>

definition ps_peek_at :: "parser \<Rightarrow> nat \<Rightarrow> tok option" where
  "ps_peek_at p n = map_option sp_tok (get_nth (ps_toks p) n)"

definition ps_peek :: "parser \<Rightarrow> tok option" where
  "ps_peek p = ps_peek_at p 0"

definition ps_span :: "parser \<Rightarrow> span" where
  "ps_span p = (case ps_toks p of [] \<Rightarrow> ps_end p | t # _ \<Rightarrow> sp_span t)"

text \<open>The state after \<^verbatim>\<open>bump\<close>.\<close>

definition ps_bump :: "parser \<Rightarrow> parser" where
  "ps_bump p = p\<lparr>ps_toks := tl (ps_toks p)\<rparr>"

definition ps_describe :: "parse_ext \<Rightarrow> parser \<Rightarrow> string" where
  "ps_describe x p = (case ps_peek p of None \<Rightarrow> ''end of program'' | Some t \<Rightarrow> px_debug x t)"

definition ps_expect :: "parse_ext \<Rightarrow> tok \<Rightarrow> string \<Rightarrow> parser \<Rightarrow> unit pres" where
  "ps_expect x want what p =
     (if ps_peek p = Some want then pret () (ps_bump p)
      else perr (ps_span p) (''expected '' @ what @ '', found '' @ ps_describe x p))"

section \<open>Terms\<close>

definition parse_iri :: "parse_ext \<Rightarrow> string \<Rightarrow> span \<Rightarrow> parser \<Rightarrow> string pres" where
  "parse_iri x i sp p = (case px_iri_error x i of None \<Rightarrow> pret i p | Some msg \<Rightarrow> perr sp msg)"

definition parse_curie :: "parse_ext \<Rightarrow> string \<Rightarrow> string \<Rightarrow> span \<Rightarrow> parser \<Rightarrow> string pres" where
  "parse_curie x prefix local sp p =
     (case ps_prefixes p prefix of
        None \<Rightarrow> pfail (DlUnknownPrefix prefix)
      | Some base \<Rightarrow> parse_iri x (base @ local) sp p)"

definition format_double :: "f64 \<Rightarrow> string" where
  "format_double v =
     (if f64_is_integral v \<and> f64_abs_lt v (10 ^ 15)
      then (if f64_sign v then ''-'' else []) @ show_int \<bar>f64_as_i64 v\<bar> @ ''.0E0''
      else if f64_is_nan v then ''NaN''
      else (if f64_sign v then ''-'' else []) @
        (if f64_mag v = inf_mag then ''inf''
         else (case shortest (f64_mag v) of (c, k) \<Rightarrow> map (\<lambda>ch. if ch = CHR ''e'' then CHR ''E'' else ch) (print_exp c k))))"

definition int_term :: "int \<Rightarrow> rdf_term" where
  "int_term v = Lit (typed_literal (show_int v) xsd_integer)"

definition num_term :: "f64 \<Rightarrow> rdf_term" where
  "num_term v = Lit (typed_literal (format_double v) xsd_double)"

definition str_term :: "parse_ext \<Rightarrow> span \<Rightarrow> string \<Rightarrow> string option \<Rightarrow> tok option \<Rightarrow> parser \<Rightarrow> rdf_term pres" where
  "str_term x sp v lang datatype p =
     (case lang of
        Some lg \<Rightarrow> (case px_lang_tag x lg of Inl msg \<Rightarrow> perr sp msg | Inr tag \<Rightarrow> pret (Lit (lang_literal v tag)) p)
      | None \<Rightarrow>
          (case datatype of
             None \<Rightarrow> pret (Lit (simple_literal v)) p
           | Some dt \<Rightarrow>
               pbind (case dt of
                   TIri i \<Rightarrow> parse_iri x i sp p
                 | TCurie pr l \<Rightarrow> parse_curie x pr l sp p
                 | TName n \<Rightarrow> parse_curie x ''xsd'' n sp p
                 | _ \<Rightarrow> perr sp ''expected a datatype'') (\<lambda>d p'. pret (Lit (typed_literal v d)) p')))"

definition parse_term :: "parse_ext \<Rightarrow> parser \<Rightarrow> rdf_term pres" where
  "parse_term x p =
     (let sp = ps_span p; p1 = ps_bump p in
      case ps_peek p of
        Some (TIri i) \<Rightarrow> pbind (parse_iri x i sp p1) (\<lambda>n. pret (NamedNode n))
      | Some (TCurie pr l) \<Rightarrow> pbind (parse_curie x pr l sp p1) (\<lambda>n. pret (NamedNode n))
      | Some (TInt v) \<Rightarrow> pret (int_term v) p1
      | Some (TNum v) \<Rightarrow> pret (num_term v) p1
      | Some TMinus \<Rightarrow>
          (case ps_peek p1 of
             Some (TInt v) \<Rightarrow> pret (int_term (- v)) (ps_bump p1)
           | Some (TNum v) \<Rightarrow> pret (num_term (f64_neg v)) (ps_bump p1)
           | _ \<Rightarrow> perr sp ''expected a number after `-`'')
      | Some (TStr v lang dt) \<Rightarrow> str_term x sp v lang dt p1
      | Some (TName n) \<Rightarrow>
          if n = ''true'' \<or> n = ''false'' then pret (Lit (typed_literal n xsd_boolean)) p1 else perr sp ''expected a term''
      | _ \<Rightarrow> perr sp ''expected a term'')"

text \<open>A parse error inside an argument is reported at the start of the argument.\<close>

definition at_span :: "span \<Rightarrow> 'a pres \<Rightarrow> 'a pres" where
  "at_span sp r = (case r of Some (Inl (DlParse _ msg)) \<Rightarrow> Some (Inl (DlParse sp msg)) | _ \<Rightarrow> r)"

definition parse_arg :: "parse_ext \<Rightarrow> parser \<Rightarrow> arg pres" where
  "parse_arg x p =
     (case ps_peek p of
        Some (TVar v) \<Rightarrow> pret (Var v) (ps_bump p)
      | Some TWildcard \<Rightarrow> pret Wildcard (ps_bump p)
      | _ \<Rightarrow> at_span (ps_span p) (pbind (parse_term x p) (\<lambda>t. pret (Const t))))"

definition parse_pred :: "parse_ext \<Rightarrow> parser \<Rightarrow> pred pres" where
  "parse_pred x p =
     (let sp = ps_span p; p1 = ps_bump p in
      case ps_peek p of
        Some (TIri i) \<Rightarrow> pbind (parse_iri x i sp p1) (\<lambda>n. pret (Edb n))
      | Some (TCurie pr l) \<Rightarrow> pbind (parse_curie x pr l sp p1) (\<lambda>n. pret (Edb n))
      | Some (TName n) \<Rightarrow>
          if n = ''triple'' \<or> n = ''quad'' then pret (Triple (n = ''quad'')) p1
          else if n = ''nearest'' then pret (Nearest True) p1
          else (case history_from_name n of Some h \<Rightarrow> pret (History h) p1 | None \<Rightarrow> pret (Idb n) p1)
      | _ \<Rightarrow> perr sp ''expected a predicate'')"

text \<open>The loop \<^verbatim>\<open>loop { out.push(item); if !eat(Comma) { break } }\<close>.\<close>

fun comma_list :: "nat \<Rightarrow> (parser \<Rightarrow> 'a pres) \<Rightarrow> parser \<Rightarrow> 'a list pres" where
  "comma_list 0 item p = None"
| "comma_list (Suc n) item p =
     pbind (item p) (\<lambda>a p1.
       if ps_peek p1 = Some TComma then pbind (comma_list n item (ps_bump p1)) (\<lambda>as. pret (a # as)) else pret [a] p1)"

section \<open>Atoms and heads\<close>

definition fix_pred :: "pred \<Rightarrow> nat \<Rightarrow> pred" where
  "fix_pred pr n = (case pr of Triple _ \<Rightarrow> Triple (n = 4) | Nearest _ \<Rightarrow> Nearest (n \<noteq> 4) | _ \<Rightarrow> pr)"

definition parse_at :: "parse_ext \<Rightarrow> parser \<Rightarrow> at option pres" where
  "parse_at x p =
     (if ps_peek p = Some (TName ''at'')
      then (let p1 = ps_bump p; sp = ps_span p1 in
            pbind (parse_arg x p1) (\<lambda>a p2.
              case a of
                Var v \<Rightarrow> pret (Some (AtVar v)) p2
              | Const (Lit l) \<Rightarrow> pret (Some (AtVersion (lit_value l))) p2
              | _ \<Rightarrow> perr sp ''`at` takes a version string (\"HEAD~1\") or a commit variable''))
      else pret None p)"

definition check_atom :: "span \<Rightarrow> pred \<Rightarrow> arg list \<Rightarrow> at option \<Rightarrow> parser \<Rightarrow> atom pres" where
  "check_atom sp pr args at p =
     (if (case pred_arity pr of None \<Rightarrow> False | Some want \<Rightarrow>
            length args \<noteq> want \<and> (case pr of History _ \<Rightarrow> False | Nearest _ \<Rightarrow> False | _ \<Rightarrow> True))
      then pfail (DlArity (pred_to_string pr) (the (pred_arity pr)) (length args))
      else if at \<noteq> None \<and> (case pr of Edb _ \<Rightarrow> False | Triple _ \<Rightarrow> False | _ \<Rightarrow> True)
      then perr sp ''`at` applies to atoms that read the store (an IRI predicate or triple/quad)''
      else pret \<lparr>atom_pred = pr, atom_args = args, atom_span = sp, atom_at = at\<rparr> p)"

definition parse_atom :: "parse_ext \<Rightarrow> nat \<Rightarrow> parser \<Rightarrow> atom pres" where
  "parse_atom x n p =
     (let sp = ps_span p in
      pbind (parse_pred x p) (\<lambda>pr p1.
      pbind (ps_expect x TLParen ''`(` after the predicate'' p1) (\<lambda>_ p2.
      pbind (comma_list n (parse_arg x) p2) (\<lambda>args p3.
      pbind (ps_expect x TRParen ''`)` closing the atom'' p3) (\<lambda>_ p4.
      pbind (parse_at x p4) (\<lambda>at p5. check_atom sp (fix_pred pr (length args)) args at p5))))))"

definition agg_fn_of :: "string \<Rightarrow> agg_fn option" where
  "agg_fn_of name =
     (let u = map to_ascii_uppercase name in
      if u = ''COUNT'' then Some Count
      else if u = ''SUM'' then Some Sum
      else if u = ''MIN'' then Some AggMin
      else if u = ''MAX'' then Some AggMax
      else if u = ''AVG'' then Some Avg
      else if u = ''SAMPLE'' then Some Sample
      else if u = ''GROUP_CONCAT'' \<or> u = ''CONCAT_AGG'' then Some GroupConcat
      else None)"

definition parse_aggregate :: "parse_ext \<Rightarrow> agg_fn \<Rightarrow> parser \<Rightarrow> head_arg pres" where
  "parse_aggregate x func p =
     (let distinct_kw = (case ps_peek p of Some (TName n) \<Rightarrow> eq_ignore_ascii_case n ''distinct'' | _ \<Rightarrow> False);
          p1 = (if distinct_kw then ps_bump p else p); sp = ps_span p1 in
      pbind (case ps_peek p1 of
          Some (TVar v) \<Rightarrow> pret v (ps_bump p1)
        | Some TStar \<Rightarrow> pret ''*'' (ps_bump p1)
        | _ \<Rightarrow> perr sp ''an aggregate takes one variable'') (\<lambda>v p2.
      pbind (ps_expect x TRParen ''`)` closing the aggregate'' p2) (\<lambda>_ p3.
        pret (Agg (if distinct_kw \<and> func = Count then CountDistinct else func) v) p3)))"

definition parse_head_arg :: "parse_ext \<Rightarrow> parser \<Rightarrow> head_arg pres" where
  "parse_head_arg x p =
     (case (ps_peek p, ps_peek_at p 1) of
        (Some (TName name), Some TLParen) \<Rightarrow>
          (case agg_fn_of name of
             Some func \<Rightarrow> parse_aggregate x func (ps_bump (ps_bump p))
           | None \<Rightarrow> pbind (parse_arg x p) (\<lambda>a. pret (Plain a)))
      | _ \<Rightarrow> pbind (parse_arg x p) (\<lambda>a. pret (Plain a)))"

definition parse_head :: "parse_ext \<Rightarrow> nat \<Rightarrow> parser \<Rightarrow> head pres" where
  "parse_head x n p =
     (let sp = ps_span p in
      pbind (parse_pred x p) (\<lambda>pr p1.
      pbind (ps_expect x TLParen ''`(` after the head predicate'' p1) (\<lambda>_ p2.
      pbind (comma_list n (parse_head_arg x) p2) (\<lambda>args p3.
      pbind (ps_expect x TRParen ''`)` closing the head'' p3) (\<lambda>_ p4.
        pret \<lparr>head_pred = pr, head_args = args, head_span = sp\<rparr> p4)))))"

section \<open>Expressions\<close>

text \<open>
  Each level is parametrized by the parser \<open>E\<close> of whole expressions, which parenthesized expressions and call
  arguments use; a level of left-associative operators is \<open>binary_loop\<close> over the next level.
\<close>

fun binary_loop :: "nat \<Rightarrow> (tok \<Rightarrow> bin_op option) \<Rightarrow> (parser \<Rightarrow> expr pres) \<Rightarrow> expr \<Rightarrow> parser \<Rightarrow> expr pres" where
  "binary_loop 0 ops sub left p = None"
| "binary_loop (Suc n) ops sub left p =
     (case Option.bind (ps_peek p) ops of
        None \<Rightarrow> pret left p
      | Some op \<Rightarrow> pbind (sub (ps_bump p)) (\<lambda>right. binary_loop n ops sub (EBinary op left right)))"

definition or_op :: "tok \<Rightarrow> bin_op option" where
  "or_op t = (if t = TOr then Some Or else None)"

definition and_op :: "tok \<Rightarrow> bin_op option" where
  "and_op t = (if t = TAnd then Some And else None)"

fun cmp_op :: "tok \<Rightarrow> bin_op option" where
  "cmp_op TEq = Some Eq" | "cmp_op TNe = Some Ne" | "cmp_op TLt = Some Lt" | "cmp_op TLe = Some Le"
| "cmp_op TGt = Some Gt" | "cmp_op TGe = Some Ge" | "cmp_op _ = None"

fun add_op :: "tok \<Rightarrow> bin_op option" where
  "add_op TPlus = Some Add" | "add_op TMinus = Some Sub" | "add_op _ = None"

fun mul_op :: "tok \<Rightarrow> bin_op option" where
  "mul_op TStar = Some Mul" | "mul_op TSlash = Some Div" | "mul_op _ = None"

definition call_args :: "parse_ext \<Rightarrow> nat \<Rightarrow> (parser \<Rightarrow> expr pres) \<Rightarrow> parser \<Rightarrow> expr list pres" where
  "call_args x n E p =
     pbind (if ps_peek p \<noteq> Some TRParen then comma_list n E p else pret [] p) (\<lambda>args p1.
     pbind (ps_expect x TRParen ''`)` closing the function call'' p1) (\<lambda>_. pret args))"

definition primary_expr :: "parse_ext \<Rightarrow> nat \<Rightarrow> (parser \<Rightarrow> expr pres) \<Rightarrow> parser \<Rightarrow> expr pres" where
  "primary_expr x n E p =
     (let sp = ps_span p; p1 = ps_bump p; call = (ps_peek_at p 1 = Some TLParen);
          const = pbind (parse_term x p) (\<lambda>t. pret (EConst t)) in
      case ps_peek p of
        Some TLParen \<Rightarrow>
          pbind (E p1) (\<lambda>e p2. pbind (ps_expect x TRParen ''`)` closing the expression'' p2) (\<lambda>_. pret e))
      | Some (TVar v) \<Rightarrow> pret (EVar v) p1
      | Some (TName m) \<Rightarrow>
          if call then pbind (call_args x n E (ps_bump p1)) (\<lambda>args. pret (ECall (map to_ascii_uppercase m) args)) else const
      | Some (TCurie pr l) \<Rightarrow>
          if call
          then pbind (parse_curie x pr l sp p1) (\<lambda>m p2. pbind (call_args x n E (ps_bump p2)) (\<lambda>args. pret (ECall m args)))
          else const
      | Some (TIri i) \<Rightarrow>
          if call
          then pbind (parse_iri x i sp p1) (\<lambda>m p2. pbind (call_args x n E (ps_bump p2)) (\<lambda>args. pret (ECall m args)))
          else const
      | _ \<Rightarrow> const)"

fun is_number_tok :: "tok option \<Rightarrow> bool" where
  "is_number_tok (Some (TInt _)) = True" | "is_number_tok (Some (TNum _)) = True" | "is_number_tok _ = False"

fun unary_expr :: "parse_ext \<Rightarrow> nat \<Rightarrow> nat \<Rightarrow> (parser \<Rightarrow> expr pres) \<Rightarrow> parser \<Rightarrow> expr pres" where
  "unary_expr x n 0 E p = None"
| "unary_expr x n (Suc k) E p =
     (if ps_peek p = Some TBang then pbind (unary_expr x n k E (ps_bump p)) (\<lambda>e. pret (ENot e))
      else if ps_peek p = Some TMinus \<and> \<not> is_number_tok (ps_peek_at p 1)
      then pbind (unary_expr x n k E (ps_bump p)) (\<lambda>e. pret (ENeg e))
      else primary_expr x n E p)"

definition mul_expr :: "parse_ext \<Rightarrow> nat \<Rightarrow> (parser \<Rightarrow> expr pres) \<Rightarrow> parser \<Rightarrow> expr pres" where
  "mul_expr x n E p = pbind (unary_expr x n n E p) (binary_loop n mul_op (unary_expr x n n E))"

definition add_expr :: "parse_ext \<Rightarrow> nat \<Rightarrow> (parser \<Rightarrow> expr pres) \<Rightarrow> parser \<Rightarrow> expr pres" where
  "add_expr x n E p = pbind (mul_expr x n E p) (binary_loop n add_op (mul_expr x n E))"

definition cmp_expr :: "parse_ext \<Rightarrow> nat \<Rightarrow> (parser \<Rightarrow> expr pres) \<Rightarrow> parser \<Rightarrow> expr pres" where
  "cmp_expr x n E p =
     pbind (add_expr x n E p) (\<lambda>left p1.
       case Option.bind (ps_peek p1) cmp_op of
         None \<Rightarrow> pret left p1
       | Some op \<Rightarrow> pbind (add_expr x n E (ps_bump p1)) (\<lambda>right. pret (EBinary op left right)))"

definition and_expr :: "parse_ext \<Rightarrow> nat \<Rightarrow> (parser \<Rightarrow> expr pres) \<Rightarrow> parser \<Rightarrow> expr pres" where
  "and_expr x n E p = pbind (cmp_expr x n E p) (binary_loop n and_op (cmp_expr x n E))"

definition or_expr :: "parse_ext \<Rightarrow> nat \<Rightarrow> (parser \<Rightarrow> expr pres) \<Rightarrow> parser \<Rightarrow> expr pres" where
  "or_expr x n E p = pbind (and_expr x n E p) (binary_loop n or_op (and_expr x n E))"

fun parse_expr :: "parse_ext \<Rightarrow> nat \<Rightarrow> parser \<Rightarrow> expr pres" where
  "parse_expr x 0 p = None"
| "parse_expr x (Suc n) p = or_expr x (Suc n) (parse_expr x n) p"

section \<open>Bodies, rules and programs\<close>

definition FUNCTIONS :: "string list" where
  "FUNCTIONS = [''REGEX'', ''STR'', ''STRLEN'', ''SUBSTR'', ''UCASE'', ''LCASE'', ''STRSTARTS'', ''STRENDS'', ''CONTAINS'',
     ''STRBEFORE'', ''STRAFTER'', ''CONCAT'', ''ABS'', ''CEIL'', ''FLOOR'', ''ROUND'', ''YEAR'', ''MONTH'', ''DAY'', ''HOURS'',
     ''MINUTES'', ''SECONDS'', ''DATATYPE'', ''LANG'', ''ISIRI'', ''ISURI'', ''ISLITERAL'', ''ISNUMERIC'', ''ISBLANK'', ''BOUND'',
     ''IF'', ''COALESCE'', ''SAMETERM'', ''STRDT'', ''STRLANG'']"

definition is_function :: "string \<Rightarrow> bool" where
  "is_function name \<longleftrightarrow> list_ex (\<lambda>f. eq_ignore_ascii_case f name) FUNCTIONS"

definition is_operator_tok :: "tok \<Rightarrow> bool" where
  "is_operator_tok t \<longleftrightarrow> t \<in> {TEq, TNe, TLt, TLe, TGt, TGe, TPlus, TMinus, TStar, TSlash, TAnd, TOr}"

text \<open>The scan of \<^verbatim>\<open>call_then_operator\<close> over the tokens from the opening parenthesis on.\<close>

fun group_then_operator :: "nat \<Rightarrow> tok list \<Rightarrow> bool" where
  "group_then_operator depth [] = False"
| "group_then_operator depth (t # ts) =
     (if t = TLParen then group_then_operator (depth + 1) ts
      else if t = TRParen
      then (if depth - 1 = 0 then (case ts of u # _ \<Rightarrow> is_operator_tok u | [] \<Rightarrow> False) else group_then_operator (depth - 1) ts)
      else group_then_operator depth ts)"

definition call_then_operator :: "parser \<Rightarrow> nat \<Rightarrow> bool" where
  "call_then_operator p offset = group_then_operator 0 (map sp_tok (drop offset (ps_toks p)))"

definition looks_like_atom :: "parser \<Rightarrow> nat \<Rightarrow> bool" where
  "looks_like_atom p offset \<longleftrightarrow> ps_peek_at p (offset + 1) = Some TLParen \<and>
     (case ps_peek_at p offset of
        Some (TIri _) \<Rightarrow> \<not> call_then_operator p (offset + 1)
      | Some (TCurie _ _) \<Rightarrow> \<not> call_then_operator p (offset + 1)
      | Some (TName n) \<Rightarrow> \<not> is_function n
      | _ \<Rightarrow> False)"

definition parse_body_item :: "parse_ext \<Rightarrow> nat \<Rightarrow> parser \<Rightarrow> body_item pres" where
  "parse_body_item x n p =
     (let negated = (ps_peek p = Some (TName ''not'') \<or> (ps_peek p = Some TBang \<and> looks_like_atom p 1));
          p1 = (if negated then ps_bump p else p) in
      if negated \<or> looks_like_atom p1 0
      then pbind (parse_atom x n p1) (\<lambda>a. pret (if negated then Negated a else Atom a))
      else pbind (parse_expr x n p1) (\<lambda>e. pret (Constraint e)))"

definition parse_body :: "parse_ext \<Rightarrow> nat \<Rightarrow> parser \<Rightarrow> body_item list pres" where
  "parse_body x n p = comma_list n (parse_body_item x n) p"

definition parse_rule :: "parse_ext \<Rightarrow> nat \<Rightarrow> parser \<Rightarrow> rule pres" where
  "parse_rule x n p =
     pbind (parse_head x n p) (\<lambda>h p1.
     pbind (if ps_peek p1 = Some TImplies then parse_body x n (ps_bump p1) else pret [] p1) (\<lambda>body p2.
     pbind (ps_expect x TDot ''`.` at the end of the rule'' p2) (\<lambda>_. pret \<lparr>rule_head = h, rule_body = body\<rparr>)))"

definition parse_directive :: "parse_ext \<Rightarrow> parser \<Rightarrow> unit pres" where
  "parse_directive x p =
     (let p1 = ps_bump p; sp = ps_span p1; p2 = ps_bump p1 in
      pbind (case ps_peek p1 of
          Some (TCurie pr local) \<Rightarrow> if local = [] then pret pr p2 else perr sp ''expected a prefix name''
        | Some (TName n) \<Rightarrow> pret n (if ps_peek p2 = Some TEq then ps_bump p2 else p2)
        | _ \<Rightarrow> perr sp ''expected a prefix name'') (\<lambda>name p3.
      pbind (case ps_peek p3 of
          Some (TIri i) \<Rightarrow> pret i (ps_bump p3)
        | _ \<Rightarrow> perr sp ''expected an IRI after the prefix'') (\<lambda>iri p4.
      pbind (ps_expect x TDot ''`.` after the @prefix directive'' p4) (\<lambda>_ p5.
        pret () (p5\<lparr>ps_prefixes := (ps_prefixes p5)(name \<mapsto> iri)\<rparr>)))))"

text \<open>Sorting out the items of a goal: one atom, and constraints.\<close>

fun goal_items :: "body_item list \<Rightarrow> atom option \<Rightarrow> expr list \<Rightarrow> (atom option \<times> expr list) option" where
  "goal_items [] a cs = Some (a, cs)"
| "goal_items (Atom b # items) a cs = (if a = None then goal_items items (Some b) cs else None)"
| "goal_items (Constraint e # items) a cs = goal_items items a (cs @ [e])"
| "goal_items (Negated b # items) a cs = None"

definition parse_goal :: "parse_ext \<Rightarrow> nat \<Rightarrow> parser \<Rightarrow> goal pres" where
  "parse_goal x n p =
     pbind (parse_body x n (ps_bump p)) (\<lambda>items p1.
     pbind (ps_expect x TDot ''`.` after the goal'' p1) (\<lambda>_ p2.
       case goal_items items None [] of
         None \<Rightarrow> perr (ps_span p2) ''a goal is one atom, optionally followed by constraints''
       | Some (None, _) \<Rightarrow> perr (ps_span p2) ''a goal needs an atom''
       | Some (Some a, cs) \<Rightarrow> pret \<lparr>goal_atom = a, goal_constraints = cs\<rparr> p2))"

definition parse_version :: "parse_ext \<Rightarrow> parser \<Rightarrow> string pres" where
  "parse_version x p =
     (let p1 = ps_bump p; sp = ps_span p1 in
      case ps_peek p1 of
        Some (TStr v _ _) \<Rightarrow> pbind (ps_expect x TDot ''`.` after the @version directive'' (ps_bump p1)) (\<lambda>_. pret v)
      | _ \<Rightarrow> perr sp ''expected a version string after @version, e.g. @version \"HEAD~1\" .'')"

fun parse_program :: "parse_ext \<Rightarrow> nat \<Rightarrow> program \<Rightarrow> parser \<Rightarrow> program pres" where
  "parse_program x 0 prog p = None"
| "parse_program x (Suc n) prog p =
     (case ps_peek p of
        None \<Rightarrow> pret prog p
      | Some TAtPrefix \<Rightarrow> pbind (parse_directive x p) (\<lambda>_. parse_program x n prog)
      | Some TAtVersion \<Rightarrow> pbind (parse_version x p) (\<lambda>v. parse_program x n (prog\<lparr>version := Some v\<rparr>))
      | Some TQuery \<Rightarrow> pbind (parse_goal x (Suc n) p) (\<lambda>g. parse_program x n (prog\<lparr>prog_goal := Some g\<rparr>))
      | Some _ \<Rightarrow> pbind (parse_rule x (Suc n) p) (\<lambda>r. parse_program x n (prog\<lparr>rules := rules prog @ [r]\<rparr>)))"

section \<open>Built-in names\<close>

definition fix_atom :: "(pred \<Rightarrow> pred) \<Rightarrow> atom \<Rightarrow> atom" where
  "fix_atom fx a = a\<lparr>atom_pred := fx (atom_pred a)\<rparr>"

definition map_item :: "(atom \<Rightarrow> datalog_error + atom) \<Rightarrow> body_item \<Rightarrow> datalog_error + body_item" where
  "map_item f i =
     (case i of
        Atom a \<Rightarrow> rbind (f a) (\<lambda>b. Inr (Atom b))
      | Negated a \<Rightarrow> rbind (f a) (\<lambda>b. Inr (Negated b))
      | Constraint e \<Rightarrow> Inr (Constraint e))"

text \<open>The walk both passes make: heads are fixed, body and goal atoms fixed and checked, the first error wins.\<close>

definition rename_preds :: "(pred \<Rightarrow> pred) \<Rightarrow> (atom \<Rightarrow> datalog_error + atom) \<Rightarrow> program \<Rightarrow> datalog_error + program" where
  "rename_preds fx f prog =
     rbind (map_result (\<lambda>r.
         rbind (map_result (map_item f) (rule_body r)) (\<lambda>body.
           Inr \<lparr>rule_head = (rule_head r)\<lparr>head_pred := fx (head_pred (rule_head r))\<rparr>, rule_body = body\<rparr>)) (rules prog)) (\<lambda>rs.
     rbind (case prog_goal prog of
              None \<Rightarrow> Inr None
            | Some g \<Rightarrow> rbind (f (goal_atom g)) (\<lambda>a. Inr (Some (g\<lparr>goal_atom := a\<rparr>)))) (\<lambda>g.
       Inr (prog\<lparr>rules := rs, prog_goal := g\<rparr>)))"

definition defined_history :: "program \<Rightarrow> history_rel set" where
  "defined_history prog = set (List.map_filter (\<lambda>r. case head_pred (rule_head r) of History h \<Rightarrow> Some h | _ \<Rightarrow> None) (rules prog))"

definition fix_history :: "program \<Rightarrow> pred \<Rightarrow> pred" where
  "fix_history prog pr = (case pr of History h \<Rightarrow> if h \<in> defined_history prog then Idb (history_name h) else pr | _ \<Rightarrow> pr)"

definition check_history :: "atom \<Rightarrow> datalog_error + atom" where
  "check_history a =
     (case atom_pred a of
        History h \<Rightarrow>
          if length (atom_args a) \<noteq> history_arity h
          then Inl (DlArity (pred_to_string (atom_pred a)) (history_arity h) (length (atom_args a)))
          else Inr a
      | _ \<Rightarrow> Inr a)"

definition history_names :: "program \<Rightarrow> datalog_error + program" where
  "history_names prog = rename_preds (fix_history prog) (\<lambda>a. check_history (fix_atom (fix_history prog) a)) prog"

fun is_nearest :: "pred \<Rightarrow> bool" where
  "is_nearest (Nearest _) = True" | "is_nearest _ = False"

definition defines_nearest :: "program \<Rightarrow> bool" where
  "defines_nearest prog = list_ex (\<lambda>r. is_nearest (head_pred (rule_head r))) (rules prog)"

definition fix_nearest :: "bool \<Rightarrow> pred \<Rightarrow> pred" where
  "fix_nearest defined pr = (if defined \<and> is_nearest pr then Idb ''nearest'' else pr)"

definition check_nearest :: "bool \<Rightarrow> atom \<Rightarrow> datalog_error + atom" where
  "check_nearest defined a =
     (if \<not> defined \<and> is_nearest (atom_pred a) \<and> length (atom_args a) \<notin> {4, 5}
      then Inl (DlArity (pred_to_string (atom_pred a)) 5 (length (atom_args a)))
      else Inr a)"

definition nearest_names :: "program \<Rightarrow> datalog_error + program" where
  "nearest_names prog =
     (let d = defines_nearest prog in
      rename_preds (fix_nearest d) (\<lambda>a. rbind (check_nearest d a) (\<lambda>a. Inr (fix_atom (fix_nearest d) a))) prog)"

definition default_prefixes :: "string \<rightharpoonup> string" where
  "default_prefixes = [''xsd'' \<mapsto> ''http://www.w3.org/2001/XMLSchema#'', ''rdf'' \<mapsto> ''http://www.w3.org/1999/02/22-rdf-syntax-ns#'',
     ''rdfs'' \<mapsto> ''http://www.w3.org/2000/01/rdf-schema#'', ''owl'' \<mapsto> ''http://www.w3.org/2002/07/owl#'']"

definition empty_program :: program where
  "empty_program = \<lparr>rules = [], prog_goal = None, version = None\<rparr>"

definition parse_tokens :: "parse_ext \<Rightarrow> spanned list \<Rightarrow> (datalog_error + program) option" where
  "parse_tokens x toks =
     (case parse_program x (Suc (length toks)) empty_program
         \<lparr>ps_toks = toks, ps_end = (if toks = [] then \<lparr>line = 0, column = 0\<rparr> else sp_span (last toks)), ps_prefixes = default_prefixes\<rparr> of
        None \<Rightarrow> None
      | Some (Inl e) \<Rightarrow> Some (Inl e)
      | Some (Inr (prog, _)) \<Rightarrow> Some (rbind (history_names prog) nearest_names))"

definition parse :: "parse_ext \<Rightarrow> string \<Rightarrow> (datalog_error + program) option" where
  "parse x src = (case tokenize (lexer_new src) of Inl e \<Rightarrow> Some (Inl e) | Inr toks \<Rightarrow> parse_tokens x toks)"

section \<open>Parsing always ends\<close>

abbreviation toks_left :: "parser \<Rightarrow> nat" where
  "toks_left p \<equiv> length (ps_toks p)"

text \<open>A result that is not out of fuel and, when it is a success, leaves fewer than \<open>k\<close> tokens.\<close>

definition fin :: "'a pres \<Rightarrow> nat \<Rightarrow> bool" where
  "fin r k \<longleftrightarrow> r \<noteq> None \<and> (\<forall>a p. r = Some (Inr (a, p)) \<longrightarrow> toks_left p < k)"

lemma fin_pret [simp]: "fin (pret a p) k \<longleftrightarrow> toks_left p < k"
  by (simp add: fin_def pret_def)

lemma fin_err [simp]: "fin (perr sp m) k" "fin (pfail e) k"
  by (simp_all add: fin_def perr_def pfail_def)

lemma fin_pbind: "fin r j \<Longrightarrow> (\<And>a p. toks_left p < j \<Longrightarrow> fin (f a p) k) \<Longrightarrow> fin (pbind r f) k"
  by (auto simp: fin_def pbind_def split: option.splits sum.splits)

lemma fin_mono: "fin r j \<Longrightarrow> j \<le> k \<Longrightarrow> fin r k"
  by (fastforce simp: fin_def)

lemma toks_left_bump [simp]: "toks_left (ps_bump p) = toks_left p - 1"
  by (simp add: ps_bump_def)

lemma peek_left: "ps_peek p = Some t \<Longrightarrow> 0 < toks_left p"
  by (auto simp: ps_peek_def ps_peek_at_def)

lemma fin_iri: "toks_left p < k \<Longrightarrow> fin (parse_iri x i sp p) k" "toks_left p < k \<Longrightarrow> fin (parse_curie x a b sp p) k"
  by (auto simp: parse_iri_def parse_curie_def split: option.splits)

lemma fin_expect: "fin (ps_expect x t w p) (toks_left p)"
  using peek_left [of p t] by (simp add: ps_expect_def)

lemma fin_str_term: "toks_left p < k \<Longrightarrow> fin (str_term x sp v lang dt p) k"
  by (auto simp: str_term_def fin_iri split: option.splits sum.splits tok.splits intro!: fin_pbind [where j = k])

lemma fin_term: "fin (parse_term x p) (toks_left p)"
proof (cases "ps_peek p")
  case (Some t)
  note len = peek_left [OF Some]
  have n1: "fin (pbind (parse_iri x i sp (ps_bump p)) (\<lambda>n. pret (NamedNode n))) (toks_left p)"
    "fin (pbind (parse_curie x a b sp (ps_bump p)) (\<lambda>n. pret (NamedNode n))) (toks_left p)" for i a b sp
    using len by (auto intro!: fin_pbind [where j = "toks_left p"] fin_iri)
  show ?thesis using Some len
    by (auto simp: parse_term_def Let_def n1 fin_str_term split: tok.splits option.splits)
qed (simp add: parse_term_def Let_def)

lemma fin_at_span: "fin r k \<Longrightarrow> fin (at_span sp r) k"
  by (auto simp: fin_def at_span_def split: option.splits sum.splits datalog_error.splits)

lemma fin_arg: "fin (parse_arg x p) (toks_left p)"
proof -
  have "fin (at_span (ps_span p) (pbind (parse_term x p) (\<lambda>t. pret (Const t)))) (toks_left p)"
    by (rule fin_at_span, rule fin_pbind [OF fin_term]) simp
  then show ?thesis
    using peek_left [of p] by (auto simp: parse_arg_def split: option.splits tok.splits)
qed

lemma fin_pred: "fin (parse_pred x p) (toks_left p)"
proof (cases "ps_peek p")
  case (Some t)
  note len = peek_left [OF Some]
  have "fin (pbind (parse_iri x i sp (ps_bump p)) (\<lambda>n. pret (Edb n))) (toks_left p)"
    "fin (pbind (parse_curie x a b sp (ps_bump p)) (\<lambda>n. pret (Edb n))) (toks_left p)" for i a b sp
    using len by (auto intro!: fin_pbind [where j = "toks_left p"] fin_iri)
  then show ?thesis using Some len by (auto simp: parse_pred_def Let_def split: tok.splits option.splits)
qed (simp add: parse_pred_def Let_def)

lemma fin_comma_list:
  "(\<And>q. toks_left q \<le> toks_left p \<Longrightarrow> fin (item q) (toks_left q)) \<Longrightarrow> toks_left p < n \<Longrightarrow>
     fin (comma_list n item p) (toks_left p)"
proof (induction n arbitrary: p)
  case (Suc n)
  show ?case unfolding comma_list.simps
  proof (rule fin_pbind [OF Suc.prems(1) [OF le_refl]])
    fix a p1 assume p1: "toks_left p1 < toks_left p"
    have "fin (pbind (comma_list n item (ps_bump p1)) (\<lambda>as. pret (a # as))) (toks_left p)"
      by (rule fin_pbind [OF Suc.IH]) (use Suc.prems p1 in auto)
    with p1 show "fin (if ps_peek p1 = Some TComma then pbind (comma_list n item (ps_bump p1)) (\<lambda>as. pret (a # as)) else pret [a] p1) (toks_left p)"
      by simp
  qed
qed simp

lemma fin_parse_at: "fin (parse_at x p) (Suc (toks_left p))"
proof (cases "ps_peek p = Some (TName ''at'')")
  case True
  have "fin (pbind (parse_arg x (ps_bump p)) (\<lambda>a p2. case a of Var v \<Rightarrow> pret (Some (AtVar v)) p2
      | Const (Lit l) \<Rightarrow> pret (Some (AtVersion (lit_value l))) p2
      | _ \<Rightarrow> perr (ps_span (ps_bump p)) ''`at` takes a version string (\"HEAD~1\") or a commit variable'')) (Suc (toks_left p))"
    by (rule fin_pbind [OF fin_arg]) (auto split: arg.splits rdf_term.splits)
  with True show ?thesis by (simp add: parse_at_def Let_def)
qed (simp add: parse_at_def)

lemma fin_check_atom: "toks_left p < k \<Longrightarrow> fin (check_atom sp pr args at p) k"
  by (simp add: check_atom_def)

lemma fin_atom:
  assumes "toks_left p < n" shows "fin (parse_atom x n p) (toks_left p)"
  unfolding parse_atom_def Let_def
proof (rule fin_pbind [OF fin_pred])
  fix pr p1 assume p1: "toks_left p1 < toks_left p"
  show "fin (pbind (ps_expect x TLParen ''`(` after the predicate'' p1) (\<lambda>_ p2.
      pbind (comma_list n (parse_arg x) p2) (\<lambda>args p3.
      pbind (ps_expect x TRParen ''`)` closing the atom'' p3) (\<lambda>_ p4.
      pbind (parse_at x p4) (\<lambda>at p5. check_atom (ps_span p) (fix_pred pr (length args)) args at p5))))) (toks_left p)"
  proof (rule fin_pbind [OF fin_expect])
    fix u p2 assume p2: "toks_left p2 < toks_left p1"
    show "fin (pbind (comma_list n (parse_arg x) p2) (\<lambda>args p3.
      pbind (ps_expect x TRParen ''`)` closing the atom'' p3) (\<lambda>_ p4.
      pbind (parse_at x p4) (\<lambda>at p5. check_atom (ps_span p) (fix_pred pr (length args)) args at p5)))) (toks_left p)"
    proof (rule fin_pbind [OF fin_comma_list [OF fin_arg]])
      fix args p3 assume p3: "toks_left p3 < toks_left p2"
      show "fin (pbind (ps_expect x TRParen ''`)` closing the atom'' p3) (\<lambda>_ p4.
        pbind (parse_at x p4) (\<lambda>at p5. check_atom (ps_span p) (fix_pred pr (length args)) args at p5))) (toks_left p)"
        by (rule fin_pbind [OF fin_expect], rule fin_pbind [OF fin_parse_at], rule fin_check_atom) (use p1 p2 p3 in simp)
    qed (use assms p1 p2 in simp)
  qed
qed

lemma fin_aggregate: "fin (parse_aggregate x func p) (Suc (toks_left p))"
proof -
  have "fin (pbind (case ps_peek q of Some (TVar v) \<Rightarrow> pret v (ps_bump q) | Some TStar \<Rightarrow> pret ''*'' (ps_bump q)
        | _ \<Rightarrow> perr sp ''an aggregate takes one variable'') (\<lambda>v p2.
      pbind (ps_expect x TRParen ''`)` closing the aggregate'' p2) (\<lambda>_ p3. pret (Agg f v) p3))) (Suc (toks_left p))"
    if "toks_left q \<le> toks_left p" for q sp f
  proof (rule fin_pbind [where j = "Suc (toks_left p)"])
    show "fin (case ps_peek q of Some (TVar v) \<Rightarrow> pret v (ps_bump q) | Some TStar \<Rightarrow> pret ''*'' (ps_bump q)
        | _ \<Rightarrow> perr sp ''an aggregate takes one variable'') (Suc (toks_left p))"
      using that by (auto split: option.splits tok.splits)
  next
    fix v p2 assume p2: "toks_left p2 < Suc (toks_left p)"
    show "fin (pbind (ps_expect x TRParen ''`)` closing the aggregate'' p2) (\<lambda>_ p3. pret (Agg f v) p3)) (Suc (toks_left p))"
      by (rule fin_pbind [OF fin_expect]) (use p2 in simp)
  qed
  then show ?thesis by (simp add: parse_aggregate_def Let_def)
qed

lemma fin_head_arg: "fin (parse_head_arg x p) (toks_left p)"
proof -
  have pl: "fin (pbind (parse_arg x p) (\<lambda>a. pret (Plain a))) (toks_left p)" by (rule fin_pbind [OF fin_arg]) simp
  have ag: "ps_peek_at p 1 = Some TLParen \<Longrightarrow> fin (parse_aggregate x f (ps_bump (ps_bump p))) (toks_left p)" for f
    by (rule fin_mono [OF fin_aggregate]) (auto simp: ps_peek_at_def get_nth_Some_iff)
  from pl ag show ?thesis by (auto simp: parse_head_arg_def split: option.splits tok.splits)
qed

lemma fin_head:
  assumes "toks_left p < n" shows "fin (parse_head x n p) (toks_left p)"
  unfolding parse_head_def Let_def
proof (rule fin_pbind [OF fin_pred])
  fix pr p1 assume p1: "toks_left p1 < toks_left p"
  show "fin (pbind (ps_expect x TLParen ''`(` after the head predicate'' p1) (\<lambda>_ p2.
      pbind (comma_list n (parse_head_arg x) p2) (\<lambda>args p3.
      pbind (ps_expect x TRParen ''`)` closing the head'' p3) (\<lambda>_ p4.
        pret \<lparr>head_pred = pr, head_args = args, head_span = ps_span p\<rparr> p4)))) (toks_left p)"
  proof (rule fin_pbind [OF fin_expect])
    fix u p2 assume p2: "toks_left p2 < toks_left p1"
    show "fin (pbind (comma_list n (parse_head_arg x) p2) (\<lambda>args p3.
      pbind (ps_expect x TRParen ''`)` closing the head'' p3) (\<lambda>_ p4.
        pret \<lparr>head_pred = pr, head_args = args, head_span = ps_span p\<rparr> p4))) (toks_left p)"
      by (rule fin_pbind [OF fin_comma_list [OF fin_head_arg]]; (rule fin_pbind [OF fin_expect])?) (use assms p1 p2 in simp_all)
  qed
qed

text \<open>Expressions: \<open>E\<close> is good on fewer tokens than \<open>p\<close> has.\<close>

lemma fin_binary_loop:
  "(\<And>q. toks_left q \<le> toks_left p \<Longrightarrow> fin (sub q) (toks_left q)) \<Longrightarrow> toks_left p < n \<Longrightarrow>
     fin (binary_loop n ops sub left p) (Suc (toks_left p))"
proof (induction n arbitrary: left p)
  case (Suc n)
  show ?case
  proof (cases "Option.bind (ps_peek p) ops")
    case (Some op)
    then have len: "0 < toks_left p" using peek_left [of p] by (cases "ps_peek p") auto
    have "fin (pbind (sub (ps_bump p)) (\<lambda>right. binary_loop n ops sub (EBinary op left right))) (Suc (toks_left p))"
    proof (rule fin_pbind [OF Suc.prems(1)])
      fix right p1 assume p1: "toks_left p1 < toks_left (ps_bump p)"
      show "fin (binary_loop n ops sub (EBinary op left right) p1) (Suc (toks_left p))"
        by (rule fin_mono [OF Suc.IH]) (use Suc.prems p1 in auto)
    qed simp
    with Some show ?thesis by simp
  qed simp
qed simp

lemma fin_call_args:
  assumes "\<And>q. toks_left q \<le> toks_left p \<Longrightarrow> fin (E q) (toks_left q)" "toks_left p < n"
  shows "fin (call_args x n E p) (Suc (toks_left p))"
  unfolding call_args_def
proof (rule fin_pbind [where j = "Suc (toks_left p)"])
  show "fin (if ps_peek p \<noteq> Some TRParen then comma_list n E p else pret [] p) (Suc (toks_left p))"
    using fin_mono [OF fin_comma_list [OF assms]] by simp
next
  fix args p1 assume p1: "toks_left p1 < Suc (toks_left p)"
  show "fin (pbind (ps_expect x TRParen ''`)` closing the function call'' p1) (\<lambda>_. pret args)) (Suc (toks_left p))"
    by (rule fin_pbind [OF fin_expect]) (use p1 in simp)
qed

lemma fin_primary:
  assumes E: "\<And>q. toks_left q < toks_left p \<Longrightarrow> fin (E q) (toks_left q)" and n: "toks_left p < n"
  shows "fin (primary_expr x n E p) (toks_left p)"
proof (cases "ps_peek p")
  case None
  then show ?thesis by (auto simp: primary_expr_def Let_def intro!: fin_pbind [OF fin_term])
next
  case (Some t)
  note len = peek_left [OF Some]
  have const: "fin (pbind (parse_term x p) (\<lambda>t. pret (EConst t))) (toks_left p)" by (rule fin_pbind [OF fin_term]) simp
  have args: "fin (pbind (call_args x n E (ps_bump q)) (\<lambda>args. pret (ECall m args))) (toks_left p)"
    if "toks_left q < toks_left p" "ps_peek_at p 1 = Some TLParen" for q m
  proof -
    have "toks_left (ps_bump q) < toks_left p - 1 \<or> toks_left p - 1 = 0 \<or> toks_left q = 0 \<or> toks_left (ps_bump q) \<le> toks_left p - 2"
      using that(1) by auto
    have l2: "1 < toks_left p" using that(2) by (auto simp: ps_peek_at_def get_nth_Some_iff)
    have "Suc (toks_left (ps_bump q)) \<le> toks_left p" using that(1) l2 by simp
    moreover have "fin (call_args x n E (ps_bump q)) (Suc (toks_left (ps_bump q)))"
      by (rule fin_call_args) (use E n calculation in auto)
    ultimately show ?thesis by (intro fin_pbind [where j = "Suc (toks_left (ps_bump q))"]) auto
  qed
  have call: "ps_peek_at p 1 = Some TLParen \<Longrightarrow> fin r (toks_left p) \<Longrightarrow>
      fin (pbind r (\<lambda>m p2. pbind (call_args x n E (ps_bump p2)) (\<lambda>args. pret (ECall m args)))) (toks_left p)" for r
    by (rule fin_pbind [of r "toks_left p"]) (auto intro: args)
  have paren: "fin (pbind (E (ps_bump p)) (\<lambda>e p2. pbind (ps_expect x TRParen ''`)` closing the expression'' p2) (\<lambda>_. pret e))) (toks_left p)"
    by (rule fin_pbind [OF E], use len in simp, rule fin_pbind [OF fin_expect]) (use len in auto)
  have b: "toks_left (ps_bump p) < toks_left p" using len by simp
  show ?thesis
    using Some paren const args [OF b] call [OF _ fin_iri(1) [OF b]] call [OF _ fin_iri(2) [OF b]] len
    by (auto simp: primary_expr_def Let_def split: tok.splits)
qed

lemma fin_unary:
  "(\<And>q. toks_left q < toks_left p \<Longrightarrow> fin (E q) (toks_left q)) \<Longrightarrow> toks_left p < n \<Longrightarrow> toks_left p < k \<Longrightarrow>
     fin (unary_expr x n k E p) (toks_left p)"
proof (induction k arbitrary: p)
  case (Suc k)
  have rec: "fin (pbind (unary_expr x n k E (ps_bump p)) f) (toks_left p)"
    if "ps_peek p = Some t" "\<And>a q. toks_left q < toks_left p \<Longrightarrow> fin (f a q) (toks_left p)" for t and f :: "expr \<Rightarrow> parser \<Rightarrow> expr pres"
  proof -
    have l: "toks_left (ps_bump p) < toks_left p" "toks_left (ps_bump p) < k"
      using peek_left [OF that(1)] Suc.prems(3) unfolding toks_left_bump by linarith+
    show ?thesis by (rule fin_pbind [OF Suc.IH]) (use l that(2) Suc.prems in auto)
  qed
  from fin_primary [OF Suc.prems(1,2)] rec [of TBang "\<lambda>e. pret (ENot e)"] rec [of TMinus "\<lambda>e. pret (ENeg e)"]
  show ?case by auto
qed simp

lemma fin_level:
  assumes "\<And>q. toks_left q \<le> toks_left p \<Longrightarrow> fin (sub q) (toks_left q)" "toks_left p < n"
  shows "fin (pbind (sub p) (binary_loop n ops sub)) (toks_left p)"
proof (rule fin_pbind [OF assms(1) [OF le_refl]])
  fix left p1 assume p1: "toks_left p1 < toks_left p"
  show "fin (binary_loop n ops sub left p1) (toks_left p)"
    by (rule fin_mono [OF fin_binary_loop]) (use assms p1 in auto)
qed

text \<open>From a sub-parser on up, a level is good wherever the levels below it are.\<close>

lemma fin_levels:
  assumes E: "\<And>q. toks_left q < k \<Longrightarrow> fin (E q) (toks_left q)" and n: "k < n"
  shows "toks_left p \<le> k \<Longrightarrow> fin (or_expr x n E p) (toks_left p)"
proof -
  have un: "fin (unary_expr x n n E q) (toks_left q)" if "toks_left q \<le> k" for q
    by (rule fin_unary) (use E n that in auto)
  have mul: "fin (mul_expr x n E q) (toks_left q)" if "toks_left q \<le> k" for q
    unfolding mul_expr_def by (rule fin_level) (use un n that in auto)
  have add: "fin (add_expr x n E q) (toks_left q)" if "toks_left q \<le> k" for q
    unfolding add_expr_def by (rule fin_level) (use mul n that in auto)
  have cmp: "fin (cmp_expr x n E q) (toks_left q)" if "toks_left q \<le> k" for q
    unfolding cmp_expr_def
  proof (rule fin_pbind [OF add [OF that]])
    fix left p1 assume p1: "toks_left p1 < toks_left q"
    have "fin (pbind (add_expr x n E (ps_bump p1)) (\<lambda>right. pret (EBinary op left right))) (toks_left q)" for op
      by (rule fin_pbind [OF add]) (use p1 that in auto)
    with p1 show "fin (case Option.bind (ps_peek p1) cmp_op of None \<Rightarrow> pret left p1
      | Some op \<Rightarrow> pbind (add_expr x n E (ps_bump p1)) (\<lambda>right. pret (EBinary op left right))) (toks_left q)"
      by (auto split: option.splits)
  qed
  have and': "fin (and_expr x n E q) (toks_left q)" if "toks_left q \<le> k" for q
    unfolding and_expr_def by (rule fin_level) (use cmp n that in auto)
  show "fin (or_expr x n E p) (toks_left p)" if "toks_left p \<le> k"
    unfolding or_expr_def by (rule fin_level) (use and' n that in auto)
qed

lemma fin_expr: "toks_left p < n \<Longrightarrow> fin (parse_expr x n p) (toks_left p)"
proof (induction n arbitrary: p)
  case (Suc n)
  show ?case unfolding parse_expr.simps
    by (rule fin_levels [where k = "toks_left p"]) (use Suc in auto)
qed simp

lemma fin_body_item:
  assumes "toks_left p < n" shows "fin (parse_body_item x n p) (toks_left p)"
proof -
  define q where "q = (if ps_peek p = Some (TName ''not'') \<or> (ps_peek p = Some TBang \<and> looks_like_atom p 1) then ps_bump p else p)"
  have q: "toks_left q \<le> toks_left p" by (simp add: q_def)
  have "fin (pbind (parse_atom x n q) (\<lambda>a. pret (f a))) (toks_left p)" for f :: "atom \<Rightarrow> body_item"
    by (rule fin_pbind [OF fin_atom]) (use assms q in auto)
  moreover have "fin (pbind (parse_expr x n q) (\<lambda>e. pret (Constraint e))) (toks_left p)"
    by (rule fin_pbind [OF fin_expr]) (use assms q in auto)
  ultimately show ?thesis unfolding parse_body_item_def Let_def q_def [symmetric] by auto
qed

lemma fin_body: "toks_left p < n \<Longrightarrow> fin (parse_body x n p) (toks_left p)"
  unfolding parse_body_def by (rule fin_comma_list) (auto intro: fin_body_item)

lemma fin_rule:
  assumes "toks_left p < n" shows "fin (parse_rule x n p) (toks_left p)"
  unfolding parse_rule_def
proof (rule fin_pbind [OF fin_head [OF assms]])
  fix h p1 assume p1: "toks_left p1 < toks_left p"
  show "fin (pbind (if ps_peek p1 = Some TImplies then parse_body x n (ps_bump p1) else pret [] p1) (\<lambda>body p2.
     pbind (ps_expect x TDot ''`.` at the end of the rule'' p2) (\<lambda>_. pret \<lparr>rule_head = h, rule_body = body\<rparr>))) (toks_left p)"
  proof (rule fin_pbind [where j = "toks_left p"])
    show "fin (if ps_peek p1 = Some TImplies then parse_body x n (ps_bump p1) else pret [] p1) (toks_left p)"
      using fin_mono [OF fin_body [of "ps_bump p1" n x]] assms p1 by auto
  next
    fix body p2 assume p2: "toks_left p2 < toks_left p"
    show "fin (pbind (ps_expect x TDot ''`.` at the end of the rule'' p2) (\<lambda>_. pret \<lparr>rule_head = h, rule_body = body\<rparr>)) (toks_left p)"
      by (rule fin_pbind [OF fin_expect]) (use p2 in simp)
  qed
qed

lemma fin_directive:
  assumes "ps_peek p = Some t" shows "fin (parse_directive x p) (toks_left p)"
  unfolding parse_directive_def Let_def
proof (rule fin_pbind [where j = "toks_left p"])
  note len = peek_left [OF assms]
  show "fin (case ps_peek (ps_bump p) of
          Some (TCurie pr local) \<Rightarrow> if local = [] then pret pr (ps_bump (ps_bump p)) else perr (ps_span (ps_bump p)) ''expected a prefix name''
        | Some (TName n) \<Rightarrow> pret n (if ps_peek (ps_bump (ps_bump p)) = Some TEq then ps_bump (ps_bump (ps_bump p)) else ps_bump (ps_bump p))
        | _ \<Rightarrow> perr (ps_span (ps_bump p)) ''expected a prefix name'') (toks_left p)"
    using len by (auto split: option.splits tok.splits)
next
  fix name p3 assume p3: "toks_left p3 < toks_left p"
  show "fin (pbind (case ps_peek p3 of Some (TIri i) \<Rightarrow> pret i (ps_bump p3) | _ \<Rightarrow> perr (ps_span (ps_bump p)) ''expected an IRI after the prefix'')
      (\<lambda>iri p4. pbind (ps_expect x TDot ''`.` after the @prefix directive'' p4) (\<lambda>_ p5.
        pret () (p5\<lparr>ps_prefixes := (ps_prefixes p5)(name \<mapsto> iri)\<rparr>)))) (toks_left p)"
  proof (rule fin_pbind [where j = "toks_left p"])
    show "fin (case ps_peek p3 of Some (TIri i) \<Rightarrow> pret i (ps_bump p3) | _ \<Rightarrow> perr (ps_span (ps_bump p)) ''expected an IRI after the prefix'') (toks_left p)"
      using p3 by (auto split: option.splits tok.splits)
  next
    fix iri p4 assume p4: "toks_left p4 < toks_left p"
    show "fin (pbind (ps_expect x TDot ''`.` after the @prefix directive'' p4) (\<lambda>_ p5.
        pret () (p5\<lparr>ps_prefixes := (ps_prefixes p5)(name \<mapsto> iri)\<rparr>))) (toks_left p)"
      by (rule fin_pbind [OF fin_expect]) (use p4 in simp)
  qed
qed

lemma fin_goal:
  assumes "ps_peek p = Some t" "toks_left p < n" shows "fin (parse_goal x n p) (toks_left p)"
  unfolding parse_goal_def
proof (rule fin_pbind [OF fin_body])
  note len = peek_left [OF assms(1)]
  show "toks_left (ps_bump p) < n" using assms len by simp
  fix items p1 assume p1: "toks_left p1 < toks_left (ps_bump p)"
  show "fin (pbind (ps_expect x TDot ''`.` after the goal'' p1) (\<lambda>_ p2. case goal_items items None [] of
         None \<Rightarrow> perr (ps_span p2) ''a goal is one atom, optionally followed by constraints''
       | Some (None, _) \<Rightarrow> perr (ps_span p2) ''a goal needs an atom''
       | Some (Some a, cs) \<Rightarrow> pret \<lparr>goal_atom = a, goal_constraints = cs\<rparr> p2)) (toks_left p)"
    by (rule fin_pbind [OF fin_expect]) (use p1 in \<open>auto split: option.splits prod.splits\<close>)
qed

lemma fin_version:
  assumes "ps_peek p = Some t" shows "fin (parse_version x p) (toks_left p)"
proof -
  have "fin (pbind (ps_expect x TDot w (ps_bump (ps_bump p))) (\<lambda>_. pret v)) (toks_left p)" for v w
    by (rule fin_pbind [OF fin_expect]) simp
  then show ?thesis by (auto simp: parse_version_def Let_def split: option.splits tok.splits)
qed

lemma program_not_out_of_fuel: "toks_left p < n \<Longrightarrow> parse_program x n prog p \<noteq> None"
proof (induction n arbitrary: prog p)
  case (Suc n)
  have go: "pbind r f \<noteq> None" if "fin r (toks_left p)" "\<And>a q. toks_left q < toks_left p \<Longrightarrow> f a q \<noteq> None"
    for r :: "'a pres" and f :: "'a \<Rightarrow> parser \<Rightarrow> program pres"
    using that by (auto simp: fin_def pbind_def split: option.splits sum.splits)
  have next_ok: "toks_left q < toks_left p \<Longrightarrow> parse_program x n prog' q \<noteq> None" for q prog' using Suc by simp
  show ?case
  proof (cases "ps_peek p")
    case (Some t)
    have "pbind (parse_directive x p) (\<lambda>_. parse_program x n prog) \<noteq> None"
      "pbind (parse_version x p) (\<lambda>v. parse_program x n (prog\<lparr>version := Some v\<rparr>)) \<noteq> None"
      "pbind (parse_goal x (Suc n) p) (\<lambda>g. parse_program x n (prog\<lparr>prog_goal := Some g\<rparr>)) \<noteq> None"
      "pbind (parse_rule x (Suc n) p) (\<lambda>r. parse_program x n (prog\<lparr>rules := rules prog @ [r]\<rparr>)) \<noteq> None"
      using fin_directive [OF Some] fin_version [OF Some] fin_goal [OF Some Suc.prems] fin_rule [OF Suc.prems] next_ok
      by (auto simp: fin_def pbind_def split: option.splits sum.splits)
    with Some show ?thesis by (cases t) auto
  qed (simp add: pret_def)
qed simp

section \<open>What a parsed program looks like\<close>

text \<open>Whatever succeeds satisfies \<open>Q\<close>.\<close>

definition ensures :: "('a \<Rightarrow> bool) \<Rightarrow> 'a pres \<Rightarrow> bool" where
  "ensures Q r \<longleftrightarrow> (\<forall>a p. r = Some (Inr (a, p)) \<longrightarrow> Q a)"

lemma ensures_simps [simp]: "ensures Q (pret a p) \<longleftrightarrow> Q a" "ensures Q (perr sp m)" "ensures Q (pfail e)" "ensures Q None"
  by (simp_all add: ensures_def pret_def perr_def pfail_def)

lemma ensures_if: "ensures Q a \<Longrightarrow> ensures Q b \<Longrightarrow> ensures Q (if c then a else b)"
  by simp

lemma ensures_True: "ensures (\<lambda>_. True) r"
  by (simp add: ensures_def)

lemma ensures_pbind: "ensures P r \<Longrightarrow> (\<And>a p. P a \<Longrightarrow> ensures Q (f a p)) \<Longrightarrow> ensures Q (pbind r f)"
  by (fastforce simp: ensures_def pbind_def split: option.splits sum.splits)

lemmas ensures_then = ensures_pbind [OF ensures_True]

lemma ensures_comma_list: "(\<And>p. ensures Q (item p)) \<Longrightarrow> ensures (list_all Q) (comma_list n item p)"
proof (induction n arbitrary: p)
  case (Suc n)
  have "ensures (list_all Q) (pbind (comma_list n item q) (\<lambda>as. pret (a # as)))" if "Q a" for a q
    by (rule ensures_pbind [OF Suc.IH [OF Suc.prems]]) (use that in simp)
  then show ?case using Suc.prems by (auto intro!: ensures_pbind [of Q])
qed simp

fun reads_store :: "pred \<Rightarrow> bool" where
  "reads_store (Edb _) = True" | "reads_store (Triple _) = True" | "reads_store _ = False"

fun is_history :: "pred \<Rightarrow> bool" where
  "is_history (History _) = True" | "is_history _ = False"

text \<open>Atoms as \<open>parse_atom\<close> leaves them, and as the two renaming passes do.\<close>

definition atom_parsed :: "atom \<Rightarrow> bool" where
  "atom_parsed a \<longleftrightarrow> (is_history (atom_pred a) \<or> (if is_nearest (atom_pred a) then atom_pred a = Nearest (length (atom_args a) \<noteq> 4)
       else pred_arity (atom_pred a) \<in> {None, Some (length (atom_args a))})) \<and>
     (atom_at a = None \<or> reads_store (atom_pred a))"

definition atom_ok :: "atom \<Rightarrow> bool" where
  "atom_ok a \<longleftrightarrow> pred_arity (atom_pred a) \<in> {None, Some (length (atom_args a))} \<and> (atom_at a = None \<or> reads_store (atom_pred a))"

definition head_ok :: "pred \<Rightarrow> bool" where
  "head_ok pr \<longleftrightarrow> \<not> is_history pr \<and> \<not> is_nearest pr"

fun item_all :: "(atom \<Rightarrow> bool) \<Rightarrow> body_item \<Rightarrow> bool" where
  "item_all A (Atom a) = A a" | "item_all A (Negated a) = A a" | "item_all A (Constraint e) = True"

definition prog_all :: "(pred \<Rightarrow> bool) \<Rightarrow> (atom \<Rightarrow> bool) \<Rightarrow> program \<Rightarrow> bool" where
  "prog_all H A prog \<longleftrightarrow> list_all (\<lambda>r. H (head_pred (rule_head r)) \<and> list_all (item_all A) (rule_body r)) (rules prog) \<and>
     (case prog_goal prog of None \<Rightarrow> True | Some g \<Rightarrow> A (goal_atom g))"

lemma ensures_check_atom: "ensures atom_parsed (check_atom sp (fix_pred pr (length args)) args at p)"
  by (cases pr) (auto simp: check_atom_def fix_pred_def atom_parsed_def split: option.splits)

lemma ensures_atom: "ensures atom_parsed (parse_atom x n p)"
  unfolding parse_atom_def Let_def by (intro ensures_then ensures_check_atom)

lemma ensures_body: "ensures (list_all (item_all atom_parsed)) (parse_body x n p)"
  unfolding parse_body_def
proof (rule ensures_comma_list)
  fix p
  show "ensures (item_all atom_parsed) (parse_body_item x n p)"
  proof -
    have "ensures (item_all atom_parsed) (pbind (parse_atom x n q) (\<lambda>a. pret (if neg then Negated a else Atom a)))" for q neg
      by (rule ensures_pbind [OF ensures_atom]) simp
    moreover have "ensures (item_all atom_parsed) (pbind (parse_expr x n q) (\<lambda>e. pret (Constraint e)))" for q
      by (rule ensures_then) simp
    ultimately show ?thesis unfolding parse_body_item_def Let_def by (rule ensures_if)
  qed
qed

lemma ensures_rule: "ensures (\<lambda>r. list_all (item_all atom_parsed) (rule_body r)) (parse_rule x n p)"
  unfolding parse_rule_def
  by (intro ensures_then ensures_pbind [where P = "list_all (item_all atom_parsed)"]) (auto intro: ensures_body intro!: ensures_then)

lemma goal_items_all:
  "goal_items items a cs = Some (Some b, ds) \<Longrightarrow> list_all (item_all A) items \<Longrightarrow> (\<And>c. a = Some c \<Longrightarrow> A c) \<Longrightarrow> A b"
  by (induction items a cs rule: goal_items.induct) (auto split: if_splits)

lemma ensures_goal: "ensures (\<lambda>g. atom_parsed (goal_atom g)) (parse_goal x n p)"
  unfolding parse_goal_def
  by (rule ensures_pbind [OF ensures_body], rule ensures_then) (auto dest: goal_items_all split: option.splits)

lemma ensures_program: "prog_all (\<lambda>_. True) atom_parsed prog \<Longrightarrow> ensures (prog_all (\<lambda>_. True) atom_parsed) (parse_program x n prog p)"
proof (induction n arbitrary: prog p)
  case (Suc n)
  have "ensures (prog_all (\<lambda>_. True) atom_parsed) (pbind (parse_directive x p) (\<lambda>_. parse_program x n prog))"
    "ensures (prog_all (\<lambda>_. True) atom_parsed) (pbind (parse_version x p) (\<lambda>v. parse_program x n (prog\<lparr>version := Some v\<rparr>)))"
    "ensures (prog_all (\<lambda>_. True) atom_parsed) (pbind (parse_goal x m p) (\<lambda>g. parse_program x n (prog\<lparr>prog_goal := Some g\<rparr>)))"
    "ensures (prog_all (\<lambda>_. True) atom_parsed) (pbind (parse_rule x m p) (\<lambda>r. parse_program x n (prog\<lparr>rules := rules prog @ [r]\<rparr>)))" for m
       apply (intro ensures_then Suc.IH Suc.prems)
      apply (intro ensures_then Suc.IH, use Suc.prems in \<open>simp add: prog_all_def\<close>)
     apply (intro ensures_pbind [OF ensures_goal] Suc.IH, use Suc.prems in \<open>simp add: prog_all_def\<close>)
    apply (intro ensures_pbind [OF ensures_rule] Suc.IH, use Suc.prems in \<open>simp add: prog_all_def\<close>)
    done
  then show ?case using Suc.prems by (auto split: option.splits tok.splits)
qed simp

text \<open>What a renaming pass makes of heads and atoms.\<close>

lemma rename_preds_all:
  assumes "rename_preds fx f prog = Inr prog'" "prog_all H A prog"
    and H: "\<And>r. r \<in> set (rules prog) \<Longrightarrow> H (head_pred (rule_head r)) \<Longrightarrow> H' (fx (head_pred (rule_head r)))"
    and A: "\<And>a b. A a \<Longrightarrow> f a = Inr b \<Longrightarrow> A' b"
  shows "prog_all H' A' prog'"
proof -
  have item: "item_all A' j" if "item_all A i" "map_item f i = Inr j" for i j
    using that A by (cases i) (auto simp: map_item_def result_simps)
  have body: "list_all (item_all A') js" if "list_all (item_all A) is" "map_result (map_item f) is = Inr js" for "is" js
    using that item by (auto simp: map_result_Inr list_all2_conv_all_nth list_all_length)
  from assms(1) obtain rs g where prog': "prog' = prog\<lparr>rules := rs, prog_goal := g\<rparr>"
    and rs: "list_all2 (\<lambda>r r'. rbind (map_result (map_item f) (rule_body r)) (\<lambda>body.
           Inr \<lparr>rule_head = (rule_head r)\<lparr>head_pred := fx (head_pred (rule_head r))\<rparr>, rule_body = body\<rparr>) = Inr r') (rules prog) rs"
    and g: "(case prog_goal prog of None \<Rightarrow> Inr None | Some g \<Rightarrow> rbind (f (goal_atom g)) (\<lambda>a. Inr (Some (g\<lparr>goal_atom := a\<rparr>)))) = Inr g"
    by (auto simp: rename_preds_def result_simps)
  have "H' (head_pred (rule_head r')) \<and> list_all (item_all A') (rule_body r')" if "r' \<in> set rs" for r'
  proof -
    from that rs obtain r where "r \<in> set (rules prog)" "rbind (map_result (map_item f) (rule_body r)) (\<lambda>body.
           Inr \<lparr>rule_head = (rule_head r)\<lparr>head_pred := fx (head_pred (rule_head r))\<rparr>, rule_body = body\<rparr>) = Inr r'"
      by (metis (mono_tags, lifting) in_set_conv_nth list_all2_conv_all_nth)
    then obtain body where "r \<in> set (rules prog)" "map_result (map_item f) (rule_body r) = Inr body"
      "r' = \<lparr>rule_head = (rule_head r)\<lparr>head_pred := fx (head_pred (rule_head r))\<rparr>, rule_body = body\<rparr>"
      by (auto simp: rbind_Inr_iff)
    with assms(2) body H show ?thesis by (auto simp: prog_all_def list_all_iff)
  qed
  moreover have "case g of None \<Rightarrow> True | Some g \<Rightarrow> A' (goal_atom g)"
    using g assms(2) A by (auto simp: prog_all_def result_simps split: option.splits)
  ultimately show ?thesis by (simp add: prog' prog_all_def list_all_iff)
qed

lemma history_names_ok:
  assumes "history_names prog = Inr prog'" "prog_all (\<lambda>_. True) atom_parsed prog"
  shows "prog_all (\<lambda>pr. \<not> is_history pr) (\<lambda>a. atom_ok a \<or> is_nearest (atom_pred a) \<and> atom_parsed a) prog'"
proof (rule rename_preds_all [OF assms(1) [unfolded history_names_def] assms(2)])
  fix r assume "r \<in> set (rules prog)"
  then show "\<not> is_history (fix_history prog (head_pred (rule_head r)))"
    by (cases "head_pred (rule_head r)") (auto simp: fix_history_def defined_history_def List.map_filter_def image_iff intro!: bexI [of _ r])
next
  fix a b assume "atom_parsed a" "check_history (fix_atom (fix_history prog) a) = Inr b"
  then show "atom_ok b \<or> is_nearest (atom_pred b) \<and> atom_parsed b"
    by (cases "atom_pred a") (auto simp: check_history_def fix_atom_def fix_history_def atom_ok_def atom_parsed_def split: if_splits)
qed

lemma nearest_names_ok:
  assumes "nearest_names prog = Inr prog'"
    and "prog_all (\<lambda>pr. \<not> is_history pr) (\<lambda>a. atom_ok a \<or> is_nearest (atom_pred a) \<and> atom_parsed a) prog"
  shows "prog_all head_ok atom_ok prog'"
proof (rule rename_preds_all [OF assms(1) [unfolded nearest_names_def Let_def] assms(2)])
  fix r assume "r \<in> set (rules prog)" "\<not> is_history (head_pred (rule_head r))"
  then show "head_ok (fix_nearest (defines_nearest prog) (head_pred (rule_head r)))"
    by (cases "head_pred (rule_head r)") (auto simp: head_ok_def fix_nearest_def defines_nearest_def list_ex_iff intro!: bexI [of _ r])
next
  fix a b assume "atom_ok a \<or> is_nearest (atom_pred a) \<and> atom_parsed a"
    "rbind (check_nearest (defines_nearest prog) a) (\<lambda>a. Inr (fix_atom (fix_nearest (defines_nearest prog)) a)) = Inr b"
  then show "atom_ok b"
    by (cases "atom_pred a") (auto simp: result_simps check_nearest_def fix_atom_def fix_nearest_def atom_ok_def atom_parsed_def split: if_splits)
qed

section \<open>Properties\<close>

text \<open>
  C16. Parsing returns, with a program or an error, for every input: the fuel the tokens give is never used up, however
  the expressions nest, whatever the token stream is.
\<close>

theorem parse_returns: "\<exists>r. parse x src = Some r"
proof (cases "tokenize (lexer_new src)")
  case (Inr toks)
  define p where "p = \<lparr>ps_toks = toks, ps_end = (if toks = [] then \<lparr>line = 0, column = 0\<rparr> else sp_span (last toks)),
    ps_prefixes = default_prefixes\<rparr>"
  have "parse_program x (Suc (length toks)) empty_program p \<noteq> None"
    by (rule program_not_out_of_fuel) (simp add: p_def)
  then obtain r where r: "parse_program x (Suc (length toks)) empty_program p = Some r" by blast
  have "parse x src = (case r of Inl e \<Rightarrow> Some (Inl e) | Inr (prog, _) \<Rightarrow> Some (rbind (history_names prog) nearest_names))"
    using Inr r unfolding parse_def parse_tokens_def p_def by (simp del: parse_program.simps)
  then show ?thesis by (auto split: sum.splits)
qed (simp add: parse_def)


definition toy_parse_ext :: parse_ext where
  "toy_parse_ext = \<lparr>px_iri_error = (\<lambda>_. None), px_lang_tag = Inr, px_debug = (\<lambda>_. [])\<rparr>"

definition toy_program :: string where
  "toy_program = ''p(?x) :- not branch(?x, ?y). ?- p(?z).''"


end
