(* ===== verification/Json.thy ===== *)
theory Json
  imports Encoding
begin

text \<open>
  The JSON forms of terms, quads and query results the JavaScript bindings exchange (\<^verbatim>\<open>json.rs\<close>). A JSON object is
  an association list; \<^verbatim>\<open>Value::get\<close> looks a key up and is \<^const>\<open>None\<close> on anything but an object.

  Outside the repository, and so the fields of \<open>json_ext\<close>: the checks of \<^verbatim>\<open>NamedNode::new\<close> and \<^verbatim>\<open>BlankNode::new\<close> (the error
  message, if any), the language tag check (an error message, or the tag as stored) and the rendering of a JSON value.
\<close>

section \<open>JSON values\<close>

datatype jvalue =
    JNull
  | JBool bool
  | JNumber string
  | JString string
  | JArray "jvalue list"
  | JObject "(string \<times> jvalue) list"

fun jget :: "jvalue \<Rightarrow> string \<Rightarrow> jvalue option" where
  "jget (JObject fs) k = map_of fs k"
| "jget _ k = None"

fun jstr :: "jvalue \<Rightarrow> string option" where
  "jstr (JString s) = Some s"
| "jstr _ = None"

definition jget_or_null :: "jvalue \<Rightarrow> string \<Rightarrow> jvalue" where
  "jget_or_null v k = (case jget v k of Some w \<Rightarrow> w | None \<Rightarrow> JNull)"

record json_ext =
  jx_iri_error :: "string \<Rightarrow> string option"
  jx_bnode_error :: "string \<Rightarrow> string option"
  jx_lang_tag :: "string \<Rightarrow> string + string"
  jx_render :: "jvalue \<Rightarrow> string"

section \<open>Terms and quads as JSON\<close>

definition node_json :: "string \<Rightarrow> string \<Rightarrow> jvalue" where
  "node_json kind v = JObject [(''termType'', JString kind), (''value'', JString v)]"

definition literal_json :: "literal \<Rightarrow> jvalue" where
  "literal_json l = JObject (
     [(''termType'', JString ''Literal''), (''value'', JString (lit_value l)),
      (''language'', JString (case lit_language l of Some t \<Rightarrow> t | None \<Rightarrow> []))]
     @ (case lit_direction l of None \<Rightarrow> [] | Some Ltr \<Rightarrow> [(''direction'', JString ''ltr'')] | Some Rtl \<Rightarrow> [(''direction'', JString ''rtl'')])
     @ [(''datatype'', node_json ''NamedNode'' (lit_datatype l))])"

definition quad_json :: "jvalue \<Rightarrow> jvalue \<Rightarrow> jvalue \<Rightarrow> jvalue \<Rightarrow> jvalue" where
  "quad_json s p ob g = JObject [(''termType'', JString ''Quad''), (''value'', JString []),
     (''subject'', s), (''predicate'', p), (''object'', ob), (''graph'', g)]"

definition subject_json :: "named_or_blank \<Rightarrow> jvalue" where
  "subject_json s = (case s of SNamed n \<Rightarrow> node_json ''NamedNode'' n | SBlank b \<Rightarrow> node_json ''BlankNode'' b)"

primrec term_to_json :: "rdf_term \<Rightarrow> jvalue" where
  "term_to_json (NamedNode n) = node_json ''NamedNode'' n"
| "term_to_json (BlankNode b) = node_json ''BlankNode'' b"
| "term_to_json (Lit l) = literal_json l"
| "term_to_json (TripleTerm s p ob) =
     quad_json (subject_json s) (node_json ''NamedNode'' p) (term_to_json ob) (node_json ''DefaultGraph'' [])"

definition graph_to_json :: "graph_name \<Rightarrow> jvalue" where
  "graph_to_json g =
     (case g of
        DefaultGraph \<Rightarrow> node_json ''DefaultGraph'' []
      | GNamed n \<Rightarrow> term_to_json (NamedNode n)
      | GBlank b \<Rightarrow> term_to_json (BlankNode b))"

definition quad_to_json :: "quad \<Rightarrow> jvalue" where
  "quad_to_json q = quad_json (subject_json (q_subject q)) (node_json ''NamedNode'' (q_predicate q))
     (term_to_json (q_object q)) (graph_to_json (q_graph q))"

section \<open>Reading them back\<close>

definition json_field :: "json_ext \<Rightarrow> jvalue \<Rightarrow> string \<Rightarrow> error + string" where
  "json_field x v k =
     ok_or (Other (''term JSON without '' @ [CHR 0x22] @ k @ [CHR 0x22] @ '': '' @ jx_render x v)) (Option.bind (jget v k) jstr)"

definition new_named_node :: "json_ext \<Rightarrow> string \<Rightarrow> error + string" where
  "new_named_node x s = (case jx_iri_error x s of Some e \<Rightarrow> Inl (Other e) | None \<Rightarrow> Inr s)"

definition new_blank_node :: "json_ext \<Rightarrow> string \<Rightarrow> error + string" where
  "new_blank_node x s = (case jx_bnode_error x s of Some e \<Rightarrow> Inl (Other e) | None \<Rightarrow> Inr s)"

definition json_to_literal :: "json_ext \<Rightarrow> jvalue \<Rightarrow> error + literal" where
  "json_to_literal x v =
     rbind (json_field x v ''value'') (\<lambda>value.
     let lang = (case Option.bind (jget v ''language'') jstr of Some t \<Rightarrow> t | None \<Rightarrow> []);
         dt = Option.bind (Option.bind (jget v ''datatype'') (\<lambda>d. jget d ''value'')) jstr;
         dir = Option.bind (jget v ''direction'') jstr in
     if lang \<noteq> []
     then (case jx_lang_tag x lang of
             Inl e \<Rightarrow> Inl (Other e)
           | Inr tag \<Rightarrow> Inr (if dir = Some ''ltr'' then dir_lang_literal value tag Ltr
                            else if dir = Some ''rtl'' then dir_lang_literal value tag Rtl
                            else lang_literal value tag))
     else (case dt of
             Some d \<Rightarrow> rbind (new_named_node x d) (\<lambda>d. Inr (typed_literal value d))
           | None \<Rightarrow> Inr (simple_literal value)))"

lemma jget_size: "jget v k = Some w \<Longrightarrow> size w < size v"
proof (cases v)
  case (JObject fs)
  assume "jget v k = Some w"
  with JObject have "(k, w) \<in> set fs" by (simp add: map_of_SomeD)
  then have "size w < size_list (size_prod (\<lambda>_. 0) size) fs"
    by (induction fs) auto
  with JObject show ?thesis by simp
qed auto

lemma jget_or_null_size: "jget v k = Some w \<Longrightarrow> size (jget_or_null v l) < size v"
  using jget_size [of v l] jget_size [of v k w] by (auto simp: jget_or_null_def split: option.splits)

lemma json_field_Inr [result_simps]: "json_field x v k = Inr s \<longleftrightarrow> jget v k = Some (JString s)"
  by (auto simp: json_field_def ok_or_def bind_eq_Some_conv split: option.splits elim!: jstr.elims)

function json_to_term :: "json_ext \<Rightarrow> jvalue \<Rightarrow> error + rdf_term" where
  "json_to_term x v =
     rbind (json_field x v ''termType'') (\<lambda>kind.
       if kind = ''NamedNode'' then rbind (json_field x v ''value'') (\<lambda>s. rbind (new_named_node x s) (\<lambda>n. Inr (NamedNode n)))
       else if kind = ''BlankNode'' then rbind (json_field x v ''value'') (\<lambda>s. rbind (new_blank_node x s) (\<lambda>b. Inr (BlankNode b)))
       else if kind = ''Literal'' then rbind (json_to_literal x v) (\<lambda>l. Inr (Lit l))
       else if kind = ''Quad''
       then rbind (json_to_term x (jget_or_null v ''subject'')) (\<lambda>s.
            rbind (json_to_term x (jget_or_null v ''predicate'')) (\<lambda>p.
            rbind (json_to_term x (jget_or_null v ''object'')) (\<lambda>ob. make_triple s p ob)))
       else Inl (Other (''unsupported termType '' @ kind)))"
  by pat_completeness auto
termination
  by (relation "measure (\<lambda>(x, v). size v)") (auto simp: json_field_Inr intro: jget_or_null_size)

declare json_to_term.simps [simp del]

definition json_to_graph :: "json_ext \<Rightarrow> jvalue \<Rightarrow> error + graph_name" where
  "json_to_graph x v =
     (if v = JNull then Inr DefaultGraph
      else rbind (json_field x v ''termType'') (\<lambda>kind.
        if kind = ''DefaultGraph'' then Inr DefaultGraph
        else rbind (json_to_term x v) (\<lambda>t.
          case t of NamedNode n \<Rightarrow> Inr (GNamed n) | BlankNode b \<Rightarrow> Inr (GBlank b) | _ \<Rightarrow> Inl (Other ''invalid graph name''))))"

definition json_to_quad :: "json_ext \<Rightarrow> jvalue \<Rightarrow> error + quad" where
  "json_to_quad x v =
     rbind (json_to_term x (jget_or_null v ''subject'')) (\<lambda>st.
     rbind (case st of NamedNode n \<Rightarrow> Inr (SNamed n) | BlankNode b \<Rightarrow> Inr (SBlank b) | _ \<Rightarrow> Inl (Other ''invalid subject'')) (\<lambda>s.
     rbind (json_to_term x (jget_or_null v ''predicate'')) (\<lambda>pt.
     rbind (case pt of NamedNode n \<Rightarrow> Inr n | _ \<Rightarrow> Inl (Other ''invalid predicate'')) (\<lambda>p.
     rbind (json_to_term x (jget_or_null v ''object'')) (\<lambda>ob.
     rbind (json_to_graph x (jget_or_null v ''graph'')) (\<lambda>g.
       Inr \<lparr>q_subject = s, q_predicate = p, q_object = ob, q_graph = g\<rparr>))))))"

section \<open>Query results\<close>

datatype query_output =
    Solutions "string list" "rdf_term option list list"
  | Boolean bool
  | Graph "(named_or_blank \<times> string \<times> rdf_term) list"

fun output_to_json :: "query_output \<Rightarrow> jvalue" where
  "output_to_json (Solutions variables rows) = JObject [(''kind'', JString ''solutions''),
     (''variables'', JArray (map JString variables)),
     (''rows'', JArray (map (\<lambda>r. JArray (map (\<lambda>t. case t of None \<Rightarrow> JNull | Some t \<Rightarrow> term_to_json t) r)) rows))]"
| "output_to_json (Boolean b) = JObject [(''kind'', JString ''boolean''), (''value'', JBool b)]"
| "output_to_json (Graph triples) = JObject [(''kind'', JString ''quads''),
     (''quads'', JArray (map (\<lambda>(s, p, ob). quad_to_json \<lparr>q_subject = s, q_predicate = p, q_object = ob, q_graph = DefaultGraph\<rparr>) triples))]"

section \<open>Round trips\<close>

text \<open>Terms whose parts the constructors accept unchanged, as every term in a store is.\<close>

definition literal_valid :: "json_ext \<Rightarrow> literal \<Rightarrow> bool" where
  "literal_valid x l \<longleftrightarrow> wf_literal l \<and>
     (case lit_language l of None \<Rightarrow> jx_iri_error x (lit_datatype l) = None | Some t \<Rightarrow> t \<noteq> [] \<and> jx_lang_tag x t = Inr t)"

definition subject_valid :: "json_ext \<Rightarrow> named_or_blank \<Rightarrow> bool" where
  "subject_valid x s = (case s of SNamed n \<Rightarrow> jx_iri_error x n = None | SBlank b \<Rightarrow> jx_bnode_error x b = None)"

primrec term_valid :: "json_ext \<Rightarrow> rdf_term \<Rightarrow> bool" where
  "term_valid x (NamedNode n) = (jx_iri_error x n = None)"
| "term_valid x (BlankNode b) = (jx_bnode_error x b = None)"
| "term_valid x (Lit l) = literal_valid x l"
| "term_valid x (TripleTerm s p ob) = (subject_valid x s \<and> jx_iri_error x p = None \<and> term_valid x ob)"

definition quad_valid :: "json_ext \<Rightarrow> quad \<Rightarrow> bool" where
  "quad_valid x q \<longleftrightarrow> subject_valid x (q_subject q) \<and> jx_iri_error x (q_predicate q) = None \<and> term_valid x (q_object q) \<and>
     (case q_graph q of DefaultGraph \<Rightarrow> True | GNamed n \<Rightarrow> jx_iri_error x n = None | GBlank b \<Rightarrow> jx_bnode_error x b = None)"

lemma json_field_eq [simp]: "jget v k = Some (JString s) \<Longrightarrow> json_field x v k = Inr s"
  by (simp add: result_simps)

lemma jget_node_json [simp]:
  "jget (node_json kind v) ''termType'' = Some (JString kind)" "jget (node_json kind v) ''value'' = Some (JString v)"
  by (simp_all add: node_json_def)

lemma jget_quad_json [simp]:
  "jget (quad_json s p ob g) ''termType'' = Some (JString ''Quad'')"
  "jget_or_null (quad_json s p ob g) ''subject'' = s" "jget_or_null (quad_json s p ob g) ''predicate'' = p"
  "jget_or_null (quad_json s p ob g) ''object'' = ob" "jget_or_null (quad_json s p ob g) ''graph'' = g"
  by (simp_all add: quad_json_def jget_or_null_def)

lemma node_json_roundtrip [simp]:
  "jx_iri_error x n = None \<Longrightarrow> json_to_term x (node_json ''NamedNode'' n) = Inr (NamedNode n)"
  "jx_bnode_error x b = None \<Longrightarrow> json_to_term x (node_json ''BlankNode'' b) = Inr (BlankNode b)"
  by (simp_all add: json_to_term.simps [of x "node_json k v" for k v] new_named_node_def new_blank_node_def)

lemma subject_json_roundtrip [simp]: "subject_valid x s \<Longrightarrow> json_to_term x (subject_json s) = Inr (subject_term s)"
  by (auto simp: subject_json_def subject_valid_def subject_term_def split: named_or_blank.splits)

lemma literal_json_fields:
  "jget (literal_json l) ''termType'' = Some (JString ''Literal'')"
  "jget (literal_json l) ''value'' = Some (JString (lit_value l))"
  "jget (literal_json l) ''language'' = Some (JString (case lit_language l of Some t \<Rightarrow> t | None \<Rightarrow> []))"
  "jget (literal_json l) ''direction'' =
     map_option (\<lambda>d. JString (case d of Ltr \<Rightarrow> ''ltr'' | Rtl \<Rightarrow> ''rtl'')) (lit_direction l)"
  "jget (literal_json l) ''datatype'' = Some (node_json ''NamedNode'' (lit_datatype l))"
  by (auto simp: literal_json_def split: option.splits base_direction.splits)

lemma literal_json_roundtrip:
  assumes "literal_valid x l" shows "json_to_literal x (literal_json l) = Inr l"
proof -
  from assms have "wf_literal l" by (simp add: literal_valid_def)
  then show ?thesis
  proof (cases rule: wf_literal_cases)
    case (dir v lg d)
    with assms show ?thesis
      by (cases d) (simp_all add: json_to_literal_def literal_valid_def literal_json_fields literal_defs Let_def)
  qed (use assms in \<open>simp_all add: json_to_literal_def literal_valid_def literal_json_fields literal_defs Let_def new_named_node_def\<close>)
qed

lemma make_triple_subject: "make_triple (subject_term s) (NamedNode p) ob = Inr (TripleTerm s p ob)"
  by (cases s) (simp_all add: make_triple_def subject_term_def)

lemma term_json_roundtrip: "term_valid x t \<Longrightarrow> json_to_term x (term_to_json t) = Inr t"
proof (induction t)
  case (Lit l)
  then show ?case
    by (simp add: json_to_term.simps [of x "literal_json l"] literal_json_fields literal_json_roundtrip)
next
  case (TripleTerm s p ob)
  then show ?case
    by (simp add: json_to_term.simps [of x "quad_json s p ob g" for s p ob g] make_triple_subject)
qed simp_all

lemma graph_json_roundtrip:
  "(case g of DefaultGraph \<Rightarrow> True | GNamed n \<Rightarrow> jx_iri_error x n = None | GBlank b \<Rightarrow> jx_bnode_error x b = None) \<Longrightarrow>
   json_to_graph x (graph_to_json g) = Inr g"
  by (cases g) (auto simp: json_to_graph_def graph_to_json_def, simp_all add: node_json_def)

section \<open>Properties\<close>

text \<open>
  C12. JSON is a faithful transport: the JSON of a quad reads back as that quad, and the JSON of a term as that term, with
  nested triple terms, language tags, base directions and datatypes.
\<close>

theorem quad_json_roundtrip:
  assumes "quad_valid x q"
  shows "json_to_quad x (quad_to_json q) = Inr q \<and> json_to_term x (term_to_json (q_object q)) = Inr (q_object q)"
proof -
  have s: "(case subject_term s of NamedNode n \<Rightarrow> Inr (SNamed n) | BlankNode b \<Rightarrow> Inr (SBlank b) | _ \<Rightarrow> Inl e) = Inr s" for s and e :: error
    by (cases s) (simp_all add: subject_term_def)
  show ?thesis
    using assms by (simp add: quad_valid_def json_to_quad_def quad_to_json_def term_json_roundtrip graph_json_roundtrip s)
qed

definition toy_json_ext :: json_ext where
  "toy_json_ext = \<lparr>jx_iri_error = (\<lambda>s. if CHR '' '' \<in> set s then Some ''invalid IRI'' else None), jx_bnode_error = (\<lambda>_. None),
     jx_lang_tag = Inr, jx_render = (\<lambda>_. [])\<rparr>"

definition toy_json_quad :: quad where
  "toy_json_quad = \<lparr>q_subject = SBlank ''b'', q_predicate = ''http://e/p'',
     q_object = TripleTerm (SNamed ''http://e/s'') ''http://e/q'' (Lit (dir_lang_literal ''x'' ''ar'' Rtl)), q_graph = GNamed ''http://e/g''\<rparr>"

theorem quad_json_roundtrip_witness:
  "quad_valid toy_json_ext toy_json_quad \<and> json_to_quad toy_json_ext (quad_to_json toy_json_quad) = Inr toy_json_quad"
proof -
  have v: "quad_valid toy_json_ext toy_json_quad" by code_simp
  with quad_json_roundtrip [OF v] show ?thesis by blast
qed

end
