(* ===== verification/Version.thy ===== *)
theory Version
  imports Writer
begin

text \<open>
  Versioning (\<^verbatim>\<open>version.rs\<close> of the core): the store clock, the change log and time travel. The code drives SQLite
  with statements and triggers; here every statement is a value of \<open>vstmt\<close> with its SQL text (\<open>vstmt_sql\<close>) and with what
  it does to the tables (\<open>exec_stmt\<close>), so that what the texts achieve together can be proved. A table is the list of its
  rows; \<^const>\<open>None\<close> is a statement that SQLite aborts.
\<close>

section \<open>Levels and state\<close>

datatype history = NoHistory | Live | Frozen

record version_state =
  vs_level :: versioning
  vs_history :: history
  vs_stamp_column :: bool
  vs_stamp_index :: bool
  vs_as_of_index :: bool

definition version_state_default :: version_state where
  "version_state_default = \<lparr>vs_level = Off, vs_history = NoHistory, vs_stamp_column = False, vs_stamp_index = False,
     vs_as_of_index = False\<rparr>"

definition versioning_as_str :: "versioning \<Rightarrow> string" where
  "versioning_as_str v = (case v of Off \<Rightarrow> ''off'' | Stamped \<Rightarrow> ''stamped'' | Log \<Rightarrow> ''log'')"

definition versioning_from_str :: "string \<Rightarrow> error + versioning" where
  "versioning_from_str s =
     (let l = map to_ascii_lowercase s in
      if l = ''off'' \<or> l = ''none'' then Inr Off
      else if l = ''stamped'' then Inr Stamped
      else if l = ''log'' then Inr Log
      else Inl (Other (''unknown versioning level `'' @ s @ ''` (expected off, stamped or log)'')))"

definition vs_absorb :: "string \<Rightarrow> string \<Rightarrow> version_state \<Rightarrow> version_state" where
  "vs_absorb key value st =
     (if key = ''versioning'' then st\<lparr>vs_level := (case versioning_from_str value of Inr l \<Rightarrow> l | Inl _ \<Rightarrow> Off)\<rparr>
      else if key = ''history''
      then st\<lparr>vs_history := (if value = ''live'' then Live else if value = ''frozen'' then Frozen else NoHistory)\<rparr>
      else if key = ''stamp_column'' then st\<lparr>vs_stamp_column := (value = ''1'')\<rparr>
      else if key = ''stamp_index'' then st\<lparr>vs_stamp_index := (value = ''1'')\<rparr>
      else if key = ''as_of_index'' then st\<lparr>vs_as_of_index := (value = ''1'')\<rparr>
      else st)"

definition has_ticks :: "version_state \<Rightarrow> bool" where
  "has_ticks st \<longleftrightarrow> versioning_rank (vs_level st) \<ge> versioning_rank Stamped \<or> vs_stamp_column st \<or> vs_history st \<noteq> NoHistory"

record level_change =
  lc_as_of_index :: "bool option"
  lc_stamp_index :: "bool option"
  lc_allow_loss :: bool
  lc_author :: "string option"
  lc_message :: "string option"

datatype tick_kind = WRITE | GENESIS | FREEZE | RESUME | DROPPED | LEVEL | PURGE

fun kind_num :: "tick_kind \<Rightarrow> int" where
  "kind_num WRITE = 0" | "kind_num GENESIS = 1" | "kind_num FREEZE = 2" | "kind_num RESUME = 3" | "kind_num DROPPED = 4"
| "kind_num LEVEL = 5" | "kind_num PURGE = 6"

section \<open>Statements and their SQL\<close>

type_synonym pattern = "i64 option \<times> i64 option \<times> i64 option \<times> i64 option"

datatype vstmt =
    ClockDdl
  | AddStampColumn
  | OpenTick tick_kind "string option" "string option"
  | SetMeta "(string \<times> string) list"
  | LogTablesDdl
  | ResumeRemoved
  | ResumeAdded
  | GenesisLog
  | MarkCommit
  | CaptureDdl
  | DropCapture
  | DropQuadLog
  | DropCommits
  | DropStampIndex
  | DropStampColumn
  | DropTicks
  | AsOfIndexDdl bool
  | StampIndexDdl bool
  | SetPurging
  | PurgeQuads pattern
  | PurgeLog pattern
  | UnsetPurging

definition NOW :: string where
  "NOW = ''((julianday('' @ [CHR 0x27] @ ''now'' @ [CHR 0x27] @ '') - 2440587.5) * 86400.0)''"

definition PURGING :: string where
  "PURGING = ''EXISTS (SELECT 1 FROM oxilite_meta WHERE key = '' @ sql_str ''purging'' @ '')''"

definition tick_statement :: "tick_kind \<Rightarrow> string option \<Rightarrow> string option \<Rightarrow> string" where
  "tick_statement k author message =
     ''INSERT INTO ticks(t, time, kind, author, message) SELECT coalesce(max(t), 0) + 1, '' @ NOW @ '', '' @ show_int (kind_num k) @ '', ''
     @ sql_opt_str author @ '', '' @ sql_opt_str message @ '' FROM ticks''"

definition meta_sql :: "(string \<times> string) list \<Rightarrow> string" where
  "meta_sql entries = ''INSERT OR REPLACE INTO oxilite_meta(key, value) VALUES ''
     @ join '', '' (map (\<lambda>(k, v). ''('' @ sql_str k @ '', '' @ sql_str v @ '')'') entries)"

definition immutable_trigger :: "string \<Rightarrow> string \<Rightarrow> string \<Rightarrow> string \<Rightarrow> string" where
  "immutable_trigger name ev table cond = ''CREATE TRIGGER IF NOT EXISTS '' @ name @ '' BEFORE '' @ ev @ '' ON '' @ table
     @ '' WHEN '' @ cond @ '' BEGIN SELECT RAISE(ABORT, '' @ sql_str ''oxilite: history is immutable'' @ ''); END''"

definition clock_ddl :: "string list" where
  "clock_ddl =
     [''CREATE TABLE IF NOT EXISTS ticks (t INTEGER PRIMARY KEY, time REAL NOT NULL, kind INTEGER NOT NULL DEFAULT 0, author TEXT, message TEXT, time_id INTEGER, author_id INTEGER, message_id INTEGER) STRICT'',
      ''CREATE INDEX IF NOT EXISTS ticks_boundary ON ticks(t) WHERE kind > 0'',
      immutable_trigger ''ticks_immutable_update'' ''UPDATE'' ''ticks'' (''NOT '' @ PURGING),
      immutable_trigger ''ticks_immutable_delete'' ''DELETE'' ''ticks'' (''NOT '' @ PURGING)]"

definition log_tables_ddl :: "string list" where
  "log_tables_ddl =
     (let past = ''OLD.tx < '' @ CURRENT_TICK @ '' AND NOT '' @ PURGING in
      [''CREATE TABLE IF NOT EXISTS quad_log (s INTEGER NOT NULL, p INTEGER NOT NULL, o INTEGER NOT NULL, g INTEGER NOT NULL, tx INTEGER NOT NULL, op INTEGER NOT NULL, PRIMARY KEY (s, p, o, g, tx)) WITHOUT ROWID, STRICT'',
       ''CREATE INDEX IF NOT EXISTS quad_log_tx ON quad_log(tx)'',
       ''CREATE TABLE IF NOT EXISTS commits (tx INTEGER PRIMARY KEY) STRICT'',
       immutable_trigger ''quad_log_immutable_update'' ''UPDATE'' ''quad_log'' past,
       immutable_trigger ''quad_log_immutable_delete'' ''DELETE'' ''quad_log'' past,
       immutable_trigger ''commits_immutable_delete'' ''DELETE'' ''commits'' (''NOT '' @ PURGING)])"

definition capture_trigger :: "string \<Rightarrow> string \<Rightarrow> string \<Rightarrow> string \<Rightarrow> string \<Rightarrow> string" where
  "capture_trigger name ev x op undo =
     (let same = ''l.s = '' @ x @ ''.s AND l.p = '' @ x @ ''.p AND l.o = '' @ x @ ''.o AND l.g = '' @ x @ ''.g'';
          plain = ''s = '' @ x @ ''.s AND p = '' @ x @ ''.p AND o = '' @ x @ ''.o AND g = '' @ x @ ''.g'' in
      ''CREATE TRIGGER IF NOT EXISTS '' @ name @ '' AFTER '' @ ev @ '' ON quads WHEN NOT '' @ PURGING @ '' BEGIN ''
      @ ''INSERT INTO quad_log(s, p, o, g, tx, op) SELECT '' @ x @ ''.s, '' @ x @ ''.p, '' @ x @ ''.o, '' @ x @ ''.g, '' @ CURRENT_TICK @ '', '' @ op
      @ '' WHERE NOT EXISTS (SELECT 1 FROM quad_log l WHERE '' @ same @ '' AND l.tx = '' @ CURRENT_TICK @ '' AND l.op = '' @ undo @ ''); ''
      @ ''DELETE FROM quad_log WHERE '' @ plain @ '' AND tx = '' @ CURRENT_TICK @ '' AND op = '' @ undo @ ''; ''
      @ ''INSERT OR IGNORE INTO commits(tx) SELECT '' @ CURRENT_TICK @ ''; END'')"

definition capture_ddl :: "string list" where
  "capture_ddl =
     [capture_trigger ''quads_log_insert'' ''INSERT'' ''NEW'' ''1'' ''0'', capture_trigger ''quads_log_delete'' ''DELETE'' ''OLD'' ''0'' ''1'']"

definition as_of_index_ddl :: "bool \<Rightarrow> string list" where
  "as_of_index_ddl on =
     (if on then [''CREATE INDEX IF NOT EXISTS quad_log_posg ON quad_log(p, o, s, g, tx)'', ''CREATE INDEX IF NOT EXISTS quad_log_ospg ON quad_log(o, s, p, g, tx)'']
      else [''DROP INDEX IF EXISTS quad_log_posg'', ''DROP INDEX IF EXISTS quad_log_ospg''])"

definition stamp_index_ddl :: "bool \<Rightarrow> string" where
  "stamp_index_ddl on = (if on then ''CREATE INDEX IF NOT EXISTS quads_t ON quads(t)'' else ''DROP INDEX IF EXISTS quads_t'')"

definition as_of_sql :: "string \<Rightarrow> string" where
  "as_of_sql t = ''(SELECT l.s AS s, l.p AS p, l.o AS o, l.g AS g FROM quad_log l WHERE l.tx <= '' @ t @ '' AND l.op = 1 ''
     @ ''AND NOT EXISTS (SELECT 1 FROM quad_log r WHERE r.s = l.s AND r.p = l.p AND r.o = l.o AND r.g = l.g AND r.tx > l.tx AND r.tx <= '' @ t @ ''))''"

definition frozen_sql :: string where
  "frozen_sql = as_of_sql (''(SELECT max(t) FROM ticks WHERE kind = '' @ show_int (kind_num FREEZE) @ '')'')"

definition same_quad :: string where
  "same_quad = ''q.s = f.s AND q.p = f.p AND q.o = f.o AND q.g = f.g''"

definition pattern_sql :: "pattern \<Rightarrow> string" where
  "pattern_sql pat =
     (case pat of (s, p, ob, g) \<Rightarrow>
        let w = List.map_filter (\<lambda>(c, v). map_option (\<lambda>v. c @ '' = '' @ show_id v) v) [(''s'', s), (''p'', p), (''o'', ob), (''g'', g)]
        in if w = [] then ''1'' else join '' AND '' w)"

fun vstmt_sql :: "vstmt \<Rightarrow> string list" where
  "vstmt_sql ClockDdl = clock_ddl"
| "vstmt_sql AddStampColumn = [''ALTER TABLE quads ADD COLUMN t INTEGER NOT NULL DEFAULT 0'']"
| "vstmt_sql (OpenTick k a m) = [tick_statement k a m]"
| "vstmt_sql (SetMeta entries) = [meta_sql entries]"
| "vstmt_sql LogTablesDdl = log_tables_ddl"
| "vstmt_sql ResumeRemoved = [''INSERT INTO quad_log(s, p, o, g, tx, op) SELECT f.s, f.p, f.o, f.g, '' @ CURRENT_TICK @ '', 0 FROM '' @ frozen_sql
     @ '' f WHERE NOT EXISTS (SELECT 1 FROM quads q WHERE '' @ same_quad @ '')'']"
| "vstmt_sql ResumeAdded = [''INSERT INTO quad_log(s, p, o, g, tx, op) SELECT q.s, q.p, q.o, q.g, '' @ CURRENT_TICK @ '', 1 FROM quads q ''
     @ ''WHERE NOT EXISTS (SELECT 1 FROM '' @ frozen_sql @ '' f WHERE '' @ same_quad @ '')'']"
| "vstmt_sql GenesisLog = [''INSERT INTO quad_log(s, p, o, g, tx, op) SELECT s, p, o, g, '' @ CURRENT_TICK @ '', 1 FROM quads'']"
| "vstmt_sql MarkCommit = [''INSERT OR IGNORE INTO commits(tx) SELECT '' @ CURRENT_TICK]"
| "vstmt_sql CaptureDdl = capture_ddl"
| "vstmt_sql DropCapture = [''DROP TRIGGER IF EXISTS quads_log_insert'', ''DROP TRIGGER IF EXISTS quads_log_delete'']"
| "vstmt_sql DropQuadLog = [''DROP TABLE IF EXISTS quad_log'']"
| "vstmt_sql DropCommits = [''DROP TABLE IF EXISTS commits'']"
| "vstmt_sql DropStampIndex = [''DROP INDEX IF EXISTS quads_t'']"
| "vstmt_sql DropStampColumn = [''ALTER TABLE quads DROP COLUMN t'']"
| "vstmt_sql DropTicks = [''DROP TABLE IF EXISTS ticks'']"
| "vstmt_sql (AsOfIndexDdl on) = as_of_index_ddl on"
| "vstmt_sql (StampIndexDdl on) = [stamp_index_ddl on]"
| "vstmt_sql SetPurging = [''INSERT OR REPLACE INTO oxilite_meta(key, value) VALUES ('' @ sql_str ''purging'' @ '', '' @ sql_str ''1'' @ '')'']"
| "vstmt_sql (PurgeQuads pat) = [''DELETE FROM quads WHERE '' @ pattern_sql pat]"
| "vstmt_sql (PurgeLog pat) = [''DELETE FROM quad_log WHERE '' @ pattern_sql pat]"
| "vstmt_sql UnsetPurging = [''DELETE FROM oxilite_meta WHERE key = '' @ sql_str ''purging'']"

section \<open>Changing the level\<close>

definition raise_level :: "version_state \<Rightarrow> level_change \<Rightarrow> version_state \<times> vstmt list" where
  "raise_level st ch =
     (let msg = (\<lambda>d. Some (case lc_message ch of Some m \<Rightarrow> m | None \<Rightarrow> d)) in
      if vs_level st = Off
      then (st\<lparr>vs_level := Stamped, vs_stamp_column := True\<rparr>,
            [ClockDdl] @ (if \<not> vs_stamp_column st then [AddStampColumn] else [])
            @ [OpenTick LEVEL (lc_author ch) (msg ''versioning: stamped''), SetMeta [(''versioning'', ''stamped''), (''stamp_column'', ''1'')]])
      else (st\<lparr>vs_level := Log, vs_history := Live\<rparr>,
            [LogTablesDdl]
            @ (if vs_history st = Frozen
               then [OpenTick RESUME (lc_author ch) (msg ''history resumed''), ResumeRemoved, ResumeAdded]
               else [OpenTick GENESIS (lc_author ch) (msg ''history starts''), GenesisLog])
            @ [MarkCommit, CaptureDdl, SetMeta [(''versioning'', ''log''), (''history'', ''live'')]]))"

definition lower_level :: "version_state \<Rightarrow> level_change \<Rightarrow> error + version_state \<times> vstmt list" where
  "lower_level st ch =
     (let msg = (\<lambda>d. Some (case lc_message ch of Some m \<Rightarrow> m | None \<Rightarrow> d)) in
      if vs_level st = Log
      then Inr (if lc_allow_loss ch
                then (st\<lparr>vs_history := NoHistory, vs_as_of_index := False, vs_level := Stamped\<rparr>,
                      [DropCapture, DropQuadLog, DropCommits, OpenTick DROPPED (lc_author ch) (msg ''history deleted''),
                       SetMeta [(''versioning'', ''stamped''), (''history'', ''none''), (''as_of_index'', ''0'')]])
                else (st\<lparr>vs_history := Frozen, vs_level := Stamped\<rparr>,
                      [DropCapture, OpenTick FREEZE (lc_author ch) (msg ''history frozen''),
                       SetMeta [(''versioning'', ''stamped''), (''history'', ''frozen'')]]))
      else if lc_allow_loss ch
      then (if vs_history st \<noteq> NoHistory
            then Inl (Other ''the frozen history needs the clock: delete it first (lower the level to `stamped` with allow_loss from `log`)'')
            else Inr (st\<lparr>vs_stamp_column := False, vs_stamp_index := False, vs_level := Off\<rparr>,
                      [DropStampIndex, DropStampColumn, DropTicks,
                       SetMeta [(''versioning'', ''off''), (''stamp_column'', ''0''), (''stamp_index'', ''0'')]]))
      else Inr (st\<lparr>vs_level := Off\<rparr>,
                [OpenTick LEVEL (lc_author ch) (msg ''versioning: off''), SetMeta [(''versioning'', ''off'')]]))"

function raise_to :: "versioning \<Rightarrow> level_change \<Rightarrow> version_state \<Rightarrow> version_state \<times> vstmt list" where
  "raise_to to ch st =
     (if versioning_rank (vs_level st) < versioning_rank to
      then (case raise_level st ch of (st1, out1) \<Rightarrow> case raise_to to ch st1 of (st2, out2) \<Rightarrow> (st2, out1 @ out2))
      else (st, []))"
  by pat_completeness auto
termination
  by (relation "measure (\<lambda>(to, ch, st). 2 - versioning_rank (vs_level st))")
    (auto simp: raise_level_def Let_def split: if_splits; case_tac "vs_level st"; case_tac to; simp)+

function lower_to :: "versioning \<Rightarrow> level_change \<Rightarrow> version_state \<Rightarrow> error + version_state \<times> vstmt list" where
  "lower_to to ch st =
     (if versioning_rank (vs_level st) > versioning_rank to
      then rbind (lower_level st ch) (\<lambda>(st1, out1). rbind (lower_to to ch st1) (\<lambda>(st2, out2). Inr (st2, out1 @ out2)))
      else Inr (st, []))"
  by pat_completeness auto
termination
  by (relation "measure (\<lambda>(to, ch, st). versioning_rank (vs_level st))")
    (auto simp: lower_level_def Let_def split: if_splits; case_tac "vs_level st"; simp)+

declare raise_to.simps [simp del] lower_to.simps [simp del]

definition index_options :: "version_state \<Rightarrow> level_change \<Rightarrow> error + vstmt list" where
  "index_options st ch =
     rbind (case lc_as_of_index ch of
              None \<Rightarrow> Inr []
            | Some on \<Rightarrow>
                if on \<and> vs_history st = NoHistory then Inl (Other ''the as-of index needs a change log (level `log`)'')
                else Inr (if on \<noteq> vs_as_of_index st then [AsOfIndexDdl on, SetMeta [(''as_of_index'', if on then ''1'' else ''0'')]] else [])) (\<lambda>a.
     rbind (case lc_stamp_index ch of
              None \<Rightarrow> Inr []
            | Some on \<Rightarrow>
                if on \<and> \<not> vs_stamp_column st then Inl (Other ''the stamp index needs the store clock (level `stamped`)'')
                else Inr (if on \<noteq> vs_stamp_index st then [StampIndexDdl on, SetMeta [(''stamp_index'', if on then ''1'' else ''0'')]] else [])) (\<lambda>b.
       Inr (a @ b)))"

definition change_statements :: "version_state \<Rightarrow> versioning \<Rightarrow> level_change \<Rightarrow> error + vstmt list" where
  "change_statements from to ch =
     (case raise_to to ch from of (st1, out1) \<Rightarrow>
        rbind (lower_to to ch st1) (\<lambda>(st2, out2). rbind (index_options st2 ch) (\<lambda>out3. Inr (out1 @ out2 @ out3))))"

definition purge_request :: "version_state \<Rightarrow> pattern \<Rightarrow> string option \<Rightarrow> string option \<Rightarrow> vstmt list" where
  "purge_request st pat author reason =
     (if has_ticks st then [OpenTick PURGE author (Some (case reason of Some r \<Rightarrow> r | None \<Rightarrow> ''purge''))] else [])
     @ [SetPurging, PurgeQuads pat] @ (if vs_history st \<noteq> NoHistory then [PurgeLog pat] else []) @ [UnsetPurging]"

section \<open>What the statements do\<close>

type_synonym 'q log_row = "'q \<times> int \<times> bool"

record vdb =
  db_quads :: "quad_ids list"
  db_ticks :: "(int \<times> tick_kind) list"
  db_log :: "quad_ids log_row list"
  db_commits :: "int list"
  db_capture :: bool
  db_purging :: bool
  db_state :: version_state

definition empty_db :: vdb where
  "empty_db = \<lparr>db_quads = [], db_ticks = [], db_log = [], db_commits = [], db_capture = False, db_purging = False,
     db_state = version_state_default\<rparr>"

definition max_of :: "int list \<Rightarrow> int option" where
  "max_of ts = (if ts = [] then None else Some (Max (set ts)))"

definition current_tick :: "vdb \<Rightarrow> int option" where
  "current_tick db = max_of (map fst (db_ticks db))"

definition as_of_rows :: "'q log_row list \<Rightarrow> int \<Rightarrow> 'q list" where
  "as_of_rows log t =
     map fst (filter (\<lambda>(q, tx, op). tx \<le> t \<and> op \<and> \<not> list_ex (\<lambda>(q', tx', _). q' = q \<and> tx' > tx \<and> tx' \<le> t) log) log)"

text \<open>An \<^verbatim>\<open>INSERT\<close> into the log aborts on a row whose key (quad and tick) is taken.\<close>

fun log_insert :: "'q log_row list \<Rightarrow> 'q log_row list \<Rightarrow> 'q log_row list option" where
  "log_insert [] log = Some log"
| "log_insert ((q, tx, op) # rows) log =
     (if list_ex (\<lambda>(q', tx', _). q' = q \<and> tx' = tx) log then None else log_insert rows (log @ [(q, tx, op)]))"

definition matches :: "pattern \<Rightarrow> quad_ids \<Rightarrow> bool" where
  "matches pat q =
     (case (pat, q) of ((s, p, ob, g), (s', p', ob', g')) \<Rightarrow>
        (s = None \<or> s = Some s') \<and> (p = None \<or> p = Some p') \<and> (ob = None \<or> ob = Some ob') \<and> (g = None \<or> g = Some g'))"

text \<open>A \<^verbatim>\<open>DELETE\<close> from the log aborts on a row of an earlier tick, except while purging.\<close>

definition log_delete :: "(quad_ids log_row \<Rightarrow> bool) \<Rightarrow> vdb \<Rightarrow> vdb option" where
  "log_delete P db =
     (if \<not> db_purging db \<and> list_ex (\<lambda>(q, tx, op). P (q, tx, op) \<and> (case current_tick db of Some c \<Rightarrow> tx < c | None \<Rightarrow> False)) (db_log db)
      then None else Some (db\<lparr>db_log := filter (\<lambda>r. \<not> P r) (db_log db)\<rparr>))"

definition log_rows :: "(int \<Rightarrow> quad_ids log_row list) \<Rightarrow> vdb \<Rightarrow> vdb option" where
  "log_rows rows db =
     (case current_tick db of
        None \<Rightarrow> None
      | Some c \<Rightarrow> map_option (\<lambda>log. db\<lparr>db_log := log\<rparr>) (log_insert (rows c) (db_log db)))"

definition frozen_quads :: "vdb \<Rightarrow> quad_ids list" where
  "frozen_quads db =
     (case max_of (map fst (filter (\<lambda>(t, k). k = FREEZE) (db_ticks db))) of
        None \<Rightarrow> []
      | Some f \<Rightarrow> as_of_rows (db_log db) f)"

definition mark_commit :: "vdb \<Rightarrow> vdb option" where
  "mark_commit db = map_option (\<lambda>c. db\<lparr>db_commits := push_new c (db_commits db)\<rparr>) (current_tick db)"

definition open_tick :: "tick_kind \<Rightarrow> vdb \<Rightarrow> vdb" where
  "open_tick k db = db\<lparr>db_ticks := db_ticks db @ [((case current_tick db of Some c \<Rightarrow> c | None \<Rightarrow> 0) + 1, k)]\<rparr>"

text \<open>The capture triggers: \<open>op\<close> is true for an added quad, false for a removed one.\<close>

definition capture :: "bool \<Rightarrow> quad_ids \<Rightarrow> vdb \<Rightarrow> vdb option" where
  "capture op q db =
     (if db_purging db then Some db
      else case current_tick db of
        None \<Rightarrow> None
      | Some c \<Rightarrow>
          Option.bind (if (q, c, \<not> op) \<in> set (db_log db) then Some db else log_rows (\<lambda>c. [(q, c, op)]) db) (\<lambda>db1.
          Option.bind (log_delete (\<lambda>r. r = (q, c, \<not> op)) db1) mark_commit))"

text \<open>Writing a quad: \<^verbatim>\<open>INSERT OR IGNORE\<close> and \<^verbatim>\<open>DELETE\<close> fire the triggers for effective changes only.\<close>

datatype quad_op = Add quad_ids | Remove quad_ids

fun apply_op :: "quad_op \<Rightarrow> vdb \<Rightarrow> vdb option" where
  "apply_op (Add q) db =
     (if q \<in> set (db_quads db) then Some db
      else let db1 = db\<lparr>db_quads := db_quads db @ [q]\<rparr> in if db_capture db then capture True q db1 else Some db1)"
| "apply_op (Remove q) db =
     (if q \<notin> set (db_quads db) then Some db
      else let db1 = db\<lparr>db_quads := removeAll q (db_quads db)\<rparr> in if db_capture db then capture False q db1 else Some db1)"

fun apply_ops :: "quad_op list \<Rightarrow> vdb \<Rightarrow> vdb option" where
  "apply_ops [] db = Some db"
| "apply_ops (x # xs) db = Option.bind (apply_op x db) (apply_ops xs)"

fun exec_stmt :: "vstmt \<Rightarrow> vdb \<Rightarrow> vdb option" where
  "exec_stmt (OpenTick k a m) db = Some (open_tick k db)"
| "exec_stmt (SetMeta entries) db = Some (db\<lparr>db_state := fold (\<lambda>(k, v). vs_absorb k v) entries (db_state db)\<rparr>)"
| "exec_stmt ResumeRemoved db =
     log_rows (\<lambda>c. map (\<lambda>q. (q, c, False)) (filter (\<lambda>q. q \<notin> set (db_quads db)) (frozen_quads db))) db"
| "exec_stmt ResumeAdded db =
     log_rows (\<lambda>c. map (\<lambda>q. (q, c, True)) (filter (\<lambda>q. q \<notin> set (frozen_quads db)) (db_quads db))) db"
| "exec_stmt GenesisLog db = log_rows (\<lambda>c. map (\<lambda>q. (q, c, True)) (db_quads db)) db"
| "exec_stmt MarkCommit db = mark_commit db"
| "exec_stmt CaptureDdl db = Some (db\<lparr>db_capture := True\<rparr>)"
| "exec_stmt DropCapture db = Some (db\<lparr>db_capture := False\<rparr>)"
| "exec_stmt DropQuadLog db = Some (db\<lparr>db_log := []\<rparr>)"
| "exec_stmt DropCommits db = Some (db\<lparr>db_commits := []\<rparr>)"
| "exec_stmt DropTicks db = Some (db\<lparr>db_ticks := []\<rparr>)"
| "exec_stmt SetPurging db = Some (db\<lparr>db_purging := True\<rparr>)"
| "exec_stmt UnsetPurging db = Some (db\<lparr>db_purging := False\<rparr>)"
| "exec_stmt (PurgeQuads pat) db = apply_ops (map Remove (filter (matches pat) (db_quads db))) db"
| "exec_stmt (PurgeLog pat) db = log_delete (\<lambda>(q, tx, op). matches pat q) db"
| "exec_stmt _ db = Some db"

fun exec_all :: "vstmt list \<Rightarrow> vdb \<Rightarrow> vdb option" where
  "exec_all [] db = Some db"
| "exec_all (s # ss) db = Option.bind (exec_stmt s db) (exec_all ss)"

section \<open>What a store does\<close>

datatype action =
    Write "quad_op list"
  | SetLevel versioning level_change
  | PurgeAll pattern "string option" "string option"

text \<open>A write opens its tick first when the level asks for one (see \<^verbatim>\<open>prepare\<close>). A level change that is refused changes nothing.\<close>

fun act :: "action \<Rightarrow> vdb \<Rightarrow> vdb option" where
  "act (Write ops) db =
     apply_ops ops (if versioning_rank (vs_level (db_state db)) \<ge> versioning_rank Stamped then open_tick WRITE db else db)"
| "act (SetLevel to ch) db =
     (case change_statements (db_state db) to ch of Inl e \<Rightarrow> Some db | Inr ss \<Rightarrow> exec_all ss db)"
| "act (PurgeAll pat author reason) db = exec_all (purge_request (db_state db) pat author reason) db"

section \<open>Version references\<close>

text \<open>The boundary at or before a tick, and whether the tick lies inside the recorded history (\<^verbatim>\<open>ResolveJob\<close>).\<close>

definition is_boundary :: "tick_kind \<Rightarrow> bool" where
  "is_boundary k \<longleftrightarrow> k \<in> {GENESIS, FREEZE, RESUME, DROPPED}"

definition boundary :: "(int \<times> tick_kind) list \<Rightarrow> int \<Rightarrow> (int \<times> tick_kind) option" where
  "boundary ticks t =
     (let bs = filter (\<lambda>(b, k). is_boundary k \<and> b \<le> t) ticks
      in map_option (\<lambda>m. (m, the (map_of bs m))) (max_of (map fst bs)))"

definition in_history :: "(int \<times> tick_kind) option \<Rightarrow> int \<Rightarrow> bool" where
  "in_history b t = (case b of None \<Rightarrow> False | Some (b, k) \<Rightarrow> k = GENESIS \<or> k = RESUME \<or> (k = FREEZE \<and> t = b))"

definition resolves :: "vdb \<Rightarrow> int \<Rightarrow> bool" where
  "resolves db t \<longleftrightarrow> vs_history (db_state db) \<noteq> NoHistory \<and> t \<in> fst ` set (db_ticks db) \<and> in_history (boundary (db_ticks db) t) t"

section \<open>As-of tables\<close>

abbreviation as_of :: "'q log_row list \<Rightarrow> int \<Rightarrow> 'q set" where
  "as_of log t \<equiv> set (as_of_rows log t)"

lemma as_of_iff:
  "q \<in> as_of log t \<longleftrightarrow> (\<exists>tx \<le> t. (q, tx, True) \<in> set log \<and> (\<forall>tx' op. (q, tx', op) \<in> set log \<longrightarrow> tx' \<le> tx \<or> t < tx'))"
proof
  assume "q \<in> as_of log t"
  then obtain tx where tx: "(q, tx, True) \<in> set log" "tx \<le> t" "\<not> list_ex (\<lambda>(q', tx', _). q' = q \<and> tx' > tx \<and> tx' \<le> t) log"
    unfolding as_of_rows_def by auto
  have "tx' \<le> tx \<or> t < tx'" if "(q, tx', op) \<in> set log" for tx' op
    using tx(3) that by (force simp: list_ex_iff)
  with tx(1,2) show "\<exists>tx \<le> t. (q, tx, True) \<in> set log \<and> (\<forall>tx' op. (q, tx', op) \<in> set log \<longrightarrow> tx' \<le> tx \<or> t < tx')" by blast
next
  assume "\<exists>tx \<le> t. (q, tx, True) \<in> set log \<and> (\<forall>tx' op. (q, tx', op) \<in> set log \<longrightarrow> tx' \<le> tx \<or> t < tx')"
  then obtain tx where tx: "tx \<le> t" "(q, tx, True) \<in> set log" "\<And>tx' op. (q, tx', op) \<in> set log \<Longrightarrow> tx' \<le> tx \<or> t < tx'" by blast
  have "\<not> list_ex (\<lambda>(q', tx', _). q' = q \<and> tx' > tx \<and> tx' \<le> t) log"
    using tx(3) by (force simp: list_ex_iff)
  with tx(1,2) have "(q, tx, True) \<in> set (filter (\<lambda>(q, tx, op). tx \<le> t \<and> op \<and>
      \<not> list_ex (\<lambda>(q', tx', _). q' = q \<and> tx' > tx \<and> tx' \<le> t) log) log)" by simp
  then show "q \<in> as_of log t" unfolding as_of_rows_def set_map by (rule image_eqI [rotated]) simp
qed

lemma as_of_cong:
  "(\<And>q tx op. tx \<le> t \<Longrightarrow> (q, tx, op) \<in> set log \<longleftrightarrow> (q, tx, op) \<in> set log') \<Longrightarrow> as_of log t = as_of log' t"
proof (rule set_eqI)
  fix q :: 'a
  assume eq: "\<And>q tx op. tx \<le> t \<Longrightarrow> (q, tx, op) \<in> set log \<longleftrightarrow> (q, tx, op) \<in> set log'"
  have half: "q \<in> as_of l' t" if same: "\<And>q tx op. tx \<le> t \<Longrightarrow> (q, tx, op) \<in> set l \<longleftrightarrow> (q, tx, op) \<in> set l'" and q: "q \<in> as_of l t" for l l'
  proof -
    obtain tx where tx: "tx \<le> t" "(q, tx, True) \<in> set l" "\<And>tx' op. (q, tx', op) \<in> set l \<Longrightarrow> tx' \<le> tx \<or> t < tx'"
      using q by (auto simp: as_of_iff)
    have "tx' \<le> tx \<or> t < tx'" if "(q, tx', op) \<in> set l'" for tx' op
      using tx(3) [of tx' op] same [of tx' q op] that by linarith
    with tx(1,2) same [of tx q True] show ?thesis unfolding as_of_iff by blast
  qed
  show "q \<in> as_of log t \<longleftrightarrow> q \<in> as_of log' t"
    using half [of log log'] half [of log' log] eq by blast
qed

lemma as_of_step:
  "as_of log c = {q. (q, c, True) \<in> set log} \<union> {q \<in> as_of log (c - 1). \<forall>op. (q, c, op) \<notin> set log}"
proof (intro set_eqI iffI)
  fix q assume "q \<in> as_of log c"
  then obtain tx where tx: "tx \<le> c" "(q, tx, True) \<in> set log" "\<And>tx' op. (q, tx', op) \<in> set log \<Longrightarrow> tx' \<le> tx \<or> c < tx'"
    by (auto simp: as_of_iff)
  show "q \<in> {q. (q, c, True) \<in> set log} \<union> {q \<in> as_of log (c - 1). \<forall>op. (q, c, op) \<notin> set log}"
  proof (cases "tx = c")
    case False
    with tx(1) have "tx \<le> c - 1" by simp
    with tx(2,3) False show ?thesis by (fastforce simp: as_of_iff)
  qed (use tx in simp)
next
  fix q assume "q \<in> {q. (q, c, True) \<in> set log} \<union> {q \<in> as_of log (c - 1). \<forall>op. (q, c, op) \<notin> set log}"
  then show "q \<in> as_of log c"
  proof
    assume "q \<in> {q \<in> as_of log (c - 1). \<forall>op. (q, c, op) \<notin> set log}"
    then obtain tx where tx: "tx \<le> c - 1" "(q, tx, True) \<in> set log" "\<And>tx' op. (q, tx', op) \<in> set log \<Longrightarrow> tx' \<le> tx \<or> c - 1 < tx'"
      and no: "\<And>op. (q, c, op) \<notin> set log" by (auto simp: as_of_iff)
    have "tx' \<le> tx \<or> c < tx'" if "(q, tx', op) \<in> set log" for tx' op
      using tx(3) [OF that] no [of op] that by (cases "tx' = c") auto
    with tx(1,2) show ?thesis by (auto simp: as_of_iff intro!: exI [of _ tx])
  qed (auto simp: as_of_iff)
qed

lemma as_of_no_rows: "(\<And>q op. (q, c, op) \<notin> set log) \<Longrightarrow> as_of log c = as_of log (c - 1)"
  by (subst as_of_step) simp

lemma as_of_filter: "as_of (filter (\<lambda>(q, tx, op). \<not> P q) log) t = {q \<in> as_of log t. \<not> P q}"
  unfolding set_eq_iff by (auto simp: as_of_iff)

lemma log_insert_fresh:
  "(\<And>q tx op. (q, tx, op) \<in> set rows \<Longrightarrow> \<forall>op'. (q, tx, op') \<notin> set log) \<Longrightarrow> distinct (map (\<lambda>(q, tx, op). (q, tx)) rows) \<Longrightarrow>
     log_insert rows log = Some (log @ rows)"
proof (induction rows log rule: log_insert.induct)
  case (2 q tx op rows log)
  have "\<not> list_ex (\<lambda>(q', tx', _). q' = q \<and> tx' = tx) log"
    using 2(2) [of q tx op] by (auto simp: list_ex_iff)
  moreover have "log_insert rows (log @ [(q, tx, op)]) = Some ((log @ [(q, tx, op)]) @ rows)"
  proof (rule 2(1) [OF calculation])
    fix q' tx' op' assume m: "(q', tx', op') \<in> set rows"
    with 2(3) have "(q', tx') \<noteq> (q, tx)" by force
    with 2(2) [of q' tx' op'] m show "\<forall>op''. (q', tx', op'') \<notin> set (log @ [(q, tx, op)])" by auto
  qed (use 2(3) in simp)
  ultimately show ?case by simp
qed simp

section \<open>Ticks and boundaries\<close>

definition ticks_ok :: "(int \<times> tick_kind) list \<Rightarrow> bool" where
  "ticks_ok ts \<longleftrightarrow> map fst ts = [1..int (length ts)]"

abbreviation head :: "vdb \<Rightarrow> int" where
  "head db \<equiv> int (length (db_ticks db))"

lemma ticks_ok_Nil [simp]: "ticks_ok []"
  by (simp add: ticks_ok_def)

lemma ticks_ok_snoc [simp]: "ticks_ok (ts @ [(t, k)]) \<longleftrightarrow> ticks_ok ts \<and> t = int (length ts) + 1"
  by (auto simp: ticks_ok_def upto_rec2 [of 1 "1 + int (length ts)"])

lemma ticks_ok_mem: "ticks_ok ts \<Longrightarrow> (t, k) \<in> set ts \<Longrightarrow> 1 \<le> t \<and> t \<le> int (length ts)"
proof -
  assume "ticks_ok ts" "(t, k) \<in> set ts"
  then have "t \<in> set (map fst ts)" by force
  with \<open>ticks_ok ts\<close> show ?thesis by (simp add: ticks_ok_def)
qed

lemma ticks_ok_unique: "ticks_ok ts \<Longrightarrow> (t, k) \<in> set ts \<Longrightarrow> (t, k') \<in> set ts \<Longrightarrow> k = k'"
  by (metis eq_key_imp_eq_value distinct_upto ticks_ok_def)

lemma ticks_ok_dom: "ticks_ok ts \<Longrightarrow> fst ` set ts = {1..int (length ts)}"
  by (metis set_map set_upto ticks_ok_def)

lemma max_of_ok: "ticks_ok ts \<Longrightarrow> max_of (map fst ts) = (if ts = [] then None else Some (int (length ts)))"
proof (induction ts rule: rev_induct)
  case (snoc x ts)
  obtain t k where x: "x = (t, k)" by force
  with snoc.prems have t: "t = int (length ts) + 1" and ok: "ticks_ok ts" by auto
  have "set (map fst (ts @ [x])) = {1..t}"
    using ticks_ok_dom [OF snoc.prems] x t by simp
  moreover have "Max {1..t} = t" using t by (intro Max_eqI) auto
  ultimately have "Max (set (map fst (ts @ [x]))) = t" by (simp only:)
  then show ?case using t by (simp add: max_of_def del: set_map)
qed (simp add: max_of_def)

lemma open_tick_ok:
  "ticks_ok (db_ticks db) \<Longrightarrow> open_tick k db = db\<lparr>db_ticks := db_ticks db @ [(head db + 1, k)]\<rparr>"
  by (simp add: open_tick_def current_tick_def max_of_ok)

lemma boundary_Nil [simp]: "boundary [] t = None"
  by (simp add: boundary_def max_of_def)

lemma boundary_before [simp]: "ticks_ok (ts @ [(c, k)]) \<Longrightarrow> t < c \<Longrightarrow> boundary (ts @ [(c, k)]) t = boundary ts t"
  by (simp add: boundary_def)

lemma boundary_new:
  assumes "ticks_ok (ts @ [(c, k)])"
  shows "boundary (ts @ [(c, k)]) c = (if is_boundary k then Some (c, k) else boundary ts (c - 1))"
proof -
  from assms have c: "c = int (length ts) + 1" and ok: "ticks_ok ts" by auto
  let ?bs = "\<lambda>t. filter (\<lambda>(b, k). is_boundary k \<and> b \<le> t) ts"
  have eq: "?bs c = ?bs (c - 1)"
    using ticks_ok_mem [OF ok] c by (intro filter_cong) force+
  show ?thesis
  proof (cases "is_boundary k")
    case k: True
    have le: "b < c" if "(b, k) \<in> set ts" for b k using ticks_ok_mem [OF ok that] c by simp
    have m: "max_of (map fst (?bs c @ [(c, k)])) = Some c"
      unfolding max_of_def by (auto intro!: Max_eqI dest: le)
    have "map_of (?bs c @ [(c, k)]) c = Some k"
      using le by (auto simp: map_add_def map_of_eq_None_iff split: option.splits) (fastforce dest: map_of_SomeD)
    with k m show ?thesis by (simp add: boundary_def Let_def del: map_append map_of_append)
  next
    case False
    then have "filter (\<lambda>(b, k). is_boundary k \<and> b \<le> c) (ts @ [(c, k)]) = ?bs (c - 1)"
      by (simp only: filter_append eq) simp
    with False show ?thesis unfolding boundary_def Let_def by (simp only: if_False)
  qed
qed

lemma boundary_mem:
  assumes "boundary ts t = Some (b, k)" shows "(b, k) \<in> set ts \<and> b \<le> t \<and> is_boundary k"
proof -
  define bs where "bs = filter (\<lambda>(b, k). is_boundary k \<and> b \<le> t) ts"
  from assms have m: "max_of (map fst bs) = Some b" "k = the (map_of bs b)" by (auto simp: boundary_def bs_def Let_def)
  then have "b \<in> fst ` set bs" by (auto simp: max_of_def split: if_splits dest!: Max_in [rotated, of "fst ` set bs"])
  then obtain k' where "map_of bs b = Some k'" by (metis map_of_eq_None_iff not_None_eq)
  with m(2) have "(b, k) \<in> set bs" by (auto dest: map_of_SomeD)
  then show ?thesis by (auto simp: bs_def)
qed

text \<open>The ticks of the recorded history that is still there.\<close>

definition recorded :: "(int \<times> tick_kind) list \<Rightarrow> int \<Rightarrow> bool" where
  "recorded ts t \<longleftrightarrow> 1 \<le> t \<and> t \<le> int (length ts) \<and> in_history (boundary ts t) t \<and> (\<forall>d. (d, DROPPED) \<in> set ts \<longrightarrow> d < t)"

lemma recorded_before:
  "ticks_ok (ts @ [(c, k)]) \<Longrightarrow> t < c \<Longrightarrow> recorded (ts @ [(c, k)]) t \<longleftrightarrow> recorded ts t \<and> k \<noteq> DROPPED"
  by (auto simp: recorded_def)

lemma recorded_new:
  assumes "ticks_ok (ts @ [(c, k)])"
  shows "recorded (ts @ [(c, k)]) c \<longleftrightarrow> k \<noteq> DROPPED \<and> (k \<in> {GENESIS, FREEZE, RESUME} \<or>
     (\<exists>b k'. boundary ts (c - 1) = Some (b, k') \<and> (k' = GENESIS \<or> k' = RESUME)))"
proof -
  from assms have ok: "ticks_ok ts" and c: "c = int (length ts) + 1" by auto
  have lt: "d < c" if "(d, k') \<in> set ts" for d k' using ticks_ok_mem [OF ok that] c by simp
  have nf: "b \<noteq> c" if "boundary ts (c - 1) = Some (b, k')" for b k' using boundary_mem [OF that] by simp
  have d: "(\<forall>d. (d, DROPPED) \<in> set (ts @ [(c, k)]) \<longrightarrow> d < c) \<longleftrightarrow> k \<noteq> DROPPED"
    using lt by auto
  have h: "in_history (boundary (ts @ [(c, k)]) c) c \<longleftrightarrow> (if is_boundary k then k \<noteq> DROPPED
      else \<exists>b k'. boundary ts (c - 1) = Some (b, k') \<and> (k' = GENESIS \<or> k' = RESUME))"
    unfolding boundary_new [OF assms] using nf by (auto simp: in_history_def is_boundary_def split: option.splits)
  show ?thesis unfolding recorded_def d h using c by (cases k) (auto simp: is_boundary_def)
qed

section \<open>The invariant of a versioned store\<close>

declare split_paired_All [simp del] split_paired_Ex [simp del]

text \<open>
  \<open>sn t\<close> is what the store held at the end of the action that opened tick \<open>t\<close>. The clock counts from 1; while the log is
  live the newest version is the store itself and each row of the current tick is an effective change; a frozen log has
  no row after its freeze; and every recorded version is what the store held then.
\<close>

definition rows_le :: "'q log_row list \<Rightarrow> int \<Rightarrow> bool" where
  "rows_le log n \<longleftrightarrow> (\<forall>r \<in> set log. fst (snd r) \<le> n)"

lemma rows_le_Nil [simp]: "rows_le [] n"
  by (simp add: rows_le_def)

lemma rows_leD: "rows_le log n \<Longrightarrow> (q, tx, op) \<in> set log \<Longrightarrow> tx \<le> n"
  by (auto simp: rows_le_def)

lemma rows_le_mono: "rows_le log n \<Longrightarrow> n \<le> m \<Longrightarrow> rows_le log m"
  by (force simp: rows_le_def)

text \<open>The primary key of the log.\<close>

definition keys_ok :: "'q log_row list \<Rightarrow> bool" where
  "keys_ok log \<longleftrightarrow> distinct (map (\<lambda>(q, tx, op). (q, tx)) log)"

lemma keys_ok_Nil [simp]: "keys_ok []"
  by (simp add: keys_ok_def)

lemma keys_ok_append:
  "keys_ok log \<Longrightarrow> keys_ok rows \<Longrightarrow> (\<And>q tx op op'. (q, tx, op) \<in> set rows \<Longrightarrow> (q, tx, op') \<notin> set log) \<Longrightarrow> keys_ok (log @ rows)"
  by (fastforce simp: keys_ok_def)

lemma keys_ok_filter: "keys_ok log \<Longrightarrow> keys_ok (filter P log)"
  by (simp add: keys_ok_def distinct_map_filter)

lemma keys_ok_tick: "distinct qs \<Longrightarrow> keys_ok (map (\<lambda>q. (q, c, op)) qs)"
  by (simp add: keys_ok_def distinct_map inj_on_def comp_def)

lemma distinct_as_of_rows:
  assumes "keys_ok log" shows "distinct (as_of_rows log t)"
proof -
  let ?P = "\<lambda>(q, tx, op). tx \<le> t \<and> op \<and> \<not> list_ex (\<lambda>(q', tx', _). q' = q \<and> tx' > tx \<and> tx' \<le> t) log"
  have inj: "inj_on fst (set (filter ?P log))"
  proof (rule inj_onI)
    fix x y assume x: "x \<in> set (filter ?P log)" and y: "y \<in> set (filter ?P log)" and eq: "fst x = fst y"
    obtain q tx op where xe: "x = (q, tx, op)" by (cases x)
    obtain ty op' where ye: "y = (q, ty, op')" using eq xe by (cases y) auto
    have "tx = ty" using x y xe ye by (fastforce simp: list_ex_iff)
    with x y xe ye show "x = y" by auto
  qed
  have "distinct log" using assms by (auto simp: keys_ok_def distinct_map)
  with inj show ?thesis by (simp add: as_of_rows_def distinct_map)
qed

text \<open>Every row of the tick is an effective change: it adds what was not there or removes what was.\<close>

definition effective :: "'q log_row list \<Rightarrow> int \<Rightarrow> bool" where
  "effective log c \<longleftrightarrow> (\<forall>q op. (q, c, op) \<in> set log \<longrightarrow> (q \<in> as_of log (c - 1)) = (\<not> op))"

definition state_ok :: "vdb \<Rightarrow> bool" where
  "state_ok db \<longleftrightarrow> distinct (db_quads db) \<and> \<not> db_purging db \<and> (db_capture db \<longleftrightarrow> vs_level (db_state db) = Log) \<and>
     (vs_history (db_state db) = Live \<longleftrightarrow> vs_level (db_state db) = Log) \<and> (vs_history (db_state db) = NoHistory \<longrightarrow> db_log db = [])"

definition clock_ok :: "vdb \<Rightarrow> bool" where
  "clock_ok db \<longleftrightarrow> ticks_ok (db_ticks db) \<and> keys_ok (db_log db) \<and> rows_le (db_log db) (head db) \<and>
     (case vs_history (db_state db) of
        Live \<Rightarrow> (\<exists>b k. boundary (db_ticks db) (head db) = Some (b, k) \<and> (k = GENESIS \<or> k = RESUME))
      | Frozen \<Rightarrow> (\<exists>f. boundary (db_ticks db) (head db) = Some (f, FREEZE) \<and> rows_le (db_log db) f)
      | NoHistory \<Rightarrow> (\<forall>t. \<not> recorded (db_ticks db) t) \<and> (\<forall>b k. boundary (db_ticks db) (head db) = Some (b, k) \<longrightarrow> k = DROPPED))"

definition log_ok :: "vdb \<Rightarrow> bool" where
  "log_ok db \<longleftrightarrow> (vs_history (db_state db) = Live \<longrightarrow> as_of (db_log db) (head db) = set (db_quads db) \<and> effective (db_log db) (head db))"

definition versions_ok :: "vdb \<Rightarrow> (int \<Rightarrow> quad_ids set) \<Rightarrow> bool" where
  "versions_ok db sn \<longleftrightarrow> (vs_history (db_state db) \<noteq> NoHistory \<longrightarrow>
     (\<forall>t. recorded (db_ticks db) t \<longrightarrow> as_of (db_log db) t = sn t))"

definition vinv :: "vdb \<Rightarrow> (int \<Rightarrow> quad_ids set) \<Rightarrow> bool" where
  "vinv db sn \<longleftrightarrow> state_ok db \<and> clock_ok db \<and> log_ok db \<and> versions_ok db sn"

lemmas vinv_defs = vinv_def state_ok_def clock_ok_def log_ok_def versions_ok_def

lemma vinv_empty: "vinv empty_db sn"
  by (simp add: vinv_defs empty_db_def version_state_default_def recorded_def keys_ok_def)

lemma vinv_cong: "(\<And>t. t \<in> fst ` set (db_ticks db) \<Longrightarrow> sn t = sn' t) \<Longrightarrow> vinv db sn \<Longrightarrow> vinv db sn'"
proof -
  assume eq: "\<And>t. t \<in> fst ` set (db_ticks db) \<Longrightarrow> sn t = sn' t" and inv: "vinv db sn"
  have ok: "ticks_ok (db_ticks db)" using inv by (simp add: vinv_defs)
  have "recorded (db_ticks db) t \<Longrightarrow> sn t = sn' t" for t
    using eq [of t] ticks_ok_dom [OF ok] by (simp add: recorded_def)
  with inv show ?thesis by (simp add: vinv_def versions_ok_def)
qed

lemma no_rows_after: "clock_ok db \<Longrightarrow> head db < t \<Longrightarrow> (q, t, op) \<notin> set (db_log db)"
  by (auto simp: clock_ok_def dest: rows_leD)

text \<open>Opening a tick that is no boundary.\<close>

lemma vinv_open_tick:
  assumes inv: "vinv db sn" and k: "\<not> is_boundary k"
  shows "vinv (open_tick k db) (sn(head db + 1 := set (db_quads db)))"
proof -
  let ?c = "head db + 1" and ?ts = "db_ticks db" and ?log = "db_log db"
  from inv have ok: "ticks_ok ?ts" and st: "state_ok db" and ck: "clock_ok db" by (simp_all add: vinv_defs)
  have db': "open_tick k db = db\<lparr>db_ticks := ?ts @ [(?c, k)]\<rparr>" by (rule open_tick_ok [OF ok])
  have ok': "ticks_ok (?ts @ [(?c, k)])" using ok by simp
  have b: "boundary (?ts @ [(?c, k)]) ?c = boundary ?ts (head db)" using boundary_new [OF ok'] k by simp
  have kd: "k \<noteq> DROPPED" "k \<noteq> GENESIS" "k \<noteq> RESUME" "k \<noteq> FREEZE" using k by (auto simp: is_boundary_def)
  have top: "as_of ?log ?c = as_of ?log (head db)"
    using as_of_no_rows [of ?c ?log] no_rows_after [OF ck] by simp
  have rec_old: "recorded (?ts @ [(?c, k)]) t \<longleftrightarrow> recorded ?ts t" if "t \<noteq> ?c" for t
    using recorded_before [OF ok', of t] that kd by (cases "t < ?c") (auto simp: recorded_def)
  have rec_new: "recorded (?ts @ [(?c, k)]) ?c \<longleftrightarrow> (\<exists>b k'. boundary ?ts (head db) = Some (b, k') \<and> (k' = GENESIS \<or> k' = RESUME))"
    using recorded_new [OF ok'] kd by simp
  have none: "\<not> recorded (?ts @ [(?c, k)]) t" if "vs_history (db_state db) = NoHistory" for t
  proof (cases "t = ?c")
    case True
    have "\<not> (\<exists>b k'. boundary ?ts (head db) = Some (b, k') \<and> (k' = GENESIS \<or> k' = RESUME))"
      using ck that by (auto simp: clock_ok_def)
    with True rec_new show ?thesis by simp
  qed (use rec_old ck that in \<open>simp add: clock_ok_def\<close>)
  let ?db = "db\<lparr>db_ticks := ?ts @ [(?c, k)]\<rparr>"
  have head': "head ?db = ?c" by simp
  have "clock_ok ?db"
    unfolding clock_ok_def head' using ck ok' b none
    by (cases "vs_history (db_state db)") (auto simp: clock_ok_def intro: rows_le_mono)
  moreover have "log_ok ?db"
    unfolding log_ok_def head' using inv top no_rows_after [OF ck] by (simp add: vinv_def log_ok_def effective_def)
  moreover have "versions_ok ?db (sn(?c := set (db_quads db)))"
    unfolding versions_ok_def
  proof (intro impI allI)
    fix t assume h: "vs_history (db_state ?db) \<noteq> NoHistory" and r: "recorded (db_ticks ?db) t"
    show "as_of (db_log ?db) t = (sn(?c := set (db_quads db))) t"
    proof (cases "t = ?c")
      case True
      with r rec_new obtain b k' where "boundary ?ts (head db) = Some (b, k')" "k' = GENESIS \<or> k' = RESUME" by auto
      then have "vs_history (db_state db) = Live" using ck h by (auto simp: clock_ok_def split: history.splits)
      with True top inv show ?thesis by (simp add: vinv_def log_ok_def)
    next
      case False
      with r h rec_old inv show ?thesis by (simp add: vinv_def versions_ok_def)
    qed
  qed
  ultimately show ?thesis using st unfolding db' vinv_def by (simp add: state_ok_def)
qed

text \<open>What a capture trigger does to the log.\<close>

definition captured :: "bool \<Rightarrow> 'q \<Rightarrow> int \<Rightarrow> 'q log_row list \<Rightarrow> 'q log_row list" where
  "captured op q c log = (if (q, c, \<not> op) \<in> set log then filter (\<lambda>r. r \<noteq> (q, c, \<not> op)) log else log @ [(q, c, op)])"

lemma captured_mem:
  assumes "(q, c, op) \<notin> set log"
  shows "(x, tx, b) \<in> set (captured op q c log) \<longleftrightarrow>
    (if x = q \<and> tx = c then b = op \<and> (q, c, \<not> op) \<notin> set log else (x, tx, b) \<in> set log)"
  using assms by (cases op; cases b) (auto simp: captured_def)

lemma captured_as_of:
  assumes eff: "effective log c" and q: "(q \<in> as_of log c) = (\<not> op)"
  shows captured_new: "(q, c, op) \<notin> set log"
    and captured_before: "t < c \<Longrightarrow> as_of (captured op q c log) t = as_of log t"
    and captured_now: "as_of (captured op q c log) c = (if op then insert q (as_of log c) else as_of log c - {q})"
    and captured_effective: "effective (captured op q c log) c"
proof -
  show new: "(q, c, op) \<notin> set log"
    using q eff by (cases op) (auto simp: as_of_step [of log c] effective_def)
  note mem = captured_mem [OF new]
  show before: "as_of (captured op q c log) t = as_of log t" if "t < c" for t
    by (rule as_of_cong) (use that in \<open>simp add: mem\<close>)
  have prev: "as_of (captured op q c log) (c - 1) = as_of log (c - 1)" by (rule before) simp
  have undo: "(q, c, \<not> op) \<in> set log \<Longrightarrow> (q \<in> as_of log (c - 1)) = op"
    using eff by (simp add: effective_def)
  have fresh: "(q, c, \<not> op) \<notin> set log \<Longrightarrow> (q \<in> as_of log (c - 1)) = (\<not> op)"
  proof -
    assume "(q, c, \<not> op) \<notin> set log"
    with new have "(q, c, b) \<notin> set log" for b by (cases b; cases op) auto
    with q show ?thesis by (auto simp: as_of_step [of log c])
  qed
  show "as_of (captured op q c log) c = (if op then insert q (as_of log c) else as_of log c - {q})"
  proof (rule set_eqI)
    fix x
    show "x \<in> as_of (captured op q c log) c \<longleftrightarrow> x \<in> (if op then insert q (as_of log c) else as_of log c - {q})"
    proof (cases "x = q")
      case True
      with undo fresh show ?thesis
        unfolding as_of_step [of "captured op q c log" c] prev by (auto simp: mem)
    next
      case False
      then have "x \<in> as_of (captured op q c log) c \<longleftrightarrow> x \<in> as_of log c"
        by (auto simp: as_of_step [of "captured op q c log" c] as_of_step [of log c] prev mem)
      with False show ?thesis by auto
    qed
  qed
  show "effective (captured op q c log) c"
    using eff fresh by (auto simp: effective_def prev mem split: if_splits)
qed

lemma captured_rows_le: "rows_le log n \<Longrightarrow> c \<le> n \<Longrightarrow> rows_le (captured op q c log) n"
  by (auto simp: captured_def rows_le_def)

lemma captured_keys:
  assumes "keys_ok log" "(q, c, op) \<notin> set log" shows "keys_ok (captured op q c log)"
proof (cases "(q, c, \<not> op) \<in> set log")
  case False
  with assms(2) have "(q, c, b) \<notin> set log" for b by (cases b; cases op) auto
  with False assms(1) show ?thesis by (auto simp: captured_def keys_ok_def)
qed (use assms in \<open>simp add: captured_def keys_ok_filter\<close>)

lemma capture_eq:
  assumes "\<not> db_purging db" "current_tick db = Some c" "(q, c, op) \<notin> set (db_log db)"
  shows "capture op q db = Some (db\<lparr>db_log := captured op q c (db_log db), db_commits := push_new c (db_commits db)\<rparr>)"
proof (cases "(q, c, \<not> op) \<in> set (db_log db)")
  case True
  have "log_delete (\<lambda>r. r = (q, c, \<not> op)) db = Some (db\<lparr>db_log := filter (\<lambda>r. r \<noteq> (q, c, \<not> op)) (db_log db)\<rparr>)"
    using assms by (auto simp: log_delete_def list_ex_iff)
  with True assms show ?thesis
    by (simp add: capture_def captured_def mark_commit_def current_tick_def)
next
  case False
  let ?db = "db\<lparr>db_log := db_log db @ [(q, c, op)]\<rparr>"
  have "(q, c, b) \<notin> set (db_log db)" for b using assms(3) False by (cases b; cases op) auto
  then have ins: "log_rows (\<lambda>c. [(q, c, op)]) db = Some ?db"
    using assms(2) by (auto simp: log_rows_def list_ex_iff)
  have id: "filter (\<lambda>r. r \<noteq> (q, c, \<not> op)) (db_log db) = db_log db"
    using False by (auto simp: filter_id_conv)
  have "log_delete (\<lambda>r. r = (q, c, \<not> op)) ?db = Some ?db"
    using assms False id by (auto simp: log_delete_def list_ex_iff)
  with False ins assms show ?thesis
    by (simp add: capture_def captured_def mark_commit_def current_tick_def)
qed

section \<open>Writes keep the invariant\<close>

lemma vinv_facts:
  assumes "vinv db sn"
  shows "ticks_ok (db_ticks db)" "state_ok db" "clock_ok db" "log_ok db" "versions_ok db sn" "rows_le (db_log db) (head db)"
    "keys_ok (db_log db)" "distinct (db_quads db)"
  using assms by (simp_all add: vinv_def clock_ok_def state_ok_def)

lemma live_head:
  assumes "vinv db sn" "vs_history (db_state db) = Live"
  shows "current_tick db = Some (head db)" "db_capture db" "\<not> db_purging db" "vs_level (db_state db) = Log"
proof -
  from assms have "db_ticks db \<noteq> []" by (auto simp: vinv_defs)
  then show "current_tick db = Some (head db)"
    using max_of_ok [OF vinv_facts(1) [OF assms(1)]] by (simp add: current_tick_def)
qed (use assms in \<open>simp_all add: vinv_defs\<close>)

lemma vinv_unrecorded: "vinv db sn \<Longrightarrow> \<not> recorded (db_ticks db) t \<Longrightarrow> vinv db (sn(t := X))"
  by (auto simp: vinv_def versions_ok_def)

text \<open>A change of the store that a trigger captured at the current tick.\<close>

lemma vinv_captured:
  fixes db :: vdb
  assumes inv: "vinv db (sn(head db := set (db_quads db)))" and live: "vs_history (db_state db) = Live"
    and q: "(q \<in> set (db_quads db)) = (\<not> op)" and qs: "set qs = (if op then insert q (set (db_quads db)) else set (db_quads db) - {q})" "distinct qs"
  defines "db1 \<equiv> db\<lparr>db_quads := qs\<rparr>"
  defines "db' \<equiv> db1\<lparr>db_log := captured op q (head db) (db_log db), db_commits := push_new (head db) (db_commits db)\<rparr>"
  shows "capture op q db1 = Some db'" "vinv db' (sn(head db := set qs))"
proof -
  note f = vinv_facts [OF inv] and l = live_head [OF inv live]
  from f(4) live have now: "as_of (db_log db) (head db) = set (db_quads db)" and eff: "effective (db_log db) (head db)"
    by (simp_all add: log_ok_def)
  note cap = captured_as_of [OF eff, of q op, unfolded now, OF q]
  show "capture op q db1 = Some db'"
    using l capture_eq [of db1 "head db" q op] cap(1) by (simp add: db1_def db'_def current_tick_def)
  have "state_ok db'" using f(2) live qs(2) by (simp add: state_ok_def db'_def db1_def)
  moreover have "clock_ok db'"
    using f(3) live captured_rows_le [OF f(6) order_refl, of op q] captured_keys [OF f(7) cap(1)] by (simp add: clock_ok_def db'_def db1_def)
  moreover have "log_ok db'" using cap(3,4) qs by (simp add: log_ok_def db'_def db1_def)
  moreover have "versions_ok db' (sn(head db := set qs))"
    unfolding versions_ok_def
  proof (intro impI allI)
    fix t assume r: "recorded (db_ticks db') t"
    then have t: "t \<le> head db" by (simp add: recorded_def db'_def db1_def)
    show "as_of (db_log db') t = (sn(head db := set qs)) t"
    proof (cases "t = head db")
      case False
      with t r f(5) live show ?thesis by (auto simp: versions_ok_def db'_def db1_def cap(2))
    qed (use cap(3) qs in \<open>simp add: db'_def db1_def\<close>)
  qed
  ultimately show "vinv db' (sn(head db := set qs))" by (simp add: vinv_def)
qed

lemma apply_op_live:
  assumes inv: "vinv db (sn(head db := set (db_quads db)))" and live: "vs_history (db_state db) = Live"
  shows "\<exists>db'. apply_op x db = Some db' \<and> db_ticks db' = db_ticks db \<and> db_state db' = db_state db \<and>
    vinv db' (sn(head db := set (db_quads db')))"
proof (cases x)
  case (Add q)
  show ?thesis
  proof (cases "q \<in> set (db_quads db)")
    case False
    with vinv_captured [OF inv live, of q True "db_quads db @ [q]"] live_head [OF inv live] Add vinv_facts [OF inv]
    show ?thesis by simp
  qed (use Add inv in simp)
next
  case (Remove q)
  show ?thesis
  proof (cases "q \<in> set (db_quads db)")
    case True
    with vinv_captured [OF inv live, of q False "removeAll q (db_quads db)"] distinct_removeAll [of "db_quads db" q] live_head [OF inv live] Remove vinv_facts [OF inv]
    show ?thesis by simp
  qed (use Remove inv in simp)
qed

lemma apply_op_other:
  assumes "\<not> db_capture db \<or> db_purging db"
  shows "apply_op x db = Some (db\<lparr>db_quads := (case x of
     Add q \<Rightarrow> if q \<in> set (db_quads db) then db_quads db else db_quads db @ [q] | Remove q \<Rightarrow> removeAll q (db_quads db))\<rparr>)"
  using assms by (cases x) (auto simp: capture_def Let_def)

lemma apply_ops_other:
  "\<not> db_capture db \<or> db_purging db \<Longrightarrow> distinct (db_quads db) \<Longrightarrow> \<exists>qs. apply_ops xs db = Some (db\<lparr>db_quads := qs\<rparr>) \<and> distinct qs"
proof (induction xs arbitrary: db)
  case Nil
  then show ?case by (auto intro: exI [of _ "db_quads db"])
next
  case (Cons x xs)
  let ?qs = "case x of Add q \<Rightarrow> if q \<in> set (db_quads db) then db_quads db else db_quads db @ [q] | Remove q \<Rightarrow> removeAll q (db_quads db)"
  have "distinct ?qs" using Cons.prems(2) by (auto simp: distinct_removeAll split: quad_op.splits)
  with Cons.IH [of "db\<lparr>db_quads := ?qs\<rparr>"] Cons.prems(1) apply_op_other [OF Cons.prems(1), of x] show ?case by auto
qed

lemma apply_ops_live:
  "vinv db (sn(head db := set (db_quads db))) \<Longrightarrow> vs_history (db_state db) = Live \<Longrightarrow>
     \<exists>db'. apply_ops xs db = Some db' \<and> db_ticks db' = db_ticks db \<and> vinv db' (sn(head db := set (db_quads db')))"
proof (induction xs arbitrary: db)
  case (Cons x xs)
  from apply_op_live [OF Cons.prems, of x] obtain db1 where d: "apply_op x db = Some db1" "db_ticks db1 = db_ticks db"
    "db_state db1 = db_state db" "vinv db1 (sn(head db := set (db_quads db1)))" by blast
  from Cons.IH [of db1, unfolded d(2,3), OF d(4) Cons.prems(2)] d(1) show ?case by (simp del: fun_upd_apply)
qed auto

lemma vinv_quads: "vinv db sn \<Longrightarrow> vs_history (db_state db) \<noteq> Live \<Longrightarrow> distinct qs \<Longrightarrow> vinv (db\<lparr>db_quads := qs\<rparr>) sn"
  by (cases "vs_history (db_state db)") (simp_all add: vinv_defs)

text \<open>What the versions are after an action.\<close>

definition next_snaps :: "action \<Rightarrow> vdb \<Rightarrow> vdb \<Rightarrow> (int \<Rightarrow> quad_ids set) \<Rightarrow> int \<Rightarrow> quad_ids set" where
  "next_snaps a db db' sn t =
     (if t \<in> fst ` set (db_ticks db') \<and> t \<notin> fst ` set (db_ticks db) then set (db_quads db')
      else case a of PurgeAll pat _ _ \<Rightarrow> {q \<in> sn t. \<not> matches pat q} | _ \<Rightarrow> sn t)"

lemma act_write:
  assumes inv: "vinv db sn"
  shows "\<exists>db'. act (Write ops) db = Some db' \<and> vinv db' (next_snaps (Write ops) db db' sn)"
proof (cases "versioning_rank (vs_level (db_state db)) \<ge> versioning_rank Stamped")
  case True
  let ?db = "open_tick WRITE db"
  note f = vinv_facts [OF inv]
  have tk: "db_ticks ?db = db_ticks db @ [(head db + 1, WRITE)]" "db_quads ?db = db_quads db" "db_state ?db = db_state db"
    "db_capture ?db = db_capture db" by (simp_all add: open_tick_ok [OF f(1)])
  have inv1: "vinv ?db (sn(head ?db := set (db_quads ?db)))"
    using vinv_open_tick [OF inv, of WRITE] by (simp add: tk is_boundary_def add.commute)
  have new: "t \<in> fst ` set (db_ticks ?db) \<and> t \<notin> fst ` set (db_ticks db) \<longleftrightarrow> t = head db + 1" for t
    using ticks_ok_dom [OF f(1)] by (auto simp: tk)
  have snaps: "next_snaps (Write ops) db db' sn = sn(head ?db := set (db_quads db'))" if "db_ticks db' = db_ticks ?db" for db'
    using new that by (auto simp: next_snaps_def fun_eq_iff tk)
  show ?thesis
  proof (cases "vs_history (db_state db) = Live")
    case True
    with apply_ops_live [OF inv1, of ops] snaps tk \<open>_ \<ge> _\<close> show ?thesis by fastforce
  next
    case False
    obtain qs where qs: "apply_ops ops ?db = Some (?db\<lparr>db_quads := qs\<rparr>)" "distinct qs"
      using apply_ops_other [of ?db ops] f(2) False by (auto simp: tk state_ok_def)
    have "\<not> recorded (db_ticks ?db) (head db + 1)"
      using recorded_new [of "db_ticks db" "head db + 1" WRITE] f False by (auto simp: tk clock_ok_def split: history.splits)
    then have "vinv (?db\<lparr>db_quads := qs\<rparr>) (sn(head ?db := set qs))"
      using vinv_unrecorded [OF vinv_quads [OF inv1], of qs "head db + 1" "set qs"] False qs(2) by (simp add: tk add.commute)
    with qs snaps [of "?db\<lparr>db_quads := qs\<rparr>"] \<open>_ \<ge> _\<close> show ?thesis by simp
  qed
next
  case False
  then have off: "vs_level (db_state db) = Off" by (cases "vs_level (db_state db)") auto
  with inv obtain qs where qs: "apply_ops ops db = Some (db\<lparr>db_quads := qs\<rparr>)" "distinct qs"
    using apply_ops_other [of db ops] by (auto simp: vinv_def state_ok_def)
  have "vs_history (db_state db) \<noteq> Live" using inv off by (simp add: vinv_defs)
  moreover have "next_snaps (Write ops) db (db\<lparr>db_quads := qs\<rparr>) sn = sn" by (auto simp: next_snaps_def fun_eq_iff)
  ultimately show ?thesis using qs False vinv_quads [OF inv _ qs(2)] by simp
qed

section \<open>Level changes keep the invariant\<close>

lemma versioning_from_str_simps [simp]:
  "versioning_from_str ''off'' = Inr Off" "versioning_from_str ''stamped'' = Inr Stamped" "versioning_from_str ''log'' = Inr Log"
  by code_simp+

lemma vs_absorb_simps [simp]:
  "vs_absorb ''versioning'' ''off'' st = st\<lparr>vs_level := Off\<rparr>"
  "vs_absorb ''versioning'' ''stamped'' st = st\<lparr>vs_level := Stamped\<rparr>"
  "vs_absorb ''versioning'' ''log'' st = st\<lparr>vs_level := Log\<rparr>"
  "vs_absorb ''history'' ''none'' st = st\<lparr>vs_history := NoHistory\<rparr>"
  "vs_absorb ''history'' ''live'' st = st\<lparr>vs_history := Live\<rparr>"
  "vs_absorb ''history'' ''frozen'' st = st\<lparr>vs_history := Frozen\<rparr>"
  "vs_absorb ''stamp_column'' ''1'' st = st\<lparr>vs_stamp_column := True\<rparr>"
  "vs_absorb ''stamp_column'' ''0'' st = st\<lparr>vs_stamp_column := False\<rparr>"
  "vs_absorb ''stamp_index'' v st = st\<lparr>vs_stamp_index := (v = ''1'')\<rparr>"
  "vs_absorb ''as_of_index'' v st = st\<lparr>vs_as_of_index := (v = ''1'')\<rparr>"
  by (simp_all add: vs_absorb_def)

lemma exec_all_append: "exec_all (a @ b) db = Option.bind (exec_all a db) (exec_all b)"
proof (induction a arbitrary: db)
  case (Cons s a)
  then show ?case by (cases "exec_stmt s db") simp_all
qed simp

lemma vinv_state:
  assumes "vinv db sn" "vs_history st = vs_history (db_state db)" "(vs_level st = Log) = (vs_level (db_state db) = Log)"
  shows "vinv (db\<lparr>db_state := st\<rparr>) sn"
  using assms by (cases "vs_history (db_state db)") (simp_all add: vinv_defs)

lemma boundary_max:
  assumes "boundary ts t = Some (f, k)" "(b, k') \<in> set ts" "b \<le> t" "is_boundary k'" shows "b \<le> f"
proof -
  define bs where "bs = filter (\<lambda>(b, k). is_boundary k \<and> b \<le> t) ts"
  have "max_of (map fst bs) = Some f" using assms(1) by (auto simp: boundary_def bs_def Let_def)
  then have f: "f = Max (fst ` set bs)" by (simp add: max_of_def split: if_splits)
  have "b \<in> fst ` set bs" using assms(2-4) by (force simp: bs_def)
  then show ?thesis unfolding f by (intro Max_ge) simp_all
qed

lemma as_of_stable: "rows_le log f \<Longrightarrow> f \<le> t \<Longrightarrow> as_of log t = as_of log f"
  unfolding set_eq_iff as_of_iff by (metis (no_types, opaque_lifting) leD order.trans rows_leD)

text \<open>Opening a boundary tick, with the rows of that tick in the log.\<close>

lemma vinv_boundary:
  fixes db :: vdb and cs :: "int list"
  assumes inv: "vinv db sn" and k: "k = GENESIS \<and> vs_history (db_state db) = NoHistory \<or> k = RESUME \<and> vs_history (db_state db) = Frozen"
    and rows: "\<And>q tx op. (q, tx, op) \<in> set rows \<Longrightarrow> tx = head db + 1" "keys_ok rows"
    and now: "as_of (db_log db @ rows) (head db + 1) = set (db_quads db)"
    and eff: "effective (db_log db @ rows) (head db + 1)"
    and st: "vs_history st = Live" "vs_level st = Log"
  defines "db' \<equiv> db\<lparr>db_ticks := db_ticks db @ [(head db + 1, k)], db_log := db_log db @ rows, db_commits := cs, db_capture := True, db_state := st\<rparr>"
  shows "vinv db' (sn(head db + 1 := set (db_quads db)))"
proof -
  note f = vinv_facts [OF inv]
  have ok': "ticks_ok (db_ticks db @ [(head db + 1, k)])" using f(1) by simp
  have "is_boundary k" "k \<noteq> DROPPED" using k by (auto simp: is_boundary_def)
  have rows_fresh: "(q, tx, op') \<notin> set (db_log db)" if "(q, tx, op) \<in> set rows" for q tx op op'
    using rows(1) [OF that] no_rows_after [OF f(3)] by simp
  have "state_ok db'" using f(2) st by (simp add: state_ok_def db'_def)
  moreover have "clock_ok db'"
  proof -
    have "rows_le (db_log db @ rows) (head db + 1)"
      using rows_le_mono [OF f(6), of "head db + 1"] rows(1) by (force simp: rows_le_def)
    moreover have "keys_ok (db_log db @ rows)" by (rule keys_ok_append [OF f(7) rows(2) rows_fresh])
    ultimately show ?thesis
      using k st ok' boundary_new [OF ok'] \<open>is_boundary k\<close> by (auto simp: clock_ok_def db'_def add.commute)
  qed
  moreover have "log_ok db'" using now eff by (simp add: log_ok_def db'_def add.commute)
  moreover have "versions_ok db' (sn(head db + 1 := set (db_quads db)))"
    unfolding versions_ok_def
  proof (intro impI allI)
    fix t assume r: "recorded (db_ticks db') t"
    show "as_of (db_log db') t = (sn(head db + 1 := set (db_quads db))) t"
    proof (cases "t = head db + 1")
      case False
      with r have t: "t < head db + 1" by (simp add: recorded_def db'_def)
      with r have r': "recorded (db_ticks db) t" using recorded_before [OF ok'] by (simp add: db'_def)
      have "as_of (db_log db @ rows) t = as_of (db_log db) t"
        by (rule as_of_cong) (use rows(1) t in fastforce)
      moreover have "vs_history (db_state db) \<noteq> NoHistory" using r' f(3) by (auto simp: clock_ok_def)
      ultimately show ?thesis using r' f(5) False by (simp add: versions_ok_def db'_def)
    qed (use now in \<open>simp add: db'_def\<close>)
  qed
  ultimately show ?thesis by (simp add: vinv_def)
qed

text \<open>What the piece of a level change has to show.\<close>

definition piece_ok :: "vdb \<Rightarrow> (int \<Rightarrow> quad_ids set) \<Rightarrow> version_state \<Rightarrow> vstmt list \<Rightarrow> bool" where
  "piece_ok db sn st out \<longleftrightarrow> (\<exists>db' k. exec_all out db = Some db' \<and> db_state db' = st \<and> db_quads db' = db_quads db \<and>
     (db_ticks db' = db_ticks db @ [(head db + 1, k)] \<and> vinv db' (sn(head db + 1 := set (db_quads db))) \<or> db_ticks db' = [] \<and> vs_level st = Off \<and> vinv db' sn))"

lemma piece_tick:
  assumes inv: "vinv db sn" and k: "\<not> is_boundary k" and st: "vs_history st = vs_history (db_state db)" "(vs_level st = Log) = (vs_level (db_state db) = Log)"
    and ex: "exec_all out db = Some (open_tick k db\<lparr>db_state := st\<rparr>)"
  shows "piece_ok db sn st out"
proof -
  have "vinv (open_tick k db\<lparr>db_state := st\<rparr>) (sn(head db + 1 := set (db_quads db)))"
    by (rule vinv_state [OF vinv_open_tick [OF inv k]]) (use st in \<open>simp_all add: open_tick_def\<close>)
  with ex show ?thesis by (force simp: piece_ok_def open_tick_ok [OF vinv_facts(1) [OF inv]])
qed

lemma tick_now: "ticks_ok (db_ticks db) \<Longrightarrow> current_tick (open_tick k db) = Some (head db + 1)"
  using max_of_ok [of "db_ticks db @ [(head db + 1, k)]"] by (simp add: open_tick_ok current_tick_def add.commute)

lemma raise_piece:
  assumes inv: "vinv db sn" and lv: "vs_level (db_state db) \<noteq> Log" and r: "raise_level (db_state db) ch = (st, out)"
  shows "piece_ok db sn st out"
proof (cases "vs_level (db_state db)")
  case Off
  let ?st = "(db_state db)\<lparr>vs_level := Stamped, vs_stamp_column := True\<rparr>"
  have st: "st = ?st" and ex: "exec_all out db = Some (open_tick LEVEL db\<lparr>db_state := ?st\<rparr>)"
    using r Off by (auto simp: raise_level_def Let_def open_tick_def)
  show ?thesis by (rule piece_tick [OF inv, of LEVEL]) (use Off ex in \<open>simp_all add: st is_boundary_def\<close>)
next
  case Stamped
  note f = vinv_facts [OF inv]
  let ?c = "head db + 1"
  have hist: "vs_history (db_state db) = NoHistory \<or> vs_history (db_state db) = Frozen"
    using f(2) Stamped by (cases "vs_history (db_state db)") (auto simp: state_ok_def)
  let ?st = "(db_state db)\<lparr>vs_level := Log, vs_history := Live\<rparr>"
  let ?done = "\<lambda>k rows. db\<lparr>db_ticks := db_ticks db @ [(?c, k)], db_log := db_log db @ rows, db_commits := push_new ?c (db_commits db),
     db_capture := True, db_state := ?st\<rparr>"
  have st: "st = ?st" using r Stamped by (auto simp: raise_level_def Let_def)
  have no_rows: "(q, ?c, op) \<notin> set (db_log db)" for q op using no_rows_after [OF f(3)] by simp
  have "\<exists>k rows. exec_all out db = Some (?done k rows) \<and> vinv (?done k rows) (sn(?c := set (db_quads db)))"
  proof (cases "vs_history (db_state db) = Frozen")
    case False
    with hist have none: "vs_history (db_state db) = NoHistory" by simp
    let ?rows = "map (\<lambda>q. (q, ?c, True)) (db_quads db)"
    have log: "db_log db = []" using f(2) none by (simp add: state_ok_def)
    have keys: "keys_ok ?rows" using keys_ok_tick [OF f(8)] by simp
    have ins: "log_insert ?rows [] = Some ?rows"
      using log_insert_fresh [of ?rows "[]"] keys by (simp add: keys_ok_def)
    have "exec_all out db = Some (?done GENESIS ?rows)"
      using r Stamped none tick_now [OF f(1), of GENESIS] ins
      by (auto simp: raise_level_def Let_def log_rows_def mark_commit_def log open_tick_ok [OF f(1)] current_tick_def)
    moreover have "vinv (?done GENESIS ?rows) (sn(?c := set (db_quads db)))"
    proof (rule vinv_boundary [OF inv])
      have prev: "as_of (db_log db @ ?rows) (head db) = {}" by (auto simp: log as_of_rows_def filter_empty_conv)
      show "as_of (db_log db @ ?rows) ?c = set (db_quads db)" using prev by (subst as_of_step) (auto simp: log)
      show "effective (db_log db @ ?rows) ?c" using prev by (auto simp: log effective_def)
    qed (use none keys in auto)
    ultimately show ?thesis by blast
  next
    case True
    then obtain fr where fr: "boundary (db_ticks db) (head db) = Some (fr, FREEZE)" "rows_le (db_log db) fr"
      using f(3) by (auto simp: clock_ok_def)
    note bm = boundary_mem [OF fr(1)]
    let ?F = "as_of_rows (db_log db) fr"
    let ?R = "map (\<lambda>q. (q, ?c, False)) (filter (\<lambda>q. q \<notin> set (db_quads db)) ?F)"
    let ?A = "map (\<lambda>q. (q, ?c, True)) (filter (\<lambda>q. q \<notin> set ?F) (db_quads db))"
    have "Max (fst ` {x \<in> set (db_ticks db). snd x = FREEZE}) = fr"
      using bm boundary_max [OF fr(1)] ticks_ok_mem [OF f(1)] by (intro Max_eqI) (force simp: is_boundary_def)+
    then have fz: "max_of (map fst (filter (\<lambda>(t, k). k = FREEZE) (db_ticks db @ [(?c, RESUME)]))) = Some fr"
      using bm by (auto simp: max_of_def split_beta filter_empty_conv intro!: bexI [of _ "(fr, FREEZE)"])
    have fq: "frozen_quads (db\<lparr>db_ticks := db_ticks db @ [(?c, RESUME)], db_log := log\<rparr>) = as_of_rows log fr" for log
      unfolding frozen_quads_def using fz by simp
    have F': "set (as_of_rows (db_log db @ ?R) fr) = set ?F"
      by (rule as_of_cong) (use bm in auto)
    have keys: "keys_ok ?R" "keys_ok ?A" using f(7,8) by (simp_all add: keys_ok_tick distinct_as_of_rows)
    have keys2: "keys_ok (?R @ ?A)" by (rule keys_ok_append [OF keys]) auto
    have ins1: "log_insert ?R (db_log db) = Some (db_log db @ ?R)"
      by (rule log_insert_fresh) (use no_rows keys in \<open>auto simp: keys_ok_def\<close>)
    have "log_insert ?A (db_log db @ ?R) = Some ((db_log db @ ?R) @ ?A)"
      by (rule log_insert_fresh) (use no_rows keys in \<open>auto simp: keys_ok_def\<close>)
    then have ins2: "log_insert ?A (db_log db @ ?R) = Some (db_log db @ ?R @ ?A)" by simp
    let ?db1 = "db\<lparr>db_ticks := db_ticks db @ [(?c, RESUME)]\<rparr>"
    have now: "current_tick (?db1\<lparr>db_log := log\<rparr>) = Some ?c" for log
      using tick_now [OF f(1), of RESUME] by (simp add: open_tick_ok [OF f(1)] current_tick_def)
    have e1: "exec_stmt (OpenTick RESUME x y) db = Some ?db1" for x y by (simp add: open_tick_ok [OF f(1)])
    have e2: "exec_stmt ResumeRemoved ?db1 = Some (?db1\<lparr>db_log := db_log db @ ?R\<rparr>)"
      using now [of "db_log db"] ins1 fq [of "db_log db"] by (simp add: log_rows_def)
    have e3: "exec_stmt ResumeAdded (?db1\<lparr>db_log := db_log db @ ?R\<rparr>) = Some (?db1\<lparr>db_log := db_log db @ ?R @ ?A\<rparr>)"
      using now [of "db_log db @ ?R"] ins2 fq [of "db_log db @ ?R"] F' by (simp add: log_rows_def)
    have out: "out = [LogTablesDdl, OpenTick RESUME (lc_author ch) (Some (case lc_message ch of Some m \<Rightarrow> m | None \<Rightarrow> ''history resumed'')),
        ResumeRemoved, ResumeAdded, MarkCommit, CaptureDdl, SetMeta [(''versioning'', ''log''), (''history'', ''live'')]]"
      using r Stamped True by (simp add: raise_level_def Let_def)
    have "exec_all out db = exec_all [MarkCommit, CaptureDdl, SetMeta [(''versioning'', ''log''), (''history'', ''live'')]]
        (?db1\<lparr>db_log := db_log db @ ?R @ ?A\<rparr>)"
      unfolding out by (simp add: e1 e2 e3 del: exec_stmt.simps(1-5))
    also have "\<dots> = Some (?done RESUME (?R @ ?A))"
      using now [of "db_log db @ ?R @ ?A"] by (simp add: mark_commit_def)
    finally have "exec_all out db = Some (?done RESUME (?R @ ?A))" .
    moreover have "vinv (?done RESUME (?R @ ?A)) (sn(?c := set (db_quads db)))"
    proof (rule vinv_boundary [OF inv])
      have prev: "as_of (db_log db @ ?R @ ?A) (head db) = set ?F"
      proof -
        have "as_of (db_log db @ ?R @ ?A) (head db) = as_of (db_log db) (head db)" by (rule as_of_cong) auto
        also have "\<dots> = set ?F" by (rule as_of_stable [OF fr(2)]) (use bm in blast)
        finally show ?thesis .
      qed
      show "as_of (db_log db @ ?R @ ?A) ?c = set (db_quads db)"
        using prev no_rows by (subst as_of_step) auto
      show "effective (db_log db @ ?R @ ?A) ?c" using prev no_rows by (auto simp: effective_def)
    qed (use True keys2 in auto)
    ultimately show ?thesis by blast
  qed
  then show ?thesis by (auto simp: piece_ok_def st)
qed (use lv in simp)

lemma lower_piece:
  assumes inv: "vinv db sn" and lv: "vs_level (db_state db) \<noteq> Off" and r: "lower_level (db_state db) ch = Inr (st, out)"
  shows "piece_ok db sn st out"
proof (cases "vs_level (db_state db)")
  case Log
  note f = vinv_facts [OF inv]
  let ?c = "head db + 1" and ?ts = "db_ticks db"
  have live: "vs_history (db_state db) = Live" using f(2) Log by (simp add: state_ok_def)
  show ?thesis
  proof (cases "lc_allow_loss ch")
    case True
    let ?db = "db\<lparr>db_ticks := ?ts @ [(?c, DROPPED)], db_log := [], db_commits := [], db_capture := False, db_state := st\<rparr>"
    have st: "st = (db_state db)\<lparr>vs_history := NoHistory, vs_as_of_index := False, vs_level := Stamped\<rparr>"
      and ex: "exec_all out db = Some ?db"
      using r Log True by (auto simp: lower_level_def Let_def open_tick_def current_tick_def max_of_ok [OF f(1)])
    have ok': "ticks_ok (?ts @ [(?c, DROPPED)])" using f(1) by simp
    have "\<not> recorded (?ts @ [(?c, DROPPED)]) t" for t by (auto simp: recorded_def)
    then have "vinv ?db (sn(?c := set (db_quads db)))"
      using f ok' boundary_new [OF ok'] by (simp add: vinv_defs st is_boundary_def add.commute)
    with ex show ?thesis by (auto simp: piece_ok_def)
  next
    case False
    let ?db = "db\<lparr>db_ticks := ?ts @ [(?c, FREEZE)], db_capture := False, db_state := st\<rparr>"
    have st: "st = (db_state db)\<lparr>vs_history := Frozen, vs_level := Stamped\<rparr>" and ex: "exec_all out db = Some ?db"
      using r Log False by (auto simp: lower_level_def Let_def open_tick_def current_tick_def max_of_ok [OF f(1)])
    have ok': "ticks_ok (?ts @ [(?c, FREEZE)])" using f(1) by simp
    have top: "as_of (db_log db) ?c = set (db_quads db)"
      using as_of_no_rows [of ?c "db_log db"] no_rows_after [OF f(3)] f(4) live by (simp add: log_ok_def)
    have "versions_ok ?db (sn(?c := set (db_quads db)))"
      unfolding versions_ok_def
    proof (intro impI allI)
      fix t assume r: "recorded (db_ticks ?db) t"
      show "as_of (db_log ?db) t = (sn(?c := set (db_quads db))) t"
      proof (cases "t = ?c")
        case False
        with r have "recorded ?ts t" using recorded_before [OF ok', of t] by (auto simp: recorded_def)
        with f(5) live False show ?thesis by (simp add: versions_ok_def)
      qed (simp add: top)
    qed
    moreover have "clock_ok ?db"
      using f(1,7) ok' boundary_new [OF ok'] rows_le_mono [OF f(6), of ?c] by (simp add: clock_ok_def st is_boundary_def add.commute)
    ultimately have "vinv ?db (sn(?c := set (db_quads db)))" using f(2) by (simp add: vinv_def state_ok_def log_ok_def st)
    with ex show ?thesis by (auto simp: piece_ok_def)
  qed
next
  case Stamped
  note f = vinv_facts [OF inv]
  show ?thesis
  proof (cases "lc_allow_loss ch")
    case True
    let ?db = "db\<lparr>db_ticks := [], db_state := st\<rparr>"
    have none: "vs_history (db_state db) = NoHistory"
      and st: "st = (db_state db)\<lparr>vs_stamp_column := False, vs_stamp_index := False, vs_level := Off\<rparr>" and ex: "exec_all out db = Some ?db"
      using r Stamped True by (auto simp: lower_level_def Let_def split: if_splits)
    have "vinv ?db sn" using f(2) none Stamped by (simp add: vinv_defs st recorded_def)
    with ex show ?thesis by (auto simp: piece_ok_def st)
  next
    case False
    then have st: "st = (db_state db)\<lparr>vs_level := Off\<rparr>" and ex: "exec_all out db = Some (open_tick LEVEL db\<lparr>db_state := st\<rparr>)"
      using r Stamped by (auto simp: lower_level_def Let_def open_tick_def)
    show ?thesis by (rule piece_tick [OF inv, of LEVEL]) (use Stamped ex in \<open>simp_all add: st is_boundary_def\<close>)
  qed
qed (use lv in simp)

text \<open>A whole level change: \<open>levelled\<close> is its effect, with the versions it leaves.\<close>

definition levelled :: "vdb \<Rightarrow> (int \<Rightarrow> quad_ids set) \<Rightarrow> vdb \<Rightarrow> bool" where
  "levelled db sn db' \<longleftrightarrow> db_quads db' = db_quads db \<and> vinv db' (\<lambda>t. if t \<in> fst ` set (db_ticks db) then sn t else set (db_quads db)) \<and>
     (set (db_ticks db) \<subseteq> set (db_ticks db') \<or> db_ticks db' = [] \<and> vs_level (db_state db') = Off)"

lemma levelled_refl: "vinv db sn \<Longrightarrow> levelled db sn db"
  unfolding levelled_def by (intro conjI disjI1 subset_refl refl, rule vinv_cong [of db sn]) simp_all

lemma levelled_piece:
  assumes l: "levelled db sn db1" and lv: "set (db_ticks db) \<subseteq> set (db_ticks db1)"
    and p: "\<And>sn1. vinv db1 sn1 \<Longrightarrow> piece_ok db1 sn1 st out"
  shows "\<exists>db2. exec_all out db1 = Some db2 \<and> db_state db2 = st \<and> levelled db sn db2"
proof -
  let ?sn = "\<lambda>t. if t \<in> fst ` set (db_ticks db) then sn t else set (db_quads db)"
  from l have inv1: "vinv db1 ?sn" and q1: "db_quads db1 = db_quads db" by (simp_all add: levelled_def)
  from p [OF inv1] obtain db2 k where db2: "exec_all out db1 = Some db2" "db_state db2 = st" "db_quads db2 = db_quads db1"
    and alt: "db_ticks db2 = db_ticks db1 @ [(head db1 + 1, k)] \<and> vinv db2 (?sn(head db1 + 1 := set (db_quads db1))) \<or>
      db_ticks db2 = [] \<and> vs_level st = Off \<and> vinv db2 ?sn"
    unfolding piece_ok_def by blast
  have new: "head db1 + 1 \<notin> fst ` set (db_ticks db)"
    using lv ticks_ok_dom [OF vinv_facts(1) [OF inv1]] by (force dest!: image_mono [of _ _ fst])
  have "?sn(head db1 + 1 := set (db_quads db1)) = ?sn" using new q1 by (simp add: fun_upd_idem)
  then have "vinv db2 ?sn" using alt by (elim disjE conjE) simp_all
  with db2 alt lv q1 show ?thesis by (auto simp: levelled_def)
qed

lemma raise_to_levelled:
  assumes "levelled db sn db1" "set (db_ticks db) \<subseteq> set (db_ticks db1)" "raise_to to ch (db_state db1) = (st, out)"
  shows "\<exists>db2. exec_all out db1 = Some db2 \<and> db_state db2 = st \<and> levelled db sn db2 \<and> (out = [] \<or> vs_level st = to)"
  using assms
proof (induction to ch "db_state db1" arbitrary: db1 st out rule: raise_to.induct)
  case (1 to ch)
  show ?case
  proof (cases "versioning_rank (vs_level (db_state db1)) < versioning_rank to")
    case True
    obtain st1 out1 where r1: "raise_level (db_state db1) ch = (st1, out1)" by force
    obtain st2 out2 where r2: "raise_to to ch st1 = (st2, out2)" by force
    have out: "out = out1 @ out2" "st = st2" using 1(4) True r1 r2 by (simp_all add: raise_to.simps [of to ch "db_state db1"])
    have lv: "vs_level (db_state db1) \<noteq> Log" using True by (cases to) auto
    have lv1: "vs_level st1 = (if vs_level (db_state db1) = Off then Stamped else Log)"
      using r1 by (auto simp: raise_level_def Let_def split: if_splits)
    obtain db2 where db2: "exec_all out1 db1 = Some db2" "db_state db2 = st1" "levelled db sn db2"
      using levelled_piece [OF 1(2,3) raise_piece [OF _ lv r1]] by blast
    have sub: "set (db_ticks db) \<subseteq> set (db_ticks db2)"
      using db2(2,3) lv1 by (auto simp: levelled_def split: if_splits)
    from 1(1) [of db2 out1 st2 out2, OF True] r1 db2 sub r2
    obtain db3 where db3: "exec_all out2 db2 = Some db3" "db_state db3 = st2" "levelled db sn db3" "out2 = [] \<or> vs_level st2 = to" by auto
    have "vs_level st2 = to"
    proof (cases "out2 = []")
      case True
      then have "\<not> versioning_rank (vs_level st1) < versioning_rank to \<and> st2 = st1"
        using r2 by (auto simp: raise_to.simps [of to ch st1] raise_level_def Let_def split: if_splits prod.splits)
      with lv1 lv \<open>_ < versioning_rank to\<close> show ?thesis by (cases to; cases "vs_level (db_state db1)") auto
    qed (use db3(4) in simp)
    with db2 db3 out show ?thesis by (auto simp: exec_all_append)
  qed (use 1 in \<open>auto simp: raise_to.simps [of to ch "db_state db1"]\<close>)
qed

lemma lower_to_levelled:
  assumes "levelled db sn db1" "set (db_ticks db) \<subseteq> set (db_ticks db1)" "lower_to to ch (db_state db1) = Inr (st, out)"
  shows "\<exists>db2. exec_all out db1 = Some db2 \<and> db_state db2 = st \<and> levelled db sn db2"
  using assms
proof (induction to ch "db_state db1" arbitrary: db1 st out rule: lower_to.induct)
  case (1 to ch)
  show ?case
  proof (cases "versioning_rank (vs_level (db_state db1)) > versioning_rank to")
    case True
    with 1(4) obtain st1 out1 out2 where r1: "lower_level (db_state db1) ch = Inr (st1, out1)"
      and r2: "lower_to to ch st1 = Inr (st, out2)" and out: "out = out1 @ out2"
      by (auto simp: lower_to.simps [of to ch "db_state db1"] result_simps)
    have lv: "vs_level (db_state db1) \<noteq> Off" using True by auto
    obtain db2 where db2: "exec_all out1 db1 = Some db2" "db_state db2 = st1" "levelled db sn db2"
      using levelled_piece [OF 1(2,3) lower_piece [OF _ lv r1]] by blast
    show ?thesis
    proof (cases "set (db_ticks db) \<subseteq> set (db_ticks db2)")
      case sub: True
      from 1(1) [of "(st1, out1)" db2 out1 st out2, OF True] r1 db2 sub r2 out show ?thesis by (auto simp: exec_all_append)
    next
      case False
      then have "vs_level st1 = Off" using db2 by (auto simp: levelled_def)
      then have "out2 = []" "st = st1" using r2 by (auto simp: lower_to.simps [of to ch st1])
      with db2 out show ?thesis by (auto simp: exec_all_append)
    qed
  qed (use 1 in \<open>auto simp: lower_to.simps [of to ch "db_state db1"]\<close>)
qed

lemma index_options_levelled:
  assumes "levelled db sn db1" "index_options (db_state db1) ch = Inr out"
  shows "\<exists>db2. exec_all out db1 = Some db2 \<and> levelled db sn db2 \<and> db_ticks db2 = db_ticks db1"
proof -
  have meta: "levelled db sn (db2\<lparr>db_state := st\<rparr>)" if "levelled db sn db2" "vs_history st = vs_history (db_state db2)" "vs_level st = vs_level (db_state db2)"
    for db2 st using that vinv_state [of db2 _ st] by (auto simp: levelled_def)
  show ?thesis
    using assms by (auto simp: index_options_def result_simps split: option.splits if_splits intro!: meta)
qed

lemma act_level:
  assumes inv: "vinv db sn"
  shows "\<exists>db'. act (SetLevel to ch) db = Some db' \<and> vinv db' (next_snaps (SetLevel to ch) db db' sn)"
proof (cases "change_statements (db_state db) to ch")
  case (Inl e)
  have "next_snaps (SetLevel to ch) db db sn = sn" by (auto simp: next_snaps_def fun_eq_iff)
  with Inl inv show ?thesis by simp
next
  case (Inr ss)
  then obtain st1 out1 st2 out2 out3 where r: "raise_to to ch (db_state db) = (st1, out1)" "lower_to to ch st1 = Inr (st2, out2)"
    "index_options st2 ch = Inr out3" "ss = out1 @ out2 @ out3"
    by (auto simp: change_statements_def result_simps split: prod.splits)
  obtain db1 where db1: "exec_all out1 db = Some db1" "db_state db1 = st1" "levelled db sn db1"
    and up: "out1 = [] \<or> vs_level st1 = to"
    using raise_to_levelled [OF levelled_refl [OF inv] subset_refl r(1)] by blast
  have "\<exists>db2. exec_all out2 db1 = Some db2 \<and> db_state db2 = st2 \<and> levelled db sn db2"
  proof (cases "out1 = []")
    case True
    with db1 lower_to_levelled [of db sn db1 to ch st2 out2] r(2) show ?thesis by auto
  next
    case False
    with up have "out2 = [] \<and> st2 = st1" using r(2) by (auto simp: lower_to.simps [of to ch st1])
    with db1 show ?thesis by auto
  qed
  then obtain db2 where db2: "exec_all out2 db1 = Some db2" "db_state db2 = st2" "levelled db sn db2" by blast
  obtain db3 where db3: "exec_all out3 db2 = Some db3" "levelled db sn db3"
    using index_options_levelled [OF db2(3), of ch out3] r(3) db2(2) by auto
  have "vinv db3 (next_snaps (SetLevel to ch) db db3 sn)"
  proof (rule vinv_cong)
    show "vinv db3 (\<lambda>t. if t \<in> fst ` set (db_ticks db) then sn t else set (db_quads db))" using db3(2) by (simp add: levelled_def)
  qed (use db3(2) in \<open>auto simp: next_snaps_def levelled_def\<close>)
  with Inr r(4) db1 db2 db3 show ?thesis by (auto simp: exec_all_append)
qed

section \<open>Purging keeps the invariant\<close>

lemma purge_quads:
  "\<not> db_capture db \<or> db_purging db \<Longrightarrow> \<exists>ys. apply_ops (map Remove xs) db = Some (db\<lparr>db_quads := ys\<rparr>) \<and>
     ys = filter (\<lambda>q. q \<notin> set xs) (db_quads db)"
proof (induction xs arbitrary: db)
  case (Cons x xs)
  from Cons.IH [of "db\<lparr>db_quads := removeAll x (db_quads db)\<rparr>"] Cons.prems apply_op_other [OF Cons.prems, of "Remove x"]
  moreover have "filter (\<lambda>q. q \<notin> set xs) (removeAll x qs) = filter (\<lambda>q. q \<notin> set (x # xs)) qs" for qs by (induction qs) auto
  ultimately show ?case by (simp del: apply_op.simps)
qed simp

lemma act_purge:
  assumes inv: "vinv db sn"
  shows "\<exists>db'. act (PurgeAll pat a m) db = Some db' \<and> vinv db' (next_snaps (PurgeAll pat a m) db db' sn)"
proof -
  let ?keep = "filter (\<lambda>q. \<not> matches pat q)" and ?log = "filter (\<lambda>(q, tx, op). \<not> matches pat q)"
  let ?cut = "\<lambda>db. db\<lparr>db_quads := ?keep (db_quads db), db_log := ?log (db_log db)\<rparr>"
  have cut: "vinv (?cut d) (\<lambda>t. {q \<in> s t. \<not> matches pat q})" if "vinv d s" for d s
  proof -
    note f = vinv_facts [OF that]
    have eff: "effective (db_log d) c \<Longrightarrow> effective (?log (db_log d)) c" for c
      by (auto simp: effective_def as_of_filter)
    have le: "rows_le (db_log d) n \<Longrightarrow> rows_le (?log (db_log d)) n" for n by (auto simp: rows_le_def)
    have "clock_ok (?cut d)"
      using f(3) le keys_ok_filter [OF f(7)] by (cases "vs_history (db_state d)") (auto simp: clock_ok_def)
    with f eff show ?thesis by (auto simp: vinv_def state_ok_def log_ok_def versions_ok_def as_of_filter)
  qed
  define db1 where "db1 = (if has_ticks (db_state db) then open_tick PURGE db else db)"
  define sn1 where "sn1 = (if has_ticks (db_state db) then sn(head db + 1 := set (db_quads db)) else sn)"
  note f = vinv_facts [OF inv]
  have inv1: "vinv db1 sn1" using inv vinv_open_tick [OF inv, of PURGE] by (simp add: db1_def sn1_def is_boundary_def)
  have same: "db_quads db1 = db_quads db" "db_log db1 = db_log db" "db_state db1 = db_state db" "db_purging db1 = db_purging db"
    by (simp_all add: db1_def open_tick_def)
  have q: "filter (\<lambda>q. q \<notin> set (filter (matches pat) (db_quads db))) (db_quads db) = ?keep (db_quads db)"
    by (rule filter_cong) auto
  have np: "\<not> db_purging db" using f(2) by (simp add: state_ok_def)
  have quads: "apply_ops (map Remove (filter (matches pat) (db_quads db))) (db1\<lparr>db_purging := True\<rparr>) =
      Some (db1\<lparr>db_purging := True, db_quads := ?keep (db_quads db)\<rparr>)"
    using purge_quads [of "db1\<lparr>db_purging := True\<rparr>" "filter (matches pat) (db_quads db)"] q same by simp
  have ex: "exec_all (purge_request (db_state db) pat a m) db = Some (?cut db1)"
  proof -
    have "log_delete (\<lambda>(q, tx, op). matches pat q) d = Some (d\<lparr>db_log := ?log (db_log d)\<rparr>)" if "db_purging d" for d
      using that by (simp add: log_delete_def split_beta')
    moreover have "vs_history (db_state db) = NoHistory \<Longrightarrow> db_log db = []" using f(2) by (simp add: state_ok_def)
    moreover have "exec_all (purge_request (db_state db) pat a m) db =
        exec_all ([SetPurging, PurgeQuads pat] @ (if vs_history (db_state db) \<noteq> NoHistory then [PurgeLog pat] else []) @ [UnsetPurging]) db1"
      by (simp add: purge_request_def db1_def)
    ultimately show ?thesis using quads same np by (cases db1) (auto simp: exec_all_append)
  qed
  have "next_snaps (PurgeAll pat a m) db (?cut db1) sn t = (\<lambda>t. {q \<in> sn1 t. \<not> matches pat q}) t" for t
    using ticks_ok_dom [OF f(1)] by (auto simp: next_snaps_def db1_def sn1_def open_tick_ok [OF f(1)])
  then have "next_snaps (PurgeAll pat a m) db (?cut db1) sn = (\<lambda>t. {q \<in> sn1 t. \<not> matches pat q})" by blast
  with ex cut [OF inv1] show ?thesis by simp
qed

section \<open>Histories of a store\<close>

text \<open>A store and what it held at each tick, after some actions from the empty store.\<close>

inductive reached :: "vdb \<Rightarrow> (int \<Rightarrow> quad_ids set) \<Rightarrow> bool" where
  start: "reached empty_db (\<lambda>_. {})"
| action: "reached db sn \<Longrightarrow> act a db = Some db' \<Longrightarrow> reached db' (next_snaps a db db' sn)"

lemma act_vinv:
  assumes "vinv db sn" shows "\<exists>db'. act a db = Some db' \<and> vinv db' (next_snaps a db db' sn)"
  using act_write [OF assms] act_level [OF assms] act_purge [OF assms] by (cases a) blast+

lemma reached_vinv: "reached db sn \<Longrightarrow> vinv db sn"
proof (induction rule: reached.induct)
  case (action db sn a db')
  from act_vinv [OF action.IH, of a] action.hyps(2) show ?case by auto
qed (rule vinv_empty)

lemma resolves_recorded:
  "vinv db sn \<Longrightarrow> resolves db t \<Longrightarrow> (\<And>d. (d, DROPPED) \<in> set (db_ticks db) \<Longrightarrow> d < t) \<Longrightarrow> recorded (db_ticks db) t"
  using ticks_ok_dom [of "db_ticks db"] by (auto simp: vinv_defs resolves_def recorded_def)

text \<open>Deleting the history and starting a new one.\<close>

lemma delete_then_restart:
  assumes inv: "vinv db sn" and lv: "vs_level (db_state db) = Log" and loss: "lc_allow_loss ch"
    and ix: "lc_as_of_index ch = None" "lc_stamp_index ch = None"
  defines "db1 \<equiv> the (act (SetLevel Stamped ch) db)"
  defines "db2 \<equiv> the (act (SetLevel Log ch) db1)"
  shows "db_ticks db2 = db_ticks db @ [(head db + 1, DROPPED), (head db + 2, GENESIS)]"
    and "db_log db2 = map (\<lambda>q. (q, head db + 2, True)) (db_quads db)"
    and "vs_history (db_state db2) = Live"
proof -
  note f = vinv_facts [OF inv]
  define st where "st = (db_state db)\<lparr>vs_history := NoHistory, vs_as_of_index := False, vs_level := Stamped\<rparr>"
  have ss: "change_statements (db_state db) Stamped ch = Inr [DropCapture, DropQuadLog, DropCommits,
      OpenTick DROPPED (lc_author ch) (Some (case lc_message ch of Some m \<Rightarrow> m | None \<Rightarrow> ''history deleted'')),
      SetMeta [(''versioning'', ''stamped''), (''history'', ''none''), (''as_of_index'', ''0'')]]"
    using lv loss ix by (simp add: change_statements_def raise_to.simps lower_to.simps lower_level_def index_options_def Let_def)
  have db1: "db1 = db\<lparr>db_ticks := db_ticks db @ [(head db + 1, DROPPED)], db_log := [], db_commits := [], db_capture := False, db_state := st\<rparr>"
    unfolding db1_def using ss by (simp add: open_tick_def current_tick_def max_of_ok [OF f(1)] st_def)
  have "change_statements st Log ch = Inr [LogTablesDdl,
      OpenTick GENESIS (lc_author ch) (Some (case lc_message ch of Some m \<Rightarrow> m | None \<Rightarrow> ''history starts'')), GenesisLog, MarkCommit, CaptureDdl,
      SetMeta [(''versioning'', ''log''), (''history'', ''live'')]]"
    using ix by (simp add: change_statements_def raise_to.simps lower_to.simps raise_level_def index_options_def st_def Let_def)
  moreover have tk: "ticks_ok (db_ticks db1)" using f(1) by (simp add: db1)
  have "log_insert (map (\<lambda>q. (q, head db + 2, True)) (db_quads db)) [] = Some (map (\<lambda>q. (q, head db + 2, True)) (db_quads db))"
    using log_insert_fresh [of "map (\<lambda>q. (q, head db + 2, True)) (db_quads db)" "[]"] keys_ok_tick [OF f(8), of "head db + 2" True]
    by (simp add: keys_ok_def)
  ultimately have "act (SetLevel Log ch) db1 = Some (db1\<lparr>db_ticks := db_ticks db1 @ [(head db + 2, GENESIS)],
      db_log := map (\<lambda>q. (q, head db + 2, True)) (db_quads db), db_commits := [head db + 2], db_capture := True,
      db_state := st\<lparr>vs_level := Log, vs_history := Live\<rparr>\<rparr>)"
    using tick_now [OF tk, of GENESIS] open_tick_ok [OF tk, of GENESIS]
    by (cases db) (simp add: db1 log_rows_def mark_commit_def current_tick_def push_new_def add.commute)
  then show "db_ticks db2 = db_ticks db @ [(head db + 1, DROPPED), (head db + 2, GENESIS)]"
    "db_log db2 = map (\<lambda>q. (q, head db + 2, True)) (db_quads db)" "vs_history (db_state db2) = Live"
    unfolding db2_def by (simp_all add: db1)
qed

text \<open>A run of actions, with the versions, for examples.\<close>

fun run_actions :: "action list \<Rightarrow> vdb \<times> (int \<Rightarrow> quad_ids set) \<Rightarrow> vdb \<times> (int \<Rightarrow> quad_ids set)" where
  "run_actions [] s = s"
| "run_actions (a # as) (db, sn) = run_actions as (the (act a db), next_snaps a db (the (act a db)) sn)"

lemma run_actions_reached: "reached (fst s) (snd s) \<Longrightarrow> reached (fst (run_actions as s)) (snd (run_actions as s))"
proof (induction as s rule: run_actions.induct)
  case (2 a as db sn)
  then obtain db' where "act a db = Some db'" using act_vinv [OF reached_vinv, of db sn a] by auto
  with 2 reached.action [of db sn a db'] show ?case by simp
qed simp

section \<open>Properties\<close>


definition toy_quad :: "i64 \<Rightarrow> quad_ids" where
  "toy_quad i = (i, 2, 3, 0)"

definition toy_change :: "bool \<Rightarrow> level_change" where
  "toy_change loss = \<lparr>lc_as_of_index = None, lc_stamp_index = None, lc_allow_loss = loss, lc_author = None, lc_message = None\<rparr>"

definition toy_actions :: "action list" where
  "toy_actions = [SetLevel Log (toy_change False), Write [Add (toy_quad 1)], SetLevel Stamped (toy_change False),
     Write [Remove (toy_quad 1), Add (toy_quad 2)], SetLevel Log (toy_change False), Write [Add (toy_quad 4)]]"

definition toy_store :: "vdb \<times> (int \<Rightarrow> quad_ids set)" where
  "toy_store = run_actions toy_actions (empty_db, \<lambda>_. {})"


text \<open>
  C18. A deleted history can still be named: after the history of a store is deleted (with \<^verbatim>\<open>allow_loss\<close>) and a new one is
  started, every version of the deleted history is accepted as before and reads as an empty store, though the versions
  before the new genesis should be refused.
\<close>

theorem deleted_history_reads_empty:
  assumes "reached db sn" "vs_level (db_state db) = Log" "resolves db t"
    and "lc_allow_loss ch" "lc_as_of_index ch = None" "lc_stamp_index ch = None"
  defines "db2 \<equiv> the (act (SetLevel Log ch) (the (act (SetLevel Stamped ch) db)))"
  shows "resolves db2 t \<and> as_of_rows (db_log db2) t = []"
proof -
  have inv: "vinv db sn" by (rule reached_vinv [OF assms(1)])
  note r = delete_then_restart [OF inv assms(2,4-6), folded db2_def]
  have ok: "ticks_ok (db_ticks db)" by (rule vinv_facts(1) [OF inv])
  have t: "t \<le> head db" "t \<in> fst ` set (db_ticks db)"
    using assms(3) ticks_ok_dom [OF ok] by (auto simp: resolves_def)
  have ok1: "ticks_ok (db_ticks db @ [(head db + 1, DROPPED)])" using ok by simp
  have ok2: "ticks_ok ((db_ticks db @ [(head db + 1, DROPPED)]) @ [(head db + 2, GENESIS)])"
    unfolding ticks_ok_snoc using ok by simp
  have "boundary (db_ticks db2) t = boundary (db_ticks db) t"
    using t boundary_before [OF ok2, of t] boundary_before [OF ok1, of t] by (simp add: r)
  moreover have "as_of_rows (db_log db2) t = []"
    using t(1) by (auto simp: r as_of_rows_def filter_empty_conv)
  ultimately show ?thesis using assms(3) t r by (auto simp: resolves_def)
qed

definition toy_log_store :: "vdb \<times> (int \<Rightarrow> quad_ids set)" where
  "toy_log_store = run_actions (take 2 toy_actions) (empty_db, \<lambda>_. {})"

theorem deleted_history_reads_empty_witness:
  "snd toy_log_store 3 = {toy_quad 1} \<and> resolves (the (act (SetLevel Log (toy_change True)) (the (act (SetLevel Stamped (toy_change True)) (fst toy_log_store))))) 3 \<and>
   as_of_rows (db_log (the (act (SetLevel Log (toy_change True)) (the (act (SetLevel Stamped (toy_change True)) (fst toy_log_store)))))) 3 = []"
proof -
  have r: "reached (fst toy_log_store) (snd toy_log_store)"
    unfolding toy_log_store_def by (rule run_actions_reached) (simp add: reached.start)
  have "vs_level (db_state (fst toy_log_store)) = Log" "resolves (fst toy_log_store) 3" "snd toy_log_store 3 = {toy_quad 1}"
    by code_simp+
  with deleted_history_reads_empty [OF r, of 3 "toy_change True"] show ?thesis by (simp add: toy_change_def)
qed

end
