(* ===== verification/Version_Jobs.thy ===== *)
theory Version_Jobs
  imports Version Job
begin

text \<open>
  How a versioned store opens its ticks (\<^verbatim>\<open>version.rs\<close>): the statements put in front of a write, the job wrapper
  \<^verbatim>\<open>Versioned\<close> for hosts that run requests themselves, and the backend wrapper \<^verbatim>\<open>VersionedBackend\<close> with its interactive
  transactions. The clock of the host is an argument: \<open>now rq\<close> is what it reads when the request \<open>rq\<close> is prepared.
\<close>

record commit_info =
  ci_author :: "string option"
  ci_message :: "string option"

definition PREFIX_LEN :: nat where
  "PREFIX_LEN = 2"

definition writes_quads :: "statement \<Rightarrow> bool" where
  "writes_quads s \<longleftrightarrow> starts_with ''INSERT OR IGNORE INTO quads('' (st_sql s) \<or> starts_with ''DELETE FROM quads '' (st_sql s)"

definition opens_own_tick :: "request \<Rightarrow> bool" where
  "opens_own_tick r \<longleftrightarrow> list_ex (\<lambda>s. starts_with ''INSERT INTO ticks('' (st_sql s)) (take PREFIX_LEN (rq_statements r))"

definition info_id :: "ext \<Rightarrow> string option \<Rightarrow> encoded_rows \<Rightarrow> string \<times> encoded_rows" where
  "info_id x v rows =
     (case v of
        None \<Rightarrow> (''NULL'', rows)
      | Some s \<Rightarrow> (case er_term x (Lit (simple_literal s)) rows of (i, rows') \<Rightarrow> (show_id i, rows')))"

definition write_tick_statements :: "ext \<Rightarrow> string \<Rightarrow> commit_info \<Rightarrow> statement list" where
  "write_tick_statements x now info =
     (let secs = (case timestamp x now (xsd ''dateTime'') of Some v \<Rightarrow> v | None \<Rightarrow> f64_of_int 0);
          (time_id, rows1) = er_term x (Lit (typed_literal now (xsd ''dateTime''))) no_rows;
          (author_id, rows2) = info_id x (ci_author info) rows1;
          (message_id, rows3) = info_id x (ci_message info) rows2 in
      take 1 (term_statements rows3 caps_native)
      @ [statement_new (''INSERT INTO ticks(t, time, kind, author, message, time_id, author_id, message_id) ''
           @ ''SELECT coalesce(max(t), 0) + 1, '' @ sql_f64 secs @ '', '' @ show_int (kind_num WRITE) @ '', '' @ sql_opt_str (ci_author info)
           @ '', '' @ sql_opt_str (ci_message info) @ '', '' @ show_id time_id @ '', '' @ author_id @ '', '' @ message_id @ '' FROM ticks'')])"

definition needs_tick :: "versioning \<Rightarrow> request \<Rightarrow> bool" where
  "needs_tick level rq \<longleftrightarrow> \<not> (versioning_rank level < versioning_rank Stamped \<or> rq_mode rq \<noteq> Atomic \<or> opens_own_tick rq \<or>
     \<not> list_ex writes_quads (rq_statements rq))"

definition prepare :: "ext \<Rightarrow> (request \<Rightarrow> string) \<Rightarrow> versioning \<Rightarrow> commit_info \<Rightarrow> request \<Rightarrow> request option" where
  "prepare x now level info rq =
     (if \<not> needs_tick level rq then None
      else Some \<lparr>rq_statements = write_tick_statements x (now rq) info @ rq_statements rq, rq_mode = rq_mode rq\<rparr>)"

definition strip :: "response \<Rightarrow> response" where
  "strip resp = drop (min PREFIX_LEN (length resp)) resp"

definition effective_caps :: "capabilities \<Rightarrow> versioning \<Rightarrow> capabilities" where
  "effective_caps caps level =
     (let c = caps\<lparr>cap_versioning := level\<rparr> in
      if versioning_rank level \<ge> versioning_rank Stamped then c\<lparr>max_statements := max (max_statements c - PREFIX_LEN) 1\<rparr> else c)"

section \<open>The job wrapper\<close>

record 'j versioned_job =
  vj_inner :: 'j
  vj_level :: versioning
  vj_info :: commit_info
  vj_pending :: bool

definition versioned_new :: "'j \<Rightarrow> versioning \<Rightarrow> commit_info \<Rightarrow> 'j versioned_job" where
  "versioned_new j level info = \<lparr>vj_inner = j, vj_level = level, vj_info = info, vj_pending = False\<rparr>"

definition versioned_step :: "ext \<Rightarrow> (request \<Rightarrow> string) \<Rightarrow> ('j, 'o) stepper \<Rightarrow> ('j versioned_job, 'o) stepper" where
  "versioned_step x now step v r =
     (let r' = (if vj_pending v then map_option strip r else r); v' = v\<lparr>vj_pending := False\<rparr> in
      map_option (\<lambda>res. rbind res (\<lambda>(j, st).
        case st of
          Execute rq \<Rightarrow>
            (case prepare x now (vj_level v) (vj_info v) rq of
               Some p \<Rightarrow> Inr (v'\<lparr>vj_inner := j, vj_pending := True\<rparr>, Execute p)
             | None \<Rightarrow> Inr (v'\<lparr>vj_inner := j\<rparr>, Execute rq))
        | Done out \<Rightarrow> Inr (v'\<lparr>vj_inner := j\<rparr>, Done out))) (step (vj_inner v) r'))"

section \<open>The backend wrapper\<close>

definition versioning_index :: "versioning \<Rightarrow> nat" where
  "versioning_index v = (case v of Off \<Rightarrow> 0 | Stamped \<Rightarrow> 1 | Log \<Rightarrow> 2)"

definition versioning_from_index :: "nat \<Rightarrow> versioning" where
  "versioning_from_index i = [Off, Stamped, Log] ! min i 2"

record 'b versioned_backend =
  vb_inner :: 'b
  vb_caps :: "capabilities list"
  vb_index :: nat
  vb_info :: commit_info
  vb_in_transaction :: bool
  vb_tick_open :: bool

definition vb_new :: "'b \<Rightarrow> capabilities \<Rightarrow> versioning \<Rightarrow> 'b versioned_backend" where
  "vb_new b caps level = \<lparr>vb_inner = b, vb_caps = map (effective_caps caps) [Off, Stamped, Log], vb_index = versioning_index level,
     vb_info = \<lparr>ci_author = None, ci_message = None\<rparr>, vb_in_transaction = False, vb_tick_open = False\<rparr>"

definition vb_level :: "'b versioned_backend \<Rightarrow> versioning" where
  "vb_level v = versioning_from_index (vb_index v)"

definition vb_set_level :: "versioning \<Rightarrow> 'b versioned_backend \<Rightarrow> 'b versioned_backend" where
  "vb_set_level level v = v\<lparr>vb_index := versioning_index level\<rparr>"

definition vb_set_commit_info :: "commit_info \<Rightarrow> 'b versioned_backend \<Rightarrow> 'b versioned_backend" where
  "vb_set_commit_info info v = v\<lparr>vb_info := info\<rparr>"

definition vb_capabilities :: "'b versioned_backend \<Rightarrow> capabilities option" where
  "vb_capabilities v = get_nth (vb_caps v) (vb_index v)"

definition vb_prepared :: "ext \<Rightarrow> (request \<Rightarrow> string) \<Rightarrow> request \<Rightarrow> 'b versioned_backend \<Rightarrow> request option \<times> 'b versioned_backend" where
  "vb_prepared x now rq v =
     (if vb_in_transaction v \<and> vb_tick_open v then (None, v)
      else case prepare x now (vb_level v) (vb_info v) rq of
        None \<Rightarrow> (None, v)
      | Some p \<Rightarrow> (Some p, if vb_in_transaction v then v\<lparr>vb_tick_open := True\<rparr> else v))"

definition vb_execute :: "ext \<Rightarrow> (request \<Rightarrow> string) \<Rightarrow> 'b backend \<Rightarrow> 'b versioned_backend backend" where
  "vb_execute x now ex v rq =
     (case vb_prepared x now rq v of
        (Some p, v') \<Rightarrow> (case ex (vb_inner v') p of (b, res) \<Rightarrow> (v'\<lparr>vb_inner := b\<rparr>, rbind res (\<lambda>r. Inr (strip r))))
      | (None, v') \<Rightarrow> (case ex (vb_inner v') rq of (b, res) \<Rightarrow> (v'\<lparr>vb_inner := b\<rparr>, res)))"

definition vb_begin :: "('b \<Rightarrow> 'b \<times> (error + unit)) \<Rightarrow> 'b versioned_backend \<Rightarrow> 'b versioned_backend \<times> (error + unit)" where
  "vb_begin bg v =
     (case bg (vb_inner v) of
        (b, Inl e) \<Rightarrow> (v\<lparr>vb_inner := b\<rparr>, Inl e)
      | (b, Inr _) \<Rightarrow> (v\<lparr>vb_inner := b, vb_in_transaction := True, vb_tick_open := False\<rparr>, Inr ()))"

text \<open>\<^verbatim>\<open>commit\<close> and \<^verbatim>\<open>rollback\<close>, which differ only in what they ask of the inner backend.\<close>

definition vb_end :: "('b \<Rightarrow> 'b \<times> (error + unit)) \<Rightarrow> 'b versioned_backend \<Rightarrow> 'b versioned_backend \<times> (error + unit)" where
  "vb_end finish v =
     (case finish (vb_inner v) of (b, res) \<Rightarrow> (v\<lparr>vb_inner := b, vb_in_transaction := False, vb_tick_open := False\<rparr>, res))"

section \<open>The tick is two statements\<close>

lemma chunked_nonempty:
  assumes "prefix \<noteq> []" "us \<noteq> []" shows "chunked prefix suffix mx us \<noteq> []"
proof -
  obtain ts t where us: "us = ts @ [t]" using assms(2) by (cases us rule: rev_cases) auto
  have "ck_prefix (fold ck_push ts (chunker_new prefix suffix mx)) \<noteq> []" using assms(1) by (simp add: chunker_new_def)
  then have "ck_current (ck_push t (fold ck_push ts (chunker_new prefix suffix mx))) \<noteq> []" by (simp add: ck_push_def Let_def ck_flush_def)
  then show ?thesis by (simp add: us chunked_def ck_finish_def ck_flush_def)
qed

lemma er_term_simple_terms:
  "er_terms (snd (er_term x (Lit (simple_literal s)) rows)) = er_terms rows \<or> (\<exists>r. er_terms (snd (er_term x (Lit (simple_literal s)) rows)) = er_terms rows @ [r])"
  by (auto simp: push_term_def split: prod.splits option.splits)

lemma info_id_terms: "er_terms rows \<noteq> [] \<Longrightarrow> er_terms (snd (info_id x v rows)) \<noteq> []"
  using er_term_simple_terms [of x "the v" rows] by (auto simp: info_id_def split: option.splits prod.splits)

lemma time_row: "er_terms (snd (er_term x (Lit (typed_literal now (xsd ''dateTime''))) no_rows)) \<noteq> []"
  by (simp add: encode_literal_def literal_defs push_term_def no_rows_def Let_def)

lemma length_write_tick_statements: "length (write_tick_statements x now info) = PREFIX_LEN"
proof -
  obtain i1 rows1 where r1: "er_term x (Lit (typed_literal now (xsd ''dateTime''))) no_rows = (i1, rows1)" by force
  obtain i2 rows2 where r2: "info_id x (ci_author info) rows1 = (i2, rows2)" by force
  obtain i3 rows3 where r3: "info_id x (ci_message info) rows2 = (i3, rows3)" by force
  have "er_terms rows3 \<noteq> []"
    using time_row [of x now] info_id_terms [of rows1 x "ci_author info"] info_id_terms [of rows2 x "ci_message info"] r1 r2 r3 by simp
  then have "term_statements rows3 caps_native \<noteq> []" by (simp add: term_statements_def chunked_nonempty)
  then have "length (take 1 (term_statements rows3 caps_native)) = 1" by (cases "term_statements rows3 caps_native") simp_all
  then show ?thesis
    unfolding write_tick_statements_def Let_def r1 r2 r3 split_conv length_append PREFIX_LEN_def by (simp only: list.size)
qed

lemma prepare_Some:
  assumes "prepare x now level info rq = Some p"
  shows "needs_tick level rq" "rq_mode p = Atomic" "drop PREFIX_LEN (rq_statements p) = rq_statements rq"
  using assms length_write_tick_statements [of x "now rq" info]
  by (auto simp: prepare_def needs_tick_def split: if_splits)

lemma strip_results: "length resp = PREFIX_LEN + n \<Longrightarrow> length (strip resp) = n"
  by (simp add: strip_def)

section \<open>The two wrappers agree\<close>

text \<open>The state of the wrapped job and of the wrapped backend between two steps.\<close>

definition in_step :: "'j versioned_job \<Rightarrow> response option \<Rightarrow> 'b \<Rightarrow> 'j \<Rightarrow> response option \<Rightarrow> 'b versioned_backend \<Rightarrow> bool" where
  "in_step v r b j r' w \<longleftrightarrow> vj_inner v = j \<and> r' = (if vj_pending v then map_option strip r else r) \<and> vb_inner w = b \<and>
     vb_level w = vj_level v \<and> vb_info w = vj_info v \<and> \<not> vb_in_transaction w"

abbreviation sent_request :: "ext \<Rightarrow> (request \<Rightarrow> string) \<Rightarrow> versioning \<Rightarrow> commit_info \<Rightarrow> request \<Rightarrow> request" where
  "sent_request x now level info rq \<equiv> (case prepare x now level info rq of Some p \<Rightarrow> p | None \<Rightarrow> rq)"

lemma versioned_step_eqs:
  assumes "in_step v r b j r' w"
  shows "step j r' = None \<Longrightarrow> versioned_step x now step v r = None"
    "step j r' = Some (Inl e) \<Longrightarrow> versioned_step x now step v r = Some (Inl e)"
    "step j r' = Some (Inr (j', Done out)) \<Longrightarrow> versioned_step x now step v r = Some (Inr (v\<lparr>vj_pending := False, vj_inner := j'\<rparr>, Done out))"
    "step j r' = Some (Inr (j', Execute rq)) \<Longrightarrow> versioned_step x now step v r =
       Some (Inr (v\<lparr>vj_pending := (prepare x now (vj_level v) (vj_info v) rq \<noteq> None), vj_inner := j'\<rparr>,
         Execute (sent_request x now (vj_level v) (vj_info v) rq)))"
  using assms by (cases v; auto simp: in_step_def versioned_step_def Let_def split: option.splits)+

lemma vb_execute_step:
  assumes "in_step v r b j r' w" "ex b (sent_request x now (vj_level v) (vj_info v) rq) = (b', res)"
  shows "vb_execute x now ex w rq = (w\<lparr>vb_inner := b'\<rparr>,
    if prepare x now (vj_level v) (vj_info v) rq \<noteq> None then rbind res (\<lambda>r. Inr (strip r)) else res)"
  using assms by (auto simp: in_step_def vb_execute_def vb_prepared_def split: option.splits)

lemma in_step_next:
  assumes "in_step v r b j r' w"
  shows "in_step (v\<lparr>vj_pending := pend, vj_inner := j'\<rparr>) (Some raw) b' j' (Some (if pend then strip raw else raw)) (w\<lparr>vb_inner := b'\<rparr>)"
  using assms by (simp add: in_step_def vb_level_def)

lemma versioned_le:
  assumes "run_sync (vb_execute x now ex) step j r' w = Some y"
  shows "in_step v r b j r' w \<Longrightarrow> run_sync ex (versioned_step x now step) v r b = Some (vb_inner (fst y), snd y)"
  using assms
proof (induction arbitrary: v r b rule: run_sync_induct)
  case (iter run j r' w y)
  note eqs = versioned_step_eqs [OF iter(3), of step] and R = run_sync_drive [of ex "versioned_step x now step" v r b]
  have w: "vb_inner w = b" using iter(3) by (simp add: in_step_def)
  from iter(2) show ?case
  proof (cases rule: drive_cases)
    case (fail j' rq w' e)
    obtain b' res where e: "ex b (sent_request x now (vj_level v) (vj_info v) rq) = (b', res)" by force
    with fail vb_execute_step [where ex = ex and x = x and now = now and rq = rq, OF iter(3) e] show ?thesis by (auto simp: R eqs(4) rbind_Inl_iff split: if_splits)
  next
    case (go j' rq w' resp)
    obtain b' res where e: "ex b (sent_request x now (vj_level v) (vj_info v) rq) = (b', res)" by force
    from go(2) vb_execute_step [where ex = ex and x = x and now = now and rq = rq, OF iter(3) e] obtain raw where res: "res = Inr raw" and w': "w' = w\<lparr>vb_inner := b'\<rparr>"
      and resp: "resp = (if prepare x now (vj_level v) (vj_info v) rq \<noteq> None then strip raw else raw)"
      by (auto simp: rbind_Inr_iff split: if_splits)
    from iter(1) [OF go(3) [unfolded w' resp] in_step_next [OF iter(3)]] go(1) e res show ?thesis by (simp add: R eqs(4))
  qed (use w in \<open>auto simp: R eqs\<close>)
qed

lemma versioned_ge:
  assumes "run_sync ex (versioned_step x now step) v r b = Some y"
  shows "in_step v r b j r' w \<Longrightarrow> \<exists>w'. vb_inner w' = fst y \<and> run_sync (vb_execute x now ex) step j r' w = Some (w', snd y)"
  using assms
proof (induction arbitrary: j r' w rule: run_sync_induct)
  case (iter run v r b y)
  note eqs = versioned_step_eqs [OF iter(3), of step] and R = run_sync_drive [of "vb_execute x now ex" step j r' w]
  have w: "vb_inner w = b" using iter(3) by (simp add: in_step_def)
  show ?case
  proof (cases "step j r'")
    case None
    with iter(2) eqs(1) show ?thesis by (simp add: drive_def)
  next
    case (Some res)
    show ?thesis
    proof (cases res)
      case (Inl e)
      with Some iter(2) eqs(2) w show ?thesis by (auto simp: R)
    next
      case (Inr p)
      obtain j' st where p: "p = (j', st)" by force
      show ?thesis
      proof (cases st)
        case (Done out)
        with Some Inr p iter(2) eqs(3) w show ?thesis by (auto simp: R)
      next
        case (Execute rq)
        with Some Inr p have s: "step j r' = Some (Inr (j', Execute rq))" by simp
        obtain b' z where e: "ex b (sent_request x now (vj_level v) (vj_info v) rq) = (b', z)" by force
        note ve = vb_execute_step [where ex = ex and x = x and now = now and rq = rq, OF iter(3) e]
        show ?thesis
        proof (cases z)
          case (Inl er)
          with ve have "vb_execute x now ex w rq = (w\<lparr>vb_inner := b'\<rparr>, Inl er)" by simp
          with s e Inl iter(2) [unfolded eqs(4) [OF s]] show ?thesis by (auto simp: R)
        next
          case (Inr raw)
          with iter(2) [unfolded eqs(4) [OF s]] e have run: "run (v\<lparr>vj_pending := (prepare x now (vj_level v) (vj_info v) rq \<noteq> None), vj_inner := j'\<rparr>) (Some raw) b' = Some y"
            by simp
          from iter(1) [OF run in_step_next [OF iter(3)]] s ve Inr show ?thesis by (auto simp: R split: if_splits)
        qed
      qed
    qed
  qed
qed

section \<open>Transactions\<close>

text \<open>A backend that records the requests it receives, and the requests a transaction sends it.\<close>

definition logging :: "(request list \<Rightarrow> request \<Rightarrow> error + response) \<Rightarrow> request list backend" where
  "logging answer log rq = (log @ [rq], answer log rq)"

fun first_ticked :: "ext \<Rightarrow> (request \<Rightarrow> string) \<Rightarrow> versioning \<Rightarrow> commit_info \<Rightarrow> request list \<Rightarrow> request list" where
  "first_ticked x now level info [] = []"
| "first_ticked x now level info (rq # rqs) =
     (case prepare x now level info rq of Some p \<Rightarrow> p # rqs | None \<Rightarrow> rq # first_ticked x now level info rqs)"

abbreviation vb_executes where
  "vb_executes x now ex rqs v \<equiv> fold (\<lambda>rq v. fst (vb_execute x now ex v rq)) rqs v"

lemma vb_execute_logging:
  assumes "vb_in_transaction v"
  shows "vb_tick_open v \<or> prepare x now (vb_level v) (vb_info v) rq = None \<Longrightarrow>
      fst (vb_execute x now (logging ans) v rq) = v\<lparr>vb_inner := vb_inner v @ [rq]\<rparr>"
    "\<not> vb_tick_open v \<Longrightarrow> prepare x now (vb_level v) (vb_info v) rq = Some p \<Longrightarrow>
      fst (vb_execute x now (logging ans) v rq) = v\<lparr>vb_tick_open := True, vb_inner := vb_inner v @ [p]\<rparr>"
  using assms by (auto simp: vb_execute_def vb_prepared_def logging_def)

lemma vb_level_inner [simp]: "vb_level (v\<lparr>vb_inner := b\<rparr>) = vb_level v"
  by (simp add: vb_level_def)

lemma executes_ticked:
  "vb_in_transaction v \<Longrightarrow> vb_tick_open v \<Longrightarrow> vb_inner (vb_executes x now (logging ans) rqs v) = vb_inner v @ rqs"
  by (induction rqs arbitrary: v) (simp_all add: vb_execute_logging)

lemma executes_first:
  "vb_in_transaction v \<Longrightarrow> \<not> vb_tick_open v \<Longrightarrow>
     vb_inner (vb_executes x now (logging ans) rqs v) = vb_inner v @ first_ticked x now (vb_level v) (vb_info v) rqs"
proof (induction rqs arbitrary: v)
  case (Cons rq rqs)
  then show ?case
    by (cases "prepare x now (vb_level v) (vb_info v) rq") (simp_all add: vb_execute_logging executes_ticked)
qed simp

section \<open>Properties\<close>

text \<open>
  C10. The two ways of versioning a store agree: running a wrapped job on a backend is running the job on the wrapped
  backend, with the same answer, the same effect and the same errors, and one diverges when the other does.
\<close>

theorem versioned_job_is_versioned_backend:
  assumes "\<not> vb_in_transaction w"
  shows "run_sync ex (versioned_step x now step) (versioned_new j (vb_level w) (vb_info w)) None (vb_inner w) =
    map_option (\<lambda>(w', res). (vb_inner w', res)) (run_sync (vb_execute x now ex) step j None w)"
proof -
  have i: "in_step (versioned_new j (vb_level w) (vb_info w)) None (vb_inner w) j None w"
    using assms by (simp add: in_step_def versioned_new_def)
  show ?thesis
    using versioned_le [OF _ i, of x now ex step] versioned_ge [OF _ i, of ex x now step]
    by (cases "run_sync (vb_execute x now ex) step j None w";
        cases "run_sync ex (versioned_step x now step) (versioned_new j (vb_level w) (vb_info w)) None (vb_inner w)") fastforce+
qed

definition toy_write :: request where
  "toy_write = request_atomic [statement_new ''DELETE FROM quads WHERE s = 1'']"

definition toy_vb :: "(request list) versioned_backend" where
  "toy_vb = vb_new [] caps_native Log"

theorem versioned_job_is_versioned_backend_witness:
  "\<not> vb_in_transaction toy_vb \<and>
   run_sync (logging (\<lambda>_ _. Inr [])) (versioned_step toy_ext (\<lambda>_. ''2026-01-01T00:00:00Z'') sequence_step) (versioned_new (sequence_new [toy_write]) (vb_level toy_vb) (vb_info toy_vb)) None [] =
   map_option (\<lambda>(w', res). (vb_inner w', res)) (run_sync (vb_execute toy_ext (\<lambda>_. ''2026-01-01T00:00:00Z'') (logging (\<lambda>_ _. Inr []))) sequence_step (sequence_new [toy_write]) None toy_vb)"
proof -
  have "\<not> vb_in_transaction toy_vb" "vb_inner toy_vb = []" by (simp_all add: toy_vb_def vb_new_def)
  with versioned_job_is_versioned_backend [of toy_vb "logging (\<lambda>_ _. Inr [])" toy_ext "\<lambda>_. ''2026-01-01T00:00:00Z''" sequence_step "sequence_new [toy_write]"] show ?thesis by simp
qed


definition toy_transaction :: "(request list) versioned_backend" where
  "toy_transaction = fst (vb_begin (\<lambda>b. (b, Inr ())) toy_vb)"


end
