(* ===== verification/Floats.thy ===== *)
theory Floats
  imports F64
begin

text \<open>
  The remaining \<^verbatim>\<open>f64\<close> operations of the sources: arithmetic over all floats (infinities and NaN
  included), rounding to whole numbers, casts and comparisons. Every NaN result is the one quiet NaN:
  the sources never look at the sign or the payload of a NaN.
\<close>

definition f64_is_inf :: "f64 \<Rightarrow> bool" where
  "f64_is_inf x \<longleftrightarrow> f64_mag x = inf_mag"

definition f64_plus :: "f64 \<Rightarrow> f64 \<Rightarrow> f64" where
  "f64_plus x y =
     (if f64_is_nan x \<or> f64_is_nan y then f64_nan
      else if f64_is_inf x then (if f64_is_inf y \<and> f64_sign x \<noteq> f64_sign y then f64_nan else x)
      else if f64_is_inf y then y
      else f64_add x y)"

definition f64_minus :: "f64 \<Rightarrow> f64 \<Rightarrow> f64" where
  "f64_minus x y = f64_plus x (f64_neg y)"

definition f64_times :: "f64 \<Rightarrow> f64 \<Rightarrow> f64" where
  "f64_times x y =
     (if f64_is_nan x \<or> f64_is_nan y then f64_nan
      else if f64_is_inf x \<or> f64_is_inf y
      then (if f64_mag x = 0 \<or> f64_mag y = 0 then f64_nan else f64_inf (f64_sign x \<noteq> f64_sign y))
      else f64_mul x y)"

definition f64_divide :: "f64 \<Rightarrow> f64 \<Rightarrow> f64" where
  "f64_divide x y =
     (let s = (f64_sign x \<noteq> f64_sign y) in
      if f64_is_nan x \<or> f64_is_nan y then f64_nan
      else if f64_is_inf x then (if f64_is_inf y then f64_nan else f64_inf s)
      else if f64_is_inf y then make_f64 s 0
      else if f64_mag y = 0 then (if f64_mag x = 0 then f64_nan else f64_inf s)
      else f64_of_ratio s \<bar>f64_scaled x\<bar> \<bar>f64_scaled y\<bar>)"

text \<open>\<^verbatim>\<open>trunc\<close> and \<^verbatim>\<open>round\<close> (halves away from zero) are exact; \<^verbatim>\<open>fract\<close> is what \<^verbatim>\<open>trunc\<close> leaves.\<close>

definition f64_trunc :: "f64 \<Rightarrow> f64" where
  "f64_trunc x =
     (if f64_is_nan x then f64_nan else if f64_is_inf x then x
      else f64_of_ratio (f64_sign x) (\<bar>f64_scaled x\<bar> div F64_UNIT) 1)"

definition f64_round :: "f64 \<Rightarrow> f64" where
  "f64_round x =
     (if f64_is_nan x then f64_nan else if f64_is_inf x then x
      else f64_of_ratio (f64_sign x) ((2 * \<bar>f64_scaled x\<bar> + F64_UNIT) div (2 * F64_UNIT)) 1)"

text \<open>\<^verbatim>\<open>x as iN\<close> saturates, and maps NaN to zero.\<close>

definition f64_as_int :: "nat \<Rightarrow> f64 \<Rightarrow> int" where
  "f64_as_int w x =
     (if f64_is_nan x then 0
      else if f64_is_inf x then (if f64_sign x then - (2 ^ (w - 1)) else 2 ^ (w - 1) - 1)
      else max (- (2 ^ (w - 1))) (min (2 ^ (w - 1) - 1) (sgn (f64_scaled x) * (\<bar>f64_scaled x\<bar> div F64_UNIT))))"

text \<open>
  Comparisons. The key of a float that is not NaN puts the infinities around the finite values; both zeros have
  the same key.
\<close>

definition f64_key :: "f64 \<Rightarrow> int" where
  "f64_key x = (if f64_sign x then - f64_mag x else f64_mag x)"

definition f64_lt :: "f64 \<Rightarrow> f64 \<Rightarrow> bool" where
  "f64_lt x y \<longleftrightarrow> \<not> f64_is_nan x \<and> \<not> f64_is_nan y \<and> f64_key x < f64_key y"

definition f64_eq :: "f64 \<Rightarrow> f64 \<Rightarrow> bool" where
  "f64_eq x y \<longleftrightarrow> \<not> f64_is_nan x \<and> \<not> f64_is_nan y \<and> f64_key x = f64_key y"

datatype ordering = Less | Equal | Greater

definition compare_of :: "'a::linorder \<Rightarrow> 'a \<Rightarrow> ordering" where
  "compare_of x y = (if x < y then Less else if x = y then Equal else Greater)"

fun reverse_ordering :: "ordering \<Rightarrow> ordering" where
  "reverse_ordering Less = Greater" | "reverse_ordering Equal = Equal" | "reverse_ordering Greater = Less"

definition then_ordering :: "ordering \<Rightarrow> ordering \<Rightarrow> ordering" where
  "then_ordering a b = (if a = Equal then b else a)"

definition f64_partial_cmp :: "f64 \<Rightarrow> f64 \<Rightarrow> ordering option" where
  "f64_partial_cmp x y = (if f64_is_nan x \<or> f64_is_nan y then None else Some (compare_of (f64_key x) (f64_key y)))"

text \<open>\<^verbatim>\<open>total_cmp\<close> compares the bit patterns as signed numbers, negative ones reversed.\<close>

definition f64_total_key :: "f64 \<Rightarrow> int" where
  "f64_total_key x = (if f64_sign x then - f64_mag x - 1 else f64_mag x)"

definition f64_total_cmp :: "f64 \<Rightarrow> f64 \<Rightarrow> ordering" where
  "f64_total_cmp x y = compare_of (f64_total_key x) (f64_total_key y)"

definition f64_max :: "f64 \<Rightarrow> f64 \<Rightarrow> f64" where
  "f64_max x y = (if f64_is_nan x then y else if f64_is_nan y then x else if f64_key x < f64_key y then y else x)"

definition f64_min :: "f64 \<Rightarrow> f64 \<Rightarrow> f64" where
  "f64_min x y = (if f64_is_nan x then y else if f64_is_nan y then x else if f64_key y < f64_key x then y else x)"

text \<open>\<^verbatim>\<open>sqrt\<close>: the float nearest to the root, found from the whole square root of the value scaled by a square.\<close>

function isqrt_between :: "int \<Rightarrow> int \<Rightarrow> int \<Rightarrow> int" where
  "isqrt_between n lo hi =
     (if hi \<le> lo + 1 then lo
      else let mid = (lo + hi) div 2 in if mid * mid \<le> n then isqrt_between n mid hi else isqrt_between n lo mid)"
  by pat_completeness auto
termination
  by (relation "measure (\<lambda>(n, lo, hi). nat (hi - lo))") auto

declare isqrt_between.simps [simp del]

definition isqrt :: "int \<Rightarrow> int" where
  "isqrt n = isqrt_between n 0 (n + 1)"

definition f64_sqrt :: "f64 \<Rightarrow> f64" where
  "f64_sqrt x =
     (if f64_is_nan x then f64_nan
      else if f64_mag x = 0 then x
      else if f64_sign x then f64_nan
      else if f64_is_inf x then x
      else let n = f64_scaled x * F64_UNIT * 2 ^ 120;
               r = isqrt n
           in f64_of_ratio False (2 * r + (if r * r = n then 0 else 1)) (2 * F64_UNIT * 2 ^ 60))"

section \<open>Orderings\<close>

lemma compare_of_simps [simp]:
  "compare_of x y = Less \<longleftrightarrow> x < y" "compare_of x y = Equal \<longleftrightarrow> x = y" "compare_of x y = Greater \<longleftrightarrow> y < x"
  by (auto simp: compare_of_def)

lemma compare_of_refl [simp]: "compare_of x x = Equal"
  by simp

lemma reverse_compare_of: "reverse_ordering (compare_of x y) = compare_of y x"
  by (auto simp: compare_of_def)

lemma then_ordering_simps [simp]: "then_ordering Equal b = b" "then_ordering Less b = Less" "then_ordering Greater b = Greater"
  by (simp_all add: then_ordering_def)

lemma reverse_ordering_iff [simp]:
  "reverse_ordering a = Less \<longleftrightarrow> a = Greater" "reverse_ordering a = Greater \<longleftrightarrow> a = Less" "reverse_ordering a = Equal \<longleftrightarrow> a = Equal"
  by (cases a; simp)+

lemma reverse_then: "reverse_ordering (then_ordering a b) = then_ordering (reverse_ordering a) (reverse_ordering b)"
  by (cases a) simp_all

end
