(* ===== verification/Cypher_Calendar.thy ===== *)
theory Cypher_Calendar
  imports Errors "HOL-Library.Signed_Division"
begin

text \<open>
  The calendar of the Cypher temporal values (\<^verbatim>\<open>oxilite-cypher/src/temporal.rs\<close>, calendar section):
  day numbers from 1970-01-01 in the proleptic Gregorian calendar, week, ordinal and quarter dates,
  and month arithmetic. The code computes in \<^verbatim>\<open>i64\<close>; the model computes in \<^typ>\<open>int\<close>, which is the
  same as long as the years stay far below the \<^verbatim>\<open>i64\<close> range (a year counts less than 367 days).
\<close>

section \<open>Operations\<close>

definition days_from_civil :: "int \<Rightarrow> int \<Rightarrow> int \<Rightarrow> int" where
  "days_from_civil y0 m d =
     (let y = (if m \<le> 2 then y0 - 1 else y0);
          era = y div 400;
          yoe = y - era * 400;
          mp = (m + 9) smod 12;
          doy = (153 * mp + 2) sdiv 5 + d - 1;
          doe = yoe * 365 + yoe sdiv 4 - yoe sdiv 100 + doy
      in era * 146097 + doe - 719468)"

definition civil_from_days :: "int \<Rightarrow> int \<times> int \<times> int" where
  "civil_from_days z0 =
     (let z = z0 + 719468;
          era = z div 146097;
          doe = z - era * 146097;
          yoe = (doe - doe sdiv 1460 + doe sdiv 36524 - doe sdiv 146096) sdiv 365;
          y = yoe + era * 400;
          doy = doe - (365 * yoe + yoe sdiv 4 - yoe sdiv 100);
          mp = (5 * doy + 2) sdiv 153;
          d = doy - (153 * mp + 2) sdiv 5 + 1;
          m = (if mp < 10 then mp + 3 else mp - 9)
      in (if m \<le> 2 then y + 1 else y, m, d))"

definition is_leap :: "int \<Rightarrow> bool" where
  "is_leap y \<longleftrightarrow> (y smod 4 = 0 \<and> y smod 100 \<noteq> 0) \<or> y smod 400 = 0"

definition days_in_month :: "int \<Rightarrow> int \<Rightarrow> int" where
  "days_in_month y m =
     (if m \<in> {1, 3, 5, 7, 8, 10, 12} then 31
      else if m \<in> {4, 6, 9, 11} then 30
      else if is_leap y then 29 else 28)"

text \<open>The ISO weekday, Monday being 1.\<close>

definition weekday :: "int \<Rightarrow> int" where
  "weekday days = (days + 3) mod 7 + 1"

definition ordinal :: "int \<Rightarrow> int" where
  "ordinal days = (case civil_from_days days of (y, _, _) \<Rightarrow> days - days_from_civil y 1 1 + 1)"

definition iso_week :: "int \<Rightarrow> int \<times> int" where
  "iso_week days =
     (let thursday = days + (4 - weekday days);
          wy = fst (civil_from_days thursday);
          week = (thursday - days_from_civil wy 1 1) sdiv 7 + 1
      in (wy, week))"

definition week1_monday :: "int \<Rightarrow> int" where
  "week1_monday wy = (let jan4 = days_from_civil wy 1 4 in jan4 - (weekday jan4 - 1))"

definition weeks_in_year :: "int \<Rightarrow> int" where
  "weeks_in_year wy = (week1_monday (wy + 1) - week1_monday wy) sdiv 7"

definition quarter_start :: "int \<Rightarrow> int \<Rightarrow> int" where
  "quarter_start y q = days_from_civil y ((q - 1) * 3 + 1) 1"

definition add_months :: "int \<Rightarrow> int \<Rightarrow> int" where
  "add_months days months =
     (case civil_from_days days of (y, m, d) \<Rightarrow>
        let total = y * 12 + (m - 1) + months;
            ny = total div 12;
            nm = total mod 12 + 1
        in days_from_civil ny nm (min d (days_in_month ny nm)))"

section \<open>Errors\<close>

text \<open>\<open>CyPanic\<close> is not an error of the code: it stands for a panic.\<close>

datatype cypher_error =
    CySyntax nat string
  | CyUnsupported string
  | CySemantic string
  | CyRuntime string
  | CyShapeViolation string
  | CyStore error
  | CyPanic

definition rt :: "string \<Rightarrow> cypher_error + 'a" where
  "rt msg = Inl (CyRuntime msg)"

section \<open>Dates from their components\<close>

definition check_date :: "int \<Rightarrow> int \<Rightarrow> int \<Rightarrow> cypher_error + int" where
  "check_date y m d =
     (if \<not> (1 \<le> m \<and> m \<le> 12) \<or> d < 1 \<or> d > days_in_month y m
      then rt (''invalid date '' @ show_int y @ ''-'' @ show_int m @ ''-'' @ show_int d)
      else Inr (days_from_civil y m d))"

definition from_week :: "int \<Rightarrow> int \<Rightarrow> int \<Rightarrow> cypher_error + int" where
  "from_week wy w dow =
     (if w < 1 \<or> w > weeks_in_year wy \<or> \<not> (1 \<le> dow \<and> dow \<le> 7)
      then rt (''invalid week date '' @ show_int wy @ ''-W'' @ show_int w @ ''-'' @ show_int dow)
      else Inr (week1_monday wy + (w - 1) * 7 + (dow - 1)))"

definition from_ordinal :: "int \<Rightarrow> int \<Rightarrow> cypher_error + int" where
  "from_ordinal y od =
     (let len = (if is_leap y then 366 else 365) in
      if od < 1 \<or> od > len then rt (''invalid ordinal day '' @ show_int y @ ''-'' @ show_int od)
      else Inr (days_from_civil y 1 1 + od - 1))"

definition from_quarter :: "int \<Rightarrow> int \<Rightarrow> int \<Rightarrow> cypher_error + int" where
  "from_quarter y q dq =
     (if \<not> (1 \<le> q \<and> q \<le> 4) then rt (''invalid quarter '' @ show_int q)
      else let start = quarter_start y q;
               len = quarter_start (y + q sdiv 4) (q smod 4 + 1) - start
           in if dq < 1 \<or> dq > len then rt (''invalid day of quarter '' @ show_int dq) else Inr (start + dq - 1))"

section \<open>The calendar as a reference\<close>

text \<open>A date of the calendar and the one after it.\<close>

definition valid_date :: "int \<times> int \<times> int \<Rightarrow> bool" where
  "valid_date v = (case v of (y, m, d) \<Rightarrow> 1 \<le> m \<and> m \<le> 12 \<and> 1 \<le> d \<and> d \<le> days_in_month y m)"

definition next_date :: "int \<times> int \<times> int \<Rightarrow> int \<times> int \<times> int" where
  "next_date v =
     (case v of (y, m, d) \<Rightarrow>
        if d < days_in_month y m then (y, m, d + 1) else if m < 12 then (y, m + 1, 1) else (y + 1, 1, 1))"

section \<open>Division\<close>

lemma sdiv_nonneg: "0 \<le> a \<Longrightarrow> 0 < b \<Longrightarrow> a sdiv b = (a::int) div b"
  by (cases "a = 0") (simp_all add: signed_divide_int_def)

lemma smod_nonneg: "0 \<le> a \<Longrightarrow> 0 < b \<Longrightarrow> a smod b = (a::int) mod b"
  by (cases "a = 0") (simp_all add: signed_modulo_int_def)

lemma smod_eq_0_iff: "0 < b \<Longrightarrow> a smod b = 0 \<longleftrightarrow> (a::int) mod b = 0"
proof (cases "0 \<le> a")
  case False
  assume "0 < b"
  with False have "a smod b = - ((- a) mod b)" by (simp add: signed_modulo_int_def)
  then show ?thesis by (simp add: zmod_zminus1_eq_if) (use pos_mod_bound [of b a] \<open>0 < b\<close> in linarith)
qed (simp add: smod_nonneg)

lemma div_step: "0 < k \<Longrightarrow> (n + 1) div k = n div k + (if (n + 1) mod k = 0 then 1 else 0)" for n k :: int
proof -
  assume k: "0 < k"
  define q r where "q = (n + 1) div k" and "r = (n + 1) mod k"
  have n: "n + 1 = k * q + r" "0 \<le> r" "r < k" using k by (simp_all add: q_def r_def)
  show ?thesis
  proof (cases "r = 0")
    case True
    with n k have "n div k = q - 1" by (intro int_div_pos_eq [of _ _ _ "k - 1"]) (auto simp: algebra_simps)
    with True show ?thesis by (simp add: q_def r_def)
  next
    case False
    with n k have "n div k = q" by (intro int_div_pos_eq [of _ _ _ "r - 1"]) (auto simp: algebra_simps)
    with False show ?thesis by (simp add: q_def r_def)
  qed
qed

lemma is_leap_mod: "is_leap y \<longleftrightarrow> (y mod 4 = 0 \<and> y mod 100 \<noteq> 0) \<or> y mod 400 = 0"
  by (simp add: is_leap_def smod_eq_0_iff)

section \<open>Years that start in March\<close>

text \<open>The days before year \<open>n\<close>, and before the month \<open>mp\<close> (March being 0) of a year.\<close>

definition march :: "int \<Rightarrow> int" where
  "march n = 365 * n + n div 4 - n div 100 + n div 400"

definition month_start :: "int \<Rightarrow> int" where
  "month_start mp = (153 * mp + 2) div 5"

lemma mod_0_dvd: "k dvd l \<Longrightarrow> n mod l = 0 \<Longrightarrow> n mod k = 0" for n :: int
  by (metis dvd_trans mod_0_imp_dvd dvd_imp_mod_0)

lemma march_step: "march (n + 1) - march n = (if is_leap (n + 1) then 366 else 365)"
  using mod_0_dvd [of 4 100 "n + 1"] mod_0_dvd [of 100 400 "n + 1"]
  unfolding march_def is_leap_mod by (auto simp: div_step)

lemma march_era: "march (400 * e + n) = 146097 * e + march n"
proof -
  have "(400 * e + n) div 4 = 100 * e + n div 4" "(400 * e + n) div 100 = 4 * e + n div 100"
    "(400 * e + n) div 400 = e + n div 400"
    using div_mult_self4 [of 4 n "100 * e"] div_mult_self4 [of 100 n "4 * e"] by simp_all
  then show ?thesis by (simp add: march_def)
qed

lemma march_ge: "0 \<le> k \<Longrightarrow> march m + 365 * k \<le> march (m + k)"
proof (induction k rule: int_ge_induct)
  case (step i)
  with march_step [of "m + i"] show ?case by (simp add: add.assoc split: if_splits)
qed simp

lemma march_less: "m < n \<Longrightarrow> march (m + 1) \<le> march n"
  using march_ge [of "n - (m + 1)" "m + 1"] by simp

lemma month_cases:
  assumes "1 \<le> m" "m \<le> (12::int)"
  shows "m = 1 \<or> m = 2 \<or> m = 3 \<or> m = 4 \<or> m = 5 \<or> m = 6 \<or> m = 7 \<or> m = 8 \<or> m = 9 \<or> m = 10 \<or> m = 11 \<or> m = 12"
  using assms by presburger

lemma days_from_civil_march:
  assumes "1 \<le> m" "m \<le> 12"
  shows "days_from_civil y m d =
    march (if m \<le> 2 then y - 1 else y) + month_start ((m + 9) mod 12) + d - 1 - 719468"
proof -
  define y' where "y' = (if m \<le> 2 then y - 1 else y)"
  define e n where "e = y' div 400" and "n = y' mod 400"
  have y': "y' = 400 * e + n" "0 \<le> n" "n < 400" by (simp_all add: e_def n_def)
  have "march y' = 146097 * e + march n" unfolding y'(1) by (rule march_era)
  moreover have "march n = n * 365 + n div 4 - n div 100" using y'(2,3) by (simp add: march_def)
  moreover have "(m + 9) smod 12 = (m + 9) mod 12" using assms by (simp add: smod_nonneg)
  moreover have "(153 * ((m + 9) mod 12) + 2) sdiv 5 = month_start ((m + 9) mod 12)"
    unfolding month_start_def by (rule sdiv_nonneg) (use assms in auto)
  ultimately show ?thesis
    using y'(2) unfolding days_from_civil_def y'_def [symmetric] Let_def
    by (simp add: e_def [symmetric] sdiv_nonneg) (simp add: y'(1) sdiv_nonneg)
qed


section \<open>From days to dates\<close>

text \<open>The year of a day of a 400-year era, and its parts: centuries, leap cycles and years.\<close>

lemma era_parts:
  assumes "0 \<le> t" "t < (146097::int)"
  obtains c q k r where "t = 36524 * c + 1461 * q + 365 * k + r" "c \<in> {0, 1, 2, 3}" "0 \<le> q" "q \<le> 24" "k \<in> {0, 1, 2, 3}"
    "0 \<le> r" "r < 365 \<or> r = 365 \<and> k = 3 \<and> (q < 24 \<or> c = 3)"
proof -
  define c where "c = min (t div 36524) 3"
  define t1 where "t1 = t - 36524 * c"
  define q where "q = t1 div 1461"
  define t2 where "t2 = t1 - 1461 * q"
  define k where "k = min (t2 div 365) 3"
  define r where "r = t2 - 365 * k"
  have c: "c \<in> {0, 1, 2, 3}" using assms unfolding c_def by (simp add: min_def) linarith
  have t1: "0 \<le> t1" "t1 < 36524 \<or> t1 = 36524 \<and> c = 3" using assms unfolding t1_def c_def by (auto simp: min_def)
  have q: "0 \<le> q" "q \<le> 24" using t1 unfolding q_def by auto
  have t2: "0 \<le> t2" "t2 < 1461" unfolding t2_def q_def by (simp_all add: minus_mult_div_eq_mod)
  have t2': "t2 < 1460 \<or> q < 24 \<or> c = 3" using t1 q unfolding t2_def by auto
  have k: "k \<in> {0, 1, 2, 3}" using t2 unfolding k_def by (simp add: min_def) linarith
  have r: "0 \<le> r" "r < 365 \<or> r = 365 \<and> k = 3" using t2 unfolding r_def k_def by (auto simp: min_def)
  with t2' have "r < 365 \<or> r = 365 \<and> k = 3 \<and> (q < 24 \<or> c = 3)" by (auto simp: r_def)
  moreover have "t = 36524 * c + 1461 * q + 365 * k + r" by (simp add: r_def t2_def t1_def)
  ultimately show thesis using that c q k r by blast
qed

lemma year_of_era:
  assumes t: "t = 36524 * c + 1461 * q + 365 * k + r" and c: "c \<in> {0, 1, 2, 3}" and q: "0 \<le> q" "q \<le> 24"
    and k: "k \<in> {0, 1, 2, 3}" and r: "0 \<le> r" "r < 365 \<or> r = 365 \<and> k = 3 \<and> (q < 24 \<or> c = (3::int))"
  shows "(t - t div 1460 + t div 36524 - t div 146096) div 365 = 100 * c + 4 * q + k"
proof -
  define s where "s = 24 * c + q + 365 * k + r"
  define e where "e = (if 1460 \<le> s then 1 else 0 :: int)"
  have s: "0 \<le> s" "s < 2920" using assms by (auto simp: s_def)
  have "t = 1460 * (25 * c + q) + s" by (simp add: t s_def)
  then have d1: "t div 1460 = 25 * c + q + e" using s by (intro int_div_pos_eq [of _ _ _ "s - 1460 * e"]) (auto simp: e_def)
  define u where "u = 1461 * q + 365 * k + r"
  have u: "0 \<le> u" "u < 36524 \<or> u = 36524 \<and> c = 3" using assms by (auto simp: u_def)
  have tu: "t = 36524 * c + u" by (simp add: t u_def)
  have d2: "t div 36524 - t div 146096 = c"
  proof (cases "u = 36524 \<and> c = 3")
    case True
    then show ?thesis by (simp add: tu)
  next
    case False
    with u have "u < 36524" by auto
    with u tu have "t div 36524 = c" by (intro int_div_pos_eq [of _ _ _ u]) auto
    moreover have "t div 146096 = 0" using u False tu c by (intro div_pos_pos_trivial) auto
    ultimately show ?thesis by simp
  qed
  have "0 \<le> r - e" "r - e < 365" using assms by (auto simp: e_def s_def)
  moreover have "t - t div 1460 + t div 36524 - t div 146096 = 365 * (100 * c + 4 * q + k) + (r - e)"
    using d1 d2 by (simp add: t)
  ultimately show ?thesis by (intro int_div_pos_eq) auto
qed

lemma march_of_parts:
  assumes c: "c \<in> {0, 1, 2, 3}" and q: "0 \<le> q" "q \<le> 24" and k: "k \<in> {0, 1, 2, (3::int)}"
  shows "march (100 * c + 4 * q + k) = 36524 * c + 1461 * q + 365 * k"
proof -
  have "(100 * c + 4 * q + k) div 4 = 25 * c + q" "(100 * c + 4 * q + k) div 100 = c"
    using int_div_pos_eq [of "100 * c + 4 * q + k" 4 "25 * c + q" k] int_div_pos_eq [of "100 * c + 4 * q + k" 100 c "4 * q + k"] q k by auto
  moreover have "(100 * c + 4 * q + k) div 400 = 0" using assms by auto
  ultimately show ?thesis by (simp add: march_def)
qed

lemma month_of_day:
  assumes "0 \<le> r" "r \<le> (365::int)"
  shows "0 \<le> (5 * r + 2) div 153" "(5 * r + 2) div 153 \<le> 11"
    "month_start ((5 * r + 2) div 153) \<le> r" "r < month_start ((5 * r + 2) div 153 + 1)"
proof -
  define mp where "mp = (5 * r + 2) div 153"
  have "153 * mp + (5 * r + 2) mod 153 = 5 * r + 2" unfolding mp_def by simp
  moreover have "0 \<le> (5 * r + 2) mod 153" "(5 * r + 2) mod 153 < 153" by simp_all
  ultimately have mp: "153 * mp \<le> 5 * r + 2" "5 * r + 2 < 153 * mp + 153" by linarith+
  from mp assms show "0 \<le> (5 * r + 2) div 153" "(5 * r + 2) div 153 \<le> 11" unfolding mp_def [symmetric] by linarith+
  have "month_start mp \<le> r" using mp(1) unfolding month_start_def by linarith
  moreover have "5 * (r + 1) \<le> 153 * (mp + 1) + 2" using mp(2) by simp
  then have "r + 1 \<le> month_start (mp + 1)" using zdiv_mono1 [of "5 * (r + 1)" "153 * (mp + 1) + 2" 5] unfolding month_start_def by simp
  ultimately show "month_start ((5 * r + 2) div 153) \<le> r" "r < month_start ((5 * r + 2) div 153 + 1)"
    unfolding mp_def [symmetric] by simp_all
qed


section \<open>The two directions agree\<close>

text \<open>A day number as a March year, month and day of the month.\<close>

definition march_date :: "int \<Rightarrow> int \<Rightarrow> int \<Rightarrow> int \<times> int \<times> int" where
  "march_date n mp d = (if mp < 10 then (n, mp + 3, d) else (n + 1, mp - 9, d))"

lemma civil_from_days_march:
  obtains n mp r where "z + 719468 = march n + r" "0 \<le> r" "march n + r < march (n + 1)" "0 \<le> mp" "mp \<le> 11"
    "month_start mp \<le> r" "r < month_start (mp + 1)" "civil_from_days z = march_date n mp (r - month_start mp + 1)"
proof -
  define e t where "e = (z + 719468) div 146097" and "t = (z + 719468) mod 146097"
  have z: "z + 719468 - e * 146097 = t" "z + 719468 = 146097 * e + t" by (simp_all add: e_def t_def minus_div_mult_eq_mod)
  have t0: "0 \<le> t" "t < 146097" by (simp_all add: t_def)
  from era_parts [OF t0] obtain c q k r where
    t: "t = 36524 * c + 1461 * q + 365 * k + r" and c: "c \<in> {0, 1, 2, 3}" and q: "0 \<le> q" "q \<le> 24"
    and k: "k \<in> {0, 1, 2, 3}" and r: "0 \<le> r" "r < 365 \<or> r = 365 \<and> k = 3 \<and> (q < 24 \<or> c = 3)" .
  define y where "y = 100 * c + 4 * q + k"
  have y0: "0 \<le> y" "y < 400" using c q k by (auto simp: y_def)
  have yoe: "(t - t div 1460 + t div 36524 - t div 146096) div 365 = y"
    unfolding y_def by (rule year_of_era [OF t c q k r])
  have nn: "0 \<le> t - t div 1460 + t div 36524 - t div 146096" using yoe y0 by linarith
  have my: "march y = t - r" unfolding y_def march_of_parts [OF c q k] using t by simp
  then have my': "365 * y + y div 4 - y div 100 = t - r" using y0 by (simp add: march_def)
  define n where "n = 400 * e + y"
  have mn: "march n = 146097 * e + (t - r)" unfolding n_def march_era my ..
  define mp where "mp = (5 * r + 2) div 153"
  have r365: "r \<le> 365" using r by auto
  note mp = month_of_day [OF r(1) r365, folded mp_def]
  have dy: "r < march (n + 1) - march n"
  proof -
    have "is_leap (n + 1)" if "r = 365"
    proof -
      from that r have "k = 3" "q < 24 \<or> c = 3" by auto
      then have n1: "n + 1 = 400 * e + 100 * c + 4 * (q + 1)" by (simp add: n_def y_def)
      have "(n + 1) mod 4 = 0" unfolding n1 by presburger
      moreover have "(n + 1) mod 100 \<noteq> 0 \<or> (n + 1) mod 400 = 0"
      proof (cases "q < 24")
        case True
        have "n + 1 = 4 * (q + 1) + 100 * (4 * e + c)" by (simp add: n1)
        then have "(n + 1) mod 100 = 4 * (q + 1) mod 100" by (simp only: mod_mult_self2)
        also have "\<dots> = 4 * (q + 1)" using q True by (intro mod_pos_pos_trivial) auto
        finally have r: "(n + 1) mod 100 = 4 * (q + 1)" .
        have "4 * (q + 1) \<noteq> 0" using q(1) by simp
        with r show ?thesis by (simp only: simp_thms)
      next
        case False
        with q \<open>q < 24 \<or> c = 3\<close> have "n + 1 = 400 * (e + 1)" by (auto simp: n1)
        then have "(n + 1) mod 400 = 0" by (simp only: mod_mult_self1_is_0)
        then show ?thesis ..
      qed
      ultimately show ?thesis by (auto simp: is_leap_mod)
    qed
    then show ?thesis using march_step [of n] r by auto
  qed
  have "civil_from_days z = march_date n mp (r - month_start mp + 1)"
  proof -
    have s1: "t sdiv 1460 = t div 1460" "t sdiv 36524 = t div 36524" "t sdiv 146096 = t div 146096"
      using t0 by (simp_all add: sdiv_nonneg)
    have s2: "(t - t div 1460 + t div 36524 - t div 146096) sdiv 365 = y" using sdiv_nonneg [OF nn, of 365] yoe by simp
    have s3: "y sdiv 4 = y div 4" "y sdiv 100 = y div 100" using y0 by (simp_all add: sdiv_nonneg)
    have s4: "t - (365 * y + y div 4 - y div 100) = r" using my' by simp
    have s5: "(5 * r + 2) sdiv 153 = mp" "(153 * mp + 2) sdiv 5 = month_start mp"
      using r(1) mp(1) by (simp_all add: sdiv_nonneg mp_def month_start_def)
    show ?thesis
      unfolding civil_from_days_def Let_def e_def [symmetric] z(1) s1 s2 s3 s4 s5 march_date_def n_def
      using mp(1,2) by (simp add: algebra_simps)
  qed
  with that [of n r mp] mp r(1) dy mn z(2) show thesis by simp
qed

lemma month_start_simps:
  "month_start 0 = 0" "month_start 1 = 31" "month_start 2 = 61" "month_start 3 = 92" "month_start 4 = 122" "month_start 5 = 153"
  "month_start 6 = 184" "month_start 7 = 214" "month_start 8 = 245" "month_start 9 = 275" "month_start 10 = 306"
  "month_start 11 = 337" "month_start 12 = 367"
  by (simp_all add: month_start_def)

lemma march_months:
  assumes "0 \<le> mp" "mp \<le> (11::int)"
  shows "mp = 0 \<or> mp = 1 \<or> mp = 2 \<or> mp = 3 \<or> mp = 4 \<or> mp = 5 \<or> mp = 6 \<or> mp = 7 \<or> mp = 8 \<or> mp = 9 \<or> mp = 10 \<or> mp = 11"
  using assms by presburger

text \<open>Inside a March year a date is valid when its day lies before the next month and before the next year.\<close>

lemma march_date_valid:
  assumes "0 \<le> mp" "mp \<le> 11"
  shows "valid_date (march_date n mp d) \<longleftrightarrow>
    1 \<le> d \<and> month_start mp + d \<le> month_start (mp + 1) \<and> month_start mp + d \<le> march (n + 1) - march n"
proof -
  have step: "march (n + 1) - march n = (if is_leap (n + 1) then 366 else 365)" by (rule march_step)
  show ?thesis unfolding step using march_months [OF assms]
    by (elim disjE; hypsubst) (auto simp: valid_date_def march_date_def days_in_month_def month_start_simps)
qed

lemma march_date_days:
  assumes "0 \<le> mp" "mp \<le> 11"
  shows "(case march_date n mp d of (y, m, d) \<Rightarrow> days_from_civil y m d) = march n + month_start mp + d - 1 - 719468"
  using march_months [OF assms] by (elim disjE) (simp_all add: march_date_def days_from_civil_march)

lemma march_date_exists:
  assumes "1 \<le> m" "m \<le> 12"
  obtains n mp where "0 \<le> mp" "mp \<le> 11" "(y, m, d) = march_date n mp d"
proof (cases "m \<le> 2")
  case True
  with assms that [of "m + 9" "y - 1"] show thesis by (simp add: march_date_def)
next
  case False
  with assms that [of "m - 3" y] show thesis by (simp add: march_date_def)
qed

lemma civil_valid: "valid_date (civil_from_days z)"
  and civil_days: "(case civil_from_days z of (y, m, d) \<Rightarrow> days_from_civil y m d) = z"
proof -
  from civil_from_days_march [of z] obtain n mp r where
    "z + 719468 = march n + r" "0 \<le> r" "march n + r < march (n + 1)" and mp: "0 \<le> mp" "mp \<le> 11"
    "month_start mp \<le> r" "r < month_start (mp + 1)" and c: "civil_from_days z = march_date n mp (r - month_start mp + 1)" .
  then show "valid_date (civil_from_days z)" "(case civil_from_days z of (y, m, d) \<Rightarrow> days_from_civil y m d) = z"
    unfolding c march_date_valid [OF mp(1,2)] march_date_days [OF mp(1,2)] by auto
qed


text \<open>Later valid dates have larger day numbers.\<close>

lemma month_start_mono: "0 \<le> mp \<Longrightarrow> mp < mp' \<Longrightarrow> month_start (mp + 1) \<le> month_start mp'"
  unfolding month_start_def by (intro zdiv_mono1) auto

lemma march_date_order:
  assumes v: "valid_date (march_date n mp d)" "valid_date (march_date n' mp' d')"
    and mp: "0 \<le> mp" "mp \<le> 11" "0 \<le> mp'" "mp' \<le> 11"
    and less: "n < n' \<or> n = n' \<and> (mp < mp' \<or> mp = mp' \<and> d < d')"
  shows "march n + month_start mp + d < march n' + month_start mp' + d'"
proof -
  from v mp have d: "month_start mp + d \<le> month_start (mp + 1)" "month_start mp + d \<le> march (n + 1) - march n" "1 \<le> d'"
    by (simp_all add: march_date_valid)
  have s: "0 \<le> month_start mp'" using mp(3) by (simp add: month_start_def)
  from less consider "n < n'" | "n = n'" "mp < mp'" | "n = n'" "mp = mp'" "d < d'" by blast
  then show ?thesis
  proof cases
    case 1
    with march_less [of n n'] d s show ?thesis by linarith
  next
    case 2
    with month_start_mono [of mp mp'] mp(1) have "month_start (mp + 1) \<le> month_start mp'" by simp
    with 2 d show ?thesis by simp
  qed simp
qed

lemma march_date_inj:
  assumes "valid_date (march_date n mp d)" "valid_date (march_date n' mp' d')" "0 \<le> mp" "mp \<le> 11" "0 \<le> mp'" "mp' \<le> 11"
    "march n + month_start mp + d = march n' + month_start mp' + d'"
  shows "n = n' \<and> mp = mp' \<and> d = d'"
  using march_date_order [OF assms(1-6)] march_date_order [OF assms(2,1,5,6,3,4)] assms(7) by linarith

lemma days_civil:
  assumes "valid_date (y, m, d)"
  shows "civil_from_days (days_from_civil y m d) = (y, m, d)"
proof -
  from assms have "1 \<le> m" "m \<le> 12" by (auto simp: valid_date_def)
  from march_date_exists [OF this, of y d] obtain n mp where mp: "0 \<le> mp" "mp \<le> 11" "(y, m, d) = march_date n mp d" by blast
  define z where "z = days_from_civil y m d"
  have z: "z = march n + month_start mp + d - 1 - 719468" using march_date_days [OF mp(1,2), of n d] by (simp add: z_def flip: mp(3))
  obtain y' m' d' where c: "civil_from_days z = (y', m', d')" by (cases "civil_from_days z") auto
  have v: "valid_date (y', m', d')" using civil_valid [of z] by (simp add: c)
  then have "1 \<le> m'" "m' \<le> 12" by (auto simp: valid_date_def)
  from march_date_exists [OF this, of y' d'] obtain n' mp' where mp': "0 \<le> mp'" "mp' \<le> 11" "(y', m', d') = march_date n' mp' d'" by blast
  have "z = march n' + month_start mp' + d' - 1 - 719468"
    using civil_days [of z] march_date_days [OF mp'(1,2), of n' d'] by (simp add: c flip: mp'(3))
  with z have "march n + month_start mp + d = march n' + month_start mp' + d'" by simp
  from march_date_inj [OF _ _ mp(1,2) mp'(1,2) this] assms v have "n = n'" "mp = mp'" "d = d'" by (simp_all add: mp(3) mp'(3))
  with c mp(3) mp'(3) show ?thesis by (simp add: z_def)
qed

lemma civil_from_days_eq_iff: "valid_date (y, m, d) \<Longrightarrow> civil_from_days z = (y, m, d) \<longleftrightarrow> z = days_from_civil y m d"
  using days_civil civil_days [of z] by auto

lemma days_in_month_bounds: "28 \<le> days_in_month y m" "days_in_month y m \<le> 31"
  by (simp_all add: days_in_month_def)

lemma next_date_valid: "valid_date v \<Longrightarrow> valid_date (next_date v)"
  using days_in_month_bounds by (auto simp: valid_date_def next_date_def intro: order_trans [of 1 28] split: prod.splits)

lemma days_next_date:
  assumes "valid_date (y, m, d)"
  shows "(case next_date (y, m, d) of (y', m', d') \<Rightarrow> days_from_civil y' m' d') = days_from_civil y m d + 1"
proof (cases "d < days_in_month y m")
  case True
  with assms show ?thesis by (simp add: next_date_def valid_date_def days_from_civil_march)
next
  case False
  with assms have d: "d = days_in_month y m" by (simp add: valid_date_def)
  from assms have m: "1 \<le> m" "m \<le> 12" by (auto simp: valid_date_def)
  have "march y - march (y - 1) = (if is_leap y then 366 else 365)" using march_step [of "y - 1"] by simp
  then have "is_leap y \<longrightarrow> march y = march (y - 1) + 366" "\<not> is_leap y \<longrightarrow> march y = march (y - 1) + 365" by auto
  then show ?thesis
    using month_cases [OF m] d
    by (elim disjE; hypsubst) (simp_all add: next_date_def days_in_month_def days_from_civil_march month_start_simps)
qed



section \<open>Components\<close>

lemma days_in_year: "days_from_civil (y + 1) 1 1 - days_from_civil y 1 1 = (if is_leap y then 366 else 365)"
  using march_step [of "y - 1"] by (simp add: days_from_civil_march)

lemma year_bounds:
  assumes "civil_from_days z = (y, m, d)"
  shows "days_from_civil y 1 1 \<le> z" "z < days_from_civil (y + 1) 1 1"
proof -
  have z: "z = days_from_civil y m d" and v: "valid_date (y, m, d)" using civil_days [of z] civil_valid [of z] assms by simp_all
  then have m: "1 \<le> m" "m \<le> 12" and d: "1 \<le> d" "d \<le> days_in_month y m" by (simp_all add: valid_date_def)
  have "march y - march (y - 1) = (if is_leap y then 366 else 365)" using march_step [of "y - 1"] by simp
  then have "is_leap y \<longrightarrow> march y = march (y - 1) + 366" "\<not> is_leap y \<longrightarrow> march y = march (y - 1) + 365" by auto
  then have "days_from_civil y 1 1 \<le> days_from_civil y m d \<and> days_from_civil y m d < days_from_civil (y + 1) 1 1"
    using month_cases [OF m] d
    by (elim disjE; hypsubst) (auto simp: days_in_month_def days_from_civil_march month_start_simps split: if_splits)
  then show "days_from_civil y 1 1 \<le> z" "z < days_from_civil (y + 1) 1 1" by (simp_all add: z)
qed

lemma from_ordinal_ordinal:
  assumes "civil_from_days z = (y, m, d)"
  shows "from_ordinal y (ordinal z) = Inr z"
  using year_bounds [OF assms] days_in_year [of y] by (auto simp: from_ordinal_def ordinal_def assms split: if_splits)

lemma weekday_bounds: "1 \<le> weekday z" "weekday z \<le> 7"
  by (simp_all add: weekday_def)

lemma week1_monday_mod: "(week1_monday wy + 3) mod 7 = 0"
proof -
  define j where "j = days_from_civil wy 1 4"
  have "week1_monday wy + 3 = 7 * ((j + 3) div 7)"
    using minus_mod_eq_mult_div [of "j + 3" 7] by (simp add: week1_monday_def weekday_def flip: j_def)
  then show ?thesis by simp
qed

lemma week1_monday_near: "days_from_civil wy 1 1 - 3 \<le> week1_monday wy" "week1_monday wy \<le> days_from_civil wy 1 1 + 3"
  using weekday_bounds [of "days_from_civil wy 1 4"] by (simp_all add: week1_monday_def days_from_civil_march)

lemma iso_week_parts:
  assumes "iso_week z = (wy, w)"
  shows "1 \<le> w" "w \<le> weeks_in_year wy" "z = week1_monday wy + (w - 1) * 7 + (weekday z - 1)"
proof -
  define th where "th = z + (4 - weekday z)"
  obtain y m d where c: "civil_from_days th = (y, m, d)" by (cases "civil_from_days th") auto
  note b = year_bounds [OF c]
  define j where "j = days_from_civil y 1 1"
  have wy: "wy = y" "w = (th - j) sdiv 7 + 1"
    using assms c unfolding iso_week_def Let_def th_def [symmetric] j_def by auto
  then have w: "w = (th - j) div 7 + 1" using b by (simp add: sdiv_nonneg j_def)
  have th7: "th mod 7 = 0"
  proof -
    have "th = 7 * ((z + 3) div 7)" using minus_mod_eq_mult_div [of "z + 3" 7] by (simp add: th_def weekday_def)
    then show ?thesis by simp
  qed
  define mon where "mon = week1_monday y"
  have mon: "(mon + 3) mod 7 = 0" "j - 3 \<le> mon" "mon \<le> j + 3" using week1_monday_mod week1_monday_near by (simp_all add: mon_def j_def)
  have d7: "7 dvd mon + 3" "7 dvd th" using mon(1) th7 by auto
  then have "7 dvd th - (mon + 3)" using dvd_diff by blast
  then obtain i where i: "th = mon + 3 + 7 * i" by (metis add_diff_cancel_left' diff_add_cancel dvdE add.commute)
  have "th - j = 7 * i + (mon + 3 - j)" using i by simp
  moreover have "0 \<le> mon + 3 - j" "mon + 3 - j < 7" using mon by linarith+
  ultimately have "(th - j) div 7 = i" by (intro int_div_pos_eq) auto
  then have wi: "w = i + 1" using w by simp
  then show "z = week1_monday wy + (w - 1) * 7 + (weekday z - 1)" using i by (simp add: th_def wy(1) mon_def)
  have "0 \<le> th - j" using b by (simp add: j_def)
  with i mon show "1 \<le> w" unfolding wi by linarith
  define mon' where "mon' = week1_monday (y + 1)"
  define j' where "j' = days_from_civil (y + 1) 1 1"
  have mon': "(mon' + 3) mod 7 = 0" "j' - 3 \<le> mon'" "mon' \<le> j' + 3" using week1_monday_mod week1_monday_near by (simp_all add: mon'_def j'_def)
  have "7 dvd mon' + 3" using mon'(1) by auto
  then have "7 dvd (mon' + 3) - (mon + 3)" using d7(1) by (rule dvd_diff)
  then obtain k where "mon' - mon = 7 * k" by (auto elim!: dvdE)
  then have k: "mon' = mon + 7 * k" by simp
  have "j' - j = (if is_leap y then 366 else 365)" unfolding j_def j'_def by (rule days_in_year)
  then have "mon < mon'" using mon mon' by (simp split: if_splits)
  then have "weeks_in_year y = k" using k by (simp add: weeks_in_year_def sdiv_nonneg flip: mon_def mon'_def)
  moreover have "th < j'" using b by (simp add: j'_def)
  with i k mon' have "i < k" by linarith
  ultimately show "w \<le> weeks_in_year wy" by (simp add: wi wy(1))
qed

lemma from_week_iso_week: "(case iso_week z of (wy, w) \<Rightarrow> from_week wy w (weekday z)) = Inr z"
  using iso_week_parts [of z] weekday_bounds [of z] by (auto simp: from_week_def split: prod.splits)

lemma quarter_of_month:
  assumes "civil_from_days z = (y, m, d)" "q = (m - 1) sdiv 3 + 1"
  shows "from_quarter y q (z - quarter_start y q + 1) = Inr z"
proof -
  have z: "z = days_from_civil y m d" and v: "valid_date (y, m, d)" using civil_days [of z] civil_valid [of z] assms(1) by simp_all
  then have m: "1 \<le> m" "m \<le> 12" and d: "1 \<le> d" "d \<le> days_in_month y m" by (simp_all add: valid_date_def)
  have "march y - march (y - 1) = (if is_leap y then 366 else 365)" using march_step [of "y - 1"] by simp
  then have leap: "is_leap y \<longrightarrow> march y = march (y - 1) + 366" "\<not> is_leap y \<longrightarrow> march y = march (y - 1) + 365" by auto
  have "1 \<le> q \<and> q \<le> 4 \<and> quarter_start y q \<le> z \<and> z < quarter_start (y + q sdiv 4) (q smod 4 + 1)"
    using month_cases [OF m] d leap
    by (elim disjE; hypsubst)
      (auto simp: z assms(2) days_in_month_def quarter_start_def days_from_civil_march month_start_simps sdiv_nonneg smod_nonneg
        split: if_splits)
  then show ?thesis by (auto simp: from_quarter_def Let_def)
qed


end
