(* ===== verification/Cypher_Value.thy ===== *)
theory Cypher_Value
  imports Floats Cypher_Calendar Rdf
begin

text \<open>
  Cypher values (\<^verbatim>\<open>oxilite-cypher/src/value.rs\<close>, the data types and their accessors). An \<^verbatim>\<open>i64\<close> is an \<^typ>\<open>int\<close>
  in range, a map is the list of its entries in key order, and a temporal value is its kind and its
  rendered text, as in the code. The comparisons are in \<open>Cypher_Order\<close>, the temporal values in \<open>Cypher_Temporal\<close>.
\<close>

datatype temporal_kind = KDate | KDateTime | KLocalDateTime | KTime | KLocalTime | KDuration

datatype cy_value =
    VNull
  | VBool bool
  | VInt int
  | VFloat f64
  | VString string
  | VTemporal temporal_kind string
  | VList "cy_value list"
  | VMap "(string \<times> cy_value) list"
  | VNode cy_node
  | VRel cy_rel
  | VPath "cy_node list" "cy_rel list"
and cy_node = CyNode (cn_id: named_or_blank) (cn_labels: "string list") (cn_props: "(string \<times> cy_value) list")
and cy_rel = CyRel (cr_start: named_or_blank) (cr_predicate: string) (cr_end: named_or_blank) (cr_reifier: "named_or_blank option")
    (cr_type: string) (cr_props: "(string \<times> cy_value) list")

section \<open>Accessors\<close>

definition RDF_JSON :: string where
  "RDF_JSON = rdf_ns ''JSON''"

fun kind_datatype :: "temporal_kind \<Rightarrow> string" where
  "kind_datatype KDate = xsd ''date''"
| "kind_datatype KDateTime = xsd ''dateTime''"
| "kind_datatype KLocalDateTime = xsd ''dateTime''"
| "kind_datatype KTime = xsd ''time''"
| "kind_datatype KLocalTime = xsd ''time''"
| "kind_datatype KDuration = xsd ''duration''"

fun subject_str :: "named_or_blank \<Rightarrow> string" where
  "subject_str (SNamed n) = n"
| "subject_str (SBlank b) = ''_:'' @ b"

definition node_element_id :: "cy_node \<Rightarrow> string" where
  "node_element_id n = subject_str (cn_id n)"

definition rel_element_id :: "cy_rel \<Rightarrow> string" where
  "rel_element_id r =
     (case cr_reifier r of
        Some x \<Rightarrow> subject_str x
      | None \<Rightarrow> ''<<( '' @ subject_str (cr_start r) @ '' <'' @ cr_predicate r @ ''> '' @ subject_str (cr_end r) @ '' )>>'')"

definition same_rel :: "cy_rel \<Rightarrow> cy_rel \<Rightarrow> bool" where
  "same_rel a b \<longleftrightarrow>
     cr_start a = cr_start b \<and> cr_predicate a = cr_predicate b \<and> cr_end a = cr_end b \<and> cr_reifier a = cr_reifier b"

definition cy_is_null :: "cy_value \<Rightarrow> bool" where
  "cy_is_null v \<longleftrightarrow> v = VNull"

fun kind_name :: "temporal_kind \<Rightarrow> string" where
  "kind_name KDate = ''DATE''"
| "kind_name KDateTime = ''DATETIME''"
| "kind_name KLocalDateTime = ''LOCALDATETIME''"
| "kind_name KTime = ''TIME''"
| "kind_name KLocalTime = ''LOCALTIME''"
| "kind_name KDuration = ''DURATION''"

fun type_name :: "cy_value \<Rightarrow> string" where
  "type_name VNull = ''NULL''"
| "type_name (VBool _) = ''BOOLEAN''"
| "type_name (VInt _) = ''INTEGER''"
| "type_name (VFloat _) = ''FLOAT''"
| "type_name (VString _) = ''STRING''"
| "type_name (VTemporal k _) = kind_name k"
| "type_name (VList _) = ''LIST''"
| "type_name (VMap _) = ''MAP''"
| "type_name (VNode _) = ''NODE''"
| "type_name (VRel _) = ''RELATIONSHIP''"
| "type_name (VPath _ _) = ''PATH''"

definition cy_as_bool :: "cy_value \<Rightarrow> bool option" where
  "cy_as_bool v = (case v of VBool b \<Rightarrow> Some b | _ \<Rightarrow> None)"

definition cy_as_f64 :: "cy_value \<Rightarrow> f64 option" where
  "cy_as_f64 v = (case v of VInt i \<Rightarrow> Some (f64_of_int i) | VFloat f \<Rightarrow> Some f | _ \<Rightarrow> None)"

end
