(* ===== verification/Cypher_Temporal.thy ===== *)
theory Cypher_Temporal
  imports Cypher_Value
begin

text \<open>
  The Cypher temporal values (\<^verbatim>\<open>oxilite-cypher/src/temporal.rs\<close>): zones, durations, the six kinds of values,
  their rendering and parsing, construction from maps, component access, truncation, arithmetic, comparison and the
  duration between two values. Days are numbers from 1970-01-01, times are nanoseconds of the day. The time zone
  database (the \<^verbatim>\<open>jiff\<close> crate) is the parameter \<open>tz\<close>; \<^verbatim>\<open>to_lowercase\<close> is modelled for ASCII. Where the code
  slices a string inside a character it panics, which is the value \<open>CyPanic\<close> of the error type.
\<close>

definition NS :: int where "NS = 1000000000"
definition DAY_NS :: int where "DAY_NS = 86400 * NS"
definition MONTH_SECONDS :: int where "MONTH_SECONDS = 2629746"

text \<open>\<^verbatim>\<open>n as i64\<close>.\<close>

definition as_i64_of :: "int \<Rightarrow> int" where
  "as_i64_of n = (n + 2 ^ 63) mod 2 ^ 64 - 2 ^ 63"

definition lowercase :: "string \<Rightarrow> string" where
  "lowercase s = map to_ascii_lowercase s"

section \<open>Strings\<close>

text \<open>\<^verbatim>\<open>s.is_char_boundary(i)\<close> of a byte index, which slicing requires.\<close>

definition char_boundary :: "string \<Rightarrow> nat \<Rightarrow> bool" where
  "char_boundary s i \<longleftrightarrow> i = 0 \<or> i = length s \<or> (i < length s \<and> (byte (s ! i) < 128 \<or> 192 \<le> byte (s ! i)))"

definition find_chars :: "char list \<Rightarrow> string \<Rightarrow> nat option" where
  "find_chars cs s = find_index (\<lambda>c. c \<in> set cs) s"

fun split_on :: "char \<Rightarrow> string \<Rightarrow> string list" where
  "split_on c [] = [[]]"
| "split_on c (x # xs) =
     (if x = c then [] # split_on c xs else case split_on c xs of [] \<Rightarrow> [[x]] | p # ps \<Rightarrow> (x # p) # ps)"

text \<open>\<^verbatim>\<open>{f:0<9}\<close>: padded on the right with zeros.\<close>

definition pad_right0 :: "nat \<Rightarrow> string \<Rightarrow> string" where
  "pad_right0 w s = s @ replicate (w - length s) (CHR ''0'')"

definition strip_right0 :: "string \<Rightarrow> string" where
  "strip_right0 s = rev (dropWhile (\<lambda>c. c = CHR ''0'') (rev s))"

abbreviation quoted :: "string \<Rightarrow> string" where
  "quoted s \<equiv> CHR 0x27 # s @ [CHR 0x27]"

definition all_digits :: "string \<Rightarrow> bool" where
  "all_digits s \<longleftrightarrow> s \<noteq> [] \<and> list_all is_ascii_digit s"

definition num :: "string \<Rightarrow> cypher_error + int" where
  "num s = (case parse_i64 s of Some i \<Rightarrow> Inr i | None \<Rightarrow> rt (''invalid number '' @ quoted s @ '' in a temporal string''))"

section \<open>Zones\<close>

datatype zone = ZOffset int | ZNamed string

text \<open>
  What the code asks of \<^verbatim>\<open>jiff\<close>: whether a zone is known, its offset in seconds at a local date and time, and at an
  instant (seconds since the epoch).
\<close>

record tz_ext =
  tz_known :: "string \<Rightarrow> bool"
  tz_compatible :: "string \<Rightarrow> int \<times> int \<times> int \<Rightarrow> int \<times> int \<times> int \<times> int \<Rightarrow> string + int"
  tz_to_offset :: "string \<Rightarrow> int \<Rightarrow> string + int"

definition find_tz :: "tz_ext \<Rightarrow> string \<Rightarrow> cypher_error + unit" where
  "find_tz tz name = (if tz_known tz name then Inr () else rt (''unknown time zone '' @ quoted name))"

definition jiff_result :: "string + 'a \<Rightarrow> cypher_error + 'a" where
  "jiff_result r = (case r of Inl e \<Rightarrow> rt e | Inr v \<Rightarrow> Inr v)"

definition split_time :: "int \<Rightarrow> int \<times> int \<times> int \<times> int" where
  "split_time nanos = (let s = nanos sdiv NS in (s sdiv 3600, (s sdiv 60) smod 60, s smod 60, nanos smod NS))"

definition offset_at_local :: "tz_ext \<Rightarrow> string \<Rightarrow> int \<Rightarrow> int \<Rightarrow> cypher_error + int" where
  "offset_at_local tz name days nanos =
     rbind (find_tz tz name) (\<lambda>_.
     case civil_from_days days of (y, m, d) \<Rightarrow>
       if y < - 32768 \<or> y > 32767 then rt ''date out of the time zone database range''
       else jiff_result (tz_compatible tz name (y, m, d) (split_time nanos)))"

definition offset_at_instant :: "tz_ext \<Rightarrow> string \<Rightarrow> int \<Rightarrow> cypher_error + int" where
  "offset_at_instant tz name secs = rbind (find_tz tz name) (\<lambda>_. jiff_result (tz_to_offset tz name secs))"

definition parse_offset :: "string \<Rightarrow> cypher_error + int" where
  "parse_offset s =
     (let bad = rt (''invalid time zone offset '' @ quoted s) in
      if s = ''Z'' then Inr 0
      else case s of
        [] \<Rightarrow> bad
      | c # r \<Rightarrow>
          if c \<noteq> CHR ''+'' \<and> c \<noteq> CHR ''-'' then bad
          else let sign = (if c = CHR ''+'' then 1 else -1);
                   ds = filter (\<lambda>c. c \<noteq> CHR '':'') r in
               if \<not> list_all is_ascii_digit ds \<or> length ds \<notin> {2, 4, 6} then bad
               else let h = int (digits_val (take 2 ds)); m = int (digits_val (take 2 (drop 2 ds))); sec = int (digits_val (drop 4 ds))
                    in if h > 18 \<or> m > 59 \<or> sec > 59 then bad else Inr (sign * (h * 3600 + m * 60 + sec)))"

definition parse_zone :: "tz_ext \<Rightarrow> string \<Rightarrow> cypher_error + zone" where
  "parse_zone tz s =
     (if s = ''Z'' \<or> s = ''z'' then Inr (ZOffset 0)
      else if starts_with ''+'' s \<or> starts_with ''-'' s then rbind (parse_offset s) (\<lambda>o'. Inr (ZOffset o'))
      else rbind (find_tz tz s) (\<lambda>_. Inr (ZNamed s)))"

definition fmt_offset :: "int \<Rightarrow> string" where
  "fmt_offset o' =
     (if o' = 0 then ''Z''
      else let sign = (if o' < 0 then CHR ''-'' else CHR ''+''); a = \<bar>o'\<bar>;
               h = nat (a div 3600); m = nat ((a div 60) mod 60); s = nat (a mod 60)
           in if s \<noteq> 0 then sign # pad0 2 h @ '':'' @ pad0 2 m @ '':'' @ pad0 2 s
              else sign # pad0 2 h @ '':'' @ pad0 2 m)"

section \<open>Durations\<close>

record dur =
  d_months :: int
  d_days :: int
  d_seconds :: int
  d_nanos :: int

definition dur_zero :: dur where
  "dur_zero = \<lparr>d_months = 0, d_days = 0, d_seconds = 0, d_nanos = 0\<rparr>"

definition dur_new :: "int \<Rightarrow> int \<Rightarrow> int \<Rightarrow> dur" where
  "dur_new months days tot =
     \<lparr>d_months = months, d_days = days, d_seconds = as_i64_of (tot div NS), d_nanos = tot mod NS\<rparr>"

definition total_nanos :: "dur \<Rightarrow> int" where
  "total_nanos d = d_seconds d * NS + d_nanos d"

definition dur_from_parts :: "f64 \<Rightarrow> f64 \<Rightarrow> f64 \<Rightarrow> (int \<times> int \<times> int) option \<Rightarrow> dur" where
  "dur_from_parts months days nanos exact =
     (case exact of
        Some (m, d, n) \<Rightarrow> dur_new m d n
      | None \<Rightarrow>
          let mi = f64_trunc months;
              mf = f64_minus months mi;
              month_ns = f64_as_int 128 (f64_round (f64_times (f64_times mf (f64_of_int MONTH_SECONDS)) (f64_of_int NS)));
              extra_days = month_ns sdiv DAY_NS;
              month_rest = month_ns smod DAY_NS;
              di = f64_trunc days;
              df = f64_minus days di;
              day_ns = f64_as_int 128 (f64_round (f64_times df (f64_of_int DAY_NS)));
              tot = month_rest + day_ns + f64_as_int 128 (f64_trunc nanos)
          in dur_new (f64_as_int 64 mi) (f64_as_int 64 di + as_i64_of extra_days) tot)"

definition dur_render :: "dur \<Rightarrow> string" where
  "dur_render d =
     (if d = dur_zero then ''PT0S''
      else
        let years = d_months d sdiv 12; months = d_months d smod 12; tot = total_nanos d;
            date = (if years \<noteq> 0 then show_int years @ ''Y'' else []) @ (if months \<noteq> 0 then show_int months @ ''M'' else [])
              @ (if d_days d \<noteq> 0 then show_int (d_days d) @ ''D'' else []);
            a = \<bar>tot\<bar>; secs = a div NS; frac = a mod NS;
            h = secs div 3600; m = (secs div 60) mod 60; sec = secs mod 60;
            sign = (if tot < 0 then ''-'' else []);
            f = strip_right0 (pad0 9 (nat frac))
        in ''P'' @ date @
           (if tot = 0 then []
            else ''T'' @ (if h \<noteq> 0 then sign @ show_int h @ ''H'' else []) @ (if m \<noteq> 0 then sign @ show_int m @ ''M'' else [])
              @ (if sec \<noteq> 0 \<or> frac \<noteq> 0
                 then sign @ show_int sec @ (if f = [] then [] else CHR ''.'' # f) @ ''S'' else [])))"

definition dur_component :: "dur \<Rightarrow> string \<Rightarrow> cy_value option" where
  "dur_component d key =
     (let n = total_nanos d; s = as_i64_of (n div NS); ns = as_i64_of (n mod NS)
      in map_option VInt (map_of
          [(''years'', d_months d sdiv 12), (''quarters'', d_months d sdiv 3), (''months'', d_months d),
           (''monthsofyear'', d_months d smod 12), (''quartersofyear'', (d_months d sdiv 3) smod 4),
           (''monthsofquarter'', d_months d smod 3), (''weeks'', d_days d sdiv 7), (''days'', d_days d),
           (''daysofweek'', d_days d smod 7), (''hours'', s sdiv 3600), (''minutes'', s sdiv 60), (''seconds'', s),
           (''minutesofhour'', (s sdiv 60) smod 60), (''secondsofminute'', s smod 60),
           (''milliseconds'', s * 1000 + ns sdiv 1000000), (''microseconds'', s * 1000000 + ns sdiv 1000),
           (''nanoseconds'', as_i64_of n), (''millisecondsofsecond'', ns sdiv 1000000),
           (''microsecondsofsecond'', ns sdiv 1000), (''nanosecondsofsecond'', ns)] key))"

definition dur_neg :: "dur \<Rightarrow> dur" where
  "dur_neg d = dur_new (- d_months d) (- d_days d) (- total_nanos d)"

definition i64_range :: "int \<Rightarrow> bool" where
  "i64_range n \<longleftrightarrow> i64_min \<le> n \<and> n \<le> i64_max"

definition dur_add :: "dur \<Rightarrow> dur \<Rightarrow> cypher_error + dur" where
  "dur_add a b =
     (if \<not> i64_range (d_months a + d_months b) then rt ''duration overflow''
      else if \<not> i64_range (d_days a + d_days b) then rt ''duration overflow''
      else Inr (dur_new (d_months a + d_months b) (d_days a + d_days b) (total_nanos a + total_nanos b)))"

definition dur_scale :: "dur \<Rightarrow> f64 \<Rightarrow> dur" where
  "dur_scale d f =
     dur_from_parts (f64_times (f64_of_int (d_months d)) f) (f64_times (f64_of_int (d_days d)) f)
       (f64_times (f64_of_int (total_nanos d)) f) None"

section \<open>Temporal values\<close>

datatype temporal =
    TDate int
  | TLocalTime int
  | TTime int int
  | TLocalDateTime int int
  | TDateTime int int zone int
  | TDuration dur

definition fmt_year :: "int \<Rightarrow> string" where
  "fmt_year y =
     (if y > 9999 then ''+'' @ show_int y else if y < 0 then ''-'' @ pad0 4 (nat (- y)) else pad0 4 (nat y))"

definition fmt_date :: "int \<Rightarrow> string" where
  "fmt_date days =
     (case civil_from_days days of (y, m, d) \<Rightarrow> fmt_year y @ ''-'' @ pad0 2 (nat m) @ ''-'' @ pad0 2 (nat d))"

definition fmt_time :: "int \<Rightarrow> string" where
  "fmt_time nanos =
     (case split_time nanos of (h, m, s, n) \<Rightarrow>
        pad0 2 (nat h) @ '':'' @ pad0 2 (nat m)
        @ (if s \<noteq> 0 \<or> n \<noteq> 0 then '':'' @ pad0 2 (nat s) else [])
        @ (if n \<noteq> 0
           then if n smod 1000000 = 0 then ''.'' @ pad0 3 (nat (n sdiv 1000000))
                else if n smod 1000 = 0 then ''.'' @ pad0 6 (nat (n sdiv 1000))
                else ''.'' @ pad0 9 (nat n)
           else []))"

definition xsd_time :: "int \<Rightarrow> string" where
  "xsd_time nanos =
     (case split_time nanos of (h, m, s, n) \<Rightarrow>
        pad0 2 (nat h) @ '':'' @ pad0 2 (nat m) @ '':'' @ pad0 2 (nat s)
        @ (if n \<noteq> 0 then ''.'' @ strip_right0 (pad0 9 (nat n)) else []))"

definition ZONED_DATETIME :: string where
  "ZONED_DATETIME = ''urn:oxilite:cypher:zonedDateTime''"

fun t_kind :: "temporal \<Rightarrow> temporal_kind" where
  "t_kind (TDate _) = KDate"
| "t_kind (TLocalTime _) = KLocalTime"
| "t_kind (TTime _ _) = KTime"
| "t_kind (TLocalDateTime _ _) = KLocalDateTime"
| "t_kind (TDateTime _ _ _ _) = KDateTime"
| "t_kind (TDuration _) = KDuration"

fun t_render :: "temporal \<Rightarrow> string" where
  "t_render (TDate d) = fmt_date d"
| "t_render (TLocalTime n) = fmt_time n"
| "t_render (TTime n o') = fmt_time n @ fmt_offset o'"
| "t_render (TLocalDateTime d n) = fmt_date d @ ''T'' @ fmt_time n"
| "t_render (TDateTime d n z o') =
     fmt_date d @ ''T'' @ fmt_time n @ fmt_offset o' @ (case z of ZNamed name \<Rightarrow> ''['' @ name @ '']'' | ZOffset _ \<Rightarrow> [])"
| "t_render (TDuration d) = dur_render d"

definition t_value :: "temporal \<Rightarrow> cy_value" where
  "t_value t = VTemporal (t_kind t) (t_render t)"

fun t_lexical :: "temporal \<Rightarrow> string \<times> string" where
  "t_lexical (TDate d) = (fmt_date d, xsd ''date'')"
| "t_lexical (TLocalTime n) = (xsd_time n, xsd ''time'')"
| "t_lexical (TTime n o') = (xsd_time n @ fmt_offset o', xsd ''time'')"
| "t_lexical (TLocalDateTime d n) = (fmt_date d @ ''T'' @ xsd_time n, xsd ''dateTime'')"
| "t_lexical (TDateTime d n (ZOffset _) o') = (fmt_date d @ ''T'' @ xsd_time n @ fmt_offset o', xsd ''dateTime'')"
| "t_lexical (TDateTime d n (ZNamed z) o') = (t_render (TDateTime d n (ZNamed z) o'), ZONED_DATETIME)"
| "t_lexical (TDuration d) = (dur_render d, xsd ''duration'')"

fun date_days :: "temporal \<Rightarrow> int option" where
  "date_days (TDate d) = Some d"
| "date_days (TLocalDateTime d _) = Some d"
| "date_days (TDateTime d _ _ _) = Some d"
| "date_days _ = None"

fun time_nanos :: "temporal \<Rightarrow> int option" where
  "time_nanos (TLocalTime n) = Some n"
| "time_nanos (TTime n _) = Some n"
| "time_nanos (TLocalDateTime _ n) = Some n"
| "time_nanos (TDateTime _ n _ _) = Some n"
| "time_nanos _ = None"

fun t_offset :: "temporal \<Rightarrow> int option" where
  "t_offset (TTime _ o') = Some o'"
| "t_offset (TDateTime _ _ _ o') = Some o'"
| "t_offset _ = None"

fun t_zone :: "temporal \<Rightarrow> zone option" where
  "t_zone (TTime _ o') = Some (ZOffset o')"
| "t_zone (TDateTime _ _ z _) = Some z"
| "t_zone _ = None"

fun t_instant :: "temporal \<Rightarrow> int option" where
  "t_instant (TDateTime d n _ o') = Some (d * DAY_NS + n - o' * NS)"
| "t_instant _ = None"

definition at_instant :: "tz_ext \<Rightarrow> int \<Rightarrow> zone \<Rightarrow> cypher_error + temporal" where
  "at_instant tz inst z =
     rbind (case z of ZOffset o' \<Rightarrow> Inr o' | ZNamed name \<Rightarrow> offset_at_instant tz name (as_i64_of (inst div NS))) (\<lambda>o'.
       let local = inst + o' * NS
       in Inr (TDateTime (as_i64_of (local div DAY_NS)) (as_i64_of (local mod DAY_NS)) z o'))"

definition zoned :: "tz_ext \<Rightarrow> int \<Rightarrow> int \<Rightarrow> zone \<Rightarrow> int option \<Rightarrow> cypher_error + temporal" where
  "zoned tz days nanos z given =
     (case z of
        ZOffset o' \<Rightarrow> Inr (TDateTime days nanos z o')
      | ZNamed name \<Rightarrow>
          rbind (offset_at_local tz name days nanos) (\<lambda>o'.
            case given of
              None \<Rightarrow> Inr (TDateTime days nanos z o')
            | Some g \<Rightarrow>
                if o' \<noteq> g then at_instant tz (days * DAY_NS + nanos - g * NS) z
                else Inr (TDateTime days nanos z o')))"


section \<open>Parsing\<close>

text \<open>\<^verbatim>\<open>&s[..i]\<close> and \<^verbatim>\<open>&s[i..]\<close>.\<close>

definition slice_at :: "string \<Rightarrow> nat \<Rightarrow> cypher_error + string \<times> string" where
  "slice_at s i = (if char_boundary s i then Inr (take i s, drop i s) else Inl CyPanic)"

definition opt_num :: "int \<Rightarrow> string option \<Rightarrow> cypher_error + int" where
  "opt_num d s = (case s of None \<Rightarrow> Inr d | Some s \<Rightarrow> num s)"

definition parse_week_date :: "cypher_error + int \<Rightarrow> int \<Rightarrow> bool \<Rightarrow> string \<Rightarrow> cypher_error + int" where
  "parse_week_date bad y dashed w =
     rbind (if dashed
            then Inr (case split_once (CHR ''-'') w of Some (a, b) \<Rightarrow> (a, Some b) | None \<Rightarrow> (w, None))
            else if length w = 3 then rbind (slice_at w 2) (\<lambda>(a, b). Inr (a, Some b))
            else Inr (w, None)) (\<lambda>(wk, dow).
     if \<not> all_digits wk \<or> length wk \<noteq> 2 \<or> (case dow of None \<Rightarrow> False | Some d \<Rightarrow> \<not> all_digits d \<or> length d \<noteq> 1) then bad
     else rbind (num wk) (\<lambda>w. rbind (opt_num 1 dow) (\<lambda>d. from_week y w d)))"

definition parse_date_rest :: "cypher_error + int \<Rightarrow> int \<Rightarrow> string \<Rightarrow> cypher_error + int" where
  "parse_date_rest bad y rest =
     (if rest = [] then check_date y 1 1
      else
        let dashed = starts_with ''-'' rest; r = (if dashed then drop 1 rest else rest) in
        case strip_prefix ''W'' r of
          Some w \<Rightarrow> parse_week_date bad y dashed w
        | None \<Rightarrow>
            if dashed
            then (case split_once (CHR ''-'') r of
                    Some (m, d) \<Rightarrow>
                      if length m = 2 \<and> length d = 2 \<and> all_digits m \<and> all_digits d
                      then rbind (num m) (\<lambda>m. rbind (num d) (\<lambda>d. check_date y m d)) else bad
                  | None \<Rightarrow>
                      if length r = 2 \<and> all_digits r then rbind (num r) (\<lambda>m. check_date y m 1)
                      else if length r = 3 \<and> all_digits r then rbind (num r) (from_ordinal y)
                      else bad)
            else if length r = 4 \<and> all_digits r
            then rbind (num (take 2 r)) (\<lambda>m. rbind (num (drop 2 r)) (\<lambda>d. check_date y m d))
            else if length r = 2 \<and> all_digits r then rbind (num r) (\<lambda>m. check_date y m 1)
            else if length r = 3 \<and> all_digits r then rbind (num r) (from_ordinal y)
            else bad)"

definition parse_date :: "string \<Rightarrow> cypher_error + int" where
  "parse_date s =
     (let bad = rt (''invalid date '' @ quoted s);
          signed = starts_with ''+'' s \<or> starts_with ''-'' s;
          sign = (if starts_with ''-'' s then - 1 else 1);
          body = (if signed then drop 1 s else s);
          year_len = (if signed then (case find_index (\<lambda>c. \<not> is_ascii_digit c) body of Some i \<Rightarrow> i | None \<Rightarrow> length body)
                      else min 4 (length body))
      in if year_len < 4 \<and> \<not> (year_len = length body \<and> year_len > 0) then bad
         else rbind (slice_at body year_len) (\<lambda>(ys, rest). rbind (num ys) (\<lambda>y. parse_date_rest bad (sign * y) rest)))"

definition time_parts :: "string \<Rightarrow> cypher_error + string list" where
  "time_parts main =
     (if CHR '':'' \<in> set main then Inr (split_on (CHR '':'') main)
      else if list_all (\<lambda>i. char_boundary main (2 * i)) [0..<Suc (length main) div 2] then Inr (chunks 2 main)
      else Inl CyPanic)"

definition parse_time :: "string \<Rightarrow> cypher_error + int" where
  "parse_time t =
     (let bad = rt (''invalid time '' @ quoted t);
          (main, frac) = (case find_chars [CHR ''.'', CHR '',''] t of
                            Some i \<Rightarrow> (take i t, Some (drop (Suc i) t)) | None \<Rightarrow> (t, None))
      in rbind (time_parts main) (\<lambda>parts.
         if parts = [] \<or> length parts > 3 \<or> list_ex (\<lambda>p. length p \<noteq> 2 \<or> \<not> all_digits p) parts then bad
         else
           rbind (num (parts ! 0)) (\<lambda>h.
           rbind (opt_num 0 (get_nth parts 1)) (\<lambda>m.
           rbind (opt_num 0 (get_nth parts 2)) (\<lambda>sec.
           if h > 23 \<or> m > 59 \<or> sec > 59 then bad
           else rbind (case frac of
                         None \<Rightarrow> Inr 0
                       | Some f \<Rightarrow> if length parts \<noteq> 3 \<or> \<not> all_digits f \<or> length f > 9 then bad else num (pad_right0 9 f)) (\<lambda>nanos.
                Inr (((h * 60 + m) * 60 + sec) * NS + nanos)))))))"

definition parse_time_zone :: "tz_ext \<Rightarrow> string \<Rightarrow> cypher_error + int \<times> zone option" where
  "parse_time_zone tz s0 =
     (let (s, named) = (case find_chars [CHR ''[''] s0 of
                          Some i \<Rightarrow> if s0 \<noteq> [] \<and> last s0 = CHR '']'' then (take i s0, Some (take (length s0 - 2 - i) (drop (Suc i) s0)))
                                    else (s0, None)
                        | None \<Rightarrow> (s0, None));
          (t, off) = (case find_chars [CHR ''Z'', CHR ''z'', CHR ''+'', CHR ''-''] s of
                        Some i \<Rightarrow> (take i s, Some (drop i s)) | None \<Rightarrow> (s, None))
      in rbind (parse_time t) (\<lambda>n.
         rbind (case named of
                  Some name \<Rightarrow> rbind (find_tz tz name) (\<lambda>_. Inr (Some (ZNamed name)))
                | None \<Rightarrow>
                    (case off of
                       Some o' \<Rightarrow> rbind (parse_offset (if o' = ''z'' then ''Z'' else o')) (\<lambda>x. Inr (Some (ZOffset x)))
                     | None \<Rightarrow> Inr None)) (\<lambda>z. Inr (n, z))))"

definition parse_datetime :: "tz_ext \<Rightarrow> string \<Rightarrow> cypher_error + int \<times> int \<times> zone option" where
  "parse_datetime tz s =
     (case find_chars [CHR ''T'', CHR ''t''] s of
        Some i \<Rightarrow> rbind (parse_date (take i s)) (\<lambda>d. rbind (parse_time_zone tz (drop (Suc i) s)) (\<lambda>(n, z). Inr (d, n, z)))
      | None \<Rightarrow> rbind (parse_date s) (\<lambda>d. Inr (d, 0, None)))"

text \<open>An unsigned decimal number of nanoseconds, with at most nine digits after the point.\<close>

definition decimal_nanos :: "string \<Rightarrow> int option" where
  "decimal_nanos s0 =
     (let (neg, s) = (case strip_prefix ''-'' s0 of
                        Some r \<Rightarrow> (True, r)
                      | None \<Rightarrow> (False, case strip_prefix ''+'' s0 of Some r \<Rightarrow> r | None \<Rightarrow> s0));
          (i, f) = (case split_once (CHR ''.'') s of Some p \<Rightarrow> p | None \<Rightarrow> (s, []))
      in if length f > 9 then None
         else Option.bind (parse_int_in (- (2 ^ 127)) (2 ^ 127 - 1) i) (\<lambda>iv.
              map_option (\<lambda>fv. let v = iv * NS + fv in if neg then - v else v)
                (parse_int_in (- (2 ^ 127)) (2 ^ 127 - 1) (pad_right0 9 f))))"

text \<open>The sums a duration is read into: months, days and nanoseconds as floats, and exactly where possible.\<close>

record dur_sums =
  ds_months :: f64
  ds_days :: f64
  ds_nanos :: f64
  ds_exact :: "(int \<times> int \<times> int) option"

definition f64_zero :: f64 where
  "f64_zero = make_f64 False 0"

definition sums_zero :: dur_sums where
  "sums_zero = \<lparr>ds_months = f64_zero, ds_days = f64_zero, ds_nanos = f64_zero, ds_exact = Some (0, 0, 0)\<rparr>"

definition add_exact :: "int option \<Rightarrow> int \<times> int \<times> int \<Rightarrow> (int \<times> int \<times> int) option \<Rightarrow> (int \<times> int \<times> int) option" where
  "add_exact i unit exact =
     Option.bind exact (\<lambda>(m, d, n). map_option (\<lambda>i. case unit of (dm, dd, dn) \<Rightarrow> (m + i * dm, d + i * dd, n + i * dn)) i)"

definition dur_unit :: "bool \<Rightarrow> char \<Rightarrow> string \<Rightarrow> dur_sums \<Rightarrow> dur_sums option" where
  "dur_unit date u cur ds =
     (case f64_from_str cur of
        None \<Rightarrow> None
      | Some v \<Rightarrow>
          let i = (if CHR ''.'' \<in> set cur then None else parse_i64 cur);
              ns = f64_of_int NS in
          if date \<and> u = CHR ''Y''
          then Some (ds\<lparr>ds_months := f64_plus (ds_months ds) (f64_times v (f64_of_int 12)), ds_exact := add_exact i (12, 0, 0) (ds_exact ds)\<rparr>)
          else if date \<and> u = CHR ''M''
          then Some (ds\<lparr>ds_months := f64_plus (ds_months ds) v, ds_exact := add_exact i (1, 0, 0) (ds_exact ds)\<rparr>)
          else if date \<and> u = CHR ''W''
          then Some (ds\<lparr>ds_days := f64_plus (ds_days ds) (f64_times v (f64_of_int 7)), ds_exact := add_exact i (0, 7, 0) (ds_exact ds)\<rparr>)
          else if date \<and> u = CHR ''D''
          then Some (ds\<lparr>ds_days := f64_plus (ds_days ds) v, ds_exact := add_exact i (0, 1, 0) (ds_exact ds)\<rparr>)
          else if \<not> date \<and> u = CHR ''H''
          then Some (ds\<lparr>ds_nanos := f64_plus (ds_nanos ds) (f64_times (f64_times v (f64_of_int 3600)) ns),
                        ds_exact := add_exact i (0, 0, 3600 * NS) (ds_exact ds)\<rparr>)
          else if \<not> date \<and> u = CHR ''M''
          then Some (ds\<lparr>ds_nanos := f64_plus (ds_nanos ds) (f64_times (f64_times v (f64_of_int 60)) ns),
                        ds_exact := add_exact i (0, 0, 60 * NS) (ds_exact ds)\<rparr>)
          else if \<not> date \<and> u = CHR ''S''
          then Some (ds\<lparr>ds_nanos := f64_plus (ds_nanos ds) (f64_times v ns),
                        ds_exact := add_exact (decimal_nanos cur) (0, 0, 1) (ds_exact ds)\<rparr>)
          else None)"

definition number_char :: "char \<Rightarrow> bool" where
  "number_char c \<longleftrightarrow> is_ascii_digit c \<or> c \<in> {CHR ''.'', CHR '','', CHR ''-'', CHR ''+''}"

fun dur_take :: "bool \<Rightarrow> string \<Rightarrow> string \<Rightarrow> dur_sums \<Rightarrow> dur_sums option" where
  "dur_take date cur [] ds = (if cur = [] then Some ds else None)"
| "dur_take date cur (c # cs) ds =
     (if number_char c then dur_take date (cur @ [if c = CHR '','' then CHR ''.'' else c]) cs ds
      else if cur = [] then None
      else Option.bind (dur_unit date (to_ascii_uppercase c) cur ds) (dur_take date [] cs))"

definition contains_any :: "char list \<Rightarrow> string \<Rightarrow> bool" where
  "contains_any cs s \<longleftrightarrow> list_ex (\<lambda>c. c \<in> set cs) s"

text \<open>Whether a body is read as a date and time; \<open>None\<close> is the panic of \<^verbatim>\<open>&body[..4]\<close> inside a character.\<close>

definition dur_is_date :: "string \<Rightarrow> bool option" where
  "dur_is_date body =
     (if CHR ''-'' \<in> set body \<and> \<not> contains_any ''YWDHS'' body then Some True
      else if body \<noteq> [] \<and> is_ascii_digit (hd body) \<and> length body \<ge> 4
      then (if \<not> char_boundary body 4 then None
            else Some (list_all is_ascii_digit (take 4 body) \<and> length body \<ge> 5 \<and> body ! 4 = CHR ''-''))
      else Some False)"

definition parse_dur_date :: "cypher_error + dur \<Rightarrow> bool \<Rightarrow> string \<Rightarrow> cypher_error + dur" where
  "parse_dur_date bad neg body =
     (let (date, time) = (case split_once (CHR ''T'') body of Some (d, t) \<Rightarrow> (d, Some t) | None \<Rightarrow> (body, None));
          p = split_on (CHR ''-'') date
      in if length p \<noteq> 3 then bad
         else rbind (num (p ! 0)) (\<lambda>y. rbind (num (p ! 1)) (\<lambda>m. rbind (num (p ! 2)) (\<lambda>d.
              rbind (case time of None \<Rightarrow> Inr 0 | Some t \<Rightarrow> parse_time t) (\<lambda>n.
                let dr = dur_new (y * 12 + m) d n in Inr (if neg then dur_neg dr else dr))))))"

definition parse_dur_units :: "cypher_error + dur \<Rightarrow> bool \<Rightarrow> string \<Rightarrow> cypher_error + dur" where
  "parse_dur_units bad neg body =
     (let (date, time) = (case find_chars [CHR ''T'', CHR ''t''] body of
                            Some i \<Rightarrow> (take i body, drop (Suc i) body) | None \<Rightarrow> (body, []))
      in case Option.bind (dur_take True [] date sums_zero) (dur_take False [] time) of
           None \<Rightarrow> bad
         | Some ds \<Rightarrow>
             let exact = (if f64_eq (f64_minus (ds_months ds) (f64_trunc (ds_months ds))) f64_zero
                            \<and> f64_eq (f64_minus (ds_days ds) (f64_trunc (ds_days ds))) f64_zero
                          then ds_exact ds else None);
                 dr = dur_from_parts (ds_months ds) (ds_days ds) (ds_nanos ds) exact
             in Inr (if neg then dur_neg dr else dr))"

definition parse_duration :: "string \<Rightarrow> cypher_error + dur" where
  "parse_duration s =
     (let bad = rt (''invalid duration '' @ quoted s);
          (neg, body0) = (case strip_prefix ''-'' s of Some r \<Rightarrow> (True, r) | None \<Rightarrow> (False, s))
      in if \<not> (starts_with ''P'' body0 \<or> starts_with ''p'' body0) then bad
         else let body = drop 1 body0 in
              case dur_is_date body of
                None \<Rightarrow> Inl CyPanic
              | Some True \<Rightarrow> parse_dur_date bad neg body
              | Some False \<Rightarrow> parse_dur_units bad neg body)"

fun t_parse :: "tz_ext \<Rightarrow> temporal_kind \<Rightarrow> string \<Rightarrow> cypher_error + temporal" where
  "t_parse tz KDate s = rbind (parse_date (trim s)) (\<lambda>d. Inr (TDate d))"
| "t_parse tz KLocalTime s = rbind (parse_time_zone tz (trim s)) (\<lambda>(n, _). Inr (TLocalTime n))"
| "t_parse tz KTime s =
     rbind (parse_time_zone tz (trim s)) (\<lambda>(n, z).
     rbind (case z of Some (ZOffset o') \<Rightarrow> Inr o' | Some (ZNamed name) \<Rightarrow> offset_at_local tz name 0 n | None \<Rightarrow> Inr 0) (\<lambda>o'.
       Inr (TTime n o')))"
| "t_parse tz KLocalDateTime s = rbind (parse_datetime tz (trim s)) (\<lambda>(d, n, _). Inr (TLocalDateTime d n))"
| "t_parse tz KDateTime s =
     rbind (parse_datetime tz (trim s)) (\<lambda>(d, n, z). zoned tz d n (case z of Some z \<Rightarrow> z | None \<Rightarrow> ZOffset 0) None)"
| "t_parse tz KDuration s = rbind (parse_duration (trim s)) (\<lambda>d. Inr (TDuration d))"

definition t_from_value :: "tz_ext \<Rightarrow> cy_value \<Rightarrow> cypher_error + temporal option" where
  "t_from_value tz v = (case v of VTemporal k s \<Rightarrow> rbind (t_parse tz k s) (\<lambda>t. Inr (Some t)) | _ \<Rightarrow> Inr None)"

text \<open>A stored literal of a temporal datatype.\<close>

definition temporal_literal_kind :: "tz_ext \<Rightarrow> string \<Rightarrow> string \<Rightarrow> temporal_kind option" where
  "temporal_literal_kind tz dt lx =
     (if dt = xsd ''date'' then Some KDate
      else if dt = xsd ''time''
      then (case parse_time_zone tz lx of Inr (_, Some _) \<Rightarrow> Some KTime | Inr (_, None) \<Rightarrow> Some KLocalTime | Inl _ \<Rightarrow> None)
      else if dt = xsd ''dateTime'' \<or> dt = xsd ''dateTimeStamp''
      then (case parse_datetime tz lx of Inr (_, _, Some _) \<Rightarrow> Some KDateTime | Inr (_, _, None) \<Rightarrow> Some KLocalDateTime | Inl _ \<Rightarrow> None)
      else if dt = ZONED_DATETIME then Some KDateTime
      else if dt = xsd ''duration'' \<or> dt = xsd ''dayTimeDuration'' \<or> dt = xsd ''yearMonthDuration'' then Some KDuration
      else None)"

definition temporal_from_literal :: "tz_ext \<Rightarrow> string \<Rightarrow> string \<Rightarrow> cy_value option" where
  "temporal_from_literal tz dt lx =
     Option.bind (temporal_literal_kind tz dt lx) (\<lambda>k.
       case t_parse tz k lx of Inr t \<Rightarrow> Some (t_value t) | Inl _ \<Rightarrow> None)"

end
