(* ===== verification/Cypher_Temporal_Ops.thy ===== *)
theory Cypher_Temporal_Ops
  imports Cypher_Temporal
begin

text \<open>
  What Cypher does with temporal values (the second half of \<^verbatim>\<open>temporal.rs\<close>): construction from maps and from other
  values, the statement clock, component access, truncation, arithmetic, comparison and the duration between two
  values. Errors keep the order in which the code meets them; \<open>CyPanic\<close> stands for \<^verbatim>\<open>expect\<close> and \<^verbatim>\<open>unreachable!\<close>.
\<close>

section \<open>Fields of a map\<close>

type_synonym cy_map = "(string \<times> cy_value) list"

definition f64_fract_zero :: "f64 \<Rightarrow> bool" where
  "f64_fract_zero x \<longleftrightarrow> f64_eq (f64_minus x (f64_trunc x)) f64_zero"

abbreviation backquoted :: "string \<Rightarrow> string" where
  "backquoted s \<equiv> CHR 0x60 # s @ [CHR 0x60]"

definition map_int :: "cy_map \<Rightarrow> string \<Rightarrow> cypher_error + int option" where
  "map_int m k =
     (let bad = (\<lambda>v. rt (backquoted k @ '' must be an integer, got '' @ type_name v)) in
      case bt_get m k of
        None \<Rightarrow> Inr None
      | Some v \<Rightarrow>
          (case v of
             VNull \<Rightarrow> Inr None
           | VInt i \<Rightarrow> Inr (Some i)
           | VFloat f \<Rightarrow> if f64_fract_zero f then Inr (Some (f64_as_int 64 f)) else bad v
           | _ \<Rightarrow> bad v))"

definition map_temporal :: "tz_ext \<Rightarrow> cy_map \<Rightarrow> string \<Rightarrow> cypher_error + temporal option" where
  "map_temporal tz m k =
     (case bt_get m k of
        None \<Rightarrow> Inr None
      | Some v \<Rightarrow>
          if v = VNull then Inr None
          else rbind (t_from_value tz v) (\<lambda>t. case t of Some t \<Rightarrow> Inr (Some t) | None \<Rightarrow> rt (backquoted k @ '' must be a temporal value'')))"

definition DATE_KEYS :: "string list" where
  "DATE_KEYS = [''year'', ''month'', ''day'', ''week'', ''dayofweek'', ''ordinalday'', ''quarter'', ''dayofquarter'']"

definition TIME_KEYS :: "string list" where
  "TIME_KEYS = [''hour'', ''minute'', ''second'', ''millisecond'', ''microsecond'', ''nanosecond'']"

definition contains_key :: "cy_map \<Rightarrow> string \<Rightarrow> bool" where
  "contains_key m k \<longleftrightarrow> bt_get m k \<noteq> None"

definition lower_keys :: "cy_map \<Rightarrow> cy_map" where
  "lower_keys m = fold (\<lambda>(k, v). bt_insert (lowercase k) v) m []"

abbreviation or_default :: "'a option \<Rightarrow> 'a \<Rightarrow> 'a" where
  "or_default x d \<equiv> (case x of Some v \<Rightarrow> v | None \<Rightarrow> d)"

text \<open>The date of a map without, and with, a base date.\<close>

definition date_fields :: "bool \<Rightarrow> int option \<Rightarrow> int option \<Rightarrow> int option \<Rightarrow> int option \<Rightarrow> int option \<Rightarrow> int option
    \<Rightarrow> int option \<Rightarrow> int option \<Rightarrow> cypher_error + int option" where
  "date_fields any year month day week dow od q dq =
     (if \<not> any then Inr None
      else case year of
        None \<Rightarrow> rt ''a date needs a year''
      | Some y \<Rightarrow>
          rbind (case week of
                   Some w \<Rightarrow> from_week y w (or_default dow 1)
                 | None \<Rightarrow>
                     (case od of
                        Some d \<Rightarrow> from_ordinal y d
                      | None \<Rightarrow>
                          (case q of
                             Some q \<Rightarrow> from_quarter y q (or_default dq 1)
                           | None \<Rightarrow>
                               if day \<noteq> None \<and> month = None then rt ''a date with a day needs a month''
                               else check_date y (or_default month 1) (or_default day 1)))) (\<lambda>d. Inr (Some d)))"

definition date_over :: "int \<Rightarrow> int option \<Rightarrow> int option \<Rightarrow> int option \<Rightarrow> int option \<Rightarrow> int option \<Rightarrow> int option
    \<Rightarrow> int option \<Rightarrow> int option \<Rightarrow> cypher_error + int option" where
  "date_over base year month day week dow od q dq =
     (case civil_from_days base of (y, m, d) \<Rightarrow>
        rbind (case week of
                 Some w \<Rightarrow> from_week (or_default year (fst (iso_week base))) w (or_default dow (weekday base))
               | None \<Rightarrow>
                   (case dow of
                      Some d \<Rightarrow> from_week (or_default year (fst (iso_week base))) (snd (iso_week base)) d
                    | None \<Rightarrow>
                        (case od of
                           Some n \<Rightarrow> from_ordinal (or_default year y) n
                         | None \<Rightarrow>
                             if q \<noteq> None \<or> dq \<noteq> None
                             then let bq = (m - 1) sdiv 3 + 1
                                  in from_quarter (or_default year y) (or_default q bq) (or_default dq (base - quarter_start y bq + 1))
                             else check_date (or_default year y) (or_default month m) (or_default day d)))) (\<lambda>d. Inr (Some d)))"

definition date_from_map :: "cy_map \<Rightarrow> int option \<Rightarrow> cypher_error + int option" where
  "date_from_map m base =
     rbind (map_int m ''year'') (\<lambda>year.
     rbind (map_int m ''month'') (\<lambda>month.
     rbind (map_int m ''day'') (\<lambda>day.
     rbind (map_int m ''week'') (\<lambda>week.
     rbind (map_int m ''dayofweek'') (\<lambda>dow.
     rbind (map_int m ''ordinalday'') (\<lambda>od.
     rbind (map_int m ''quarter'') (\<lambda>q.
     rbind (map_int m ''dayofquarter'') (\<lambda>dq.
       case base of
         None \<Rightarrow> date_fields (list_ex (contains_key m) DATE_KEYS) year month day week dow od q dq
       | Some b \<Rightarrow> date_over b year month day week dow od q dq))))))))"

text \<open>The fraction of a second: over a base value, the units larger than the ones given are kept.\<close>

definition sub_second :: "int option \<Rightarrow> int \<Rightarrow> int option \<Rightarrow> int option \<Rightarrow> int option \<Rightarrow> int \<times> int \<times> int \<times> int \<times> int" where
  "sub_second base bn ms us ns =
     (let us_limit = (if ms \<noteq> None then 1000 else 1000000);
          ns_limit = (if us \<noteq> None then 1000 else if ms \<noteq> None then 1000000 else NS);
          given = (or_default ms 0, or_default us 0, or_default ns 0, us_limit, ns_limit)
      in case (base, ms, us, ns) of
           (Some _, None, None, Some n) \<Rightarrow>
             if n < 1000 then (bn sdiv 1000000, (bn sdiv 1000) smod 1000, n, 1000, 1000) else given
         | (Some _, None, Some u, n) \<Rightarrow>
             if u < 1000 then (bn sdiv 1000000, u, or_default n 0, 1000, 1000) else given
         | _ \<Rightarrow> given)"

definition time_from_map :: "cy_map \<Rightarrow> int option \<Rightarrow> cypher_error + int option" where
  "time_from_map m base =
     rbind (map_int m ''hour'') (\<lambda>h.
     rbind (map_int m ''minute'') (\<lambda>mi.
     rbind (map_int m ''second'') (\<lambda>s.
     rbind (map_int m ''millisecond'') (\<lambda>ms.
     rbind (map_int m ''microsecond'') (\<lambda>us.
     rbind (map_int m ''nanosecond'') (\<lambda>ns.
       if base = None \<and> \<not> list_ex (contains_key m) TIME_KEYS then Inr None
       else case split_time (or_default base 0) of (bh, bmi, bs, bn) \<Rightarrow>
         rbind (if ms \<noteq> None \<or> us \<noteq> None \<or> ns \<noteq> None
                then (case sub_second base bn ms us ns of (ms, us, ns, us_limit, ns_limit) \<Rightarrow>
                        if \<not> (0 \<le> ms \<and> ms < 1000) \<or> \<not> (0 \<le> us \<and> us < us_limit) \<or> \<not> (0 \<le> ns \<and> ns < ns_limit)
                        then rt ''sub-second fields out of range''
                        else Inr (ms * 1000000 + us * 1000 + ns))
                else Inr (if base \<noteq> None then bn else 0)) (\<lambda>sub.
         let hh = or_default h (if base \<noteq> None then bh else 0);
             mm = or_default mi (if base \<noteq> None then bmi else 0);
             ss = or_default s (if base \<noteq> None then bs else 0)
         in if base = None \<and> ((mi \<noteq> None \<and> h = None) \<or> (s \<noteq> None \<and> mi = None)) then rt ''time fields need their larger units''
            else if \<not> (0 \<le> hh \<and> hh < 24) \<or> \<not> (0 \<le> mm \<and> mm < 60) \<or> \<not> (0 \<le> ss \<and> ss < 60) then rt ''time fields out of range''
            else Inr (Some (((hh * 60 + mm) * 60 + ss) * NS + sub))))))))) "

definition map_zone :: "tz_ext \<Rightarrow> cy_map \<Rightarrow> cypher_error + zone option" where
  "map_zone tz m =
     (case bt_get m ''timezone'' of
        None \<Rightarrow> Inr None
      | Some v \<Rightarrow>
          (case v of
             VNull \<Rightarrow> Inr None
           | VString s \<Rightarrow> rbind (parse_zone tz s) (\<lambda>z. Inr (Some z))
           | _ \<Rightarrow> rt (''timezone must be a string, got '' @ type_name v)))"

section \<open>Durations from maps\<close>

definition dur_field :: "string \<Rightarrow> f64 \<Rightarrow> int option \<Rightarrow> dur_sums \<Rightarrow> cypher_error + dur_sums" where
  "dur_field k f i ds =
     (let fi = f64_of_int; ns = f64_of_int NS;
          months = (\<lambda>x e. Inr (ds\<lparr>ds_months := f64_plus (ds_months ds) x, ds_exact := add_exact i e (ds_exact ds)\<rparr>));
          days = (\<lambda>x e. Inr (ds\<lparr>ds_days := f64_plus (ds_days ds) x, ds_exact := add_exact i e (ds_exact ds)\<rparr>));
          nanos = (\<lambda>x e. Inr (ds\<lparr>ds_nanos := f64_plus (ds_nanos ds) x, ds_exact := add_exact i e (ds_exact ds)\<rparr>))
      in if k = ''years'' then months (f64_times f (fi 12)) (12, 0, 0)
         else if k = ''quarters'' then months (f64_times f (fi 3)) (3, 0, 0)
         else if k = ''months'' then months f (1, 0, 0)
         else if k = ''weeks'' then days (f64_times f (fi 7)) (0, 7, 0)
         else if k = ''days'' then days f (0, 1, 0)
         else if k = ''hours'' then nanos (f64_times (f64_times f (fi 3600)) ns) (0, 0, 3600 * NS)
         else if k = ''minutes'' then nanos (f64_times (f64_times f (fi 60)) ns) (0, 0, 60 * NS)
         else if k = ''seconds'' then nanos (f64_times f ns) (0, 0, NS)
         else if k = ''milliseconds'' then nanos (f64_times f (fi 1000000)) (0, 0, 1000000)
         else if k = ''microseconds'' then nanos (f64_times f (fi 1000)) (0, 0, 1000)
         else if k = ''nanoseconds'' then nanos f (0, 0, 1)
         else rt (''unknown duration field '' @ backquoted k))"

fun dur_fields :: "cy_map \<Rightarrow> dur_sums \<Rightarrow> cypher_error + dur_sums" where
  "dur_fields [] ds = Inr ds"
| "dur_fields ((k, v) # m) ds =
     (case v of
        VInt i \<Rightarrow> rbind (dur_field k (f64_of_int i) (Some i) ds) (dur_fields m)
      | VFloat x \<Rightarrow> rbind (dur_field k x None ds) (dur_fields m)
      | VNull \<Rightarrow> dur_fields m ds
      | _ \<Rightarrow> rt (''duration field '' @ backquoted k @ '' must be a number, got '' @ type_name v))"

definition duration_from_map :: "cy_map \<Rightarrow> cypher_error + dur" where
  "duration_from_map m =
     rbind (dur_fields m sums_zero) (\<lambda>ds. Inr (dur_from_parts (ds_months ds) (ds_days ds) (ds_nanos ds) (ds_exact ds)))"

section \<open>Values from maps\<close>

definition zone_offset_now :: "tz_ext \<Rightarrow> zone \<Rightarrow> int \<Rightarrow> int \<Rightarrow> cypher_error + int" where
  "zone_offset_now tz z days nanos = (case z of ZOffset o' \<Rightarrow> Inr o' | ZNamed n \<Rightarrow> offset_at_local tz n days nanos)"

definition time_in_zone :: "tz_ext \<Rightarrow> zone option \<Rightarrow> zone option \<Rightarrow> int \<Rightarrow> int \<Rightarrow> cypher_error + int \<times> int" where
  "time_in_zone tz zn src bd n =
     (case (zn, src) of
        (Some z, Some sz) \<Rightarrow>
          rbind (zone_offset_now tz sz bd n) (\<lambda>so.
          rbind (zone_offset_now tz z bd n) (\<lambda>no.
            Inr (as_i64_of ((n - so * NS + no * NS) mod DAY_NS), no)))
      | (Some z, None) \<Rightarrow> rbind (zone_offset_now tz z bd n) (\<lambda>x. Inr (n, x))
      | (None, Some sz) \<Rightarrow> rbind (zone_offset_now tz sz bd n) (\<lambda>x. Inr (n, x))
      | (None, None) \<Rightarrow> Inr (n, 0))"

definition datetime_in_zone :: "tz_ext \<Rightarrow> zone option \<Rightarrow> zone option \<Rightarrow> int \<Rightarrow> int \<Rightarrow> cypher_error + temporal" where
  "datetime_in_zone tz zn src d n =
     (case (zn, src) of
        (Some z, Some sz) \<Rightarrow>
          rbind (zone_offset_now tz sz d n) (\<lambda>so. at_instant tz (d * DAY_NS + n - so * NS) z)
      | (Some z, None) \<Rightarrow> zoned tz d n z None
      | (None, Some sz) \<Rightarrow> (case sz of ZNamed _ \<Rightarrow> zoned tz d n sz None | ZOffset o' \<Rightarrow> Inr (TDateTime d n (ZOffset o') o'))
      | (None, None) \<Rightarrow> Inr (TDateTime d n (ZOffset 0) 0))"

definition or_else :: "'a option \<Rightarrow> 'a option \<Rightarrow> 'a option" where
  "or_else x y = (case x of None \<Rightarrow> y | Some _ \<Rightarrow> x)"

definition from_map :: "tz_ext \<Rightarrow> temporal_kind \<Rightarrow> cy_map \<Rightarrow> cypher_error + cy_value" where
  "from_map tz kind m0 =
     (let m = lower_keys m0 in
      if kind = KDuration then rbind (duration_from_map m) (\<lambda>d. Inr (t_value (TDuration d)))
      else
        rbind (map_temporal tz m ''datetime'') (\<lambda>base_dt.
        rbind (map_temporal tz m ''date'') (\<lambda>date0. let base_date = or_else date0 base_dt in
        rbind (map_temporal tz m ''time'') (\<lambda>time0. let base_time = or_else time0 base_dt in
        rbind (map_zone tz m) (\<lambda>zn.
          let bd = Option.bind base_date date_days;
              bt = Option.bind base_time time_nanos;
              src_zone = Option.bind (if contains_key m ''time'' then base_time else base_dt) t_zone;
              date = rbind (date_from_map m bd);
              time = rbind (time_from_map m bt)
          in case kind of
               KDate \<Rightarrow> date (\<lambda>d. case d of None \<Rightarrow> rt ''date() needs date fields'' | Some d \<Rightarrow> Inr (t_value (TDate d)))
             | KLocalTime \<Rightarrow> time (\<lambda>n. case n of None \<Rightarrow> rt ''localtime() needs time fields'' | Some n \<Rightarrow> Inr (t_value (TLocalTime n)))
             | KTime \<Rightarrow>
                 time (\<lambda>n. case n of
                   None \<Rightarrow> rt ''time() needs time fields''
                 | Some n \<Rightarrow> rbind (time_in_zone tz zn (Option.bind base_time t_zone) (or_default bd 0) n) (\<lambda>(n, o'). Inr (t_value (TTime n o'))))
             | KLocalDateTime \<Rightarrow>
                 date (\<lambda>d. case d of
                   None \<Rightarrow> rt ''localdatetime() needs a date''
                 | Some d \<Rightarrow> time (\<lambda>n. Inr (t_value (TLocalDateTime d (or_default n 0)))))
             | KDateTime \<Rightarrow>
                 date (\<lambda>d. case d of
                   None \<Rightarrow> rt ''datetime() needs a date''
                 | Some d \<Rightarrow> time (\<lambda>n. rbind (datetime_in_zone tz zn src_zone d (or_default n 0)) (\<lambda>t. Inr (t_value t))))
             | KDuration \<Rightarrow> Inl CyPanic)))))"

section \<open>The statement clock\<close>

text \<open>
  \<^verbatim>\<open>CLOCK\<close>: the first read of a statement fixes the instant (nanoseconds since the epoch, or the error of a system
  clock before it), every later read returns it, and \<open>reset_clock\<close> starts a statement. \<open>sys\<close> is what the system clock
  answers at the read.
\<close>

definition reset_clock :: "int option \<Rightarrow> int option" where
  "reset_clock clock = None"

definition read_clock :: "(string + int) \<Rightarrow> int option \<Rightarrow> cypher_error + int \<times> int option" where
  "read_clock sys clock =
     (case clock of
        Some i \<Rightarrow> Inr (i, clock)
      | None \<Rightarrow> (case sys of Inl e \<Rightarrow> rt e | Inr i \<Rightarrow> Inr (i, Some i)))"

definition now_at :: "tz_ext \<Rightarrow> int \<Rightarrow> temporal_kind \<Rightarrow> cypher_error + cy_value" where
  "now_at tz inst kind =
     rbind (at_instant tz inst (ZOffset 0)) (\<lambda>t.
       case t of
         TDateTime days nanos z o' \<Rightarrow>
           (case kind of
              KDate \<Rightarrow> Inr (t_value (TDate days))
            | KLocalTime \<Rightarrow> Inr (t_value (TLocalTime nanos))
            | KTime \<Rightarrow> Inr (t_value (TTime nanos 0))
            | KLocalDateTime \<Rightarrow> Inr (t_value (TLocalDateTime days nanos))
            | KDateTime \<Rightarrow> Inr (t_value t)
            | KDuration \<Rightarrow> rt ''duration() needs an argument'')
       | _ \<Rightarrow> Inl CyPanic)"

definition now :: "tz_ext \<Rightarrow> (string + int) \<Rightarrow> temporal_kind \<Rightarrow> int option \<Rightarrow> (cypher_error + cy_value) \<times> int option" where
  "now tz sys kind clock =
     (case read_clock sys clock of
        Inl e \<Rightarrow> (Inl e, clock)
      | Inr (inst, clock') \<Rightarrow> (now_at tz inst kind, clock'))"

text \<open>\<^verbatim>\<open>date(x)\<close>, \<^verbatim>\<open>datetime(x)\<close> and so on of an argument.\<close>

definition construct_from :: "tz_ext \<Rightarrow> temporal_kind \<Rightarrow> cy_value \<Rightarrow> cypher_error + cy_value" where
  "construct_from tz kind v =
     (case v of
        VNull \<Rightarrow> Inr VNull
      | VString s \<Rightarrow> rbind (t_parse tz kind s) (\<lambda>t. Inr (t_value t))
      | VMap m \<Rightarrow> from_map tz kind m
      | VTemporal k s \<Rightarrow>
          if kind = KDuration then rt ''duration() of a temporal value''
          else from_map tz kind
            [(case k of KDate \<Rightarrow> ''date'' | KLocalTime \<Rightarrow> ''time'' | KTime \<Rightarrow> ''time'' | _ \<Rightarrow> ''datetime'', v)]
      | _ \<Rightarrow> rt (''cannot build a temporal value from a '' @ type_name v))"

definition construct :: "tz_ext \<Rightarrow> (string + int) \<Rightarrow> temporal_kind \<Rightarrow> cy_value option \<Rightarrow> int option
    \<Rightarrow> (cypher_error + cy_value) \<times> int option" where
  "construct tz sys kind arg clock =
     (case arg of None \<Rightarrow> now tz sys kind clock | Some v \<Rightarrow> (construct_from tz kind v, clock))"

section \<open>Components\<close>

definition date_field :: "int \<Rightarrow> string \<Rightarrow> int option" where
  "date_field days key =
     (case civil_from_days days of (y, m, d) \<Rightarrow>
        let q = (m - 1) sdiv 3 + 1 in
        map_of [(''year'', y), (''quarter'', q), (''month'', m), (''week'', snd (iso_week days)), (''weekyear'', fst (iso_week days)),
          (''day'', d), (''ordinalday'', ordinal days), (''weekday'', weekday days), (''dayofweek'', weekday days),
          (''dayofquarter'', days - quarter_start y q + 1)] key)"

definition time_field :: "int \<Rightarrow> string \<Rightarrow> int option" where
  "time_field n key =
     (case split_time n of (h, mi, s, ns) \<Rightarrow>
        map_of [(''hour'', h), (''minute'', mi), (''second'', s), (''millisecond'', ns sdiv 1000000),
          (''microsecond'', ns sdiv 1000), (''nanosecond'', ns)] key)"

definition zone_field :: "temporal \<Rightarrow> int \<Rightarrow> string \<Rightarrow> cy_value option" where
  "zone_field v o' key =
     (if key = ''timezone'' then Some (VString (case t_zone v of Some (ZNamed n) \<Rightarrow> n | _ \<Rightarrow> fmt_offset o'))
      else if key = ''offset'' then Some (VString (fmt_offset o'))
      else if key = ''offsetminutes'' then Some (VInt (o' sdiv 60))
      else if key = ''offsetseconds'' then Some (VInt o')
      else None)"

definition instant_field :: "int \<Rightarrow> string \<Rightarrow> cy_value option" where
  "instant_field inst key =
     (if key = ''epochseconds'' then Some (VInt (as_i64_of (inst div NS)))
      else if key = ''epochmillis'' then Some (VInt (as_i64_of (inst div 1000000)))
      else None)"

definition t_field :: "temporal \<Rightarrow> string \<Rightarrow> cy_value" where
  "t_field v key0 =
     (let key = lowercase key0 in
      case v of
        TDuration d \<Rightarrow> or_default (dur_component d key) VNull
      | _ \<Rightarrow>
          or_default
            (or_else (map_option VInt (Option.bind (date_days v) (\<lambda>d. date_field d key)))
            (or_else (map_option VInt (Option.bind (time_nanos v) (\<lambda>n. time_field n key)))
            (or_else (Option.bind (t_offset v) (\<lambda>o'. zone_field v o' key))
              (Option.bind (t_instant v) (\<lambda>i. instant_field i key))))) VNull)"

section \<open>Truncation\<close>

definition truncate_days :: "string \<Rightarrow> int \<Rightarrow> int" where
  "truncate_days unit days =
     (case civil_from_days days of (y, m, _) \<Rightarrow>
        if unit = ''millennium'' then days_from_civil (y div 1000 * 1000) 1 1
        else if unit = ''century'' then days_from_civil (y div 100 * 100) 1 1
        else if unit = ''decade'' then days_from_civil (y div 10 * 10) 1 1
        else if unit = ''year'' then days_from_civil y 1 1
        else if unit = ''weekyear'' then week1_monday (fst (iso_week days))
        else if unit = ''quarter'' then quarter_start y ((m - 1) sdiv 3 + 1)
        else if unit = ''month'' then days_from_civil y m 1
        else if unit = ''week'' then days - (weekday days - 1)
        else days)"

definition date_unit :: "string \<Rightarrow> bool" where
  "date_unit unit \<longleftrightarrow>
     unit \<in> {''millennium'', ''century'', ''decade'', ''year'', ''weekyear'', ''quarter'', ''month'', ''week'', ''day''}"

definition truncate_nanos :: "string \<Rightarrow> int \<Rightarrow> cypher_error + int" where
  "truncate_nanos unit n =
     (if unit = ''hour'' then Inr (n sdiv (3600 * NS) * 3600 * NS)
      else if unit = ''minute'' then Inr (n sdiv (60 * NS) * 60 * NS)
      else if unit = ''second'' then Inr (n sdiv NS * NS)
      else if unit = ''millisecond'' then Inr (n sdiv 1000000 * 1000000)
      else if unit = ''microsecond'' then Inr (n sdiv 1000 * 1000)
      else if date_unit unit then Inr 0
      else rt (''unknown truncation unit '' @ quoted unit))"

definition truncated :: "tz_ext \<Rightarrow> temporal_kind \<Rightarrow> string \<Rightarrow> temporal \<Rightarrow> cypher_error + temporal" where
  "truncated tz kind unit0 v =
     (let unit = lowercase unit0 in
      rbind (truncate_nanos unit (or_default (time_nanos v) 0)) (\<lambda>tn.
      rbind (case date_days v of
               Some d \<Rightarrow> Inr (Some (truncate_days unit d))
             | None \<Rightarrow> if date_unit unit \<and> unit \<noteq> ''day'' then rt ''cannot truncate a time to a date unit'' else Inr None) (\<lambda>td.
        case (kind, td) of
          (KDate, Some d) \<Rightarrow> Inr (TDate d)
        | (KLocalDateTime, Some d) \<Rightarrow> Inr (TLocalDateTime d tn)
        | (KDateTime, Some d) \<Rightarrow>
            (case t_zone v of Some z \<Rightarrow> zoned tz d tn z None | None \<Rightarrow> Inr (TDateTime d tn (ZOffset 0) 0))
        | (KLocalTime, _) \<Rightarrow> Inr (TLocalTime tn)
        | (KTime, _) \<Rightarrow> Inr (TTime tn (or_default (t_offset v) 0))
        | _ \<Rightarrow> rt ''invalid truncation'')))"

text \<open>A time zone among the overrides applies to the truncated local value, which is put back as a date and a local time.\<close>

definition bt_remove :: "string \<Rightarrow> cy_map \<Rightarrow> cy_map" where
  "bt_remove k m = filter (\<lambda>(k', _). k' \<noteq> k) m"

definition rezone_datetime :: "tz_ext \<Rightarrow> cy_map \<Rightarrow> cypher_error + cy_map" where
  "rezone_datetime tz base =
     (case bt_get base ''datetime'' of
        None \<Rightarrow> Inl CyPanic
      | Some dt \<Rightarrow>
          rbind (t_from_value tz dt) (\<lambda>t.
            case t of
              Some (TDateTime _ n _ _) \<Rightarrow>
                Inr (bt_insert ''time'' (t_value (TLocalTime n)) (bt_insert ''date'' dt (bt_remove ''datetime'' base)))
            | _ \<Rightarrow> Inl CyPanic))"

definition rezone_time :: "tz_ext \<Rightarrow> cy_map \<Rightarrow> cypher_error + cy_map" where
  "rezone_time tz base =
     (case bt_get base ''time'' of
        None \<Rightarrow> Inl CyPanic
      | Some v \<Rightarrow>
          rbind (t_from_value tz v) (\<lambda>t.
            case t of
              Some (TTime n _) \<Rightarrow> Inr (bt_insert ''time'' (t_value (TLocalTime n)) (bt_remove ''time'' base))
            | _ \<Rightarrow> Inl CyPanic))"

definition truncate :: "tz_ext \<Rightarrow> temporal_kind \<Rightarrow> string \<Rightarrow> temporal \<Rightarrow> cy_map option \<Rightarrow> cypher_error + cy_value" where
  "truncate tz kind unit v overrides =
     rbind (truncated tz kind unit v) (\<lambda>t.
       if overrides = None \<or> overrides = Some [] then Inr (t_value t)
       else
         let key = (case kind of KDate \<Rightarrow> ''date'' | KLocalTime \<Rightarrow> ''time'' | KTime \<Rightarrow> ''time'' | _ \<Rightarrow> ''datetime'');
             base = fold (\<lambda>(k, w). bt_insert k w) (lower_keys (or_default overrides [])) [(key, t_value t)]
         in rbind (if kind = KDateTime \<and> contains_key base ''timezone'' then rezone_datetime tz base else Inr base) (\<lambda>base.
            rbind (if kind = KTime \<and> contains_key base ''timezone'' then rezone_time tz base else Inr base) (\<lambda>base.
              from_map tz kind base)))"

section \<open>Arithmetic\<close>

definition add_duration :: "tz_ext \<Rightarrow> temporal \<Rightarrow> dur \<Rightarrow> int \<Rightarrow> cypher_error + temporal" where
  "add_duration tz v d0 sign =
     (let d = (if sign < 0 then dur_neg d0 else d0); n = total_nanos d in
      case v of
        TDate days \<Rightarrow> Inr (TDate (add_months days (d_months d) + d_days d + as_i64_of (n sdiv DAY_NS)))
      | TLocalTime t \<Rightarrow> Inr (TLocalTime (as_i64_of ((t + n) mod DAY_NS)))
      | TTime t o' \<Rightarrow> Inr (TTime (as_i64_of ((t + n) mod DAY_NS)) o')
      | TLocalDateTime days t \<Rightarrow>
          let total = (add_months days (d_months d) + d_days d) * DAY_NS + t + n
          in Inr (TLocalDateTime (as_i64_of (total div DAY_NS)) (as_i64_of (total mod DAY_NS)))
      | TDateTime days t z _ \<Rightarrow>
          rbind (zoned tz (add_months days (d_months d) + d_days d) t z None) (\<lambda>local.
            case t_instant local of None \<Rightarrow> Inl CyPanic | Some i \<Rightarrow> at_instant tz (i + n) z)
      | TDuration x \<Rightarrow> rbind (dur_add x d) (\<lambda>s. Inr (TDuration s)))"

definition arith :: "tz_ext \<Rightarrow> char \<Rightarrow> cy_value \<Rightarrow> cy_value \<Rightarrow> cypher_error + cy_value option" where
  "arith tz op a b =
     rbind (t_from_value tz a) (\<lambda>ta.
     rbind (t_from_value tz b) (\<lambda>tb.
       let some = (\<lambda>m. rbind m (\<lambda>t. Inr (Some (t_value t))));
           scaled = (\<lambda>d x. Inr (map_option (\<lambda>f. t_value (TDuration (dur_scale d f))) (cy_as_f64 x)))
       in if op = CHR ''+''
          then (case (ta, tb) of
                  (Some x, Some (TDuration d)) \<Rightarrow> some (add_duration tz x d 1)
                | (Some (TDuration d), Some x) \<Rightarrow> some (add_duration tz x d 1)
                | _ \<Rightarrow> Inr None)
          else if op = CHR ''-''
          then (case (ta, tb) of (Some x, Some (TDuration d)) \<Rightarrow> some (add_duration tz x d (- 1)) | _ \<Rightarrow> Inr None)
          else if op = CHR ''*''
          then (case (ta, tb) of
                  (Some (TDuration d), None) \<Rightarrow> scaled d b
                | (None, Some (TDuration d)) \<Rightarrow> scaled d a
                | _ \<Rightarrow> Inr None)
          else if op = CHR ''/''
          then (case (ta, tb) of
                  (Some (TDuration d), None) \<Rightarrow>
                    (case cy_as_f64 b of
                       None \<Rightarrow> Inr None
                     | Some f \<Rightarrow> if f64_eq f f64_zero then rt ''division of a duration by zero''
                                else Inr (Some (t_value (TDuration (dur_scale d (f64_divide (f64_of_int 1) f))))))
                | _ \<Rightarrow> Inr None)
          else Inr None))"

section \<open>Comparison\<close>

fun t_compare :: "temporal \<Rightarrow> temporal \<Rightarrow> ordering option" where
  "t_compare (TDate x) (TDate y) = Some (compare_of x y)"
| "t_compare (TLocalTime x) (TLocalTime y) = Some (compare_of x y)"
| "t_compare (TTime x ox) (TTime y oy) =
     Some (then_ordering (compare_of (x - ox * NS) (y - oy * NS)) (reverse_ordering (compare_of ox oy)))"
| "t_compare (TLocalDateTime dx x) (TLocalDateTime dy y) = Some (then_ordering (compare_of dx dy) (compare_of x y))"
| "t_compare (TDateTime d n z o') (TDateTime d' n' z' o'') =
     (case (t_instant (TDateTime d n z o'), t_instant (TDateTime d' n' z' o'')) of
        (Some i, Some j) \<Rightarrow> Some (compare_of i j)
      | _ \<Rightarrow> None)"
| "t_compare _ _ = None"

fun t_equal :: "temporal \<Rightarrow> temporal \<Rightarrow> bool option" where
  "t_equal (TDuration x) (TDuration y) = Some (x = y)"
| "t_equal (TTime x ox) (TTime y oy) = Some (x = y \<and> ox = oy)"
| "t_equal (TDateTime dx x zx ox) (TDateTime dy y zy oy) =
     Some (t_instant (TDateTime dx x zx ox) = t_instant (TDateTime dy y zy oy) \<and> (zx = zy \<or> (dx = dy \<and> x = y \<and> ox = oy)))"
| "t_equal a b = (if t_kind a \<noteq> t_kind b then Some False else map_option (\<lambda>c. c = Equal) (t_compare a b))"

section \<open>The duration between two values\<close>

text \<open>Whole months, then whole days (Java's \<^verbatim>\<open>until\<close>).\<close>

definition months_days :: "int \<Rightarrow> int \<Rightarrow> int \<Rightarrow> int \<Rightarrow> int \<times> int" where
  "months_days da na db nb =
     (case civil_from_days da of (y1, m1, d1) \<Rightarrow>
      case civil_from_days db of (y2, m2, d2) \<Rightarrow>
        let months0 = (y2 * 12 + m2) - (y1 * 12 + m1);
            months = (if months0 > 0 \<and> (d2, nb) < (d1, na) then months0 - 1
                      else if months0 < 0 \<and> (d2, nb) > (d1, na) then months0 + 1 else months0);
            mid = add_months da months * DAY_NS + na;
            till = db * DAY_NS + nb
        in (months, as_i64_of ((till - mid) sdiv DAY_NS)))"

definition has_date :: "temporal \<Rightarrow> bool" where
  "has_date v \<longleftrightarrow> date_days v \<noteq> None"

text \<open>Between two local date-times, and between two placed in a zone.\<close>

definition between_local :: "string \<Rightarrow> int \<Rightarrow> int \<Rightarrow> int \<Rightarrow> int \<Rightarrow> dur" where
  "between_local unit da na db nb =
     (let start = da * DAY_NS + na; till = db * DAY_NS + nb in
      if unit = ''inseconds'' then dur_new 0 0 (till - start)
      else if unit = ''indays'' then dur_new 0 (as_i64_of ((till - start) sdiv DAY_NS)) 0
      else case months_days da na db nb of (months, days) \<Rightarrow>
        if unit = ''inmonths'' then dur_new months 0 0
        else dur_new months days (till - ((add_months da months + days) * DAY_NS + na)))"

definition local_in :: "tz_ext \<Rightarrow> zone \<Rightarrow> temporal \<Rightarrow> cypher_error + int \<times> int" where
  "local_in tz z v =
     (case t_instant v of
        Some i \<Rightarrow> rbind (at_instant tz i z) (\<lambda>t. case t of TDateTime d n _ _ \<Rightarrow> Inr (d, n) | _ \<Rightarrow> Inl CyPanic)
      | None \<Rightarrow> (case date_days v of None \<Rightarrow> Inl CyPanic | Some d \<Rightarrow> Inr (d, or_default (time_nanos v) 0)))"

definition instant_in :: "tz_ext \<Rightarrow> zone \<Rightarrow> int \<Rightarrow> int \<Rightarrow> cypher_error + int" where
  "instant_in tz z d n = rbind (zoned tz d n z None) (\<lambda>t. case t_instant t of Some i \<Rightarrow> Inr i | None \<Rightarrow> Inl CyPanic)"

definition between_zoned :: "tz_ext \<Rightarrow> string \<Rightarrow> zone \<Rightarrow> temporal \<Rightarrow> temporal \<Rightarrow> cypher_error + dur" where
  "between_zoned tz unit z a b =
     rbind (local_in tz z a) (\<lambda>(da, na).
     rbind (local_in tz z b) (\<lambda>(db, nb).
     rbind (instant_in tz z da na) (\<lambda>ia.
     rbind (instant_in tz z db nb) (\<lambda>ib.
       if unit = ''inseconds'' then Inr (dur_new 0 0 (ib - ia))
       else case months_days da na db nb of (months, days) \<Rightarrow>
         if unit = ''inmonths'' then Inr (dur_new months 0 0)
         else if unit = ''indays'' then Inr (dur_new 0 (add_months da months - da + days) 0)
         else rbind (instant_in tz z (add_months da months + days) na) (\<lambda>mid. Inr (dur_new months days (ib - mid)))))))"

text \<open>A side without a date: a zoned date-time against a time, or two times of day.\<close>

definition utc_time :: "temporal \<Rightarrow> int option" where
  "utc_time v = (case v of TTime n o' \<Rightarrow> Some (n - o' * NS) | _ \<Rightarrow> None)"

definition between_times :: "temporal \<Rightarrow> temporal \<Rightarrow> dur" where
  "between_times a b =
     (case (utc_time a, utc_time b) of
        (Some x, Some y) \<Rightarrow> dur_new 0 0 (y - x)
      | _ \<Rightarrow> dur_new 0 0 (or_default (time_nanos b) 0 - or_default (time_nanos a) 0))"

definition timed :: "temporal \<Rightarrow> bool" where
  "timed v \<longleftrightarrow> time_nanos v \<noteq> None \<or> date_days v \<noteq> None"

text \<open>\<open>swap\<close> tells that the date-time is the second of the two values.\<close>

definition between_mixed :: "tz_ext \<Rightarrow> bool \<Rightarrow> int \<Rightarrow> int \<Rightarrow> int \<Rightarrow> zone \<Rightarrow> temporal \<Rightarrow> cypher_error + dur" where
  "between_mixed tz swap d n o' z other =
     (let inst_dt = d * DAY_NS + n - o' * NS in
      rbind (case other of
               TTime tn to \<Rightarrow> Inr (d * DAY_NS + tn - to * NS)
             | _ \<Rightarrow> instant_in tz z (or_default (date_days other) d) (or_default (time_nanos other) 0)) (\<lambda>inst_other.
        let (x, y) = (if swap then (inst_other, inst_dt) else (inst_dt, inst_other))
        in if t_kind other = KTime then Inr (dur_new 0 0 (y mod DAY_NS - x mod DAY_NS)) else Inr (dur_new 0 0 (y - x))))"

fun zone_of_pair :: "temporal \<Rightarrow> temporal \<Rightarrow> zone option" where
  "zone_of_pair (TDateTime _ _ z _) _ = Some z"
| "zone_of_pair _ (TDateTime _ _ z _) = Some z"
| "zone_of_pair _ _ = None"

definition between_undated :: "tz_ext \<Rightarrow> temporal \<Rightarrow> temporal \<Rightarrow> cypher_error + dur" where
  "between_undated tz a b =
     (let rest = (case b of
                    TDateTime d n z o' \<Rightarrow>
                      if timed a then between_mixed tz (\<not> (t_kind a = KDateTime)) d n o' (or_default (zone_of_pair a b) z) a
                      else Inr (between_times a b)
                  | _ \<Rightarrow> Inr (between_times a b))
      in case a of
           TDateTime d n z o' \<Rightarrow> if timed b then between_mixed tz False d n o' z b else rest
         | _ \<Rightarrow> rest)"

definition between_dur :: "tz_ext \<Rightarrow> string \<Rightarrow> temporal \<Rightarrow> temporal \<Rightarrow> cypher_error + dur" where
  "between_dur tz unit a b =
     (if has_date a \<and> has_date b
      then (case zone_of_pair a b of
              Some z \<Rightarrow> between_zoned tz unit z a b
            | None \<Rightarrow>
                (case (date_days a, date_days b) of
                   (Some da, Some db) \<Rightarrow> Inr (between_local unit da (or_default (time_nanos a) 0) db (or_default (time_nanos b) 0))
                 | _ \<Rightarrow> Inl CyPanic))
      else if unit = ''inmonths'' \<or> unit = ''indays'' then Inr dur_zero
      else between_undated tz a b)"

definition between :: "tz_ext \<Rightarrow> string \<Rightarrow> temporal \<Rightarrow> temporal \<Rightarrow> cypher_error + cy_value" where
  "between tz unit a b = rbind (between_dur tz unit a b) (\<lambda>d. Inr (t_value (TDuration d)))"

definition from_epoch :: "tz_ext \<Rightarrow> int \<Rightarrow> int \<Rightarrow> cypher_error + cy_value" where
  "from_epoch tz secs nanos = rbind (at_instant tz (secs * NS + nanos) (ZOffset 0)) (\<lambda>t. Inr (t_value t))"

end
