(* ===== verification/Float_Ints.thy ===== *)
theory Float_Ints
  imports Floats
begin

text \<open>
  Whole numbers as floats: arithmetic on floats that are whole numbers of moderate size stays among whole
  numbers, which is what the \<^verbatim>\<open>fract() == 0.0\<close> tests of the sources rely on.
\<close>

section \<open>Sizes\<close>

lemma bit_len_bounds:
  assumes "0 < n"
  obtains k where "bit_len n = Suc k" "2 ^ k \<le> n" "n < 2 ^ Suc k"
proof -
  have "1 \<le> nat n" using assms by simp
  from ex_power_ivl1 [of 2, OF _ this] obtain k where "2 ^ k \<le> nat n" "nat n < 2 ^ (k + 1)" by auto
  then have "int (2 ^ k) \<le> n" "n < int (2 ^ (k + 1))" using assms by (simp_all add: le_nat_iff nat_less_iff)
  then have k: "2 ^ k \<le> n" "n < 2 ^ Suc k" by simp_all
  from that [OF bit_len_eq [OF this] k] show thesis .
qed

lemma round_mag_0 [simp]: "0 < d \<Longrightarrow> round_mag 0 d = 0"
  by (simp add: round_mag_def Let_def bit_len.simps [of 0])

lemma round_mag_scale:
  assumes "0 < k" "0 < d"
  shows "round_mag (n * k) (d * k) = round_mag n d"
proof -
  have e: "n * k * F64_UNIT = (n * F64_UNIT) * k" by simp
  have q: "n * k * F64_UNIT div (d * k) = n * F64_UNIT div d"
    unfolding e using assms by (intro div_mult_mult2) simp
  define b c where "b = bit_len (n * F64_UNIT div d) - 53" and "c = n * F64_UNIT div d div 2 ^ b"
  have r: "n * k * F64_UNIT - c * 2 ^ b * (d * k) = (n * F64_UNIT - c * 2 ^ b * d) * k" "2 ^ b * (d * k) = (2 ^ b * d) * k"
    by (simp_all add: algebra_simps)
  have cmp: "y * k < 2 * (x * k) \<longleftrightarrow> y < 2 * x" "2 * (x * k) = y * k \<longleftrightarrow> 2 * x = y" for x y
    using assms(1) mult_less_cancel_right_pos [OF assms(1), of y "2 * x"] mult_cancel_right [of "2 * x" k y]
    by (auto simp: mult.assoc)
  show ?thesis
    unfolding round_mag_def Let_def q b_def [symmetric] c_def [symmetric] r cmp ..
qed

lemma mag_scaled_normal:
  assumes "2 ^ 52 \<le> c" "c \<le> 2 ^ 53"
  shows "mag_scaled (int b * 2 ^ 52 + c) = c * 2 ^ b"
proof (cases "c = 2 ^ 53")
  case True
  have "int b * 2 ^ 52 + c = (int b + 2) * 2 ^ 52 + 0" using True by (simp add: algebra_simps)
  then have "mag_scaled (int b * 2 ^ 52 + c) = 2 ^ 52 * 2 ^ nat (int b + 1)"
    using mag_scaled_parts [of 0 "int b + 2"] by (simp only:) simp
  then show ?thesis using True by (simp add: nat_add_distrib)
next
  case False
  have "int b * 2 ^ 52 + c = (int b + 1) * 2 ^ 52 + (c - 2 ^ 52)" by (simp add: algebra_simps)
  then show ?thesis using mag_scaled_parts [of "c - 2 ^ 52" "int b + 1"] assms False by (simp only:) simp
qed

lemma round_mag_whole:
  assumes "0 \<le> n" "n \<le> 2 ^ 200"
  obtains i where "0 \<le> i" "i \<le> 2 * n" "0 \<le> round_mag n 1" "round_mag n 1 < inf_mag" "mag_scaled (round_mag n 1) = i * F64_UNIT"
proof (cases "n = 0")
  case True
  with that [of 0] show thesis by (simp add: mag_scaled_def)
next
  case False
  define N where "N = n * F64_UNIT"
  have Npos: "0 < N" using False assms F64_UNIT_pos by (simp add: N_def)
  from bit_len_bounds [OF this] obtain k where k: "bit_len N = Suc k" "2 ^ k \<le> N" "N < 2 ^ Suc k" .
  have "1 * 2 ^ 1074 \<le> n * 2 ^ 1074" using False assms(1) by (intro mult_right_mono) auto
  then have "(2 :: int) ^ 1074 < 2 ^ Suc k" using k(3) unfolding N_def F64_UNIT_def by simp
  then have "1074 < Suc k" by (rule power_less_imp_less_exp [rotated]) simp
  then have k1: "1074 \<le> k" by simp
  have "N \<le> 2 ^ 200 * 2 ^ 1074" unfolding N_def F64_UNIT_def using assms(2) by (intro mult_right_mono) auto
  then have "(2 :: int) ^ k \<le> 2 ^ 1274" using k(2) by (simp flip: power_add)
  then have k2: "k \<le> 1274" by (simp only: power_increasing_iff)
  define b where "b = k - 52"
  define c where "c = N div 2 ^ b"
  have Nmod: "0 \<le> N mod 2 ^ b" by simp
  have kb: "k = b + 52" using k1 by (simp add: b_def)
  have c: "2 ^ 52 \<le> c" "c < 2 ^ 53"
  proof -
    have "2 ^ 52 * 2 ^ b \<le> N" using k(2) by (simp add: kb power_add mult.commute)
    then have "2 ^ 52 * 2 ^ b div 2 ^ b \<le> c" unfolding c_def by (rule zdiv_mono1) simp
    then show "2 ^ 52 \<le> c" by simp
    have "N < 2 ^ 53 * 2 ^ b" using k(3) by (simp add: kb power_add mult.commute)
    moreover have "c * 2 ^ b \<le> N" unfolding c_def using minus_div_mult_eq_mod [of N "2 ^ b"] Nmod by linarith
    ultimately have "c * 2 ^ b < 2 ^ 53 * 2 ^ b" by linarith
    then show "c < 2 ^ 53" by simp
  qed
  define m where "m = int b * 2 ^ 52 + c"
  define r where "r = N - c * 2 ^ b"
  define up where "up \<longleftrightarrow> 2 * r > 2 ^ b \<or> (2 * r = 2 ^ b \<and> odd m)"
  have rm: "round_mag n 1 = min (if up then m + 1 else m) inf_mag"
  proof -
    have "bit_len N - 53 = b" using k(1) by (simp add: b_def)
    then show ?thesis by (simp add: round_mag_def Let_def up_def r_def m_def c_def flip: N_def)
  qed
  have "m + 1 < inf_mag" using c k2 k1 by (simp add: m_def b_def)
  then have rm': "round_mag n 1 = int b * 2 ^ 52 + (if up then c + 1 else c)" unfolding rm by (simp add: m_def)
  have r: "0 \<le> r" unfolding r_def c_def using minus_div_mult_eq_mod [of N "2 ^ b"] Nmod by linarith
  have sc: "mag_scaled (round_mag n 1) = (if up then c + 1 else c) * 2 ^ b"
    unfolding rm' by (rule mag_scaled_normal) (use c in auto)
  have le: "(if up then c + 1 else c) * 2 ^ b \<le> 2 * N"
  proof -
    have "(if up then c + 1 else c) * 2 ^ b \<le> 2 * c * 2 ^ b" using c by (intro mult_right_mono) auto
    also have "\<dots> \<le> 2 * N" using r by (simp add: r_def)
    finally show ?thesis .
  qed
  have nn: "0 \<le> round_mag n 1" "round_mag n 1 < inf_mag" using \<open>m + 1 < inf_mag\<close> c unfolding rm' m_def by auto
  show thesis
  proof (cases "1074 \<le> b")
    case True
    define i where "i = (if up then c + 1 else c) * 2 ^ (b - 1074)"
    have pw: "(2 :: int) ^ b = 2 ^ (b - 1074) * F64_UNIT" using True unfolding F64_UNIT_def by (simp only: flip: power_add) simp
    then have s: "mag_scaled (round_mag n 1) = i * F64_UNIT" unfolding sc by (simp add: i_def)
    then have "i * F64_UNIT \<le> (2 * n) * F64_UNIT" using le unfolding sc by (simp add: N_def)
    then have "i \<le> 2 * n" using F64_UNIT_pos by simp
    moreover have "0 \<le> i" using c by (simp add: i_def)
    ultimately show thesis using that s nn by blast
  next
    case False
    then have "F64_UNIT = 2 ^ (1074 - b) * 2 ^ b" unfolding F64_UNIT_def by (simp only: flip: power_add) simp
    then have "N = n * 2 ^ (1074 - b) * 2 ^ b" by (simp add: N_def)
    then have "r = 0" by (simp add: r_def c_def)
    then have "\<not> up" by (simp add: up_def)
    moreover have "c * 2 ^ b = n * F64_UNIT" using \<open>r = 0\<close> by (simp add: r_def N_def)
    ultimately show thesis using that [of n] sc nn assms by simp
  qed
qed

section \<open>Whole floats\<close>

definition whole :: "f64 \<Rightarrow> int \<Rightarrow> bool" where
  "whole x i \<longleftrightarrow> f64_is_finite x \<and> f64_scaled x = i * F64_UNIT"

lemma ratio_whole:
  assumes "\<bar>v\<bar> \<le> 2 ^ 200"
  obtains i where "whole (f64_of_ratio s \<bar>v\<bar> 1) i" "\<bar>i\<bar> \<le> 2 * \<bar>v\<bar>"
proof -
  from round_mag_whole [of "\<bar>v\<bar>"] assms obtain i where
    i: "0 \<le> i" "i \<le> 2 * \<bar>v\<bar>" and m: "0 \<le> round_mag \<bar>v\<bar> 1" "round_mag \<bar>v\<bar> 1 < inf_mag" "mag_scaled (round_mag \<bar>v\<bar> 1) = i * F64_UNIT"
    by auto
  have m63: "round_mag \<bar>v\<bar> 1 < 2 ^ 63" using m(2) by simp
  have "whole (f64_of_ratio s \<bar>v\<bar> 1) (if s then - i else i)"
    using m unfolding whole_def f64_of_ratio_def f64_is_finite_def f64_scaled_def make_f64_parts [OF m(1) m63] by simp
  with that i show thesis by auto
qed

lemma whole_not_special: "whole x i \<Longrightarrow> \<not> f64_is_nan x \<and> \<not> f64_is_inf x"
  by (auto simp: whole_def f64_is_finite_def f64_is_nan_def f64_is_inf_def)

lemma whole_zero [simp]: "whole (make_f64 s 0) 0"
proof -
  have "mag_scaled 0 = 0" by (simp add: mag_scaled_def)
  moreover have "f64_mag (make_f64 s 0) = 0" using make_f64_parts [of 0 s] by simp
  ultimately show ?thesis by (simp add: whole_def f64_is_finite_def f64_scaled_def if_distrib)
qed

lemma plus_whole:
  assumes "whole x i" "whole y j" "\<bar>i + j\<bar> \<le> 2 ^ 200"
  obtains k where "whole (f64_plus x y) k" "\<bar>k\<bar> \<le> 2 * \<bar>i + j\<bar>"
proof -
  have "f64_scaled x + f64_scaled y = (i + j) * F64_UNIT" using assms by (simp add: whole_def algebra_simps)
  moreover have "round_mag (\<bar>i + j\<bar> * F64_UNIT) F64_UNIT = round_mag \<bar>i + j\<bar> 1"
    using round_mag_scale [of F64_UNIT 1 "\<bar>i + j\<bar>"] F64_UNIT_pos by simp
  ultimately have "\<exists>s. f64_plus x y = f64_of_ratio s \<bar>i + j\<bar> 1"
    using whole_not_special [OF assms(1)] whole_not_special [OF assms(2)] F64_UNIT_pos
    by (auto simp: f64_plus_def f64_add_def Let_def abs_mult f64_of_ratio_def)
  with ratio_whole [OF assms(3)] that show thesis by metis
qed

lemma times_whole:
  assumes "whole x i" "whole y j" "\<bar>i * j\<bar> \<le> 2 ^ 200"
  obtains k where "whole (f64_times x y) k" "\<bar>k\<bar> \<le> 2 * \<bar>i * j\<bar>"
proof -
  have "f64_scaled x * f64_scaled y = (i * j) * (F64_UNIT * F64_UNIT)" using assms by (simp add: whole_def algebra_simps)
  moreover have "round_mag (\<bar>i * j\<bar> * (F64_UNIT * F64_UNIT)) (F64_UNIT * F64_UNIT) = round_mag \<bar>i * j\<bar> 1"
    using round_mag_scale [of "F64_UNIT * F64_UNIT" 1 "\<bar>i * j\<bar>"] F64_UNIT_pos by simp
  ultimately have "f64_times x y = f64_of_ratio (f64_sign x \<noteq> f64_sign y) \<bar>i * j\<bar> 1"
    using whole_not_special [OF assms(1)] whole_not_special [OF assms(2)] F64_UNIT_pos
    by (simp add: f64_times_def f64_mul_def abs_mult f64_of_ratio_def)
  with ratio_whole [OF assms(3)] that show thesis by metis
qed

lemma make_f64_of_parts: "make_f64 (f64_sign x) (f64_mag x) = x"
  unfolding make_f64_def uint_sign [symmetric] by simp

lemma trunc_whole:
  assumes "whole x i"
  shows "f64_trunc x = x"
proof -
  define e f where "e = f64_mag x div 2 ^ 52" and "f = f64_mag x mod 2 ^ 52"
  have m: "f64_mag x = e * 2 ^ 52 + f" by (simp add: e_def f_def)
  have ef: "0 \<le> e" "0 \<le> f" "f < 2 ^ 52" using f64_mag_nonneg [of x] by (simp_all add: e_def f_def pos_imp_zdiv_nonneg_iff)
  have "f64_mag x < 2047 * 2 ^ 52" using assms by (simp add: whole_def f64_is_finite_def)
  then have e2: "e \<le> 2046" using m ef by simp
  have abs: "mag_scaled (f64_mag x) = \<bar>i\<bar> * F64_UNIT"
  proof -
    have "\<bar>f64_scaled x\<bar> = mag_scaled (f64_mag x)" using mag_scaled_nonneg [of "f64_mag x"] by (simp add: f64_scaled_def)
    with assms F64_UNIT_pos show ?thesis by (simp add: whole_def abs_mult)
  qed
  then have ms: "(if e = 0 then f else (2 ^ 52 + f) * 2 ^ nat (e - 1)) = \<bar>i\<bar> * F64_UNIT"
    unfolding m mag_scaled_parts [OF ef(2,3)] .
  have "round_mag \<bar>i\<bar> 1 = f64_mag x"
  proof (cases "e = 0")
    case True
    have "\<bar>i\<bar> = 0"
    proof (rule ccontr)
      assume "\<bar>i\<bar> \<noteq> 0"
      then have "1 * F64_UNIT \<le> \<bar>i\<bar> * F64_UNIT" using F64_UNIT_pos by (intro mult_right_mono) auto
      moreover have "(2 :: int) ^ 52 \<le> F64_UNIT" unfolding F64_UNIT_def by (rule power_increasing) simp_all
      ultimately show False using ms True ef(3) by simp
    qed
    then show ?thesis using ms True m by simp
  next
    case False
    have "round_mag \<bar>i\<bar> 1 = int (nat (e - 1)) * 2 ^ 52 + (2 ^ 52 + f)"
      by (rule round_mag_exact) (use False ms ef e2 in auto)
    then show ?thesis using False ef m by (simp add: algebra_simps)
  qed
  moreover have "\<bar>f64_scaled x\<bar> div F64_UNIT = \<bar>i\<bar>" using assms F64_UNIT_pos by (simp add: whole_def abs_mult)
  ultimately show ?thesis
    using whole_not_special [OF assms] by (simp add: f64_trunc_def f64_of_ratio_def make_f64_of_parts)
qed

lemma f64_neg_parts: "f64_sign (f64_neg x) \<longleftrightarrow> \<not> f64_sign x" "f64_mag (f64_neg x) = f64_mag x"
proof -
  show s: "f64_sign (f64_neg x) \<longleftrightarrow> \<not> f64_sign x"
    by (simp add: f64_sign_def f64_neg_def bit_xor_iff bit_push_bit_iff)
  have "f64_mag y = uint (take_bit 63 y)" for y :: f64
    by (simp add: f64_mag_def take_bit_eq_mod uint_mod unsigned_take_bit_eq)
  moreover have "take_bit 63 (f64_neg x) = take_bit 63 x"
    by (rule bit_eqI) (simp add: f64_neg_def bit_take_bit_iff bit_xor_iff bit_push_bit_iff)
  ultimately show "f64_mag (f64_neg x) = f64_mag x" by simp
qed

lemma minus_self: "f64_is_finite x \<Longrightarrow> f64_minus x x = make_f64 False 0"
  using F64_UNIT_pos
  by (simp add: f64_minus_def f64_plus_def f64_is_nan_def f64_is_inf_def f64_is_finite_def f64_neg_parts f64_add_def
      f64_scaled_def Let_def f64_of_ratio_def)

lemma whole_no_fraction: "whole x i \<Longrightarrow> f64_eq (f64_minus x (f64_trunc x)) (make_f64 False 0)"
  using make_f64_parts [of 0 False] trunc_whole [of x i] minus_self [of x]
  by (simp add: whole_def f64_eq_def f64_is_nan_def f64_key_def)

section \<open>Reading whole numbers\<close>

lemma f64_from_digits:
  assumes "list_all is_ascii_digit t" "t \<noteq> []" "s = [] \<or> s = ''-''"
  shows "f64_from_str (s @ t) = Some (decimal_f64 (s \<noteq> []) t [] 0)"
proof -
  obtain c r where t: "t = c # r" using assms(2) by (cases t) auto
  with assms(1) have d: "is_ascii_digit c" by simp
  then have nc: "c \<noteq> CHR ''-''" "c \<noteq> CHR ''+''" by (auto simp: is_ascii_digit_def)
  have low: "to_ascii_lowercase c = c" using d by (simp add: to_ascii_lowercase_def is_ascii_upper_def is_ascii_digit_def)
  then have "\<not> eq_ignore_ascii_case t ''inf''" "\<not> eq_ignore_ascii_case t ''infinity''" "\<not> eq_ignore_ascii_case t ''nan''"
    using d t by (auto simp: eq_ignore_ascii_case_def is_ascii_digit_def to_ascii_lowercase_def is_ascii_upper_def)
  moreover have "takeWhile is_ascii_digit t = t" "dropWhile is_ascii_digit t = []" using assms(1) by (simp_all add: list_all_iff)
  ultimately show ?thesis using assms(2,3) nc t by (auto simp: f64_from_str_def parse_decimal_def Let_def)
qed

lemma f64_from_show_int:
  assumes "\<bar>k\<bar> \<le> 2 ^ 200"
  obtains x i where "f64_from_str (show_int k) = Some x" "whole x i" "\<bar>i\<bar> \<le> 2 * \<bar>k\<bar>"
proof -
  define t where "t = show_nat (nat \<bar>k\<bar>)"
  have t: "list_all is_ascii_digit t" "t \<noteq> []" "digits_val t = nat \<bar>k\<bar>"
    by (auto simp: t_def list_all_iff dest: show_nat_digits)
  have "show_int k = (if k < 0 then ''-'' else []) @ t" by (simp add: show_int_def t_def)
  then have f: "f64_from_str (show_int k) = Some (decimal_f64 (k < 0) t [] 0)"
    using f64_from_digits [OF t(1,2), of "if k < 0 then ''-'' else []"] by simp
  have "decimal_f64 (k < 0) t [] 0 = (if k = 0 then make_f64 (k < 0) 0 else f64_of_ratio (k < 0) \<bar>k\<bar> 1)"
    using t(3) by (simp add: decimal_f64_def)
  then show thesis using that f ratio_whole [OF assms] whole_zero by (cases "k = 0") (force, metis)
qed

end
