(* ===== verification/Cypher_Text.thy ===== *)
theory Cypher_Text
  imports Cypher_Temporal
begin

text \<open>
  Round trips of the texts of Cypher temporal values: what \<^verbatim>\<open>render\<close> and \<^verbatim>\<open>lexical\<close> write, \<^verbatim>\<open>parse\<close> reads
  back. Values are stored as their texts, so every operation on a value goes through this round trip.
\<close>

section \<open>Digit strings\<close>

lemma NS_pos [simp]: "0 < NS" "0 \<le> NS" "NS \<noteq> 0"
  by (simp_all add: NS_def)

lemma num_digits: "all_digits s \<Longrightarrow> int (digits_val s) \<le> i64_max \<Longrightarrow> num s = Inr (int (digits_val s))"
  using parse_int_in_digits [of s i64_min i64_max] by (simp add: num_def all_digits_def parse_i64_def)

lemma all_digits_pad0 [simp]: "all_digits (pad0 w n)"
  using pad0_digits [of _ w n] by (auto simp: all_digits_def list_all_iff pad0_def)

lemma all_digits_show_nat [simp]: "all_digits (show_nat n)"
  using show_nat_digits [of _ n] by (auto simp: all_digits_def list_all_iff)

lemma num_pad0 [simp]: "int n \<le> i64_max \<Longrightarrow> num (pad0 w n) = Inr (int n)"
  using num_digits [of "pad0 w n"] by simp

lemma num_show_nat [simp]: "int n \<le> i64_max \<Longrightarrow> num (show_nat n) = Inr (int n)"
  using num_digits [of "show_nat n"] by simp

lemma length_pad2 [simp]: "n < 100 \<Longrightarrow> length (pad0 2 n) = 2"
  by (rule length_pad0) simp_all

lemma all_digits_char: "all_digits s \<Longrightarrow> c \<in> set s \<Longrightarrow> is_ascii_digit c"
  by (simp add: all_digits_def list_all_iff)

lemma not_digit_simps [simp]:
  "\<not> is_ascii_digit (CHR ''-'')" "\<not> is_ascii_digit (CHR ''+'')" "\<not> is_ascii_digit (CHR '':'')" "\<not> is_ascii_digit (CHR ''.'')"
  "\<not> is_ascii_digit (CHR '','')" "\<not> is_ascii_digit (CHR ''T'')" "\<not> is_ascii_digit (CHR ''t'')" "\<not> is_ascii_digit (CHR ''Z'')"
  "\<not> is_ascii_digit (CHR ''z'')" "\<not> is_ascii_digit (CHR ''W'')" "\<not> is_ascii_digit (CHR ''['')" "\<not> is_ascii_digit (CHR '']'')"
  "\<not> is_ascii_digit (CHR ''P'')" "\<not> is_ascii_digit (CHR ''Y'')" "\<not> is_ascii_digit (CHR ''M'')" "\<not> is_ascii_digit (CHR ''D'')"
  "\<not> is_ascii_digit (CHR ''H'')" "\<not> is_ascii_digit (CHR ''S'')"
  by (simp_all add: is_ascii_digit_def)

lemma digits_no_char: "all_digits s \<Longrightarrow> \<not> is_ascii_digit c \<Longrightarrow> c \<notin> set s"
  using all_digits_char by blast

lemma pad0_no_char [simp]: "\<not> is_ascii_digit c \<Longrightarrow> c \<notin> set (pad0 w n)"
  using pad0_digits by blast

lemma show_nat_no_char [simp]: "\<not> is_ascii_digit c \<Longrightarrow> c \<notin> set (show_nat n)"
  using show_nat_digits by blast

lemma digits_val_append: "digits_val (s @ t) = digits_val s * 10 ^ length t + digits_val t"
proof (induction t rule: rev_induct)
  case (snoc c t)
  have "digits_val (s @ t @ [c]) = 10 * digits_val (s @ t) + digit_val c"
    using digits_val_snoc [of "s @ t" c] by simp
  with snoc show ?case by (simp add: algebra_simps)
qed simp

lemma num_pad_right0:
  assumes "length (pad0 w n) \<le> 9" "n < 10 ^ w" "0 < w" "w \<le> 9"
  shows "num (pad_right0 9 (pad0 w n)) = Inr (int n * 10 ^ (9 - w))"
proof -
  have l: "length (pad0 w n) = w" using assms by (intro length_pad0)
  have z: "digits_val (replicate k (CHR ''0'')) = 0" for k using digits_val_zeros [of k "[]"] by simp
  have v: "digits_val (pad_right0 9 (pad0 w n)) = n * 10 ^ (9 - w)"
    by (simp add: pad_right0_def digits_val_append l z)
  have "is_ascii_digit (CHR ''0'')" by (simp add: is_ascii_digit_def)
  then have "all_digits (pad_right0 9 (pad0 w n))"
    using all_digits_pad0 [of w n] by (auto simp: pad_right0_def all_digits_def list_all_iff)
  moreover have "n * 10 ^ (9 - w) \<le> 10 ^ w * 10 ^ (9 - w)" using assms(2) by simp
  then have "n * 10 ^ (9 - w) \<le> 10 ^ 9" using assms(4) by (simp flip: power_add)
  then have "int (n * 10 ^ (9 - w)) \<le> int (10 ^ 9)" by (simp only: of_nat_le_iff)
  then have "int (n * 10 ^ (9 - w)) \<le> i64_max" by (rule order_trans) simp
  ultimately have "num (pad_right0 9 (pad0 w n)) = Inr (int (n * 10 ^ (9 - w)))"
    using num_digits [of "pad_right0 9 (pad0 w n)"] unfolding v by blast
  then show ?thesis by simp
qed

lemma pad_strip_right0: "length s = w \<Longrightarrow> pad_right0 w (strip_right0 s) = s"
proof -
  assume l: "length s = w"
  define z where "z = takeWhile (\<lambda>c. c = CHR ''0'') (rev s)"
  have "rev s = z @ dropWhile (\<lambda>c. c = CHR ''0'') (rev s)" by (simp add: z_def)
  then have s: "s = strip_right0 s @ rev z" unfolding strip_right0_def by (metis rev_append rev_rev_ident)
  have "\<forall>c \<in> set z. c = CHR ''0''" by (auto simp: z_def dest: set_takeWhileD)
  then have "rev z = replicate (length z) (CHR ''0'')" by (metis length_rev replicate_eqI set_rev)
  moreover have "length z = w - length (strip_right0 s)" using arg_cong [OF s, of length] l by simp
  ultimately show ?thesis using s by (simp add: pad_right0_def)
qed

lemma strip_right0_digits: "set (strip_right0 s) \<subseteq> set s"
  by (auto simp: strip_right0_def dest: set_dropWhileD)

lemma strip_right0_Nil: "strip_right0 s = [] \<longleftrightarrow> (\<forall>c \<in> set s. c = CHR ''0'')"
  by (simp add: strip_right0_def)

lemma strip_right0_length: "length (strip_right0 s) \<le> length s"
  unfolding strip_right0_def using length_dropWhile_le [of _ "rev s"] by simp

lemma pad9_zero: "strip_right0 (pad0 9 n) = [] \<Longrightarrow> n = 0"
proof -
  assume "strip_right0 (pad0 9 n) = []"
  then have "\<forall>c \<in> set (pad0 9 n). c = CHR ''0''" by (simp add: strip_right0_Nil)
  then have "pad0 9 n = replicate (length (pad0 9 n)) (CHR ''0'')" by (metis replicate_eqI)
  then have "digits_val (pad0 9 n) = 0" using digits_val_zeros [of "length (pad0 9 n)" "[]"] by simp
  then show "n = 0" by simp
qed

section \<open>Searching and splitting\<close>

lemma find_chars_append: "\<forall>x \<in> set xs. x \<notin> set cs \<Longrightarrow> c \<in> set cs \<Longrightarrow> find_chars cs (xs @ c # ys) = Some (length xs)"
  unfolding find_chars_def by (rule find_index_append)

lemma find_chars_none: "\<forall>x \<in> set xs. x \<notin> set cs \<Longrightarrow> find_chars cs xs = None"
  by (simp add: find_chars_def)

lemma split_once_append: "c \<notin> set xs \<Longrightarrow> split_once c (xs @ c # ys) = Some (xs, ys)"
proof -
  assume "c \<notin> set xs"
  then have "find_index (\<lambda>x. x = c) (xs @ c # ys) = Some (length xs)" by (intro find_index_append) auto
  then show ?thesis by (simp add: split_once_def)
qed

lemma split_once_none: "c \<notin> set xs \<Longrightarrow> split_once c xs = None"
  by (auto simp: split_once_def)

lemma split_on_none: "c \<notin> set xs \<Longrightarrow> split_on c xs = [xs]"
  by (induction xs) auto

lemma split_on_append: "c \<notin> set xs \<Longrightarrow> split_on c (xs @ c # ys) = xs # split_on c ys"
  by (induction xs) auto

lemma length_split_on: "length (split_on c xs) = Suc (length (filter (\<lambda>x. x = c) xs))"
  by (induction xs) (auto split: list.splits)

lemma char_boundary_ascii: "i < length s \<Longrightarrow> byte (s ! i) < 128 \<Longrightarrow> char_boundary s i"
  by (simp add: char_boundary_def)

lemma slice_append: "byte c < 128 \<Longrightarrow> slice_at (xs @ c # ys) (length xs) = Inr (xs, c # ys)"
  by (simp add: slice_at_def char_boundary_def)

text \<open>\<^verbatim>\<open>trim\<close> leaves a text that starts and ends with a printable ASCII character.\<close>

definition printable :: "char \<Rightarrow> bool" where
  "printable c \<longleftrightarrow> 32 < byte c \<and> byte c < 127"

lemma space_start: "w \<in> set utf8_spaces \<Longrightarrow> w \<noteq> [] \<and> \<not> printable (hd w) \<and> \<not> printable (last w)"
  by (simp add: utf8_spaces_def printable_def upt_rec) (elim disjE; simp)

lemma trim_printable:
  assumes "s \<noteq> []" "printable (hd s)" "printable (last s)"
  shows "trim s = s"
proof -
  have "\<not> starts_with w s" if "w \<in> set utf8_spaces" for w
    using space_start [OF that] assms(1,2) by (cases w; cases s) (auto simp: starts_with_def)
  then have "List.find (\<lambda>w. starts_with w s) utf8_spaces = None" by (simp add: find_None_iff)
  then have a: "trim_start_n n s = s" for n by (cases n) simp_all
  have "\<not> starts_with (rev w) (rev s)" if "w \<in> set utf8_spaces" for w
    using space_start [OF that] assms(1,3)
    by (cases "rev w"; cases "rev s") (auto simp: starts_with_def simp flip: hd_rev)
  then have "List.find (\<lambda>w. starts_with (rev w) (rev s)) utf8_spaces = None" by (simp add: find_None_iff)
  then have b: "trim_end_n n s = s" for n by (cases n) simp_all
  show ?thesis by (simp add: trim_def a b Let_def)
qed

lemma printable_digit: "is_ascii_digit c \<Longrightarrow> printable c"
  by (simp add: is_ascii_digit_def printable_def)

section \<open>Dates\<close>

definition year_ok :: "int \<Rightarrow> bool" where
  "year_ok days \<longleftrightarrow> \<bar>fst (civil_from_days days)\<bar> \<le> i64_max"

lemma length_pad4_year: "0 \<le> y \<Longrightarrow> y \<le> 9999 \<Longrightarrow> length (pad0 4 (nat y)) = 4"
  by (rule length_pad0) auto

lemma parse_date_rest_md:
  assumes "1 \<le> m" "m \<le> 12" "1 \<le> d" "d \<le> 31"
  shows "parse_date_rest bad y (''-'' @ pad0 2 (nat m) @ ''-'' @ pad0 2 (nat d)) = check_date y m d"
proof -
  have l: "length (pad0 2 (nat m)) = 2" "length (pad0 2 (nat d)) = 2" using assms by simp_all
  have "pad0 2 (nat m) \<noteq> []" using l by auto
  then obtain c r where c: "pad0 2 (nat m) = c # r" by (cases "pad0 2 (nat m)") auto
  have "is_ascii_digit c" using all_digits_pad0 [of 2 "nat m"] unfolding c by (simp add: all_digits_def)
  then have "c \<noteq> CHR ''W''" by auto
  then have "strip_prefix ''W'' (pad0 2 (nat m) @ CHR ''-'' # pad0 2 (nat d)) = None"
    by (simp add: strip_prefix_def starts_with_def c)
  moreover have "split_once (CHR ''-'') (pad0 2 (nat m) @ CHR ''-'' # pad0 2 (nat d)) = Some (pad0 2 (nat m), pad0 2 (nat d))"
    by (rule split_once_append) simp
  ultimately show ?thesis using assms by (simp add: parse_date_rest_def l starts_with_def)
qed

lemma digits_val_less: "list_all is_ascii_digit s \<Longrightarrow> digits_val s < 10 ^ length s"
  by (induction s rule: rev_induct) (auto simp: digit_val_def is_ascii_digit_def)

lemma length_show_nat_gt: "10 ^ k \<le> n \<Longrightarrow> k < length (show_nat n)"
proof (rule ccontr)
  assume n: "10 ^ k \<le> n" and "\<not> k < length (show_nat n)"
  then have "10 ^ length (show_nat n) \<le> (10 :: nat) ^ k" by (intro power_increasing) auto
  moreover have "n < 10 ^ length (show_nat n)"
    using digits_val_less [of "show_nat n"] all_digits_show_nat [of n] by (simp add: all_digits_def)
  ultimately show False using n by linarith
qed

lemma parse_date_signed:
  assumes "all_digits p" "4 \<le> length p" "num p = Inr v" "sg = CHR ''+'' \<or> sg = CHR ''-''"
  shows "parse_date (sg # p @ CHR ''-'' # rst) =
    parse_date_rest (rt (''invalid date '' @ quoted (sg # p @ CHR ''-'' # rst))) ((if sg = CHR ''-'' then - 1 else 1) * v) (CHR ''-'' # rst)"
proof -
  have "find_index (\<lambda>c. \<not> is_ascii_digit c) (p @ CHR ''-'' # rst) = Some (length p)"
    by (rule find_index_append) (use assms(1) in \<open>simp_all add: all_digits_def list_all_iff\<close>)
  moreover have sl: "slice_at (p @ CHR ''-'' # rst) (length p) = Inr (p, CHR ''-'' # rst)" by (rule slice_append) simp
  moreover have "\<not> length p < 4" using assms(2) by simp
  moreover have "starts_with ''+'' (sg # p @ CHR ''-'' # rst) \<longleftrightarrow> sg = CHR ''+''"
    "starts_with ''-'' (sg # p @ CHR ''-'' # rst) \<longleftrightarrow> sg = CHR ''-''" by (simp_all add: starts_with_def)
  ultimately show ?thesis using assms(4)
    by (elim disjE) (simp_all add: parse_date_def Let_def assms(3) del: append_Cons)
qed

lemma parse_date_plain:
  assumes "all_digits p" "length p = 4" "num p = Inr v"
  shows "parse_date (p @ CHR ''-'' # rst) = parse_date_rest (rt (''invalid date '' @ quoted (p @ CHR ''-'' # rst))) v (CHR ''-'' # rst)"
proof -
  obtain x xs where x: "p = x # xs" using assms(2) by (cases p) auto
  with assms(1) have "is_ascii_digit x" by (simp add: all_digits_def)
  then have "x \<noteq> CHR ''+''" "x \<noteq> CHR ''-''" by auto
  moreover have "slice_at (p @ CHR ''-'' # rst) (length p) = Inr (p, CHR ''-'' # rst)" by (rule slice_append) simp
  ultimately show ?thesis using assms by (auto simp: parse_date_def starts_with_def Let_def x)
qed

lemma parse_fmt_date: "year_ok days \<Longrightarrow> parse_date (fmt_date days) = Inr days"
proof -
  assume ok: "year_ok days"
  obtain y m d where c: "civil_from_days days = (y, m, d)" by (cases "civil_from_days days") auto
  have y: "\<bar>y\<bar> \<le> i64_max" using ok by (simp add: year_ok_def c)
  have v: "valid_date (y, m, d)" and days: "days_from_civil y m d = days" using civil_valid [of days] civil_days [of days] by (simp_all add: c)
  then have md: "1 \<le> m" "m \<le> 12" "1 \<le> d" "d \<le> 31" using days_in_month_bounds [of y m] by (auto simp: valid_date_def)
  define rst where "rst = pad0 2 (nat m) @ ''-'' @ pad0 2 (nat d)"
  have chk: "parse_date_rest bad y (CHR ''-'' # rst) = Inr days" for bad
    using parse_date_rest_md [OF md, of bad y] v days by (simp add: rst_def check_date_def valid_date_def)
  have f: "fmt_date days = fmt_year y @ CHR ''-'' # rst" by (simp add: fmt_date_def c rst_def)
  consider "y > 9999" | "y < 0" | "0 \<le> y" "y \<le> 9999" by linarith
  then show ?thesis
  proof cases
    case 1
    have "10 ^ 4 \<le> nat y" using 1 by (simp add: le_nat_iff)
    then have "4 \<le> length (show_nat (nat y))" using length_show_nat_gt [of 4 "nat y"] by simp
    moreover have "num (show_nat (nat y)) = Inr y" using 1 y by simp
    moreover have "fmt_year y = CHR ''+'' # show_nat (nat y)" using 1 by (simp add: fmt_year_def show_int_def)
    ultimately show ?thesis using parse_date_signed [of "show_nat (nat y)" y "CHR ''+''" rst] by (simp add: f chk)
  next
    case 2
    have "num (pad0 4 (nat (- y))) = Inr (- y)" using 2 y by simp
    moreover have "fmt_year y = CHR ''-'' # pad0 4 (nat (- y))" using 2 by (simp add: fmt_year_def)
    ultimately show ?thesis
      using parse_date_signed [of "pad0 4 (nat (- y))" "- y" "CHR ''-''" rst] length_pad0_ge [of 4 "nat (- y)"] by (simp add: f chk)
  next
    case 3
    have "num (pad0 4 (nat y)) = Inr y" using 3 by simp
    moreover have "fmt_year y = pad0 4 (nat y)" using 3 by (simp add: fmt_year_def)
    ultimately show ?thesis
      using parse_date_plain [of "pad0 4 (nat y)" y rst] length_pad4_year [OF 3] by (simp add: f chk)
  qed
qed

text \<open>The characters of a date.\<close>

definition date_chars :: "char set" where
  "date_chars = {c. is_ascii_digit c} \<union> {CHR ''-'', CHR ''+''}"

lemma fmt_date_chars: "c \<in> set (fmt_date days) \<Longrightarrow> c \<in> date_chars"
  by (auto simp: fmt_date_def fmt_year_def show_int_def date_chars_def dest: pad0_digits show_nat_digits split: prod.splits if_splits)

lemma fmt_date_ends:
  "fmt_date days \<noteq> []" "printable (hd (fmt_date days))" "printable (last (fmt_date days))"
proof -
  show ne: "fmt_date days \<noteq> []" by (auto simp: fmt_date_def split: prod.splits)
  have "printable c" if "c \<in> set (fmt_date days)" for c
    using fmt_date_chars [OF that] printable_digit by (auto simp: date_chars_def printable_def)
  with ne show "printable (hd (fmt_date days))" "printable (last (fmt_date days))" by simp_all
qed

section \<open>Times\<close>

lemma split_time_bounds:
  assumes "0 \<le> n" "n < DAY_NS"
  obtains h m s f where "split_time n = (h, m, s, f)" "0 \<le> h" "h \<le> 23" "0 \<le> m" "m \<le> 59" "0 \<le> s" "s \<le> 59" "0 \<le> f" "f < NS"
    "n = ((h * 60 + m) * 60 + s) * NS + f"
proof -
  define t where "t = n div NS"
  have t: "0 \<le> t" "t < 86400" using assms by (simp_all add: t_def DAY_NS_def NS_def div_less_iff_less_mult pos_imp_zdiv_nonneg_iff)
  have f: "0 \<le> n mod NS" "n mod NS < NS" by simp_all
  have m: "(t div 60) mod 60 = t div 60 - t div 3600 * 60"
    using minus_mult_div_eq_mod [of "t div 60" 60] by (simp add: zdiv_zmult2_eq mult.commute flip: zdiv_zmult2_eq [of 60 t 60, simplified])
  have s: "t mod 60 = t - t div 60 * 60" using minus_div_mult_eq_mod [of t 60] by simp
  have "split_time n = (t div 3600, (t div 60) mod 60, t mod 60, n mod NS)"
    using assms t by (simp add: split_time_def Let_def sdiv_nonneg smod_nonneg flip: t_def)
  moreover have "n = ((t div 3600 * 60 + (t div 60) mod 60) * 60 + t mod 60) * NS + n mod NS"
    unfolding m s by (simp add: t_def)
  moreover have "t div 3600 \<le> 23" "0 \<le> t div 3600" using t by auto
  moreover have "0 \<le> (t div 60) mod 60" "(t div 60) mod 60 \<le> 59" "0 \<le> t mod 60" "t mod 60 \<le> 59" by simp_all
  ultimately show thesis using that [of "t div 3600" "(t div 60) mod 60" "t mod 60" "n mod NS"] f by blast
qed


lemma dot_not_in: "c \<in> {CHR ''.'', CHR '',''} \<Longrightarrow> c \<notin> set (pad0 w n)"
  by auto

lemma time_parts_hm:
  "time_parts (pad0 2 h @ CHR '':'' # pad0 2 m) = Inr [pad0 2 h, pad0 2 m]"
  "time_parts (pad0 2 h @ CHR '':'' # pad0 2 m @ CHR '':'' # pad0 2 s) = Inr [pad0 2 h, pad0 2 m, pad0 2 s]"
  by (simp_all add: time_parts_def split_on_append split_on_none)

lemma get_nth_numerals [simp]: "get_nth (x # xs) 1 = get_nth xs 0" "get_nth (x # xs) 2 = get_nth xs 1"
  by (simp_all add: get_nth_def numeral_2_eq_2)

lemma parse_time_hm:
  assumes "h \<le> 23" "m \<le> 59"
  shows "parse_time (pad0 2 h @ CHR '':'' # pad0 2 m) = Inr ((int h * 60 + int m) * 60 * NS)"
proof -
  have "find_chars [CHR ''.'', CHR '',''] (pad0 2 h @ CHR '':'' # pad0 2 m) = None"
    by (rule find_chars_none) (use dot_not_in in \<open>auto\<close>)
  then show ?thesis using assms by (simp add: parse_time_def time_parts_hm opt_num_def Let_def)
qed

lemma parse_time_hms:
  assumes "h \<le> 23" "m \<le> 59" "s \<le> 59"
  shows "parse_time (pad0 2 h @ CHR '':'' # pad0 2 m @ CHR '':'' # pad0 2 s) = Inr (((int h * 60 + int m) * 60 + int s) * NS)"
proof -
  have "find_chars [CHR ''.'', CHR '',''] (pad0 2 h @ CHR '':'' # pad0 2 m @ CHR '':'' # pad0 2 s) = None"
    by (rule find_chars_none) (use dot_not_in in \<open>auto\<close>)
  then show ?thesis using assms by (simp add: parse_time_def time_parts_hm opt_num_def Let_def)
qed

lemma parse_time_frac:
  assumes "h \<le> 23" "m \<le> 59" "s \<le> 59" "all_digits f" "length f \<le> 9" "num (pad_right0 9 f) = Inr v"
  shows "parse_time (pad0 2 h @ CHR '':'' # pad0 2 m @ CHR '':'' # pad0 2 s @ CHR ''.'' # f) = Inr (((int h * 60 + int m) * 60 + int s) * NS + v)"
proof -
  let ?main = "pad0 2 h @ CHR '':'' # pad0 2 m @ CHR '':'' # pad0 2 s"
  have "find_chars [CHR ''.'', CHR '',''] (?main @ CHR ''.'' # f) = Some (length ?main)"
    by (rule find_chars_append) (use dot_not_in in \<open>auto\<close>)
  moreover have "take (length ?main) (?main @ CHR ''.'' # f) = ?main" "drop (Suc (length ?main)) (?main @ CHR ''.'' # f) = f"
    by (simp_all del: append_assoc append_Cons)
  ultimately have "parse_time (?main @ CHR ''.'' # f) = Inr (((int h * 60 + int m) * 60 + int s) * NS + v)"
    unfolding parse_time_def Let_def using assms by (simp add: time_parts_hm opt_num_def Let_def)
  then show ?thesis by simp
qed

text \<open>Both renderings of a time of the day.\<close>

lemma frac_texts:
  assumes "0 < f" "f < NS"
  shows "f smod 1000000 = 0 \<Longrightarrow> num (pad_right0 9 (pad0 3 (nat (f sdiv 1000000)))) = Inr f \<and> length (pad0 3 (nat (f sdiv 1000000))) = 3"
    "f smod 1000 = 0 \<Longrightarrow> num (pad_right0 9 (pad0 6 (nat (f sdiv 1000)))) = Inr f \<and> length (pad0 6 (nat (f sdiv 1000))) = 6"
    "num (pad_right0 9 (pad0 9 (nat f))) = Inr f \<and> length (pad0 9 (nat f)) = 9"
proof -
  have *: "num (pad_right0 9 (pad0 w (nat (f sdiv 10 ^ (9 - w))))) = Inr f \<and> length (pad0 w (nat (f sdiv 10 ^ (9 - w)))) = w"
    if z: "f mod 10 ^ (9 - w) = 0" and w: "0 < w" "w \<le> 9" for w
  proof -
    define k where "k = nat (f div 10 ^ (9 - w))"
    have fk: "f = int k * 10 ^ (9 - w)" using z assms(1) div_mult_mod_eq [of f "10 ^ (9 - w)"] by (simp add: k_def pos_imp_zdiv_nonneg_iff)
    have "int k * 10 ^ (9 - w) < 10 ^ w * 10 ^ (9 - w)" using assms(2) w by (simp add: NS_def fk flip: power_add)
    then have "int k < 10 ^ w" by simp
    then have k: "k < 10 ^ w" by (metis of_nat_less_iff of_nat_numeral of_nat_power)
    have l: "length (pad0 w k) = w" using w k by (intro length_pad0)
    have "nat (f sdiv 10 ^ (9 - w)) = k" using assms(1) by (simp add: sdiv_nonneg k_def)
    then show ?thesis using num_pad_right0 [of w k] l k w fk by simp
  qed
  show "f smod 1000000 = 0 \<Longrightarrow> num (pad_right0 9 (pad0 3 (nat (f sdiv 1000000)))) = Inr f \<and> length (pad0 3 (nat (f sdiv 1000000))) = 3"
    using * [of 3] by (simp add: smod_eq_0_iff)
  show "f smod 1000 = 0 \<Longrightarrow> num (pad_right0 9 (pad0 6 (nat (f sdiv 1000)))) = Inr f \<and> length (pad0 6 (nat (f sdiv 1000))) = 6"
    using * [of 6] by (simp add: smod_eq_0_iff)
  show "num (pad_right0 9 (pad0 9 (nat f))) = Inr f \<and> length (pad0 9 (nat f)) = 9"
    using * [of 9] assms(1) by (simp add: sdiv_nonneg)
qed

lemma parse_fmt_time:
  assumes "0 \<le> n" "n < DAY_NS"
  shows "parse_time (fmt_time n) = Inr n" "parse_time (xsd_time n) = Inr n"
proof -
  from split_time_bounds [OF assms] obtain h m s f where
    sp: "split_time n = (h, m, s, f)" and b: "0 \<le> h" "h \<le> 23" "0 \<le> m" "m \<le> 59" "0 \<le> s" "s \<le> 59" "0 \<le> f" "f < NS"
    and n: "n = ((h * 60 + m) * 60 + s) * NS + f" .
  have bn: "nat h \<le> 23" "nat m \<le> 59" "nat s \<le> 59" using b by simp_all
  have frac: "parse_time (pad0 2 (nat h) @ CHR '':'' # pad0 2 (nat m) @ CHR '':'' # pad0 2 (nat s) @ CHR ''.'' # t) = Inr n"
    if "all_digits t" "length t \<le> 9" "num (pad_right0 9 t) = Inr f" for t
    using parse_time_frac [OF bn that] b n by simp
  note hm = parse_time_hm [OF bn(1,2)] and hms = parse_time_hms [OF bn]
  show "parse_time (fmt_time n) = Inr n"
  proof (cases "f = 0")
    case True
    with n b hm hms show ?thesis unfolding fmt_time_def sp by simp
  next
    case False
    with b have f: "0 < f" "f < NS" by simp_all
    note ft = frac_texts [OF f]
    show ?thesis using False ft frac
      by (cases "f smod 1000000 = 0"; cases "f smod 1000 = 0") (simp_all add: fmt_time_def sp)
  qed
  show "parse_time (xsd_time n) = Inr n"
  proof (cases "f = 0")
    case True
    with n b hms show ?thesis unfolding xsd_time_def sp by simp
  next
    case False
    with b have f: "0 < f" "f < NS" by simp_all
    define t where "t = strip_right0 (pad0 9 (nat f))"
    have l: "length (pad0 9 (nat f)) = 9" and v: "num (pad_right0 9 (pad0 9 (nat f))) = Inr f" using frac_texts(3) [OF f] by simp_all
    then have "pad_right0 9 t = pad0 9 (nat f)" unfolding t_def by (intro pad_strip_right0)
    moreover have "all_digits t"
      using pad9_zero [of "nat f"] strip_right0_digits [of "pad0 9 (nat f)"] pad0_digits [of _ 9 "nat f"] f
      unfolding t_def all_digits_def list_all_iff by auto
    moreover have "length t \<le> 9" using strip_right0_length [of "pad0 9 (nat f)"] l by (simp add: t_def)
    moreover have "num (pad0 9 (nat f)) = Inr f" using f by (simp add: NS_def)
    ultimately show ?thesis using False frac [of t] by (simp add: xsd_time_def sp flip: t_def)
  qed
qed


text \<open>The characters of a time, and of an offset.\<close>

definition time_chars :: "char set" where
  "time_chars = {c. is_ascii_digit c} \<union> {CHR '':'', CHR ''.''}"

lemma time_chars_simps [simp]:
  "CHR ''['' \<notin> time_chars" "CHR ''Z'' \<notin> time_chars" "CHR ''z'' \<notin> time_chars" "CHR ''+'' \<notin> time_chars" "CHR ''-'' \<notin> time_chars"
  by (simp_all add: time_chars_def)

lemma fmt_time_chars: "c \<in> set (fmt_time n) \<Longrightarrow> c \<in> time_chars"
  by (auto simp: fmt_time_def time_chars_def dest: pad0_digits split: prod.splits if_splits)

lemma xsd_time_chars: "c \<in> set (xsd_time n) \<Longrightarrow> c \<in> time_chars"
  using strip_right0_digits
  by (fastforce simp: xsd_time_def time_chars_def dest: pad0_digits split: prod.splits if_splits)

definition offset_ok :: "int \<Rightarrow> bool" where
  "offset_ok o' \<longleftrightarrow> \<bar>o'\<bar> < 19 * 3600"

lemma fmt_offset_form:
  assumes "offset_ok o'" "o' \<noteq> 0"
  obtains h m s where "o' = (if o' < 0 then - 1 else 1) * (int h * 3600 + int m * 60 + int s)" "h \<le> 18" "m \<le> 59" "s \<le> 59"
    "fmt_offset o' = (if o' < 0 then CHR ''-'' else CHR ''+'') # pad0 2 h @ CHR '':'' # pad0 2 m @ (if s \<noteq> 0 then CHR '':'' # pad0 2 s else [])"
proof -
  define a where "a = \<bar>o'\<bar>"
  have a: "0 \<le> a" "a < 68400" using assms(1) by (simp_all add: a_def offset_ok_def)
  have d: "a div 60 div 60 = a div 3600" using zdiv_zmult2_eq [of 60 a 60] by simp
  have m: "(a div 60) mod 60 = a div 60 - a div 3600 * 60" using minus_div_mult_eq_mod [of "a div 60" 60] unfolding d by simp
  have s: "a mod 60 = a - a div 60 * 60" using minus_div_mult_eq_mod [of a 60] by simp
  define h' m' s' where "h' = nat (a div 3600)" and "m' = nat ((a div 60) mod 60)" and "s' = nat (a mod 60)"
  have i: "int h' = a div 3600" "int m' = (a div 60) mod 60" "int s' = a mod 60"
    using a by (simp_all add: h'_def m'_def s'_def pos_imp_zdiv_nonneg_iff)
  have "a = int h' * 3600 + int m' * 60 + int s'" unfolding i m s by simp
  then have eq: "o' = (if o' < 0 then - 1 else 1) * (int h' * 3600 + int m' * 60 + int s')" by (auto simp: a_def)
  have "a div 3600 \<le> 18" using a by auto
  then have b: "h' \<le> 18" "m' \<le> 59" "s' \<le> 59" by (simp_all add: h'_def m'_def s'_def)
  have "fmt_offset o' = (if o' < 0 then CHR ''-'' else CHR ''+'') # pad0 2 h' @ CHR '':'' # pad0 2 m' @ (if s' \<noteq> 0 then CHR '':'' # pad0 2 s' else [])"
    using assms(2) unfolding fmt_offset_def Let_def a_def [symmetric] h'_def [symmetric] m'_def [symmetric] s'_def [symmetric] by simp
  from that [OF eq b this] show thesis .
qed

lemma filter_pad0 [simp]: "filter (\<lambda>c. c \<noteq> CHR '':'') (pad0 w n) = pad0 w n"
  by (rule filter_True) (use pad0_no_char [of "CHR '':''"] in auto)

lemma digits_pad0 [simp]: "list_all is_ascii_digit (pad0 w n)"
  using all_digits_pad0 [of w n] by (simp add: all_digits_def)

lemma parse_fmt_offset: "offset_ok o' \<Longrightarrow> parse_offset (fmt_offset o') = Inr o'"
proof (cases "o' = 0")
  case False
  assume "offset_ok o'"
  from fmt_offset_form [OF this False] obtain h m s where
    o': "o' = (if o' < 0 then - 1 else 1) * (int h * 3600 + int m * 60 + int s)" and b: "h \<le> 18" "m \<le> 59" "s \<le> 59"
    and f: "fmt_offset o' = (if o' < 0 then CHR ''-'' else CHR ''+'') # pad0 2 h @ CHR '':'' # pad0 2 m @ (if s \<noteq> 0 then CHR '':'' # pad0 2 s else [])" .
  have l: "length (pad0 2 h) = 2" "length (pad0 2 m) = 2" "length (pad0 2 s) = 2" using b by simp_all
  show ?thesis
  proof (cases "s = 0")
    case True
    then show ?thesis using b l o' unfolding f by (cases "o' < 0") (simp_all add: parse_offset_def Let_def)
  next
    case False
    then show ?thesis using b l o' unfolding f by (cases "o' < 0") (simp_all add: parse_offset_def Let_def)
  qed
qed (simp add: fmt_offset_def parse_offset_def)

lemma fmt_offset_cases:
  obtains c r where "fmt_offset o' = c # r" "c \<in> {CHR ''Z'', CHR ''+'', CHR ''-''}" "CHR ''['' \<notin> set (c # r)" "c # r \<noteq> ''z''"
    "printable (last (c # r))"
proof (cases "o' = 0")
  case True
  then show thesis using that [of "CHR ''Z''" "[]"] by (simp add: fmt_offset_def printable_def)
next
  case False
  define a where "a = \<bar>o'\<bar>"
  define r where "r = pad0 2 (nat (a div 3600)) @ CHR '':'' # pad0 2 (nat ((a div 60) mod 60))
      @ (if nat (a mod 60) \<noteq> 0 then CHR '':'' # pad0 2 (nat (a mod 60)) else [])"
  have f: "fmt_offset o' = (if o' < 0 then CHR ''-'' else CHR ''+'') # r"
    using False by (simp add: fmt_offset_def Let_def r_def flip: a_def)
  have "r \<noteq> []" by (simp add: r_def)
  have ch: "is_ascii_digit c \<or> c = CHR '':''" if "c \<in> set r" for c
    using that by (auto simp: r_def dest: pad0_digits split: if_splits)
  have "last r \<in> set r" using \<open>r \<noteq> []\<close> by simp
  from ch [OF this] have "printable (last r)" using printable_digit by (auto simp: printable_def)
  moreover have "CHR ''['' \<notin> set r" using ch by fastforce
  ultimately show thesis using that [of "if o' < 0 then CHR ''-'' else CHR ''+''" r] f \<open>r \<noteq> []\<close> by simp
qed

text \<open>A time text with an offset, a zone name, both or none.\<close>

lemma time_zone_offset:
  assumes t: "\<And>c. c \<in> set t \<Longrightarrow> c \<in> time_chars" and p: "parse_time t = Inr n" and ok: "offset_ok o'"
  shows "parse_time_zone tz (t @ fmt_offset o') = Inr (n, Some (ZOffset o'))"
proof -
  have nt: "x \<notin> set t" if "x \<notin> time_chars" for x using t that by blast
  obtain c r where f: "fmt_offset o' = c # r" "c \<in> {CHR ''Z'', CHR ''+'', CHR ''-''}" "CHR ''['' \<notin> set (c # r)" "c # r \<noteq> ''z''"
    using fmt_offset_cases by metis
  have "find_chars [CHR ''[''] (t @ c # r) = None"
    by (rule find_chars_none) (use f(3) nt in auto)
  moreover have "find_chars [CHR ''Z'', CHR ''z'', CHR ''+'', CHR ''-''] (t @ c # r) = Some (length t)"
    by (rule find_chars_append) (use f(2) nt in auto)
  moreover have "parse_offset (c # r) = Inr o'" using parse_fmt_offset [OF ok] f(1) by simp
  moreover have "c \<noteq> CHR ''z''" using f(2) by auto
  ultimately show ?thesis using p f(1) by (simp add: parse_time_zone_def Let_def)
qed

lemma time_zone_none:
  assumes t: "\<And>c. c \<in> set t \<Longrightarrow> c \<in> time_chars" and p: "parse_time t = Inr n"
  shows "parse_time_zone tz t = Inr (n, None)"
proof -
  have nt: "x \<notin> set t" if "x \<notin> time_chars" for x using t that by blast
  have "find_chars [CHR ''[''] t = None"
    by (rule find_chars_none) (use nt in auto)
  moreover have "find_chars [CHR ''Z'', CHR ''z'', CHR ''+'', CHR ''-''] t = None"
    by (rule find_chars_none) (use nt in auto)
  ultimately show ?thesis using p by (simp add: parse_time_zone_def Let_def)
qed

lemma time_zone_named:
  assumes t: "\<And>c. c \<in> set t \<Longrightarrow> c \<in> time_chars" and p: "parse_time t = Inr n" and k: "tz_known tz name"
  shows "parse_time_zone tz (t @ fmt_offset o' @ CHR ''['' # name @ '']'') = Inr (n, Some (ZNamed name))"
proof -
  have nt: "x \<notin> set t" if "x \<notin> time_chars" for x using t that by blast
  obtain c r where f: "fmt_offset o' = c # r" "c \<in> {CHR ''Z'', CHR ''+'', CHR ''-''}" "CHR ''['' \<notin> set (c # r)"
    using fmt_offset_cases by metis
  have "find_chars [CHR ''[''] ((t @ c # r) @ CHR ''['' # name @ '']'') = Some (length (t @ c # r))"
    by (rule find_chars_append) (use f(3) nt in auto)
  moreover have "last ((t @ c # r) @ CHR ''['' # name @ '']'') = CHR '']''" by simp
  moreover have "find_chars [CHR ''Z'', CHR ''z'', CHR ''+'', CHR ''-''] (t @ c # r) = Some (length t)"
    by (rule find_chars_append) (use f(2) nt in auto)
  ultimately show ?thesis using p k f(1) by (simp add: parse_time_zone_def Let_def find_tz_def)
qed

lemma parse_datetime_text:
  assumes "year_ok d" "parse_time_zone tz t = Inr (n, z)"
  shows "parse_datetime tz (fmt_date d @ CHR ''T'' # t) = Inr (d, n, z)"
proof -
  have "find_chars [CHR ''T'', CHR ''t''] (fmt_date d @ CHR ''T'' # t) = Some (length (fmt_date d))"
    by (rule find_chars_append) (use fmt_date_chars in \<open>fastforce simp: date_chars_def\<close>)+
  then show ?thesis using assms parse_fmt_date [of d] by (simp add: parse_datetime_def)
qed


section \<open>Values\<close>

text \<open>What the operations produce: times of the day, offsets below 19 hours, a zone's own offset.\<close>

definition zone_ok :: "tz_ext \<Rightarrow> int \<Rightarrow> int \<Rightarrow> zone \<Rightarrow> int \<Rightarrow> bool" where
  "zone_ok tz d n z o' \<longleftrightarrow>
     (case z of ZOffset x \<Rightarrow> x = o' \<and> offset_ok o' | ZNamed name \<Rightarrow> tz_known tz name \<and> (\<exists>x. offset_at_local tz name d n = Inr x))"

fun temporal_ok :: "tz_ext \<Rightarrow> temporal \<Rightarrow> bool" where
  "temporal_ok tz (TDate d) \<longleftrightarrow> year_ok d"
| "temporal_ok tz (TLocalTime n) \<longleftrightarrow> 0 \<le> n \<and> n < DAY_NS"
| "temporal_ok tz (TTime n o') \<longleftrightarrow> 0 \<le> n \<and> n < DAY_NS \<and> offset_ok o'"
| "temporal_ok tz (TLocalDateTime d n) \<longleftrightarrow> year_ok d \<and> 0 \<le> n \<and> n < DAY_NS"
| "temporal_ok tz (TDateTime d n z o') \<longleftrightarrow> year_ok d \<and> 0 \<le> n \<and> n < DAY_NS \<and> zone_ok tz d n z o'"
| "temporal_ok tz (TDuration d) \<longleftrightarrow> False"

text \<open>The value a text stands for: a named zone gets the offset the database gives at the local time.\<close>

fun reread :: "tz_ext \<Rightarrow> temporal \<Rightarrow> temporal" where
  "reread tz (TDateTime d n (ZNamed name) o') =
     TDateTime d n (ZNamed name) (case offset_at_local tz name d n of Inr x \<Rightarrow> x | Inl _ \<Rightarrow> o')"
| "reread tz t = t"

lemma fmt_time_ends: "fmt_time n \<noteq> []" "printable (hd (fmt_time n))" "printable (last (fmt_time n))"
  and xsd_time_ends: "xsd_time n \<noteq> []" "printable (hd (xsd_time n))" "printable (last (xsd_time n))"
proof -
  have p: "printable c" if "c \<in> time_chars" for c using that printable_digit by (auto simp: time_chars_def printable_def)
  show ne: "fmt_time n \<noteq> []" "xsd_time n \<noteq> []" by (auto simp: fmt_time_def xsd_time_def split: prod.splits)
  show "printable (hd (fmt_time n))" "printable (last (fmt_time n))" using ne(1) by (auto intro!: p fmt_time_chars [of _ n])
  show "printable (hd (xsd_time n))" "printable (last (xsd_time n))" using ne(2) by (auto intro!: p xsd_time_chars [of _ n])
qed

lemma trim_parts:
  assumes "s \<noteq> []" "printable (hd s)" "u \<noteq> []" "printable (last u)"
  shows "trim (s @ t @ u) = s @ t @ u"
  using assms by (intro trim_printable) auto

lemma fmt_offset_last: "fmt_offset o' \<noteq> []" "printable (last (fmt_offset o'))"
  using fmt_offset_cases [of o'] by (metis list.distinct(1))+

end
