(* ===== verification/Cypher_Duration.thy ===== *)
theory Cypher_Duration
  imports Float_Ints Cypher_Text
begin

text \<open>
  The round trip of durations. A duration is stored as its text; \<^verbatim>\<open>parse\<close> first guesses whether the text is the
  alternative date-and-time form, and takes a text with a minus sign and none of the letters \<^verbatim>\<open>Y\<close>, \<^verbatim>\<open>W\<close>, \<^verbatim>\<open>D\<close>,
  \<^verbatim>\<open>H\<close>, \<^verbatim>\<open>S\<close> for one. Negative months or minutes alone are written that way.
\<close>

definition dur_ok :: "dur \<Rightarrow> bool" where
  "dur_ok d \<longleftrightarrow> i64_range (d_months d) \<and> i64_range (d_days d) \<and> i64_range (d_seconds d) \<and> 0 \<le> d_nanos d \<and> d_nanos d < NS"

text \<open>The durations whose text is misread: less than a year, no days, a whole number of minutes under an hour, and negative.\<close>

definition dur_misread :: "dur \<Rightarrow> bool" where
  "dur_misread d \<longleftrightarrow>
     \<bar>d_months d\<bar> < 12 \<and> d_days d = 0 \<and> \<bar>total_nanos d\<bar> < 3600 * NS \<and> \<bar>total_nanos d\<bar> mod (60 * NS) = 0 \<and>
     (d_months d < 0 \<or> total_nanos d < 0)"

section \<open>Reading one component\<close>

definition ds_inv :: "nat \<Rightarrow> dur_sums \<Rightarrow> int \<times> int \<times> int \<Rightarrow> bool" where
  "ds_inv B ds e \<longleftrightarrow> ds_exact ds = Some e \<and> (\<exists>i. whole (ds_months ds) i \<and> \<bar>i\<bar> \<le> 2 ^ B) \<and> (\<exists>j. whole (ds_days ds) j \<and> \<bar>j\<bar> \<le> 2 ^ B)"

lemma sums_zero_inv: "ds_inv 70 sums_zero (0, 0, 0)"
  by (auto simp: ds_inv_def sums_zero_def f64_zero_def intro!: exI [of _ 0])

lemma f64_of_int_whole: "\<bar>k\<bar> \<le> 2 ^ 200 \<Longrightarrow> \<exists>i. whole (f64_of_int k) i \<and> \<bar>i\<bar> \<le> 2 * \<bar>k\<bar>"
  unfolding f64_of_int_def using ratio_whole [of k "k < 0"] by metis

lemma sum_whole:
  assumes "whole x i" "\<bar>i\<bar> \<le> 2 ^ B" "whole y j" "\<bar>j\<bar> \<le> 2 ^ B" "B \<le> 150"
  shows "\<exists>k. whole (f64_plus x y) k \<and> \<bar>k\<bar> \<le> 2 ^ (B + 2)"
proof -
  have b: "\<bar>i + j\<bar> \<le> 2 * 2 ^ B" using assms by linarith
  have "(2 :: int) ^ B \<le> 2 ^ 150" using assms(5) by (rule power_increasing) simp
  with b have "\<bar>i + j\<bar> \<le> 2 ^ 200" by simp
  from plus_whole [OF assms(1,3) this] obtain k where "whole (f64_plus x y) k" "\<bar>k\<bar> \<le> 2 * \<bar>i + j\<bar>" .
  moreover from this b have "\<bar>k\<bar> \<le> 2 ^ (B + 2)" by (simp add: power_add)
  ultimately show ?thesis by blast
qed

lemma i64_range_abs: "i64_range k \<Longrightarrow> \<bar>k\<bar> \<le> 2 ^ 63"
  by (auto simp: i64_range_def)

lemma show_int_no_dot: "CHR ''.'' \<notin> set (show_int k)"
  using show_int_chars [of "CHR ''.''" k] by auto

lemma parse_show_i64: "i64_range k \<Longrightarrow> parse_i64 (show_int k) = Some k"
  by (simp add: i64_range_def)

lemma read_whole:
  assumes "i64_range k"
  obtains v i where "f64_from_str (show_int k) = Some v" "whole v i" "\<bar>i\<bar> \<le> 2 ^ 64"
proof -
  have "\<bar>k\<bar> \<le> 2 ^ 200" using i64_range_abs [OF assms] by (rule order_trans) simp
  from f64_from_show_int [OF this] obtain v i where "f64_from_str (show_int k) = Some v" "whole v i" "\<bar>i\<bar> \<le> 2 * \<bar>k\<bar>" .
  moreover from this i64_range_abs [OF assms] have "\<bar>i\<bar> \<le> 2 ^ 64" by simp
  ultimately show thesis using that by blast
qed

lemma date_units:
  assumes "ds_inv B ds (m, d, n)" "70 \<le> B" "B \<le> 150" "i64_range k"
  shows "\<exists>ds'. dur_unit True (CHR ''Y'') (show_int k) ds = Some ds' \<and> ds_inv (B + 2) ds' (m + k * 12, d, n)"
    "\<exists>ds'. dur_unit True (CHR ''M'') (show_int k) ds = Some ds' \<and> ds_inv (B + 2) ds' (m + k, d, n)"
    "\<exists>ds'. dur_unit True (CHR ''D'') (show_int k) ds = Some ds' \<and> ds_inv (B + 2) ds' (m, d + k, n)"
proof -
  from read_whole [OF assms(4)] obtain v i where v: "f64_from_str (show_int k) = Some v" "whole v i" "\<bar>i\<bar> \<le> 2 ^ 64" .
  from assms(1) obtain im jd where ex: "ds_exact ds = Some (m, d, n)" and im: "whole (ds_months ds) im" "\<bar>im\<bar> \<le> 2 ^ B"
    and jd: "whole (ds_days ds) jd" "\<bar>jd\<bar> \<le> 2 ^ B" by (auto simp: ds_inv_def)
  have pB: "(2 :: int) ^ 70 \<le> 2 ^ B" "(2 :: int) ^ B \<le> 2 ^ (B + 2)" using assms(2) by (intro power_increasing; simp)+
  have vB: "\<bar>i\<bar> \<le> 2 ^ B" using v(3) pB by simp
  obtain t where t: "whole (f64_of_int 12) t" "\<bar>t\<bar> \<le> 24" using f64_of_int_whole [of 12] by auto
  have "\<bar>i * t\<bar> \<le> 2 ^ 64 * 24" unfolding abs_mult by (intro mult_mono) (use v(3) t(2) in auto)
  then have it: "\<bar>i * t\<bar> \<le> 2 ^ 69" by simp
  then have "\<bar>i * t\<bar> \<le> 2 ^ 200" by (rule order_trans) simp
  from times_whole [OF v(2) t(1) this] obtain w where w: "whole (f64_times v (f64_of_int 12)) w" "\<bar>w\<bar> \<le> 2 * \<bar>i * t\<bar>" .
  with it pB have wB: "\<bar>w\<bar> \<le> 2 ^ B" by simp
  note sm = sum_whole [OF im w(1) wB assms(3)] sum_whole [OF im v(2) vB assms(3)] sum_whole [OF jd v(2) vB assms(3)]
  have keep: "\<bar>im\<bar> \<le> 2 ^ (B + 2)" "\<bar>jd\<bar> \<le> 2 ^ (B + 2)" using im jd pB by simp_all
  show "\<exists>ds'. dur_unit True (CHR ''Y'') (show_int k) ds = Some ds' \<and> ds_inv (B + 2) ds' (m + k * 12, d, n)"
    using sm(1) jd(1) keep ex
    by (auto simp: dur_unit_def v(1) Let_def show_int_no_dot parse_show_i64 [OF assms(4)] ds_inv_def add_exact_def simp del: power_add)
  show "\<exists>ds'. dur_unit True (CHR ''M'') (show_int k) ds = Some ds' \<and> ds_inv (B + 2) ds' (m + k, d, n)"
    using sm(2) jd(1) keep ex
    by (auto simp: dur_unit_def v(1) Let_def show_int_no_dot parse_show_i64 [OF assms(4)] ds_inv_def add_exact_def simp del: power_add)
  show "\<exists>ds'. dur_unit True (CHR ''D'') (show_int k) ds = Some ds' \<and> ds_inv (B + 2) ds' (m, d + k, n)"
    using sm(3) im(1) keep ex
    by (auto simp: dur_unit_def v(1) Let_def show_int_no_dot parse_show_i64 [OF assms(4)] ds_inv_def add_exact_def simp del: power_add)
qed

lemma time_units:
  assumes "ds_inv B ds (m, d, n)" "i64_range k"
  shows "\<exists>ds'. dur_unit False (CHR ''H'') (show_int k) ds = Some ds' \<and> ds_inv B ds' (m, d, n + k * (3600 * NS))"
    "\<exists>ds'. dur_unit False (CHR ''M'') (show_int k) ds = Some ds' \<and> ds_inv B ds' (m, d, n + k * (60 * NS))"
proof -
  from read_whole [OF assms(2)] obtain v i where v: "f64_from_str (show_int k) = Some v" .
  show "\<exists>ds'. dur_unit False (CHR ''H'') (show_int k) ds = Some ds' \<and> ds_inv B ds' (m, d, n + k * (3600 * NS))"
    "\<exists>ds'. dur_unit False (CHR ''M'') (show_int k) ds = Some ds' \<and> ds_inv B ds' (m, d, n + k * (60 * NS))"
    using assms(1)
    by (auto simp: dur_unit_def v(1) Let_def show_int_no_dot parse_show_i64 [OF assms(2)] ds_inv_def add_exact_def)
qed

text \<open>Seconds, with a fraction.\<close>

lemma f64_from_digit:
  assumes "is_ascii_digit c" "s = [] \<or> s = ''-''"
  shows "f64_from_str (s @ c # r) = parse_decimal (s \<noteq> []) (c # r)"
proof -
  have nc: "c \<noteq> CHR ''-''" "c \<noteq> CHR ''+''" using assms(1) by (auto simp: is_ascii_digit_def)
  have "to_ascii_lowercase c = c" using assms(1) by (simp add: to_ascii_lowercase_def is_ascii_upper_def is_ascii_digit_def)
  then have "\<not> eq_ignore_ascii_case (c # r) ''inf''" "\<not> eq_ignore_ascii_case (c # r) ''infinity''" "\<not> eq_ignore_ascii_case (c # r) ''nan''"
    using assms(1) by (auto simp: eq_ignore_ascii_case_def is_ascii_digit_def to_ascii_lowercase_def is_ascii_upper_def)
  then show ?thesis using assms(2) nc by (auto simp: f64_from_str_def)
qed

lemma f64_from_decimal:
  assumes "list_all is_ascii_digit t" "t \<noteq> []" "list_all is_ascii_digit f" "s = [] \<or> s = ''-''"
  shows "f64_from_str (s @ t @ CHR ''.'' # f) \<noteq> None"
proof -
  have tk: "takeWhile is_ascii_digit (t @ CHR ''.'' # f) = t" "dropWhile is_ascii_digit (t @ CHR ''.'' # f) = CHR ''.'' # f"
    using assms(1) by (simp_all add: list_all_iff takeWhile_append dropWhile_append)
  have fk: "takeWhile is_ascii_digit f = f" "dropWhile is_ascii_digit f = []" using assms(3) by (simp_all add: list_all_iff)
  have "parse_decimal b (t @ CHR ''.'' # f) \<noteq> None" for b
    unfolding parse_decimal_def Let_def tk using assms(2) by (simp add: fk)
  moreover obtain c r where "t = c # r" using assms(2) by (cases t) auto
  moreover from this assms(1) have "is_ascii_digit c" by simp
  ultimately show ?thesis using f64_from_digit [OF _ assms(4), of c "r @ CHR ''.'' # f"] by simp
qed

lemma parse_int_in_all_digits:
  assumes "all_digits s" "int (digits_val s) \<le> 2 ^ 127 - 1"
  shows "parse_int_in (- (2 ^ 127)) (2 ^ 127 - 1) s = Some (int (digits_val s))"
  using assms by (intro parse_int_in_digits) (auto simp: all_digits_def intro: order_trans [of _ 0])

lemma decimal_nanos_text:
  assumes "0 \<le> sec" "sec < 60" "0 \<le> frac" "frac < NS" "f = strip_right0 (pad0 9 (nat frac))" "sg = [] \<or> sg = ''-''"
  shows "decimal_nanos (sg @ show_int sec @ (if f = [] then [] else CHR ''.'' # f)) = Some ((if sg = ''-'' then - 1 else 1) * (sec * NS + frac))"
proof -
  have l9: "length (pad0 9 (nat frac)) = 9" by (rule length_pad0) (use assms in \<open>simp_all add: NS_def\<close>)
  have pr: "pad_right0 9 f = pad0 9 (nat frac)" unfolding assms(5) by (rule pad_strip_right0 [OF l9])
  have lf: "length f \<le> 9" using strip_right0_length [of "pad0 9 (nat frac)"] l9 assms(5) by simp
  have fd: "list_all is_ascii_digit f"
    using strip_right0_digits [of "pad0 9 (nat frac)"] pad0_digits [of _ 9 "nat frac"] unfolding assms(5) list_all_iff by auto
  have sd: "show_int sec = show_nat (nat sec)" using assms(1) by (simp add: show_int_def)
  have i: "parse_int_in (- (2 ^ 127)) (2 ^ 127 - 1) (show_nat (nat sec)) = Some sec"
    using parse_int_in_all_digits [of "show_nat (nat sec)"] assms(1,2) by simp
  have fv: "parse_int_in (- (2 ^ 127)) (2 ^ 127 - 1) (pad_right0 9 f) = Some frac"
    unfolding pr using parse_int_in_all_digits [of "pad0 9 (nat frac)"] assms(3,4) by (simp add: NS_def)
  define t where "t = show_nat (nat sec) @ (if f = [] then [] else CHR ''.'' # f)"
  obtain c r where c: "show_nat (nat sec) = c # r" by (cases "show_nat (nat sec)") auto
  then have "is_ascii_digit c" using show_nat_hd by blast
  then have "c \<noteq> CHR ''-''" "c \<noteq> CHR ''+''" by auto
  then have np: "strip_prefix ''-'' t = None" "strip_prefix ''+'' t = None" "strip_prefix ''-'' (CHR ''-'' # t) = Some t"
    by (simp_all add: strip_prefix_def starts_with_def t_def c)
  have sp: "(case split_once (CHR ''.'') t of Some p \<Rightarrow> p | None \<Rightarrow> (t, [])) = (show_nat (nat sec), f)"
  proof (cases "f = []")
    case True
    then show ?thesis by (simp add: t_def split_once_none)
  next
    case False
    then show ?thesis by (simp add: t_def split_once_append)
  qed
  from assms(6) show ?thesis
  proof
    assume "sg = []"
    then show ?thesis using np sp i fv lf unfolding sd t_def [symmetric] by (simp add: decimal_nanos_def)
  next
    assume "sg = ''-''"
    then show ?thesis using np sp i fv lf unfolding sd t_def [symmetric] by (simp add: decimal_nanos_def)
  qed
qed

lemma second_unit:
  assumes "ds_inv B ds (m, d, n)" "0 \<le> sec" "sec < 60" "0 \<le> frac" "frac < NS" "f = strip_right0 (pad0 9 (nat frac))" "sg = [] \<or> sg = ''-''"
  shows "\<exists>ds'. dur_unit False (CHR ''S'') (sg @ show_int sec @ (if f = [] then [] else CHR ''.'' # f)) ds = Some ds'
    \<and> ds_inv B ds' (m, d, n + (if sg = ''-'' then - 1 else 1) * (sec * NS + frac))"
proof -
  have fd: "list_all is_ascii_digit f"
    using strip_right0_digits [of "pad0 9 (nat frac)"] pad0_digits [of _ 9 "nat frac"] unfolding assms(6) list_all_iff by auto
  have sd: "list_all is_ascii_digit (show_int sec)" "show_int sec \<noteq> []"
    using assms(2) by (auto simp: show_int_def list_all_iff dest: show_nat_digits)
  have "f64_from_str (sg @ show_int sec @ (if f = [] then [] else CHR ''.'' # f)) \<noteq> None"
    using f64_from_decimal [OF sd fd assms(7)] f64_from_digits [OF sd assms(7)] by auto
  then obtain v where v: "f64_from_str (sg @ show_int sec @ (if f = [] then [] else CHR ''.'' # f)) = Some v" by blast
  show ?thesis using assms(1)
    by (auto simp: dur_unit_def v Let_def decimal_nanos_text [OF assms(2-7)] ds_inv_def add_exact_def simp del: append_assoc)
qed

section \<open>Reading the pieces of a text\<close>

abbreviation number_text :: "string \<Rightarrow> bool" where
  "number_text cur \<equiv> cur \<noteq> [] \<and> list_all (\<lambda>c. number_char c \<and> c \<noteq> CHR '','') cur"

lemma take_number: "list_all (\<lambda>c. number_char c \<and> c \<noteq> CHR '','') cur \<Longrightarrow> dur_take date acc (cur @ rest) ds = dur_take date (acc @ cur) rest ds"
  by (induction cur arbitrary: acc) auto

lemma take_opt:
  assumes "ds_inv B ds e" "B \<le> B'" "\<not> c \<Longrightarrow> e' = e" "c \<Longrightarrow> number_text cur" "\<not> number_char u" "to_ascii_uppercase u = u"
    and "c \<Longrightarrow> \<exists>ds'. dur_unit date u cur ds = Some ds' \<and> ds_inv B' ds' e'"
  shows "\<exists>ds'. (\<forall>rest. dur_take date [] ((if c then cur @ [u] else []) @ rest) ds = dur_take date [] rest ds') \<and> ds_inv B' ds' e'"
proof (cases c)
  case True
  then have "dur_take date [] (cur @ u # rest) ds = dur_take date cur (u # rest) ds" for rest
    using take_number [of cur date "[]" "u # rest" ds] assms(4) by simp
  with True assms(4-7) show ?thesis by force
next
  case False
  have "(2 :: int) ^ B \<le> 2 ^ B'" using assms(2) by (rule power_increasing) simp
  then have "ds_inv B' ds e" using assms(1) unfolding ds_inv_def by (meson order_trans)
  with False assms(3) have "ds_inv B' ds e'" by simp
  with False show ?thesis by auto
qed

lemma number_show_int [simp]: "number_text (show_int k)"
  using show_int_chars [of _ k] show_int_chars [of "CHR '',''" k] by (auto simp: list_all_iff number_char_def is_ascii_digit_def)

lemma not_number_units [simp]: "\<not> number_char (CHR ''Y'')" "\<not> number_char (CHR ''M'')" "\<not> number_char (CHR ''D'')"
  "\<not> number_char (CHR ''H'')" "\<not> number_char (CHR ''S'')"
  by (simp_all add: number_char_def is_ascii_digit_def)

lemma upper_units [simp]: "to_ascii_uppercase (CHR ''Y'') = CHR ''Y''" "to_ascii_uppercase (CHR ''M'') = CHR ''M''"
  "to_ascii_uppercase (CHR ''D'') = CHR ''D''" "to_ascii_uppercase (CHR ''H'') = CHR ''H''" "to_ascii_uppercase (CHR ''S'') = CHR ''S''"
  by (simp_all add: to_ascii_uppercase_def is_ascii_lower_def)

definition date_text :: "dur \<Rightarrow> string" where
  "date_text d = (if d_months d sdiv 12 \<noteq> 0 then show_int (d_months d sdiv 12) @ ''Y'' else [])
     @ (if d_months d smod 12 \<noteq> 0 then show_int (d_months d smod 12) @ ''M'' else [])
     @ (if d_days d \<noteq> 0 then show_int (d_days d) @ ''D'' else [])"

lemma sdiv_bounds:
  assumes "i64_range m"
  shows "i64_range (m sdiv 12) \<and> i64_range (m smod 12) \<and> m sdiv 12 * 12 + m smod 12 = m"
proof (cases "0 \<le> m")
  case True
  then show ?thesis using assms by (auto simp: i64_range_def signed_divide_int_def signed_modulo_int_def sgn_if)
next
  case False
  define k where "k = - m"
  define q where "q = k div 12"
  define r where "r = k mod 12"
  have qr: "q * 12 + r = k" by (simp add: q_def r_def)
  have "m = - k" "0 < k" "0 \<le> q" "q \<le> k" "0 \<le> r" "r \<le> k" using False by (auto simp: k_def q_def r_def zmod_le_nonneg_dividend)
  moreover from this have "m sdiv 12 = - q" "m smod 12 = - r"
    by (simp_all add: signed_divide_int_def signed_modulo_int_def sgn_if q_def r_def)
  ultimately show ?thesis using assms qr by (auto simp: i64_range_def)
qed

lemma take_date_text:
  assumes "dur_ok d"
  shows "\<exists>ds'. dur_take True [] (date_text d) sums_zero = Some ds' \<and> ds_inv 76 ds' (d_months d, d_days d, 0)"
proof -
  have r: "i64_range (d_months d sdiv 12)" "i64_range (d_months d smod 12)" "i64_range (d_days d)"
    and eq: "d_months d sdiv 12 * 12 + d_months d smod 12 = d_months d"
    using assms sdiv_bounds [of "d_months d"] by (auto simp: dur_ok_def)
  obtain d1 where d1: "\<And>rest. dur_take True [] ((if d_months d sdiv 12 \<noteq> 0 then show_int (d_months d sdiv 12) @ ''Y'' else []) @ rest) sums_zero = dur_take True [] rest d1"
    and i1: "ds_inv 72 d1 (d_months d sdiv 12 * 12, 0, 0)"
    using take_opt [OF sums_zero_inv, of 72 "d_months d sdiv 12 \<noteq> 0" "(d_months d sdiv 12 * 12, 0, 0)" "show_int (d_months d sdiv 12)" "CHR ''Y''" True]
      date_units(1) [OF sums_zero_inv _ _ r(1)] by auto
  obtain d2 where d2: "\<And>rest. dur_take True [] ((if d_months d smod 12 \<noteq> 0 then show_int (d_months d smod 12) @ ''M'' else []) @ rest) d1 = dur_take True [] rest d2"
    and i2: "ds_inv 74 d2 (d_months d, 0, 0)"
    using take_opt [OF i1, of 74 "d_months d smod 12 \<noteq> 0" "(d_months d, 0, 0)" "show_int (d_months d smod 12)" "CHR ''M''" True]
      date_units(2) [OF i1 _ _ r(2)] eq by auto
  obtain d3 where d3: "\<And>rest. dur_take True [] ((if d_days d \<noteq> 0 then show_int (d_days d) @ ''D'' else []) @ rest) d2 = dur_take True [] rest d3"
    and i3: "ds_inv 76 d3 (d_months d, d_days d, 0)"
    using take_opt [OF i2, of 76 "d_days d \<noteq> 0" "(d_months d, d_days d, 0)" "show_int (d_days d)" "CHR ''D''" True]
      date_units(3) [OF i2 _ _ r(3)] by auto
  have "dur_take True [] (date_text d) sums_zero = Some d3"
    unfolding date_text_def using d1 d2 d3 [of "[]"] by simp
  with i3 show ?thesis by blast
qed

definition time_text :: "int \<Rightarrow> string" where
  "time_text tot =
     (let a = \<bar>tot\<bar>; secs = a div NS; frac = a mod NS; h = secs div 3600; m = (secs div 60) mod 60; sec = secs mod 60;
          sign = (if tot < 0 then ''-'' else []); f = strip_right0 (pad0 9 (nat frac))
      in (if h \<noteq> 0 then (sign @ show_int h) @ ''H'' else []) @ (if m \<noteq> 0 then (sign @ show_int m) @ ''M'' else [])
         @ (if sec \<noteq> 0 \<or> frac \<noteq> 0 then (sign @ show_int sec @ (if f = [] then [] else CHR ''.'' # f)) @ ''S'' else []))"

lemma dur_render_parts:
  "dur_render d = (if d = dur_zero then ''PT0S''
     else CHR ''P'' # date_text d @ (if total_nanos d = 0 then [] else CHR ''T'' # time_text (total_nanos d)))"
  by (simp add: dur_render_def date_text_def time_text_def Let_def)

lemma signed_show: "0 < k \<Longrightarrow> (if b then ''-'' else []) @ show_int k = show_int (if b then - k else k)"
  by (simp add: show_int_def)

lemma second_text:
  assumes "0 \<le> sec" "sg = [] \<or> sg = ''-''" "f = strip_right0 (pad0 9 n)"
  shows "number_text (sg @ show_int sec @ (if f = [] then [] else CHR ''.'' # f))"
proof -
  have "list_all is_ascii_digit f"
    using strip_right0_digits [of "pad0 9 n"] pad0_digits [of _ 9 n] unfolding assms(3) list_all_iff by auto
  then have "list_all (\<lambda>c. number_char c \<and> c \<noteq> CHR '','') f" by (auto simp: list_all_iff number_char_def is_ascii_digit_def)
  moreover have "number_text (show_int sec)" by simp
  ultimately show ?thesis using assms(2) by (auto simp: number_char_def)
qed

lemma time_parts_sum:
  fixes a :: int
  shows "a div NS div 3600 * (3600 * NS) + (a div NS div 60) mod 60 * (60 * NS) + (a div NS mod 60 * NS + a mod NS) = a"
proof -
  define s where "s = a div NS"
  have "s div 60 div 60 = s div 3600" by (simp add: zdiv_zmult2_eq [symmetric])
  moreover have "s div 60 div 60 * 60 + s div 60 mod 60 = s div 60" "s div 60 * 60 + s mod 60 = s" by simp_all
  ultimately have "s div 3600 * 3600 + s div 60 mod 60 * 60 + s mod 60 = s" by linarith
  then have "s div 3600 * 3600 * NS + s div 60 mod 60 * 60 * NS + s mod 60 * NS = s * NS" by (metis distrib_right)
  moreover have "s * NS + a mod NS = a" by (simp add: s_def)
  ultimately show ?thesis unfolding s_def [symmetric] mult.assoc by linarith
qed

lemma take_time_text:
  assumes "ds_inv 76 ds (m, d, 0)" "- (2 ^ 63 * NS) \<le> tot" "tot < 2 ^ 63 * NS"
  shows "\<exists>ds'. dur_take False [] (time_text tot) ds = Some ds' \<and> ds_inv 76 ds' (m, d, tot)"
proof -
  define a where "a = \<bar>tot\<bar>"
  define h where "h = a div NS div 3600"
  define mi where "mi = (a div NS div 60) mod 60"
  define sec where "sec = a div NS mod 60"
  define fr where "fr = a mod NS"
  define f where "f = strip_right0 (pad0 9 (nat fr))"
  define sg where "sg = (if tot < 0 then ''-'' else [])"
  define s :: int where "s = (if tot < 0 then - 1 else 1)"
  have sgs: "sg = [] \<or> sg = ''-''" and s_eq: "s = (if sg = ''-'' then - 1 else 1)" by (auto simp: sg_def s_def)
  have "a \<le> 2 ^ 63 * NS" using assms(2,3) by (auto simp: a_def)
  then have "a div NS \<le> 2 ^ 63 * NS div NS" by (intro zdiv_mono1) simp_all
  then have "a div NS \<le> 2 ^ 63" by simp
  moreover have "0 \<le> a div NS" by (simp add: a_def pos_imp_zdiv_nonneg_iff)
  ultimately have h: "0 \<le> h" "h \<le> 2 ^ 52" by (auto simp: h_def)
  have mi: "0 \<le> mi" "mi < 60" and sec: "0 \<le> sec" "sec < 60" and fr: "0 \<le> fr" "fr < NS" by (simp_all add: mi_def sec_def fr_def)
  have tot: "s * h * (3600 * NS) + s * mi * (60 * NS) + s * (sec * NS + fr) = tot"
  proof -
    have "s * (h * (3600 * NS) + mi * (60 * NS) + (sec * NS + fr)) = s * a"
      unfolding h_def mi_def sec_def fr_def by (simp only: time_parts_sum)
    moreover have "s * a = tot" by (simp add: s_def a_def)
    ultimately show ?thesis by (simp only: distrib_left mult.assoc)
  qed
  have r: "i64_range (s * h)" "i64_range (s * mi)" using h mi by (auto simp: s_def i64_range_def)
  have sh: "h \<noteq> 0 \<Longrightarrow> sg @ show_int h = show_int (s * h)" "mi \<noteq> 0 \<Longrightarrow> sg @ show_int mi = show_int (s * mi)"
    using signed_show [of h "tot < 0"] signed_show [of mi "tot < 0"] h mi by (simp_all add: sg_def s_def)
  obtain d1 where d1: "\<And>rest. dur_take False [] ((if h \<noteq> 0 then (sg @ show_int h) @ ''H'' else []) @ rest) ds = dur_take False [] rest d1"
    and i1: "ds_inv 76 d1 (m, d, s * h * (3600 * NS))"
    using take_opt [OF assms(1), of 76 "h \<noteq> 0" "(m, d, s * h * (3600 * NS))" "sg @ show_int h" "CHR ''H''" False]
      time_units(1) [OF assms(1) r(1)] sh(1) by auto
  obtain d2 where d2: "\<And>rest. dur_take False [] ((if mi \<noteq> 0 then (sg @ show_int mi) @ ''M'' else []) @ rest) d1 = dur_take False [] rest d2"
    and i2: "ds_inv 76 d2 (m, d, s * h * (3600 * NS) + s * mi * (60 * NS))"
    using take_opt [OF i1, of 76 "mi \<noteq> 0" "(m, d, s * h * (3600 * NS) + s * mi * (60 * NS))" "sg @ show_int mi" "CHR ''M''" False]
      time_units(2) [OF i1 r(2)] sh(2) by auto
  have u: "\<exists>ds'. dur_unit False (CHR ''S'') (sg @ show_int sec @ (if f = [] then [] else CHR ''.'' # f)) d2 = Some ds' \<and> ds_inv 76 ds' (m, d, tot)"
    using second_unit [OF i2 sec fr f_def sgs] tot unfolding s_eq [symmetric] by simp
  obtain d3 where d3: "\<And>rest. dur_take False [] ((if sec \<noteq> 0 \<or> fr \<noteq> 0 then (sg @ show_int sec @ (if f = [] then [] else CHR ''.'' # f)) @ ''S'' else []) @ rest) d2
      = dur_take False [] rest d3"
    and i3: "ds_inv 76 d3 (m, d, tot)"
    using take_opt [OF i2, of 76 "sec \<noteq> 0 \<or> fr \<noteq> 0" "(m, d, tot)" "sg @ show_int sec @ (if f = [] then [] else CHR ''.'' # f)" "CHR ''S''" False]
      second_text [OF sec(1) sgs f_def] u tot by (auto simp del: append_assoc)
  have "time_text tot = (if h \<noteq> 0 then (sg @ show_int h) @ ''H'' else []) @ (if mi \<noteq> 0 then (sg @ show_int mi) @ ''M'' else [])
      @ (if sec \<noteq> 0 \<or> fr \<noteq> 0 then (sg @ show_int sec @ (if f = [] then [] else CHR ''.'' # f)) @ ''S'' else []) @ []"
    by (simp add: time_text_def Let_def h_def mi_def sec_def fr_def f_def sg_def a_def)
  then have "dur_take False [] (time_text tot) ds = dur_take False [] [] d3"
    by (simp only: d1 d2 d3)
  with i3 show ?thesis by simp
qed

section \<open>The guess of the form\<close>

text \<open>No minus sign follows a digit.\<close>

fun dash_ok :: "string \<Rightarrow> bool" where
  "dash_ok (a # b # r) \<longleftrightarrow> \<not> (is_ascii_digit a \<and> b = CHR ''-'') \<and> dash_ok (b # r)"
| "dash_ok _ \<longleftrightarrow> True"

lemma dash_ok_append: "dash_ok (xs @ [u]) \<Longrightarrow> \<not> is_ascii_digit u \<Longrightarrow> dash_ok ys \<Longrightarrow> dash_ok ((xs @ [u]) @ ys)"
  by (induction xs rule: dash_ok.induct) (cases ys; auto)+

lemma dash_ok_no_dash: "CHR ''-'' \<notin> set xs \<Longrightarrow> dash_ok xs"
  by (induction xs rule: dash_ok.induct) auto

lemma dash_ok_Cons: "CHR ''-'' \<notin> set xs \<Longrightarrow> dash_ok (c # xs)"
  by (cases xs) (auto intro: dash_ok_no_dash)

lemma dash_ok_signed: "CHR ''-'' \<notin> set xs \<Longrightarrow> s = [] \<or> s = ''-'' \<Longrightarrow> dash_ok (s @ xs)"
  by (auto intro: dash_ok_no_dash dash_ok_Cons)

lemma dash_ok_piece:
  assumes "c \<Longrightarrow> dash_ok (xs @ [u])" "\<not> is_ascii_digit u" "dash_ok ys"
  shows "dash_ok ((if c then xs @ [u] else []) @ ys)"
  using assms dash_ok_append by simp

lemma dash_ok_show: "\<not> is_ascii_digit u \<Longrightarrow> u \<noteq> CHR ''-'' \<Longrightarrow> s = [] \<or> (s = ''-'' \<and> 0 \<le> k) \<Longrightarrow> dash_ok ((s @ show_int k) @ [u])"
  using dash_ok_signed [of "show_nat (nat \<bar>k\<bar>) @ [u]" "if k < 0 then ''-'' else s"] by (auto simp: show_int_def)

lemma not_digit_units [simp]: "\<not> is_ascii_digit (CHR ''Y'')" "\<not> is_ascii_digit (CHR ''M'')" "\<not> is_ascii_digit (CHR ''D'')"
  "\<not> is_ascii_digit (CHR ''H'')" "\<not> is_ascii_digit (CHR ''S'')" "\<not> is_ascii_digit (CHR ''T'')"
  by (simp_all add: is_ascii_digit_def)

lemma dash_ok_date_text: "dash_ok ys \<Longrightarrow> dash_ok (date_text d @ ys)"
  unfolding date_text_def append_assoc by (intro dash_ok_piece dash_ok_show [of _ "[]", simplified]) simp_all

lemma dash_ok_time_text: "dash_ok (time_text tot)"
proof -
  define a where "a = \<bar>tot\<bar>"
  define h where "h = a div NS div 3600"
  define mi where "mi = (a div NS div 60) mod 60"
  define sec where "sec = a div NS mod 60"
  define f where "f = strip_right0 (pad0 9 (nat (a mod NS)))"
  define sg where "sg = (if tot < 0 then ''-'' else [])"
  have "0 \<le> a div NS" by (simp add: a_def pos_imp_zdiv_nonneg_iff)
  then have nn: "0 \<le> h" "0 \<le> mi" "0 \<le> sec" by (simp_all add: h_def mi_def sec_def)
  have "CHR ''-'' \<notin> set f"
    using strip_right0_digits [of "pad0 9 (nat (a mod NS))"] pad0_digits [of "CHR ''-''" 9 "nat (a mod NS)"] by (auto simp: f_def)
  then have "CHR ''-'' \<notin> set (show_int sec @ (if f = [] then [] else CHR ''.'' # f) @ ''S'')" using nn by (simp add: show_int_def)
  from dash_ok_signed [OF this, of sg]
  have s: "dash_ok ((sg @ show_int sec @ (if f = [] then [] else CHR ''.'' # f)) @ ''S'')" by (simp add: sg_def)
  have "dash_ok ((if h \<noteq> 0 then (sg @ show_int h) @ ''H'' else []) @ (if mi \<noteq> 0 then (sg @ show_int mi) @ ''M'' else [])
      @ (if sec \<noteq> 0 \<or> a mod NS \<noteq> 0 then (sg @ show_int sec @ (if f = [] then [] else CHR ''.'' # f)) @ ''S'' else []) @ [])"
    by (intro dash_ok_piece dash_ok_show s) (use nn in \<open>simp_all add: sg_def\<close>)
  then show ?thesis by (simp only: time_text_def Let_def h_def mi_def sec_def f_def sg_def a_def append_Nil2)
qed

lemma dash_ok_nth: "dash_ok xs \<Longrightarrow> Suc i < length xs \<Longrightarrow> is_ascii_digit (xs ! i) \<Longrightarrow> xs ! Suc i \<noteq> CHR ''-''"
proof (induction xs arbitrary: i rule: dash_ok.induct)
  case (1 a b r)
  then show ?case by (cases i) simp_all
qed simp_all

lemma dash_ok_five: "dash_ok body \<Longrightarrow> length body \<ge> 5 \<Longrightarrow> list_all is_ascii_digit (take 4 body) \<Longrightarrow> body ! 4 \<noteq> CHR ''-''"
  using dash_ok_nth [of body 3] by (simp add: list_all_length)

definition body_text :: "dur \<Rightarrow> string" where
  "body_text d = date_text d @ (if total_nanos d = 0 then [] else CHR ''T'' # time_text (total_nanos d))"

lemma show_int_dash: "CHR ''-'' \<in> set (show_int k) \<longleftrightarrow> k < 0"
  by (simp add: show_int_def)

lemma show_int_no_unit: "is_ascii_upper u \<Longrightarrow> u \<notin> set (show_int k)"
  using show_int_chars [of u k] by (auto simp: is_ascii_digit_def is_ascii_upper_def)

lemma upper_unit_chars [simp]: "is_ascii_upper (CHR ''Y'')" "is_ascii_upper (CHR ''W'')" "is_ascii_upper (CHR ''D'')"
  "is_ascii_upper (CHR ''H'')" "is_ascii_upper (CHR ''S'')" "is_ascii_upper (CHR ''T'')" "is_ascii_upper (CHR ''M'')"
  by (simp_all add: is_ascii_upper_def)

lemma frac_text_chars: "c \<in> set (strip_right0 (pad0 9 n)) \<Longrightarrow> is_ascii_digit c"
  using strip_right0_digits [of "pad0 9 n"] pad0_digits [of c 9 n] by auto

lemma contains_any_append [simp]: "contains_any cs (xs @ ys) \<longleftrightarrow> contains_any cs xs \<or> contains_any cs ys"
  by (simp add: contains_any_def)

lemma contains_any_show [simp]: "contains_any ''YWDHS'' (show_int k) \<longleftrightarrow> False"
  using show_int_no_unit [of _ k] by (auto simp: contains_any_def list_ex_iff)

lemma contains_any_char [simp]: "contains_any cs [c] \<longleftrightarrow> c \<in> set cs" "contains_any cs [] \<longleftrightarrow> False"
  by (simp_all add: contains_any_def)

lemma date_text_units: "contains_any ''YWDHS'' (date_text d) \<longleftrightarrow> d_months d sdiv 12 \<noteq> 0 \<or> d_days d \<noteq> 0"
  by (simp add: date_text_def)

lemma show_int_no_t: "c \<in> {CHR ''T'', CHR ''t''} \<Longrightarrow> c \<notin> set (show_int k)"
  using show_int_chars [of c k] by (auto simp: is_ascii_digit_def)

lemma date_text_no_t: "c \<in> {CHR ''T'', CHR ''t''} \<Longrightarrow> c \<notin> set (date_text d)"
  using show_int_no_t [of c] by (auto simp: date_text_def)

lemma time_parts_zero:
  assumes "tot \<noteq> 0"
  shows "\<bar>tot\<bar> div NS div 3600 = 0 \<and> \<bar>tot\<bar> div NS mod 60 = 0 \<and> \<bar>tot\<bar> mod NS = 0 \<longleftrightarrow> \<bar>tot\<bar> < 3600 * NS \<and> \<bar>tot\<bar> mod (60 * NS) = 0"
proof -
  have pos: "0 < 60 * NS" "0 < 3600 * NS" "0 \<le> \<bar>tot\<bar>" by simp_all
  have "\<bar>tot\<bar> div NS div 3600 = \<bar>tot\<bar> div (3600 * NS)" by (simp add: zdiv_zmult2_eq [symmetric] mult.commute)
  then have h: "\<bar>tot\<bar> div NS div 3600 = 0 \<longleftrightarrow> \<bar>tot\<bar> < 3600 * NS"
    using pos zdiv_eq_0_iff [of "\<bar>tot\<bar>" "3600 * NS"] by linarith
  have "\<bar>tot\<bar> mod (NS * 60) = NS * (\<bar>tot\<bar> div NS mod 60) + \<bar>tot\<bar> mod NS" by (rule zmod_zmult2_eq) simp
  moreover have "0 \<le> \<bar>tot\<bar> mod NS" "0 \<le> NS * (\<bar>tot\<bar> div NS mod 60)" by simp_all
  ultimately have "\<bar>tot\<bar> mod (60 * NS) = 0 \<longleftrightarrow> \<bar>tot\<bar> div NS mod 60 = 0 \<and> \<bar>tot\<bar> mod NS = 0"
    by (smt (verit) mult.commute mult_eq_0_iff NS_pos)
  with h show ?thesis by argo
qed

lemma time_text_units:
  assumes "tot \<noteq> 0"
  shows "contains_any ''YWDHS'' (time_text tot) \<longleftrightarrow> \<not> (\<bar>tot\<bar> < 3600 * NS \<and> \<bar>tot\<bar> mod (60 * NS) = 0)"
proof -
  have f: "contains_any ''YWDHS'' (strip_right0 (pad0 9 n)) \<longleftrightarrow> False" for n
    using frac_text_chars [of "CHR ''Y''" n] frac_text_chars [of "CHR ''W''" n] frac_text_chars [of "CHR ''D''" n]
      frac_text_chars [of "CHR ''H''" n] frac_text_chars [of "CHR ''S''" n] by (auto simp: contains_any_def list_ex_iff)
  have f': "contains_any ''YWDHS'' (CHR ''.'' # strip_right0 (pad0 9 n)) \<longleftrightarrow> False" for n
    using f [of n] by (simp add: contains_any_def)
  show ?thesis unfolding time_parts_zero [OF assms, symmetric] by (simp add: time_text_def Let_def f f' del: Prelude.show_int_nonempty)
qed

lemma months_dash: "d_months d sdiv 12 = 0 \<Longrightarrow> d_months d smod 12 = d_months d"
  by (simp add: signed_modulo_int_def signed_divide_int_def sgn_if abs_if split: if_splits)

lemma sdiv_zero: "m sdiv 12 = 0 \<longleftrightarrow> \<bar>m :: int\<bar> < 12"
proof -
  have "m sdiv 12 = sgn m * (\<bar>m\<bar> div 12)" by (simp add: signed_divide_int_def)
  moreover have "\<bar>m\<bar> div 12 = 0 \<longleftrightarrow> \<bar>m\<bar> < 12" using zdiv_eq_0_iff [of "\<bar>m\<bar>" 12] by linarith
  ultimately show ?thesis by (auto simp: sgn_if)
qed

lemma body_guess:
  assumes "d \<noteq> dur_zero"
  shows "CHR ''-'' \<in> set (body_text d) \<and> \<not> contains_any ''YWDHS'' (body_text d) \<longleftrightarrow> dur_misread d"
proof -
  have u: "contains_any ''YWDHS'' (CHR ''T'' # x) \<longleftrightarrow> contains_any ''YWDHS'' x" for x by (simp add: contains_any_def)
  have c: "\<not> contains_any ''YWDHS'' (body_text d) \<longleftrightarrow>
      \<bar>d_months d\<bar> < 12 \<and> d_days d = 0 \<and> \<bar>total_nanos d\<bar> < 3600 * NS \<and> \<bar>total_nanos d\<bar> mod (60 * NS) = 0"
    using time_text_units [of "total_nanos d"] by (auto simp: body_text_def date_text_units u sdiv_zero)
  have "CHR ''-'' \<in> set (time_text tot) \<longleftrightarrow> tot < 0" if "tot \<noteq> 0" "\<bar>tot\<bar> < 3600 * NS" "\<bar>tot\<bar> mod (60 * NS) = 0" for tot
  proof -
    have z: "\<bar>tot\<bar> div NS div 3600 = 0" "\<bar>tot\<bar> div NS mod 60 = 0" "\<bar>tot\<bar> mod NS = 0" using time_parts_zero [OF that(1)] that(2,3) by auto
    have "\<bar>tot\<bar> div NS div 60 mod 60 \<noteq> 0"
    proof
      assume "\<bar>tot\<bar> div NS div 60 mod 60 = 0"
      with z time_parts_sum [of "\<bar>tot\<bar>"] that(1) show False by simp
    qed
    moreover have "\<not> \<bar>tot\<bar> div NS div 60 mod 60 < 0" by (simp add: not_less)
    ultimately show ?thesis using z by (simp add: time_text_def Let_def show_int_dash del: mod_div_trivial)
  qed
  moreover have "CHR ''-'' \<in> set (date_text d) \<longleftrightarrow> d_months d < 0" if "\<bar>d_months d\<bar> < 12" "d_days d = 0"
    using that months_dash [of d] sdiv_zero [of "d_months d"] by (cases "d_months d = 0") (simp_all add: date_text_def show_int_dash)
  ultimately show ?thesis using c by (auto simp: body_text_def dur_misread_def)
qed

lemma body_no_guess:
  assumes "\<not> dur_misread d" "d \<noteq> dur_zero"
  shows "dur_is_date (body_text d) = Some False"
proof -
  have ok: "dash_ok (body_text d)" unfolding body_text_def
    by (rule dash_ok_date_text) (use dash_ok_append [of "[]" "CHR ''T''" "time_text (total_nanos d)"] dash_ok_time_text in simp)
  have "list_all (\<lambda>c. byte c < 128) (body_text d)"
  proof -
    have n: "list_all (\<lambda>c. byte c < 128) (show_int k)" for k
      using show_int_chars [of _ k] by (force simp: is_ascii_digit_def list_all_iff)
    have f: "list_all (\<lambda>c. byte c < 128) (strip_right0 (pad0 9 n))" for n
      using frac_text_chars [of _ n] by (force simp: is_ascii_digit_def list_all_iff)
    have i: "list_all P (if c then xs else ys)" if "list_all P xs" "list_all P ys" for P c and xs ys :: string using that by simp
    show ?thesis by (simp add: body_text_def date_text_def time_text_def Let_def n f i split del: if_split)
  qed
  then have b: "length (body_text d) \<ge> 4 \<Longrightarrow> char_boundary (body_text d) 4"
    by (auto simp: char_boundary_def list_all_length)
  show ?thesis
  proof (cases "list_all is_ascii_digit (take 4 (body_text d)) \<and> length (body_text d) \<ge> 5")
    case True
    then have "body_text d ! 4 \<noteq> CHR ''-''" using dash_ok_five [OF ok] by simp
    then show ?thesis using body_guess [OF assms(2)] assms(1) b unfolding dur_is_date_def by auto
  next
    case False
    then show ?thesis using body_guess [OF assms(2)] assms(1) b unfolding dur_is_date_def by auto
  qed
qed

lemma length_dash_count: "length (split_on (CHR ''-'') (show_int k @ ''M'')) \<le> 2"
proof -
  have none: "filter (\<lambda>x. x = c) xs = []" if "c \<notin> set xs" for c and xs :: string using that by (auto simp: filter_empty_conv)
  have "filter (\<lambda>x. x = CHR ''-'') (show_nat n) = []" for n by (rule none) simp
  then show ?thesis by (simp add: length_split_on show_int_def)
qed

lemma misread_date:
  assumes "dur_misread d"
  shows "parse_dur_date bad False (body_text d) = bad"
proof -
  have m: "d_months d sdiv 12 = 0" "d_days d = 0" using assms sdiv_zero by (auto simp: dur_misread_def)
  have t: "CHR ''T'' \<notin> set (date_text d)" by (rule date_text_no_t) simp
  have "length (split_on (CHR ''-'') (date_text d)) \<le> 2"
    using length_dash_count [of "d_months d smod 12"] m by (simp add: date_text_def length_split_on)
  then have "length (split_on (CHR ''-'') (date_text d)) \<noteq> 3" by simp
  then show ?thesis
    by (simp add: parse_dur_date_def body_text_def Let_def split_once_append [OF t] split_once_none [OF t])
qed

lemma read_body:
  assumes "dur_ok d"
  shows "parse_dur_units bad False (body_text d) = Inr d"
proof -
  obtain d1 where d1: "dur_take True [] (date_text d) sums_zero = Some d1" "ds_inv 76 d1 (d_months d, d_days d, 0)"
    using take_date_text [OF assms] by blast
  have "- (2 ^ 63 * NS) \<le> total_nanos d \<and> total_nanos d < 2 ^ 63 * NS"
    using assms unfolding dur_ok_def i64_range_def total_nanos_def NS_def by auto
  then obtain d2 where d2: "dur_take False [] (time_text (total_nanos d)) d1 = Some d2" "ds_inv 76 d2 (d_months d, d_days d, total_nanos d)"
    using take_time_text [OF d1(2)] by blast
  have new: "dur_new (d_months d) (d_days d) (total_nanos d) = d"
  proof -
    have "total_nanos d div NS = d_seconds d" "total_nanos d mod NS = d_nanos d"
      using assms by (simp_all add: total_nanos_def dur_ok_def)
    moreover have "as_i64_of (d_seconds d) = d_seconds d"
      using assms by (simp add: dur_ok_def as_i64_of_def i64_range_def signed_take_bit_int_eq_self)
    ultimately show ?thesis by (simp add: dur_new_def)
  qed
  have no_t: "\<forall>x\<in>set (date_text d). x \<notin> set ''Tt''" using date_text_no_t [of _ d] by auto
  show ?thesis
  proof (cases "total_nanos d = 0")
    case True
    then have "ds_inv 76 d1 (d_months d, d_days d, total_nanos d)" using d1(2) by simp
    then show ?thesis using True d1(1) new whole_no_fraction unfolding ds_inv_def
      by (auto simp: parse_dur_units_def body_text_def find_chars_none [OF no_t, simplified] dur_from_parts_def f64_zero_def)
  next
    case False
    have "find_chars ''Tt'' (date_text d @ CHR ''T'' # time_text (total_nanos d)) = Some (length (date_text d))"
      by (rule find_chars_append [OF no_t]) simp
    then show ?thesis using False d1(1) d2 new whole_no_fraction unfolding ds_inv_def
      by (auto simp: parse_dur_units_def body_text_def dur_from_parts_def f64_zero_def)
  qed
qed

lemma parse_dur_render:
  assumes "dur_ok d"
  shows "parse_duration (dur_render d) = (if dur_misread d then rt (''invalid duration '' @ quoted (dur_render d)) else Inr d)"
proof (cases "d = dur_zero")
  case True
  have "parse_duration ''PT0S'' = Inr dur_zero" by code_simp
  then show ?thesis using True by (simp add: dur_render_def dur_misread_def dur_zero_def total_nanos_def)
next
  case False
  then have r: "dur_render d = CHR ''P'' # body_text d" by (simp add: dur_render_parts body_text_def)
  have p: "parse_duration (CHR ''P'' # b) = (let bad = rt (''invalid duration '' @ quoted (CHR ''P'' # b)) in
      case dur_is_date b of None \<Rightarrow> Inl CyPanic | Some True \<Rightarrow> parse_dur_date bad False b | Some False \<Rightarrow> parse_dur_units bad False b)" for b
    by (simp add: parse_duration_def strip_prefix_def starts_with_def)
  show ?thesis
  proof (cases "dur_misread d")
    case True
    then have "dur_is_date (body_text d) = Some True" using body_guess [OF False] by (simp add: dur_is_date_def)
    then show ?thesis using True unfolding r p by (simp add: misread_date)
  next
    case no: False
    then show ?thesis using body_no_guess [OF no False] unfolding r p by (simp add: read_body [OF assms])
  qed
qed

end
