(* ===== verification/Cypher_Stored.thy ===== *)
theory Cypher_Stored
  imports Cypher_Duration
begin

text \<open>
  Temporal values are passed around and stored as text. The text of a value (\<^verbatim>\<open>render\<close>) and the literal it is
  stored as (\<^verbatim>\<open>lexical\<close>, \<^verbatim>\<open>from_literal\<close>) are read back as the value, with two exceptions the theorems name:
  some negative durations, and the offset of a date-time in a named zone.
\<close>

section \<open>A value written with either text of its time\<close>

definition time_form :: "(int \<Rightarrow> string) \<Rightarrow> bool" where
  "time_form f \<longleftrightarrow> f = fmt_time \<or> f = xsd_time"

lemma time_form_parse: "time_form f \<Longrightarrow> 0 \<le> n \<Longrightarrow> n < DAY_NS \<Longrightarrow> parse_time (f n) = Inr n"
  using parse_fmt_time by (auto simp: time_form_def)

lemma time_form_chars: "time_form f \<Longrightarrow> c \<in> set (f n) \<Longrightarrow> c \<in> time_chars"
  using fmt_time_chars xsd_time_chars by (auto simp: time_form_def)

lemma time_form_ends: "time_form f \<Longrightarrow> f n \<noteq> [] \<and> printable (hd (f n)) \<and> printable (last (f n))"
  using fmt_time_ends xsd_time_ends by (auto simp: time_form_def)

fun zoned_with :: "(int \<Rightarrow> string) \<Rightarrow> temporal \<Rightarrow> string" where
  "zoned_with f (TLocalTime n) = f n"
| "zoned_with f (TTime n o') = f n @ fmt_offset o'"
| "zoned_with f (TLocalDateTime d n) = f n"
| "zoned_with f (TDateTime d n z o') = f n @ fmt_offset o' @ (case z of ZNamed name \<Rightarrow> ''['' @ name @ '']'' | ZOffset _ \<Rightarrow> [])"
| "zoned_with f _ = []"

fun written_zone :: "temporal \<Rightarrow> zone option" where
  "written_zone (TTime n o') = Some (ZOffset o')"
| "written_zone (TDateTime d n z o') = Some z"
| "written_zone _ = None"

lemma zone_text:
  assumes "time_form f" "temporal_ok tz t" "time_nanos t = Some n"
  shows "parse_time_zone tz (zoned_with f t) = Inr (n, written_zone t)"
proof -
  note ch = time_form_chars [OF assms(1)] and pt = time_form_parse [OF assms(1)]
  show ?thesis
  proof (cases t)
    case (TDateTime d m z o')
    show ?thesis
    proof (cases z)
      case (ZOffset x)
      then show ?thesis using TDateTime assms by (auto simp: zone_ok_def intro!: time_zone_offset ch pt)
    next
      case (ZNamed name)
      then show ?thesis using TDateTime assms time_zone_named [of "f n" n tz name o']
        by (auto simp: zone_ok_def pt dest: ch)
    qed
  qed (use assms in \<open>auto intro!: time_zone_offset time_zone_none ch pt\<close>)
qed

definition written_with :: "(int \<Rightarrow> string) \<Rightarrow> temporal \<Rightarrow> string" where
  "written_with f t = (case t of TDate d \<Rightarrow> fmt_date d | TLocalDateTime d n \<Rightarrow> fmt_date d @ CHR ''T'' # zoned_with f t
     | TDateTime d n z o' \<Rightarrow> fmt_date d @ CHR ''T'' # zoned_with f t | _ \<Rightarrow> zoned_with f t)"

lemma zoned_ends: "time_form f \<Longrightarrow> time_nanos t \<noteq> None \<Longrightarrow> zoned_with f t \<noteq> [] \<and> printable (hd (zoned_with f t)) \<and> printable (last (zoned_with f t))"
  using time_form_ends [of f] fmt_offset_last by (cases t) (auto split: zone.splits simp: printable_def)

lemma trim_written:
  assumes "time_form f" "temporal_ok tz t"
  shows "trim (written_with f t) = written_with f t"
proof -
  have z: "zoned_with f t \<noteq> [] \<and> printable (hd (zoned_with f t)) \<and> printable (last (zoned_with f t))" if "time_nanos t \<noteq> None"
    using zoned_ends [OF assms(1) that] .
  have "trim (fmt_date d @ CHR ''T'' # zoned_with f t) = fmt_date d @ CHR ''T'' # zoned_with f t" if "time_nanos t \<noteq> None" for d
    using z [OF that] fmt_date_ends [of d] by (intro trim_printable) simp_all
  moreover have "trim (zoned_with f t) = zoned_with f t" if "time_nanos t \<noteq> None"
    using z [OF that] by (intro trim_printable) simp_all
  moreover have "trim (fmt_date d) = fmt_date d" for d using fmt_date_ends [of d] by (intro trim_printable) simp_all
  ultimately show ?thesis using assms(2) by (cases t) (simp_all add: written_with_def)
qed

lemma datetime_text:
  assumes "time_form f" "temporal_ok tz t" "t_kind t = KLocalDateTime \<or> t_kind t = KDateTime" "date_days t = Some d" "time_nanos t = Some n"
  shows "parse_datetime tz (written_with f t) = Inr (d, n, written_zone t)"
  using assms(2-5) parse_datetime_text [OF _ zone_text [OF assms(1,2,5)], of d] by (cases t) (simp_all add: written_with_def)

lemma t_parse_written:
  assumes "time_form f" "temporal_ok tz t"
  shows "t_parse tz (t_kind t) (written_with f t) = Inr (reread tz t)"
proof (cases t)
  case (TDate d)
  with assms trim_written [OF assms] show ?thesis by (simp add: parse_fmt_date written_with_def)
next
  case (TDateTime d n z o')
  have p: "parse_datetime tz (written_with f t) = Inr (d, n, Some z)" using datetime_text [OF assms, of d n] TDateTime by simp
  have "zoned tz d n z None = Inr (reread tz t)"
    using TDateTime assms(2) by (cases z) (auto simp: zoned_def zone_ok_def)
  with p trim_written [OF assms] TDateTime show ?thesis by simp
next
  case (TLocalDateTime d n)
  with datetime_text [OF assms, of d n] trim_written [OF assms] show ?thesis by simp
next
  case (TTime n o')
  with zone_text [OF assms, of n] trim_written [OF assms] show ?thesis by (simp add: written_with_def)
next
  case (TLocalTime n)
  with zone_text [OF assms, of n] trim_written [OF assms] show ?thesis by (simp add: written_with_def)
next
  case (TDuration d)
  with assms show ?thesis by simp
qed

lemma render_written: "temporal_ok tz t \<Longrightarrow> t_render t = written_with fmt_time t"
  by (cases t) (simp_all add: written_with_def)

lemma lexical_written:
  assumes "temporal_ok tz t"
  shows "\<exists>f. time_form f \<and> fst (t_lexical t) = written_with f t"
proof (cases t)
  case (TDateTime d n z o')
  then show ?thesis
    by (cases z) (auto simp: written_with_def time_form_def)
qed (use assms in \<open>auto simp: written_with_def time_form_def\<close>)

lemma zoned_not_xsd [simp]: "ZONED_DATETIME \<noteq> xsd a" "xsd a \<noteq> ZONED_DATETIME"
  by (simp_all add: ZONED_DATETIME_def xsd_def)

lemma literal_kind:
  assumes "temporal_ok tz t"
  shows "temporal_literal_kind tz (snd (t_lexical t)) (fst (t_lexical t)) = Some (t_kind t)"
proof -
  obtain f where f: "time_form f" "fst (t_lexical t) = written_with f t" using lexical_written [OF assms] by blast
  show ?thesis
  proof (cases t)
    case (TDateTime d n z o')
    then show ?thesis using datetime_text [OF f(1) assms, of d n] f(2)
      by (cases z) (simp_all add: temporal_literal_kind_def)
  next
    case (TLocalDateTime d n)
    then show ?thesis using datetime_text [OF f(1) assms, of d n] f(2) by (simp add: temporal_literal_kind_def)
  next
    case (TTime n o')
    then show ?thesis using zone_text [OF f(1) assms, of n] f(2) by (simp add: temporal_literal_kind_def written_with_def)
  next
    case (TLocalTime n)
    then show ?thesis using zone_text [OF f(1) assms, of n] f(2) by (simp add: temporal_literal_kind_def written_with_def)
  qed (use assms in \<open>simp_all add: temporal_literal_kind_def\<close>)
qed

lemma dur_render_ends: "dur_render d \<noteq> [] \<and> printable (hd (dur_render d)) \<and> printable (last (dur_render d))"
proof -
  have n: "list_all printable (show_int k)" for k
    using show_int_chars [of _ k] by (force simp: printable_def is_ascii_digit_def list_all_iff)
  have f: "list_all printable (strip_right0 (pad0 9 n))" for n
    using frac_text_chars [of _ n] by (force simp: printable_def is_ascii_digit_def list_all_iff)
  have u: "printable (CHR ''Y'')" "printable (CHR ''M'')" "printable (CHR ''D'')" "printable (CHR ''H'')" "printable (CHR ''S'')"
    "printable (CHR ''T'')" "printable (CHR ''P'')" "printable (CHR ''-'')" "printable (CHR ''.'')" "printable (CHR ''0'')"
    by (simp_all add: printable_def)
  have i: "list_all P (if c then xs else ys)" if "list_all P xs" "list_all P ys" for P c and xs ys :: string using that by simp
  have "list_all printable (dur_render d)"
    unfolding dur_render_parts by (simp add: date_text_def time_text_def Let_def n f u i split del: if_split)
  moreover have "dur_render d \<noteq> []" by (simp add: dur_render_parts)
  ultimately show ?thesis by (auto simp: list_all_iff)
qed


text \<open>
  C39. A duration is read back from its text, and from the literal it is stored as, exactly -- except a negative
  duration of less than a year, without days and of whole minutes below an hour, such as \<^verbatim>\<open>P-5M\<close>: that text is
  taken for a date and rejected, and the stored literal is no longer a duration.
\<close>

theorem duration_texts:
  assumes "dur_ok d"
  shows "t_parse tz KDuration (t_render (TDuration d))
      = (if dur_misread d then rt (''invalid duration '' @ quoted (dur_render d)) else Inr (TDuration d))
    \<and> temporal_from_literal tz (snd (t_lexical (TDuration d))) (fst (t_lexical (TDuration d)))
      = (if dur_misread d then None else Some (t_value (TDuration d)))"
proof -
  have "dur_render d \<noteq> [] \<and> printable (hd (dur_render d)) \<and> printable (last (dur_render d))"
    by (rule dur_render_ends)
  then have "trim (dur_render d) = dur_render d" by (intro trim_printable) simp_all
  then show ?thesis using parse_dur_render [OF assms]
    by (simp add: temporal_from_literal_def temporal_literal_kind_def rt_def)
qed

definition stockholm :: tz_ext where
  "stockholm = \<lparr>tz_known = (\<lambda>n. n = ''Europe/Stockholm''), tz_compatible = (\<lambda>_ _ _. Inr 3600), tz_to_offset = (\<lambda>_ _. Inr 3600)\<rparr>"


lemma duration_texts_witness:
  "t_parse stockholm KDuration (t_render (TDuration (dur_new (- 17) 3 1500000000))) = Inr (TDuration (dur_new (- 17) 3 1500000000))"
proof -
  have "dur_ok (dur_new (- 17) 3 1500000000)" "\<not> dur_misread (dur_new (- 17) 3 1500000000)" by code_simp+
  with duration_texts [of "dur_new (- 17) 3 1500000000" stockholm] show ?thesis by simp
qed

end
