(* ===== verification/Cypher_Temporal_Laws.thy ===== *)
theory Cypher_Temporal_Laws
  imports Cypher_Temporal_Ops Cypher_Stored
begin

text \<open>
  Laws of the operations on temporal values. Dates are handled through the months counted from year zero: the day
  number of a date is the start of its month plus its day of the month.
\<close>

section \<open>Months\<close>

definition month_first :: "int \<Rightarrow> int" where
  "month_first k = days_from_civil (k div 12) (k mod 12 + 1) 1"

definition month_len :: "int \<Rightarrow> int" where
  "month_len k = days_in_month (k div 12) (k mod 12 + 1)"

lemma month_len_bounds: "28 \<le> month_len k" "month_len k \<le> 31"
  by (simp_all add: month_len_def days_in_month_bounds)

lemma days_from_civil_day: "days_from_civil y m d = days_from_civil y m 1 + (d - 1)"
  by (simp add: days_from_civil_def Let_def)

lemma month_first_Suc: "month_first (k + 1) = month_first k + month_len k"
proof -
  define y m where "y = k div 12" and "m = k mod 12 + 1"
  have m: "1 \<le> m" "m \<le> 12" by (simp_all add: m_def)
  have v: "valid_date (y, m, days_in_month y m)" using m days_in_month_bounds [of y m] by (simp add: valid_date_def)
  have "(k + 1) div 12 = (if m = 12 then y + 1 else y)" "(k + 1) mod 12 + 1 = (if m = 12 then 1 else m + 1)"
  proof -
    have k: "k = 12 * y + (m - 1)" by (simp add: y_def m_def)
    then have a: "k + 1 = 12 * y + m" "m = 12 \<Longrightarrow> k + 1 = 12 * (y + 1) + 0" by simp_all
    show "(k + 1) div 12 = (if m = 12 then y + 1 else y)"
      using int_div_pos_eq [OF a(1)] int_div_pos_eq [OF a(2)] m by simp
    show "(k + 1) mod 12 + 1 = (if m = 12 then 1 else m + 1)"
      using int_mod_pos_eq [OF a(1)] int_mod_pos_eq [OF a(2)] m by simp
  qed
  then have "month_first (k + 1) = days_from_civil y m (days_in_month y m) + 1"
    using days_next_date [OF v] m by (auto simp: month_first_def next_date_def split: if_splits)
  also have "\<dots> = month_first k + month_len k"
    using days_from_civil_day [of y m "days_in_month y m"] by (simp add: month_first_def month_len_def y_def m_def)
  finally show ?thesis .
qed

lemma month_first_less: "j < k \<Longrightarrow> month_first j + month_len j \<le> month_first k"
proof (induction k rule: int_gr_induct)
  case base
  then show ?case by (simp add: month_first_Suc)
next
  case (step i)
  then show ?case using month_first_Suc [of i] month_len_bounds [of i] by linarith
qed

text \<open>A day number as a month and a day of it.\<close>

lemma civil_months:
  assumes "civil_from_days z = (y, m, d)"
  shows "z = month_first (y * 12 + m - 1) + d - 1" "1 \<le> d" "d \<le> month_len (y * 12 + m - 1)"
    "(y * 12 + m - 1) div 12 = y" "(y * 12 + m - 1) mod 12 + 1 = m"
proof -
  have v: "valid_date (y, m, d)" and z: "z = days_from_civil y m d" using civil_valid [of z] civil_days [of z] assms by simp_all
  from v have m: "1 \<le> m" "m \<le> 12" and d: "1 \<le> d" "d \<le> days_in_month y m" by (simp_all add: valid_date_def)
  have e: "(y * 12 + m - 1) div 12 = y" "(y * 12 + m - 1) mod 12 + 1 = m" using m by presburger+
  then show "(y * 12 + m - 1) div 12 = y" "(y * 12 + m - 1) mod 12 + 1 = m" .
  show "z = month_first (y * 12 + m - 1) + d - 1" unfolding month_first_def e z using days_from_civil_day [of y m d] by simp
  show "1 \<le> d" "d \<le> month_len (y * 12 + m - 1)" unfolding month_len_def e by (rule d)+
qed

lemma month_first_civil:
  assumes "1 \<le> d" "d \<le> month_len k"
  shows "civil_from_days (month_first k + d - 1) = (k div 12, k mod 12 + 1, d)"
proof -
  have "0 \<le> k mod 12" "k mod 12 < 12" by simp_all
  with assms have "valid_date (k div 12, k mod 12 + 1, d)" by (simp add: valid_date_def month_len_def)
  moreover have "month_first k + d - 1 = days_from_civil (k div 12) (k mod 12 + 1) d"
    unfolding month_first_def using days_from_civil_day [of "k div 12" "k mod 12 + 1" d] by linarith
  ultimately show ?thesis by (simp add: days_civil)
qed

lemma add_months_first:
  assumes "civil_from_days z = (y, m, d)"
  shows "add_months z n = month_first (y * 12 + m - 1 + n) + min d (month_len (y * 12 + m - 1 + n)) - 1"
proof -
  define k where "k = y * 12 + m - 1 + n"
  then have k: "y * 12 + (m - 1) + n = k" by simp
  have "add_months z n = days_from_civil (k div 12) (k mod 12 + 1) (min d (month_len k))"
    unfolding add_months_def assms prod.case Let_def k month_len_def ..
  then show ?thesis
    unfolding k_def [symmetric] month_first_def
    using days_from_civil_day [of "k div 12" "k mod 12 + 1" "min d (month_len k)"] by linarith
qed

text \<open>The order of dates is the order of their months, then of their days.\<close>

lemma month_order:
  assumes "1 \<le> d" "d \<le> month_len k" "1 \<le> d'" "d' \<le> month_len k'" "month_first k + d \<le> month_first k' + d'"
  shows "k \<le> k'"
proof (rule ccontr)
  assume "\<not> k \<le> k'"
  then have "month_first k' + month_len k' \<le> month_first k" by (intro month_first_less) simp
  with assms show False by linarith
qed

section \<open>The duration between two local date-times\<close>

lemma months_days_parts:
  assumes c: "civil_from_days da = (y1, m1, d1)" "civil_from_days db = (y2, m2, d2)"
    and n: "0 \<le> na" "na < DAY_NS" "0 \<le> nb" "nb < DAY_NS"
    and md: "fst (months_days da na db nb) = months"
    and le: "da * DAY_NS + na \<le> db * DAY_NS + nb"
  shows "0 \<le> months \<and> add_months da months * DAY_NS + na \<le> db * DAY_NS + nb"
proof -
  define k1 k2 where "k1 = y1 * 12 + m1 - 1" and "k2 = y2 * 12 + m2 - 1"
  note a = civil_months [OF c(1), folded k1_def] and b = civil_months [OF c(2), folded k2_def]
  have am: "add_months da i = month_first (k1 + i) + min d1 (month_len (k1 + i)) - 1" for i
    using add_months_first [OF c(1), of i] by (simp add: k1_def)
  have m0: "y2 * 12 + m2 - (y1 * 12 + m1) = k2 - k1" by (simp add: k1_def k2_def)
  have months: "months = (if 0 < k2 - k1 \<and> (d2, nb) < (d1, na) then k2 - k1 - 1
      else if k2 - k1 < 0 \<and> (d1, na) < (d2, nb) then k2 - k1 + 1 else k2 - k1)"
    using md unfolding months_days_def c prod.case Let_def m0 fst_conv by simp
  have day: "x < x' \<Longrightarrow> x * DAY_NS + na < x' * DAY_NS + nb" "x < x' \<Longrightarrow> x * DAY_NS + nb < x' * DAY_NS + na" for x x'
  proof -
    assume "x < x'"
    then have "(x + 1) * DAY_NS \<le> x' * DAY_NS" by (intro mult_right_mono) (simp_all add: DAY_NS_def)
    then have "x * DAY_NS + DAY_NS \<le> x' * DAY_NS" by (simp add: distrib_right)
    with n show "x * DAY_NS + na < x' * DAY_NS + nb" "x * DAY_NS + nb < x' * DAY_NS + na" by linarith+
  qed
  have "da \<le> db" using day [of db da] le by linarith
  show ?thesis
  proof -
    have k: "k1 \<le> k2" using month_order [OF a(2,3) b(2,3)] \<open>da \<le> db\<close> a(1) b(1) by linarith
    show ?thesis
    proof (cases "0 < k2 - k1 \<and> (d2, nb) < (d1, na)")
      case True
      then have m: "months = k2 - k1 - 1" by (simp add: months)
      have "month_first (k2 - 1) + month_len (k2 - 1) \<le> month_first k2" by (rule month_first_less) simp
      then have "add_months da months < db" using b(1,2) unfolding am m by (simp add: min_def split: if_splits)
      from day(1) [OF this] True m show ?thesis by simp
    next
      case False
      then have m: "months = k2 - k1" using k by (auto simp: months)
      have dd: "k1 = k2 \<or> d1 < d2 \<or> d1 = d2 \<and> na \<le> nb" using False k by auto
      show ?thesis
      proof (cases "k1 = k2")
        case True
        then have "add_months da months = da" using a unfolding am m by simp
        with m True le show ?thesis by simp
      next
        case no: False
        then have "d1 \<le> d2" using dd by auto
        then have amd: "add_months da months = month_first k2 + d1 - 1" using b(3) unfolding am m by simp
        show ?thesis
        proof (cases "d1 < d2")
          case True
          then have "add_months da months < db" using amd b(1) by simp
          from day(1) [OF this] m k show ?thesis by simp
        next
          case False
          then have "add_months da months = db" "na \<le> nb" using amd b(1) dd no by auto
          with m k show ?thesis by simp
        qed
      qed
    qed
  qed
qed

lemma as_i64_of_id: "- (2 ^ 63) \<le> n \<Longrightarrow> n < 2 ^ 63 \<Longrightarrow> as_i64_of n = n"
  by (simp add: as_i64_of_def)

lemma total_dur_new: "- (2 ^ 63) * NS \<le> n \<Longrightarrow> n < 2 ^ 63 * NS \<Longrightarrow> total_nanos (dur_new m d n) = n"
proof -
  assume a: "- (2 ^ 63) * NS \<le> n" "n < 2 ^ 63 * NS"
  have "- (2 ^ 63) \<le> n div NS" using zdiv_mono1 [OF a(1), of NS] by (simp add: NS_def)
  moreover have "n div NS < 2 ^ 63" using a(2) by (simp add: div_less_iff_less_mult NS_def)
  ultimately show ?thesis by (simp add: total_nanos_def dur_new_def as_i64_of_id)
qed

lemma months_days_near:
  assumes "fst (months_days da na db nb) = months"
  shows "\<bar>add_months da months - db\<bar> \<le> 62"
proof -
  obtain y1 m1 d1 where c1: "civil_from_days da = (y1, m1, d1)" by (cases "civil_from_days da") auto
  obtain y2 m2 d2 where c2: "civil_from_days db = (y2, m2, d2)" by (cases "civil_from_days db") auto
  define k1 k2 where "k1 = y1 * 12 + m1 - 1" and "k2 = y2 * 12 + m2 - 1"
  note a = civil_months [OF c1, folded k1_def] and b = civil_months [OF c2, folded k2_def]
  define k where "k = k1 + months"
  have am: "add_months da months = month_first k + min d1 (month_len k) - 1"
    using add_months_first [OF c1, of months] by (simp add: k1_def k_def)
  have m0: "y2 * 12 + m2 - (y1 * 12 + m1) = k2 - k1" by (simp add: k1_def k2_def)
  have "k = k2 \<or> k = k2 - 1 \<or> k = k2 + 1"
    using assms unfolding months_days_def c1 c2 prod.case Let_def m0 fst_conv k_def by (auto split: if_splits)
  then have "\<bar>month_first k - month_first k2\<bar> \<le> 31"
    using month_first_Suc [of "k2 - 1"] month_first_Suc [of k2] month_len_bounds [of "k2 - 1"] month_len_bounds [of k2] by auto
  then show ?thesis using am a(2) b(1-3) month_len_bounds [of k] month_len_bounds [of k2] by (simp add: min_def split: if_splits)
qed

lemma sdiv_rest:
  fixes x k :: int
  assumes "0 < k"
  shows "0 \<le> x \<Longrightarrow> 0 \<le> x sdiv k \<and> 0 \<le> x - x sdiv k * k \<and> x - x sdiv k * k < k"
    "\<bar>x - x sdiv k * k\<bar> < k" "\<bar>x sdiv k\<bar> * k \<le> \<bar>x\<bar>"
proof -
  have e: "x - x sdiv k * k = sgn x * (\<bar>x\<bar> mod k)" "x sdiv k = sgn x * (\<bar>x\<bar> div k)"
    using assms minus_div_mult_eq_mod [of "\<bar>x\<bar>" k] by (auto simp: signed_divide_int_def sgn_if abs_if)
  have m: "0 \<le> \<bar>x\<bar> mod k" "\<bar>x\<bar> mod k < k" "0 \<le> \<bar>x\<bar> div k" using assms by (simp_all add: pos_imp_zdiv_nonneg_iff)
  show "0 \<le> x \<Longrightarrow> 0 \<le> x sdiv k \<and> 0 \<le> x - x sdiv k * k \<and> x - x sdiv k * k < k"
    unfolding e(1) unfolding e(2) using m by (auto simp: sgn_if)
  show "\<bar>x - x sdiv k * k\<bar> < k" unfolding e(1) using m by (auto simp: sgn_if)
  have "\<bar>x\<bar> div k * k \<le> \<bar>x\<bar>" using minus_div_mult_eq_mod [of "\<bar>x\<bar>" k] m(1) by linarith
  then show "\<bar>x sdiv k\<bar> * k \<le> \<bar>x\<bar>" unfolding e using m by (auto simp: sgn_if abs_mult)
qed

lemma between_local_parts:
  assumes n: "0 \<le> na" "na < DAY_NS" "0 \<le> nb" "nb < DAY_NS" and d: "d = between_local ''between'' da na db nb"
  shows "(add_months da (d_months d) + d_days d) * DAY_NS + na + total_nanos d = db * DAY_NS + nb" "\<bar>total_nanos d\<bar> < DAY_NS"
    "da * DAY_NS + na \<le> db * DAY_NS + nb \<Longrightarrow> 0 \<le> d_months d \<and> 0 \<le> d_days d \<and> 0 \<le> total_nanos d"
    "\<bar>add_months da (d_months d) - db\<bar> \<le> 62"
proof -
  obtain months days where md: "months_days da na db nb = (months, days)" by (cases "months_days da na db nb") auto
  define x where "x = db * DAY_NS + nb - (add_months da months * DAY_NS + na)"
  have near: "\<bar>add_months da months - db\<bar> \<le> 62" using months_days_near [of da na db nb months] md by simp
  have "x = (db - add_months da months) * DAY_NS + (nb - na)" by (simp add: x_def algebra_simps)
  moreover have "\<bar>(db - add_months da months) * DAY_NS\<bar> \<le> 62 * DAY_NS"
    unfolding abs_mult using near by (intro mult_mono) (simp_all add: DAY_NS_def)
  ultimately have xb: "\<bar>x\<bar> < 63 * DAY_NS" using n by linarith
  have pos: "0 < DAY_NS" by (simp add: DAY_NS_def)
  have "\<bar>x sdiv DAY_NS\<bar> * DAY_NS < 63 * DAY_NS" using sdiv_rest(3) [OF pos, of x] xb by linarith
  then have "\<bar>x sdiv DAY_NS\<bar> < 63" using pos by simp
  then have "- (2 ^ 63) \<le> x sdiv DAY_NS" "x sdiv DAY_NS < 2 ^ 63" by simp_all
  then have "as_i64_of (x sdiv DAY_NS) = x sdiv DAY_NS" by (rule as_i64_of_id)
  then have days: "days = x sdiv DAY_NS" using md by (auto simp: months_days_def x_def Let_def split: prod.splits)
  define r where "r = x - x sdiv DAY_NS * DAY_NS"
  have dd: "d = dur_new months days r"
    unfolding d between_local_def md by (simp add: days r_def x_def algebra_simps)
  have rb: "\<bar>r\<bar> < DAY_NS" unfolding r_def by (rule sdiv_rest(2) [OF pos])
  then have r: "total_nanos d = r" unfolding dd by (intro total_dur_new) (simp_all add: DAY_NS_def NS_def)
  have c: "d_months d = months" "d_days d = days" by (simp_all add: dd dur_new_def)
  show "\<bar>total_nanos d\<bar> < DAY_NS" "\<bar>add_months da (d_months d) - db\<bar> \<le> 62" using r rb c near by simp_all
  show "(add_months da (d_months d) + d_days d) * DAY_NS + na + total_nanos d = db * DAY_NS + nb"
    unfolding r c days r_def by (simp add: x_def algebra_simps)
  show "0 \<le> d_months d \<and> 0 \<le> d_days d \<and> 0 \<le> total_nanos d" if le: "da * DAY_NS + na \<le> db * DAY_NS + nb"
  proof -
    obtain y1 m1 d1 where c1: "civil_from_days da = (y1, m1, d1)" by (cases "civil_from_days da") auto
    obtain y2 m2 d2 where c2: "civil_from_days db = (y2, m2, d2)" by (cases "civil_from_days db") auto
    have "0 \<le> months \<and> add_months da months * DAY_NS + na \<le> db * DAY_NS + nb"
      by (rule months_days_parts [OF c1 c2 n _ le]) (simp add: md)
    then have "0 \<le> months" "0 \<le> x" by (simp_all add: x_def)
    then show ?thesis unfolding c r days r_def using sdiv_rest(1) [OF pos, of x] by simp
  qed
qed

lemma add_between_local:
  assumes "0 \<le> na" "na < DAY_NS" "0 \<le> nb" "nb < DAY_NS" "i64_range db"
  shows "add_duration tz (TLocalDateTime da na) (between_local ''between'' da na db nb) 1 = Inr (TLocalDateTime db nb)"
proof -
  have "(db * DAY_NS + nb) div DAY_NS = db" "(db * DAY_NS + nb) mod DAY_NS = nb"
    using assms(3,4) by simp_all
  moreover have "as_i64_of db = db" "as_i64_of nb = nb"
    using assms(3-5) by (auto intro!: as_i64_of_id simp: i64_range_def DAY_NS_def NS_def)
  ultimately show ?thesis
    using between_local_parts(1) [OF assms(1-4) refl, of da db] by (simp add: add_duration_def Let_def)
qed

lemma add_between_date: "add_duration tz (TDate da) (between_local ''between'' da 0 db 0) 1 = Inr (TDate db)"
proof -
  define d where "d = between_local ''between'' da 0 db 0"
  have pos: "(0 :: int) < DAY_NS" by (simp add: DAY_NS_def)
  note p = between_local_parts [OF _ pos _ pos d_def, simplified]
  have "total_nanos d = (db - (add_months da (d_months d) + d_days d)) * DAY_NS" using p(1) by (simp add: algebra_simps)
  moreover from this p(2) have "\<bar>db - (add_months da (d_months d) + d_days d)\<bar> * DAY_NS < 1 * DAY_NS" by (simp add: abs_mult abs_of_pos [OF pos])
  then have "db - (add_months da (d_months d) + d_days d) = 0" using pos by (simp only: mult_less_cancel_right_pos)
  ultimately show ?thesis unfolding d_def [symmetric] by (simp add: add_duration_def as_i64_of_def)
qed


text \<open>
  From the other side the parts can have different signs: from 31 March, 10:00 back to 28 February, 12:00 the code
  counts a whole month, lands two hours too early and adds them, where Java's \<^verbatim>\<open>until\<close> counts no month.
\<close>

lemma between_mixed_signs:
  "between_dur tz ''between'' (TLocalDateTime (days_from_civil 2015 3 31) (10 * 3600 * NS)) (TLocalDateTime (days_from_civil 2015 2 28) (12 * 3600 * NS))
    = Inr (dur_new (- 1) 0 (2 * 3600 * NS))"
proof -
  have "between_local ''between'' (days_from_civil 2015 3 31) (10 * 3600 * NS) (days_from_civil 2015 2 28) (12 * 3600 * NS)
      = dur_new (- 1) 0 (2 * 3600 * NS)" by code_simp
  then show ?thesis by (simp add: between_dur_def has_date_def)
qed


section \<open>Truncation\<close>

text \<open>A unit of the calendar cuts the days into intervals, numbered by \<open>index\<close> and starting at \<open>start\<close>.\<close>

locale calendar_unit =
  fixes index :: "int \<Rightarrow> int" and start :: "int \<Rightarrow> int"
  assumes start_step: "start i < start (i + 1)"
    and start_index: "start (index d) \<le> d"
    and index_next: "d < start (index d + 1)"
begin

lemma start_mono: "i \<le> j \<Longrightarrow> start i \<le> start j"
proof (induction j rule: int_ge_induct)
  case (step j)
  then show ?case using start_step [of j] by simp
qed simp

lemma index_unique: "start i \<le> d \<Longrightarrow> d < start (i + 1) \<Longrightarrow> index d = i"
  using start_mono [of "index d + 1" i] start_mono [of "i + 1" "index d"] start_index [of d] index_next [of d]
  by (cases "index d" i rule: linorder_cases) auto

lemma index_mono: "d \<le> e \<Longrightarrow> index d \<le> index e"
  using start_mono [of "index e + 1" "index d"] start_index [of d] index_next [of e] by linarith

lemma floor_idem: "start (index (start (index d))) = start (index d)"
  using index_unique [of "index d" "start (index d)"] start_step by simp

lemma floor_mono: "d \<le> e \<Longrightarrow> start (index d) \<le> start (index e)"
  by (intro start_mono index_mono)

end

definition month_of :: "int \<Rightarrow> int" where
  "month_of z = (case civil_from_days z of (y, m, _) \<Rightarrow> y * 12 + m - 1)"

lemma month_of_bounds: "month_first (month_of z) \<le> z" "z < month_first (month_of z + 1)"
proof -
  obtain y m d where c: "civil_from_days z = (y, m, d)" by (cases "civil_from_days z") auto
  have mo: "month_of z = y * 12 + m - 1" by (simp add: month_of_def c)
  show "month_first (month_of z) \<le> z" "z < month_first (month_of z + 1)"
    using civil_months [OF c] month_first_Suc [of "y * 12 + m - 1"] unfolding mo by linarith+
qed

lemma month_first_mono: "j \<le> k \<Longrightarrow> month_first j \<le> month_first k"
  using month_first_less [of j k] month_len_bounds [of j] by (cases "j = k") auto

lemma months_unit: "0 < N \<Longrightarrow> calendar_unit (\<lambda>d. month_of d div N) (\<lambda>i. month_first (i * N))"
proof
  fix i d :: int
  assume N: "0 < N"
  then have "i * N < (i + 1) * N" by simp
  then show "month_first (i * N) < month_first ((i + 1) * N)"
    using month_first_less [of "i * N" "(i + 1) * N"] month_len_bounds [of "i * N"] by linarith
  have m: "month_of d = month_of d div N * N + month_of d mod N" "0 \<le> month_of d mod N" "month_of d mod N < N" using N by simp_all
  then have "month_of d div N * N \<le> month_of d" by linarith
  from month_first_mono [OF this] month_of_bounds [of d] show "month_first (month_of d div N * N) \<le> d" by linarith
  have "month_of d + 1 \<le> (month_of d div N + 1) * N" using m unfolding distrib_right by linarith
  from month_first_mono [OF this] month_of_bounds [of d] show "d < month_first ((month_of d div N + 1) * N)" by linarith
qed

interpretation month_unit: calendar_unit month_of month_first
  using months_unit [of 1] by simp

interpretation quarter_unit: calendar_unit "\<lambda>d. month_of d div 3" "\<lambda>i. month_first (i * 3)"
  by (rule months_unit) simp

interpretation year_unit: calendar_unit "\<lambda>d. month_of d div 12" "\<lambda>i. month_first (i * 12)"
  by (rule months_unit) simp

interpretation decade_unit: calendar_unit "\<lambda>d. month_of d div 120" "\<lambda>i. month_first (i * 120)"
  by (rule months_unit) simp

interpretation century_unit: calendar_unit "\<lambda>d. month_of d div 1200" "\<lambda>i. month_first (i * 1200)"
  by (rule months_unit) simp

interpretation millennium_unit: calendar_unit "\<lambda>d. month_of d div 12000" "\<lambda>i. month_first (i * 12000)"
  by (rule months_unit) simp

interpretation week_unit: calendar_unit "\<lambda>d. (d + 3) div 7" "\<lambda>i. 7 * i - 3"
proof
  fix d :: int
  define q r where "q = (d + 3) div 7" and "r = (d + 3) mod 7"
  have d: "d = 7 * q + r - 3" unfolding q_def r_def by (simp add: mult_div_mod_eq)
  have r: "0 \<le> r" "r < 7" by (simp_all add: r_def)
  show "7 * ((d + 3) div 7) - 3 \<le> d" unfolding q_def [symmetric] using d r by linarith
  show "d < 7 * ((d + 3) div 7 + 1) - 3" unfolding q_def [symmetric] distrib_left using d r by linarith
qed simp

interpretation weekyear_unit: calendar_unit "\<lambda>d. fst (iso_week d)" week1_monday
proof
  fix wy d :: int
  have "days_from_civil (wy + 1) 1 1 - days_from_civil wy 1 1 \<ge> 365" using days_in_year [of wy] by (simp split: if_splits)
  then show step: "week1_monday wy < week1_monday (wy + 1)" for wy
    using week1_monday_near [of wy] week1_monday_near [of "wy + 1"] days_in_year [of wy] by (simp split: if_splits)
  obtain y w where i: "iso_week d = (y, w)" by (cases "iso_week d") auto
  note p = iso_week_parts [OF i] weekday_bounds [of d]
  show "week1_monday (fst (iso_week d)) \<le> d" using p by (simp add: i)
  have "0 \<le> week1_monday (y + 1) - week1_monday y" using step [of y] by simp
  then have "(week1_monday (y + 1) - week1_monday y) sdiv 7 * 7 \<le> week1_monday (y + 1) - week1_monday y"
    using sdiv_rest(1) [of 7 "week1_monday (y + 1) - week1_monday y"] by simp
  then show "d < week1_monday (fst (iso_week d) + 1)" using p by (simp add: i weeks_in_year_def)
qed

text \<open>The truncation of a day is the start of its unit.\<close>

lemma civil_first: "days_from_civil y 1 1 = month_first (y * 12)"
  by (simp add: month_first_def)

lemma month_of_civil: "civil_from_days z = (y, m, d) \<Longrightarrow> month_of z = y * 12 + m - 1"
  by (simp add: month_of_def)

lemma year_div: "civil_from_days z = (y, m, d) \<Longrightarrow> month_of z div (12 * k) = y div k" if "0 < k"
proof -
  assume c: "civil_from_days z = (y, m, d)"
  have "month_of z div 12 = y" using civil_months(4) [OF c] month_of_civil [OF c] by simp
  then show ?thesis using zdiv_zmult2_eq [of k "month_of z" 12] that by simp
qed

lemma truncate_days_start:
  "truncate_days ''millennium'' z = month_first (month_of z div 12000 * 12000)"
  "truncate_days ''century'' z = month_first (month_of z div 1200 * 1200)"
  "truncate_days ''decade'' z = month_first (month_of z div 120 * 120)"
  "truncate_days ''year'' z = month_first (month_of z div 12 * 12)"
  "truncate_days ''quarter'' z = month_first (month_of z div 3 * 3)"
  "truncate_days ''month'' z = month_first (month_of z)"
  "truncate_days ''week'' z = 7 * ((z + 3) div 7) - 3"
  "truncate_days ''weekyear'' z = week1_monday (fst (iso_week z))"
proof -
  obtain y m d where c: "civil_from_days z = (y, m, d)" by (cases "civil_from_days z") auto
  note y = year_div [OF _ c] and cm = civil_months [OF c]
  have m: "1 \<le> m" "m \<le> 12" using civil_valid [of z] by (simp_all add: c valid_date_def)
  show "truncate_days ''millennium'' z = month_first (month_of z div 12000 * 12000)"
    using y [of 1000] by (simp add: truncate_days_def c civil_first mult.assoc)
  show "truncate_days ''century'' z = month_first (month_of z div 1200 * 1200)"
    using y [of 100] by (simp add: truncate_days_def c civil_first mult.assoc)
  show "truncate_days ''decade'' z = month_first (month_of z div 120 * 120)"
    using y [of 10] by (simp add: truncate_days_def c civil_first mult.assoc)
  show "truncate_days ''year'' z = month_first (month_of z div 12 * 12)"
    using y [of 1] by (simp add: truncate_days_def c civil_first)
  show "truncate_days ''month'' z = month_first (month_of z)"
    using cm(4,5) by (simp add: truncate_days_def c month_of_def month_first_def)
  show "truncate_days ''quarter'' z = month_first (month_of z div 3 * 3)"
  proof -
    define q where "q = (m - 1) div 3"
    have q: "0 \<le> q" "q \<le> 3" "q * 3 \<le> m - 1" "m - 1 < q * 3 + 3" using m unfolding q_def by auto
    have "month_of z = 3 * (y * 4 + q) + (m - 1 - q * 3)" by (simp add: month_of_civil [OF c])
    then have a: "month_of z div 3 = y * 4 + q" using int_div_pos_eq [of "month_of z" 3 "y * 4 + q" "m - 1 - q * 3"] q by simp
    have b: "(month_of z div 3 * 3) div 12 = y" "(month_of z div 3 * 3) mod 12 = q * 3"
      using int_div_pos_eq [of "month_of z div 3 * 3" 12 y "q * 3"] int_mod_pos_eq [of "month_of z div 3 * 3" 12 y "q * 3"] q
      by (simp_all add: a)
    have "(m - 1) sdiv 3 = q" using m by (simp add: sdiv_nonneg q_def)
    then have "truncate_days ''quarter'' z = days_from_civil y (q * 3 + 1) 1"
      by (simp add: truncate_days_def c quarter_start_def)
    then show ?thesis unfolding month_first_def b .
  qed
  show "truncate_days ''week'' z = 7 * ((z + 3) div 7) - 3"
    using minus_mod_eq_mult_div [of "z + 3" 7] by (simp add: truncate_days_def c weekday_def)
  show "truncate_days ''weekyear'' z = week1_monday (fst (iso_week z))"
    by (simp add: truncate_days_def c)
qed

lemma truncate_unit: "\<exists>index start. calendar_unit index start \<and> (\<forall>z. truncate_days unit z = start (index z))"
proof -
  have ex: "\<exists>index start. calendar_unit index start \<and> (\<forall>z. truncate_days u z = start (index z))"
    if "calendar_unit i s" "\<And>z. truncate_days u z = s (i z)" for u i s using that by blast
  show ?thesis
  proof (cases "unit \<in> {''millennium'', ''century'', ''decade'', ''year'', ''weekyear'', ''quarter'', ''month'', ''week''}")
    case True
    then show ?thesis
      using ex [OF millennium_unit.calendar_unit_axioms truncate_days_start(1)] ex [OF century_unit.calendar_unit_axioms truncate_days_start(2)]
        ex [OF decade_unit.calendar_unit_axioms truncate_days_start(3)] ex [OF year_unit.calendar_unit_axioms truncate_days_start(4)]
        ex [OF quarter_unit.calendar_unit_axioms truncate_days_start(5)] ex [OF month_unit.calendar_unit_axioms truncate_days_start(6)]
        ex [OF week_unit.calendar_unit_axioms truncate_days_start(7)] ex [OF weekyear_unit.calendar_unit_axioms truncate_days_start(8)]
      by - (elim insertE emptyE; hypsubst; assumption)
  next
    case False
    then have "truncate_days unit z = id (id z)" for z by (simp add: truncate_days_def split: prod.split)
    moreover have "calendar_unit id id" by unfold_locales simp_all
    ultimately show ?thesis using ex by blast
  qed
qed

lemma truncate_days_floor:
  "truncate_days unit d \<le> d" "truncate_days unit (truncate_days unit d) = truncate_days unit d"
  "d \<le> e \<Longrightarrow> truncate_days unit d \<le> truncate_days unit e"
proof -
  obtain index start where u: "calendar_unit index start" "\<And>z. truncate_days unit z = start (index z)"
    using truncate_unit by metis
  show "truncate_days unit d \<le> d" "truncate_days unit (truncate_days unit d) = truncate_days unit d"
    using calendar_unit.start_index [OF u(1)] calendar_unit.floor_idem [OF u(1)] by (simp_all add: u(2))
  show "truncate_days unit d \<le> truncate_days unit e" if "d \<le> e"
    using calendar_unit.floor_mono [OF u(1) that] by (simp add: u(2))
qed

text \<open>The time of day.\<close>

lemma truncate_nanos_floor:
  assumes "0 \<le> n" "truncate_nanos unit n = Inr k"
  shows "0 \<le> k" "k \<le> n" "truncate_nanos unit k = Inr k" "date_unit unit \<Longrightarrow> k = 0"
    and "\<not> date_unit unit \<Longrightarrow> truncate_days unit d = d"
    and "n \<le> n' \<Longrightarrow> truncate_nanos unit n' = Inr k' \<Longrightarrow> k \<le> k'"
proof -
  have div: "0 \<le> x div c * c" "x div c * c \<le> x" "x div c * c div c * c = x div c * c" "x \<le> y \<Longrightarrow> x div c * c \<le> y div c * c"
    if "0 \<le> x" "0 < c" for x y c :: int
  proof -
    show "0 \<le> x div c * c" "x div c * c div c * c = x div c * c" using that by (simp_all add: pos_imp_zdiv_nonneg_iff)
    show "x div c * c \<le> x" using minus_div_mult_eq_mod [of x c] pos_mod_sign [OF that(2), of x] by linarith
    show "x \<le> y \<Longrightarrow> x div c * c \<le> y div c * c" using that zdiv_mono1 [of x y c] by (simp add: mult_right_mono)
  qed
  define c where "c = (if unit = ''hour'' then 3600 * NS else if unit = ''minute'' then 60 * NS else if unit = ''second'' then NS
      else if unit = ''millisecond'' then 1000000 else if unit = ''microsecond'' then 1000 else 0)"
  have t: "truncate_nanos unit x = (if c \<noteq> 0 then Inr (x div c * c) else if date_unit unit then Inr 0 else rt (''unknown truncation unit '' @ quoted unit))"
    if "0 \<le> x" for x using that by (simp add: truncate_nanos_def c_def sdiv_nonneg NS_def mult.assoc)
  have c: "0 \<le> c" "c \<noteq> 0 \<Longrightarrow> \<not> date_unit unit" by (auto simp: c_def date_unit_def NS_def)
  show kd: "0 \<le> k" "k \<le> n" "truncate_nanos unit k = Inr k" "date_unit unit \<Longrightarrow> k = 0"
    using assms t [of n] t [of k] div [of n c] c by (auto simp: rt_def split: if_splits)
  show "\<not> date_unit unit \<Longrightarrow> truncate_days unit d = d"
    by (simp add: truncate_days_def date_unit_def split: prod.split)
  show "k \<le> k'" if "n \<le> n'" "truncate_nanos unit n' = Inr k'"
    using assms that t [of n] t [of n'] div(4) [of n c n'] c by (auto simp: rt_def split: if_splits)
qed

lemma truncated_local:
  "truncated tz KLocalDateTime unit (TLocalDateTime d n) = Inr t \<longleftrightarrow>
     (\<exists>k. truncate_nanos (lowercase unit) n = Inr k \<and> t = TLocalDateTime (truncate_days (lowercase unit) d) k)"
  by (cases "truncate_nanos (lowercase unit) n") (auto simp: truncated_def Let_def)

lemma local_not_greater:
  "t_compare (TLocalDateTime d n) (TLocalDateTime d' n') \<noteq> Some Greater \<longleftrightarrow> d < d' \<or> d = d' \<and> n \<le> n'"
  by (auto simp: then_ordering_def compare_of_def)



section \<open>The statement clock\<close>

text \<open>The reads of one statement, each with what the system clock would answer.\<close>

fun clock_reads :: "(string + int) list \<Rightarrow> int option \<Rightarrow> (cypher_error + int) list" where
  "clock_reads [] clock = []"
| "clock_reads (sys # rest) clock =
     (case read_clock sys clock of
        Inl e \<Rightarrow> Inl e # clock_reads rest clock
      | Inr (i, clock') \<Rightarrow> Inr i # clock_reads rest clock')"

lemma clock_fixed: "clock_reads sys (Some i) = replicate (length sys) (Inr i)"
  by (induction sys) (simp_all add: read_clock_def)

lemma clock_one_instant: "Inr i \<in> set (clock_reads sys (reset_clock c)) \<Longrightarrow> Inr j \<in> set (clock_reads sys (reset_clock c)) \<Longrightarrow> i = j"
proof (induction sys)
  case (Cons s sys)
  then show ?case by (cases s) (auto simp: reset_clock_def read_clock_def clock_fixed rt_def)
qed (simp add: reset_clock_def)

end
