(* ===== verification/Cypher_Order.thy ===== *)
theory Cypher_Order
  imports Cypher_Temporal_Ops Float_Ints
begin

text \<open>
  Equality, comparison, order and grouping of Cypher values, their literals, their JSON and their text
  (\<^verbatim>\<open>value.rs\<close>). The texts of temporal values are the ones the code rendered, so their parser, the parameter \<open>tz\<close> of
  which is the time zone database, does not panic on them. Serialising and parsing JSON is \<^verbatim>\<open>serde_json\<close>'s: two
  fields of \<open>sj_ext\<close>, and making a literal of a float \<^verbatim>\<open>oxrdf\<close>'s, its third.
\<close>

section \<open>Equality\<close>

fun cypher_eq :: "tz_ext \<Rightarrow> cy_value \<Rightarrow> cy_value \<Rightarrow> bool option"
  and eq_values :: "tz_ext \<Rightarrow> bool \<Rightarrow> cy_value list \<Rightarrow> cy_value list \<Rightarrow> bool option"
  and eq_entries :: "tz_ext \<Rightarrow> bool \<Rightarrow> (string \<times> cy_value) list \<Rightarrow> (string \<times> cy_value) list \<Rightarrow> bool option" where
  "cypher_eq tz x y =
     (case (x, y) of
        (VNull, _) \<Rightarrow> None
      | (_, VNull) \<Rightarrow> None
      | (VInt a, VInt b) \<Rightarrow> Some (a = b)
      | (VInt a, VFloat b) \<Rightarrow> Some (f64_eq (f64_of_int a) b)
      | (VFloat a, VInt b) \<Rightarrow> Some (f64_eq a (f64_of_int b))
      | (VFloat a, VFloat b) \<Rightarrow> Some (f64_eq a b)
      | (VBool a, VBool b) \<Rightarrow> Some (a = b)
      | (VString a, VString b) \<Rightarrow> Some (a = b)
      | (VTemporal k1 a, VTemporal k2 b) \<Rightarrow>
          (case (t_parse tz k1 a, t_parse tz k2 b) of (Inr t, Inr u) \<Rightarrow> t_equal t u | _ \<Rightarrow> Some (k1 = k2 \<and> a = b))
      | (VList a, VList b) \<Rightarrow> (if length a \<noteq> length b then Some False else eq_values tz False a b)
      | (VMap a, VMap b) \<Rightarrow>
          (if length a \<noteq> length b \<or> bt_keys a \<noteq> bt_keys b then Some False else eq_entries tz False a b)
      | (VNode a, VNode b) \<Rightarrow> Some (cn_id a = cn_id b)
      | (VRel a, VRel b) \<Rightarrow> Some (same_rel a b)
      | (VPath ns rs, VPath ns' rs') \<Rightarrow>
          Some (length ns = length ns' \<and> list_all2 (\<lambda>n n'. cn_id n = cn_id n') ns ns'
            \<and> length rs = length rs' \<and> list_all2 same_rel rs rs')
      | _ \<Rightarrow> Some False)"
| "eq_values tz unknown (x # xs) (y # ys) =
     (case cypher_eq tz x y of
        Some False \<Rightarrow> Some False
      | None \<Rightarrow> eq_values tz True xs ys
      | Some True \<Rightarrow> eq_values tz unknown xs ys)"
| "eq_values tz unknown _ _ = (if unknown then None else Some True)"
| "eq_entries tz unknown ((_, x) # xs) ((_, y) # ys) =
     (case cypher_eq tz x y of
        Some False \<Rightarrow> Some False
      | None \<Rightarrow> eq_entries tz True xs ys
      | Some True \<Rightarrow> eq_entries tz unknown xs ys)"
| "eq_entries tz unknown _ _ = (if unknown then None else Some True)"

declare cypher_eq.simps [simp del]

section \<open>Comparison\<close>

fun cypher_cmp :: "tz_ext \<Rightarrow> cy_value \<Rightarrow> cy_value \<Rightarrow> ordering option"
  and cmp_values :: "tz_ext \<Rightarrow> cy_value list \<Rightarrow> cy_value list \<Rightarrow> ordering \<Rightarrow> ordering option" where
  "cypher_cmp tz x y =
     (case (x, y) of
        (VInt a, VInt b) \<Rightarrow> Some (compare_of a b)
      | (VInt a, VFloat b) \<Rightarrow> f64_partial_cmp (f64_of_int a) b
      | (VFloat a, VInt b) \<Rightarrow> f64_partial_cmp a (f64_of_int b)
      | (VFloat a, VFloat b) \<Rightarrow> f64_partial_cmp a b
      | (VString a, VString b) \<Rightarrow> Some (compare_of a b)
      | (VBool a, VBool b) \<Rightarrow> Some (compare_of a b)
      | (VTemporal k1 a, VTemporal k2 b) \<Rightarrow> 
          (case (t_parse tz k1 a, t_parse tz k2 b) of (Inr t, Inr u) \<Rightarrow> t_compare t u | _ \<Rightarrow> None)
      | (VList a, VList b) \<Rightarrow> cmp_values tz a b (compare_of (length a) (length b))
      | _ \<Rightarrow> None)"
| "cmp_values tz (x # xs) (y # ys) lens =
     (case cypher_cmp tz x y of
        None \<Rightarrow> None
      | Some Equal \<Rightarrow> cmp_values tz xs ys lens
      | Some c \<Rightarrow> Some c)"
| "cmp_values tz _ _ lens = Some lens"

declare cypher_cmp.simps [simp del]

section \<open>The order of \<open>ORDER BY\<close>\<close>

fun order_rank :: "cy_value \<Rightarrow> nat" where
  "order_rank (VMap _) = 0"
| "order_rank (VNode _) = 1"
| "order_rank (VRel _) = 2"
| "order_rank (VList _) = 3"
| "order_rank (VPath _ _) = 4"
| "order_rank (VTemporal _ _) = 5"
| "order_rank (VString _) = 6"
| "order_rank (VBool _) = 7"
| "order_rank (VInt _) = 8"
| "order_rank (VFloat _) = 8"
| "order_rank VNull = 9"

definition order_floats :: "f64 \<Rightarrow> f64 \<Rightarrow> ordering" where
  "order_floats a b =
     (if f64_is_nan a then (if f64_is_nan b then Equal else Greater)
      else if f64_is_nan b then Less
      else case f64_partial_cmp a b of Some c \<Rightarrow> c | None \<Rightarrow> Equal)"

definition as_f64_or_zero :: "cy_value \<Rightarrow> f64" where
  "as_f64_or_zero v = (case cy_as_f64 v of Some f \<Rightarrow> f | None \<Rightarrow> f64_zero)"

fun is_number :: "cy_value \<Rightarrow> bool" where
  "is_number (VInt _) = True" | "is_number (VFloat _) = True" | "is_number _ = False"

fun cy_order :: "tz_ext \<Rightarrow> cy_value \<Rightarrow> cy_value \<Rightarrow> ordering"
  and order_values :: "tz_ext \<Rightarrow> cy_value list \<Rightarrow> cy_value list \<Rightarrow> ordering \<Rightarrow> ordering"
  and order_entries :: "tz_ext \<Rightarrow> (string \<times> cy_value) list \<Rightarrow> (string \<times> cy_value) list \<Rightarrow> ordering \<Rightarrow> ordering" where
  "cy_order tz x y =
     (if order_rank x \<noteq> order_rank y then compare_of (order_rank x) (order_rank y)
      else if is_number x \<and> is_number y then order_floats (as_f64_or_zero x) (as_f64_or_zero y)
      else case (x, y) of
        (VList a, VList b) \<Rightarrow> order_values tz a b (compare_of (length a) (length b))
      | (VMap a, VMap b) \<Rightarrow> order_entries tz a b (compare_of (length a) (length b))
      | (VNode a, VNode b) \<Rightarrow> compare_of (subject_str (cn_id a)) (subject_str (cn_id b))
      | (VRel a, VRel b) \<Rightarrow> compare_of (rel_element_id a) (rel_element_id b)
      | (VPath _ a, VPath _ b) \<Rightarrow> compare_of (length a) (length b)
      | _ \<Rightarrow> (case cypher_cmp tz x y of Some c \<Rightarrow> c | None \<Rightarrow> Equal))"
| "order_values tz (x # xs) (y # ys) lens =
     (case cy_order tz x y of Equal \<Rightarrow> order_values tz xs ys lens | c \<Rightarrow> c)"
| "order_values tz _ _ lens = lens"
| "order_entries tz ((k, v) # xs) ((k', v') # ys) lens =
     (case then_ordering (compare_of k k') (cy_order tz v v') of Equal \<Rightarrow> order_entries tz xs ys lens | c \<Rightarrow> c)"
| "order_entries tz _ _ lens = lens"

declare cy_order.simps [simp del]

section \<open>Grouping\<close>

datatype gkey =
    GkNull
  | GkBool bool
  | GkInt int
  | GkFloat f64
  | GkNaN
  | GkStr string
  | GkTemporal temporal_kind string
  | GkList "gkey list"
  | GkMap "(string \<times> gkey) list"
  | GkEntity string

fun group_key :: "cy_value \<Rightarrow> gkey" where
  "group_key VNull = GkNull"
| "group_key (VBool b) = GkBool b"
| "group_key (VInt i) = GkInt i"
| "group_key (VFloat f) =
     (if f64_is_integral f \<and> f64_abs_lt f 9000000000000000 then GkInt (f64_as_int 64 f)
      else if f64_is_nan f then GkNaN else GkFloat f)"
| "group_key (VString s) = GkStr s"
| "group_key (VTemporal k s) = GkTemporal k s"
| "group_key (VList items) = GkList (map group_key items)"
| "group_key (VMap m) = GkMap (map (\<lambda>(k, v). (k, group_key v)) m)"
| "group_key (VNode n) = GkEntity (subject_str (cn_id n))"
| "group_key (VRel r) = GkEntity (rel_element_id r)"
| "group_key (VPath ns rs) =
     GkList (map (\<lambda>n. GkEntity (subject_str (cn_id n))) ns @ map (\<lambda>r. GkEntity (rel_element_id r)) rs)"

section \<open>JSON\<close>

text \<open>A \<^verbatim>\<open>serde_json\<close> value; its numbers are integers or floats. Objects have the keys in order.\<close>

datatype sj_value =
    SjNull
  | SjBool bool
  | SjInt int
  | SjFloat f64
  | SjString string
  | SjArray "sj_value list"
  | SjObject "(string \<times> sj_value) list"

record sj_ext =
  sj_text :: "sj_value \<Rightarrow> string"
  sj_parse :: "string \<Rightarrow> sj_value option"
  f64_literal :: "f64 \<Rightarrow> literal"

lemma map_result_cong [fundef_cong]: "xs = ys \<Longrightarrow> (\<And>x. x \<in> set ys \<Longrightarrow> f x = g x) \<Longrightarrow> map_result f xs = map_result g ys"
  by (induction ys arbitrary: xs) auto

fun to_json_storable :: "cy_value \<Rightarrow> cypher_error + sj_value" where
  "to_json_storable VNull = Inr SjNull"
| "to_json_storable (VBool b) = Inr (SjBool b)"
| "to_json_storable (VInt i) = Inr (SjInt i)"
| "to_json_storable (VFloat f) = Inr (if f64_is_finite f then SjFloat f else SjNull)"
| "to_json_storable (VString s) = Inr (SjString s)"
| "to_json_storable (VTemporal _ s) = Inr (SjString s)"
| "to_json_storable (VList items) = rbind (map_result to_json_storable items) (\<lambda>js. Inr (SjArray js))"
| "to_json_storable (VMap m) =
     rbind (map_result (\<lambda>(k, v). rbind (to_json_storable v) (\<lambda>j. Inr (k, j))) m) (\<lambda>o'. Inr (SjObject o'))"
| "to_json_storable v = rt (''a '' @ type_name v @ '' cannot be stored in a property'')"

text \<open>The numbers \<^verbatim>\<open>serde_json\<close> reads beyond \<^verbatim>\<open>i64\<close> are unsigned or floats, and become floats.\<close>

fun from_json :: "sj_value \<Rightarrow> cy_value" where
  "from_json SjNull = VNull"
| "from_json (SjBool b) = VBool b"
| "from_json (SjInt i) = (if i64_range i then VInt i else VFloat (f64_of_int i))"
| "from_json (SjFloat f) = VFloat f"
| "from_json (SjString s) = VString s"
| "from_json (SjArray a) = VList (map from_json a)"
| "from_json (SjObject o') = VMap (fold (\<lambda>(k, v). bt_insert k v) (map (\<lambda>(k, j). (k, from_json j)) o') [])"

lemma size_props [termination_simp]:
  "e \<in> set (cn_props n) \<Longrightarrow> n \<in> set ns \<Longrightarrow> size (snd e) < Suc (size_list size ns + m)"
  "e \<in> set (cr_props r) \<Longrightarrow> r \<in> set (take j rs) \<Longrightarrow> size (snd e) < Suc (m + size_list size rs)"
  "e \<in> set (cr_props r) \<Longrightarrow> r \<in> set rs \<Longrightarrow> size (snd e) < Suc (m + size_list size rs)"
  "e \<in> set (cn_props n) \<Longrightarrow> size (snd e) < Suc (size n)"
  "e \<in> set (cr_props r) \<Longrightarrow> size (snd e) < Suc (size r)"
proof -
  have n: "size (snd e) < size n" if "e \<in> set (cn_props n)" for n :: cy_node
  proof -
    have "size (snd e) \<le> size_list (size_prod (\<lambda>x. 0) size) (cn_props n)"
      by (rule size_list_estimation' [OF that]) (simp add: size_prod_simp)
    then show ?thesis by (cases n) simp
  qed
  have r: "size (snd e) < size r" if "e \<in> set (cr_props r)" for r :: cy_rel
  proof -
    have "size (snd e) \<le> size_list (size_prod (\<lambda>x. 0) size) (cr_props r)"
      by (rule size_list_estimation' [OF that]) (simp add: size_prod_simp)
    then show ?thesis by (cases r) simp
  qed
  show "e \<in> set (cn_props n) \<Longrightarrow> n \<in> set ns \<Longrightarrow> size (snd e) < Suc (size_list size ns + m)"
    using n [of n] size_list_estimation' [of n ns "size n" size] by simp
  show "e \<in> set (cr_props r) \<Longrightarrow> r \<in> set (take j rs) \<Longrightarrow> size (snd e) < Suc (m + size_list size rs)"
    using r [of r] size_list_estimation' [of r rs "size r" size] in_set_takeD [of r j rs] by simp
  show "e \<in> set (cr_props r) \<Longrightarrow> r \<in> set rs \<Longrightarrow> size (snd e) < Suc (m + size_list size rs)"
    using r [of r] size_list_estimation' [of r rs "size r" size] by simp
  show "e \<in> set (cn_props n) \<Longrightarrow> size (snd e) < Suc (size n)" "e \<in> set (cr_props r) \<Longrightarrow> size (snd e) < Suc (size r)"
    using n r by (simp_all add: less_SucI)
qed

fun kind_debug :: "temporal_kind \<Rightarrow> string" where
  "kind_debug KDate = ''Date''"
| "kind_debug KDateTime = ''DateTime''"
| "kind_debug KLocalDateTime = ''LocalDateTime''"
| "kind_debug KTime = ''Time''"
| "kind_debug KLocalTime = ''LocalTime''"
| "kind_debug KDuration = ''Duration''"

definition node_json :: "cy_node \<Rightarrow> (string \<times> sj_value) list \<Rightarrow> sj_value" where
  "node_json n props =
     SjObject [(''id'', SjString (node_element_id n)), (''labels'', SjArray (map SjString (cn_labels n))),
       (''properties'', SjObject props), (''type'', SjString ''node'')]"

definition rel_json :: "cy_rel \<Rightarrow> (string \<times> sj_value) list \<Rightarrow> sj_value" where
  "rel_json r props =
     SjObject [(''end'', SjString (subject_str (cr_end r))), (''id'', SjString (rel_element_id r)), (''properties'', SjObject props),
       (''relType'', SjString (cr_type r)), (''start'', SjString (subject_str (cr_start r))), (''type'', SjString ''relationship'')]"

fun cy_to_json :: "cy_value \<Rightarrow> sj_value" where
  "cy_to_json VNull = SjNull"
| "cy_to_json (VBool b) = SjBool b"
| "cy_to_json (VInt i) = SjInt i"
| "cy_to_json (VFloat f) = (if f64_is_finite f then SjFloat f else SjString (f64_display f))"
| "cy_to_json (VString s) = SjString s"
| "cy_to_json (VTemporal k s) =
     SjObject [(''kind'', SjString (kind_debug k)), (''type'', SjString (map to_ascii_lowercase (kind_name k))),
       (''value'', SjString s)]"
| "cy_to_json (VList items) = SjArray (map cy_to_json items)"
| "cy_to_json (VMap m) = SjObject (map (\<lambda>e. (fst e, cy_to_json (snd e))) m)"
| "cy_to_json (VNode n) = node_json n (map (\<lambda>e. (fst e, cy_to_json (snd e))) (cn_props n))"
| "cy_to_json (VRel r) = rel_json r (map (\<lambda>e. (fst e, cy_to_json (snd e))) (cr_props r))"
| "cy_to_json (VPath ns rs) =
     SjObject [(''nodes'', SjArray (map (\<lambda>n. node_json n (map (\<lambda>e. (fst e, cy_to_json (snd e))) (cn_props n))) ns)),
       (''relationships'', SjArray (map (\<lambda>r. rel_json r (map (\<lambda>e. (fst e, cy_to_json (snd e))) (cr_props r))) rs)),
       (''type'', SjString ''path'')]"

section \<open>Literals\<close>

definition to_literal :: "tz_ext \<Rightarrow> sj_ext \<Rightarrow> cy_value \<Rightarrow> cypher_error + literal option" where
  "to_literal tz sj v =
     (case v of
        VNull \<Rightarrow> Inr None
      | VBool b \<Rightarrow> Inr (Some (bool_literal b))
      | VInt i \<Rightarrow> Inr (Some (int_literal i))
      | VFloat f \<Rightarrow> Inr (Some (f64_literal sj f))
      | VString s \<Rightarrow> Inr (Some (simple_literal s))
      | VTemporal k lx \<Rightarrow> rbind (t_parse tz k lx) (\<lambda>t. case t_lexical t of (l, dt) \<Rightarrow> Inr (Some (typed_literal l dt)))
      | VList items \<Rightarrow>
          if items = [] then Inr (Some (typed_literal ''[]'' RDF_JSON))
          else rbind (to_json_storable v) (\<lambda>j. Inr (Some (typed_literal (sj_text sj j) RDF_JSON)))
      | VMap _ \<Rightarrow> rbind (to_json_storable v) (\<lambda>j. Inr (Some (typed_literal (sj_text sj j) RDF_JSON)))
      | _ \<Rightarrow> rt (''a '' @ type_name v @ '' cannot be stored as a property value''))"

definition INTEGER_TYPES :: "string list" where
  "INTEGER_TYPES = map xsd [''integer'', ''long'', ''int'', ''short'', ''byte'', ''nonNegativeInteger'', ''positiveInteger'',
     ''nonPositiveInteger'', ''negativeInteger'', ''unsignedLong'', ''unsignedInt'', ''unsignedShort'', ''unsignedByte'']"

definition TEMPORAL_TYPES :: "string list" where
  "TEMPORAL_TYPES = map xsd [''date'', ''time'', ''dateTime'', ''dateTimeStamp'', ''duration'', ''dayTimeDuration'',
     ''yearMonthDuration''] @ [ZONED_DATETIME]"

definition float_or_string :: "string \<Rightarrow> string \<Rightarrow> cy_value" where
  "float_or_string t lx = (case f64_from_str t of Some f \<Rightarrow> VFloat f | None \<Rightarrow> VString lx)"

definition cy_from_literal :: "tz_ext \<Rightarrow> sj_ext \<Rightarrow> literal \<Rightarrow> cy_value" where
  "cy_from_literal tz sj l =
     (let dt = lit_datatype l; lx = lit_value l in
      if dt \<in> {xsd_string, rdf_lang_string, rdf_dir_lang_string} then VString lx
      else if dt = xsd_boolean
      then (if lx = ''true'' \<or> lx = ''1'' then VBool True else if lx = ''false'' \<or> lx = ''0'' then VBool False else VString lx)
      else if dt \<in> set INTEGER_TYPES
      then (case parse_i64 (trim lx) of Some i \<Rightarrow> VInt i | None \<Rightarrow> float_or_string (trim lx) lx)
      else if dt \<in> {xsd ''decimal'', xsd_double, xsd ''float''}
      then (let t = trim lx in
            if t = ''INF'' then VFloat (f64_inf False) else if t = ''-INF'' then VFloat (f64_inf True)
            else if t = ''NaN'' then VFloat f64_nan else float_or_string t lx)
      else if dt \<in> set TEMPORAL_TYPES
      then (case temporal_from_literal tz dt lx of Some v \<Rightarrow> v | None \<Rightarrow> VString lx)
      else if dt = RDF_JSON
      then (case sj_parse sj lx of Some j \<Rightarrow> from_json j | None \<Rightarrow> VString lx)
      else VString lx)"

section \<open>Text\<close>

definition fixed_one :: "f64 \<Rightarrow> string" where
  "fixed_one x = (if f64_sign x then ''-'' else []) @ show_int (\<bar>f64_scaled x\<bar> div F64_UNIT) @ ''.0''"

fun commas :: "string list \<Rightarrow> string" where
  "commas [] = []"
| "commas [x] = x"
| "commas (x # xs) = x @ '', '' @ commas xs"

text \<open>
  The text of a path from the texts of its nodes and relationships. \<open>None\<close> is the panic of indexing the relationships of
  a path that has too few of them for its nodes.
\<close>

fun path_text :: "(cy_node \<times> string) list \<Rightarrow> (cy_rel \<times> string) list \<Rightarrow> string option" where
  "path_text [] rs = Some []"
| "path_text (n # ns) [] = None"
| "path_text ((n, nt) # ns) ((r, rtext) # rs) =
     map_option (\<lambda>u. (if cr_start r = cn_id n then ''<-'' @ rtext @ ''-'' else ''-'' @ rtext @ ''->'') @ nt @ u) (path_text ns rs)"

definition entry_texts :: "((string \<times> cy_value) \<times> string option) list \<Rightarrow> string option" where
  "entry_texts es =
     map_option (\<lambda>ts. ''{'' @ commas ts @ ''}'') (those (map (\<lambda>((k, _), t). map_option (\<lambda>t. k @ '': '' @ t) t) es))"

definition node_text :: "cy_node \<Rightarrow> string option \<Rightarrow> string option" where
  "node_text n props =
     map_option (\<lambda>t. ''('' @ concat (map (\<lambda>l. CHR '':'' # l) (cn_labels n))
         @ (if cn_props n = [] then [] else (if cn_labels n = [] then [] else '' '') @ t) @ '')'') props"

definition rel_text :: "cy_rel \<Rightarrow> string option \<Rightarrow> string option" where
  "rel_text r props = map_option (\<lambda>t. ''[:'' @ cr_type r @ (if cr_props r = [] then [] else '' '' @ t) @ '']'') props"

fun cy_display :: "cy_value \<Rightarrow> string option" where
  "cy_display VNull = Some ''null''"
| "cy_display (VBool b) = Some (if b then ''true'' else ''false'')"
| "cy_display (VInt i) = Some (show_int i)"
| "cy_display (VFloat x) = Some (if f64_is_integral x then fixed_one x else f64_display x)"
| "cy_display (VString s) = Some (quoted s)"
| "cy_display (VTemporal _ s) = Some (quoted s)"
| "cy_display (VList items) = map_option (\<lambda>ts. ''['' @ commas ts @ '']'') (those (map cy_display items))"
| "cy_display (VMap m) = entry_texts (map (\<lambda>e. (e, cy_display (snd e))) m)"
| "cy_display (VNode n) = node_text n (entry_texts (map (\<lambda>e. (e, cy_display (snd e))) (cn_props n)))"
| "cy_display (VRel r) = rel_text r (entry_texts (map (\<lambda>e. (e, cy_display (snd e))) (cr_props r)))"
| "cy_display (VPath ns rs) =
     (case (those (map (\<lambda>n. node_text n (entry_texts (map (\<lambda>e. (e, cy_display (snd e))) (cn_props n)))) ns),
            those (map (\<lambda>r. rel_text r (entry_texts (map (\<lambda>e. (e, cy_display (snd e))) (cr_props r)))) (take (length ns - 1) rs))) of
        (Some nts, Some rts) \<Rightarrow>
          (case zip ns nts of
             [] \<Rightarrow> Some ''<>''
           | (n, nt) # rest \<Rightarrow> map_option (\<lambda>t. ''<'' @ nt @ t @ ''>'') (path_text rest (zip rs rts)))
      | _ \<Rightarrow> None)"

end
