(* ===== verification/Cypher_Order_Laws.thy ===== *)
theory Cypher_Order_Laws
  imports Cypher_Order Cypher_Stored "HOL-Library.Multiset"
begin

text \<open>
  The order of \<open>ORDER BY\<close> is a total preorder on values whose temporal values have one kind. A comparator is
  described by \<open>tri\<close>, what three comparisons have to do with each other; it is preserved by comparing
  lexicographically, which is how the code compares lists and maps.
\<close>

section \<open>Comparators\<close>

definition tri :: "ordering \<Rightarrow> ordering \<Rightarrow> ordering \<Rightarrow> bool" where
  "tri xy yz xz \<longleftrightarrow>
     (xy = Equal \<longrightarrow> xz = yz) \<and> (yz = Equal \<longrightarrow> xz = xy) \<and> (xy = yz \<longrightarrow> xz = xy)"

lemma tri_compare_of [intro]: "tri (compare_of x y) (compare_of y z) (compare_of x z)"
  by (auto simp: tri_def compare_of_def)

lemma tri_then:
  assumes "tri a b c" "a = Equal \<Longrightarrow> b = Equal \<Longrightarrow> tri a' b' c'"
  shows "tri (then_ordering a a') (then_ordering b b') (then_ordering c c')"
  using assms by (cases a; cases b) (auto simp: tri_def then_ordering_def)

lemma tri_Equal [simp]: "tri Equal Equal Equal"
  by (simp add: tri_def)

locale comparator =
  fixes compares :: "'a \<Rightarrow> bool"
    and cmp :: "'a \<Rightarrow> 'a \<Rightarrow> ordering"
  assumes cmp_swap: "compares x \<Longrightarrow> compares y \<Longrightarrow> cmp y x = reverse_ordering (cmp x y)"
    and cmp_tri: "compares x \<Longrightarrow> compares y \<Longrightarrow> compares z \<Longrightarrow> tri (cmp x y) (cmp y z) (cmp x z)"
begin

definition before :: "'a \<Rightarrow> 'a \<Rightarrow> bool" where
  "before x y \<longleftrightarrow> cmp x y \<noteq> Greater"

lemma cmp_refl: "compares x \<Longrightarrow> cmp x x = Equal"
  using cmp_swap [of x x] by (cases "cmp x x") auto

lemma before_total: "compares x \<Longrightarrow> compares y \<Longrightarrow> before x y \<or> before y x"
  using cmp_swap [of x y] by (cases "cmp x y") (auto simp: before_def)

lemma before_trans: "compares x \<Longrightarrow> compares y \<Longrightarrow> compares z \<Longrightarrow> before x y \<Longrightarrow> before y z \<Longrightarrow> before x z"
  using cmp_tri [of x y z] by (cases "cmp x y"; cases "cmp y z") (auto simp: before_def tri_def)

text \<open>Stable insertion, what a stable sort by the comparator computes.\<close>

lemma before_equal: "compares x \<Longrightarrow> compares y \<Longrightarrow> cmp x y = Equal \<longleftrightarrow> before x y \<and> before y x"
  using cmp_swap [of x y] by (cases "cmp x y") (auto simp: before_def)

end

fun insert_by :: "('a \<Rightarrow> 'a \<Rightarrow> ordering) \<Rightarrow> 'a \<Rightarrow> 'a list \<Rightarrow> 'a list" where
  "insert_by cmp x [] = [x]"
| "insert_by cmp x (y # ys) = (if cmp x y = Greater then y # insert_by cmp x ys else x # y # ys)"

text \<open>\<^verbatim>\<open>sort_by\<close>, a stable sort.\<close>

definition sort_by :: "('a \<Rightarrow> 'a \<Rightarrow> ordering) \<Rightarrow> 'a list \<Rightarrow> 'a list" where
  "sort_by cmp xs = foldr (insert_by cmp) xs []"

lemma mset_insert_by [simp]: "mset (insert_by cmp x ys) = add_mset x (mset ys)"
  by (induction ys) auto

lemma mset_sort_by [simp]: "mset (sort_by cmp xs) = mset xs"
  by (induction xs) (auto simp: sort_by_def)

lemma set_insert_by [simp]: "set (insert_by cmp x ys) = insert x (set ys)"
  by (induction ys) auto

lemma set_sort_by [simp]: "set (sort_by cmp xs) = set xs"
  by (induction xs) (auto simp: sort_by_def)

context comparator
begin

lemma insert_by_sorted:
  "compares x \<Longrightarrow> \<forall>y \<in> set ys. compares y \<Longrightarrow> sorted_wrt before ys \<Longrightarrow> sorted_wrt before (insert_by cmp x ys)"
proof (induction ys)
  case (Cons y ys)
  show ?case
  proof (cases "cmp x y = Greater")
    case True
    then have "before y x" using Cons.prems cmp_swap [of x y] by (simp add: before_def)
    then show ?thesis using Cons True by auto
  next
    case False
    then show ?thesis using Cons.prems before_trans [of x y] by (auto simp: before_def)
  qed
qed simp

lemma sort_by_sorted: "\<forall>y \<in> set xs. compares y \<Longrightarrow> sorted_wrt before (sort_by cmp xs)"
proof (induction xs)
  case (Cons x xs)
  have "sort_by cmp (x # xs) = insert_by cmp x (sort_by cmp xs)" by (simp add: sort_by_def)
  then show ?case using Cons insert_by_sorted [of x "sort_by cmp xs"] by simp
qed (simp add: sort_by_def)

text \<open>The values a value ties with keep their order.\<close>

lemma insert_by_ties:
  assumes "compares x" "\<forall>y \<in> set ys. compares y" "compares z"
  shows "filter (\<lambda>y. cmp z y = Equal) (insert_by cmp x ys) =
    (if cmp z x = Equal then x # filter (\<lambda>y. cmp z y = Equal) ys else filter (\<lambda>y. cmp z y = Equal) ys)"
  using assms(2)
proof (induction ys)
  case (Cons y ys)
  have "cmp z y \<noteq> Equal" if "cmp x y = Greater" "cmp z x = Equal"
    using cmp_tri [of z x y] that assms Cons.prems by (auto simp: tri_def)
  then show ?case using Cons by auto
qed simp

lemma sort_by_stable:
  assumes "\<forall>y \<in> set xs. compares y" "compares z"
  shows "filter (\<lambda>y. cmp z y = Equal) (sort_by cmp xs) = filter (\<lambda>y. cmp z y = Equal) xs"
  using assms(1)
proof (induction xs)
  case (Cons x xs)
  have "sort_by cmp (x # xs) = insert_by cmp x (sort_by cmp xs)" by (simp add: sort_by_def)
  then show ?case using Cons insert_by_ties [of x "sort_by cmp xs" z] assms(2) by simp
qed (simp add: sort_by_def)

end

section \<open>Comparing lexicographically\<close>

fun lex_cmp :: "('a \<Rightarrow> 'a \<Rightarrow> ordering) \<Rightarrow> 'a list \<Rightarrow> 'a list \<Rightarrow> ordering" where
  "lex_cmp c [] [] = Equal"
| "lex_cmp c [] (_ # _) = Less"
| "lex_cmp c (_ # _) [] = Greater"
| "lex_cmp c (x # xs) (y # ys) = then_ordering (c x y) (lex_cmp c xs ys)"

lemma lex_cmp_swap:
  "(\<And>x y. x \<in> set xs \<Longrightarrow> y \<in> set ys \<Longrightarrow> c y x = reverse_ordering (c x y)) \<Longrightarrow> lex_cmp c ys xs = reverse_ordering (lex_cmp c xs ys)"
  by (induction c xs ys rule: lex_cmp.induct) (auto simp: reverse_then)

lemma lex_cmp_tri:
  "(\<And>x y z. x \<in> set xs \<Longrightarrow> y \<in> set ys \<Longrightarrow> z \<in> set zs \<Longrightarrow> tri (c x y) (c y z) (c x z)) \<Longrightarrow>
   tri (lex_cmp c xs ys) (lex_cmp c ys zs) (lex_cmp c xs zs)"
proof (induction xs arbitrary: ys zs)
  case Nil
  then show ?case by (cases ys; cases zs) (auto simp: tri_def)
next
  case (Cons x xs)
  show ?case
  proof (cases "ys = [] \<or> zs = []")
    case True
    then show ?thesis
      by (cases ys; cases zs) (auto simp: tri_def then_ordering_def)
  next
    case False
    then obtain y ys' z zs' where s: "ys = y # ys'" "zs = z # zs'" by (metis neq_Nil_conv)
    have "tri (c x y) (c y z) (c x z)" using Cons.prems s by simp
    moreover have "tri (lex_cmp c xs ys') (lex_cmp c ys' zs') (lex_cmp c xs zs')" using Cons s by simp
    ultimately show ?thesis unfolding s by (simp add: tri_then)
  qed
qed

section \<open>The order of values\<close>

lemma order_values_lex: "order_values tz xs ys (compare_of (length xs) (length ys)) = lex_cmp (cy_order tz) xs ys"
proof (induction "cy_order tz" xs ys rule: lex_cmp.induct)
  case (4 x xs y ys)
  have "compare_of (length (x # xs)) (length (y # ys)) = compare_of (length xs) (length ys)" by (simp add: compare_of_def)
  then show ?case using 4 by (cases "cy_order tz x y") (auto simp: then_ordering_def)
qed (auto simp: compare_of_def)

definition entry_order :: "tz_ext \<Rightarrow> string \<times> cy_value \<Rightarrow> string \<times> cy_value \<Rightarrow> ordering" where
  "entry_order tz e f = then_ordering (compare_of (fst e) (fst f)) (cy_order tz (snd e) (snd f))"

lemma order_entries_lex: "order_entries tz xs ys (compare_of (length xs) (length ys)) = lex_cmp (entry_order tz) xs ys"
proof (induction "entry_order tz" xs ys rule: lex_cmp.induct)
  case (4 x xs y ys)
  have "compare_of (length (x # xs)) (length (y # ys)) = compare_of (length xs) (length ys)" by (simp add: compare_of_def)
  then show ?case using 4
    by (cases x; cases y; cases "entry_order tz x y") (auto simp: then_ordering_def entry_order_def)
qed (auto simp: compare_of_def)

text \<open>A float by the place it is sorted at.\<close>

definition float_place :: "f64 \<Rightarrow> bool \<times> int" where
  "float_place x = (f64_is_nan x, if f64_is_nan x then 0 else f64_key x)"

lemma order_floats_place: "order_floats x y = compare_of (float_place x) (float_place y)"
  by (auto simp: order_floats_def float_place_def f64_partial_cmp_def compare_of_def)

text \<open>A temporal value by the place it is sorted at among those of its kind; durations are not ordered.\<close>

fun temporal_place :: "temporal \<Rightarrow> int \<times> int" where
  "temporal_place (TDate d) = (d, 0)"
| "temporal_place (TLocalTime n) = (n, 0)"
| "temporal_place (TTime n o') = (n - o' * NS, - o')"
| "temporal_place (TLocalDateTime d n) = (d, n)"
| "temporal_place (TDateTime d n z o') = (d * DAY_NS + n - o' * NS, 0)"
| "temporal_place (TDuration _) = (0, 0)"

lemma t_compare_place:
  "t_kind x = t_kind y \<Longrightarrow>
   (case t_compare x y of Some c \<Rightarrow> c | None \<Rightarrow> Equal) = compare_of (temporal_place x) (temporal_place y)"
  by (cases x; cases y) (auto simp: compare_of_def then_ordering_def)

lemma t_parse_kind: "t_parse tz k s = Inr t \<Longrightarrow> t_kind t = k"
proof -
  have z: "zoned tz d n z None = Inr t \<Longrightarrow> t_kind t = KDateTime" for d n z
    by (cases z) (auto simp: zoned_def result_simps)
  show "t_parse tz k s = Inr t \<Longrightarrow> t_kind t = k"
    by (cases k) (auto simp: result_simps z)
qed

fun one_kind :: "tz_ext \<Rightarrow> temporal_kind \<Rightarrow> cy_value \<Rightarrow> bool" where
  "one_kind tz K (VTemporal k s) = (k = K \<and> \<not> isl (t_parse tz k s))"
| "one_kind tz K (VList xs) = list_all (one_kind tz K) xs"
| "one_kind tz K (VMap m) = list_all (\<lambda>e. one_kind tz K (snd e)) m"
| "one_kind tz K _ = True"

definition order_same :: "tz_ext \<Rightarrow> cy_value \<Rightarrow> cy_value \<Rightarrow> ordering" where
  "order_same tz x y =
     (if is_number x \<and> is_number y then compare_of (float_place (as_f64_or_zero x)) (float_place (as_f64_or_zero y))
      else case (x, y) of
        (VList a, VList b) \<Rightarrow> lex_cmp (cy_order tz) a b
      | (VMap a, VMap b) \<Rightarrow> lex_cmp (entry_order tz) a b
      | (VNode a, VNode b) \<Rightarrow> compare_of (subject_str (cn_id a)) (subject_str (cn_id b))
      | (VRel a, VRel b) \<Rightarrow> compare_of (rel_element_id a) (rel_element_id b)
      | (VPath _ a, VPath _ b) \<Rightarrow> compare_of (length a) (length b)
      | _ \<Rightarrow> (case cypher_cmp tz x y of Some c \<Rightarrow> c | None \<Rightarrow> Equal))"

lemma cy_order_then: "cy_order tz x y = then_ordering (compare_of (order_rank x) (order_rank y)) (order_same tz x y)"
proof -
  have "cy_order tz x y = (if order_rank x \<noteq> order_rank y then compare_of (order_rank x) (order_rank y) else order_same tz x y)"
    unfolding order_same_def cy_order.simps [of tz x y] order_floats_place
    by (cases x; cases y) (simp_all add: order_values_lex order_entries_lex)
  then show ?thesis by (simp add: then_ordering_def)
qed

definition place_of :: "tz_ext \<Rightarrow> temporal_kind \<Rightarrow> string \<Rightarrow> int \<times> int" where
  "place_of tz k s = (case t_parse tz k s of Inr t \<Rightarrow> temporal_place t | Inl _ \<Rightarrow> (0, 0))"

lemma order_same_temporal:
  assumes "\<not> isl (t_parse tz K a)" "\<not> isl (t_parse tz K b)"
  shows "order_same tz (VTemporal K a) (VTemporal K b) = compare_of (place_of tz K a) (place_of tz K b)"
proof -
  obtain t u where t: "t_parse tz K a = Inr t" "t_parse tz K b = Inr u"
    using assms by (cases "t_parse tz K a"; cases "t_parse tz K b") auto
  then have "t_kind t = t_kind u" using t_parse_kind by metis
  from t_compare_place [OF this] show ?thesis
    by (simp add: order_same_def place_of_def cypher_cmp.simps t)
qed

text \<open>What two values of one rank are compared by.\<close>

lemma order_same_simps [simp]:
  "is_number x \<Longrightarrow> is_number y \<Longrightarrow> order_same tz x y = compare_of (float_place (as_f64_or_zero x)) (float_place (as_f64_or_zero y))"
  "order_same tz (VList a) (VList b) = lex_cmp (cy_order tz) a b"
  "order_same tz (VMap m) (VMap m') = lex_cmp (entry_order tz) m m'"
  "order_same tz (VNode n) (VNode n') = compare_of (subject_str (cn_id n)) (subject_str (cn_id n'))"
  "order_same tz (VRel r) (VRel r') = compare_of (rel_element_id r) (rel_element_id r')"
  "order_same tz (VPath ns rs) (VPath ns' rs') = compare_of (length rs) (length rs')"
  "order_same tz (VString s) (VString s') = compare_of s s'"
  "order_same tz (VBool p) (VBool q) = compare_of p q"
  "order_same tz VNull VNull = Equal"
  by (simp_all add: order_same_def cypher_cmp.simps)

lemma same_rank_cases:
  assumes "order_rank x = order_rank y"
  obtains (number) "is_number x" "is_number y"
    | (string) s t where "x = VString s" "y = VString t"
    | (bool) p q where "x = VBool p" "y = VBool q"
    | (null) "x = VNull" "y = VNull"
    | (temporal) k l s t where "x = VTemporal k s" "y = VTemporal l t"
    | (list) a b where "x = VList a" "y = VList b"
    | (map) m m' where "x = VMap m" "y = VMap m'"
    | (node) n n' where "x = VNode n" "y = VNode n'"
    | (rel) r r' where "x = VRel r" "y = VRel r'"
    | (path) ns rs ns' rs' where "x = VPath ns rs" "y = VPath ns' rs'"
  using assms by (cases x; cases y) simp_all

lemma size_member: "e \<in> set xs \<Longrightarrow> size e < Suc (size_list size xs)"
  using size_list_estimation' [of e xs "size e" size] by (simp add: less_Suc_eq_le)

lemma size_entry: "e \<in> set m \<Longrightarrow> size (snd e) < Suc (size_list (size_prod (\<lambda>x. 0) size) m)"
  using size_list_estimation' [of e m "size (snd e)" "size_prod (\<lambda>x. 0) size"] by (simp add: size_prod_simp less_Suc_eq_le)

lemma cy_order_swap:
  "one_kind tz K x \<Longrightarrow> one_kind tz K y \<Longrightarrow> cy_order tz y x = reverse_ordering (cy_order tz x y)"
proof (induction x arbitrary: y rule: measure_induct_rule [of size])
  case (less x)
  have "order_same tz y x = reverse_ordering (order_same tz x y)" if "order_rank x = order_rank y"
    using that
  proof (cases rule: same_rank_cases)
    case (list a b)
    have "cy_order tz v u = reverse_ordering (cy_order tz u v)" if "u \<in> set a" "v \<in> set b" for u v
      using that less.prems list by (intro less.IH) (auto simp: list_all_iff size_member)
    then have "lex_cmp (cy_order tz) b a = reverse_ordering (lex_cmp (cy_order tz) a b)"
      by (intro lex_cmp_swap) simp
    then show ?thesis by (simp add: list)
  next
    case (map m m')
    have "cy_order tz (snd f) (snd e) = reverse_ordering (cy_order tz (snd e) (snd f))" if "e \<in> set m" "f \<in> set m'" for e f
      using that less.prems map by (intro less.IH) (auto simp: list_all_iff size_entry)
    then have "lex_cmp (entry_order tz) m' m = reverse_ordering (lex_cmp (entry_order tz) m m')"
      by (intro lex_cmp_swap) (simp add: entry_order_def reverse_then reverse_compare_of)
    then show ?thesis by (simp add: map)
  next
    case (temporal k l s t)
    then have K: "k = K" "l = K" using less.prems by simp_all
    then show ?thesis using less.prems unfolding temporal by (simp add: order_same_temporal reverse_compare_of)
  qed (simp_all add: reverse_compare_of)
  then show ?case
    by (cases "order_rank x = order_rank y") (auto simp: cy_order_then reverse_then reverse_compare_of then_ordering_def)
qed

lemma cy_order_tri:
  "one_kind tz K x \<Longrightarrow> one_kind tz K y \<Longrightarrow> one_kind tz K z \<Longrightarrow> tri (cy_order tz x y) (cy_order tz y z) (cy_order tz x z)"
proof (induction x arbitrary: y z rule: measure_induct_rule [of size])
  case (less x)
  have "tri (order_same tz x y) (order_same tz y z) (order_same tz x z)" if r: "order_rank x = order_rank y" "order_rank y = order_rank z"
    using r(1)
  proof (cases rule: same_rank_cases)
    case number
    then have "is_number z" using r(2) by (cases y; cases z) simp_all
    then show ?thesis using number by auto
  next
    case (list a b)
    then obtain c where c: "z = VList c" using r(2) by (cases z) simp_all
    have "tri (cy_order tz u v) (cy_order tz v w) (cy_order tz u w)" if "u \<in> set a" "v \<in> set b" "w \<in> set c" for u v w
      using that less.prems list c by (intro less.IH) (auto simp: list_all_iff size_member)
    then have "tri (lex_cmp (cy_order tz) a b) (lex_cmp (cy_order tz) b c) (lex_cmp (cy_order tz) a c)"
      by (intro lex_cmp_tri) simp
    then show ?thesis by (simp add: list c)
  next
    case (map m m')
    then obtain m'' where c: "z = VMap m''" using r(2) by (cases z) simp_all
    have "tri (cy_order tz (snd e) (snd f)) (cy_order tz (snd f) (snd g)) (cy_order tz (snd e) (snd g))"
      if "e \<in> set m" "f \<in> set m'" "g \<in> set m''" for e f g
      using that less.prems map c by (intro less.IH) (auto simp: list_all_iff size_entry)
    then have "tri (lex_cmp (entry_order tz) m m') (lex_cmp (entry_order tz) m' m'') (lex_cmp (entry_order tz) m m'')"
      by (intro lex_cmp_tri) (auto simp: entry_order_def intro!: tri_then)
    then show ?thesis by (simp add: map c)
  next
    case (temporal k l s t)
    then obtain u where u: "z = VTemporal K u" "k = K" "l = K" using r(2) less.prems by (cases z) simp_all
    show ?thesis using less.prems unfolding temporal u by (auto simp: order_same_temporal)
  next
    case (string s t)
    then obtain u where "z = VString u" using r(2) by (cases z) simp_all
    then show ?thesis using string by auto
  next
    case (bool p q)
    then obtain u where "z = VBool u" using r(2) by (cases z) simp_all
    then show ?thesis using bool by auto
  next
    case null
    then have "z = VNull" using r(2) by (cases z) simp_all
    then show ?thesis using null by simp
  next
    case (node n n')
    then obtain u where "z = VNode u" using r(2) by (cases z) simp_all
    then show ?thesis using node by auto
  next
    case (rel a b)
    then obtain u where "z = VRel u" using r(2) by (cases z) simp_all
    then show ?thesis using rel by auto
  next
    case (path ns rs ns' rs')
    then obtain us ts where "z = VPath us ts" using r(2) by (cases z) simp_all
    then show ?thesis using path by auto
  qed
  then show ?case unfolding cy_order_then by (intro tri_then) auto
qed

interpretation value_order: comparator "one_kind tz K" "cy_order tz" for tz K
  by unfold_locales (fact cy_order_swap, fact cy_order_tri)

section \<open>Grouping agrees with equality\<close>

text \<open>
  The values grouping is defined on as equality is: no null or NaN within, no temporal value (grouped by its text) and no
  graph entity, and no number that a float of its size does not name.
\<close>

fun plain :: "cy_value \<Rightarrow> bool" where
  "plain (VBool _) = True"
| "plain (VString _) = True"
| "plain (VInt i) = (\<bar>i\<bar> < 9000000000000000)"
| "plain (VFloat f) = (\<not> f64_is_nan f)"
| "plain (VList xs) = list_all plain xs"
| "plain (VMap m) = list_all (\<lambda>e. plain (snd e)) m"
| "plain _ = False"

lemma f64_of_int_exact:
  assumes "\<bar>i\<bar> < 2 ^ 53"
  shows "whole (f64_of_int i) i"
proof (cases "i = 0")
  case True
  then show ?thesis by (simp add: f64_of_int_def f64_of_ratio_def)
next
  case False
  then have "0 < \<bar>i\<bar>" by simp
  from bit_len_bounds [OF this] obtain k where k: "2 ^ k \<le> \<bar>i\<bar>" "\<bar>i\<bar> < 2 ^ Suc k" .
  have "(2 :: int) ^ k < 2 ^ 53" using k(1) assms by linarith
  then have "k < 53" by (rule power_less_imp_less_exp [rotated]) simp
  then have k52: "k \<le> 52" by simp
  define c where "c = \<bar>i\<bar> * 2 ^ (52 - k)"
  have "2 ^ k * 2 ^ (52 - k) \<le> c" "c < 2 ^ Suc k * 2 ^ (52 - k)" using k by (simp_all add: c_def)
  then have c: "2 ^ 52 \<le> c" "c < 2 ^ 53" using k52 by (simp_all flip: power_add power_Suc)
  have "F64_UNIT = 2 ^ (52 - k) * 2 ^ (1022 + k)" unfolding F64_UNIT_def using k52 by (simp only: flip: power_add) simp
  then have "\<bar>i\<bar> * F64_UNIT = c * 2 ^ (1022 + k)" by (simp add: c_def)
  then have "f64_is_finite (f64_of_int i)" "f64_scaled (f64_of_int i) = (if i < 0 then - 1 else 1) * (\<bar>i\<bar> * F64_UNIT)"
    using f64_of_ratio_exact [of "\<bar>i\<bar>" c "1022 + k" 1 "i < 0"] c k52 by (simp_all add: f64_of_int_def)
  then show ?thesis by (auto simp: whole_def split: if_splits)
qed

lemma f64_key_scaled:
  assumes "f64_is_finite x" "f64_is_finite y"
  shows "f64_key x = f64_key y \<longleftrightarrow> f64_scaled x = f64_scaled y"
proof -
  have z: "mag_scaled m = 0 \<longleftrightarrow> m = 0" if "0 \<le> m" for m
    using mag_scaled_less_iff [of 0 m] mag_scaled_nonneg [OF that] that by (auto simp: mag_scaled_def [of 0])
  have e: "mag_scaled m = mag_scaled n \<longleftrightarrow> m = n" if "0 \<le> m" "0 \<le> n" for m n
    using mag_scaled_less_iff [of m n] mag_scaled_less_iff [of n m] that by (metis linorder_neq_iff)
  have "- mag_scaled m = mag_scaled n \<longleftrightarrow> - m = n" "mag_scaled m = - mag_scaled n \<longleftrightarrow> m = - n" if "0 \<le> m" "0 \<le> n" for m n
    using that z [of m] z [of n] mag_scaled_nonneg [of m] mag_scaled_nonneg [of n] by auto
  then show ?thesis using e by (simp add: f64_key_def f64_scaled_def)
qed

lemma f64_key_finite: "f64_is_finite x \<Longrightarrow> \<not> f64_is_nan y \<Longrightarrow> f64_key x = f64_key y \<Longrightarrow> f64_is_finite y"
  by (auto simp: f64_key_def f64_is_finite_def f64_is_nan_def split: if_splits)
    (use f64_mag_nonneg [of x] f64_mag_nonneg [of y] in linarith)+

lemma whole_key: "whole x i \<Longrightarrow> whole y j \<Longrightarrow> f64_eq x y \<longleftrightarrow> i = j"
  using F64_UNIT_pos by (auto simp: whole_def f64_eq_def f64_key_scaled f64_is_nan_def f64_is_finite_def)

lemma whole_eq: "whole x i \<Longrightarrow> f64_eq x y \<Longrightarrow> whole y i"
  using f64_key_finite [of x y] by (auto simp: whole_def f64_eq_def f64_key_scaled)

lemma f64_eq_sym: "f64_eq x y \<longleftrightarrow> f64_eq y x"
  by (auto simp: f64_eq_def)

lemma small_whole: "f64_is_integral f \<and> f64_abs_lt f k \<longleftrightarrow> (\<exists>i. whole f i \<and> \<bar>i\<bar> < k)"
proof
  assume f: "f64_is_integral f \<and> f64_abs_lt f k"
  then have w: "whole f (f64_scaled f div F64_UNIT)" by (auto simp: whole_def f64_is_integral_def dvd_eq_mod_eq_0 [symmetric])
  define i where "i = f64_scaled f div F64_UNIT"
  have "\<bar>i\<bar> * F64_UNIT < k * F64_UNIT"
    using f w F64_UNIT_pos unfolding i_def [symmetric] by (simp add: f64_abs_lt_def whole_def abs_mult)
  then have "\<bar>i\<bar> < k" using F64_UNIT_pos by simp
  then show "\<exists>i. whole f i \<and> \<bar>i\<bar> < k" using w i_def by blast
next
  assume "\<exists>i. whole f i \<and> \<bar>i\<bar> < k"
  then show "f64_is_integral f \<and> f64_abs_lt f k" using F64_UNIT_pos
    by (auto simp: whole_def f64_is_integral_def f64_abs_lt_def abs_mult)
qed

lemma whole_as_int: "whole f i \<Longrightarrow> \<bar>i\<bar> < 9000000000000000 \<Longrightarrow> f64_as_int 64 f = i"
  using F64_UNIT_pos whole_not_special [of f i]
  by (simp add: f64_as_int_def whole_def abs_mult sgn_mult sgn_mult_abs)

lemma group_key_small: "whole f i \<Longrightarrow> \<bar>i\<bar> < 9000000000000000 \<Longrightarrow> group_key (VFloat f) = GkInt i"
  using small_whole [of f 9000000000000000] whole_as_int [of f i] by auto

lemma group_key_other:
  "\<nexists>i. whole f i \<and> \<bar>i\<bar> < 9000000000000000 \<Longrightarrow> \<not> f64_is_nan f \<Longrightarrow> group_key (VFloat f) = GkFloat f"
  using small_whole [of f 9000000000000000] by auto

lemma f64_eq_same: "\<not> f64_is_nan f \<Longrightarrow> f64_eq f f"
  by (simp add: f64_eq_def)

lemma f64_eq_not_zero:
  assumes "f64_eq f g" "\<not> whole f 0"
  shows "f = g"
proof -
  have "whole f 0" if "f64_mag f = 0"
    unfolding whole_def f64_is_finite_def f64_scaled_def that by (simp add: mag_scaled_def)
  then have "f64_mag f \<noteq> 0" using assms(2) by blast
  moreover have nn: "0 \<le> f64_mag f" "0 \<le> f64_mag g" by simp_all
  moreover have k: "f64_key f = f64_key g" using assms(1) by (simp add: f64_eq_def)
  have "f64_mag f = - f64_mag g" if "f64_sign f \<noteq> f64_sign g"
    using k that unfolding f64_key_def by (cases "f64_sign g") simp_all
  ultimately have sg: "f64_sign f = f64_sign g" by linarith
  with k have "f64_mag f = f64_mag g" unfolding f64_key_def by (simp split: if_splits)
  have "f = make_f64 (f64_sign f) (f64_mag f)" by (rule make_f64_of_parts [symmetric])
  also have "\<dots> = make_f64 (f64_sign g) (f64_mag g)" unfolding sg \<open>f64_mag f = f64_mag g\<close> ..
  also have "\<dots> = g" by (rule make_f64_of_parts)
  finally show ?thesis .
qed

text \<open>What a number is grouped as, and that two floats are grouped together when they are equal.\<close>

lemma float_groups:
  assumes "\<not> f64_is_nan f" "\<not> f64_is_nan g"
  shows "f64_eq f g \<longleftrightarrow> group_key (VFloat f) = group_key (VFloat g)"
proof (cases "\<exists>i. whole f i \<and> \<bar>i\<bar> < 9000000000000000")
  case True
  then obtain i where i: "whole f i" "\<bar>i\<bar> < 9000000000000000" by auto
  then have f: "group_key (VFloat f) = GkInt i" by (rule group_key_small)
  show ?thesis
  proof (cases "\<exists>j. whole g j \<and> \<bar>j\<bar> < 9000000000000000")
    case True
    then obtain j where j: "whole g j" "\<bar>j\<bar> < 9000000000000000" by auto
    then have "group_key (VFloat g) = GkInt j" by (rule group_key_small)
    then show ?thesis using f whole_key [OF i(1) j(1)] by simp
  next
    case False
    then have "group_key (VFloat g) = GkFloat g" using assms(2) by (rule group_key_other)
    moreover have "\<not> f64_eq f g" using False whole_eq [OF i(1)] i(2) by blast
    ultimately show ?thesis using f by simp
  qed
next
  case False
  then have f: "group_key (VFloat f) = GkFloat f" using assms(1) by (rule group_key_other)
  have nz: "\<not> whole f 0" using False by auto
  show ?thesis
  proof (cases "\<exists>j. whole g j \<and> \<bar>j\<bar> < 9000000000000000")
    case True
    then have "group_key (VFloat g) \<noteq> GkFloat f" using group_key_small by (metis gkey.distinct)
    moreover have "\<not> f64_eq f g" using False True whole_eq f64_eq_sym by metis
    ultimately show ?thesis using f by simp
  next
    case False
    then have "group_key (VFloat g) = GkFloat g" using assms(2) by (rule group_key_other)
    then show ?thesis using f f64_eq_not_zero [OF _ nz] f64_eq_same [OF assms(1)] by auto
  qed
qed

lemma int_groups: "\<bar>i\<bar> < 9000000000000000 \<Longrightarrow> group_key (VInt i) = group_key (VFloat (f64_of_int i)) \<and> \<not> f64_is_nan (f64_of_int i)"
  using f64_of_int_exact [of i] whole_not_special [of "f64_of_int i" i]
  group_key_small [of "f64_of_int i" i] by simp

lemma eq_values_all:
  "length xs = length ys \<Longrightarrow> (\<And>x y. (x, y) \<in> set (zip xs ys) \<Longrightarrow> cypher_eq tz x y = Some (group_key x = group_key y)) \<Longrightarrow>
   eq_values tz False xs ys = Some (map group_key xs = map group_key ys)"
  by (induction xs ys rule: list_induct2) (auto split: bool.split)

lemma eq_entries_all:
  "length xs = length ys \<Longrightarrow> map fst xs = map fst ys \<Longrightarrow>
   (\<And>e f. (e, f) \<in> set (zip xs ys) \<Longrightarrow> cypher_eq tz (snd e) (snd f) = Some (group_key (snd e) = group_key (snd f))) \<Longrightarrow>
   eq_entries tz False xs ys = Some (map (\<lambda>(k, v). (k, group_key v)) xs = map (\<lambda>(k, v). (k, group_key v)) ys)"
proof (induction xs ys rule: list_induct2)
  case (Cons x xs y ys)
  obtain k v l w where e: "x = (k, v)" "y = (l, w)" by (cases x; cases y)
  have "cypher_eq tz v w = Some (group_key v = group_key w)" using Cons.prems(2) [of x y] e by simp
  moreover have "eq_entries tz False xs ys = Some (map (\<lambda>(k, v). (k, group_key v)) xs = map (\<lambda>(k, v). (k, group_key v)) ys)"
    using Cons by simp
  ultimately show ?case using Cons.prems(1) e by (auto split: bool.split)
qed simp

lemma number_groups:
  assumes "is_number x" "is_number y" "plain x" "plain y"
  shows "cypher_eq tz x y = Some (group_key x = group_key y)"
proof (cases "(\<exists>i. x = VInt i) \<and> (\<exists>j. y = VInt j)")
  case True
  then show ?thesis by (auto simp: cypher_eq.simps)
next
  case False
  have f: "group_key v = group_key (VFloat (as_f64_or_zero v)) \<and> \<not> f64_is_nan (as_f64_or_zero v)" if "is_number v" "plain v" for v
    using that int_groups by (cases v) (auto simp: as_f64_or_zero_def cy_as_f64_def)
  have "cypher_eq tz x y = Some (f64_eq (as_f64_or_zero x) (as_f64_or_zero y))"
    using False assms(1,2) by (cases x; cases y) (auto simp: cypher_eq.simps as_f64_or_zero_def cy_as_f64_def)
  also have "f64_eq (as_f64_or_zero x) (as_f64_or_zero y) \<longleftrightarrow> group_key x = group_key y"
    using float_groups f [OF assms(1,3)] f [OF assms(2,4)] by metis
  finally show ?thesis .
qed

lemma list_groups:
  assumes "\<And>u v. (u, v) \<in> set (zip a b) \<Longrightarrow> cypher_eq tz u v = Some (group_key u = group_key v)"
  shows "cypher_eq tz (VList a) (VList b) = Some (group_key (VList a) = group_key (VList b))"
proof (cases "length a = length b")
  case True
  then show ?thesis using eq_values_all [OF True assms] by (simp add: cypher_eq.simps)
next
  case False
  then have "map group_key a \<noteq> map group_key b" by (metis length_map)
  then show ?thesis using False by (simp add: cypher_eq.simps)
qed

lemma map_groups:
  assumes "\<And>e f. (e, f) \<in> set (zip a b) \<Longrightarrow> cypher_eq tz (snd e) (snd f) = Some (group_key (snd e) = group_key (snd f))"
  shows "cypher_eq tz (VMap a) (VMap b) = Some (group_key (VMap a) = group_key (VMap b))"
proof (cases "length a = length b \<and> map fst a = map fst b")
  case True
  then show ?thesis using eq_entries_all [of a b, OF _ _ assms] by (simp add: cypher_eq.simps)
next
  case False
  have "map fst m = map fst (map (\<lambda>(k, v). (k, group_key v)) m)" for m by (induction m) auto
  then have "map (\<lambda>(k, v). (k, group_key v)) a \<noteq> map (\<lambda>(k, v). (k, group_key v)) b" using False by (metis length_map)
  then show ?thesis using False by (auto simp: cypher_eq.simps)
qed

text \<open>
  C26. On plain values equality and grouping agree: comparing two of them with \<open>=\<close> gives true when grouping (and
  \<open>DISTINCT\<close>) puts them together, and false when it does not, however lists and maps are nested and integers and
  floats mixed.
\<close>

theorem grouping_is_equality:
  "plain x \<Longrightarrow> plain y \<Longrightarrow> cypher_eq tz x y = Some (group_key x = group_key y)"
proof (induction x arbitrary: y rule: measure_induct_rule [of size])
  case (less x)
  consider "is_number x \<and> is_number y" | (lists) a b where "x = VList a" "y = VList b" | (maps) a b where "x = VMap a" "y = VMap b"
    | (other) "\<not> (is_number x \<and> is_number y)" "\<nexists>a b. x = VList a \<and> y = VList b" "\<nexists>a b. x = VMap a \<and> y = VMap b"
    by blast
  then show ?case
  proof cases
    case (lists a b)
    show ?thesis unfolding lists
      by (intro list_groups less.IH)
        (use less.prems lists in \<open>auto simp: list_all_iff size_member dest: set_zip_leftD set_zip_rightD\<close>)
  next
    case (maps a b)
    have "size (snd e) < size x \<and> plain (snd e) \<and> plain (snd f)" if "(e, f) \<in> set (zip a b)" for e f
      using less.prems maps set_zip_leftD [OF that] set_zip_rightD [OF that] by (auto simp: list_all_iff size_entry)
    then show ?thesis unfolding maps(1,2) by (intro map_groups less.IH) (auto simp: maps(1))
  next
    case other
    then show ?thesis using less.prems by (cases x; cases y) (auto simp: cypher_eq.simps split: if_splits)
  qed (use number_groups less.prems in blast)
qed

theorem grouping_is_equality_witness:
  "cypher_eq stockholm (VList [VInt 1, VString ''a'']) (VList [VFloat (f64_of_int 1), VString ''a'']) =
    Some (group_key (VList [VInt 1, VString ''a'']) = group_key (VList [VFloat (f64_of_int 1), VString ''a'']))"
  by (rule grouping_is_equality) (simp_all add: int_groups)

end
