(* ===== verification/Cypher_Ast.thy ===== *)
theory Cypher_Ast
  imports Floats
begin

text \<open>
  The abstract syntax of openCypher queries and the operations on expressions (\<^verbatim>\<open>oxilite-cypher/src/ast.rs\<close>). Two
  expressions are compared by \<^verbatim>\<open>==\<close> in \<open>replace_subexprs\<close>, which is equality here: the float of a query text is neither NaN
  nor a negative zero.
\<close>

section \<open>Expressions and patterns\<close>

datatype binop =
    OpOr | OpXor | OpAnd | OpEq | OpNe | OpLt | OpLe | OpGt | OpGe | OpAdd | OpSub | OpMul | OpDiv | OpMod | OpPow
  | OpStartsWith | OpEndsWith | OpContains | OpRegex | OpIn

datatype unop = OpNot | OpNeg | OpPlus

datatype quantifier = QAll | QAny | QNone | QSingle

datatype shortest = ShortestOne | ShortestAll

datatype direction = DirRight | DirLeft | DirBoth

datatype cexpr =
    XNull
  | XBool bool
  | XInt int
  | XFloat f64
  | XStr string
  | XParam string
  | XVar string
  | XList "cexpr list"
  | XMap "(string \<times> cexpr) list"
  | XProp cexpr string
  | XUnary unop cexpr
  | XBinary binop cexpr cexpr
  | XIsNull cexpr bool
  | XHasLabels cexpr "string list"
  | XFunc string bool "cexpr list"
  | XCountStar
  | XCase "cexpr option" "(cexpr \<times> cexpr) list" "cexpr option"
  | XListComp string cexpr "cexpr option" "cexpr option"
  | XQuantified quantifier string cexpr cexpr
  | XReduce string cexpr string cexpr cexpr
  | XIndex cexpr cexpr
  | XSlice cexpr "cexpr option" "cexpr option"
  | XPattern pattern_element
  | XExists "pattern_part list" "cexpr option"
  | XPatternComp "string option" pattern_element "cexpr option" cexpr
  | XMapProjection string "map_item list"
and map_item = MiProp string | MiAllProps | MiVar string | MiEntry string cexpr
and node_pattern = NodePattern "string option" "string list" "cexpr option"
and rel_pattern = RelPattern "string option" "string list" "cexpr option" direction "(nat option \<times> nat option) option"
and pattern_element = PatternElement node_pattern "(rel_pattern \<times> node_pattern) list"
and pattern_part = PatternPart "string option" "shortest option" pattern_element

section \<open>Clauses\<close>

record projection_item =
  pi_expr :: cexpr
  pi_alias :: "string option"
  pi_text :: string

record projection =
  pj_distinct :: bool
  pj_star :: bool
  pj_items :: "projection_item list"
  pj_order :: "(cexpr \<times> bool) list"
  pj_skip :: "cexpr option"
  pj_limit :: "cexpr option"
  pj_where :: "cexpr option"

datatype set_item =
    SetProperty string string cexpr
  | SetReplace string cexpr
  | SetMerge string cexpr
  | SetLabels string "string list"

datatype remove_item = RemoveProperty string string | RemoveLabels string "string list"

datatype clause =
    CMatch bool "pattern_part list" "cexpr option"
  | CUnwind cexpr string
  | CWith projection
  | CReturn projection
  | CCreate "pattern_part list"
  | CMerge pattern_part "set_item list" "set_item list"
  | CSet "set_item list"
  | CRemove "remove_item list"
  | CDelete bool "cexpr list"
  | CCall string "cexpr list" "(string \<times> string option) list option" "cexpr option"

record single_query =
  sq_clauses :: "clause list"

record cy_query =
  cq_parts :: "single_query list"
  cq_union_all :: "bool list"

fun is_write :: "clause \<Rightarrow> bool" where
  "is_write (CCreate _) = True"
| "is_write (CMerge _ _ _) = True"
| "is_write (CSet _) = True"
| "is_write (CRemove _) = True"
| "is_write (CDelete _ _) = True"
| "is_write _ = False"

definition item_name :: "projection_item \<Rightarrow> string" where
  "item_name it =
     (case pi_alias it of
        Some a \<Rightarrow> a
      | None \<Rightarrow> (case pi_expr it of XVar v \<Rightarrow> v | _ \<Rightarrow> pi_text it))"

section \<open>Operations on expressions\<close>

text \<open>\<^verbatim>\<open>walk\<close>: the expression and its sub-expressions, in the order they are visited.\<close>

fun walk :: "cexpr \<Rightarrow> cexpr list" where
  "walk (XList es) = XList es # concat (map walk es)"
| "walk (XMap es) = XMap es # concat (map (\<lambda>e. walk (snd e)) es)"
| "walk (XProp e k) = XProp e k # walk e"
| "walk (XUnary op e) = XUnary op e # walk e"
| "walk (XIsNull e n) = XIsNull e n # walk e"
| "walk (XHasLabels e ls) = XHasLabels e ls # walk e"
| "walk (XBinary op a b) = XBinary op a b # walk a @ walk b"
| "walk (XIndex a b) = XIndex a b # walk a @ walk b"
| "walk (XFunc f d es) = XFunc f d es # concat (map walk es)"
| "walk (XCase o' ws e) =
     XCase o' ws e # (case o' of Some x \<Rightarrow> walk x | None \<Rightarrow> []) @ concat (map (\<lambda>w. walk (fst w) @ walk (snd w)) ws)
       @ (case e of Some x \<Rightarrow> walk x | None \<Rightarrow> [])"
| "walk (XListComp v l f m) =
     XListComp v l f m # walk l @ (case f of Some x \<Rightarrow> walk x | None \<Rightarrow> []) @ (case m of Some x \<Rightarrow> walk x | None \<Rightarrow> [])"
| "walk (XQuantified q v l p) = XQuantified q v l p # walk l @ walk p"
| "walk (XReduce a i v l e) = XReduce a i v l e # walk i @ walk l @ walk e"
| "walk (XSlice a b c) =
     XSlice a b c # walk a @ (case b of Some x \<Rightarrow> walk x | None \<Rightarrow> []) @ (case c of Some x \<Rightarrow> walk x | None \<Rightarrow> [])"
| "walk (XPatternComp v p f m) = XPatternComp v p f m # (case f of Some x \<Rightarrow> walk x | None \<Rightarrow> []) @ walk m"
| "walk (XMapProjection v items) =
     XMapProjection v items # concat (map (\<lambda>i. case i of MiEntry _ e \<Rightarrow> walk e | _ \<Rightarrow> []) items)"
| "walk e = [e]"

text \<open>\<^verbatim>\<open>map_vars\<close>: variables replaced, except inside comprehensions, quantifiers, patterns and map projections.\<close>

fun map_vars :: "(string \<Rightarrow> cexpr option) \<Rightarrow> cexpr \<Rightarrow> cexpr" where
  "map_vars f (XVar v) = (case f v of Some e \<Rightarrow> e | None \<Rightarrow> XVar v)"
| "map_vars f (XList es) = XList (map (map_vars f) es)"
| "map_vars f (XMap es) = XMap (map (\<lambda>e. (fst e, map_vars f (snd e))) es)"
| "map_vars f (XProp e k) = XProp (map_vars f e) k"
| "map_vars f (XUnary op e) = XUnary op (map_vars f e)"
| "map_vars f (XBinary op a b) = XBinary op (map_vars f a) (map_vars f b)"
| "map_vars f (XIsNull e n) = XIsNull (map_vars f e) n"
| "map_vars f (XHasLabels e ls) = XHasLabels (map_vars f e) ls"
| "map_vars f (XFunc g d es) = XFunc g d (map (map_vars f) es)"
| "map_vars f (XCase o' ws e) =
     XCase (map_option (map_vars f) o') (map (\<lambda>w. (map_vars f (fst w), map_vars f (snd w))) ws) (map_option (map_vars f) e)"
| "map_vars f (XIndex a b) = XIndex (map_vars f a) (map_vars f b)"
| "map_vars f (XSlice a b c) = XSlice (map_vars f a) (map_option (map_vars f) b) (map_option (map_vars f) c)"
| "map_vars f e = e"

text \<open>
  \<^verbatim>\<open>replace_subexprs\<close>. The entry of the first target that an expression is; otherwise the result of replacing in its parts.
\<close>

definition target_of :: "(cexpr \<times> cexpr) list \<Rightarrow> cexpr \<Rightarrow> cexpr \<Rightarrow> cexpr" where
  "target_of targets e rest = (case map_of targets e of Some r \<Rightarrow> r | None \<Rightarrow> rest)"

fun replace_subexprs :: "(cexpr \<times> cexpr) list \<Rightarrow> cexpr \<Rightarrow> cexpr" where
  "replace_subexprs ts (XList es) = target_of ts (XList es) (XList (map (replace_subexprs ts) es))"
| "replace_subexprs ts (XMap es) = target_of ts (XMap es) (XMap (map (\<lambda>e. (fst e, replace_subexprs ts (snd e))) es))"
| "replace_subexprs ts (XProp e k) = target_of ts (XProp e k) (XProp (replace_subexprs ts e) k)"
| "replace_subexprs ts (XUnary op e) = target_of ts (XUnary op e) (XUnary op (replace_subexprs ts e))"
| "replace_subexprs ts (XBinary op a b) =
     target_of ts (XBinary op a b) (XBinary op (replace_subexprs ts a) (replace_subexprs ts b))"
| "replace_subexprs ts (XIsNull e n) = target_of ts (XIsNull e n) (XIsNull (replace_subexprs ts e) n)"
| "replace_subexprs ts (XFunc f d es) = target_of ts (XFunc f d es) (XFunc f d (map (replace_subexprs ts) es))"
| "replace_subexprs ts (XCase o' ws e) =
     target_of ts (XCase o' ws e)
       (XCase (map_option (replace_subexprs ts) o')
          (map (\<lambda>w. (replace_subexprs ts (fst w), replace_subexprs ts (snd w))) ws)
          (map_option (replace_subexprs ts) e))"
| "replace_subexprs ts (XIndex a b) = target_of ts (XIndex a b) (XIndex (replace_subexprs ts a) (replace_subexprs ts b))"
| "replace_subexprs ts e = target_of ts e e"

definition is_aggregate :: "string \<Rightarrow> bool" where
  "is_aggregate name \<longleftrightarrow> name \<in> set [''count'', ''sum'', ''avg'', ''min'', ''max'', ''collect'', ''stdev'', ''stdevp'',
     ''percentilecont'', ''percentiledisc'']"

definition has_aggregate :: "cexpr \<Rightarrow> bool" where
  "has_aggregate e \<longleftrightarrow>
     list_ex (\<lambda>x. case x of XFunc name _ _ \<Rightarrow> is_aggregate name | XCountStar \<Rightarrow> True | _ \<Rightarrow> False) (walk e)"

end
