(* ===== verification/Cypher_Functions.thy ===== *)
theory Cypher_Functions
  imports Cypher_Order_Laws Cypher_Ast Errors
begin

text \<open>
  The operators and functions of Cypher expressions over values (\<^verbatim>\<open>eval.rs\<close>, from \<^verbatim>\<open>truthy\<close> to \<^verbatim>\<open>host_call\<close>). Evaluation
  threads the state the code keeps in thread-local variables: the statement clock, the generator of \<^verbatim>\<open>rand()\<close> and the number
  of blank nodes drawn. \<open>CyPanic\<close> is a panic, also of arithmetic that overflows where the code does not check it.
  A parameter \<open>eval_ext\<close> stands for code outside the repository and for the parts of the standard library that are tables or
  transcendental functions.
\<close>

section \<open>State and errors\<close>

record eval_ext =
  x_tz :: tz_ext
  x_sj :: sj_ext
  x_time :: "string + int"
  x_regex :: "string \<Rightarrow> string \<Rightarrow> string + bool"
  x_lower :: "string \<Rightarrow> string"
  x_upper :: "string \<Rightarrow> string"
  x_math :: "string \<Rightarrow> f64 \<Rightarrow> f64"
  x_powf :: "f64 \<Rightarrow> f64 \<Rightarrow> f64"
  x_atan2 :: "f64 \<Rightarrow> f64 \<Rightarrow> f64"
  x_fresh :: "nat \<Rightarrow> string"
  x_host :: "string \<Rightarrow> (rdf_term list \<Rightarrow> rdf_term option) option"
  x_term_text :: "rdf_term \<Rightarrow> string"

record ev_state =
  es_clock :: "int option"
  es_random :: "64 word"
  es_drawn :: nat

type_synonym 'a ev = "ev_state \<Rightarrow> (cypher_error + 'a) \<times> ev_state"

definition ret :: "'a \<Rightarrow> 'a ev" where
  "ret x = (\<lambda>s. (Inr x, s))"

definition lift :: "cypher_error + 'a \<Rightarrow> 'a ev" where
  "lift r = (\<lambda>s. (r, s))"

definition ebind :: "'a ev \<Rightarrow> ('a \<Rightarrow> 'b ev) \<Rightarrow> 'b ev" where
  "ebind m f = (\<lambda>s. case m s of (Inl e, s') \<Rightarrow> (Inl e, s') | (Inr x, s') \<Rightarrow> f x s')"

definition semantic :: "string \<Rightarrow> cypher_error + 'a" where
  "semantic msg = Inl (CySemantic msg)"

definition unsupported :: "string \<Rightarrow> cypher_error + 'a" where
  "unsupported msg = Inl (CyUnsupported msg)"

fun emap :: "('a \<Rightarrow> 'b ev) \<Rightarrow> 'a list \<Rightarrow> 'b list ev" where
  "emap f [] = ret []"
| "emap f (x # xs) = ebind (f x) (\<lambda>y. ebind (emap f xs) (\<lambda>ys. ret (y # ys)))"

lemma emap_cong [fundef_cong]: "xs = ys \<Longrightarrow> (\<And>x. x \<in> set ys \<Longrightarrow> f x = g x) \<Longrightarrow> emap f xs = emap g ys"
  by (induction ys arbitrary: xs) auto

section \<open>Characters and strings\<close>

text \<open>\<^verbatim>\<open>chars()\<close>: the characters of a UTF-8 string, each with its continuation bytes.\<close>

definition is_continuation :: "char \<Rightarrow> bool" where
  "is_continuation c \<longleftrightarrow> 128 \<le> byte c \<and> byte c < 192"

function utf8_chars :: "string \<Rightarrow> string list" where
  "utf8_chars [] = []"
| "utf8_chars (c # s) = (c # takeWhile is_continuation s) # utf8_chars (dropWhile is_continuation s)"
  by pat_completeness auto
termination
  by (relation "measure length") (auto simp: le_imp_less_Suc length_dropWhile_le)

text \<open>\<^verbatim>\<open>split\<close> and \<^verbatim>\<open>replace\<close> with a string pattern; an empty pattern matches at every character boundary.\<close>

function split_at_str :: "string \<Rightarrow> string \<Rightarrow> string \<Rightarrow> string list" where
  "split_at_str d acc s =
     (if d = [] \<or> s = [] then [rev acc @ s]
      else if starts_with d s then rev acc # split_at_str d [] (drop (length d) s)
      else split_at_str d (hd s # acc) (tl s))"
  by pat_completeness auto
termination
  by (relation "measure (\<lambda>(d, acc, s). length s)") (auto)

definition split_str :: "string \<Rightarrow> string \<Rightarrow> string list" where
  "split_str d s = (if d = [] then [[]] @ utf8_chars s @ [[]] else split_at_str d [] s)"

definition replace_str :: "string \<Rightarrow> string \<Rightarrow> string \<Rightarrow> string" where
  "replace_str from to s = join to (split_str from s)"

definition trim_start :: "string \<Rightarrow> string" where
  "trim_start s = trim_start_n (length s) s"

definition trim_end :: "string \<Rightarrow> string" where
  "trim_end s = trim_end_n (length s) s"

definition ends_with :: "string \<Rightarrow> string \<Rightarrow> bool" where
  "ends_with p s \<longleftrightarrow> starts_with (rev p) (rev s)"

section \<open>Floats\<close>

definition f64_floor :: "f64 \<Rightarrow> f64" where
  "f64_floor x = (if f64_is_finite x then f64_of_ratio (f64_sign x) \<bar>f64_scaled x div F64_UNIT\<bar> 1 else x)"

definition f64_ceil :: "f64 \<Rightarrow> f64" where
  "f64_ceil x = (if f64_is_finite x then f64_of_ratio (f64_sign x) \<bar>- ((- f64_scaled x) div F64_UNIT)\<bar> 1 else x)"

definition f64_abs :: "f64 \<Rightarrow> f64" where
  "f64_abs x = make_f64 False (f64_mag x)"

text \<open>\<^verbatim>\<open>%\<close>: the exact remainder of the division that truncates, with the sign of the dividend.\<close>

definition f64_rem :: "f64 \<Rightarrow> f64 \<Rightarrow> f64" where
  "f64_rem x y =
     (if f64_is_nan x \<or> f64_is_nan y \<or> f64_is_inf x \<or> f64_mag y = 0 then f64_nan
      else if f64_is_inf y then x
      else f64_of_ratio (f64_sign x) (\<bar>f64_scaled x\<bar> mod \<bar>f64_scaled y\<bar>) F64_UNIT)"

definition F64_PI :: f64 where "F64_PI = 0x400921FB54442D18"
definition F64_E :: f64 where "F64_E = 0x4005BF0A8B145769"

definition f64_half :: f64 where
  "f64_half = f64_of_ratio False 1 2"

section \<open>Properties, indexing and slicing\<close>

definition truthy :: "cy_value \<Rightarrow> cypher_error + bool option" where
  "truthy v =
     (case v of
        VNull \<Rightarrow> Inr None
      | VBool b \<Rightarrow> Inr (Some b)
      | _ \<Rightarrow> rt (''expected a boolean, got '' @ type_name v))"

definition properties_of :: "cy_value \<Rightarrow> cypher_error + cy_map" where
  "properties_of v =
     (case v of
        VNode n \<Rightarrow> Inr (cn_props n)
      | VRel r \<Rightarrow> Inr (cr_props r)
      | VMap m \<Rightarrow> Inr m
      | VNull \<Rightarrow> Inr []
      | _ \<Rightarrow> rt (''a '' @ type_name v @ '' has no properties''))"

definition property :: "tz_ext \<Rightarrow> cy_value \<Rightarrow> string \<Rightarrow> cypher_error + cy_value" where
  "property tz v key =
     (case v of
        VNull \<Rightarrow> Inr VNull
      | VNode n \<Rightarrow> Inr (or_default (bt_get (cn_props n) key) VNull)
      | VRel r \<Rightarrow> Inr (or_default (bt_get (cr_props r) key) VNull)
      | VMap m \<Rightarrow> Inr (or_default (bt_get m key) VNull)
      | VTemporal k lx \<Rightarrow> rbind (t_parse tz k lx) (\<lambda>t. Inr (t_field t key))
      | _ \<Rightarrow> rt (''cannot access property '' @ backquoted key @ '' of a '' @ type_name v))"

definition cy_index :: "tz_ext \<Rightarrow> cy_value \<Rightarrow> cy_value \<Rightarrow> cypher_error + cy_value" where
  "cy_index tz t i =
     (let bad = rt (''cannot index a '' @ type_name t @ '' with a '' @ type_name i) in
      if t = VNull \<or> i = VNull then Inr VNull
      else case (t, i) of
        (VList items, VInt i) \<Rightarrow>
          let n = int (length items); j = (if i < 0 then n + i else i)
          in Inr (if 0 \<le> j \<and> j < n then items ! nat j else VNull)
      | (VMap _, VString k) \<Rightarrow> property tz t k
      | (VNode _, VString k) \<Rightarrow> property tz t k
      | (VRel _, VString k) \<Rightarrow> property tz t k
      | _ \<Rightarrow> bad)"

definition slice_bound :: "cy_value option \<Rightarrow> int \<Rightarrow> int \<Rightarrow> cypher_error + int option" where
  "slice_bound v n dflt =
     (case v of
        None \<Rightarrow> Inr (Some dflt)
      | Some VNull \<Rightarrow> Inr None
      | Some (VInt i) \<Rightarrow> Inr (Some (if i < 0 then max (n + i) 0 else min i n))
      | Some w \<Rightarrow> rt (''slice bound must be an integer, got '' @ type_name w))"

definition cy_slice :: "cy_value \<Rightarrow> cy_value option \<Rightarrow> cy_value option \<Rightarrow> cypher_error + cy_value" where
  "cy_slice t from to =
     (case t of
        VNull \<Rightarrow> Inr VNull
      | VList items \<Rightarrow>
          (let n = int (length items) in
           rbind (slice_bound from n 0) (\<lambda>a.
           rbind (slice_bound to n n) (\<lambda>b.
             Inr (case (a, b) of
                    (Some a, Some b) \<Rightarrow> VList (if a \<ge> b then [] else take (nat (b - a)) (drop (nat a) items))
                  | _ \<Rightarrow> VNull))))
      | _ \<Rightarrow> rt (''cannot slice a '' @ type_name t))"

section \<open>Binary operators over values\<close>

definition cy_to_string :: "cy_value \<Rightarrow> string" where
  "cy_to_string v =
     (case v of
        VString s \<Rightarrow> s
      | VTemporal _ s \<Rightarrow> s
      | VFloat f \<Rightarrow> if f64_is_integral f \<and> f64_abs_lt f 10000000000000000 then fixed_one f else f64_display f
      | _ \<Rightarrow> or_default (cy_display v) [])"

definition bool_or_null :: "bool option \<Rightarrow> cy_value" where
  "bool_or_null b = (case b of None \<Rightarrow> VNull | Some b \<Rightarrow> VBool b)"

definition is_temporal :: "cy_value \<Rightarrow> bool" where
  "is_temporal v = (case v of VTemporal _ _ \<Rightarrow> True | _ \<Rightarrow> False)"

definition checked_i64 :: "int \<Rightarrow> cypher_error + cy_value" where
  "checked_i64 i = (if i64_range i then Inr (VInt i) else rt ''integer overflow'')"

fun arith_char :: "binop \<Rightarrow> char option" where
  "arith_char OpAdd = Some (CHR ''+'')"
| "arith_char OpSub = Some (CHR ''-'')"
| "arith_char OpMul = Some (CHR ''*'')"
| "arith_char OpDiv = Some (CHR ''/'')"
| "arith_char _ = None"

fun is_in :: "tz_ext \<Rightarrow> cy_value \<Rightarrow> bool \<Rightarrow> cy_value list \<Rightarrow> bool option" where
  "is_in tz x unknown [] = (if unknown then None else Some False)"
| "is_in tz x unknown (i # items) =
     (case cypher_eq tz x i of
        Some True \<Rightarrow> Some True
      | None \<Rightarrow> is_in tz x True items
      | Some False \<Rightarrow> is_in tz x unknown items)"

definition prints :: "cy_value \<Rightarrow> bool" where
  "prints v \<longleftrightarrow> is_number v \<or> (case v of VBool _ \<Rightarrow> True | _ \<Rightarrow> False)"

definition op_add :: "cy_value \<Rightarrow> cy_value \<Rightarrow> cypher_error + cy_value" where
  "op_add x y =
     (let bad = rt (''cannot add '' @ type_name x @ '' and '' @ type_name y) in
      if x = VNull \<or> y = VNull then Inr VNull
      else if is_number x \<and> is_number y
      then (case (x, y) of
              (VInt a, VInt b) \<Rightarrow> checked_i64 (a + b)
            | _ \<Rightarrow> Inr (VFloat (f64_plus (as_f64_or_zero x) (as_f64_or_zero y))))
      else case x of
        VList a \<Rightarrow> Inr (VList (case y of VList b \<Rightarrow> a @ b | _ \<Rightarrow> a @ [y]))
      | _ \<Rightarrow>
          (case y of
             VList b \<Rightarrow> Inr (VList (x # b))
           | VString b \<Rightarrow>
               (case x of
                  VString a \<Rightarrow> Inr (VString (a @ b))
                | _ \<Rightarrow> if prints x then Inr (VString (cy_to_string x @ b)) else bad)
           | _ \<Rightarrow> (case x of VString a \<Rightarrow> if prints y then Inr (VString (a @ cy_to_string y)) else bad | _ \<Rightarrow> bad)))"

definition op_arith :: "binop \<Rightarrow> cy_value \<Rightarrow> cy_value \<Rightarrow> cypher_error + cy_value" where
  "op_arith op x y =
     (if x = VNull \<or> y = VNull then Inr VNull
      else case (x, y) of
        (VInt a, VInt b) \<Rightarrow>
          (case op of
             OpSub \<Rightarrow> checked_i64 (a - b)
           | OpMul \<Rightarrow> checked_i64 (a * b)
           | OpDiv \<Rightarrow> if b = 0 then rt ''division by zero'' else checked_i64 (a sdiv b)
           | _ \<Rightarrow> if b = 0 then rt ''division by zero''
                  else if a = i64_min \<and> b = - 1 then rt ''integer overflow'' else Inr (VInt (a smod b)))
      | _ \<Rightarrow>
          if is_number x \<and> is_number y then
            let a = as_f64_or_zero x; b = as_f64_or_zero y in
            Inr (VFloat (case op of OpSub \<Rightarrow> f64_minus a b | OpMul \<Rightarrow> f64_times a b | OpDiv \<Rightarrow> f64_divide a b | _ \<Rightarrow> f64_rem a b))
          else rt (''arithmetic on '' @ type_name x @ '' and '' @ type_name y))"

definition compare_holds :: "binop \<Rightarrow> ordering \<Rightarrow> bool" where
  "compare_holds op c \<longleftrightarrow>
     (case op of OpLt \<Rightarrow> c = Less | OpLe \<Rightarrow> c \<noteq> Greater | OpGt \<Rightarrow> c = Greater | _ \<Rightarrow> c \<noteq> Less)"

definition binary_values :: "eval_ext \<Rightarrow> binop \<Rightarrow> cy_value \<Rightarrow> cy_value \<Rightarrow> cypher_error + cy_value" where
  "binary_values x op a b =
     (case if is_temporal a \<or> is_temporal b then arith_char op else None of
        Some c \<Rightarrow>
          if a = VNull \<or> b = VNull then Inr VNull
          else rbind (arith (x_tz x) c a b) (\<lambda>r.
            case r of
              Some v \<Rightarrow> Inr v
            | None \<Rightarrow> rt (''cannot apply '' @ [c] @ '' to '' @ type_name a @ '' and '' @ type_name b))
      | None \<Rightarrow>
          (case op of
             OpEq \<Rightarrow> Inr (bool_or_null (cypher_eq (x_tz x) a b))
           | OpNe \<Rightarrow> Inr (bool_or_null (map_option Not (cypher_eq (x_tz x) a b)))
           | OpIn \<Rightarrow>
               (case b of
                  VNull \<Rightarrow> Inr VNull
                | VList items \<Rightarrow> Inr (bool_or_null (is_in (x_tz x) a False items))
                | _ \<Rightarrow> rt (''IN expects a list, got '' @ type_name b))
           | OpStartsWith \<Rightarrow> Inr (case (a, b) of (VString s, VString t) \<Rightarrow> VBool (starts_with t s) | _ \<Rightarrow> VNull)
           | OpEndsWith \<Rightarrow> Inr (case (a, b) of (VString s, VString t) \<Rightarrow> VBool (ends_with t s) | _ \<Rightarrow> VNull)
           | OpContains \<Rightarrow> Inr (case (a, b) of (VString s, VString t) \<Rightarrow> VBool (contains_str t s) | _ \<Rightarrow> VNull)
           | OpRegex \<Rightarrow>
               (case (a, b) of
                  (VString s, VString p) \<Rightarrow>
                    (case x_regex x (''^(?:'' @ p @ '')$'') s of Inr r \<Rightarrow> Inr (VBool r) | Inl e \<Rightarrow> rt (''invalid regex: '' @ e))
                | _ \<Rightarrow> Inr VNull)
           | OpAdd \<Rightarrow> op_add a b
           | OpPow \<Rightarrow>
               (case (cy_as_f64 a, cy_as_f64 b) of
                  (Some p, Some q) \<Rightarrow> Inr (VFloat (x_powf x p q))
                | _ \<Rightarrow> if a = VNull \<or> b = VNull then Inr VNull else rt ''^ expects numbers'')
           | OpAnd \<Rightarrow> Inl CyPanic
           | OpOr \<Rightarrow> Inl CyPanic
           | OpXor \<Rightarrow> Inl CyPanic
           | _ \<Rightarrow>
               if op \<in> {OpLt, OpLe, OpGt, OpGe}
               then (if a = VNull \<or> b = VNull then Inr VNull
                     else Inr (bool_or_null (map_option (compare_holds op) (cypher_cmp (x_tz x) a b))))
               else op_arith op a b))"

section \<open>Arguments\<close>

definition int_arg :: "cy_value \<Rightarrow> string \<Rightarrow> cypher_error + int option" where
  "int_arg v f =
     (let bad = rt (f @ ''() expects an integer, got '' @ type_name v) in
      case v of
        VNull \<Rightarrow> Inr None
      | VInt i \<Rightarrow> Inr (Some i)
      | VFloat x \<Rightarrow> if f64_is_integral x then Inr (Some (f64_as_int 64 x)) else bad
      | _ \<Rightarrow> bad)"

definition str_arg :: "cy_value \<Rightarrow> string \<Rightarrow> cypher_error + string option" where
  "str_arg v f =
     (case v of
        VNull \<Rightarrow> Inr None
      | VString s \<Rightarrow> Inr (Some s)
      | _ \<Rightarrow> rt (f @ ''() expects a string, got '' @ type_name v))"

definition num_fn :: "cy_value \<Rightarrow> string \<Rightarrow> (f64 \<Rightarrow> f64) \<Rightarrow> cypher_error + cy_value" where
  "num_fn v f op =
     (if v = VNull then Inr VNull
      else if is_number v then Inr (VFloat (op (as_f64_or_zero v)))
      else rt (f @ ''() expects a number, got '' @ type_name v))"

definition en_dash :: string where
  "en_dash = map char_of [226 :: nat, 128, 147]"

definition arity :: "string \<Rightarrow> cy_value list \<Rightarrow> nat \<Rightarrow> nat \<Rightarrow> cypher_error + unit" where
  "arity name args lo hi =
     (if length args < lo \<or> hi < length args
      then semantic (name @ ''() takes '' @ (if lo = hi then show_nat lo else show_nat lo @ en_dash @ show_nat hi)
             @ '' argument(s), got '' @ show_nat (length args))
      else Inr ())"

definition first_arg :: "cy_value list \<Rightarrow> cy_value" where
  "first_arg args = (case args of [] \<Rightarrow> VNull | a # _ \<Rightarrow> a)"

abbreviation of_a :: "string \<Rightarrow> cy_value \<Rightarrow> cypher_error + 'a" where
  "of_a f v \<equiv> rt (f @ ''() of a '' @ type_name v)"

section \<open>Functions of graph values and of lists\<close>

definition graph_function :: "string \<Rightarrow> cy_value list \<Rightarrow> (cypher_error + cy_value) option" where
  "graph_function name args =
     (let a0 = first_arg args in
      if name = ''coalesce'' then Some (Inr (first_arg (filter (\<lambda>v. \<not> cy_is_null v) args)))
      else if name = ''id'' \<or> name = ''elementid''
      then Some (rbind (arity name args 1 1) (\<lambda>_.
        case a0 of
          VNull \<Rightarrow> Inr VNull
        | VNode n \<Rightarrow> Inr (VString (node_element_id n))
        | VRel r \<Rightarrow> Inr (VString (rel_element_id r))
        | _ \<Rightarrow> of_a name a0))
      else if name = ''labels''
      then Some (case a0 of VNull \<Rightarrow> Inr VNull | VNode n \<Rightarrow> Inr (VList (map VString (cn_labels n))) | _ \<Rightarrow> of_a ''labels'' a0)
      else if name = ''type''
      then Some (case a0 of VNull \<Rightarrow> Inr VNull | VRel r \<Rightarrow> Inr (VString (cr_type r)) | _ \<Rightarrow> of_a ''type'' a0)
      else if name = ''keys''
      then Some (if a0 = VNull then Inr VNull else rbind (properties_of a0) (\<lambda>m. Inr (VList (map VString (bt_keys m)))))
      else if name = ''properties''
      then Some (if a0 = VNull then Inr VNull else rbind (properties_of a0) (\<lambda>m. Inr (VMap m)))
      else if name = ''startnode'' \<or> name = ''endnode''
      then Some (case a0 of
          VNull \<Rightarrow> Inr VNull
        | VRel r \<Rightarrow> Inr (VNode (CyNode (if name = ''startnode'' then cr_start r else cr_end r) [] []))
        | _ \<Rightarrow> of_a name a0)
      else if name = ''nodes''
      then Some (case a0 of VNull \<Rightarrow> Inr VNull | VPath ns _ \<Rightarrow> Inr (VList (map VNode ns)) | _ \<Rightarrow> of_a ''nodes'' a0)
      else if name = ''relationships'' \<or> name = ''rels''
      then Some (case a0 of VNull \<Rightarrow> Inr VNull | VPath _ rs \<Rightarrow> Inr (VList (map VRel rs)) | _ \<Rightarrow> of_a ''relationships'' a0)
      else None)"

text \<open>The integers of \<^verbatim>\<open>range\<close> from \<open>i\<close>, after \<open>n\<close> of them.\<close>

function range_items :: "int \<Rightarrow> int \<Rightarrow> int \<Rightarrow> nat \<Rightarrow> cypher_error + cy_value list" where
  "range_items step b i n =
     (if (step > 0 \<and> i \<le> b) \<or> (step < 0 \<and> i \<ge> b)
      then (if 10000000 \<le> n then rt ''range() is too large''
            else if \<not> i64_range (i + step) then Inl CyPanic
            else rbind (range_items step b (i + step) (Suc n)) (\<lambda>r. Inr (VInt i # r)))
      else Inr [])"
  by pat_completeness auto
termination
  by (relation "measure (\<lambda>(step, b, i, n). 10000000 - n)") auto

declare range_items.simps [simp del]

definition range_arg :: "cy_value \<Rightarrow> cypher_error + int option" where
  "range_arg v =
     (case v of
        VInt i \<Rightarrow> Inr (Some i)
      | VNull \<Rightarrow> Inr None
      | _ \<Rightarrow> rt (''range() expects integers, got '' @ type_name v))"

definition range_function :: "cy_value list \<Rightarrow> cypher_error + cy_value" where
  "range_function args =
     rbind (arity ''range'' args 2 3) (\<lambda>_.
     rbind (range_arg (args ! 0)) (\<lambda>a.
     rbind (range_arg (args ! 1)) (\<lambda>b.
       case (a, b) of
         (Some a, Some b) \<Rightarrow>
           rbind (if length args = 3 then rbind (range_arg (args ! 2)) (\<lambda>s. Inr (or_default s 1)) else Inr 1) (\<lambda>step.
             if step = 0 then rt ''range() step must not be zero''
             else rbind (range_items step b a 0) (\<lambda>r. Inr (VList r)))
       | _ \<Rightarrow> Inr VNull)))"

definition list_function :: "string \<Rightarrow> cy_value list \<Rightarrow> (cypher_error + cy_value) option" where
  "list_function name args =
     (let a0 = first_arg args in
      if name = ''size''
      then Some (case a0 of
          VNull \<Rightarrow> Inr VNull
        | VList l \<Rightarrow> Inr (VInt (int (length l)))
        | VString s \<Rightarrow> Inr (VInt (int (length (utf8_chars s))))
        | VMap m \<Rightarrow> Inr (VInt (int (length m)))
        | _ \<Rightarrow> of_a ''size'' a0)
      else if name = ''length''
      then Some (case a0 of
          VNull \<Rightarrow> Inr VNull
        | VPath _ rs \<Rightarrow> Inr (VInt (int (length rs)))
        | VString s \<Rightarrow> Inr (VInt (int (length (utf8_chars s))))
        | VList l \<Rightarrow> Inr (VInt (int (length l)))
        | _ \<Rightarrow> of_a ''length'' a0)
      else if name = ''isempty''
      then Some (case a0 of
          VNull \<Rightarrow> Inr VNull
        | VList l \<Rightarrow> Inr (VBool (l = []))
        | VString s \<Rightarrow> Inr (VBool (s = []))
        | VMap m \<Rightarrow> Inr (VBool (m = []))
        | _ \<Rightarrow> of_a ''isEmpty'' a0)
      else if name = ''head'' then Some (Inr (case a0 of VList (v # _) \<Rightarrow> v | _ \<Rightarrow> VNull))
      else if name = ''last'' then Some (Inr (case a0 of VList l \<Rightarrow> if l = [] then VNull else last l | _ \<Rightarrow> VNull))
      else if name = ''tail''
      then Some (case a0 of VList l \<Rightarrow> Inr (VList (drop 1 l)) | VNull \<Rightarrow> Inr VNull | _ \<Rightarrow> of_a ''tail'' a0)
      else if name = ''reverse''
      then Some (case a0 of
          VList l \<Rightarrow> Inr (VList (rev l))
        | VString s \<Rightarrow> Inr (VString (concat (rev (utf8_chars s))))
        | VNull \<Rightarrow> Inr VNull
        | _ \<Rightarrow> of_a ''reverse'' a0)
      else if name = ''range'' then Some (range_function args)
      else None)"

section \<open>Conversions\<close>

definition convert_function :: "string \<Rightarrow> cy_value list \<Rightarrow> (cypher_error + cy_value) option" where
  "convert_function name args =
     (let a0 = first_arg args in
      if name = ''tostring''
      then Some (case a0 of
          VNull \<Rightarrow> Inr VNull
        | VNode _ \<Rightarrow> of_a ''toString'' a0
        | VRel _ \<Rightarrow> of_a ''toString'' a0
        | VPath _ _ \<Rightarrow> of_a ''toString'' a0
        | VMap _ \<Rightarrow> of_a ''toString'' a0
        | VList _ \<Rightarrow> of_a ''toString'' a0
        | _ \<Rightarrow> Inr (VString (cy_to_string a0)))
      else if name = ''tointeger'' \<or> name = ''toint'' \<or> name = ''tointegerornull''
      then Some (Inr (case a0 of
          VInt i \<Rightarrow> VInt i
        | VFloat f \<Rightarrow> if f64_is_finite f then VInt (f64_as_int 64 (f64_trunc f)) else VNull
        | VString s \<Rightarrow>
            (case parse_i64 (trim s) of
               Some i \<Rightarrow> VInt i
             | None \<Rightarrow> (case f64_from_str (trim s) of Some f \<Rightarrow> VInt (f64_as_int 64 (f64_trunc f)) | None \<Rightarrow> VNull))
        | VBool b \<Rightarrow> VInt (if b then 1 else 0)
        | _ \<Rightarrow> VNull))
      else if name = ''tofloat'' \<or> name = ''tofloatornull''
      then Some (Inr (case a0 of
          VInt i \<Rightarrow> VFloat (f64_of_int i)
        | VFloat f \<Rightarrow> VFloat f
        | VString s \<Rightarrow> (case f64_from_str (trim s) of Some f \<Rightarrow> VFloat f | None \<Rightarrow> VNull)
        | _ \<Rightarrow> VNull))
      else if name = ''toboolean'' \<or> name = ''tobooleanornull''
      then Some (Inr (case a0 of
          VBool b \<Rightarrow> VBool b
        | VString s \<Rightarrow>
            (let t = map to_ascii_lowercase (trim s) in
             if t = ''true'' then VBool True else if t = ''false'' then VBool False else VNull)
        | VInt i \<Rightarrow> VBool (i \<noteq> 0)
        | _ \<Rightarrow> VNull))
      else if name = ''valuetype'' then Some (Inr (VString (type_name a0)))
      else None)"

section \<open>Functions of strings\<close>

definition on_string :: "(string \<Rightarrow> string) \<Rightarrow> string \<Rightarrow> cy_value \<Rightarrow> cypher_error + cy_value" where
  "on_string f name v = rbind (str_arg v name) (\<lambda>s. Inr (case s of None \<Rightarrow> VNull | Some s \<Rightarrow> VString (f s)))"

definition substring :: "cy_value list \<Rightarrow> cypher_error + cy_value" where
  "substring args =
     rbind (arity ''substring'' args 2 3) (\<lambda>_.
     rbind (str_arg (args ! 0) ''substring'') (\<lambda>s.
       case s of
         None \<Rightarrow> Inr VNull
       | Some s \<Rightarrow>
           rbind (int_arg (args ! 1) ''substring'') (\<lambda>i.
             case i of
               None \<Rightarrow> Inr VNull
             | Some i \<Rightarrow>
                 (let chars = utf8_chars s;
                      start = min (nat (max i 0)) (length chars);
                      result = (\<lambda>end'. Inr (VString (concat (take (end' - start) (drop start chars)))))
                  in if length args = 3
                     then rbind (int_arg (args ! 2) ''substring'') (\<lambda>l.
                       case l of
                         None \<Rightarrow> Inr VNull
                       | Some l \<Rightarrow> result (min (start + nat (max l 0)) (length chars)))
                     else result (length chars)))))"

definition left_right :: "string \<Rightarrow> cy_value list \<Rightarrow> cypher_error + cy_value" where
  "left_right name args =
     rbind (arity name args 2 2) (\<lambda>_.
     rbind (str_arg (args ! 0) name) (\<lambda>s.
     rbind (int_arg (args ! 1) name) (\<lambda>n.
       case (s, n) of
         (Some s, Some n) \<Rightarrow>
           let chars = utf8_chars s; k = min (nat (max n 0)) (length chars)
           in Inr (VString (concat (if name = ''left'' then take k chars else drop (length chars - k) chars)))
       | _ \<Rightarrow> Inr VNull)))"

definition string_function :: "eval_ext \<Rightarrow> string \<Rightarrow> cy_value list \<Rightarrow> (cypher_error + cy_value) option" where
  "string_function x name args =
     (let a0 = first_arg args in
      if name = ''tolower'' \<or> name = ''lower'' then Some (on_string (x_lower x) name a0)
      else if name = ''toupper'' \<or> name = ''upper'' then Some (on_string (x_upper x) name a0)
      else if name = ''trim'' then Some (on_string trim name a0)
      else if name = ''ltrim'' then Some (on_string trim_start name a0)
      else if name = ''rtrim'' then Some (on_string trim_end name a0)
      else if name = ''substring'' then Some (substring args)
      else if name = ''left'' \<or> name = ''right'' then Some (left_right name args)
      else if name = ''replace''
      then Some (rbind (arity name args 3 3) (\<lambda>_.
        rbind (str_arg (args ! 0) name) (\<lambda>s.
        rbind (str_arg (args ! 1) name) (\<lambda>from.
        rbind (str_arg (args ! 2) name) (\<lambda>to.
          Inr (case (s, from, to) of (Some s, Some from, Some to) \<Rightarrow> VString (replace_str from to s) | _ \<Rightarrow> VNull))))))
      else if name = ''split''
      then Some (rbind (arity name args 2 2) (\<lambda>_.
        rbind (str_arg (args ! 0) name) (\<lambda>s.
        rbind (str_arg (args ! 1) name) (\<lambda>d.
          Inr (case (s, d) of (Some s, Some d) \<Rightarrow> VList (map VString (split_str d s)) | _ \<Rightarrow> VNull)))))
      else None)"

section \<open>Functions of numbers\<close>

definition math_functions :: "string list" where
  "math_functions = [''exp'', ''log'', ''log10'', ''sin'', ''cos'', ''tan'', ''asin'', ''acos'', ''atan'', ''degrees'', ''radians'']"

definition number_function :: "eval_ext \<Rightarrow> string \<Rightarrow> cy_value list \<Rightarrow> (cypher_error + cy_value) option" where
  "number_function x name args =
     (let a0 = first_arg args in
      if name = ''abs''
      then Some (case a0 of
          VInt i \<Rightarrow> if i64_range \<bar>i\<bar> then Inr (VInt \<bar>i\<bar>) else Inl CyPanic
        | VFloat f \<Rightarrow> Inr (VFloat (f64_abs f))
        | VNull \<Rightarrow> Inr VNull
        | _ \<Rightarrow> of_a ''abs'' a0)
      else if name = ''sign''
      then Some (case a0 of
          VInt i \<Rightarrow> Inr (VInt (sgn i))
        | VFloat f \<Rightarrow> Inr (VInt (if f64_lt f64_zero f then 1 else if f64_lt f f64_zero then - 1 else 0))
        | VNull \<Rightarrow> Inr VNull
        | _ \<Rightarrow> of_a ''sign'' a0)
      else if name = ''ceil'' then Some (num_fn a0 name f64_ceil)
      else if name = ''floor'' then Some (num_fn a0 name f64_floor)
      else if name = ''round'' then Some (num_fn a0 name (\<lambda>v. f64_floor (f64_plus v f64_half)))
      else if name = ''sqrt'' then Some (num_fn a0 name f64_sqrt)
      else if name \<in> set math_functions then Some (num_fn a0 name (x_math x name))
      else if name = ''atan2''
      then Some (Inr (case (cy_as_f64 a0, case args of _ # b # _ \<Rightarrow> cy_as_f64 b | _ \<Rightarrow> None) of
          (Some p, Some q) \<Rightarrow> VFloat (x_atan2 x p q)
        | _ \<Rightarrow> VNull))
      else if name = ''pi'' then Some (Inr (VFloat F64_PI))
      else if name = ''e'' then Some (Inr (VFloat F64_E))
      else None)"

section \<open>Random values\<close>

definition hex_digit_val :: "char \<Rightarrow> int option" where
  "hex_digit_val c =
     (if is_ascii_digit c then Some (int (byte c) - 48)
      else if byte (to_ascii_lowercase c) \<in> {97..102} then Some (int (byte (to_ascii_lowercase c)) - 87)
      else None)"

text \<open>\<^verbatim>\<open>u64::from_str_radix(_, 16)\<close> of at most fifteen characters, the first of which is no sign.\<close>

definition hex_u64 :: "string \<Rightarrow> 64 word option" where
  "hex_u64 s =
     (if s = [] then None
      else map_option (\<lambda>ds. word_of_int (fold (\<lambda>d a. 16 * a + d) ds 0)) (those (map hex_digit_val s)))"

definition random_seed :: "string \<Rightarrow> 64 word" where
  "random_seed h = or_default (hex_u64 (take 15 h)) 0x9E3779B97F4A7C15 OR 1"

definition xorshift :: "64 word \<Rightarrow> 64 word" where
  "xorshift x0 =
     (let x1 = x0 XOR push_bit 13 x0;
          x2 = x1 XOR drop_bit 7 x1
      in x2 XOR push_bit 17 x2)"

definition random_f64 :: "eval_ext \<Rightarrow> f64 ev" where
  "random_f64 x = (\<lambda>s.
     let s1 = (if es_random s = 0 then s\<lparr>es_random := random_seed (x_fresh x (es_drawn s)), es_drawn := Suc (es_drawn s)\<rparr> else s);
         r = xorshift (es_random s1)
     in (Inr (f64_divide (f64_of_int (uint (drop_bit 11 r))) (f64_of_int (2 ^ 53))), s1\<lparr>es_random := r\<rparr>))"

definition random_uuid :: "eval_ext \<Rightarrow> cy_value ev" where
  "random_uuid x = (\<lambda>s.
     let h0 = x_fresh x (es_drawn s);
         h = replicate (32 - length h0) (CHR ''0'') @ h0;
         part = (\<lambda>a b. take (b - a) (drop a h))
     in (Inr (VString (part 0 8 @ ''-'' @ part 8 12 @ ''-'' @ part 12 16 @ ''-'' @ part 16 20 @ ''-'' @ part 20 32)),
         s\<lparr>es_drawn := Suc (es_drawn s)\<rparr>))"

section \<open>Functions of temporal values\<close>

definition function_kind :: "string \<Rightarrow> temporal_kind" where
  "function_kind name =
     (if name = ''date'' then KDate else if name = ''datetime'' then KDateTime else if name = ''localdatetime'' then KLocalDateTime
      else if name = ''time'' then KTime else if name = ''localtime'' then KLocalTime else KDuration)"

definition construct_ev :: "eval_ext \<Rightarrow> temporal_kind \<Rightarrow> cy_value option \<Rightarrow> cy_value ev" where
  "construct_ev x k arg = (\<lambda>s. case construct (x_tz x) (x_time x) k arg (es_clock s) of (r, c) \<Rightarrow> (r, s\<lparr>es_clock := c\<rparr>))"

definition base_name :: "string \<Rightarrow> string" where
  "base_name name = takeWhile (\<lambda>c. c \<noteq> CHR ''.'') name"

definition truncate_function :: "eval_ext \<Rightarrow> string \<Rightarrow> cy_value list \<Rightarrow> cypher_error + cy_value" where
  "truncate_function x name args =
     rbind (arity name args 2 3) (\<lambda>_.
     rbind (str_arg (args ! 0) name) (\<lambda>unit.
       case unit of
         None \<Rightarrow> Inr VNull
       | Some unit \<Rightarrow>
           rbind (t_from_value (x_tz x) (args ! 1)) (\<lambda>t.
             case t of
               None \<Rightarrow> if args ! 1 = VNull then Inr VNull else rt (name @ ''() needs a temporal value'')
             | Some t \<Rightarrow>
                 rbind (if length args = 3
                        then (case args ! 2 of
                                VMap m \<Rightarrow> Inr (Some m)
                              | VNull \<Rightarrow> Inr None
                              | o' \<Rightarrow> rt (name @ ''() expects a map, got '' @ type_name o'))
                        else Inr None) (\<lambda>overrides.
                   Cypher_Temporal_Ops.truncate (x_tz x) (function_kind (base_name name)) unit t overrides))))"

definition between_function :: "eval_ext \<Rightarrow> string \<Rightarrow> cy_value list \<Rightarrow> cypher_error + cy_value" where
  "between_function x name args =
     rbind (arity name args 2 2) (\<lambda>_.
     rbind (t_from_value (x_tz x) (args ! 0)) (\<lambda>a.
     rbind (t_from_value (x_tz x) (args ! 1)) (\<lambda>b.
       case (a, b) of
         (Some a, Some b) \<Rightarrow> between (x_tz x) (drop 9 name) a b
       | _ \<Rightarrow> if args ! 0 = VNull \<or> args ! 1 = VNull then Inr VNull else rt (name @ ''() needs temporal values''))))"

definition epoch_function :: "eval_ext \<Rightarrow> string \<Rightarrow> cy_value list \<Rightarrow> cypher_error + cy_value" where
  "epoch_function x name args =
     (if name = ''datetime.fromepoch''
      then rbind (arity name args 2 2) (\<lambda>_.
           rbind (int_arg (args ! 0) name) (\<lambda>s.
           rbind (int_arg (args ! 1) name) (\<lambda>n.
             case (s, n) of (Some s, Some n) \<Rightarrow> from_epoch (x_tz x) s n | _ \<Rightarrow> Inr VNull)))
      else rbind (arity name args 1 1) (\<lambda>_.
           rbind (int_arg (args ! 0) name) (\<lambda>ms.
             case ms of Some ms \<Rightarrow> from_epoch (x_tz x) (ms div 1000) (ms mod 1000 * 1000000) | None \<Rightarrow> Inr VNull)))"

definition clock_names :: "string list" where
  "clock_names = [''date'', ''datetime'', ''localdatetime'', ''time'', ''localtime'']"

definition temporal_function :: "eval_ext \<Rightarrow> string \<Rightarrow> cy_value list \<Rightarrow> cy_value ev option" where
  "temporal_function x name args =
     (if name \<in> set clock_names \<or> name = ''duration''
      then Some (ebind (lift (arity name args 0 1)) (\<lambda>_.
             construct_ev x (function_kind name) (case args of [] \<Rightarrow> None | a # _ \<Rightarrow> Some a)))
      else if name \<in> set (map (\<lambda>n. n @ ''.truncate'') clock_names) then Some (lift (truncate_function x name args))
      else if name \<in> {''duration.between'', ''duration.inmonths'', ''duration.indays'', ''duration.inseconds''}
      then Some (lift (between_function x name args))
      else if ends_with ''.statement'' name \<or> ends_with ''.transaction'' name \<or> ends_with ''.realtime'' name
      then Some (if base_name name \<notin> set clock_names then lift (unsupported (''function '' @ name @ ''()''))
                 else if args \<noteq> [] \<and> first_arg args = VNull then ret VNull
                 else construct_ev x (function_kind (base_name name)) None)
      else if name = ''datetime.fromepoch'' \<or> name = ''datetime.fromepochmillis'' then Some (lift (epoch_function x name args))
      else None)"

section \<open>Host functions and the table of functions\<close>

definition cy_from_term :: "eval_ext \<Rightarrow> rdf_term \<Rightarrow> cy_value" where
  "cy_from_term x t =
     (case t of
        Lit l \<Rightarrow> cy_from_literal (x_tz x) (x_sj x) l
      | NamedNode n \<Rightarrow> VString n
      | BlankNode b \<Rightarrow> VString (''_:'' @ b)
      | TripleTerm _ _ _ \<Rightarrow> VString (x_term_text x t))"

text \<open>The terms of the arguments of a host function; \<open>None\<close> when one of them is null.\<close>

fun host_terms :: "eval_ext \<Rightarrow> cy_value list \<Rightarrow> cypher_error + rdf_term list option" where
  "host_terms x [] = Inr (Some [])"
| "host_terms x (a # args) =
     (case a of
        VNull \<Rightarrow> Inr None
      | VNode n \<Rightarrow> rbind (host_terms x args) (\<lambda>ts. Inr (map_option (\<lambda>ts. subject_term (cn_id n) # ts) ts))
      | _ \<Rightarrow>
          rbind (to_literal (x_tz x) (x_sj x) a) (\<lambda>l.
            case l of
              None \<Rightarrow> Inr None
            | Some l \<Rightarrow> rbind (host_terms x args) (\<lambda>ts. Inr (map_option (\<lambda>ts. Lit l # ts) ts))))"

definition host_call :: "eval_ext \<Rightarrow> string \<Rightarrow> cy_value list \<Rightarrow> cypher_error + cy_value" where
  "host_call x name args =
     (case x_host x name of
        None \<Rightarrow> unsupported (''function '' @ name @ ''()'')
      | Some f \<Rightarrow>
          rbind (host_terms x args) (\<lambda>ts.
            Inr (case ts of
                   None \<Rightarrow> VNull
                 | Some ts \<Rightarrow> (case f ts of None \<Rightarrow> VNull | Some t \<Rightarrow> cy_from_term x t))))"

definition pure_function :: "eval_ext \<Rightarrow> string \<Rightarrow> cy_value list \<Rightarrow> (cypher_error + cy_value) option" where
  "pure_function x name args =
     or_else (graph_function name args)
       (or_else (list_function name args)
         (or_else (convert_function name args)
           (or_else (string_function x name args) (number_function x name args))))"

definition cy_function :: "eval_ext \<Rightarrow> string \<Rightarrow> cy_value list \<Rightarrow> cy_value ev" where
  "cy_function x name args =
     (if name = ''rand'' then ebind (random_f64 x) (\<lambda>f. ret (VFloat f))
      else if name = ''randomuuid'' then random_uuid x
      else case pure_function x name args of
        Some r \<Rightarrow> lift r
      | None \<Rightarrow>
          (case temporal_function x name args of
             Some m \<Rightarrow> m
           | None \<Rightarrow> lift (host_call x name args)))"

end
