(* ===== verification/Cypher_Eval.thy ===== *)
theory Cypher_Eval
  imports Cypher_Functions
begin

text \<open>
  Evaluation of Cypher expressions over a row (\<^verbatim>\<open>eval.rs\<close>). A row is the map of the variables in scope, as the list of its
  entries in key order. Boolean operators and \<^verbatim>\<open>CASE\<close> evaluate their operands on demand, so they take the
  computations of the operands.
\<close>

type_synonym row = cy_map

section \<open>Control\<close>

definition pred_ev :: "cy_value ev \<Rightarrow> bool ev" where
  "pred_ev m = ebind m (\<lambda>v. ebind (lift (truthy v)) (\<lambda>b. ret (b = Some True)))"

definition truth_ev :: "cy_value ev \<Rightarrow> bool option ev" where
  "truth_ev m = ebind m (\<lambda>v. lift (truthy v))"

definition and_ev :: "cy_value ev \<Rightarrow> cy_value ev \<Rightarrow> cy_value ev" where
  "and_ev ma mb =
     ebind (truth_ev ma) (\<lambda>x.
       if x = Some False then ret (VBool False)
       else ebind (truth_ev mb) (\<lambda>y.
         ret (case (x, y) of
                (_, Some False) \<Rightarrow> VBool False
              | (Some True, Some True) \<Rightarrow> VBool True
              | _ \<Rightarrow> VNull)))"

definition or_ev :: "cy_value ev \<Rightarrow> cy_value ev \<Rightarrow> cy_value ev" where
  "or_ev ma mb =
     ebind (truth_ev ma) (\<lambda>x.
       if x = Some True then ret (VBool True)
       else ebind (truth_ev mb) (\<lambda>y.
         ret (case (x, y) of
                (_, Some True) \<Rightarrow> VBool True
              | (Some False, Some False) \<Rightarrow> VBool False
              | _ \<Rightarrow> VNull)))"

definition xor_ev :: "cy_value ev \<Rightarrow> cy_value ev \<Rightarrow> cy_value ev" where
  "xor_ev ma mb =
     ebind (truth_ev ma) (\<lambda>x.
     ebind (truth_ev mb) (\<lambda>y.
       ret (case (x, y) of (Some x, Some y) \<Rightarrow> VBool (x \<noteq> y) | _ \<Rightarrow> VNull)))"

definition binary_ev :: "eval_ext \<Rightarrow> binop \<Rightarrow> cy_value ev \<Rightarrow> cy_value ev \<Rightarrow> cy_value ev" where
  "binary_ev x op ma mb =
     (case op of
        OpAnd \<Rightarrow> and_ev ma mb
      | OpOr \<Rightarrow> or_ev ma mb
      | OpXor \<Rightarrow> xor_ev ma mb
      | _ \<Rightarrow> ebind ma (\<lambda>a. ebind mb (\<lambda>b. lift (binary_values x op a b))))"

definition unary_value :: "unop \<Rightarrow> cy_value \<Rightarrow> cypher_error + cy_value" where
  "unary_value op v =
     (case op of
        OpNot \<Rightarrow> rbind (truthy v) (\<lambda>b. Inr (bool_or_null (map_option Not b)))
      | OpNeg \<Rightarrow>
          (case v of
             VNull \<Rightarrow> Inr VNull
           | VInt i \<Rightarrow> checked_i64 (- i)
           | VFloat f \<Rightarrow> Inr (VFloat (f64_neg f))
           | _ \<Rightarrow> rt (''cannot negate a '' @ type_name v))
      | OpPlus \<Rightarrow> Inr v)"

fun case_ev :: "(cy_value ev \<Rightarrow> bool ev) \<Rightarrow> (cy_value ev \<times> cy_value ev) list \<Rightarrow> cy_value ev \<Rightarrow> cy_value ev" where
  "case_ev hits [] dflt = dflt"
| "case_ev hits ((w, t) # whens) dflt = ebind (hits w) (\<lambda>hit. if hit then t else case_ev hits whens dflt)"

text \<open>The items of a list; \<open>None\<close> for null.\<close>

definition items_of :: "string \<Rightarrow> cy_value \<Rightarrow> cypher_error + cy_value list option" where
  "items_of what v =
     (case v of
        VNull \<Rightarrow> Inr None
      | VList items \<Rightarrow> Inr (Some items)
      | _ \<Rightarrow> rt (what @ '' over a '' @ type_name v))"

fun comp_ev :: "(cy_value \<Rightarrow> bool ev) \<Rightarrow> (cy_value \<Rightarrow> cy_value ev) \<Rightarrow> cy_value list \<Rightarrow> cy_value list ev" where
  "comp_ev keep out [] = ret []"
| "comp_ev keep out (v # vs) =
     ebind (keep v) (\<lambda>k.
       if k then ebind (out v) (\<lambda>w. ebind (comp_ev keep out vs) (\<lambda>ws. ret (w # ws))) else comp_ev keep out vs)"

fun reduce_ev :: "(cy_value \<Rightarrow> cy_value \<Rightarrow> cy_value ev) \<Rightarrow> cy_value \<Rightarrow> cy_value list \<Rightarrow> cy_value ev" where
  "reduce_ev f a [] = ret a"
| "reduce_ev f a (v # vs) = ebind (f a v) (\<lambda>a'. reduce_ev f a' vs)"

text \<open>The verdict of a quantifier from the truth values of its predicate on the items.\<close>

definition quantify :: "quantifier \<Rightarrow> bool option list \<Rightarrow> bool option" where
  "quantify q bs =
     (let trues = length (filter (\<lambda>b. b = Some True) bs);
          nulls = length (filter (\<lambda>b. b = None) bs);
          falses = length bs - trues - nulls
      in case q of
           QAll \<Rightarrow> if falses > 0 then Some False else if nulls > 0 then None else Some True
         | QAny \<Rightarrow> if trues > 0 then Some True else if nulls > 0 then None else Some False
         | QNone \<Rightarrow> if trues > 0 then Some False else if nulls > 0 then None else Some True
         | QSingle \<Rightarrow> if trues > 1 then Some False else if nulls > 0 then None else Some (trues = 1))"

definition row_var :: "row \<Rightarrow> string \<Rightarrow> cypher_error + cy_value" where
  "row_var row v = (case bt_get row v of Some w \<Rightarrow> Inr w | None \<Rightarrow> semantic (''variable '' @ backquoted v @ '' not defined''))"

text \<open>The entries of a map projection, each from the map built so far.\<close>

fun fold_ev :: "('a \<Rightarrow> 'b \<Rightarrow> 'b ev) \<Rightarrow> 'a list \<Rightarrow> 'b \<Rightarrow> 'b ev" where
  "fold_ev f [] b = ret b"
| "fold_ev f (a # as) b = ebind (f a b) (\<lambda>b'. fold_ev f as b')"

lemma fold_ev_cong [fundef_cong]:
  "as = as' \<Longrightarrow> b = b' \<Longrightarrow> (\<And>a c. a \<in> set as' \<Longrightarrow> f a c = g a c) \<Longrightarrow> fold_ev f as b = fold_ev g as' b'"
proof -
  have "(\<And>a c. a \<in> set as' \<Longrightarrow> f a c = g a c) \<Longrightarrow> fold_ev f as' = fold_ev g as'"
    by (induction as') (auto intro!: ext)
  then show "as = as' \<Longrightarrow> b = b' \<Longrightarrow> (\<And>a c. a \<in> set as' \<Longrightarrow> f a c = g a c) \<Longrightarrow> fold_ev f as b = fold_ev g as' b'"
    by simp
qed

section \<open>Expressions\<close>

fun eval :: "eval_ext \<Rightarrow> cy_map \<Rightarrow> row \<Rightarrow> cexpr \<Rightarrow> cy_value ev" where
  "eval x ps row XNull = ret VNull"
| "eval x ps row (XBool b) = ret (VBool b)"
| "eval x ps row (XInt i) = ret (VInt i)"
| "eval x ps row (XFloat f) = ret (VFloat f)"
| "eval x ps row (XStr s) = ret (VString s)"
| "eval x ps row (XParam p) =
     lift (case bt_get ps p of Some v \<Rightarrow> Inr v | None \<Rightarrow> semantic (''missing parameter $'' @ p))"
| "eval x ps row (XVar v) = lift (row_var row v)"
| "eval x ps row (XList items) = ebind (emap (eval x ps row) items) (\<lambda>vs. ret (VList vs))"
| "eval x ps row (XMap items) =
     ebind (emap (\<lambda>e. ebind (eval x ps row (snd e)) (\<lambda>v. ret (fst e, v))) items) (\<lambda>kvs.
       ret (VMap (fold (\<lambda>(k, v). bt_insert k v) kvs [])))"
| "eval x ps row (XProp e key) = ebind (eval x ps row e) (\<lambda>v. lift (property (x_tz x) v key))"
| "eval x ps row (XUnary op e) = ebind (eval x ps row e) (\<lambda>v. lift (unary_value op v))"
| "eval x ps row (XBinary op a b) = binary_ev x op (eval x ps row a) (eval x ps row b)"
| "eval x ps row (XIsNull e negated) = ebind (eval x ps row e) (\<lambda>v. ret (VBool (cy_is_null v \<noteq> negated)))"
| "eval x ps row (XHasLabels e labels) =
     ebind (eval x ps row e) (\<lambda>v.
       case v of
         VNull \<Rightarrow> ret VNull
       | VNode n \<Rightarrow> ret (VBool (list_all (\<lambda>l. l \<in> set (cn_labels n)) labels))
       | _ \<Rightarrow> lift (rt (''label test on a '' @ type_name v)))"
| "eval x ps row (XFunc name _ args) =
     (if is_aggregate name then lift (semantic (''aggregate '' @ name @ ''() is not allowed here''))
      else ebind (emap (eval x ps row) args) (cy_function x name))"
| "eval x ps row XCountStar = lift (semantic ''count(*) is not allowed here'')"
| "eval x ps row (XCase operand whens dflt) =
     (let branches = map (\<lambda>w. (eval x ps row (fst w), eval x ps row (snd w))) whens;
          other = (case dflt of Some e \<Rightarrow> eval x ps row e | None \<Rightarrow> ret VNull)
      in case operand of
           None \<Rightarrow> case_ev pred_ev branches other
         | Some o' \<Rightarrow>
             ebind (eval x ps row o') (\<lambda>v.
               case_ev (\<lambda>m. ebind m (\<lambda>w. ret (cypher_eq (x_tz x) v w = Some True))) branches other))"
| "eval x ps row (XListComp var l flt mp) =
     ebind (eval x ps row l) (\<lambda>v. ebind (lift (items_of ''list comprehension'' v)) (\<lambda>items.
       case items of
         None \<Rightarrow> ret VNull
       | Some items \<Rightarrow>
           ebind (comp_ev (\<lambda>item. case flt of Some f \<Rightarrow> pred_ev (eval x ps (bt_insert var item row) f) | None \<Rightarrow> ret True)
                    (\<lambda>item. case mp of Some m \<Rightarrow> eval x ps (bt_insert var item row) m | None \<Rightarrow> ret item) items) (\<lambda>out.
             ret (VList out))))"
| "eval x ps row (XQuantified q var l p) =
     ebind (eval x ps row l) (\<lambda>v. ebind (lift (items_of ''quantifier'' v)) (\<lambda>items.
       case items of
         None \<Rightarrow> ret VNull
       | Some items \<Rightarrow>
           ebind (emap (\<lambda>item. truth_ev (eval x ps (bt_insert var item row) p)) items) (\<lambda>bs.
             ret (bool_or_null (quantify q bs)))))"
| "eval x ps row (XReduce acc init var l e) =
     ebind (eval x ps row init) (\<lambda>a. ebind (eval x ps row l) (\<lambda>v. ebind (lift (items_of ''reduce'' v)) (\<lambda>items.
       case items of
         None \<Rightarrow> ret VNull
       | Some items \<Rightarrow> reduce_ev (\<lambda>a item. eval x ps (bt_insert var item (bt_insert acc a row)) e) a items)))"
| "eval x ps row (XIndex t i) =
     ebind (eval x ps row t) (\<lambda>t. ebind (eval x ps row i) (\<lambda>i. lift (cy_index (x_tz x) t i)))"
| "eval x ps row (XSlice t from to) =
     ebind (eval x ps row t) (\<lambda>t.
     ebind (case from of Some e \<Rightarrow> ebind (eval x ps row e) (\<lambda>v. ret (Some v)) | None \<Rightarrow> ret None) (\<lambda>from.
     ebind (case to of Some e \<Rightarrow> ebind (eval x ps row e) (\<lambda>v. ret (Some v)) | None \<Rightarrow> ret None) (\<lambda>to.
       lift (cy_slice t from to))))"
| "eval x ps row (XMapProjection var items) =
     ebind (lift (row_var row var)) (\<lambda>base.
       if cy_is_null base then ret VNull
       else ebind (lift (properties_of base)) (\<lambda>props.
         ebind (fold_ev (\<lambda>item out.
             case item of
               MiAllProps \<Rightarrow> ret (fold (\<lambda>(k, v). bt_insert k v) props out)
             | MiProp k \<Rightarrow> ret (bt_insert k (or_default (bt_get props k) VNull) out)
             | MiVar v \<Rightarrow> ebind (lift (row_var row v)) (\<lambda>w. ret (bt_insert v w out))
             | MiEntry k e \<Rightarrow> ebind (eval x ps row e) (\<lambda>w. ret (bt_insert k w out))) items []) (\<lambda>out.
           ret (VMap out))))"
| "eval x ps row (XPattern _) =
     lift (unsupported ''pattern expressions after a write clause or in a computed projection'')"
| "eval x ps row (XExists _ _) =
     lift (unsupported ''pattern expressions after a write clause or in a computed projection'')"
| "eval x ps row (XPatternComp _ _ _ _) =
     lift (unsupported ''pattern expressions after a write clause or in a computed projection'')"

definition eval_pred :: "eval_ext \<Rightarrow> cy_map \<Rightarrow> row \<Rightarrow> cexpr \<Rightarrow> bool ev" where
  "eval_pred x ps row e = pred_ev (eval x ps row e)"

end
