(* ===== verification/Cypher_Project.thy ===== *)
theory Cypher_Project
  imports Cypher_Eval "HOL-Library.Multiset"
begin

text \<open>
  Projections of rows in memory (\<^verbatim>\<open>exec.rs\<close>: \<^verbatim>\<open>project\<close>, \<^verbatim>\<open>extract_aggregates\<close>, the \<^verbatim>\<open>UNWIND\<close> and \<^verbatim>\<open>WITH\<close> clauses and the
  removal of duplicates of \<^verbatim>\<open>UNION\<close>) and the running aggregates they use (\<^verbatim>\<open>Acc\<close> of \<^verbatim>\<open>eval.rs\<close>). A set of group keys is
  the list of its elements, and the index of the groups by key a search of the list of groups.
\<close>

section \<open>Running aggregates\<close>

datatype acc =
    AccCount int
  | AccSum int f64 bool
  | AccAvg f64 int
  | AccMin "cy_value option"
  | AccMax "cy_value option"
  | AccCollect "cy_value list"
  | AccStDev "f64 list" bool
  | AccPercentile "f64 list" f64 bool

definition acc_new :: "string \<Rightarrow> cypher_error + acc" where
  "acc_new name =
     (if name = ''count'' then Inr (AccCount 0)
      else if name = ''sum'' then Inr (AccSum 0 f64_zero False)
      else if name = ''avg'' then Inr (AccAvg f64_zero 0)
      else if name = ''min'' then Inr (AccMin None)
      else if name = ''max'' then Inr (AccMax None)
      else if name = ''collect'' then Inr (AccCollect [])
      else if name = ''stdev'' then Inr (AccStDev [] False)
      else if name = ''stdevp'' then Inr (AccStDev [] True)
      else if name = ''percentilecont'' \<or> name = ''percentiledisc''
      then Inr (AccPercentile [] f64_half (name = ''percentilecont''))
      else unsupported (''aggregate '' @ name @ ''()''))"

definition acc_add :: "tz_ext \<Rightarrow> acc \<Rightarrow> cy_value \<Rightarrow> cypher_error + acc" where
  "acc_add tz a v =
     (if v = VNull then Inr a
      else case a of
        AccCount n \<Rightarrow> Inr (AccCount (n + 1))
      | AccSum i f is_float \<Rightarrow>
          (case v of
             VInt j \<Rightarrow> if i64_range (i + j) then Inr (AccSum (i + j) f is_float) else rt ''integer overflow in sum()''
           | VFloat g \<Rightarrow> Inr (AccSum i (f64_plus f g) True)
           | _ \<Rightarrow> rt (''sum() of a '' @ type_name v))
      | AccAvg tot n \<Rightarrow>
          (case cy_as_f64 v of
             Some f \<Rightarrow> Inr (AccAvg (f64_plus tot f) (n + 1))
           | None \<Rightarrow> rt (''avg() of a '' @ type_name v))
      | AccMin cur \<Rightarrow> Inr (AccMin (case cur of None \<Rightarrow> Some v | Some c \<Rightarrow> if cy_order tz v c = Less then Some v else cur))
      | AccMax cur \<Rightarrow> Inr (AccMax (case cur of None \<Rightarrow> Some v | Some c \<Rightarrow> if cy_order tz v c = Greater then Some v else cur))
      | AccCollect items \<Rightarrow> Inr (AccCollect (items @ [v]))
      | AccPercentile values p cont \<Rightarrow>
          (case cy_as_f64 v of
             Some f \<Rightarrow> Inr (AccPercentile (values @ [f]) p cont)
           | None \<Rightarrow> rt (''percentile of a '' @ type_name v))
      | AccStDev values population \<Rightarrow>
          (case cy_as_f64 v of
             Some f \<Rightarrow> Inr (AccStDev (values @ [f]) population)
           | None \<Rightarrow> rt (''stDev() of a '' @ type_name v)))"

text \<open>\<^verbatim>\<open>x as usize\<close> saturates at both ends.\<close>

definition f64_as_usize :: "f64 \<Rightarrow> nat" where
  "f64_as_usize x =
     (if f64_is_nan x \<or> f64_sign x then 0
      else if f64_is_inf x then 2 ^ 64 - 1
      else min (2 ^ 64 - 1) (nat (f64_scaled x div F64_UNIT)))"

definition partial_order :: "f64 \<Rightarrow> f64 \<Rightarrow> ordering" where
  "partial_order a b = or_default (f64_partial_cmp a b) Equal"

definition percentile :: "f64 list \<Rightarrow> f64 \<Rightarrow> bool \<Rightarrow> cypher_error + cy_value" where
  "percentile values0 p cont =
     (let values = sort_by partial_order values0; n = length values in
      if n = 0 then Inr VNull
      else if cont
      then (let pos = f64_times p (f64_of_int (int (n - 1)));
                lo = f64_as_usize (f64_floor pos); hi = f64_as_usize (f64_ceil pos)
            in if lo < n \<and> hi < n
               then Inr (VFloat (f64_plus (values ! lo)
                 (f64_times (f64_minus (values ! hi) (values ! lo)) (f64_minus pos (f64_of_int (int lo))))))
               else Inl CyPanic)
      else (let i = min (f64_as_usize (f64_ceil (f64_times p (f64_of_int (int n)))) - 1) (n - 1);
                v = values ! i
            in Inr (if f64_is_integral v \<and> f64_abs_lt v 9000000000000000 then VInt (f64_as_int 64 v) else VFloat v)))"

definition f64_sum :: "f64 list \<Rightarrow> f64" where
  "f64_sum xs = fold (\<lambda>v s. f64_plus s v) xs f64_zero"

definition st_dev :: "f64 list \<Rightarrow> bool \<Rightarrow> f64" where
  "st_dev values population =
     (let n = f64_of_int (int (length values));
          d = (if population then n else f64_minus n (f64_of_int 1))
      in if \<not> f64_lt f64_zero d then f64_zero
         else let mean = f64_divide (f64_sum values) n
              in f64_sqrt (f64_divide (f64_sum (map (\<lambda>v. f64_times (f64_minus v mean) (f64_minus v mean)) values)) d))"

definition acc_finish :: "acc \<Rightarrow> cypher_error + cy_value" where
  "acc_finish a =
     (case a of
        AccCount n \<Rightarrow> Inr (VInt n)
      | AccSum i f is_float \<Rightarrow> Inr (if is_float then VFloat (f64_plus f (f64_of_int i)) else VInt i)
      | AccAvg tot n \<Rightarrow> Inr (if n = 0 then VNull else VFloat (f64_divide tot (f64_of_int n)))
      | AccMin v \<Rightarrow> Inr (or_default v VNull)
      | AccMax v \<Rightarrow> Inr (or_default v VNull)
      | AccCollect items \<Rightarrow> Inr (VList items)
      | AccPercentile values p cont \<Rightarrow> percentile values p cont
      | AccStDev values population \<Rightarrow> Inr (VFloat (st_dev values population)))"

section \<open>Taking the aggregates out of an expression\<close>

record agg_spec =
  ag_placeholder :: string
  ag_func :: string
  ag_distinct :: bool
  ag_arg :: "cexpr option"
  ag_arg2 :: "cexpr option"

definition add_agg :: "string \<Rightarrow> bool \<Rightarrow> cexpr option \<Rightarrow> cexpr option \<Rightarrow> agg_spec list \<Rightarrow> cexpr \<times> agg_spec list" where
  "add_agg func dist arg arg2 aggs =
     (let p = CHR 0x01 # ''agg'' @ show_nat (length aggs)
      in (XVar p, aggs @ [\<lparr>ag_placeholder = p, ag_func = func, ag_distinct = dist, ag_arg = arg, ag_arg2 = arg2\<rparr>]))"

fun thread :: "('a \<Rightarrow> 's \<Rightarrow> 'b \<times> 's) \<Rightarrow> 'a list \<Rightarrow> 's \<Rightarrow> 'b list \<times> 's" where
  "thread f [] s = ([], s)"
| "thread f (x # xs) s = (case f x s of (y, s1) \<Rightarrow> case thread f xs s1 of (ys, s2) \<Rightarrow> (y # ys, s2))"

lemma thread_cong [fundef_cong]:
  "xs = ys \<Longrightarrow> s = t \<Longrightarrow> (\<And>x u. x \<in> set ys \<Longrightarrow> f x u = g x u) \<Longrightarrow> thread f xs s = thread g ys t"
  by (induction ys arbitrary: xs s t) (auto split: prod.split)

fun extract_aggregates :: "cexpr \<Rightarrow> agg_spec list \<Rightarrow> cexpr \<times> agg_spec list" where
  "extract_aggregates XCountStar aggs = add_agg ''count'' False None None aggs"
| "extract_aggregates (XFunc name dist args) aggs =
     (if is_aggregate name then add_agg name dist (get_nth args 0) (get_nth args 1) aggs
      else case thread extract_aggregates args aggs of (args', aggs') \<Rightarrow> (XFunc name dist args', aggs'))"
| "extract_aggregates (XBinary op a b) aggs =
     (case extract_aggregates a aggs of (a', aggs1) \<Rightarrow>
      case extract_aggregates b aggs1 of (b', aggs2) \<Rightarrow> (XBinary op a' b', aggs2))"
| "extract_aggregates (XUnary op a) aggs = (case extract_aggregates a aggs of (a', aggs') \<Rightarrow> (XUnary op a', aggs'))"
| "extract_aggregates (XList items) aggs =
     (case thread extract_aggregates items aggs of (items', aggs') \<Rightarrow> (XList items', aggs'))"
| "extract_aggregates (XListComp v l f m) aggs =
     (case extract_aggregates l aggs of (l', aggs') \<Rightarrow> (XListComp v l' f m, aggs'))"
| "extract_aggregates (XQuantified q v l p) aggs =
     (case extract_aggregates l aggs of (l', aggs') \<Rightarrow> (XQuantified q v l' p, aggs'))"
| "extract_aggregates (XMap items) aggs =
     (case thread (\<lambda>e s. case extract_aggregates (snd e) s of (e', s') \<Rightarrow> ((fst e, e'), s')) items aggs of
        (items', aggs') \<Rightarrow> (XMap items', aggs'))"
| "extract_aggregates (XIndex a b) aggs =
     (case extract_aggregates a aggs of (a', aggs1) \<Rightarrow>
      case extract_aggregates b aggs1 of (b', aggs2) \<Rightarrow> (XIndex a' b', aggs2))"
| "extract_aggregates (XProp a k) aggs = (case extract_aggregates a aggs of (a', aggs') \<Rightarrow> (XProp a' k, aggs'))"
| "extract_aggregates (XCase operand whens dflt) aggs =
     (case (case operand of None \<Rightarrow> (None, aggs) | Some o' \<Rightarrow> (case extract_aggregates o' aggs of (o'', s) \<Rightarrow> (Some o'', s))) of (operand', aggs1) \<Rightarrow>
      case thread (\<lambda>w s. case extract_aggregates (fst w) s of (c, s1) \<Rightarrow> case extract_aggregates (snd w) s1 of (t, s2) \<Rightarrow> ((c, t), s2))
             whens aggs1 of (whens', aggs2) \<Rightarrow>
      case (case dflt of None \<Rightarrow> (None, aggs2) | Some d \<Rightarrow> (case extract_aggregates d aggs2 of (d', s) \<Rightarrow> (Some d', s))) of (dflt', aggs3) \<Rightarrow>
        (XCase operand' whens' dflt', aggs3))"
| "extract_aggregates e aggs = (e, aggs)"

section \<open>Grouping\<close>

record grp =
  gr_key :: "gkey list"
  gr_row :: row
  gr_accs :: "(acc \<times> gkey list) list"

type_synonym agg_item = "string \<times> cexpr \<times> bool"

text \<open>One row into one aggregate.\<close>

definition percentile_arg :: "eval_ext \<Rightarrow> cy_map \<Rightarrow> row \<Rightarrow> cexpr \<Rightarrow> acc \<Rightarrow> acc ev" where
  "percentile_arg x ps row e a =
     (case a of
        AccPercentile values p cont \<Rightarrow>
          ebind (eval x ps row e) (\<lambda>v.
            case cy_as_f64 v of
              None \<Rightarrow> ret a
            | Some q \<Rightarrow>
                if f64_lt q f64_zero \<or> f64_lt (f64_of_int 1) q \<or> f64_is_nan q
                then lift (rt ''percentile must be between 0.0 and 1.0'')
                else ret (AccPercentile values q cont))
      | _ \<Rightarrow> ret a)"

definition agg_row :: "eval_ext \<Rightarrow> cy_map \<Rightarrow> row \<Rightarrow> agg_spec \<times> acc \<times> gkey list \<Rightarrow> (acc \<times> gkey list) ev" where
  "agg_row x ps row = (\<lambda>(spec, a0, seen).
     ebind (case ag_arg2 spec of None \<Rightarrow> ret a0 | Some e \<Rightarrow> percentile_arg x ps row e a0) (\<lambda>a.
     ebind (case ag_arg spec of None \<Rightarrow> ret (VBool True) | Some e \<Rightarrow> eval x ps row e) (\<lambda>v.
       if ag_distinct spec \<and> v \<noteq> VNull
       then (if group_key v \<in> set seen then ret (a, seen)
             else ebind (lift (acc_add (x_tz x) a v)) (\<lambda>a'. ret (a', group_key v # seen)))
       else ebind (lift (acc_add (x_tz x) a v)) (\<lambda>a'. ret (a', seen)))))"

definition new_accs :: "agg_spec list \<Rightarrow> cypher_error + (acc \<times> gkey list) list" where
  "new_accs aggs = map_result (\<lambda>a. rbind (acc_new (ag_func a)) (\<lambda>c. Inr (c, []))) aggs"

definition group_row :: "eval_ext \<Rightarrow> cy_map \<Rightarrow> agg_item list \<Rightarrow> agg_spec list \<Rightarrow> row \<Rightarrow> grp list \<Rightarrow> grp list ev" where
  "group_row x ps items aggs row groups =
     ebind (emap (\<lambda>(n, e, _). ebind (eval x ps row e) (\<lambda>v. ret (n, v))) (filter (\<lambda>(_, _, is_agg). \<not> is_agg) items)) (\<lambda>kvs.
       let key = map (\<lambda>(_, v). group_key v) kvs; keyrow = fold (\<lambda>(n, v). bt_insert n v) kvs [] in
       ebind (case find_index (\<lambda>g. gr_key g = key) groups of
                Some i \<Rightarrow> ret (i, groups)
              | None \<Rightarrow>
                  ebind (lift (new_accs aggs)) (\<lambda>accs.
                    ret (length groups, groups @ [\<lparr>gr_key = key, gr_row = keyrow, gr_accs = accs\<rparr>]))) (\<lambda>(i, gs).
       ebind (emap (agg_row x ps row) (zip aggs (gr_accs (gs ! i)))) (\<lambda>accs.
         ret (gs[i := (gs ! i)\<lparr>gr_accs := accs\<rparr>]))))"

definition group_value :: "eval_ext \<Rightarrow> cy_map \<Rightarrow> agg_item list \<Rightarrow> agg_spec list \<Rightarrow> grp \<Rightarrow> row ev" where
  "group_value x ps items aggs g =
     ebind (emap (\<lambda>(spec, a, _). ebind (lift (acc_finish a)) (\<lambda>v. ret (ag_placeholder spec, v))) (zip aggs (gr_accs g))) (\<lambda>vs.
       let env = fold (\<lambda>(n, v). bt_insert n v) vs (gr_row g) in
       ebind (emap (\<lambda>(n, e, is_agg).
           ebind (if is_agg then eval x ps env e else ret (or_default (bt_get (gr_row g) n) VNull)) (\<lambda>v. ret (n, v))) items) (\<lambda>nvs.
         ret (fold (\<lambda>(n, v). bt_insert n v) nvs [])))"

text \<open>The items with their aggregates taken out, and the aggregates.\<close>

definition rewrite_items :: "(string \<times> cexpr) list \<Rightarrow> agg_item list \<times> agg_spec list" where
  "rewrite_items items =
     thread (\<lambda>(n, e) aggs.
       if has_aggregate e then (case extract_aggregates e aggs of (e', aggs') \<Rightarrow> ((n, e', True), aggs')) else ((n, e, False), aggs))
       items []"

definition aggregate_rows :: "eval_ext \<Rightarrow> cy_map \<Rightarrow> (string \<times> cexpr) list \<Rightarrow> row list \<Rightarrow> (row \<times> row) list ev" where
  "aggregate_rows x ps items rows =
     (case rewrite_items items of (rewritten, aggs) \<Rightarrow>
        ebind (fold_ev (group_row x ps rewritten aggs) rows []) (\<lambda>groups.
        ebind (if groups = [] \<and> list_all (\<lambda>(_, _, is_agg). is_agg) rewritten
               then ebind (lift (new_accs aggs)) (\<lambda>accs. ret [\<lparr>gr_key = [], gr_row = [], gr_accs = accs\<rparr>])
               else ret groups) (\<lambda>groups.
          emap (\<lambda>g. ebind (group_value x ps rewritten aggs g) (\<lambda>row. ret (row, row))) groups)))"

section \<open>Projection\<close>

definition project_row :: "eval_ext \<Rightarrow> cy_map \<Rightarrow> (string \<times> cexpr) list \<Rightarrow> row \<Rightarrow> (row \<times> row) ev" where
  "project_row x ps items r =
     ebind (emap (\<lambda>(n, e). ebind (eval x ps r e) (\<lambda>v. ret (n, v))) items) (\<lambda>nvs.
       let row = fold (\<lambda>(n, v). bt_insert n v) nvs []
       in ret (row, fold (\<lambda>(n, v). bt_insert n v) row r))"

text \<open>The names \<^verbatim>\<open>*\<close> stands for, in order.\<close>

definition star_names :: "row list \<Rightarrow> string list" where
  "star_names rows =
     bt_keys (fold (\<lambda>k. bt_insert k ()) (filter (\<lambda>k. \<not> starts_with [CHR 0x01] k) (concat (map bt_keys rows))) [])"

definition projection_items :: "row list \<Rightarrow> projection \<Rightarrow> (string \<times> cexpr) list" where
  "projection_items rows p =
     (if pj_star p then map (\<lambda>n. (n, XVar n)) (star_names rows) else []) @ map (\<lambda>it. (item_name it, pi_expr it)) (pj_items p)"

fun filter_ev :: "('a \<Rightarrow> bool ev) \<Rightarrow> 'a list \<Rightarrow> 'a list ev" where
  "filter_ev f [] = ret []"
| "filter_ev f (a # as) = ebind (f a) (\<lambda>b. ebind (filter_ev f as) (\<lambda>r. ret (if b then a # r else r)))"

text \<open>\<^verbatim>\<open>retain\<close> of the first element of each key.\<close>

fun retain_first :: "('a \<Rightarrow> 'k) \<Rightarrow> 'k list \<Rightarrow> 'a list \<Rightarrow> 'a list" where
  "retain_first key seen [] = []"
| "retain_first key seen (a # as) =
     (if key a \<in> set seen then retain_first key seen as else a # retain_first key (key a # seen) as)"

definition distinct_key :: "string list \<Rightarrow> row \<Rightarrow> gkey list" where
  "distinct_key names r = map (\<lambda>n. case bt_get r n of Some v \<Rightarrow> group_key v | None \<Rightarrow> GkNull) names"

fun order_keys :: "tz_ext \<Rightarrow> bool list \<Rightarrow> cy_value list \<Rightarrow> cy_value list \<Rightarrow> ordering" where
  "order_keys tz (asc # flags) (a # as) (b # bs) =
     (let c = (if asc then cy_order tz a b else reverse_ordering (cy_order tz a b))
      in if c \<noteq> Equal then c else order_keys tz flags as bs)"
| "order_keys tz _ _ _ = Equal"

definition order_rows :: "eval_ext \<Rightarrow> cy_map \<Rightarrow> (string \<times> cexpr) list \<Rightarrow> (cexpr \<times> bool) list \<Rightarrow> (row \<times> row) list \<Rightarrow> (row \<times> row) list ev" where
  "order_rows x ps items order out =
     (let targets = map (\<lambda>(n, e). (e, XVar n)) items;
          exprs = map (\<lambda>(e, _). replace_subexprs targets e) order
      in ebind (emap (\<lambda>(r, env). ebind (emap (eval x ps env) exprs) (\<lambda>k. ret (k, r))) out) (\<lambda>keyed.
           ret (map (\<lambda>(_, r). (r, r)) (sort_by (\<lambda>a b. order_keys (x_tz x) (map snd order) (fst a) (fst b)) keyed))))"

definition row_count :: "eval_ext \<Rightarrow> cy_map \<Rightarrow> cexpr option \<Rightarrow> nat option ev" where
  "row_count x ps e =
     (case e of
        None \<Rightarrow> ret None
      | Some e \<Rightarrow>
          ebind (eval x ps [] e) (\<lambda>v.
            lift (case v of
                    VInt i \<Rightarrow> if 0 \<le> i then Inr (Some (nat i)) else semantic ''SKIP and LIMIT need a non-negative integer''
                  | _ \<Rightarrow> semantic ''SKIP and LIMIT need a non-negative integer'')))"

text \<open>\<^verbatim>\<open>WITH \<dots> WHERE\<close> over variables that are not projected filters before \<^verbatim>\<open>DISTINCT\<close> and \<^verbatim>\<open>ORDER BY\<close>.\<close>

definition early_where :: "projection \<Rightarrow> string list \<Rightarrow> bool \<Rightarrow> bool" where
  "early_where p names aggregating \<longleftrightarrow>
     (case pj_where p of
        None \<Rightarrow> False
      | Some w \<Rightarrow> \<not> aggregating \<and> pj_skip p = None \<and> pj_limit p = None
          \<and> list_ex (\<lambda>e. case e of XVar v \<Rightarrow> v \<notin> set names | _ \<Rightarrow> False) (walk w))"

definition project :: "eval_ext \<Rightarrow> cy_map \<Rightarrow> row list \<Rightarrow> projection \<Rightarrow> (row list \<times> string list) ev" where
  "project x ps rows p =
     (let items = projection_items rows p; names = map fst items;
          aggregating = list_ex (\<lambda>(_, e). has_aggregate e) items;
          early = early_where p names aggregating
      in ebind (if aggregating then aggregate_rows x ps items rows else emap (project_row x ps items) rows) (\<lambda>out.
         ebind (case pj_where p of
                  Some w \<Rightarrow> if early then filter_ev (\<lambda>(_, env). eval_pred x ps env w) out else ret out
                | None \<Rightarrow> ret out) (\<lambda>out.
         ebind (let out1 = (if pj_distinct p then retain_first (\<lambda>(r, _). distinct_key names r) [] out else out)
                in if pj_order p = [] then ret out1 else order_rows x ps items (pj_order p) out1) (\<lambda>out.
         ebind (row_count x ps (pj_skip p)) (\<lambda>skip.
         ebind (row_count x ps (pj_limit p)) (\<lambda>limit.
           let rows1 = drop (or_default skip 0) (map fst out);
               rows2 = (case limit of Some l \<Rightarrow> take l rows1 | None \<Rightarrow> rows1)
           in ebind (case pj_where p of
                       Some w \<Rightarrow> if early then ret rows2 else filter_ev (\<lambda>r. eval_pred x ps r w) rows2
                     | None \<Rightarrow> ret rows2) (\<lambda>rows3.
                ret (rows3, names))))))))"

section \<open>Clauses without writes\<close>

definition unwind_row :: "eval_ext \<Rightarrow> cy_map \<Rightarrow> cexpr \<Rightarrow> string \<Rightarrow> row \<Rightarrow> row list ev" where
  "unwind_row x ps e alias r =
     ebind (eval x ps r e) (\<lambda>v.
       ret (case v of
              VNull \<Rightarrow> []
            | VList items \<Rightarrow> map (\<lambda>i. bt_insert alias i r) items
            | _ \<Rightarrow> [bt_insert alias v r]))"

definition unwind :: "eval_ext \<Rightarrow> cy_map \<Rightarrow> cexpr \<Rightarrow> string \<Rightarrow> row list \<Rightarrow> row list ev" where
  "unwind x ps e alias rows = ebind (emap (unwind_row x ps e alias) rows) (\<lambda>rss. ret (concat rss))"

definition with_clause :: "eval_ext \<Rightarrow> cy_map \<Rightarrow> projection \<Rightarrow> row list \<Rightarrow> row list ev" where
  "with_clause x ps p rows = ebind (project x ps rows p) (\<lambda>(rows, _). ret rows)"

text \<open>The rows of the result: a query of several parts, one of them joined by plain \<^verbatim>\<open>UNION\<close>, drops repeated rows.\<close>

definition union_rows :: "nat \<Rightarrow> bool list \<Rightarrow> cy_value list list \<Rightarrow> cy_value list list" where
  "union_rows parts union_all rows =
     (if 1 < parts \<and> list_ex Not union_all then retain_first (map group_key) [] rows else rows)"

end
