(* ===== verification/Cypher_Query_Laws.thy ===== *)
theory Cypher_Query_Laws
  imports Cypher_Project
begin

text \<open>
  Properties of expressions and projections: what quantifiers and boolean operators have to do with negation, the contents of
  \<^verbatim>\<open>range\<close>, that \<^verbatim>\<open>ORDER BY\<close> sorts, and what grouping counts.
\<close>

section \<open>Computations\<close>

lemma ebind_ret [simp]: "ebind (ret v) f = f v" "ebind m ret = m"
  by (auto simp: ebind_def ret_def fun_eq_iff split: prod.split sum.split)

lemma ebind_assoc: "ebind (ebind m f) g = ebind m (\<lambda>v. ebind (f v) g)"
  by (auto simp: ebind_def fun_eq_iff split: prod.split sum.split)

lemma ebind_lift [simp]: "ebind (lift (Inr v)) f = f v" "ebind (lift (Inl e)) f = lift (Inl e)" "lift (Inr v) = ret v"
  by (auto simp: ebind_def lift_def ret_def)

lemma ebind_lift_rbind: "lift (rbind r f) = ebind (lift r) (\<lambda>v. lift (f v))"
  by (cases r) (auto simp: ebind_def lift_def fun_eq_iff)

lemma ebind_eqI: "(\<And>v. f v = g v) \<Longrightarrow> ebind m f = ebind m g"
  by (auto simp: ebind_def fun_eq_iff split: prod.split sum.split)

lemma emap_ret [simp]: "emap (\<lambda>v. ret (f v)) xs = ret (map f xs)"
  by (induction xs) auto

lemma emap_after: "emap (\<lambda>v. ebind (f v) (\<lambda>b. ret (g b))) xs = ebind (emap f xs) (\<lambda>bs. ret (map g bs))"
  by (induction xs) (auto simp: ebind_assoc)

lemma ebind_Inr: "ebind m f s = (Inr y, s') \<longleftrightarrow> (\<exists>v u. m s = (Inr v, u) \<and> f v u = (Inr y, s'))"
  by (auto simp: ebind_def split: prod.splits sum.splits)

section \<open>Negation\<close>

lemma truth_not: "truth_ev (ebind m (\<lambda>v. lift (unary_value OpNot v))) = ebind (truth_ev m) (\<lambda>b. ret (map_option Not b))"
proof -
  have "ebind (lift (unary_value OpNot v)) (\<lambda>w. lift (truthy w)) = ebind (lift (truthy v)) (\<lambda>b. ret (map_option Not b))" for v
    by (cases v) (auto simp: unary_value_def truthy_def bool_or_null_def rt_def)
  then show ?thesis by (simp add: truth_ev_def ebind_assoc)
qed

lemma not_verdict: "lift (unary_value OpNot (bool_or_null b)) = ret (bool_or_null (map_option Not b))"
  by (cases b) (auto simp: unary_value_def bool_or_null_def truthy_def)

lemma not_value [simp]: "lift (unary_value OpNot VNull) = ret VNull" "lift (unary_value OpNot (VBool b)) = ret (VBool (\<not> b))"
  using not_verdict [of None] not_verdict [of "Some b"] by (simp_all add: bool_or_null_def)

lemma quantify_not: "quantify QAll (map (map_option Not) bs) = map_option Not (quantify QAny bs)"
proof -
  have l: "length bs = length (filter (\<lambda>b. b = Some True) bs) + length (filter (\<lambda>b. b = None) bs) + length (filter (\<lambda>b. b = Some False) bs)"
    by (induction bs) auto
  have t: "(\<lambda>b. b = Some True) \<circ> map_option Not = (\<lambda>b. b = Some False)" "(\<lambda>b. b = None) \<circ> map_option Not = (\<lambda>b. b = None)"
    by (auto simp: fun_eq_iff)
  show ?thesis using l by (auto simp: quantify_def Let_def t)
qed

lemma quantify_none: "quantify QNone bs = map_option Not (quantify QAny bs)"
  by (simp add: quantify_def Let_def)

lemma not_and:
  "ebind (and_ev ma mb) (\<lambda>v. lift (unary_value OpNot v)) =
   or_ev (ebind ma (\<lambda>v. lift (unary_value OpNot v))) (ebind mb (\<lambda>v. lift (unary_value OpNot v)))"
  unfolding and_ev_def or_ev_def truth_not ebind_assoc ebind_ret
  by (intro ebind_eqI) (auto simp: ebind_assoc intro!: ebind_eqI split: option.split bool.split)

lemma not_or:
  "ebind (or_ev ma mb) (\<lambda>v. lift (unary_value OpNot v)) =
   and_ev (ebind ma (\<lambda>v. lift (unary_value OpNot v))) (ebind mb (\<lambda>v. lift (unary_value OpNot v)))"
  unfolding and_ev_def or_ev_def truth_not ebind_assoc ebind_ret
  by (intro ebind_eqI) (auto simp: ebind_assoc intro!: ebind_eqI split: option.split bool.split)

text \<open>
  C27. Negation moves through quantifiers and boolean operators, errors, nulls and the order of evaluation included: \<open>NOT any\<close> is
  \<open>all NOT\<close> and is \<open>none\<close>, and both laws of De Morgan hold of the short-circuiting operators.
\<close>

theorem negation_laws:
  "eval x ps row (XUnary OpNot (XQuantified QAny v l p)) = eval x ps row (XQuantified QAll v l (XUnary OpNot p))
   \<and> eval x ps row (XUnary OpNot (XQuantified QAny v l p)) = eval x ps row (XQuantified QNone v l p)
   \<and> eval x ps row (XUnary OpNot (XBinary OpAnd a b)) = eval x ps row (XBinary OpOr (XUnary OpNot a) (XUnary OpNot b))
   \<and> eval x ps row (XUnary OpNot (XBinary OpOr a b)) = eval x ps row (XBinary OpAnd (XUnary OpNot a) (XUnary OpNot b))"
proof (intro conjI)
  have e: "emap (\<lambda>i. truth_ev (eval x ps (bt_insert v i row) (XUnary OpNot p))) items =
      ebind (emap (\<lambda>i. truth_ev (eval x ps (bt_insert v i row) p)) items) (\<lambda>bs. ret (map (map_option Not) bs))" for items
    by (simp add: truth_not emap_after)
  show "eval x ps row (XUnary OpNot (XQuantified QAny v l p)) = eval x ps row (XQuantified QAll v l (XUnary OpNot p))"
    unfolding eval.simps(11,19) ebind_assoc
    by (intro ebind_eqI) (simp add: e [simplified] ebind_assoc not_verdict quantify_not split: option.split)
  show "eval x ps row (XUnary OpNot (XQuantified QAny v l p)) = eval x ps row (XQuantified QNone v l p)"
    unfolding eval.simps(11,19) ebind_assoc
    by (intro ebind_eqI) (simp add: ebind_assoc not_verdict quantify_none split: option.split)
  show "eval x ps row (XUnary OpNot (XBinary OpAnd a b)) = eval x ps row (XBinary OpOr (XUnary OpNot a) (XUnary OpNot b))"
    by (simp add: binary_ev_def not_and)
  show "eval x ps row (XUnary OpNot (XBinary OpOr a b)) = eval x ps row (XBinary OpAnd (XUnary OpNot a) (XUnary OpNot b))"
    by (simp add: binary_ev_def not_or)
qed

section \<open>Ranges\<close>

text \<open>How many integers from \<open>a\<close> on, \<open>step\<close> apart, do not pass \<open>b\<close>.\<close>

definition range_count :: "int \<Rightarrow> int \<Rightarrow> int \<Rightarrow> nat" where
  "range_count step b a =
     (if 0 < step then (if a \<le> b then Suc (nat ((b - a) div step)) else 0)
      else (if b \<le> a then Suc (nat ((a - b) div (- step))) else 0))"

lemma range_div_step: "0 < (d :: int) \<Longrightarrow> d \<le> n \<Longrightarrow> nat (n div d) = Suc (nat ((n - d) div d))"
proof -
  assume d: "0 < d" "d \<le> n"
  have "n div d = (n - d) div d + 1" using d div_add_self2 [of d "n - d"] by simp
  moreover have "0 \<le> (n - d) div d" using d by (simp add: pos_imp_zdiv_nonneg_iff)
  ultimately show ?thesis by simp
qed

lemma range_count_step:
  assumes "step \<noteq> 0"
  shows "range_count step b a = (if (step > 0 \<and> a \<le> b) \<or> (step < 0 \<and> a \<ge> b) then Suc (range_count step b (a + step)) else 0)"
proof (cases "0 < step")
  case True
  have "nat ((b - a) div step) = (if a + step \<le> b then Suc (nat ((b - (a + step)) div step)) else 0)" if "a \<le> b"
    using True that range_div_step [of step "b - a"] by (auto simp: algebra_simps)
  then show ?thesis using True by (auto simp: range_count_def)
next
  case False
  then have "nat ((a - b) div (- step)) = (if b \<le> a + step then Suc (nat ((a + step - b) div (- step))) else 0)" if "b \<le> a"
    using that assms range_div_step [of "- step" "a - b"] by (auto simp: algebra_simps)
  then show ?thesis using False assms by (auto simp: range_count_def)
qed

lemma range_items_eq:
  assumes "step \<noteq> 0" "i64_range b"
  shows "i64_range a \<Longrightarrow> n \<le> 10000000 \<Longrightarrow>
    range_items step b a n =
      (let c = range_count step b a in
       if 10000000 < n + c then rt ''range() is too large''
       else if 0 < c \<and> \<not> i64_range (a + int c * step) then Inl CyPanic
       else Inr (map (\<lambda>j. VInt (a + int j * step)) [0..<c]))"
proof (induction "range_count step b a" arbitrary: a n)
  case 0
  then show ?case using range_count_step [OF assms(1), of b a] by (subst range_items.simps) (auto split: if_splits)
next
  case (Suc c)
  then have cond: "(step > 0 \<and> a \<le> b) \<or> (step < 0 \<and> a \<ge> b)" and c: "range_count step b (a + step) = c"
    using range_count_step [OF assms(1), of b a] by (auto split: if_splits)
  have last: "c = 0" if "\<not> i64_range (a + step)"
    using that cond c Suc.prems(1) assms(2) by (auto simp: range_count_def i64_range_def split: if_splits)
  have shift: "map (\<lambda>j. VInt (a + int j * step)) [0..<Suc c] = VInt a # map (\<lambda>j. VInt (a + step + int j * step)) [0..<c]"
    by (simp add: upt_conv_Cons map_Suc_upt [symmetric] algebra_simps del: upt_Suc)
  show ?case
  proof (cases "10000000 \<le> n \<or> \<not> i64_range (a + step)")
    case True
    then show ?thesis using cond Suc.hyps(2) [symmetric] Suc.prems(2) last
      by (subst range_items.simps) (auto simp: Let_def)
  next
    case False
    then have "range_items step b a n = rbind (range_items step b (a + step) (Suc n)) (\<lambda>r. Inr (VInt a # r))"
      using cond by (subst range_items.simps) auto
    also have "\<dots> = rbind (let c = range_count step b (a + step) in
       if 10000000 < Suc n + c then rt ''range() is too large''
       else if 0 < c \<and> \<not> i64_range (a + step + int c * step) then Inl CyPanic
       else Inr (map (\<lambda>j. VInt (a + step + int j * step)) [0..<c])) (\<lambda>r. Inr (VInt a # r))"
      using Suc.hyps(1) [of "a + step" "Suc n"] c False by simp
    finally show ?thesis
      unfolding Suc.hyps(2) [symmetric] c Let_def shift
      using False by (cases "c = 0") (auto simp: algebra_simps rt_def)
  qed
qed

text \<open>
  C40. \<^verbatim>\<open>range(a, b, step)\<close> is the arithmetic progression from \<open>a\<close> up (or down) to the last value not past \<open>b\<close>: with more than ten
  million of them it is an error, and where the value after the last one overflows the code panics although the list itself exists.
\<close>

theorem range_progression:
  assumes "step \<noteq> 0" "i64_range a" "i64_range b"
  shows "range_function [VInt a, VInt b, VInt step] =
    (let c = range_count step b a in
     if 10000000 < c then rt ''range() is too large''
     else if 0 < c \<and> \<not> i64_range (a + int c * step) then Inl CyPanic
     else Inr (VList (map (\<lambda>j. VInt (a + int j * step)) [0..<c])))"
  using range_items_eq [OF assms(1,3,2), of 0] assms(1)
  by (simp add: range_function_def arity_def range_arg_def Let_def rt_def)

theorem range_progression_witness:
  "range_function [VInt 9223372036854775806, VInt 9223372036854775807, VInt 1] = Inl CyPanic \<and>
   range_function [VInt 7, VInt 1, VInt (- 3)] = Inr (VList [VInt 7, VInt 4, VInt 1])"
proof -
  have c: "range_count 1 9223372036854775807 9223372036854775806 = 2" "range_count (- 3) 1 7 = 3" by (simp_all add: range_count_def)
  have u: "[0..<3] = [0, 1, 2 :: nat]" by (simp add: upt_rec)
  show ?thesis
    using range_progression [of 1 9223372036854775806 9223372036854775807] range_progression [of "- 3" 7 1]
    unfolding c u Let_def by (simp add: i64_range_def)
qed

section \<open>Sorting\<close>

lemma order_keys_swap:
  "length flags = length as \<Longrightarrow> length as = length bs \<Longrightarrow> list_all (one_kind tz K) as \<Longrightarrow> list_all (one_kind tz K) bs \<Longrightarrow>
   order_keys tz flags bs as = reverse_ordering (order_keys tz flags as bs)"
proof (induction flags as bs rule: list_induct3)
  case (Cons asc flags a as b bs)
  then have "cy_order tz b a = reverse_ordering (cy_order tz a b)" using cy_order_swap [of tz K a b] by simp
  then show ?case using Cons by (cases "cy_order tz a b") (auto simp: Let_def)
qed simp

lemma tri_reverse: "tri a b c \<Longrightarrow> tri (reverse_ordering a) (reverse_ordering b) (reverse_ordering c)"
  by (cases a; cases b; cases c) (auto simp: tri_def)

lemma order_keys_then:
  "order_keys tz (asc # flags) (a # as) (b # bs) =
   then_ordering (if asc then cy_order tz a b else reverse_ordering (cy_order tz a b)) (order_keys tz flags as bs)"
  by (auto simp: then_ordering_def Let_def)

lemma order_keys_tri:
  "length flags = length as \<Longrightarrow> length as = length bs \<Longrightarrow> length bs = length cs \<Longrightarrow>
   list_all (one_kind tz K) as \<Longrightarrow> list_all (one_kind tz K) bs \<Longrightarrow> list_all (one_kind tz K) cs \<Longrightarrow>
   tri (order_keys tz flags as bs) (order_keys tz flags bs cs) (order_keys tz flags as cs)"
proof (induction flags as bs cs rule: list_induct4)
  case (Cons asc flags a as b bs c cs)
  then have "tri (cy_order tz a b) (cy_order tz b c) (cy_order tz a c)" using cy_order_tri [of tz K a b c] by simp
  then show ?case unfolding order_keys_then using Cons tri_reverse by (intro tri_then) auto
qed simp

interpretation row_order: comparator
  "\<lambda>e. length (fst e) = length flags \<and> list_all (one_kind tz K) (fst e)" "\<lambda>a b. order_keys tz flags (fst a) (fst b)"
  for tz K flags
proof unfold_locales
  fix e f g :: "cy_value list \<times> 'a"
  assume e: "length (fst e) = length flags \<and> list_all (one_kind tz K) (fst e)"
    and f: "length (fst f) = length flags \<and> list_all (one_kind tz K) (fst f)"
  then show "order_keys tz flags (fst f) (fst e) = reverse_ordering (order_keys tz flags (fst e) (fst f))"
    by (intro order_keys_swap) auto
  assume "length (fst g) = length flags \<and> list_all (one_kind tz K) (fst g)"
  with e f show "tri (order_keys tz flags (fst e) (fst f)) (order_keys tz flags (fst f) (fst g)) (order_keys tz flags (fst e) (fst g))"
    by (intro order_keys_tri) auto
qed

lemma emap_length: "emap f xs s = (Inr ys, s') \<Longrightarrow> length ys = length xs"
  by (induction xs arbitrary: ys s) (auto simp: ebind_Inr ret_def)

lemma emap_elem: "emap f xs s = (Inr ys, s') \<Longrightarrow> y \<in> set ys \<Longrightarrow> \<exists>x \<in> set xs. \<exists>u u'. f x u = (Inr y, u')"
proof (induction xs arbitrary: ys s)
  case (Cons x xs)
  then obtain v u vs where "f x s = (Inr v, u)" "emap f xs u = (Inr vs, s')" "ys = v # vs"
    by (auto simp: ebind_Inr ret_def)
  with Cons show ?case by fastforce
qed (simp add: ret_def)

text \<open>The rows with the values they are ordered by.\<close>

definition sort_keys :: "eval_ext \<Rightarrow> cy_map \<Rightarrow> (string \<times> cexpr) list \<Rightarrow> (cexpr \<times> bool) list \<Rightarrow> (row \<times> row) list
    \<Rightarrow> (cy_value list \<times> row) list ev" where
  "sort_keys x ps items order out =
     emap (\<lambda>(r, env). ebind (emap (eval x ps env) (map (\<lambda>(e, _). replace_subexprs (map (\<lambda>(n, e). (e, XVar n)) items) e) order))
       (\<lambda>k. ret (k, r))) out"

lemma order_rows_sort:
  "order_rows x ps items order out = ebind (sort_keys x ps items order out) (\<lambda>keyed.
     ret (map (\<lambda>(_, r). (r, r)) (sort_by (\<lambda>a b. order_keys (x_tz x) (map snd order) (fst a) (fst b)) keyed)))"
  by (simp add: order_rows_def sort_keys_def Let_def)


text \<open>Parameters of an evaluation: no host functions, no clock, and a mathematics that is the identity.\<close>

definition sample_ext :: eval_ext where
  "sample_ext = \<lparr>x_tz = stockholm, x_sj = \<lparr>sj_text = (\<lambda>_. []), sj_parse = (\<lambda>_. None), f64_literal = (\<lambda>_. simple_literal [])\<rparr>,
     x_time = Inr 0, x_regex = (\<lambda>_ _. Inr True), x_lower = lowercase, x_upper = map to_ascii_uppercase, x_math = (\<lambda>_ v. v),
     x_powf = (\<lambda>a _. a), x_atan2 = (\<lambda>a _. a), x_fresh = show_nat, x_host = (\<lambda>_. None), x_term_text = (\<lambda>_. [])\<rparr>"

definition sample_state :: ev_state where
  "sample_state = \<lparr>es_clock = None, es_random = 1, es_drawn = 0\<rparr>"


section \<open>Counting\<close>

lemma retain_first_snoc:
  "retain_first key seen (xs @ [v]) =
   retain_first key seen xs @ (if key v \<in> set seen \<or> key v \<in> key ` set xs then [] else [v])"
  by (induction key seen xs rule: retain_first.induct) auto

lemma retain_first_keys: "key ` set (retain_first key seen xs) = key ` set xs - set seen"
  by (induction key seen xs rule: retain_first.induct) auto

lemma retain_first_distinct: "distinct (map key (retain_first key seen xs))"
proof (induction key seen xs rule: retain_first.induct)
  case (2 key seen a as)
  have "key a \<notin> key ` set (retain_first key (key a # seen) as)" unfolding retain_first_keys by simp
  then show ?case using 2 by auto
qed simp

text \<open>The groups after the values \<open>vs\<close> of the key have been counted.\<close>

definition key_count :: "cy_value list \<Rightarrow> cy_value \<Rightarrow> int" where
  "key_count vs v = int (length (filter (\<lambda>w. group_key w = group_key v) vs))"

definition counted :: "string \<Rightarrow> cy_value list \<Rightarrow> grp list" where
  "counted k vs =
     map (\<lambda>v. \<lparr>gr_key = [group_key v], gr_row = [(k, v)], gr_accs = [(AccCount (key_count vs v), [])]\<rparr>) (retain_first group_key [] vs)"

abbreviation count_spec :: agg_spec where
  "count_spec \<equiv> \<lparr>ag_placeholder = CHR 0x01 # ''agg0'', ag_func = ''count'', ag_distinct = False, ag_arg = None, ag_arg2 = None\<rparr>"

lemma agg_row_count: "agg_row x ps row (count_spec, AccCount n, []) = ret (AccCount (n + 1), [])"
  by (simp add: agg_row_def acc_add_def)

lemma key_count_snoc: "key_count (vs @ [w]) v = key_count vs v + (if group_key w = group_key v then 1 else 0)"
  by (simp add: key_count_def)

lemma counted_old:
  assumes "group_key v \<in> group_key ` set vs"
  obtains i where "find_index (\<lambda>g. gr_key g = [group_key v]) (counted k vs) = Some i" "i < length (counted k vs)"
    "gr_accs (counted k vs ! i) = [(AccCount (key_count vs v), [])]"
    "(counted k vs)[i := (counted k vs ! i)\<lparr>gr_accs := [(AccCount (key_count vs v + 1), [])]\<rparr>] = counted k (vs @ [v])"
proof -
  let ?f = "retain_first group_key [] vs"
  have "group_key v \<in> group_key ` set ?f" using assms unfolding retain_first_keys by simp
  then obtain u where u: "u \<in> set ?f" "group_key u = group_key v" by auto
  have "find_index (\<lambda>g. gr_key g = [group_key v]) (counted k vs) \<noteq> None" using u by (auto simp: counted_def)
  then obtain i where i: "find_index (\<lambda>g. gr_key g = [group_key v]) (counted k vs) = Some i" unfolding not_None_eq by blast
  from find_index_Some [OF i] have il: "i < length ?f" "group_key (?f ! i) = group_key v" by (auto simp: counted_def)
  have same: "key_count vs (?f ! i) = key_count vs v" using il(2) by (simp add: key_count_def)
  have other: "group_key (?f ! j) \<noteq> group_key v" if "j < length ?f" "j \<noteq> i" for j
    using retain_first_distinct [of group_key "[]" vs] that il by (metis distinct_conv_nth length_map nth_map)
  have "(counted k vs)[i := (counted k vs ! i)\<lparr>gr_accs := [(AccCount (key_count vs v + 1), [])]\<rparr>] = counted k (vs @ [v])"
  proof (rule nth_equalityI)
    show "length ((counted k vs)[i := (counted k vs ! i)\<lparr>gr_accs := [(AccCount (key_count vs v + 1), [])]\<rparr>]) = length (counted k (vs @ [v]))"
      using assms by (simp add: counted_def retain_first_snoc)
    fix j
    assume j: "j < length ((counted k vs)[i := (counted k vs ! i)\<lparr>gr_accs := [(AccCount (key_count vs v + 1), [])]\<rparr>])"
    then show "(counted k vs)[i := (counted k vs ! i)\<lparr>gr_accs := [(AccCount (key_count vs v + 1), [])]\<rparr>] ! j = counted k (vs @ [v]) ! j"
      using assms il other [of j] same
      by (cases "j = i") (auto simp: counted_def retain_first_snoc key_count_snoc)
  qed
  with that i il same show thesis by (simp add: counted_def)
qed

lemma counted_new:
  assumes "group_key v \<notin> group_key ` set vs"
  shows "find_index (\<lambda>g. gr_key g = [group_key v]) (counted k vs) = None"
    "counted k (vs @ [v]) = counted k vs @ [\<lparr>gr_key = [group_key v], gr_row = [(k, v)], gr_accs = [(AccCount 1, [])]\<rparr>]"
proof -
  have f: "group_key u \<noteq> group_key v" if "u \<in> set (retain_first group_key [] vs)" for u
    using assms that retain_first_keys [of group_key "[]" vs] by (metis Diff_iff imageI)
  then show "find_index (\<lambda>g. gr_key g = [group_key v]) (counted k vs) = None" by (auto simp: counted_def)
  have "key_count (vs @ [v]) v = 1"
    using assms by (simp add: key_count_def filter_empty_conv) (metis image_eqI)
  moreover have "key_count (vs @ [v]) u = key_count vs u" if "u \<in> set (retain_first group_key [] vs)" for u
    using f [OF that] by (auto simp: key_count_snoc)
  ultimately show "counted k (vs @ [v]) = counted k vs @ [\<lparr>gr_key = [group_key v], gr_row = [(k, v)], gr_accs = [(AccCount 1, [])]\<rparr>]"
    using assms by (simp add: counted_def retain_first_snoc)
qed

lemma emap_map: "emap f (map g xs) = emap (\<lambda>v. f (g v)) xs"
  by (induction xs) simp_all

lemma key_count_total: "(\<Sum>v \<leftarrow> retain_first group_key [] vs. key_count vs v) = int (length vs)"
proof -
  let ?f = "retain_first group_key [] vs"
  have d: "distinct (map group_key ?f)" by (rule retain_first_distinct)
  have k: "group_key ` set ?f = group_key ` set vs" by (simp add: retain_first_keys)
  have "(\<Sum>v \<leftarrow> ?f. key_count vs v) = (\<Sum>g \<leftarrow> map group_key ?f. int (length (filter (\<lambda>w. group_key w = g) vs)))"
    by (simp add: key_count_def comp_def)
  also have "\<dots> = (\<Sum>g \<in> group_key ` set vs. int (length (filter (\<lambda>w. group_key w = g) vs)))"
    using sum_list_distinct_conv_sum_set [OF d, of "\<lambda>g. int (length (filter (\<lambda>w. group_key w = g) vs))"] k by simp
  also have "\<dots> = (\<Sum>g \<in> set (map group_key vs). int (count_list (map group_key vs) g))"
    by (simp add: count_list_eq_length_filter filter_map comp_def eq_commute)
  also have "\<dots> = int (length vs)" using sum_count_set [of "map group_key vs" "set (map group_key vs)"] by (simp flip: of_nat_sum)
  finally show ?thesis .
qed

lemma group_row_count:
  assumes "bt_get row k = Some v"
  shows "group_row x ps [(k, XVar k, False), (c, e, True)] [count_spec] row (counted k vs) = ret (counted k (vs @ [v]))"
proof -
  have new: "lift (new_accs [count_spec]) = ret [(AccCount 0, [])]" by (simp add: new_accs_def acc_new_def)
  have var: "lift (row_var row k) = ret v" using assms by (simp add: row_var_def)
  show ?thesis
  proof (cases "group_key v \<in> group_key ` set vs")
    case True
    from counted_old [OF this, of k] obtain i where
      i: "find_index (\<lambda>g. gr_key g = [group_key v]) (counted k vs) = Some i" "i < length (counted k vs)"
        "gr_accs (counted k vs ! i) = [(AccCount (key_count vs v), [])]"
        "(counted k vs)[i := (counted k vs ! i)\<lparr>gr_accs := [(AccCount (key_count vs v + 1), [])]\<rparr>] = counted k (vs @ [v])" by blast
    show ?thesis by (simp add: group_row_def Let_def var ebind_assoc i agg_row_count)
  next
    case False
    show ?thesis by (simp add: group_row_def Let_def var ebind_assoc counted_new [OF False] new agg_row_count)
  qed
qed

lemma group_rows_count:
  "list_all (\<lambda>r. bt_get r k \<noteq> None) rows \<Longrightarrow>
   fold_ev (group_row x ps [(k, XVar k, False), (c, e, True)] [count_spec]) rows (counted k vs)
     = ret (counted k (vs @ map (\<lambda>r. the (bt_get r k)) rows))"
proof (induction rows arbitrary: vs)
  case (Cons r rows)
  then obtain v where v: "bt_get r k = Some v" by auto
  have "fold_ev (group_row x ps [(k, XVar k, False), (c, e, True)] [count_spec]) rows (counted k (vs @ [v]))
     = ret (counted k (vs @ v # map (\<lambda>r. the (bt_get r k)) rows))"
    using Cons.IH [of "vs @ [v]"] Cons.prems by simp
  then show ?case using v by (simp add: group_row_count [OF v])
qed simp

definition count_projection :: "string \<Rightarrow> string \<Rightarrow> projection" where
  "count_projection k c =
     \<lparr>pj_distinct = False, pj_star = False,
      pj_items = [\<lparr>pi_expr = XVar k, pi_alias = None, pi_text = k\<rparr>, \<lparr>pi_expr = XCountStar, pi_alias = Some c, pi_text = ''count(*)''\<rparr>],
      pj_order = [], pj_skip = None, pj_limit = None, pj_where = None\<rparr>"

lemma group_value_count:
  assumes "k \<noteq> CHR 0x01 # ''agg0''"
  shows "group_value x ps [(k, XVar k, False), (c, XVar (CHR 0x01 # ''agg0''), True)] [count_spec]
      \<lparr>gr_key = key, gr_row = [(k, v)], gr_accs = [(AccCount n, [])]\<rparr> = ret (bt_insert c (VInt n) [(k, v)])"
proof -
  have "bt_get (bt_insert (CHR 0x01 # ''agg0'') (VInt n) [(k, v)]) (CHR 0x01 # ''agg0'') = Some (VInt n)"
    by (subst bt_insert_get) simp_all
  then show ?thesis by (simp add: group_value_def acc_finish_def ebind_assoc row_var_def Let_def)
qed

text \<open>
  C19. \<^verbatim>\<open>WITH k, count(*) AS c\<close> gives one row for each group of values of \<open>k\<close>, in the order in which the groups first occur, with the
  first value of the group and the number of its rows, so the counts add up to the number of rows.
\<close>

theorem count_by_key:
  assumes "list_all (\<lambda>r. bt_get r k \<noteq> None) rows" "k \<noteq> CHR 0x01 # ''agg0''"
  shows "project x ps rows (count_projection k c) s =
    (let vs = map (\<lambda>r. the (bt_get r k)) rows in
     (Inr (map (\<lambda>v. bt_insert c (VInt (key_count vs v)) [(k, v)]) (retain_first group_key [] vs), [k, c]), s))
    \<and> (\<Sum>v \<leftarrow> retain_first group_key [] (map (\<lambda>r. the (bt_get r k)) rows). key_count (map (\<lambda>r. the (bt_get r k)) rows) v)
        = int (length rows)"
proof -
  define vs where "vs = map (\<lambda>r. the (bt_get r k)) rows"
  have items: "projection_items rows (count_projection k c) = [(k, XVar k), (c, XCountStar)]"
    by (simp add: projection_items_def count_projection_def item_name_def)
  have rw: "rewrite_items [(k, XVar k), (c, XCountStar)] = ([(k, XVar k, False), (c, XVar (CHR 0x01 # ''agg0''), True)], [count_spec])"
  proof -
    have "show_nat 0 = ''0''" by code_simp
    then show ?thesis by (simp add: rewrite_items_def has_aggregate_def add_agg_def Let_def)
  qed
  have g: "fold_ev (group_row x ps [(k, XVar k, False), (c, XVar (CHR 0x01 # ''agg0''), True)] [count_spec]) rows [] = ret (counted k vs)"
    using group_rows_count [OF assms(1), of x ps c _ "[]"] by (simp add: counted_def vs_def)
  have rows: "aggregate_rows x ps [(k, XVar k), (c, XCountStar)] rows =
      ret (map (\<lambda>v. (bt_insert c (VInt (key_count vs v)) [(k, v)], bt_insert c (VInt (key_count vs v)) [(k, v)])) (retain_first group_key [] vs))"
    by (simp add: aggregate_rows_def rw g counted_def emap_map group_value_count [OF assms(2)])
  have "project x ps rows (count_projection k c) s =
     (Inr (map (\<lambda>v. bt_insert c (VInt (key_count vs v)) [(k, v)]) (retain_first group_key [] vs), [k, c]), s)"
    by (simp add: project_def items rows has_aggregate_def)
      (simp add: count_projection_def row_count_def early_where_def comp_def Let_def ret_def [of "(_, _)"])
  then show ?thesis using key_count_total [of vs] by (simp add: vs_def Let_def)
qed

theorem count_by_key_witness:
  "project sample_ext [] [[(''a'', VInt 1)], [(''a'', VNull)], [(''a'', VInt 1)]] (count_projection ''a'' ''n'') sample_state
     = (Inr ([[(''a'', VInt 1), (''n'', VInt 2)], [(''a'', VNull), (''n'', VInt 1)]], [''a'', ''n'']), sample_state)"
  using count_by_key [of "''a''" "[[(''a'', VInt 1)], [(''a'', VNull)], [(''a'', VInt 1)]]" sample_ext "[]" "''n''" sample_state]
  by (simp add: key_count_def Let_def less_list_code less_char_def)

end
