(* ===== verification/Cypher_Paths.thy ===== *)
theory Cypher_Paths
  imports Cypher_Ast "HOL-Library.Multiset"
begin

text \<open>
  The search of \<^verbatim>\<open>shortestPath()\<close> and \<^verbatim>\<open>allShortestPaths()\<close> (\<^verbatim>\<open>exec.rs\<close>: \<^verbatim>\<open>start_bfs\<close>, \<^verbatim>\<open>bfs_request\<close>, \<^verbatim>\<open>bfs_step\<close>, \<^verbatim>\<open>unfold\<close>): a
  breadth-first search from every source at once, one request to the store per level, then the paths read back from
  the recorded parents. Nodes are term ids, a relationship is the ids of its triple, and the rows a request returns for a
  frontier are the parameter \<open>fetch\<close> (the SQL of the request, and the store answering it). \<open>None\<close> stands for a loop
  that does not end.
\<close>

text \<open>A relationship: subject, predicate and object.\<close>

datatype edge = Edge int int int

type_synonym parents = "int \<rightharpoonup> nat \<times> (int \<times> edge) list"
type_synonym id_path = "int list \<times> edge list"

text \<open>The neighbours of a node in the rows of a request, each with its relationship.\<close>

definition adjacent :: "direction \<Rightarrow> edge list \<Rightarrow> int \<Rightarrow> (int \<times> edge) list" where
  "adjacent dir rows x =
     concat (map (\<lambda>row. case row of Edge s p o' \<Rightarrow>
       (if dir \<noteq> DirLeft \<and> s = x then [(o', row)] else [])
       @ (if dir \<noteq> DirRight \<and> s \<noteq> o' \<and> o' = x then [(s, row)] else [])) rows)"

section \<open>One level\<close>

fun relax :: "bool \<Rightarrow> nat \<Rightarrow> int \<times> int \<times> edge \<Rightarrow> parents \<times> int list \<Rightarrow> parents \<times> int list" where
  "relax every level (x, y, e) (ps, next) =
     (case ps y of
        None \<Rightarrow> (ps(y \<mapsto> (level, [(x, e)])), next @ [y])
      | Some (l, qs) \<Rightarrow> if l = level \<and> every \<and> (x, e) \<notin> set qs then (ps(y \<mapsto> (l, qs @ [(x, e)])), next) else (ps, next))"

definition expand :: "bool \<Rightarrow> nat \<Rightarrow> (int \<Rightarrow> (int \<times> edge) list) \<Rightarrow> int list \<Rightarrow> parents \<Rightarrow> parents \<times> int list" where
  "expand every level adj frontier ps =
     fold (relax every level) (concat (map (\<lambda>x. map (\<lambda>(y, e). (x, y, e)) (adj x)) frontier)) (ps, [])"

section \<open>Reading the paths back\<close>

definition MAX_PATHS :: nat where
  "MAX_PATHS = 10000"

definition choices :: "bool \<Rightarrow> (int \<times> edge) list \<Rightarrow> int list \<Rightarrow> edge list \<Rightarrow> (int \<times> int list \<times> edge list) list" where
  "choices every ps ns rs =
     map (\<lambda>(p, e). (p, ns @ [p], rs @ [e])) (filter (\<lambda>(_, e). e \<notin> set rs) (if every then ps else take 1 ps))"

partial_function (option) unfold_loop ::
    "parents \<Rightarrow> int \<Rightarrow> nat \<Rightarrow> bool \<Rightarrow> (int \<times> int list \<times> edge list) list \<Rightarrow> id_path list \<Rightarrow> id_path list option" where
  "unfold_loop ps src len every stack out =
     (case stack of
        [] \<Rightarrow> Some out
      | (n, ns, rs) # rest \<Rightarrow>
          if n = src \<and> length rs = len
          then (let out' = out @ [(rev ns, rev rs)]
                in if \<not> every \<or> MAX_PATHS \<le> length out' then Some out' else unfold_loop ps src len every rest out')
          else (case ps n of
                  None \<Rightarrow> unfold_loop ps src len every rest out
                | Some (_, qs) \<Rightarrow> unfold_loop ps src len every (choices every qs ns rs @ rest) out))"

definition unfold :: "parents \<Rightarrow> int \<Rightarrow> int \<Rightarrow> bool \<Rightarrow> id_path list option" where
  "unfold ps src t every =
     unfold_loop ps src (case ps t of Some (l, _) \<Rightarrow> l | None \<Rightarrow> 0) every [(t, [t], [])] []"

section \<open>The search\<close>

record bfs_source =
  sr_parents :: parents
  sr_frontier :: "int list"
  sr_targets :: "int list"
  sr_done :: bool

type_synonym found = "int \<times> int \<rightharpoonup> id_path list"

definition source_step :: "bool \<Rightarrow> nat \<Rightarrow> (int \<Rightarrow> (int \<times> edge) list) \<Rightarrow> int \<times> bfs_source
    \<Rightarrow> ((int \<times> bfs_source) \<times> ((int \<times> int) \<times> id_path list) list) option" where
  "source_step every level adj = (\<lambda>(s, src).
     if sr_done src then Some ((s, src), [])
     else
       case expand every level adj (sr_frontier src) (sr_parents src) of
         (ps, next) \<Rightarrow>
           let reached = filter (\<lambda>t. case ps t of Some (l, _) \<Rightarrow> l = level | None \<Rightarrow> False) (sr_targets src);
               left = filter (\<lambda>t. t \<notin> set reached) (sr_targets src)
           in map_option (\<lambda>paths.
                ((s, \<lparr>sr_parents = ps, sr_frontier = sort (remdups next), sr_targets = left, sr_done = (left = [])\<rparr>), paths))
              (those (map (\<lambda>t. map_option (\<lambda>paths. ((s, t), paths)) (unfold ps s t every)) reached)))"

definition add_source :: "int \<times> int \<Rightarrow> (int \<times> bfs_source) list \<Rightarrow> (int \<times> bfs_source) list" where
  "add_source = (\<lambda>(f, t) sources.
     bt_insert f (case bt_get sources f of
         None \<Rightarrow> \<lparr>sr_parents = [f \<mapsto> (0, [])], sr_frontier = [f], sr_targets = [t], sr_done = False\<rparr>
       | Some src \<Rightarrow> src\<lparr>sr_targets := push_new t (sr_targets src)\<rparr>) sources)"

definition start_sources :: "(int \<times> int) list \<Rightarrow> (int \<times> bfs_source) list" where
  "start_sources pairs = fold add_source pairs []"

text \<open>A pattern that allows the empty path finds it at once.\<close>

definition drop_self :: "int \<times> bfs_source \<Rightarrow> int \<times> bfs_source" where
  "drop_self = (\<lambda>(f, src).
     let left = filter (\<lambda>t. t \<noteq> f) (sr_targets src) in (f, src\<lparr>sr_targets := left, sr_done := (left = [])\<rparr>))"

definition self_paths :: "(int \<times> bfs_source) list \<Rightarrow> found" where
  "self_paths sources = (\<lambda>(s, t).
     case bt_get sources s of Some src \<Rightarrow> if s = t \<and> s \<in> set (sr_targets src) then Some [([s], [])] else None | None \<Rightarrow> None)"

definition bfs_frontier :: "(int \<times> bfs_source) list \<Rightarrow> int list" where
  "bfs_frontier sources = sort (remdups (concat (map (\<lambda>(_, src). if sr_done src then [] else sr_frontier src) sources)))"

text \<open>The rounds left, up to the greatest length of a path.\<close>

fun bfs_rounds :: "(int list \<Rightarrow> edge list) \<Rightarrow> direction \<Rightarrow> bool \<Rightarrow> nat \<Rightarrow> nat \<Rightarrow> (int \<times> bfs_source) list \<Rightarrow> found \<Rightarrow> found option" where
  "bfs_rounds fetch dir every 0 level sources found = Some found"
| "bfs_rounds fetch dir every (Suc n) level sources found =
     (let frontier = bfs_frontier sources in
      if frontier = [] then Some found
      else
        case those (map (source_step every (Suc level) (adjacent dir (fetch frontier))) sources) of
          None \<Rightarrow> None
        | Some results \<Rightarrow>
            bfs_rounds fetch dir every n (Suc level) (map fst results) (found ++ map_of (concat (map snd results))))"

definition shortest_paths :: "(int list \<Rightarrow> edge list) \<Rightarrow> direction \<Rightarrow> bool \<Rightarrow> nat \<Rightarrow> nat \<Rightarrow> (int \<times> int) list \<Rightarrow> found option" where
  "shortest_paths fetch dir every mn mx pairs =
     (let sources = start_sources pairs in
      if mn = 0 then bfs_rounds fetch dir every mx 0 (map drop_self sources) (self_paths sources)
      else bfs_rounds fetch dir every mx 0 sources (\<lambda>_. None))"

section \<open>Walks\<close>

text \<open>The specification: walks in the graph, and the lengths at which a node is reached.\<close>

definition step :: "direction \<Rightarrow> edge list \<Rightarrow> int \<Rightarrow> edge \<Rightarrow> int \<Rightarrow> bool" where
  "step dir es x e y \<longleftrightarrow> (y, e) \<in> set (adjacent dir es x)"

fun is_walk :: "direction \<Rightarrow> edge list \<Rightarrow> int list \<Rightarrow> edge list \<Rightarrow> bool" where
  "is_walk dir es [x] [] = True"
| "is_walk dir es (x # y # ns) (e # rs) = (step dir es x e y \<and> is_walk dir es (y # ns) rs)"
| "is_walk dir es _ _ = False"

definition walk_from_to :: "direction \<Rightarrow> edge list \<Rightarrow> int \<Rightarrow> int \<Rightarrow> id_path \<Rightarrow> bool" where
  "walk_from_to dir es s t p \<longleftrightarrow> is_walk dir es (fst p) (snd p) \<and> hd (fst p) = s \<and> last (fst p) = t"

end
