(* ===== verification/Cypher_Paths_Laws.thy ===== *)
theory Cypher_Paths_Laws
  imports Cypher_Paths
begin

text \<open>
  What the search finds are shortest paths: distances in the graph, what one level records, that reading the paths back ends and
  gives walks of the recorded length, and the invariant of the rounds. That \<^verbatim>\<open>allShortestPaths()\<close> finds all of them is not proved.
\<close>

section \<open>Distances\<close>

fun reach :: "direction \<Rightarrow> edge list \<Rightarrow> int \<Rightarrow> nat \<Rightarrow> int set" where
  "reach dir es s 0 = {s}"
| "reach dir es s (Suc n) = {y. \<exists>x \<in> reach dir es s n. \<exists>e. step dir es x e y}"

definition dist :: "direction \<Rightarrow> edge list \<Rightarrow> int \<Rightarrow> nat \<Rightarrow> int \<Rightarrow> bool" where
  "dist dir es s n y \<longleftrightarrow> y \<in> reach dir es s n \<and> (\<forall>m < n. y \<notin> reach dir es s m)"

lemma dist_0 [simp]: "dist dir es s 0 y \<longleftrightarrow> y = s"
  by (auto simp: dist_def)

lemma dist_unique: "dist dir es s m y \<Longrightarrow> dist dir es s n y \<Longrightarrow> m = n"
  by (metis dist_def linorder_neqE_nat)

lemma reach_dist: "y \<in> reach dir es s n \<Longrightarrow> \<exists>m \<le> n. dist dir es s m y"
proof -
  assume y: "y \<in> reach dir es s n"
  define m where "m = (LEAST m. y \<in> reach dir es s m)"
  have "y \<in> reach dir es s m" unfolding m_def using y by (rule LeastI)
  moreover have "m \<le> n" unfolding m_def using y by (rule Least_le)
  moreover have "y \<notin> reach dir es s k" if "k < m" for k using that not_less_Least unfolding m_def by blast
  ultimately show ?thesis by (auto simp: dist_def)
qed

lemma dist_pred:
  assumes "dist dir es s (Suc n) y"
  obtains x e where "dist dir es s n x" "step dir es x e y"
proof -
  obtain x e where x: "x \<in> reach dir es s n" "step dir es x e y" using assms by (auto simp: dist_def)
  have "x \<notin> reach dir es s m" if "m < n" for m
  proof
    assume "x \<in> reach dir es s m"
    then have "y \<in> reach dir es s (Suc m)" using x(2) by auto
    then show False using assms that by (auto simp: dist_def)
  qed
  with x that show thesis by (auto simp: dist_def)
qed

lemma dist_step: "dist dir es s n x \<Longrightarrow> step dir es x e y \<Longrightarrow> \<exists>m \<le> Suc n. dist dir es s m y"
  by (rule reach_dist) (auto simp: dist_def)

lemma dist_none: "\<forall>y. \<not> dist dir es s n y \<Longrightarrow> n \<le> m \<Longrightarrow> \<not> dist dir es s m y"
proof (induction m arbitrary: y)
  case (Suc m)
  show ?case
  proof (cases "n = Suc m")
    case False
    then have "n \<le> m" using Suc.prems by simp
    then show ?thesis using Suc.IH Suc.prems by (metis dist_pred)
  qed (use Suc.prems in simp)
qed simp

lemma is_walk_length: "is_walk dir es ns rs \<Longrightarrow> length ns = Suc (length rs)"
  by (induction dir es ns rs rule: is_walk.induct) auto

lemma is_walk_snoc: "is_walk dir es ns rs \<Longrightarrow> step dir es (last ns) e y \<Longrightarrow> is_walk dir es (ns @ [y]) (rs @ [e])"
proof (induction dir es ns rs rule: is_walk.induct)
  case (2 dir es x y ns e rs)
  then show ?case by (cases "y # ns") auto
qed auto

lemma reach_walk: "y \<in> reach dir es s n \<longleftrightarrow> (\<exists>p. walk_from_to dir es s y p \<and> length (snd p) = n)"
proof
  show "y \<in> reach dir es s n \<Longrightarrow> \<exists>p. walk_from_to dir es s y p \<and> length (snd p) = n"
  proof (induction n arbitrary: y)
    case 0
    then have "walk_from_to dir es s y ([s], [])" by (simp add: walk_from_to_def)
    then show ?case by (intro exI [of _ "([s], [])"]) simp
  next
    case (Suc n)
    then obtain x e where x: "step dir es x e y" "x \<in> reach dir es s n" by auto
    obtain p where p: "walk_from_to dir es s x p" "length (snd p) = n" using Suc.IH [OF x(2)] by blast
    have "is_walk dir es (fst p @ [y]) (snd p @ [e])" "fst p \<noteq> []"
      using is_walk_snoc [of dir es "fst p" "snd p" e y] is_walk_length [of dir es "fst p" "snd p"] x(1) p(1)
      by (auto simp: walk_from_to_def)
    then have "walk_from_to dir es s y (fst p @ [y], snd p @ [e])" using p(1) by (simp add: walk_from_to_def)
    then show ?case using p(2) by (intro exI [of _ "(fst p @ [y], snd p @ [e])"]) simp
  qed
  have "is_walk dir es ns rs \<Longrightarrow> hd ns \<in> reach dir es s k \<Longrightarrow> last ns \<in> reach dir es s (k + length rs)" for ns rs k
  proof (induction dir es ns rs arbitrary: k rule: is_walk.induct)
    case (2 dir es x y ns e rs)
    then have "y \<in> reach dir es s (Suc k)" by auto
    moreover have "is_walk dir es (y # ns) rs" using 2 by simp
    ultimately have "last (y # ns) \<in> reach dir es s (Suc k + length rs)" using "2.IH" [of "Suc k"] by (simp only: list.sel)
    then show ?case by (simp del: reach.simps)
  qed auto
  from this [of "fst p" "snd p" 0 for p] show "\<exists>p. walk_from_to dir es s y p \<and> length (snd p) = n \<Longrightarrow> y \<in> reach dir es s n"
    by (auto simp: walk_from_to_def)
qed

section \<open>One level\<close>

text \<open>What is recorded of a search from \<open>s\<close> after \<open>n\<close> levels.\<close>

definition entry_ok :: "direction \<Rightarrow> edge list \<Rightarrow> int \<Rightarrow> nat \<Rightarrow> int \<Rightarrow> (int \<times> edge) list \<Rightarrow> bool" where
  "entry_ok dir es s l y qs \<longleftrightarrow>
     dist dir es s l y \<and> (l = 0 \<longleftrightarrow> qs = []) \<and> (\<forall>q \<in> set qs. step dir es (fst q) (snd q) y \<and> dist dir es s (l - 1) (fst q))"

definition recorded :: "direction \<Rightarrow> edge list \<Rightarrow> int \<Rightarrow> nat \<Rightarrow> parents \<Rightarrow> bool" where
  "recorded dir es s n ps \<longleftrightarrow>
     (\<forall>y l qs. ps y = Some (l, qs) \<longrightarrow> l \<le> n \<and> entry_ok dir es s l y qs) \<and> (\<forall>y m. ps y = None \<longrightarrow> m \<le> n \<longrightarrow> \<not> dist dir es s m y)"

lemma recorded_iff: "recorded dir es s n ps \<Longrightarrow> m \<le> n \<Longrightarrow> (\<exists>qs. ps y = Some (m, qs)) \<longleftrightarrow> dist dir es s m y"
proof
  show "recorded dir es s n ps \<Longrightarrow> m \<le> n \<Longrightarrow> \<exists>qs. ps y = Some (m, qs) \<Longrightarrow> dist dir es s m y"
    by (auto simp: recorded_def entry_ok_def)
  assume r: "recorded dir es s n ps" and m: "m \<le> n" and d: "dist dir es s m y"
  then obtain l qs where "ps y = Some (l, qs)" unfolding recorded_def by (cases "ps y") auto
  moreover from this r have "dist dir es s l y" by (auto simp: recorded_def entry_ok_def)
  ultimately show "\<exists>qs. ps y = Some (m, qs)" using dist_unique d by metis
qed

lemma recorded_start: "recorded dir es s 0 [s \<mapsto> (0, [])]"
  by (auto simp: recorded_def entry_ok_def)

text \<open>Relaxing the relationships of a level one by one.\<close>

definition relaxed :: "nat \<Rightarrow> parents \<Rightarrow> (int \<times> int \<times> edge) set \<Rightarrow> parents \<times> int list \<Rightarrow> bool" where
  "relaxed level ps0 ts r \<longleftrightarrow>
     (\<forall>y. y \<in> set (snd r) \<longleftrightarrow> ps0 y = None \<and> (\<exists>x e. (x, y, e) \<in> ts))
     \<and> (\<forall>y. (ps0 y \<noteq> None \<or> (\<nexists>x e. (x, y, e) \<in> ts)) \<longrightarrow> fst r y = ps0 y)
     \<and> (\<forall>y. ps0 y = None \<longrightarrow> (\<exists>x e. (x, y, e) \<in> ts) \<longrightarrow>
          (\<exists>qs. fst r y = Some (level, qs) \<and> qs \<noteq> [] \<and> (\<forall>q \<in> set qs. (fst q, y, snd q) \<in> ts)))"

lemma relaxed_step:
  assumes r: "relaxed level ps0 ts (ps, nx)" and l: "\<forall>y l qs. ps0 y = Some (l, qs) \<longrightarrow> l < level"
  shows "relaxed level ps0 (insert (x, y, e) ts) (relax every level (x, y, e) (ps, nx))"
proof -
  have 1: "\<And>z. z \<in> set nx \<longleftrightarrow> ps0 z = None \<and> (\<exists>x e. (x, z, e) \<in> ts)"
    and 2: "\<And>z. ps0 z \<noteq> None \<or> (\<nexists>x e. (x, z, e) \<in> ts) \<Longrightarrow> ps z = ps0 z"
    and 3: "\<And>z. ps0 z = None \<Longrightarrow> \<exists>x e. (x, z, e) \<in> ts \<Longrightarrow>
        \<exists>qs. ps z = Some (level, qs) \<and> qs \<noteq> [] \<and> (\<forall>q \<in> set qs. (fst q, z, snd q) \<in> ts)"
    using r unfolding relaxed_def by auto
  consider (old) v where "ps0 y = Some v" | (again) "ps0 y = None" "\<exists>x e. (x, y, e) \<in> ts" | (new) "ps0 y = None" "\<nexists>x e. (x, y, e) \<in> ts"
    by (cases "ps0 y") auto
  then show ?thesis
  proof cases
    case (old v)
    then have "relax every level (x, y, e) (ps, nx) = (ps, nx)" using l 2 [of y] by (cases v) auto
    then show ?thesis using 1 2 3 old unfolding relaxed_def by auto blast
  next
    case again
    obtain qs where qs: "ps y = Some (level, qs)" "qs \<noteq> []" "\<forall>q \<in> set qs. (fst q, y, snd q) \<in> ts" using 3 [OF again] by auto
    define qs' where "qs' = (if every \<and> (x, e) \<notin> set qs then qs @ [(x, e)] else qs)"
    have rl: "relax every level (x, y, e) (ps, nx) = (ps(y \<mapsto> (level, qs')), nx)"
      using qs(1) by (auto simp: qs'_def fun_upd_idem)
    have q': "qs' \<noteq> []" "\<forall>q \<in> set qs'. (fst q, y, snd q) \<in> insert (x, y, e) ts" using qs(2,3) by (auto simp: qs'_def)
    show ?thesis unfolding rl relaxed_def fst_conv snd_conv
    proof (intro conjI allI impI)
      fix z
      show "z \<in> set nx \<longleftrightarrow> ps0 z = None \<and> (\<exists>xa ea. (xa, z, ea) \<in> insert (x, y, e) ts)" using 1 [of z] again by auto
      show "ps0 z \<noteq> None \<or> (\<nexists>xa ea. (xa, z, ea) \<in> insert (x, y, e) ts) \<Longrightarrow> (ps(y \<mapsto> (level, qs'))) z = ps0 z"
        using 2 [of z] again by auto
      show "ps0 z = None \<Longrightarrow> \<exists>xa ea. (xa, z, ea) \<in> insert (x, y, e) ts \<Longrightarrow>
          \<exists>qs. (ps(y \<mapsto> (level, qs'))) z = Some (level, qs) \<and> qs \<noteq> [] \<and> (\<forall>q \<in> set qs. (fst q, z, snd q) \<in> insert (x, y, e) ts)"
        using 3 [of z] q' by (cases "z = y") auto
    qed
  next
    case new
    then have rl: "relax every level (x, y, e) (ps, nx) = (ps(y \<mapsto> (level, [(x, e)])), nx @ [y])" using 2 [of y] by auto
    show ?thesis unfolding rl relaxed_def fst_conv snd_conv
    proof (intro conjI allI impI)
      fix z
      show "z \<in> set (nx @ [y]) \<longleftrightarrow> ps0 z = None \<and> (\<exists>xa ea. (xa, z, ea) \<in> insert (x, y, e) ts)" using 1 [of z] new by auto
      show "ps0 z \<noteq> None \<or> (\<nexists>xa ea. (xa, z, ea) \<in> insert (x, y, e) ts) \<Longrightarrow> (ps(y \<mapsto> (level, [(x, e)]))) z = ps0 z"
        using 2 [of z] new by auto
      show "ps0 z = None \<Longrightarrow> \<exists>xa ea. (xa, z, ea) \<in> insert (x, y, e) ts \<Longrightarrow>
          \<exists>qs. (ps(y \<mapsto> (level, [(x, e)]))) z = Some (level, qs) \<and> qs \<noteq> [] \<and> (\<forall>q \<in> set qs. (fst q, z, snd q) \<in> insert (x, y, e) ts)"
        using 3 [of z] by (cases "z = y") auto
    qed
  qed
qed

lemma relaxed_fold:
  "relaxed level ps0 ts r \<Longrightarrow> \<forall>y l qs. ps0 y = Some (l, qs) \<longrightarrow> l < level \<Longrightarrow>
   relaxed level ps0 (ts \<union> set xs) (fold (relax every level) xs r)"
proof (induction xs arbitrary: ts r)
  case (Cons t xs)
  obtain x y e ps nx where t: "t = (x, y, e)" "r = (ps, nx)" by (cases t; cases r) auto
  from relaxed_step [OF Cons.prems [unfolded t(2)], of x y e every]
  have "relaxed level ps0 (insert t ts) (relax every level t r)" by (simp only: t)
  from Cons.IH [OF this Cons.prems(2)] show ?case by simp
qed simp

lemma expand_recorded:
  assumes rec: "recorded dir es s n ps" and fr: "set frontier = {y. dist dir es s n y}"
    and adj: "\<And>x. x \<in> set frontier \<Longrightarrow> set (adj x) = set (adjacent dir es x)"
    and ex: "expand every (Suc n) adj frontier ps = (ps', nx)"
  shows "recorded dir es s (Suc n) ps'" "set nx = {y. dist dir es s (Suc n) y}"
proof -
  let ?ts = "concat (map (\<lambda>x. map (\<lambda>(y, e). (x, y, e)) (adj x)) frontier)"
  have ts: "(x, y, e) \<in> set ?ts \<longleftrightarrow> dist dir es s n x \<and> step dir es x e y" for x y e
    using fr adj [of x] by (auto simp: step_def image_iff)
  have "relaxed (Suc n) ps {} (ps, [])" by (simp add: relaxed_def)
  moreover have "\<forall>y l qs. ps y = Some (l, qs) \<longrightarrow> l < Suc n" using rec by (auto simp: recorded_def less_Suc_eq_le)
  ultimately have "relaxed (Suc n) ps (set ?ts) (ps', nx)"
    using relaxed_fold [of "Suc n" ps "{}" "(ps, [])" ?ts every] ex unfolding expand_def by simp
  then have 1: "\<And>y. y \<in> set nx \<longleftrightarrow> ps y = None \<and> (\<exists>x e. (x, y, e) \<in> set ?ts)"
    and 2: "\<And>y. ps y \<noteq> None \<or> (\<nexists>x e. (x, y, e) \<in> set ?ts) \<Longrightarrow> ps' y = ps y"
    and 3: "\<And>y. ps y = None \<Longrightarrow> \<exists>x e. (x, y, e) \<in> set ?ts \<Longrightarrow>
        \<exists>qs. ps' y = Some (Suc n, qs) \<and> qs \<noteq> [] \<and> (\<forall>q \<in> set qs. (fst q, y, snd q) \<in> set ?ts)"
    unfolding relaxed_def by auto
  have new: "ps y = None \<and> (\<exists>x e. (x, y, e) \<in> set ?ts) \<longleftrightarrow> dist dir es s (Suc n) y" for y
  proof
    assume y: "ps y = None \<and> (\<exists>x e. (x, y, e) \<in> set ?ts)"
    then obtain x e where "dist dir es s n x" "step dir es x e y" using ts by blast
    then obtain m where "m \<le> Suc n" "dist dir es s m y" using dist_step by blast
    moreover have "\<not> dist dir es s m y" if "m \<le> n" for m using y rec that by (auto simp: recorded_def)
    ultimately show "dist dir es s (Suc n) y" using le_Suc_eq by auto
  next
    assume y: "dist dir es s (Suc n) y"
    then have "ps y = None"
    proof (cases "ps y")
      case (Some v)
      then obtain l qs where l: "l \<le> n" "dist dir es s l y" using rec by (cases v) (auto simp: recorded_def entry_ok_def)
      have "l = Suc n" using dist_unique [OF l(2) y] .
      then show ?thesis using l(1) by simp
    qed
    moreover obtain x e where "dist dir es s n x" "step dir es x e y" using dist_pred [OF y] .
    ultimately show "ps y = None \<and> (\<exists>x e. (x, y, e) \<in> set ?ts)" using ts by blast
  qed
  show "set nx = {y. dist dir es s (Suc n) y}" using 1 new by blast
  show "recorded dir es s (Suc n) ps'" unfolding recorded_def
  proof (intro conjI allI impI)
    fix y l qs
    assume p: "ps' y = Some (l, qs)"
    have "l \<le> Suc n \<and> entry_ok dir es s l y qs"
    proof (cases "dist dir es s (Suc n) y")
      case True
      then obtain qs' where q: "ps' y = Some (Suc n, qs')" "qs' \<noteq> []" "\<forall>q \<in> set qs'. (fst q, y, snd q) \<in> set ?ts"
        using 3 new by blast
      have "\<forall>q \<in> set qs'. step dir es (fst q) (snd q) y \<and> dist dir es s n (fst q)" using q(3) ts by blast
      moreover have "l = Suc n" "qs = qs'" using p q(1) by simp_all
      ultimately show ?thesis using q(2) True by (simp add: entry_ok_def)
    next
      case False
      then have "ps y \<noteq> None \<or> (\<nexists>x e. (x, y, e) \<in> set ?ts)" by (simp only: new [symmetric] de_Morgan_conj)
      then have "ps' y = ps y" by (rule 2)
      then have "ps y = Some (l, qs)" using p by simp
      then have "l \<le> n \<and> entry_ok dir es s l y qs" using rec unfolding recorded_def by blast
      then show ?thesis by simp
    qed
    then show "l \<le> Suc n" "entry_ok dir es s l y qs" by auto
  next
    fix y m
    assume p: "ps' y = None" and m: "m \<le> Suc n"
    have n: "\<not> dist dir es s (Suc n) y" 
    proof
      assume "dist dir es s (Suc n) y"
      from iffD2 [OF new this] obtain qs where "ps' y = Some (Suc n, qs)" using 3 [of y] by blast
      then show False using p by simp
    qed
    then have "ps y \<noteq> None \<or> (\<nexists>x e. (x, y, e) \<in> set ?ts)" by (simp only: new [symmetric] de_Morgan_conj)
    then have "ps' y = ps y" by (rule 2)
    then have "\<not> dist dir es s m y" if "m \<le> n" using p rec that unfolding recorded_def by auto
    then show "\<not> dist dir es s m y" using n m by (cases "m = Suc n") auto
  qed
qed

section \<open>Reading the paths back\<close>

lemma step_ends: "step dir es x e y \<Longrightarrow> case e of Edge a p b \<Rightarrow> (x = a \<and> y = b) \<or> (x = b \<and> y = a)"
  by (auto simp: step_def adjacent_def split: edge.splits if_splits)

text \<open>A relationship between two levels is not between two others.\<close>

lemma level_unique:
  assumes "step dir es x e y" "dist dir es s k x" "dist dir es s (Suc k) y"
    and "step dir es x' e y'" "dist dir es s k' x'" "dist dir es s (Suc k') y'"
  shows "k = k'"
proof -
  have "(x = x' \<and> y = y') \<or> (x = y' \<and> y = x')"
    using step_ends [OF assms(1)] step_ends [OF assms(4)] by (cases e) auto
  then show ?thesis
  proof
    assume "x = x' \<and> y = y'"
    then show ?thesis using dist_unique assms(2,5) by blast
  next
    assume "x = y' \<and> y = x'"
    then have "k = Suc k'" "Suc k = k'" using dist_unique assms(2,3,5,6) by blast+
    then show ?thesis by simp
  qed
qed

definition stacked :: "direction \<Rightarrow> edge list \<Rightarrow> int \<Rightarrow> int \<Rightarrow> nat \<Rightarrow> parents \<Rightarrow> int \<times> int list \<times> edge list \<Rightarrow> bool" where
  "stacked dir es s t len ps = (\<lambda>(n, ns, rs).
     ns \<noteq> [] \<and> last ns = n \<and> hd ns = t \<and> is_walk dir es (rev ns) (rev rs)
     \<and> (\<exists>l qs. ps n = Some (l, qs) \<and> l + length rs = len
          \<and> (\<forall>e \<in> set rs. \<exists>k x y. l \<le> k \<and> step dir es x e y \<and> dist dir es s k x \<and> dist dir es s (Suc k) y)))"

definition result_ok :: "direction \<Rightarrow> edge list \<Rightarrow> int \<Rightarrow> int \<Rightarrow> nat \<Rightarrow> id_path \<Rightarrow> bool" where
  "result_ok dir es s t len p \<longleftrightarrow> walk_from_to dir es s t p \<and> length (snd p) = len"

definition node_level :: "parents \<Rightarrow> int \<times> int list \<times> edge list \<Rightarrow> nat" where
  "node_level ps el = (case ps (fst el) of Some (l, _) \<Rightarrow> l | None \<Rightarrow> 0)"

lemma choices_stacked:
  assumes rec: "recorded dir es s n ps" and st: "stacked dir es s t len ps (m, ns, rs)"
    and m: "ps m = Some (l, qs)" "l \<noteq> 0"
  shows "choices every qs ns rs \<noteq> []" "\<forall>el \<in> set (choices every qs ns rs). stacked dir es s t len ps el \<and> node_level ps el < l"
proof -
  obtain k where k: "l = Suc k" using m(2) by (cases l) auto
  have l: "l \<le> n" "entry_ok dir es s l m qs" using rec m(1) by (auto simp: recorded_def)
  have rs: "\<forall>e \<in> set rs. \<exists>k x y. l \<le> k \<and> step dir es x e y \<and> dist dir es s k x \<and> dist dir es s (Suc k) y" and len: "l + length rs = len"
    using st m(1) by (auto simp: stacked_def)
  have q: "step dir es (fst q) (snd q) m" "dist dir es s k (fst q)" "dist dir es s (Suc k) m" if "q \<in> set qs" for q
    using l(2) that by (auto simp: entry_ok_def k)
  have new: "snd q \<notin> set rs" if "q \<in> set qs" for q
  proof
    assume "snd q \<in> set rs"
    then obtain j x y where "l \<le> j" "step dir es x (snd q) y" "dist dir es s j x" "dist dir es s (Suc j) y" using rs by blast
    then show False using level_unique [OF q [OF that]] by (metis k not_less_eq_eq order_refl)
  qed
  have ne: "qs \<noteq> []" using l(2) m(2) by (auto simp: entry_ok_def)
  have f: "filter (\<lambda>(_, e). e \<notin> set rs) (if every then qs else take 1 qs) = (if every then qs else take 1 qs)"
    using new by (auto simp: filter_id_conv dest!: in_set_takeD)
  show "choices every qs ns rs \<noteq> []" using ne unfolding choices_def f by auto
  show "\<forall>el \<in> set (choices every qs ns rs). stacked dir es s t len ps el \<and> node_level ps el < l"
  proof
    fix el assume "el \<in> set (choices every qs ns rs)"
    then obtain q where qi: "q \<in> set qs" and el: "el = (fst q, ns @ [fst q], rs @ [snd q])"
      unfolding choices_def f by (auto split: if_splits dest!: in_set_takeD)
    have "\<exists>pqs. ps (fst q) = Some (k, pqs)" using recorded_iff [OF rec, of k] q(2) [OF qi] l(1) k by simp
    moreover have "is_walk dir es (rev (ns @ [fst q])) (rev (rs @ [snd q]))"
    proof -
      obtain r where r: "rev ns = m # r" using st by (cases "rev ns") (auto simp: stacked_def hd_rev [symmetric])
      have "is_walk dir es (rev ns) (rev rs)" using st by (simp add: stacked_def)
      then show ?thesis using q(1) [OF qi] by (simp add: r)
    qed
    moreover have "\<forall>e \<in> set (rs @ [snd q]). \<exists>j x y. k \<le> j \<and> step dir es x e y \<and> dist dir es s j x \<and> dist dir es s (Suc j) y"
    proof
      fix e assume "e \<in> set (rs @ [snd q])"
      then consider "e \<in> set rs" | "e = snd q" by auto
      then show "\<exists>j x y. k \<le> j \<and> step dir es x e y \<and> dist dir es s j x \<and> dist dir es s (Suc j) y"
      proof cases
        case 1
        then show ?thesis using rs k by (metis Suc_leD)
      next
        case 2
        then show ?thesis using q [OF qi] by blast
      qed
    qed
    ultimately show "stacked dir es s t len ps el \<and> node_level ps el < l"
      using st len by (auto simp: stacked_def el k node_level_def)
  qed
qed

lemma unfold_loop_ok:
  assumes rec: "recorded dir es s n ps"
  shows "\<forall>el \<in> set stack. stacked dir es s t len ps el \<Longrightarrow> \<forall>p \<in> set out. result_ok dir es s t len p \<Longrightarrow> stack \<noteq> [] \<or> out \<noteq> [] \<Longrightarrow>
    \<exists>res. unfold_loop ps s len every stack out = Some res \<and> res \<noteq> [] \<and> (\<forall>p \<in> set res. result_ok dir es s t len p)"
proof (induction "mset (map (node_level ps) stack)" arbitrary: stack out rule: wf_induct_rule [OF wf_mult [OF wf_less_than]])
  case 1
  note IH = 1(1) and prems = 1(2-4)
  show ?case
  proof (cases stack)
    case Nil
    then show ?thesis using prems by (simp add: unfold_loop.simps)
  next
    case (Cons el rest)
    obtain m ns rs where el: "el = (m, ns, rs)" by (cases el) auto
    have st: "stacked dir es s t len ps (m, ns, rs)" using prems(1) Cons el by simp
    then obtain l qs where m: "ps m = Some (l, qs)" "l + length rs = len" by (auto simp: stacked_def)
    have lv: "node_level ps el = l" by (simp add: node_level_def el m)
    have d: "dist dir es s l m" using rec m(1) by (auto simp: recorded_def entry_ok_def)
    show ?thesis
    proof (cases "m = s")
      case True
      then have "l = 0" using dist_unique [OF d, of 0] by simp
      define out' where "out' = out @ [(rev ns, rev rs)]"
      have ok: "result_ok dir es s t len (rev ns, rev rs)"
        using st \<open>l = 0\<close> True m by (auto simp: stacked_def result_ok_def walk_from_to_def hd_rev last_rev)
      have out': "\<forall>p \<in> set out'. result_ok dir es s t len p" "out' \<noteq> []" using ok prems(2) by (auto simp: out'_def)
      have less: "(mset (map (node_level ps) rest), mset (map (node_level ps) stack)) \<in> mult less_than"
        using one_step_implies_mult [of "{#l#}" "{#}" less_than "mset (map (node_level ps) rest)"] by (simp add: Cons lv)
      have "\<exists>res. unfold_loop ps s len every rest out' = Some res \<and> res \<noteq> [] \<and> (\<forall>p \<in> set res. result_ok dir es s t len p)"
        using prems(1) Cons out' by (intro IH [OF less]) auto
      then show ?thesis using True m \<open>l = 0\<close> out' unfolding Cons el
        by (subst unfold_loop.simps) (auto simp: Let_def simp flip: out'_def)
    next
      case False
      then have l0: "l \<noteq> 0" using d by (metis dist_0)
      note ch = choices_stacked [OF rec st m(1) l0, of every]
      let ?c = "choices every qs ns rs"
      have less: "(mset (map (node_level ps) (?c @ rest)), mset (map (node_level ps) stack)) \<in> mult less_than"
        using one_step_implies_mult [of "{#l#}" "mset (map (node_level ps) ?c)" less_than "mset (map (node_level ps) rest)"] ch(2)
        by (auto simp: Cons lv add.commute)
      have "\<exists>res. unfold_loop ps s len every (?c @ rest) out = Some res \<and> res \<noteq> [] \<and> (\<forall>p \<in> set res. result_ok dir es s t len p)"
        using prems Cons ch by (intro IH [OF less]) auto
      then show ?thesis using False m unfolding Cons el by (subst unfold_loop.simps) simp
    qed
  qed
qed

lemma unfold_ok:
  assumes "recorded dir es s n ps" "ps t = Some (l, qs)"
  shows "\<exists>res. unfold ps s t every = Some res \<and> res \<noteq> [] \<and> (\<forall>p \<in> set res. result_ok dir es s t l p)"
proof -
  have "stacked dir es s t l ps (t, [t], [])" using assms(2) by (simp add: stacked_def)
  then show ?thesis using unfold_loop_ok [OF assms(1), of "[(t, [t], [])]" t l "[]" every] assms(2) by (simp add: unfold_def)
qed

section \<open>The rounds\<close>

text \<open>What is known of a source after \<open>n\<close> levels, and of the paths found.\<close>

definition source_inv :: "direction \<Rightarrow> edge list \<Rightarrow> nat \<Rightarrow> nat \<Rightarrow> int \<times> bfs_source \<Rightarrow> bool" where
  "source_inv dir es mn n = (\<lambda>(s, src).
     (if sr_done src then sr_targets src = []
      else recorded dir es s n (sr_parents src) \<and> set (sr_frontier src) = {y. dist dir es s n y})
     \<and> (\<forall>t \<in> set (sr_targets src). (mn = 0 \<longrightarrow> t \<noteq> s) \<and> (\<forall>m \<le> n. dist dir es s m t \<longrightarrow> m = 0)))"

definition paths_ok :: "direction \<Rightarrow> edge list \<Rightarrow> nat \<Rightarrow> int \<Rightarrow> int \<Rightarrow> id_path list \<Rightarrow> bool" where
  "paths_ok dir es n s t paths \<longleftrightarrow>
     paths \<noteq> [] \<and> (\<forall>p \<in> set paths. walk_from_to dir es s t p \<and> length (snd p) \<le> n \<and> dist dir es s (length (snd p)) t)"

lemma those_ok: "None \<notin> set xs \<Longrightarrow> \<exists>ys. those xs = Some ys \<and> xs = map Some ys"
proof (induction xs)
  case (Cons x xs)
  then obtain y ys where "x = Some y" "those xs = Some ys" "xs = map Some ys" by (cases x) auto
  then show ?case by simp
qed simp

lemma source_step_ok:
  assumes inv: "source_inv dir es mn n (s, src)"
    and adj: "\<And>x. \<not> sr_done src \<Longrightarrow> x \<in> set (sr_frontier src) \<Longrightarrow> set (adj x) = set (adjacent dir es x)"
  shows "\<exists>src' paths. source_step every (Suc n) adj (s, src) = Some ((s, src'), paths) \<and> source_inv dir es mn (Suc n) (s, src')
    \<and> (\<forall>s' t ps. ((s', t), ps) \<in> set paths \<longrightarrow> s' = s \<and> paths_ok dir es (Suc n) s t ps)
    \<and> (\<forall>t \<in> set (sr_targets src). t \<in> set (sr_targets src') \<or> (s, t) \<in> fst ` set paths)"
proof (cases "sr_done src")
  case True
  then show ?thesis using inv by (auto simp: source_step_def source_inv_def)
next
  case False
  obtain ps nx where ex: "expand every (Suc n) adj (sr_frontier src) (sr_parents src) = (ps, nx)" by fastforce
  have rec: "recorded dir es s n (sr_parents src)" "set (sr_frontier src) = {y. dist dir es s n y}"
    using inv False by (auto simp: source_inv_def)
  note lvl = expand_recorded [OF rec adj [OF False] ex]
  define reached where "reached = filter (\<lambda>t. case ps t of Some (l, _) \<Rightarrow> l = Suc n | None \<Rightarrow> False) (sr_targets src)"
  define rest where "rest = filter (\<lambda>t. t \<notin> set reached) (sr_targets src)"
  have at: "t \<in> set reached \<longleftrightarrow> t \<in> set (sr_targets src) \<and> dist dir es s (Suc n) t" for t
    using recorded_iff [OF lvl(1), of "Suc n" t] by (auto simp: reached_def split: option.splits)
  let ?f = "\<lambda>t. map_option (\<lambda>paths. ((s, t), paths)) (unfold ps s t every)"
  have one: "\<exists>res. unfold ps s t every = Some res \<and> paths_ok dir es (Suc n) s t res" if "t \<in> set reached" for t
  proof -
    have d: "dist dir es s (Suc n) t" using at that by blast
    then obtain qs where "ps t = Some (Suc n, qs)" using recorded_iff [OF lvl(1), of "Suc n" t] by auto
    from unfold_ok [OF lvl(1) this, of every] show ?thesis using d by (fastforce simp: paths_ok_def result_ok_def)
  qed
  then have "None \<notin> set (map ?f reached)" by fastforce
  then obtain paths where p: "those (map ?f reached) = Some paths" and pm: "map ?f reached = map Some paths"
    using those_ok by blast
  have sp: "source_step every (Suc n) adj (s, src) =
      Some ((s, \<lparr>sr_parents = ps, sr_frontier = sort (remdups nx), sr_targets = rest, sr_done = (rest = [])\<rparr>), paths)"
    unfolding source_step_def using False
    by (simp only: prod.case ex Let_def if_False reached_def [symmetric] rest_def [symmetric] p option.map)
  have in_paths: "Some q \<in> set (map ?f reached)" if "q \<in> set paths" for q
    unfolding pm using that by simp
  have a: "s' = s \<and> paths_ok dir es (Suc n) s t res" if "((s', t), res) \<in> set paths" for s' t res
  proof -
    note q = that
    obtain x where x: "x \<in> set reached" "Some ((s', t), res) = map_option (\<lambda>paths. ((s, x), paths)) (unfold ps s x every)"
      using in_paths [OF q] by auto
    obtain res' where "unfold ps s x every = Some res'" "paths_ok dir es (Suc n) s x res'" using one [OF x(1)] by blast
    then show ?thesis using x(2) by simp
  qed
  have b: "(s, t) \<in> fst ` set paths" if "t \<in> set reached" for t
  proof -
    note r = that
    obtain res where "unfold ps s t every = Some res" using one [OF r] by blast
    then have "Some ((s, t), res) \<in> set (map ?f reached)" using r by force
    then have "Some ((s, t), res) \<in> set (map Some paths)" unfolding pm .
    then show ?thesis by force
  qed
  have c: "source_inv dir es mn (Suc n) (s, \<lparr>sr_parents = ps, sr_frontier = sort (remdups nx), sr_targets = rest, sr_done = (rest = [])\<rparr>)"
    using inv lvl at unfolding source_inv_def by (auto simp: rest_def le_Suc_eq)
  show ?thesis using sp a b c by (fastforce simp: rest_def)
qed


text \<open>A round keeps the invariant, and the paths found before stay.\<close>

lemma steps_ok:
  assumes "\<And>s src. (s, src) \<in> set sources \<Longrightarrow> source_inv dir es mn n (s, src)"
    and "\<And>s src x. (s, src) \<in> set sources \<Longrightarrow> \<not> sr_done src \<Longrightarrow> x \<in> set (sr_frontier src) \<Longrightarrow> set (adj x) = set (adjacent dir es x)"
  shows "\<exists>rs. those (map (source_step every (Suc n) adj) sources) = Some rs
    \<and> (\<forall>s src. (s, src) \<in> set (map fst rs) \<longrightarrow> source_inv dir es mn (Suc n) (s, src))
    \<and> (\<forall>s t ps. ((s, t), ps) \<in> set (concat (map snd rs)) \<longrightarrow> paths_ok dir es (Suc n) s t ps)
    \<and> (\<forall>s src t. (s, src) \<in> set sources \<longrightarrow> t \<in> set (sr_targets src) \<longrightarrow>
          (\<exists>src'. (s, src') \<in> set (map fst rs) \<and> t \<in> set (sr_targets src')) \<or> (s, t) \<in> fst ` set (concat (map snd rs)))"
  using assms
proof (induction sources)
  case (Cons source sources)
  obtain s src where s: "source = (s, src)" by (cases source) auto
  have "source_inv dir es mn n (s, src)" using Cons.prems(1) s by simp
  moreover have "set (adj x) = set (adjacent dir es x)" if "\<not> sr_done src" "x \<in> set (sr_frontier src)" for x
    using Cons.prems(2) [of s src x] s that by simp
  ultimately obtain src' paths where h: "source_step every (Suc n) adj (s, src) = Some ((s, src'), paths)"
      "source_inv dir es mn (Suc n) (s, src')"
      "\<forall>s' t ps. ((s', t), ps) \<in> set paths \<longrightarrow> s' = s \<and> paths_ok dir es (Suc n) s t ps"
      "\<forall>t \<in> set (sr_targets src). t \<in> set (sr_targets src') \<or> (s, t) \<in> fst ` set paths"
    using source_step_ok [of dir es mn n s src adj every] by blast
  have "\<exists>rs. those (map (source_step every (Suc n) adj) sources) = Some rs
      \<and> (\<forall>s src. (s, src) \<in> set (map fst rs) \<longrightarrow> source_inv dir es mn (Suc n) (s, src))
      \<and> (\<forall>s t ps. ((s, t), ps) \<in> set (concat (map snd rs)) \<longrightarrow> paths_ok dir es (Suc n) s t ps)
      \<and> (\<forall>s src t. (s, src) \<in> set sources \<longrightarrow> t \<in> set (sr_targets src) \<longrightarrow>
          (\<exists>src'. (s, src') \<in> set (map fst rs) \<and> t \<in> set (sr_targets src')) \<or> (s, t) \<in> fst ` set (concat (map snd rs)))"
  proof (rule Cons.IH)
    show "source_inv dir es mn n (a, b)" if "(a, b) \<in> set sources" for a b using Cons.prems(1) that by simp
    show "set (adj x) = set (adjacent dir es x)" if "(a, b) \<in> set sources" "\<not> sr_done b" "x \<in> set (sr_frontier b)" for a b x
      using Cons.prems(2) [of a b x] that by simp
  qed
  then obtain rs where t: "those (map (source_step every (Suc n) adj) sources) = Some rs"
      "\<forall>s src. (s, src) \<in> set (map fst rs) \<longrightarrow> source_inv dir es mn (Suc n) (s, src)"
      "\<forall>s t ps. ((s, t), ps) \<in> set (concat (map snd rs)) \<longrightarrow> paths_ok dir es (Suc n) s t ps"
      "\<forall>s src t. (s, src) \<in> set sources \<longrightarrow> t \<in> set (sr_targets src) \<longrightarrow>
          (\<exists>src'. (s, src') \<in> set (map fst rs) \<and> t \<in> set (sr_targets src')) \<or> (s, t) \<in> fst ` set (concat (map snd rs))"
    by blast
  let ?rs = "((s, src'), paths) # rs"
  show ?case
  proof (intro exI [of _ ?rs] conjI allI impI)
    show "those (map (source_step every (Suc n) adj) (source # sources)) = Some ?rs" using h(1) t(1) by (simp add: s)
    show "source_inv dir es mn (Suc n) (a, b)" if "(a, b) \<in> set (map fst ?rs)" for a b using h(2) t(2) that by auto
    show "paths_ok dir es (Suc n) a b ps" if "((a, b), ps) \<in> set (concat (map snd ?rs))" for a b ps
    proof -
      from that consider "((a, b), ps) \<in> set paths" | "((a, b), ps) \<in> set (concat (map snd rs))" by auto
      then show ?thesis using h(3) t(3) by cases blast+
    qed
    fix a b c
    assume ab: "(a, b) \<in> set (source # sources)" and c: "c \<in> set (sr_targets b)"
    show "(\<exists>b'. (a, b') \<in> set (map fst ?rs) \<and> c \<in> set (sr_targets b')) \<or> (a, c) \<in> fst ` set (concat (map snd ?rs))"
    proof (cases "(a, b) = source")
      case True
      then show ?thesis using h(4) c by (auto simp: s)
    next
      case False
      then have "(a, b) \<in> set sources" using ab by auto
      then have "(\<exists>b'. (a, b') \<in> set (map fst rs) \<and> c \<in> set (sr_targets b')) \<or> (a, c) \<in> fst ` set (concat (map snd rs))"
        using t(4) c by blast
      then show ?thesis by (auto simp: image_Un)
    qed
  qed
qed simp


lemma paths_ok_mono: "paths_ok dir es n s t ps \<Longrightarrow> n \<le> m \<Longrightarrow> paths_ok dir es m s t ps"
  by (fastforce simp: paths_ok_def)

lemma bfs_rounds_ok:
  assumes fetch: "\<And>F x. x \<in> set F \<Longrightarrow> set (adjacent dir (fetch F) x) = set (adjacent dir es x)"
  shows "\<lbrakk>\<And>s src. (s, src) \<in> set sources \<Longrightarrow> source_inv dir es mn n (s, src);
      \<And>s t ps. found (s, t) = Some ps \<Longrightarrow> paths_ok dir es n s t ps\<rbrakk> \<Longrightarrow>
    \<exists>found'. bfs_rounds fetch dir every k n sources found = Some found'
      \<and> (\<forall>s t ps. found' (s, t) = Some ps \<longrightarrow> paths_ok dir es (n + k) s t ps)
      \<and> (\<forall>s src t. (s, src) \<in> set sources \<longrightarrow> t \<in> set (sr_targets src) \<longrightarrow>
           found' (s, t) \<noteq> None \<or> (\<forall>m \<le> n + k. dist dir es s m t \<longrightarrow> m = 0))
      \<and> dom found \<subseteq> dom found'"
proof (induction k arbitrary: n sources found)
  case 0
  have "\<forall>m \<le> n. dist dir es s m t \<longrightarrow> m = 0" if "(s, src) \<in> set sources" "t \<in> set (sr_targets src)" for s src t
    using 0(1) [OF that(1)] that(2) by (simp add: source_inv_def)
  then show ?case using 0(2) by simp
next
  case (Suc k)
  have fr: "x \<in> set (bfs_frontier sources)" if "(s, src) \<in> set sources" "\<not> sr_done src" "x \<in> set (sr_frontier src)" for s src x
    using that unfolding bfs_frontier_def by force
  show ?case
  proof (cases "bfs_frontier sources = []")
    case True
    have far: "dist dir es s m t \<Longrightarrow> m = 0" if "(s, src) \<in> set sources" "t \<in> set (sr_targets src)" for s src t m
    proof -
      assume d: "dist dir es s m t"
      note inv = Suc.prems(1) [OF that(1)]
      have nd: "\<not> sr_done src" using inv that(2) by (auto simp: source_inv_def split: if_splits)
      have "sr_frontier src = []" using fr [OF that(1) nd] True by (cases "sr_frontier src") auto
      then have "\<forall>y. \<not> dist dir es s n y" using inv nd by (simp add: source_inv_def)
      from dist_none [OF this, of m t] d have "m \<le> n" by (cases "n \<le> m") auto
      then show "m = 0" using inv that(2) d by (auto simp: source_inv_def)
    qed
    then have "\<forall>s src t. (s, src) \<in> set sources \<longrightarrow> t \<in> set (sr_targets src) \<longrightarrow> (\<forall>m \<le> n + Suc k. dist dir es s m t \<longrightarrow> m = 0)"
      by blast
    moreover have "\<forall>s t ps. found (s, t) = Some ps \<longrightarrow> paths_ok dir es (n + Suc k) s t ps"
      using paths_ok_mono Suc.prems(2) by (metis le_add1)
    ultimately show ?thesis using True by simp
  next
    case False
    obtain rs where rs: "those (map (source_step every (Suc n) (adjacent dir (fetch (bfs_frontier sources)))) sources) = Some rs"
        "\<forall>s src. (s, src) \<in> set (map fst rs) \<longrightarrow> source_inv dir es mn (Suc n) (s, src)"
        "\<forall>s t ps. ((s, t), ps) \<in> set (concat (map snd rs)) \<longrightarrow> paths_ok dir es (Suc n) s t ps"
        "\<forall>s src t. (s, src) \<in> set sources \<longrightarrow> t \<in> set (sr_targets src) \<longrightarrow>
          (\<exists>src'. (s, src') \<in> set (map fst rs) \<and> t \<in> set (sr_targets src')) \<or> (s, t) \<in> fst ` set (concat (map snd rs))"
      using steps_ok [of sources dir es mn n "adjacent dir (fetch (bfs_frontier sources))" every] Suc.prems(1) fetch fr by blast
    let ?f = "found ++ map_of (concat (map snd rs))"
    have p: "paths_ok dir es (Suc n) s t ps" if "?f (s, t) = Some ps" for s t ps
      using that rs(3) paths_ok_mono [OF Suc.prems(2), of s t ps "Suc n"] map_of_SomeD
      by (fastforce simp: map_add_Some_iff)
    obtain found' where f: "bfs_rounds fetch dir every k (Suc n) (map fst rs) ?f = Some found'"
        "\<forall>s t ps. found' (s, t) = Some ps \<longrightarrow> paths_ok dir es (Suc n + k) s t ps"
        "\<forall>s src t. (s, src) \<in> set (map fst rs) \<longrightarrow> t \<in> set (sr_targets src) \<longrightarrow>
           found' (s, t) \<noteq> None \<or> (\<forall>m \<le> Suc n + k. dist dir es s m t \<longrightarrow> m = 0)"
        "dom ?f \<subseteq> dom found'"
      using Suc.IH [of "map fst rs" "Suc n" ?f] rs(2) p by blast
    have left: "found' (s, t) \<noteq> None \<or> (\<forall>m \<le> Suc n + k. dist dir es s m t \<longrightarrow> m = 0)"
      if st: "(s, src) \<in> set sources" "t \<in> set (sr_targets src)" for s src t
    proof -
      from rs(4) st consider src' where "(s, src') \<in> set (map fst rs)" "t \<in> set (sr_targets src')"
        | "(s, t) \<in> fst ` set (concat (map snd rs))" by blast
      then show ?thesis
      proof cases
        case 1
        then show ?thesis using f(3) by blast
      next
        case 2
        then have "(s, t) \<in> dom ?f" by (simp add: dom_map_of_conv_image_fst)
        then have "(s, t) \<in> dom found'" by (rule subsetD [OF f(4)])
        then show ?thesis by auto
      qed
    qed
    have "bfs_rounds fetch dir every (Suc k) n sources found = Some found'" using False rs(1) f(1) by (simp add: Let_def)
    moreover have "dom found \<subseteq> dom found'" using f(4) by auto
    ultimately show ?thesis using f(2) left by (intro exI [of _ found']) simp
  qed
qed

section \<open>The start\<close>

lemma start_sources_ok:
  "bt_invar (fold add_source pairs [])
   \<and> (\<forall>s src. (s, src) \<in> set (fold add_source pairs []) \<longrightarrow>
        sr_parents src = [s \<mapsto> (0, [])] \<and> sr_frontier src = [s] \<and> \<not> sr_done src)
   \<and> (\<forall>s t. (s, t) \<in> set pairs \<longrightarrow> (\<exists>src. bt_get (fold add_source pairs []) s = Some src \<and> t \<in> set (sr_targets src)))"
proof (induction pairs rule: rev_induct)
  case (snoc p pairs)
  obtain f t where p: "p = (f, t)" by (cases p) auto
  let ?m = "fold add_source pairs []"
  define new where "new = (case bt_get ?m f of
         None \<Rightarrow> \<lparr>sr_parents = [f \<mapsto> (0, [])], sr_frontier = [f], sr_targets = [t], sr_done = False\<rparr>
       | Some src \<Rightarrow> src\<lparr>sr_targets := push_new t (sr_targets src)\<rparr>)"
  have m: "fold add_source (pairs @ [p]) [] = bt_insert f new ?m" by (simp add: p add_source_def new_def)
  have get: "bt_get (bt_insert f new ?m) = (bt_get ?m)(f \<mapsto> new)" using snoc by (simp add: bt_insert_get)
  have inv: "bt_invar (bt_insert f new ?m)" using snoc by (simp add: bt_insert_invar)
  have old: "sr_parents src = [s \<mapsto> (0, [])] \<and> sr_frontier src = [s] \<and> \<not> sr_done src" if "bt_get ?m s = Some src" for s src
    using snoc.IH map_of_SomeD [OF that] by blast
  have new: "sr_parents new = [f \<mapsto> (0, [])] \<and> sr_frontier new = [f] \<and> \<not> sr_done new" "t \<in> set (sr_targets new)"
    "\<And>src. bt_get ?m f = Some src \<Longrightarrow> set (sr_targets src) \<subseteq> set (sr_targets new)"
    using old [of f] by (cases "bt_get ?m f"; simp add: new_def; blast)+
  have mem: "bt_get (bt_insert f new ?m) s = Some src" if "(s, src) \<in> set (bt_insert f new ?m)" for s src
    using that inv by (simp add: strict_sorted_iff)
  show ?case unfolding m
  proof (intro conjI allI impI)
    show "bt_invar (bt_insert f new ?m)" by (rule inv)
    fix s src assume "(s, src) \<in> set (bt_insert f new ?m)"
    from mem [OF this] show "sr_parents src = [s \<mapsto> (0, [])]" "sr_frontier src = [s]" "\<not> sr_done src"
      using old [of s src] new(1) unfolding get by (auto split: if_splits)
  next
    fix s u assume "(s, u) \<in> set (pairs @ [p])"
    then show "\<exists>src. bt_get (bt_insert f new ?m) s = Some src \<and> u \<in> set (sr_targets src)"
    proof (cases "(s, u) = (f, t)")
      case False
      then have "(s, u) \<in> set pairs" using \<open>(s, u) \<in> set (pairs @ [p])\<close> by (auto simp: p)
      then obtain src where "bt_get ?m s = Some src" "u \<in> set (sr_targets src)" using snoc by blast
      then show ?thesis using new(3) unfolding get by (cases "s = f") auto
    qed (use new(2) in \<open>simp add: get\<close>)
  qed
qed simp


lemma start_ok:
  assumes "sources = (if mn = 0 then map drop_self (start_sources pairs) else start_sources pairs)"
    and "found = (if mn = 0 then self_paths (start_sources pairs) else (\<lambda>_. None))"
  shows "(s, src) \<in> set sources \<Longrightarrow> source_inv dir es mn 0 (s, src)"
    and "found (s, t) = Some ps \<Longrightarrow> paths_ok dir es 0 s t ps"
    and "(s, t) \<in> set pairs \<Longrightarrow> s \<noteq> t \<Longrightarrow> \<exists>src. (s, src) \<in> set sources \<and> t \<in> set (sr_targets src)"
    and "(s, s) \<in> set pairs \<Longrightarrow> mn = 0 \<Longrightarrow> found (s, s) \<noteq> None"
proof -
  let ?m = "start_sources pairs"
  have m: "(s, src) \<in> set ?m \<Longrightarrow> sr_parents src = [s \<mapsto> (0, [])] \<and> sr_frontier src = [s] \<and> \<not> sr_done src"
    and p: "(s, t) \<in> set pairs \<Longrightarrow> \<exists>src. bt_get ?m s = Some src \<and> t \<in> set (sr_targets src)" for s t src
    using start_sources_ok [of pairs] by (auto simp: start_sources_def)
  have start: "recorded dir es s 0 [s \<mapsto> (0, [])] \<and> {y. dist dir es s 0 y} = {s}" for s by (simp add: recorded_start)
  show "source_inv dir es mn 0 (s, src)" if src: "(s, src) \<in> set sources"
  proof (cases "mn = 0")
    case True
    then obtain src0 where s0: "(s, src0) \<in> set ?m" "(s, src) = drop_self (s, src0)"
      using src assms(1) by (auto simp: drop_self_def Let_def)
    show ?thesis using m [OF s0(1)] s0(2) start [of s] unfolding source_inv_def by (auto simp: drop_self_def Let_def)
  next
    case False
    then have "(s, src) \<in> set ?m" using src assms(1) by simp
    from m [OF this] show ?thesis using False start [of s] unfolding source_inv_def by auto
  qed
  show "paths_ok dir es 0 s t ps" if "found (s, t) = Some ps"
    using that assms(2) by (auto simp: self_paths_def paths_ok_def walk_from_to_def split: if_splits option.splits)
  show "\<exists>src. (s, src) \<in> set sources \<and> t \<in> set (sr_targets src)" if "(s, t) \<in> set pairs" "s \<noteq> t"
  proof -
    note st = that
    obtain src where src: "(s, src) \<in> set ?m" "t \<in> set (sr_targets src)" using p [OF st(1)] map_of_SomeD by fast
    show ?thesis
    proof (cases "mn = 0")
      case True
      have "drop_self (s, src) \<in> set sources" using src(1) True assms(1) by simp
      then show ?thesis using src(2) st(2) by (auto simp: drop_self_def Let_def)
    qed (use src assms(1) in auto)
  qed
  show "found (s, s) \<noteq> None" if "(s, s) \<in> set pairs" "mn = 0"
    using p [OF that(1)] that(2) assms(2) by (auto simp: self_paths_def)
qed

section \<open>The paths found\<close>

lemma dist_shortest:
  assumes "dist dir es s n t" "walk_from_to dir es s t q"
  shows "n \<le> length (snd q)"
proof -
  have "t \<in> reach dir es s (length (snd q))" using assms(2) reach_walk by blast
  then show ?thesis using assms(1) by (metis dist_def not_le)
qed

text \<open>
  C21. For every pair of nodes asked for (a node with itself only where the empty path counts), the search of \<^verbatim>\<open>shortestPath()\<close> and
  \<^verbatim>\<open>allShortestPaths()\<close> ends, and what it finds is right: the paths recorded for a pair are walks of the graph between the two
  nodes, at most as long as the pattern allows, and no walk between them is shorter; where it records none, every walk
  between them is longer than the pattern allows. The rows the store returns for a frontier must be the relationships
  at the nodes of that frontier.
\<close>

theorem shortest_paths_found:
  assumes "\<And>F x. x \<in> set F \<Longrightarrow> set (adjacent dir (fetch F) x) = set (adjacent dir es x)"
  shows "\<exists>found. shortest_paths fetch dir every mn mx pairs = Some found
    \<and> (\<forall>(s, t) \<in> {(s, t) \<in> set pairs. s \<noteq> t \<or> mn = 0}.
         case found (s, t) of
           Some ps \<Rightarrow> ps \<noteq> [] \<and> (\<forall>p \<in> set ps. walk_from_to dir es s t p \<and> length (snd p) \<le> mx
             \<and> (\<forall>q. walk_from_to dir es s t q \<longrightarrow> length (snd p) \<le> length (snd q)))
         | None \<Rightarrow> (\<forall>q. walk_from_to dir es s t q \<longrightarrow> mx < length (snd q)))"
proof -
  define sources where "sources = (if mn = 0 then map drop_self (start_sources pairs) else start_sources pairs)"
  define init where "init = (if mn = 0 then self_paths (start_sources pairs) else (\<lambda>_. None))"
  note start = start_ok [OF sources_def init_def]
  have run: "shortest_paths fetch dir every mn mx pairs = bfs_rounds fetch dir every mx 0 sources init"
    by (cases "mn = 0") (simp_all add: shortest_paths_def sources_def init_def Let_def)
  have "\<exists>found. bfs_rounds fetch dir every mx 0 sources init = Some found
      \<and> (\<forall>s t ps. found (s, t) = Some ps \<longrightarrow> paths_ok dir es (0 + mx) s t ps)
      \<and> (\<forall>s src t. (s, src) \<in> set sources \<longrightarrow> t \<in> set (sr_targets src) \<longrightarrow>
           found (s, t) \<noteq> None \<or> (\<forall>m \<le> 0 + mx. dist dir es s m t \<longrightarrow> m = 0))
      \<and> dom init \<subseteq> dom found"
    by (rule bfs_rounds_ok [where mn = mn]) (use assms start(1,2) in blast)+
  then obtain found where f: "bfs_rounds fetch dir every mx 0 sources init = Some found"
      "\<And>s t ps. found (s, t) = Some ps \<Longrightarrow> paths_ok dir es mx s t ps"
      "\<And>s src t. (s, src) \<in> set sources \<Longrightarrow> t \<in> set (sr_targets src) \<Longrightarrow>
           found (s, t) \<noteq> None \<or> (\<forall>m \<le> mx. dist dir es s m t \<longrightarrow> m = 0)"
      "dom init \<subseteq> dom found"
    by auto
  have some: "ps \<noteq> [] \<and> (\<forall>p \<in> set ps. walk_from_to dir es s t p \<and> length (snd p) \<le> mx
       \<and> (\<forall>q. walk_from_to dir es s t q \<longrightarrow> length (snd p) \<le> length (snd q)))" if "found (s, t) = Some ps" for s t ps
    using f(2) [OF that] dist_shortest unfolding paths_ok_def by blast
  have none: "mx < length (snd q)"
    if "(s, t) \<in> set pairs" "s \<noteq> t \<or> mn = 0" "found (s, t) = None" "walk_from_to dir es s t q" for s t q
  proof -
    note q = that
    have st: "s \<noteq> t" using q(1-3) start(4) [of s] f(4) by auto
    then obtain src where "(s, src) \<in> set sources" "t \<in> set (sr_targets src)" using start(3) q(1) by blast
    from f(3) [OF this] q(3) have no: "\<forall>m \<le> mx. dist dir es s m t \<longrightarrow> m = 0" by simp
    obtain m where m: "m \<le> length (snd q)" "dist dir es s m t" using reach_walk reach_dist q(4) by blast
    have "m \<noteq> 0" using m(2) st by (cases m) auto
    then show ?thesis using no m by (meson le_trans not_le)
  qed
  show ?thesis unfolding run using f(1) some none
    by (intro exI [of _ found]) (auto split: option.splits)
qed

definition sample_edges :: "edge list" where
  "sample_edges = [Edge 1 9 2, Edge 2 9 3, Edge 1 9 4, Edge 4 9 3, Edge 3 9 5]"

theorem shortest_paths_found_witness:
  "\<exists>found ps. shortest_paths (\<lambda>_. sample_edges) DirRight True 1 2 [(1, 3), (1, 5)] = Some found
    \<and> found (1, 3) = Some ps \<and> ps \<noteq> [] \<and> list_all (\<lambda>p. walk_from_to DirRight sample_edges 1 3 p \<and> length (snd p) \<le> 2) ps"
proof -
  obtain found where f: "shortest_paths (\<lambda>_. sample_edges) DirRight True 1 2 [(1, 3), (1, 5)] = Some found"
      "case found (1, 3) of
         Some ps \<Rightarrow> ps \<noteq> [] \<and> (\<forall>p \<in> set ps. walk_from_to DirRight sample_edges 1 3 p \<and> length (snd p) \<le> 2
           \<and> (\<forall>q. walk_from_to DirRight sample_edges 1 3 q \<longrightarrow> length (snd p) \<le> length (snd q)))
       | None \<Rightarrow> (\<forall>q. walk_from_to DirRight sample_edges 1 3 q \<longrightarrow> 2 < length (snd q))"
    using shortest_paths_found [of DirRight "\<lambda>_. sample_edges" sample_edges True 1 2 "[(1, 3), (1, 5)]"] by auto
  have "walk_from_to DirRight sample_edges 1 3 ([1, 2, 3], [Edge 1 9 2, Edge 2 9 3])"
    by (simp add: walk_from_to_def step_def adjacent_def sample_edges_def)
  moreover have "length (snd ([1, 2, 3 :: int], [Edge 1 9 2, Edge 2 9 3])) = 2" by simp
  ultimately have "found (1, 3) \<noteq> None" using f(2) by (cases "found (1, 3)") fastforce+
  then show ?thesis using f by (auto simp: list_all_iff)
qed

end
