(* ===== verification/Cypher_Validate.thy ===== *)
theory Cypher_Validate
  imports Cypher_Functions
begin

text \<open>
  The semantic checks before planning (\<^verbatim>\<open>oxilite-cypher/src/validate.rs\<close>): the variables in scope and their kinds, the
  composition of clauses and the static rules of openCypher. A scope is a \<^verbatim>\<open>BTreeMap\<close>, as the list of its entries in key order.
  The checks of expressions and of patterns call each other; the ones of patterns take the check of a property map.
\<close>

section \<open>Scopes\<close>

datatype var_kind = KindNode | KindRel | KindPath | KindRelList | KindAny

type_synonym vscope = "(string \<times> var_kind) list"

datatype binding = BindMatch | BindCreate | BindMerge

datatype check_ctx = CtxPredicate | CtxValue | CtxAggregate

definition verr :: "string \<Rightarrow> string \<Rightarrow> cypher_error + 'a" where
  "verr code msg = semantic (code @ '': '' @ msg)"

definition defined_var :: "string \<Rightarrow> vscope \<Rightarrow> cypher_error + var_kind" where
  "defined_var v scope =
     (case bt_get scope v of Some k \<Rightarrow> Inr k | None \<Rightarrow> verr ''UndefinedVariable'' (''variable '' @ backquoted v @ '' not defined''))"

definition bind_var :: "string \<Rightarrow> var_kind \<Rightarrow> vscope \<Rightarrow> cypher_error + vscope" where
  "bind_var name k scope =
     (case bt_get scope name of
        None \<Rightarrow> Inr (bt_insert name k scope)
      | Some prev \<Rightarrow>
          if prev = KindAny \<or> prev = k then Inr scope
          else verr ''VariableTypeConflict'' (backquoted name @ '' is bound with a different type''))"

text \<open>A loop that updates a state and may return early with an error.\<close>

fun try_fold :: "('a \<Rightarrow> 's \<Rightarrow> 'e + 's) \<Rightarrow> 'a list \<Rightarrow> 's \<Rightarrow> 'e + 's" where
  "try_fold f [] s = Inr s"
| "try_fold f (a # as) s = rbind (f a s) (try_fold f as)"

lemma try_fold_cong [fundef_cong]:
  "as = as' \<Longrightarrow> s = s' \<Longrightarrow> (\<And>a t. a \<in> set as' \<Longrightarrow> f a t = g a t) \<Longrightarrow> try_fold f as s = try_fold g as' s'"
proof -
  have "(\<And>a t. a \<in> set as' \<Longrightarrow> f a t = g a t) \<Longrightarrow> try_fold f as' = try_fold g as'"
    by (induction as') (auto intro!: ext)
  then show "as = as' \<Longrightarrow> s = s' \<Longrightarrow> (\<And>a t. a \<in> set as' \<Longrightarrow> f a t = g a t) \<Longrightarrow> try_fold f as s = try_fold g as' s'"
    by simp
qed

section \<open>Patterns\<close>

fun np_var :: "node_pattern \<Rightarrow> string option" where
  "np_var (NodePattern v _ _) = v"

fun np_labels :: "node_pattern \<Rightarrow> string list" where
  "np_labels (NodePattern _ ls _) = ls"

fun np_props :: "node_pattern \<Rightarrow> cexpr option" where
  "np_props (NodePattern _ _ p) = p"

fun rp_var :: "rel_pattern \<Rightarrow> string option" where
  "rp_var (RelPattern v _ _ _ _) = v"

fun rp_props :: "rel_pattern \<Rightarrow> cexpr option" where
  "rp_props (RelPattern _ _ p _ _) = p"

fun element_nodes :: "pattern_element \<Rightarrow> node_pattern list" where
  "element_nodes (PatternElement start chain) = start # map snd chain"

fun element_rels :: "pattern_element \<Rightarrow> rel_pattern list" where
  "element_rels (PatternElement _ chain) = map fst chain"

fun part_element :: "pattern_part \<Rightarrow> pattern_element" where
  "part_element (PatternPart _ _ el) = el"

fun part_var :: "pattern_part \<Rightarrow> string option" where
  "part_var (PatternPart v _ _) = v"

type_synonym prop_check = "cexpr \<Rightarrow> vscope \<Rightarrow> cypher_error + unit"

definition check_props :: "prop_check \<Rightarrow> cexpr option \<Rightarrow> vscope \<Rightarrow> cypher_error + unit" where
  "check_props chk props scope = (case props of Some e \<Rightarrow> chk e scope | None \<Rightarrow> Inr ())"

definition already_bound :: "string \<Rightarrow> cypher_error + 'a" where
  "already_bound v = verr ''VariableAlreadyBound'' (backquoted v @ '' is already bound'')"

definition bind_node :: "prop_check \<Rightarrow> binding \<Rightarrow> vscope \<Rightarrow> bool \<Rightarrow> node_pattern \<Rightarrow> vscope \<Rightarrow> cypher_error + vscope" where
  "bind_node chk mode before standalone np scope =
     rbind (check_props chk (np_props np) scope) (\<lambda>_.
       case np_var np of
         None \<Rightarrow> Inr scope
       | Some v \<Rightarrow>
           if mode \<noteq> BindMatch \<and> bt_get before v \<noteq> None \<and> (standalone \<or> np_labels np \<noteq> [] \<or> np_props np \<noteq> None) then already_bound v
           else if bt_get before v = Some KindRel \<or> bt_get before v = Some KindPath \<or> bt_get before v = Some KindRelList
           then verr ''VariableTypeConflict'' (backquoted v @ '' is not a node'')
           else bind_var v KindNode scope)"

fun created_rel :: "binding \<Rightarrow> rel_pattern \<Rightarrow> cypher_error + unit" where
  "created_rel mode (RelPattern _ types _ dir len) =
     (if mode = BindMatch then Inr ()
      else if length types \<noteq> 1 then verr ''NoSingleRelationshipType'' ''a created relationship needs exactly one type''
      else if mode = BindCreate \<and> dir = DirBoth then verr ''RequiresDirectedRelationship'' ''a created relationship needs a direction''
      else if len \<noteq> None then verr ''CreatingVarLength'' ''variable-length relationships cannot be created''
      else Inr ())"

fun rel_kind :: "rel_pattern \<Rightarrow> var_kind" where
  "rel_kind (RelPattern _ _ _ _ len) = (if len \<noteq> None then KindRelList else KindRel)"

definition bind_rel :: "prop_check \<Rightarrow> binding \<Rightarrow> vscope \<Rightarrow> rel_pattern \<Rightarrow> vscope \<Rightarrow> cypher_error + vscope" where
  "bind_rel chk mode before r scope =
     rbind (check_props chk (rp_props r) scope) (\<lambda>_.
     rbind (created_rel mode r) (\<lambda>_.
       case rp_var r of
         None \<Rightarrow> Inr scope
       | Some v \<Rightarrow>
           if mode \<noteq> BindMatch \<and> bt_get before v \<noteq> None then already_bound v
           else if bt_get before v = Some KindNode \<or> bt_get before v = Some KindPath
           then verr ''VariableTypeConflict'' (backquoted v @ '' is not a relationship'')
           else bind_var v (rel_kind r) scope))"

definition bind_pattern :: "prop_check \<Rightarrow> binding \<Rightarrow> pattern_part \<Rightarrow> vscope \<Rightarrow> cypher_error + vscope" where
  "bind_pattern chk mode p scope =
     (let el = part_element p in
      rbind (try_fold (bind_node chk mode scope (element_rels el = [])) (element_nodes el) scope) (\<lambda>scope1.
      rbind (try_fold (bind_rel chk mode scope) (element_rels el) scope1) (\<lambda>scope2.
        case part_var p of
          None \<Rightarrow> Inr scope2
        | Some v \<Rightarrow> if bt_get scope v \<noteq> None then already_bound v else Inr (bt_insert v KindPath scope2))))"

text \<open>A pattern used as a predicate cannot introduce variables.\<close>

fun element_vars :: "pattern_element \<Rightarrow> string option list" where
  "element_vars (PatternElement start chain) = np_var start # concat (map (\<lambda>(r, n). [rp_var r, np_var n]) chain)"

definition pattern_refs :: "prop_check \<Rightarrow> pattern_element \<Rightarrow> vscope \<Rightarrow> cypher_error + unit" where
  "pattern_refs chk el scope =
     rbind (check_all (\<lambda>v. case v of Some v \<Rightarrow> rbind (defined_var v scope) (\<lambda>_. Inr ()) | None \<Rightarrow> Inr ()) (element_vars el)) (\<lambda>_.
       check_all (\<lambda>n. check_props chk (np_props n) scope) (element_nodes el))"

text \<open>The property maps a pattern holds, for the recursion.\<close>

definition element_exprs :: "pattern_element \<Rightarrow> cexpr set" where
  "element_exprs el = {e. \<exists>n \<in> set (element_nodes el). np_props n = Some e} \<union> {e. \<exists>r \<in> set (element_rels el). rp_props r = Some e}"

lemma check_props_cong: "(\<And>e. props = Some e \<Longrightarrow> chk e scope = chk' e scope) \<Longrightarrow> check_props chk props scope = check_props chk' props scope"
  by (auto simp: check_props_def split: option.splits)

lemma bind_pattern_cong [fundef_cong]:
  assumes "mode = mode'" "p = p'" "scope = scope'" "\<And>e s. e \<in> element_exprs (part_element p') \<Longrightarrow> chk e s = chk' e s"
  shows "bind_pattern chk mode p scope = bind_pattern chk' mode' p' scope'"
proof -
  have n: "bind_node chk m b st n s = bind_node chk' m b st n s" if "n \<in> set (element_nodes (part_element p'))" for m b st n s
  proof -
    have "check_props chk (np_props n) s = check_props chk' (np_props n) s"
      using that by (intro check_props_cong assms(4)) (auto simp: element_exprs_def)
    then show ?thesis by (simp only: bind_node_def)
  qed
  have r: "bind_rel chk m b n s = bind_rel chk' m b n s" if "n \<in> set (element_rels (part_element p'))" for m b n s
  proof -
    have "check_props chk (rp_props n) s = check_props chk' (rp_props n) s"
      using that by (intro check_props_cong assms(4)) (auto simp: element_exprs_def)
    then show ?thesis by (simp only: bind_rel_def)
  qed
  have "try_fold (bind_node chk m b st) (element_nodes (part_element p')) s = try_fold (bind_node chk' m b st) (element_nodes (part_element p')) s" for m b st s
    by (rule try_fold_cong) (simp_all add: n)
  moreover have "try_fold (bind_rel chk m b) (element_rels (part_element p')) s = try_fold (bind_rel chk' m b) (element_rels (part_element p')) s" for m b s
    by (rule try_fold_cong) (simp_all add: r)
  ultimately show ?thesis unfolding bind_pattern_def assms(1-3) by (simp add: Let_def)
qed

lemma pattern_refs_cong [fundef_cong]:
  assumes "el = el'" "scope = scope'" "\<And>e s. e \<in> element_exprs el' \<Longrightarrow> chk e s = chk' e s"
  shows "pattern_refs chk el scope = pattern_refs chk' el' scope'"
proof -
  have "check_props chk (np_props n) s = check_props chk' (np_props n) s" if "n \<in> set (element_nodes el')" for n s
    using assms(3) that by (intro check_props_cong) (auto simp: element_exprs_def)
  then have "check_all (\<lambda>n. check_props chk (np_props n) s) (element_nodes el') = check_all (\<lambda>n. check_props chk' (np_props n) s) (element_nodes el')" for s
    by (intro check_all_cong) simp_all
  then show ?thesis unfolding pattern_refs_def assms(1,2) by simp
qed

lemma element_exprs_size: "e \<in> element_exprs el \<Longrightarrow> size e < size el"
proof -
  assume e: "e \<in> element_exprs el"
  obtain start chain where el: "el = PatternElement start chain" by (cases el) auto
  have n: "np_props n = Some e \<Longrightarrow> size e < size n" for n by (cases n) auto
  have r: "rp_props r = Some e \<Longrightarrow> size e < size r" for r by (cases r) auto
  have c: "size r + size n < size_list (size_prod size size) chain" if "(r, n) \<in> set chain" for r n
    using that by (induction chain) auto
  show ?thesis using e n r c unfolding el element_exprs_def by fastforce
qed


section \<open>Expressions\<close>

definition literal_non_bool :: "cexpr \<Rightarrow> bool" where
  "literal_non_bool e \<longleftrightarrow> (case e of XInt _ \<Rightarrow> True | XFloat _ \<Rightarrow> True | XStr _ \<Rightarrow> True | XList _ \<Rightarrow> True | XMap _ \<Rightarrow> True | _ \<Rightarrow> False)"

definition value_ctx :: "check_ctx \<Rightarrow> check_ctx" where
  "value_ctx ctx = (if ctx = CtxAggregate then CtxAggregate else CtxValue)"

definition bool_ctx :: "bool \<Rightarrow> check_ctx \<Rightarrow> check_ctx" where
  "bool_ctx boolean ctx = (if boolean \<and> ctx = CtxPredicate then CtxPredicate else value_ctx ctx)"

definition is_boolean :: "binop \<Rightarrow> bool" where
  "is_boolean op \<longleftrightarrow> op = OpAnd \<or> op = OpOr \<or> op = OpXor"

text \<open>The first argument of a function that cannot be of the kind of its variable.\<close>

definition wrong_argument :: "string \<Rightarrow> cexpr \<Rightarrow> vscope \<Rightarrow> bool" where
  "wrong_argument name a scope \<longleftrightarrow>
     (let k = (case a of XVar v \<Rightarrow> bt_get scope v | _ \<Rightarrow> None) in
      if name \<in> {''type'', ''startnode'', ''endnode''} then k = Some KindNode \<or> k = Some KindPath
      else if name = ''labels'' then k = Some KindRel \<or> k = Some KindPath
      else if name = ''length'' then k = Some KindNode \<or> k = Some KindRel
      else if name \<in> {''nodes'', ''relationships''} then k = Some KindNode \<or> k = Some KindRel
      else if name = ''size'' then k = Some KindPath \<or> (case a of XPattern _ \<Rightarrow> True | _ \<Rightarrow> False)
      else False)"

definition calls_rand :: "cexpr \<Rightarrow> bool" where
  "calls_rand e \<longleftrightarrow> (case e of XFunc name _ _ \<Rightarrow> name = ''rand'' | _ \<Rightarrow> False)"

definition check_option :: "('a \<Rightarrow> 'e + unit) \<Rightarrow> 'a option \<Rightarrow> 'e + unit" where
  "check_option f m = (case m of Some a \<Rightarrow> f a | None \<Rightarrow> Inr ())"

lemma check_option_cong [fundef_cong]: "m = m' \<Longrightarrow> (\<And>a. m' = Some a \<Longrightarrow> f a = g a) \<Longrightarrow> check_option f m = check_option g m'"
  by (auto simp: check_option_def split: option.splits)

text \<open>The parts of a pattern and the branches of a \<^verbatim>\<open>CASE\<close> are smaller than the expression.\<close>

lemma part_element_size: "size (part_element p) < size p"
  by (cases p) auto

lemma when_size: "(a, b) \<in> set ws \<Longrightarrow> size a + size b \<le> size_list (size_prod size size) ws"
  by (induction ws) auto

lemma parts_size: "p \<in> set ps \<Longrightarrow> size (part_element p) < size_list size ps"
proof (induction ps)
  case (Cons q ps)
  then show ?case using part_element_size [of q] by auto
qed simp

function expr_check :: "check_ctx \<Rightarrow> cexpr \<Rightarrow> vscope \<Rightarrow> cypher_error + unit" where
  "expr_check ctx XNull scope = Inr ()"
| "expr_check ctx (XBool _) scope = Inr ()"
| "expr_check ctx (XInt _) scope = Inr ()"
| "expr_check ctx (XFloat _) scope = Inr ()"
| "expr_check ctx (XStr _) scope = Inr ()"
| "expr_check ctx (XParam _) scope = Inr ()"
| "expr_check ctx (XVar v) scope = rbind (defined_var v scope) (\<lambda>_. Inr ())"
| "expr_check ctx (XProp e _) scope = expr_check (value_ctx ctx) e scope"
| "expr_check ctx (XList items) scope = check_all (\<lambda>e. expr_check (value_ctx ctx) e scope) items"
| "expr_check ctx (XMap items) scope = check_all (\<lambda>e. expr_check (value_ctx ctx) (snd e) scope) items"
| "expr_check ctx (XUnary op e) scope =
     (if op = OpNot \<and> literal_non_bool e then verr ''InvalidArgumentType'' ''NOT expects a boolean''
      else expr_check (bool_ctx (op = OpNot) ctx) e scope)"
| "expr_check ctx (XIsNull e _) scope = expr_check (value_ctx ctx) e scope"
| "expr_check ctx (XHasLabels e _) scope = expr_check (value_ctx ctx) e scope"
| "expr_check ctx (XBinary op a b) scope =
     (if is_boolean op \<and> (literal_non_bool a \<or> literal_non_bool b) then verr ''InvalidArgumentType'' ''boolean operators expect booleans''
      else rbind (expr_check (bool_ctx (is_boolean op) ctx) a scope) (\<lambda>_. expr_check (bool_ctx (is_boolean op) ctx) b scope))"
| "expr_check ctx (XFunc name _ args) scope =
     (if is_aggregate name
      then if ctx = CtxAggregate then verr ''NestedAggregation'' ''aggregates cannot be nested''
           else if name = ''count'' \<and> list_ex calls_rand args then verr ''NonConstantExpression'' ''rand() inside an aggregate''
           else check_all (\<lambda>a. expr_check CtxAggregate a scope) args
      else rbind (check_all (\<lambda>a. expr_check (value_ctx ctx) a scope) args) (\<lambda>_.
             case args of
               [] \<Rightarrow> Inr ()
             | a # _ \<Rightarrow> if wrong_argument name a scope then verr ''InvalidArgumentType'' (''wrong argument type for '' @ name @ ''()'') else Inr ()))"
| "expr_check ctx XCountStar scope =
     (if ctx = CtxAggregate then verr ''NestedAggregation'' ''aggregates cannot be nested'' else Inr ())"
| "expr_check ctx (XCase operand whens dflt) scope =
     rbind (check_option (\<lambda>e. expr_check (value_ctx ctx) e scope) operand) (\<lambda>_.
     rbind (check_all (\<lambda>w. rbind (expr_check (value_ctx ctx) (fst w) scope) (\<lambda>_. expr_check (value_ctx ctx) (snd w) scope)) whens) (\<lambda>_.
       check_option (\<lambda>e. expr_check (value_ctx ctx) e scope) dflt))"
| "expr_check ctx (XListComp var l flt mp) scope =
     rbind (expr_check (value_ctx ctx) l scope) (\<lambda>_.
     rbind (check_option (\<lambda>e. expr_check CtxPredicate e (bt_insert var KindAny scope)) flt) (\<lambda>_.
       check_option (\<lambda>e. expr_check (value_ctx ctx) e (bt_insert var KindAny scope)) mp))"
| "expr_check ctx (XQuantified _ var l p) scope =
     rbind (expr_check (value_ctx ctx) l scope) (\<lambda>_. expr_check CtxPredicate p (bt_insert var KindAny scope))"
| "expr_check ctx (XReduce acc init var l body) scope =
     rbind (expr_check (value_ctx ctx) init scope) (\<lambda>_.
     rbind (expr_check (value_ctx ctx) l scope) (\<lambda>_.
       expr_check (value_ctx ctx) body (bt_insert var KindAny (bt_insert acc KindAny scope))))"
| "expr_check ctx (XIndex a b) scope = rbind (expr_check (value_ctx ctx) a scope) (\<lambda>_. expr_check (value_ctx ctx) b scope)"
| "expr_check ctx (XSlice a b c) scope =
     rbind (expr_check (value_ctx ctx) a scope) (\<lambda>_.
     rbind (check_option (\<lambda>e. expr_check (value_ctx ctx) e scope) b) (\<lambda>_.
       check_option (\<lambda>e. expr_check (value_ctx ctx) e scope) c))"
| "expr_check ctx (XPattern el) scope =
     (if ctx \<noteq> CtxPredicate then verr ''UnexpectedSyntax'' ''a pattern expression is only allowed as a predicate''
      else pattern_refs (\<lambda>e s. expr_check CtxValue e s) el scope)"
| "expr_check ctx (XExists parts wh) scope =
     rbind (try_fold (\<lambda>p s. bind_pattern (\<lambda>e s. expr_check CtxValue e s) BindMatch p s) parts scope) (\<lambda>inner.
       check_option (\<lambda>e. expr_check CtxPredicate e inner) wh)"
| "expr_check ctx (XPatternComp var el flt mp) scope =
     rbind (bind_pattern (\<lambda>e s. expr_check CtxValue e s) BindMatch (PatternPart var None el) scope) (\<lambda>inner.
     rbind (check_option (\<lambda>e. expr_check CtxPredicate e inner) flt) (\<lambda>_.
       expr_check (value_ctx ctx) mp inner))"
| "expr_check ctx (XMapProjection var items) scope =
     rbind (defined_var var scope) (\<lambda>_.
       check_all (\<lambda>it. case it of
           MiVar v \<Rightarrow> rbind (defined_var v scope) (\<lambda>_. Inr ())
         | MiEntry _ e \<Rightarrow> expr_check (value_ctx ctx) e scope
         | _ \<Rightarrow> Inr ()) items)"
  by pat_completeness auto

termination
proof (relation "measure (\<lambda>(_, e, _). size e)")
qed (auto dest!: element_exprs_size simp: less_Suc_eq_le elim: size_list_estimation' dest: when_size parts_size)

section \<open>Projections\<close>

definition constant_count :: "string \<Rightarrow> cexpr \<Rightarrow> cypher_error + unit" where
  "constant_count what e =
     (if list_ex (\<lambda>x. case x of XVar _ \<Rightarrow> True | XFunc name _ _ \<Rightarrow> name = ''rand'' | _ \<Rightarrow> False) (walk e)
      then verr ''NonConstantExpression'' (what @ '' must be constant'')
      else case e of
             XInt i \<Rightarrow> if i < 0 then verr ''NegativeIntegerArgument'' (what @ '' must not be negative'') else Inr ()
           | XFloat _ \<Rightarrow> verr ''InvalidArgumentType'' (what @ '' must be an integer'')
           | _ \<Rightarrow> Inr ())"

text \<open>Sub-expressions equal to a projected expression become null: \<^verbatim>\<open>ORDER BY\<close> may repeat them.\<close>

fun replace_projected :: "cexpr list \<Rightarrow> cexpr \<Rightarrow> cexpr" where
  "replace_projected ps (XBinary op a b) =
     (if XBinary op a b \<in> set ps then XNull else XBinary op (replace_projected ps a) (replace_projected ps b))"
| "replace_projected ps (XUnary op a) = (if XUnary op a \<in> set ps then XNull else XUnary op (replace_projected ps a))"
| "replace_projected ps (XFunc name d args) =
     (if XFunc name d args \<in> set ps then XNull
      else if is_aggregate name then XFunc name d args
      else XFunc name d (map (replace_projected ps) args))"
| "replace_projected ps e = (if e \<in> set ps then XNull else e)"

text \<open>The expressions visited outside aggregate calls and outside grouping keys.\<close>

fun outside_aggregates :: "cexpr list \<Rightarrow> cexpr \<Rightarrow> cexpr list" where
  "outside_aggregates keys (XFunc name d args) =
     (if XFunc name d args \<in> set keys \<or> is_aggregate name then []
      else XFunc name d args # concat (map (outside_aggregates keys) args))"
| "outside_aggregates keys XCountStar = []"
| "outside_aggregates keys (XListComp v l f m) = []"
| "outside_aggregates keys (XQuantified q v l p) = []"
| "outside_aggregates keys (XReduce a i v l e) = []"
| "outside_aggregates keys (XBinary op a b) =
     (if XBinary op a b \<in> set keys then [] else XBinary op a b # outside_aggregates keys a @ outside_aggregates keys b)"
| "outside_aggregates keys (XIndex a b) =
     (if XIndex a b \<in> set keys then [] else XIndex a b # outside_aggregates keys a @ outside_aggregates keys b)"
| "outside_aggregates keys (XUnary op a) = (if XUnary op a \<in> set keys then [] else XUnary op a # outside_aggregates keys a)"
| "outside_aggregates keys (XProp a k) = (if XProp a k \<in> set keys then [] else XProp a k # outside_aggregates keys a)"
| "outside_aggregates keys (XIsNull a n) = (if XIsNull a n \<in> set keys then [] else XIsNull a n # outside_aggregates keys a)"
| "outside_aggregates keys (XList items) =
     (if XList items \<in> set keys then [] else XList items # concat (map (outside_aggregates keys) items))"
| "outside_aggregates keys (XCase operand whens dflt) =
     (if XCase operand whens dflt \<in> set keys then []
      else XCase operand whens dflt # (case operand of Some e \<Rightarrow> outside_aggregates keys e | None \<Rightarrow> [])
        @ concat (map (\<lambda>w. outside_aggregates keys (fst w) @ outside_aggregates keys (snd w)) whens)
        @ (case dflt of Some e \<Rightarrow> outside_aggregates keys e | None \<Rightarrow> []))"
| "outside_aggregates keys e = (if e \<in> set keys then [] else [e])"

definition check_item :: "projection \<Rightarrow> vscope \<Rightarrow> bool \<Rightarrow> projection_item \<Rightarrow> vscope \<Rightarrow> cypher_error + vscope" where
  "check_item p scope is_with it out =
     rbind (expr_check CtxValue (pi_expr it) scope) (\<lambda>_.
       if is_with \<and> pi_alias it = None \<and> (case pi_expr it of XVar _ \<Rightarrow> False | _ \<Rightarrow> True)
       then verr ''NoExpressionAlias'' ''expressions in WITH need an alias''
       else if 1 < length (filter (\<lambda>x. item_name x = item_name it) (pj_items p))
       then verr ''ColumnNameConflict'' (''column '' @ backquoted (item_name it) @ '' is projected twice'')
       else Inr (bt_insert (item_name it)
              (case pi_expr it of XVar v \<Rightarrow> (case bt_get scope v of Some k \<Rightarrow> k | None \<Rightarrow> KindAny) | _ \<Rightarrow> KindAny) out))"

text \<open>Outside aggregate calls an aggregating item may only read grouping variables.\<close>

definition check_grouping :: "projection \<Rightarrow> cypher_error + unit" where
  "check_grouping p =
     (let keys = filter (\<lambda>e. \<not> has_aggregate e) (map pi_expr (pj_items p));
          ambiguous = (\<lambda>e. list_ex (\<lambda>x. case x of XVar v \<Rightarrow> XVar v \<notin> set keys | _ \<Rightarrow> False) (outside_aggregates keys e))
      in check_all (\<lambda>it. if has_aggregate (pi_expr it) \<and> ambiguous (pi_expr it)
           then verr ''AmbiguousAggregationExpression'' ''an aggregating expression reads a variable that is not a grouping key''
           else Inr ()) (pj_items p))"

definition check_order :: "projection \<Rightarrow> bool \<Rightarrow> vscope \<Rightarrow> vscope \<Rightarrow> cexpr \<Rightarrow> cypher_error + unit" where
  "check_order p aggregating out combined e =
     (let s = (if (aggregating \<or> pj_distinct p) \<and> \<not> has_aggregate e then out else combined);
          reduced = replace_projected (map pi_expr (pj_items p)) e
      in case expr_check CtxValue reduced s of
           Inl _ \<Rightarrow> expr_check CtxValue reduced combined
         | Inr _ \<Rightarrow> Inr ())"

definition check_projection :: "projection \<Rightarrow> vscope \<Rightarrow> bool \<Rightarrow> cypher_error + vscope" where
  "check_projection p scope is_with =
     (let out0 = (if pj_star p then fold (\<lambda>(k, v). bt_insert k v) scope [] else []);
          aggregating = list_ex (\<lambda>it. has_aggregate (pi_expr it)) (pj_items p)
      in rbind (try_fold (check_item p scope is_with) (pj_items p) out0) (\<lambda>out.
         rbind (if aggregating then check_grouping p else Inr ()) (\<lambda>_.
         let combined = fold (\<lambda>(k, v). bt_insert k v) out scope
         in rbind (check_all (\<lambda>(e, _). check_order p aggregating out combined e) (pj_order p)) (\<lambda>_.
            rbind (check_option (constant_count ''SKIP'') (pj_skip p)) (\<lambda>_.
            rbind (check_option (constant_count ''LIMIT'') (pj_limit p)) (\<lambda>_.
            rbind (check_option (\<lambda>w. expr_check CtxPredicate w (if aggregating then out else combined)) (pj_where p)) (\<lambda>_.
              Inr out)))))))"

section \<open>Clauses and queries\<close>

definition bind_parts :: "binding \<Rightarrow> pattern_part list \<Rightarrow> vscope \<Rightarrow> cypher_error + vscope" where
  "bind_parts mode = try_fold (bind_pattern (expr_check CtxValue) mode)"

definition check_predicate :: "cexpr option \<Rightarrow> vscope \<Rightarrow> cypher_error + unit" where
  "check_predicate wh scope = check_option (\<lambda>w. expr_check CtxPredicate w scope) wh"

fun check_set_item :: "vscope \<Rightarrow> set_item \<Rightarrow> cypher_error + unit" where
  "check_set_item scope (SetProperty var _ e) = rbind (defined_var var scope) (\<lambda>_. expr_check CtxValue e scope)"
| "check_set_item scope (SetReplace var e) = rbind (defined_var var scope) (\<lambda>_. expr_check CtxValue e scope)"
| "check_set_item scope (SetMerge var e) = rbind (defined_var var scope) (\<lambda>_. expr_check CtxValue e scope)"
| "check_set_item scope (SetLabels var _) = rbind (defined_var var scope) (\<lambda>_. Inr ())"

fun remove_var :: "remove_item \<Rightarrow> string" where
  "remove_var (RemoveProperty var _) = var"
| "remove_var (RemoveLabels var _) = var"

definition not_deletable :: "cexpr \<Rightarrow> bool" where
  "not_deletable e \<longleftrightarrow>
     (case e of XInt _ \<Rightarrow> True | XFloat _ \<Rightarrow> True | XStr _ \<Rightarrow> True | XBool _ \<Rightarrow> True | XBinary _ _ _ \<Rightarrow> True
      | XList _ \<Rightarrow> True | XMap _ \<Rightarrow> True | _ \<Rightarrow> False)"

fun check_clause :: "bool \<Rightarrow> clause \<Rightarrow> vscope \<Rightarrow> cypher_error + vscope" where
  "check_clause is_final (CMatch _ ps wh) scope =
     rbind (bind_parts BindMatch ps scope) (\<lambda>scope'. rbind (check_predicate wh scope') (\<lambda>_. Inr scope'))"
| "check_clause is_final (CUnwind e alias) scope =
     rbind (expr_check CtxValue e scope) (\<lambda>_.
       if bt_get scope alias \<noteq> None then already_bound alias else Inr (bt_insert alias KindAny scope))"
| "check_clause is_final (CWith p) scope = check_projection p scope True"
| "check_clause is_final (CReturn p) scope =
     rbind (check_projection p scope False) (\<lambda>scope'.
       if \<not> is_final then verr ''InvalidClauseComposition'' ''RETURN must be the last clause'' else Inr scope')"
| "check_clause is_final (CCreate ps) scope = bind_parts BindCreate ps scope"
| "check_clause is_final (CMerge p on_create on_match) scope =
     rbind (bind_pattern (expr_check CtxValue) BindMerge p scope) (\<lambda>scope'.
     rbind (check_all (check_set_item scope') (on_create @ on_match)) (\<lambda>_. Inr scope'))"
| "check_clause is_final (CSet items) scope = rbind (check_all (check_set_item scope) items) (\<lambda>_. Inr scope)"
| "check_clause is_final (CRemove items) scope =
     rbind (check_all (\<lambda>it. rbind (defined_var (remove_var it) scope) (\<lambda>_. Inr ())) items) (\<lambda>_. Inr scope)"
| "check_clause is_final (CDelete _ es) scope =
     rbind (check_all (\<lambda>e. if not_deletable e then verr ''InvalidArgumentType'' ''DELETE expects a node, relationship or path''
                          else expr_check CtxValue e scope) es) (\<lambda>_. Inr scope)"
| "check_clause is_final (CCall _ args yields wh) scope =
     rbind (check_all (\<lambda>a. expr_check CtxValue a scope) args) (\<lambda>_.
       let scope' = (case yields of
                       None \<Rightarrow> scope
                     | Some items \<Rightarrow> fold (\<lambda>(col, alias). bt_insert (case alias of Some a \<Rightarrow> a | None \<Rightarrow> col) KindAny) items scope)
       in rbind (check_predicate wh scope') (\<lambda>_. Inr scope'))"

definition check_composition :: "clause option \<Rightarrow> clause \<Rightarrow> cypher_error + unit" where
  "check_composition prev c =
     (case (prev, c) of
        (Some w, CMatch _ _ _) \<Rightarrow>
          if is_write w then verr ''InvalidClauseComposition'' ''a reading clause after a write needs WITH in between'' else Inr ()
      | _ \<Rightarrow> Inr ())"

fun check_clauses :: "clause option \<Rightarrow> clause list \<Rightarrow> vscope \<Rightarrow> cypher_error + unit" where
  "check_clauses prev [] scope = Inr ()"
| "check_clauses prev (c # cs) scope =
     rbind (check_clause (cs = []) c scope) (\<lambda>scope'.
     rbind (check_composition prev c) (\<lambda>_. check_clauses (Some c) cs scope'))"

definition check_single :: "single_query \<Rightarrow> cypher_error + unit" where
  "check_single sq = check_clauses None (sq_clauses sq) []"

definition validate :: "cy_query \<Rightarrow> cypher_error + unit" where
  "validate q =
     (if True \<in> set (cq_union_all q) \<and> False \<in> set (cq_union_all q)
      then verr ''InvalidClauseComposition'' ''UNION and UNION ALL cannot be mixed''
      else check_all check_single (cq_parts q))"

end
