(* ===== verification/Cypher_Scope_Laws.thy ===== *)
theory Cypher_Scope_Laws
  imports Cypher_Validate Cypher_Query_Laws
begin

text \<open>
  What the scope checks guarantee of the execution: an expression that passes them is evaluated from the variables in
  scope alone, and a projection that passes them produces rows that bind every variable of the scope it
  leaves.
\<close>

section \<open>Rows that agree on a scope\<close>

definition agree :: "vscope \<Rightarrow> row \<Rightarrow> row \<Rightarrow> bool" where
  "agree scope r1 r2 \<longleftrightarrow>
     bt_invar scope \<and> bt_invar r1 \<and> bt_invar r2 \<and> (\<forall>v. bt_get scope v \<noteq> None \<longrightarrow> bt_get r1 v = bt_get r2 v)"

lemma agree_insert: "agree scope r1 r2 \<Longrightarrow> agree (bt_insert v k scope) (bt_insert v w r1) (bt_insert v w r2)"
  unfolding agree_def by (auto simp: bt_insert_invar bt_insert_get)

lemma agree_var: "agree scope r1 r2 \<Longrightarrow> defined_var v scope = Inr k \<Longrightarrow> row_var r1 v = row_var r2 v"
  unfolding agree_def defined_var_def row_var_def by (auto simp: verr_def semantic_def split: option.splits)

lemma check_option_ok: "check_option f m = Inr () \<longleftrightarrow> (\<forall>a. m = Some a \<longrightarrow> f a = Inr ())"
  by (cases m) (auto simp: check_option_def)

lemma comp_ev_cong: "(\<And>v. keep v = keep' v) \<Longrightarrow> (\<And>v. out v = out' v) \<Longrightarrow> comp_ev keep out vs = comp_ev keep' out' vs"
  by (metis ext)

lemma list_size: "e \<in> set es \<Longrightarrow> size e < Suc (size_list size es)"
  by (induction es) auto

lemma entry_size: "kv \<in> set es \<Longrightarrow> size (snd kv) < Suc (size_list (size_prod (\<lambda>_. 0) size) es)"
  by (induction es) auto

lemma item_size: "MiEntry k e \<in> set es \<Longrightarrow> size e < Suc (size_list size es)"
  by (induction es) auto

lemma eval_agree:
  "expr_check ctx e scope = Inr () \<Longrightarrow> agree scope r1 r2 \<Longrightarrow> eval x ps r1 e = eval x ps r2 e"
proof (induction e arbitrary: ctx scope r1 r2 rule: measure_induct_rule [of size])
  case (less e)
  note IH = less.IH and ok = less.prems(1) and ag = less.prems(2)
  show ?case
  proof (cases e)
    case (XVar v)
    then show ?thesis using ok agree_var [OF ag] by (auto simp: rbind_Inr_iff)
  next
    case (XList es)
    have "eval x ps r1 a = eval x ps r2 a" if "a \<in> set es" for a
      using IH [of a] ok ag that XList list_size [OF that] by (auto simp: check_all_ok)
    then show ?thesis unfolding XList by (simp cong: emap_cong)
  next
    case (XMap es)
    have "eval x ps r1 (snd a) = eval x ps r2 (snd a)" if "a \<in> set es" for a
      using IH [of "snd a"] ok ag that XMap entry_size [OF that] by (auto simp: check_all_ok)
    then show ?thesis unfolding XMap by (simp cong: emap_cong)
  next
    case (XProp a k)
    then show ?thesis using IH [of a] ok ag by auto
  next
    case (XUnary op a)
    then show ?thesis using IH [of a] ok ag by (auto simp: verr_def semantic_def split: if_splits)
  next
    case (XBinary op a b)
    then show ?thesis using IH [of a] IH [of b] ok ag by (auto simp: verr_def semantic_def rbind_Inr_iff split: if_splits)
  next
    case (XIsNull a k)
    then show ?thesis using IH [of a] ok ag by auto
  next
    case (XHasLabels a k)
    then show ?thesis using IH [of a] ok ag by auto
  next
    case (XFunc name d args)
    show ?thesis
    proof (cases "is_aggregate name")
      case False
      have "eval x ps r1 a = eval x ps r2 a" if "a \<in> set args" for a
        using IH [of a] ok ag that XFunc list_size [OF that] False by (auto simp: check_all_ok rbind_Inr_iff)
      then show ?thesis unfolding XFunc by (simp cong: emap_cong)
    qed (simp add: XFunc)
  next
    case (XCase operand whens dflt)
    have o: "eval x ps r1 a = eval x ps r2 a" if "operand = Some a" for a
      using IH [of a] ok ag that XCase by (auto simp: check_option_ok rbind_Inr_iff)
    have d: "eval x ps r1 a = eval x ps r2 a" if "dflt = Some a" for a
      using IH [of a] ok ag that XCase by (auto simp: check_option_ok rbind_Inr_iff)
    have w: "eval x ps r1 (fst w) = eval x ps r2 (fst w) \<and> eval x ps r1 (snd w) = eval x ps r2 (snd w)" if "w \<in> set whens" for w
      using IH [of "fst w"] IH [of "snd w"] ok ag that XCase when_size [of "fst w" "snd w" whens]
      by (auto simp: check_all_ok rbind_Inr_iff)
    have m: "map (\<lambda>w. (eval x ps r1 (fst w), eval x ps r1 (snd w))) whens = map (\<lambda>w. (eval x ps r2 (fst w), eval x ps r2 (snd w))) whens"
      using w by simp
    show ?thesis unfolding XCase eval.simps Let_def m using o d by (cases operand; cases dflt) simp_all
  next
    case (XListComp v l flt mp)
    have "eval x ps r1 l = eval x ps r2 l" using IH [of l] ok ag XListComp by (auto simp: rbind_Inr_iff)
    moreover have "eval x ps (bt_insert v w r1) f = eval x ps (bt_insert v w r2) f" if "flt = Some f" for f w
      using IH [of f CtxPredicate] ok agree_insert [OF ag] that XListComp by (auto simp: rbind_Inr_iff check_option_ok)
    moreover have "eval x ps (bt_insert v w r1) f = eval x ps (bt_insert v w r2) f" if "mp = Some f" for f w
      using IH [of f "value_ctx ctx"] ok agree_insert [OF ag] that XListComp by (auto simp: rbind_Inr_iff check_option_ok)
    ultimately show ?thesis unfolding XListComp by (cases flt; cases mp) simp_all
  next
    case (XQuantified q v l p)
    have "eval x ps r1 l = eval x ps r2 l" using IH [of l] ok ag XQuantified by (auto simp: rbind_Inr_iff)
    moreover have "eval x ps (bt_insert v w r1) p = eval x ps (bt_insert v w r2) p" for w
      using IH [of p CtxPredicate] ok agree_insert [OF ag] XQuantified by (auto simp: rbind_Inr_iff)
    ultimately show ?thesis unfolding XQuantified by simp
  next
    case (XReduce acc init v l b)
    have "eval x ps r1 init = eval x ps r2 init" using IH [of init] ok ag XReduce by (auto simp: rbind_Inr_iff)
    moreover have "eval x ps r1 l = eval x ps r2 l" using IH [of l] ok ag XReduce by (auto simp: rbind_Inr_iff)
    moreover have "eval x ps (bt_insert v w (bt_insert acc u r1)) b = eval x ps (bt_insert v w (bt_insert acc u r2)) b" for w u
      using IH [of b "value_ctx ctx"] ok agree_insert [OF agree_insert [OF ag]] XReduce by (auto simp: rbind_Inr_iff)
    ultimately show ?thesis unfolding XReduce by simp
  next
    case (XIndex a b)
    then show ?thesis using IH [of a] IH [of b] ok ag by (auto simp: rbind_Inr_iff)
  next
    case (XSlice a b c)
    have "eval x ps r1 a = eval x ps r2 a" using IH [of a] ok ag XSlice by (auto simp: rbind_Inr_iff)
    moreover have "eval x ps r1 f = eval x ps r2 f" if "b = Some f" for f
      using IH [of f] ok ag that XSlice by (auto simp: rbind_Inr_iff check_option_ok)
    moreover have "eval x ps r1 f = eval x ps r2 f" if "c = Some f" for f
      using IH [of f] ok ag that XSlice by (auto simp: rbind_Inr_iff check_option_ok)
    ultimately show ?thesis unfolding XSlice by (cases b; cases c) simp_all
  next
    case (XMapProjection v items)
    have v: "row_var r1 v = row_var r2 v" using ok ag XMapProjection agree_var by (auto simp: rbind_Inr_iff)
    have i: "(case it of
              MiAllProps \<Rightarrow> ret (fold (\<lambda>(k, v). bt_insert k v) props out)
            | MiProp k \<Rightarrow> ret (bt_insert k (or_default (bt_get props k) VNull) out)
            | MiVar v \<Rightarrow> ebind (lift (row_var r1 v)) (\<lambda>w. ret (bt_insert v w out))
            | MiEntry k e \<Rightarrow> ebind (eval x ps r1 e) (\<lambda>w. ret (bt_insert k w out)))
        = (case it of
              MiAllProps \<Rightarrow> ret (fold (\<lambda>(k, v). bt_insert k v) props out)
            | MiProp k \<Rightarrow> ret (bt_insert k (or_default (bt_get props k) VNull) out)
            | MiVar v \<Rightarrow> ebind (lift (row_var r2 v)) (\<lambda>w. ret (bt_insert v w out))
            | MiEntry k e \<Rightarrow> ebind (eval x ps r2 e) (\<lambda>w. ret (bt_insert k w out)))" if it: "it \<in> set items" for it props out
    proof (cases it)
      case (MiVar u)
      then have "\<exists>k. defined_var u scope = Inr k" using ok it XMapProjection by (fastforce simp: rbind_Inr_iff check_all_ok)
      then show ?thesis using agree_var [OF ag] MiVar by auto
    next
      case (MiEntry k a)
      then have "expr_check (value_ctx ctx) a scope = Inr ()" using ok it XMapProjection by (fastforce simp: rbind_Inr_iff check_all_ok)
      moreover have "size a < size e" using item_size it MiEntry XMapProjection by fastforce
      ultimately show ?thesis using IH ag MiEntry by auto
    qed simp_all
    show ?thesis unfolding XMapProjection eval.simps v by (simp only: fold_ev_cong [OF refl refl i])
  qed simp_all
qed


section \<open>Rows of a projection\<close>

text \<open>A row that binds exactly the given names.\<close>

definition binds :: "string set \<Rightarrow> row \<Rightarrow> bool" where
  "binds names r \<longleftrightarrow> bt_invar r \<and> dom (bt_get r) = names"

lemma binds_fold: "binds (set (map fst nvs)) (fold (\<lambda>(n, v). bt_insert n v) nvs [])"
  using btree.lookup_after_inserts [of "[]" nvs]
  by (auto simp: binds_def dom_map_of_conv_image_fst)

lemma emap_names:
  assumes "emap f items s = (Inr nvs, s')" "\<And>i u y u'. f i u = (Inr y, u') \<Longrightarrow> fst y = g i"
  shows "map fst nvs = map g items"
  using assms(1)
proof (induction items arbitrary: s nvs)
  case (Cons i items)
  then obtain y u ys where "f i s = (Inr y, u)" "emap f items u = (Inr ys, s')" "nvs = y # ys" by (auto simp: ebind_Inr ret_def)
  then show ?case using Cons.IH assms(2) by auto
qed (simp add: ret_def)

lemma project_row_binds:
  assumes "project_row x ps items r s = (Inr (r', env), s')"
  shows "binds (set (map fst items)) r'"
proof -
  obtain nvs u where n: "emap (\<lambda>(n, e). ebind (eval x ps r e) (\<lambda>v. ret (n, v))) items s = (Inr nvs, u)"
      and r: "r' = fold (\<lambda>(n, v). bt_insert n v) nvs []"
    using assms by (auto simp: project_row_def ebind_Inr Let_def ret_def)
  have "map fst nvs = map fst items"
    by (rule emap_names [OF n]) (auto simp: ebind_Inr ret_def)
  then show ?thesis using binds_fold [of nvs] r by simp
qed

lemma group_value_binds:
  assumes "group_value x ps items aggs g s = (Inr r, s')"
  shows "binds (set (map fst items)) r"
proof -
  obtain vs u where vs: "emap (\<lambda>(spec, a, _). ebind (lift (acc_finish a)) (\<lambda>v. ret (ag_placeholder spec, v))) (zip aggs (gr_accs g)) s = (Inr vs, u)"
      and k: "(let env = fold (\<lambda>(n, v). bt_insert n v) vs (gr_row g) in
       ebind (emap (\<lambda>(n, e, is_agg).
           ebind (if is_agg then eval x ps env e else ret (or_default (bt_get (gr_row g) n) VNull)) (\<lambda>v. ret (n, v))) items) (\<lambda>nvs.
         ret (fold (\<lambda>(n, v). bt_insert n v) nvs []))) u = (Inr r, s')"
    using assms unfolding group_value_def ebind_Inr by blast
  let ?env = "fold (\<lambda>(n, v). bt_insert n v) vs (gr_row g)"
  from k obtain nvs u' where n: "emap (\<lambda>(n, e, is_agg).
           ebind (if is_agg then eval x ps ?env e else ret (or_default (bt_get (gr_row g) n) VNull)) (\<lambda>v. ret (n, v))) items u = (Inr nvs, u')"
      and r: "r = fold (\<lambda>(n, v). bt_insert n v) nvs []"
    unfolding Let_def ebind_Inr by (auto simp: ret_def)
  have "map fst nvs = map fst items" by (rule emap_names [OF n]) (auto simp: ebind_Inr ret_def)
  then show ?thesis using binds_fold [of nvs] r by simp
qed

lemma thread_map: "(\<And>i t. g (fst (f i t)) = h i) \<Longrightarrow> map g (fst (thread f items t)) = map h items"
  by (induction items arbitrary: t) (simp_all add: case_prod_beta)

lemma rewrite_items_names: "map fst (fst (rewrite_items items)) = map fst items"
  unfolding rewrite_items_def by (rule thread_map) (auto split: prod.splits)

lemma aggregate_rows_binds:
  assumes "aggregate_rows x ps items rows s = (Inr out, s')" "(r, env) \<in> set out"
  shows "binds (set (map fst items)) r"
proof -
  obtain rewritten aggs where rw: "rewrite_items items = (rewritten, aggs)" by (cases "rewrite_items items") auto
  obtain groups u where "emap (\<lambda>g. ebind (group_value x ps rewritten aggs g) (\<lambda>row. ret (row, row))) groups u = (Inr out, s')"
    using assms(1) unfolding aggregate_rows_def rw prod.case ebind_Inr by blast
  from emap_elem [OF this assms(2)] obtain g u u' where "group_value x ps rewritten aggs g u = (Inr r, u')"
    by (auto simp: ebind_Inr ret_def)
  from group_value_binds [OF this] show ?thesis using rewrite_items_names [of items] rw by (metis fst_conv)
qed

lemma filter_ev_subset: "filter_ev f rs s = (Inr out, s') \<Longrightarrow> set out \<subseteq> set rs"
  by (induction rs arbitrary: s out) (fastforce simp: ebind_Inr ret_def split: if_splits)+

lemma retain_first_subset: "set (retain_first key seen rs) \<subseteq> set rs"
  by (induction key seen rs rule: retain_first.induct) auto

lemma order_rows_subset:
  assumes "order_rows x ps items order out s = (Inr out', s')"
  shows "fst ` set out' \<subseteq> fst ` set out"
proof -
  let ?f = "\<lambda>(r, env). ebind (emap (eval x ps env) (map (\<lambda>(e, _). replace_subexprs (map (\<lambda>(n, e). (e, XVar n)) items) e) order)) (\<lambda>k. ret (k, r))"
  obtain keyed u where k: "emap ?f out s = (Inr keyed, u)"
      and o: "set out' = (\<lambda>(_, r). (r, r)) ` set keyed"
    using assms unfolding order_rows_def Let_def by (auto simp: ebind_Inr ret_def)
  have "r \<in> fst ` set out" if "(kk, r) \<in> set keyed" for kk r
    using emap_elem [OF k that] by (auto simp: ebind_Inr ret_def intro: rev_image_eqI)
  then show ?thesis unfolding o by auto
qed

lemma project_binds:
  assumes "project x ps rows p s = (Inr (rows', names), s')"
  shows "names = map fst (projection_items rows p)" "\<forall>r \<in> set rows'. binds (set names) r"
proof -
  let ?items = "projection_items rows p"
  show names: "names = map fst ?items" using assms by (auto simp: project_def Let_def ebind_Inr ret_def)
  define early where "early = early_where p (map fst ?items) (list_ex (\<lambda>(_, e). has_aggregate e) ?items)"
  obtain out0 u0 out1 u1 out2 u2 skip u3 limit u4 where
      p0: "(if list_ex (\<lambda>(_, e). has_aggregate e) ?items then aggregate_rows x ps ?items rows else emap (project_row x ps ?items) rows) s = (Inr out0, u0)"
      and p1: "(case pj_where p of
                  Some w \<Rightarrow> if early then filter_ev (\<lambda>(_, env). eval_pred x ps env w) out0 else ret out0
                | None \<Rightarrow> ret out0) u0 = (Inr out1, u1)"
      and p2: "(let out = (if pj_distinct p then retain_first (\<lambda>(r, _). distinct_key (map fst ?items) r) [] out1 else out1)
                in if pj_order p = [] then ret out else order_rows x ps ?items (pj_order p) out) u1 = (Inr out2, u2)"
      and p3: "row_count x ps (pj_skip p) u2 = (Inr skip, u3)" "row_count x ps (pj_limit p) u3 = (Inr limit, u4)"
      and p4: "(let rows1 = drop (or_default skip 0) (map fst out2);
               rows2 = (case limit of Some l \<Rightarrow> take l rows1 | None \<Rightarrow> rows1)
           in ebind (case pj_where p of
                       Some w \<Rightarrow> if early then ret rows2 else filter_ev (\<lambda>r. eval_pred x ps r w) rows2
                     | None \<Rightarrow> ret rows2) (\<lambda>rows3.
                ret (rows3, map fst ?items))) u4 = (Inr (rows', names), s')"
    using assms unfolding project_def Let_def early_def ebind_Inr by blast
  have b0: "binds (set (map fst ?items)) r" if "r \<in> fst ` set out0" for r
  proof (cases "list_ex (\<lambda>(_, e). has_aggregate e) ?items")
    case True
    then show ?thesis using p0 that aggregate_rows_binds [of x ps ?items rows s out0 u0] by auto
  next
    case False
    note rr = that
    from False have e: "emap (project_row x ps ?items) rows s = (Inr out0, u0)" using p0 by simp
    obtain env where "(r, env) \<in> set out0" using rr by auto
    from emap_elem [OF e this] show ?thesis using project_row_binds by blast
  qed
  have "set out1 \<subseteq> set out0" using p1 by (auto simp: ret_def split: option.splits if_splits dest: filter_ev_subset)
  moreover have "fst ` set out2 \<subseteq> fst ` set out1"
  proof -
    define out where "out = (if pj_distinct p then retain_first (\<lambda>(r, _). distinct_key (map fst ?items) r) [] out1 else out1)"
    have "(if pj_order p = [] then ret out else order_rows x ps ?items (pj_order p) out) u1 = (Inr out2, u2)"
      using p2 unfolding Let_def out_def .
    then have "fst ` set out2 \<subseteq> fst ` set out"
      by (cases "pj_order p = []") (simp_all add: ret_def order_rows_subset)
    moreover have "set out \<subseteq> set out1" by (simp add: out_def retain_first_subset)
    ultimately show ?thesis by blast
  qed
  moreover have "set rows' \<subseteq> fst ` set out2"
  proof -
    define rows2 where "rows2 = (case limit of Some l \<Rightarrow> take l (drop (or_default skip 0) (map fst out2)) | None \<Rightarrow> drop (or_default skip 0) (map fst out2))"
    have "set rows2 \<subseteq> fst ` set out2"
      unfolding rows2_def using set_drop_subset [of "or_default skip 0" "map fst out2"] by (auto split: option.splits dest: in_set_takeD)
    moreover have "set rows' \<subseteq> set rows2"
    proof -
      obtain u where u: "(case pj_where p of
                       Some w \<Rightarrow> if early then ret rows2 else filter_ev (\<lambda>r. eval_pred x ps r w) rows2
                     | None \<Rightarrow> ret rows2) u4 = (Inr rows', u)"
        using p4 unfolding Let_def rows2_def [symmetric] ebind_Inr by (auto simp: ret_def)
      show ?thesis
      proof (cases "pj_where p")
        case (Some w)
        then show ?thesis using u filter_ev_subset [of "\<lambda>r. eval_pred x ps r w" rows2 u4 rows' u] by (cases early) (simp_all add: ret_def)
      qed (use u in \<open>simp add: ret_def\<close>)
    qed
    ultimately show ?thesis by blast
  qed
  ultimately have "set rows' \<subseteq> fst ` set out0" by (meson image_mono order_trans)
  then show "\<forall>r \<in> set rows'. binds (set names) r" using b0 unfolding names by (meson subsetD)
qed


section \<open>The scope a projection leaves\<close>

lemma check_items_dom:
  "try_fold (check_item p scope w) its out0 = Inr out \<Longrightarrow> bt_invar out0 \<Longrightarrow>
   bt_invar out \<and> dom (bt_get out) = dom (bt_get out0) \<union> item_name ` set its"
proof (induction its arbitrary: out0)
  case (Cons it its)
  from Cons.prems(1) obtain out1 where o: "check_item p scope w it out0 = Inr out1" "try_fold (check_item p scope w) its out1 = Inr out"
    by (auto simp: rbind_Inr_iff)
  then obtain k where "out1 = bt_insert (item_name it) k out0"
    by (auto simp: check_item_def rbind_Inr_iff verr_def semantic_def split: if_splits)
  then have "bt_invar out1" "dom (bt_get out1) = insert (item_name it) (dom (bt_get out0))"
    using Cons.prems(2) by (auto simp: bt_insert_invar bt_insert_get)
  then show ?case using Cons.IH [OF o(2)] by auto
qed simp

lemma rev_map_of: "distinct (map fst m) \<Longrightarrow> map_of (rev m) = map_of m"
  by (subst map_of_inject_set) (simp_all flip: rev_map)

lemma fold_same: "bt_invar scope \<Longrightarrow> bt_get (fold (\<lambda>(k, v). bt_insert k v) scope []) = bt_get scope \<and> bt_invar (fold (\<lambda>(k, v). bt_insert k v) scope [])"
  using btree.lookup_after_inserts [of "[]" scope] rev_map_of [of scope] by (simp add: strict_sorted_iff)

lemma check_projection_dom:
  assumes "check_projection p scope w = Inr out" "bt_invar scope"
  shows "dom (bt_get out) = (if pj_star p then dom (bt_get scope) else {}) \<union> item_name ` set (pj_items p)"
proof -
  let ?out0 = "if pj_star p then fold (\<lambda>(k, v). bt_insert k v) scope [] else []"
  have "try_fold (check_item p scope w) (pj_items p) ?out0 = Inr out"
    using assms(1) unfolding check_projection_def Let_def by (auto simp: rbind_Inr_iff)
  from check_items_dom [OF this] fold_same [OF assms(2)] show ?thesis by auto
qed

lemma set_star_names: "set (star_names rows) = {k. (\<exists>r \<in> set rows. k \<in> dom (bt_get r)) \<and> \<not> starts_with [CHR 0x01] k}"
proof -
  have "set (bt_keys (fold (\<lambda>k. bt_insert k ()) ks m)) = set ks \<union> set (bt_keys m)" for ks :: "string list" and m
    by (induction ks arbitrary: m) (simp_all only: fold_simps(1) fold_simps(2) set_keys_bt_insert list.set Un_insert_left Un_insert_right Un_empty_left)
  then show ?thesis unfolding star_names_def by (auto simp: dom_map_of_conv_image_fst)
qed

text \<open>
  C22. A projection that passes the scope checks keeps what they assume: if every row binds all variables in scope, then every
  row the projection produces, through grouping, \<^verbatim>\<open>DISTINCT\<close>, \<^verbatim>\<open>ORDER BY\<close>, \<^verbatim>\<open>SKIP\<close>, \<^verbatim>\<open>LIMIT\<close> and \<^verbatim>\<open>WHERE\<close>, binds all
  variables of the scope after it. The exception is \<^verbatim>\<open>*\<close> over no rows at all, where the names it stands for are read off the rows.
\<close>

theorem checked_projection_scope:
  assumes "check_projection p scope is_with = Inr out"
    and "project x ps rows p s = (Inr (rows', names), s')"
    and "bt_invar scope" "\<forall>v \<in> dom (bt_get scope). \<not> starts_with [CHR 0x01] v"
    and "\<forall>r \<in> set rows. dom (bt_get scope) \<subseteq> dom (bt_get r)"
    and "rows \<noteq> [] \<or> \<not> pj_star p"
  shows "\<forall>r \<in> set rows'. bt_invar r \<and> dom (bt_get out) \<subseteq> dom (bt_get r)"
proof -
  have names: "set names = (if pj_star p then set (star_names rows) else {}) \<union> item_name ` set (pj_items p)"
    unfolding project_binds(1) [OF assms(2)] projection_items_def by (auto simp: image_iff)
  have "dom (bt_get scope) \<subseteq> set (star_names rows)" if "pj_star p"
    using that assms(4-6) unfolding set_star_names by (cases rows) auto
  then have "dom (bt_get out) \<subseteq> set names" unfolding names check_projection_dom [OF assms(1,3)] by auto
  then show ?thesis using project_binds(2) [OF assms(2)] by (auto simp: binds_def)
qed

text \<open>
  C23. An expression that passes the scope checks is evaluated from the variables in scope alone: two rows that agree on
  them give the same value, the same error and the same effects on the clock and the random numbers. Variables bound inside comprehensions,
  quantifiers and \<^verbatim>\<open>reduce\<close> shadow those of the row.
\<close>

theorem checked_expression_scope:
  assumes "expr_check ctx e scope = Inr ()"
    and "bt_invar scope" "bt_invar r1" "bt_invar r2"
    and "\<forall>v \<in> dom (bt_get scope). bt_get r1 v = bt_get r2 v"
  shows "eval x ps r1 e = eval x ps r2 e"
  using eval_agree [OF assms(1)] assms(2-5) by (auto simp: agree_def dom_def)


definition sample_projection :: projection where
  "sample_projection =
     \<lparr>pj_distinct = False, pj_star = True, pj_items = [\<lparr>pi_expr = XVar ''a'', pi_alias = Some ''b'', pi_text = ''a''\<rparr>], pj_order = [],
      pj_skip = None, pj_limit = None, pj_where = None\<rparr>"

theorem checked_projection_scope_witness:
  "check_projection sample_projection [(''a'', KindNode)] True = Inr [(''a'', KindNode), (''b'', KindNode)]
   \<and> project sample_ext [] [[(''a'', VInt 1)]] sample_projection sample_state = (Inr ([[(''a'', VInt 1), (''b'', VInt 1)]], [''a'', ''b'']), sample_state)
   \<and> {''a'', ''b''} \<subseteq> dom (bt_get [(''a'', VInt 1), (''b'', VInt 1)])"
proof -
  have c: "check_projection sample_projection [(''a'', KindNode)] True = Inr [(''a'', KindNode), (''b'', KindNode)]"
    by (simp add: check_projection_def sample_projection_def check_item_def item_name_def defined_var_def check_option_def has_aggregate_def
        Let_def less_list_code less_char_def)
  have p: "project sample_ext [] [[(''a'', VInt 1)]] sample_projection sample_state
      = (Inr ([[(''a'', VInt 1), (''b'', VInt 1)]], [''a'', ''b'']), sample_state)"
    by (simp add: starts_with_def project_def projection_items_def star_names_def sample_projection_def item_name_def has_aggregate_def project_row_def row_var_def
        row_count_def Let_def less_list_code less_char_def ret_def lift_def ebind_def)
  have "\<forall>r \<in> set [[(''a'', VInt 1), (''b'', VInt 1)]]. bt_invar r \<and> dom (bt_get [(''a'', KindNode), (''b'', KindNode)]) \<subseteq> dom (bt_get r)"
    by (rule checked_projection_scope [OF c p]) (simp_all add: starts_with_def)
  then show ?thesis using c p by simp
qed

theorem checked_expression_scope_witness:
  "eval sample_ext [] [(''a'', VList [VInt 1]), (''b'', VInt 2), (''x'', VNull)]
       (XListComp ''x'' (XVar ''a'') None (Some (XBinary OpAdd (XVar ''x'') (XVar ''b''))))
   = eval sample_ext [] [(''a'', VList [VInt 1]), (''b'', VInt 2), (''c'', VInt 3)]
       (XListComp ''x'' (XVar ''a'') None (Some (XBinary OpAdd (XVar ''x'') (XVar ''b''))))"
proof (rule checked_expression_scope [where ctx = CtxValue and scope = "[(''a'', KindAny), (''b'', KindAny)]"])
  show "expr_check CtxValue (XListComp ''x'' (XVar ''a'') None (Some (XBinary OpAdd (XVar ''x'') (XVar ''b'')))) [(''a'', KindAny), (''b'', KindAny)] = Inr ()"
    by (simp add: defined_var_def check_option_def is_boolean_def less_list_code less_char_def)
qed (simp_all add: less_list_code less_char_def)

end
