(* ===== verification/Cypher_Lexer.thy ===== *)
theory Cypher_Lexer
  imports Cypher_Functions
begin

text \<open>
  The tokenizer of openCypher (\<^verbatim>\<open>oxilite-cypher/src/lexer.rs\<close>). The source is the list of its characters, each the string of its
  UTF-8 bytes; the position of the code is the number of characters consumed. Which characters outside ASCII are letters or numbers,
  and lower case, are tables of the standard library: the parameter \<open>uni_ext\<close>.
\<close>

record uni_ext =
  u_alphabetic :: "string \<Rightarrow> bool"
  u_numeric :: "string \<Rightarrow> bool"
  u_lowercase :: "string \<Rightarrow> string"

section \<open>Tokens\<close>

datatype ctok =
    TkIdent string
  | TkQuoted string
  | TkInt int
  | TkFloat f64
  | TkStr string
  | TkParam string
  | TkSym string
  | TkEof

datatype ctoken = CToken (ct_tok: ctok) (ct_pos: nat)

definition SYMS :: "string list" where
  "SYMS = [''<>'', ''!='', ''<='', ''>='', ''=~'', ''+='', ''..'', ''('', '')'', ''['', '']'', ''{'', ''}'', '','', ''.'', '':'', '';'',
     ''|'', ''+'', ''-'', ''*'', ''/'', ''%'', ''^'', ''='', ''<'', ''>'']"

definition syntax_err :: "nat \<Rightarrow> string \<Rightarrow> cypher_error + 'a" where
  "syntax_err pos msg = Inl (CySyntax pos msg)"

section \<open>Characters\<close>

definition char_where :: "(char \<Rightarrow> bool) \<Rightarrow> string \<Rightarrow> bool" where
  "char_where P c = (case c of [b] \<Rightarrow> P b | _ \<Rightarrow> False)"

definition is_digit_char :: "string \<Rightarrow> bool" where
  "is_digit_char = char_where is_ascii_digit"

definition is_alphabetic :: "uni_ext \<Rightarrow> string \<Rightarrow> bool" where
  "is_alphabetic x c = (char_where is_ascii_alphabetic c \<or> length c \<noteq> 1 \<and> u_alphabetic x c)"

definition is_alphanumeric :: "uni_ext \<Rightarrow> string \<Rightarrow> bool" where
  "is_alphanumeric x c = (is_alphabetic x c \<or> char_where is_ascii_digit c \<or> length c \<noteq> 1 \<and> u_numeric x c)"

definition is_word_char :: "uni_ext \<Rightarrow> string \<Rightarrow> bool" where
  "is_word_char x c = (is_alphanumeric x c \<or> c = ''_'')"

text \<open>\<^verbatim>\<open>char::from_u32\<close>, as the UTF-8 encoding: \<open>None\<close> for surrogates and beyond the last plane.\<close>

definition char_from_u32 :: "nat \<Rightarrow> string option" where
  "char_from_u32 n =
     (if n < 0x80 then Some [char_of n]
      else if n < 0x800 then Some [char_of (192 + n div 64), char_of (128 + n mod 64)]
      else if 0xD800 \<le> n \<and> n < 0xE000 then None
      else if n < 0x10000 then Some [char_of (224 + n div 4096), char_of (128 + n div 64 mod 64), char_of (128 + n mod 64)]
      else if n < 0x110000
      then Some [char_of (240 + n div 262144), char_of (128 + n div 4096 mod 64), char_of (128 + n div 64 mod 64), char_of (128 + n mod 64)]
      else None)"

text \<open>\<^verbatim>\<open>from_str_radix\<close> of an unsigned number: one leading plus is allowed.\<close>

definition digit_of :: "nat \<Rightarrow> string \<Rightarrow> nat option" where
  "digit_of radix c =
     (case c of
        [b] \<Rightarrow>
          let v = (if is_ascii_digit b then byte b - 48 else if is_ascii_lower b then byte b - 87 else if is_ascii_upper b then byte b - 55 else radix)
          in if v < radix then Some v else None
      | _ \<Rightarrow> None)"

definition from_str_radix :: "nat \<Rightarrow> nat \<Rightarrow> string list \<Rightarrow> nat option" where
  "from_str_radix radix greatest cs =
     (let ds = (case cs of c # r \<Rightarrow> if c = ''+'' then r else cs | [] \<Rightarrow> []) in
      if ds = [] then None
      else case those (map (digit_of radix) ds) of
             None \<Rightarrow> None
           | Some vs \<Rightarrow> let v = fold (\<lambda>d a. radix * a + d) vs 0 in if v \<le> greatest then Some v else None)"

section \<open>Tokens of several characters\<close>

text \<open>The rest after a block comment, which an end of the input closes.\<close>

fun block_end :: "string list \<Rightarrow> string list" where
  "block_end (c # d # cs) = (if c = ''*'' \<and> d = ''/'' then cs else block_end (d # cs))"
| "block_end _ = []"

text \<open>A quoted identifier: the name and the rest.\<close>

fun quoted_name :: "string list \<Rightarrow> string \<Rightarrow> (string \<times> string list) option" where
  "quoted_name [] s = None"
| "quoted_name (c # cs) s =
     (if c = ''`''
      then (case cs of
              d # cs' \<Rightarrow> if d = ''`'' then quoted_name cs' (s @ ''`'') else Some (s, cs)
            | [] \<Rightarrow> Some (s, []))
      else quoted_name cs (s @ c))"

definition radix_number :: "nat \<Rightarrow> nat \<Rightarrow> string \<Rightarrow> string list \<Rightarrow> cypher_error + ctok \<times> string list" where
  "radix_number pos radix what cs =
     (case from_str_radix radix (nat i64_max) (takeWhile (char_where is_ascii_alphanumeric) cs) of
        Some v \<Rightarrow> Inr (TkInt (int v), dropWhile (char_where is_ascii_alphanumeric) cs)
      | None \<Rightarrow> syntax_err pos (''invalid '' @ what @ '' integer''))"

text \<open>Digits, a fraction when a digit follows the point, an exponent when a digit follows its sign.\<close>

definition fraction_part :: "string list \<Rightarrow> string list \<times> string list" where
  "fraction_part cs =
     (case cs of
        c # d # r \<Rightarrow> if c = ''.'' \<and> is_digit_char d then (c # takeWhile is_digit_char (d # r), dropWhile is_digit_char (d # r)) else ([], cs)
      | _ \<Rightarrow> ([], cs))"

definition exponent_part :: "string list \<Rightarrow> string list \<times> string list" where
  "exponent_part cs =
     (case cs of
        c # r \<Rightarrow>
          if c = ''e'' \<or> c = ''E''
          then (let sign = (case r of s # _ \<Rightarrow> if s = ''+'' \<or> s = ''-'' then [s] else [] | [] \<Rightarrow> []);
                    ds = drop (length sign) r
                in case ds of
                     d # _ \<Rightarrow> if is_digit_char d then (c # sign @ takeWhile is_digit_char ds, dropWhile is_digit_char ds) else ([], cs)
                   | [] \<Rightarrow> ([], cs))
          else ([], cs)
      | [] \<Rightarrow> ([], []))"

definition decimal_number :: "nat \<Rightarrow> string list \<Rightarrow> cypher_error + ctok \<times> string list" where
  "decimal_number pos cs =
     (let ds = takeWhile is_digit_char cs; r0 = dropWhile is_digit_char cs in
      case fraction_part r0 of
        (fraction, r1) \<Rightarrow>
          (case exponent_part r1 of
             (exponent, r2) \<Rightarrow>
               let text = concat (ds @ fraction @ exponent) in
               if fraction \<noteq> [] \<or> exponent \<noteq> []
               then (case f64_from_str text of Some f \<Rightarrow> Inr (TkFloat f, r2) | None \<Rightarrow> syntax_err pos ''invalid float'')
               else (case parse_i64 text of Some i \<Rightarrow> Inr (TkInt i, r2) | None \<Rightarrow> syntax_err pos ''integer out of range'')))"

definition number :: "nat \<Rightarrow> string list \<Rightarrow> cypher_error + ctok \<times> string list" where
  "number pos cs =
     (case cs of
        c # d # r \<Rightarrow>
          if c = ''0'' \<and> (d = ''o'' \<or> d = ''O'') then radix_number pos 8 ''octal'' r
          else if c = ''0'' \<and> (d = ''x'' \<or> d = ''X'') then radix_number pos 16 ''hexadecimal'' r
          else decimal_number pos cs
      | _ \<Rightarrow> decimal_number pos cs)"

text \<open>A string literal after its quote. \<open>n\<close> is the number of characters of the source, for the positions of errors.\<close>

definition simple_escape :: "string \<Rightarrow> string" where
  "simple_escape e =
     (if e = ''n'' then [CHR 0x0A] else if e = ''t'' then [CHR 0x09] else if e = ''r'' then [CHR 0x0D] else if e = ''b'' then [CHR 0x08]
      else if e = ''f'' then [CHR 0x0C] else if e = ''0'' then [CHR 0x00] else e)"

fun string_body :: "nat \<Rightarrow> nat \<Rightarrow> string \<Rightarrow> nat \<Rightarrow> string list \<Rightarrow> string \<Rightarrow> cypher_error + string \<times> string list" where
  "string_body n start quote 0 cs s = syntax_err start ''unterminated string''"
| "string_body n start quote (Suc k) cs s =
     (case cs of
        [] \<Rightarrow> syntax_err start ''unterminated string''
      | c # r \<Rightarrow>
          if c = quote then Inr (s, r)
          else if c \<noteq> [CHR 0x5C] then string_body n start quote k r (s @ c)
          else
            case r of
              [] \<Rightarrow> syntax_err start ''unterminated string''
            | e # r' \<Rightarrow>
                if e = ''u'' \<or> e = ''U''
                then (let w = (if e = ''u'' then 4 else 8);
                          hex = (if w \<le> length r' then take w r' else [])
                      in case Option.bind (from_str_radix 16 4294967295 hex) char_from_u32 of
                           None \<Rightarrow> syntax_err (n - length r') ''invalid unicode escape''
                         | Some cp \<Rightarrow> string_body n start quote k (drop w r') (s @ cp))
                else string_body n start quote k r' (s @ simple_escape e))"

section \<open>The tokenizer\<close>

definition cy_next_token :: "uni_ext \<Rightarrow> nat \<Rightarrow> string \<Rightarrow> string list \<Rightarrow> cypher_error + ctok \<times> string list" where
  "cy_next_token x n c r =
     (let cs = c # r; pos = n - length cs in
      if is_alphabetic x c \<or> c = ''_'' then Inr (TkIdent (concat (takeWhile (is_word_char x) cs)), dropWhile (is_word_char x) cs)
      else if c = ''`''
      then (case quoted_name r [] of Some (s, r') \<Rightarrow> Inr (TkQuoted s, r') | None \<Rightarrow> syntax_err pos ''unterminated `identifier`'')
      else if c = ''$''
      then (if takeWhile (is_word_char x) r = [] then syntax_err pos ''expected a parameter name after $''
            else Inr (TkParam (concat (takeWhile (is_word_char x) r)), dropWhile (is_word_char x) r))
      else if is_digit_char c \<or> (c = ''.'' \<and> r \<noteq> [] \<and> is_digit_char (hd r)) then number pos cs
      else if c = [CHR 0x27] \<or> c = [CHR 0x22]
      then rbind (string_body n pos c (Suc (length r)) r []) (\<lambda>(s, r'). Inr (TkStr s, r'))
      else
        case List.find (\<lambda>s. starts_with s (concat (take 2 cs))) SYMS of
          Some s \<Rightarrow> Inr (TkSym s, drop (length s) cs)
        | None \<Rightarrow> syntax_err pos (''unexpected character '' @ [CHR 0x27] @ c @ [CHR 0x27]))"

text \<open>One round of the loop for each character at most; \<open>k\<close> bounds the rounds.\<close>

fun lex_loop :: "uni_ext \<Rightarrow> nat \<Rightarrow> nat \<Rightarrow> string list \<Rightarrow> cypher_error + ctoken list" where
  "lex_loop x n k [] = Inr [CToken TkEof n]"
| "lex_loop x n 0 (c # r) = Inl CyPanic"
| "lex_loop x n (Suc k) (c # r) =
     (if c \<in> set utf8_spaces then lex_loop x n k r
      else if c = ''/'' \<and> r \<noteq> [] \<and> hd r = ''/'' then lex_loop x n k (dropWhile (\<lambda>d. d \<noteq> [CHR 0x0A]) (c # r))
      else if c = ''/'' \<and> r \<noteq> [] \<and> hd r = ''*'' then lex_loop x n k (block_end (tl r))
      else rbind (cy_next_token x n c r) (\<lambda>(t, r').
             rbind (lex_loop x n k r') (\<lambda>ts. Inr (CToken t (n - length (c # r)) # ts))))"

definition cy_tokenize :: "uni_ext \<Rightarrow> string list \<Rightarrow> cypher_error + ctoken list" where
  "cy_tokenize x cs = lex_loop x (length cs) (length cs) cs"

end
