(* ===== verification/Cypher_Parser.thy ===== *)
theory Cypher_Parser
  imports Cypher_Lexer
begin

text \<open>
  The recursive-descent parser of openCypher (\<^verbatim>\<open>oxilite-cypher/src/parser.rs\<close>). The state is the list of the tokens left, which
  always ends with \<open>TkEof\<close> and is never empty; backtracking restores it. Every loop and every recursive call takes fuel, and
  \<open>None\<close> is running out of it: the number of tokens is enough (theory \<open>Cypher_Parser_Laws\<close>). \<open>src\<close> is the source text, as
  characters, of which a projected expression keeps its slice.
\<close>

section \<open>The token stream\<close>

type_synonym toks = "ctoken list"
type_synonym 'a cp = "toks \<Rightarrow> (cypher_error + 'a \<times> toks) option"

definition pk :: "toks \<Rightarrow> ctok" where
  "pk ts = ct_tok (hd ts)"

definition pk_at :: "nat \<Rightarrow> toks \<Rightarrow> ctok" where
  "pk_at n ts = ct_tok (ts ! min n (length ts - 1))"

definition pk_pos :: "toks \<Rightarrow> nat" where
  "pk_pos ts = ct_pos (hd ts)"

definition bump :: "toks \<Rightarrow> toks" where
  "bump ts = (if 1 < length ts then tl ts else ts)"

definition found_text :: "ctok \<Rightarrow> string" where
  "found_text t =
     (let q = (\<lambda>s. [CHR 0x27] @ s @ [CHR 0x27]) in
      case t of
        TkEof \<Rightarrow> ''end of input''
      | TkIdent s \<Rightarrow> q s
      | TkQuoted s \<Rightarrow> q s
      | TkSym s \<Rightarrow> q s
      | TkStr s \<Rightarrow> ''string '' @ q s
      | TkInt i \<Rightarrow> show_int i
      | TkFloat f \<Rightarrow> f64_display f
      | TkParam p \<Rightarrow> ''$'' @ p)"

definition parse_err :: "string \<Rightarrow> toks \<Rightarrow> cypher_error" where
  "parse_err msg ts = CySyntax (pk_pos ts) (msg @ '' (found '' @ found_text (pk ts) @ '')'')"

definition is_kw :: "string \<Rightarrow> ctok \<Rightarrow> bool" where
  "is_kw kw t = (case t of TkIdent s \<Rightarrow> eq_ignore_ascii_case s kw | _ \<Rightarrow> False)"

definition is_sym :: "string \<Rightarrow> ctok \<Rightarrow> bool" where
  "is_sym s t = (t = TkSym s)"

definition RESERVED :: "string list" where
  "RESERVED = [''MATCH'', ''OPTIONAL'', ''WHERE'', ''RETURN'', ''WITH'', ''UNWIND'', ''CREATE'', ''MERGE'', ''SET'', ''REMOVE'',
     ''DELETE'', ''DETACH'', ''ORDER'', ''SKIP'', ''LIMIT'', ''UNION'', ''CALL'', ''YIELD'', ''AS'', ''AND'', ''OR'',
     ''XOR'', ''NOT'', ''IN'', ''IS'', ''NULL'', ''TRUE'', ''FALSE'', ''CASE'', ''WHEN'', ''THEN'', ''ELSE'', ''END'',
     ''DISTINCT'', ''ON'', ''STARTS'', ''ENDS'', ''CONTAINS'']"

definition is_variable :: "ctok \<Rightarrow> bool" where
  "is_variable t =
     (case t of
        TkQuoted _ \<Rightarrow> True
      | TkIdent s \<Rightarrow> \<not> list_ex (\<lambda>k. eq_ignore_ascii_case k s) RESERVED
      | _ \<Rightarrow> False)"

section \<open>Combinators\<close>

definition cret :: "'a \<Rightarrow> 'a cp" where
  "cret a ts = Some (Inr (a, ts))"

definition cfail :: "string \<Rightarrow> 'a cp" where
  "cfail msg ts = Some (Inl (parse_err msg ts))"

definition cbind :: "'a cp \<Rightarrow> ('a \<Rightarrow> 'b cp) \<Rightarrow> 'b cp" where
  "cbind m f ts =
     (case m ts of None \<Rightarrow> None | Some (Inl e) \<Rightarrow> Some (Inl e) | Some (Inr (a, ts')) \<Rightarrow> f a ts')"

text \<open>Looking at the next token; consuming it.\<close>

definition if_tok :: "(ctok \<Rightarrow> bool) \<Rightarrow> 'a cp \<Rightarrow> 'a cp \<Rightarrow> 'a cp" where
  "if_tok P p q ts = (if P (pk ts) then p ts else q ts)"

definition bumped :: "'a cp \<Rightarrow> 'a cp" where
  "bumped p ts = p (bump ts)"

text \<open>\<^verbatim>\<open>if self.eat_kw(kw) \<dots> else \<dots>\<close>, \<^verbatim>\<open>if self.eat_sym(s) \<dots> else \<dots>\<close>; the token is never the end of the input.\<close>

definition eat_kw :: "string \<Rightarrow> 'a cp \<Rightarrow> 'a cp \<Rightarrow> 'a cp" where
  "eat_kw kw p q ts = (if is_kw kw (pk ts) then p (bump ts) else q ts)"

definition eat_sym :: "string \<Rightarrow> 'a cp \<Rightarrow> 'a cp \<Rightarrow> 'a cp" where
  "eat_sym s p q ts = (if is_sym s (pk ts) then p (bump ts) else q ts)"

definition expect_kw :: "string \<Rightarrow> 'a cp \<Rightarrow> 'a cp" where
  "expect_kw kw p ts = (eat_kw kw p (cfail (''expected '' @ kw))) ts"

definition expect_sym :: "string \<Rightarrow> 'a cp \<Rightarrow> 'a cp" where
  "expect_sym s p ts = (eat_sym s p (cfail (''expected '' @ [CHR 0x27] @ s @ [CHR 0x27]))) ts"

definition p_name :: "string cp" where
  "p_name ts =
     (case pk ts of TkIdent s \<Rightarrow> cret s (bump ts) | TkQuoted s \<Rightarrow> cret s (bump ts) | _ \<Rightarrow> cfail ''expected a name'' ts)"

definition p_variable :: "string cp" where
  "p_variable ts =
     (if is_variable (pk ts)
      then (case pk ts of TkIdent s \<Rightarrow> cret s (bump ts) | TkQuoted s \<Rightarrow> cret s (bump ts) | _ \<Rightarrow> cfail ''expected a variable'' ts)
      else cfail ''expected a variable'' ts)"

text \<open>One or more, separated by commas.\<close>

fun p_commas :: "nat \<Rightarrow> 'a cp \<Rightarrow> 'a list cp" where
  "p_commas 0 p ts = None"
| "p_commas (Suc k) p ts =
     (cbind p (\<lambda>a. eat_sym '','' (cbind (p_commas k p) (\<lambda>as. cret (a # as))) (cret [a]))) ts"

definition p_opt_kw :: "string \<Rightarrow> 'a cp \<Rightarrow> 'a option cp" where
  "p_opt_kw kw p ts = (eat_kw kw (cbind p (\<lambda>a. cret (Some a))) (cret None)) ts"

fun p_labels :: "nat \<Rightarrow> string list cp" where
  "p_labels 0 ts = None"
| "p_labels (Suc k) ts =
     (eat_sym '':'' (cbind p_name (\<lambda>l. cbind (p_labels k) (\<lambda>ls. cret (l # ls)))) (cret [])) ts"

section \<open>Patterns\<close>

text \<open>The parsers of this and the next section take the parser of expressions \<open>ex\<close> and the fuel of their loops \<open>k\<close>.\<close>

definition map_literal :: "nat \<Rightarrow> cexpr cp \<Rightarrow> cexpr cp" where
  "map_literal k ex ts =
     (expect_sym ''{''
       (if_tok (is_sym ''}'')
          (expect_sym ''}'' (cret (XMap [])))
          (cbind (p_commas k (cbind p_name (\<lambda>key. expect_sym '':'' (cbind ex (\<lambda>e. cret (key, e)))))) (\<lambda>items.
             expect_sym ''}'' (cret (XMap items)))))) ts"

text \<open>The properties of a node or relationship: a map, a parameter or nothing.\<close>

definition p_props :: "nat \<Rightarrow> cexpr cp \<Rightarrow> cexpr option cp" where
  "p_props k ex ts =
     (if is_sym ''{'' (pk ts) then cbind (map_literal k ex) (\<lambda>e. cret (Some e)) ts
      else case pk ts of TkParam p \<Rightarrow> cret (Some (XParam p)) (bump ts) | _ \<Rightarrow> cret None ts)"

definition p_opt_var :: "string option cp" where
  "p_opt_var ts = (if_tok is_variable (cbind p_variable (\<lambda>v. cret (Some v))) (cret None)) ts"

definition p_node :: "nat \<Rightarrow> cexpr cp \<Rightarrow> node_pattern cp" where
  "p_node k ex ts =
     (expect_sym ''(''
       (cbind p_opt_var (\<lambda>v. cbind (p_labels k) (\<lambda>ls. cbind (p_props k ex) (\<lambda>props.
          expect_sym '')'' (cret (NodePattern v ls props))))))) ts"

fun more_types :: "nat \<Rightarrow> string list cp" where
  "more_types 0 ts = None"
| "more_types (Suc k) ts =
     (eat_sym ''|''
       (let rest = cbind p_name (\<lambda>t. cbind (more_types k) (\<lambda>ts. cret (t # ts))) in eat_sym '':'' rest rest)
       (cret [])) ts"

definition rel_types :: "nat \<Rightarrow> string list cp" where
  "rel_types k ts =
     (eat_sym '':'' (cbind p_name (\<lambda>t. cbind (more_types k) (\<lambda>ts. cret (t # ts)))) (cret [])) ts"

definition p_hops :: "nat option cp" where
  "p_hops ts =
     (case pk ts of
        TkInt n \<Rightarrow> if 0 \<le> n \<and> n \<le> 4294967295 then cret (Some (nat n)) (bump ts) else cfail ''invalid length'' (bump ts)
      | _ \<Rightarrow> cret None ts)"

definition rel_length :: "(nat option \<times> nat option) option cp" where
  "rel_length ts =
     (eat_sym ''*''
       (cbind p_hops (\<lambda>lo. eat_sym ''..'' (cbind p_hops (\<lambda>hi. cret (Some (lo, hi)))) (cret (Some (lo, lo)))))
       (cret None)) ts"

definition p_rel :: "nat \<Rightarrow> cexpr cp \<Rightarrow> rel_pattern cp" where
  "p_rel k ex ts =
     ((let body = (\<lambda>left.
        expect_sym ''-''
          (let arrow = (\<lambda>v types props len.
                 expect_sym ''-'' (eat_sym ''>''
                   (cret (RelPattern v types props (if left then DirBoth else DirRight) len))
                   (cret (RelPattern v types props (if left then DirLeft else DirBoth) len))))
           in eat_sym ''[''
                (cbind p_opt_var (\<lambda>v. cbind (rel_types k) (\<lambda>types. cbind rel_length (\<lambda>len. cbind (p_props k ex) (\<lambda>props.
                   expect_sym '']'' (arrow v types props len))))))
                (arrow None [] None None)))
      in eat_sym ''<'' (body True) (body False))) ts"

definition at_rel :: "toks \<Rightarrow> bool" where
  "at_rel ts \<longleftrightarrow> is_sym ''-'' (pk ts) \<or> (is_sym ''<'' (pk ts) \<and> is_sym ''-'' (pk_at 1 ts))"

definition if_toks :: "(toks \<Rightarrow> bool) \<Rightarrow> 'a cp \<Rightarrow> 'a cp \<Rightarrow> 'a cp" where
  "if_toks P p q ts = (if P ts then p ts else q ts)"

fun p_chain :: "nat \<Rightarrow> nat \<Rightarrow> cexpr cp \<Rightarrow> (rel_pattern \<times> node_pattern) list cp" where
  "p_chain 0 k ex ts = None"
| "p_chain (Suc j) k ex ts =
     (if_toks at_rel
       (cbind (p_rel k ex) (\<lambda>r. cbind (p_node k ex) (\<lambda>n. cbind (p_chain j k ex) (\<lambda>c. cret ((r, n) # c)))))
       (cret [])) ts"

fun p_element :: "nat \<Rightarrow> nat \<Rightarrow> cexpr cp \<Rightarrow> pattern_element cp" where
  "p_element 0 k ex ts = None"
| "p_element (Suc j) k ex ts =
     (if_toks (\<lambda>ts. is_sym ''('' (pk ts) \<and> is_sym ''('' (pk_at 1 ts))
       (bumped (cbind (p_element j k ex) (\<lambda>e. expect_sym '')'' (cret e))))
       (cbind (p_node k ex) (\<lambda>n. cbind (p_chain k k ex) (\<lambda>c. cret (PatternElement n c))))) ts"

definition p_part :: "nat \<Rightarrow> cexpr cp \<Rightarrow> pattern_part cp" where
  "p_part k ex ts =
     ((let body = (\<lambda>v.
        let short = (\<lambda>s. bumped (expect_sym ''('' (cbind (p_element k k ex) (\<lambda>e. expect_sym '')'' (cret (PatternPart v (Some s) e)))))) in
        if_toks (\<lambda>ts. is_kw ''shortestPath'' (pk ts) \<and> is_sym ''('' (pk_at 1 ts)) (short ShortestOne)
          (if_toks (\<lambda>ts. is_kw ''allShortestPaths'' (pk ts) \<and> is_sym ''('' (pk_at 1 ts)) (short ShortestAll)
             (cbind (p_element k k ex) (\<lambda>e. cret (PatternPart v None e)))))
      in if_toks (\<lambda>ts. is_variable (pk ts) \<and> is_sym ''='' (pk_at 1 ts))
           (cbind p_variable (\<lambda>v. bumped (body (Some v))))
           (body None))) ts"

definition p_parts :: "nat \<Rightarrow> cexpr cp \<Rightarrow> pattern_part list cp" where
  "p_parts k ex ts = (p_commas k (p_part k ex)) ts"

text \<open>A pattern with at least one relationship, or nothing consumed.\<close>

definition try_pattern :: "nat \<Rightarrow> cexpr cp \<Rightarrow> pattern_element option cp" where
  "try_pattern k ex ts =
     (case p_element k k ex ts of
        None \<Rightarrow> None
      | Some (Inr (PatternElement n (c # cs), ts')) \<Rightarrow> cret (Some (PatternElement n (c # cs))) ts'
      | _ \<Rightarrow> cret None ts)"

section \<open>Projections\<close>

definition source_text :: "string list \<Rightarrow> nat \<Rightarrow> nat \<Rightarrow> string" where
  "source_text src from to = trim (concat (take (min to (length src) - from) (drop from src)))"

definition p_order :: "nat \<Rightarrow> cexpr cp \<Rightarrow> (cexpr \<times> bool) list cp" where
  "p_order k ex ts =
     (eat_kw ''ORDER''
       (expect_kw ''BY'' (p_commas k (cbind ex (\<lambda>e.
          let desc = cret (e, False); asc = cret (e, True) in
          eat_kw ''DESC'' desc (eat_kw ''DESCENDING'' desc (eat_kw ''ASC'' asc (eat_kw ''ASCENDING'' asc asc)))))))
       (cret [])) ts"

definition projection_tail :: "nat \<Rightarrow> cexpr cp \<Rightarrow> bool \<Rightarrow> bool \<Rightarrow> projection_item list \<Rightarrow> bool \<Rightarrow> projection cp" where
  "projection_tail k ex uniq star items is_with ts =
     (cbind (p_order k ex) (\<lambda>order.
     cbind (p_opt_kw ''SKIP'' ex) (\<lambda>skip.
     cbind (p_opt_kw ''LIMIT'' ex) (\<lambda>limit.
     cbind (if is_with then p_opt_kw ''WHERE'' ex else cret None) (\<lambda>wh.
       cret \<lparr>pj_distinct = uniq, pj_star = star, pj_items = items, pj_order = order, pj_skip = skip, pj_limit = limit, pj_where = wh\<rparr>))))) ts"

definition p_item :: "string list \<Rightarrow> cexpr cp \<Rightarrow> projection_item cp" where
  "p_item src ex ts =
     cbind ex (\<lambda>e ts1.
       cbind (p_opt_kw ''AS'' p_variable) (\<lambda>alias.
         cret \<lparr>pi_expr = e, pi_alias = alias, pi_text = source_text src (pk_pos ts) (pk_pos ts1)\<rparr>) ts1) ts"

definition p_projection :: "string list \<Rightarrow> nat \<Rightarrow> cexpr cp \<Rightarrow> bool \<Rightarrow> projection cp" where
  "p_projection src k ex is_with ts =
     ((let body = (\<lambda>uniq.
        let items = (\<lambda>star. cbind (p_commas k (p_item src ex)) (\<lambda>its. projection_tail k ex uniq star its is_with))
        in eat_sym ''*'' (eat_sym '','' (items True) (projection_tail k ex uniq True [] is_with)) (items False))
      in eat_kw ''DISTINCT'' (body True) (body False))) ts"

section \<open>Atoms\<close>

fun projection_entry :: "cexpr cp \<Rightarrow> map_item cp" where
  "projection_entry ex ts =
     (eat_sym ''.''
       (eat_sym ''*'' (cret MiAllProps) (cbind p_name (\<lambda>key. cret (MiProp key))))
       (if_toks (\<lambda>ts. is_sym '':'' (pk_at 1 ts))
          (cbind p_name (\<lambda>key. bumped (cbind ex (\<lambda>e. cret (MiEntry key e)))))
          (cbind p_variable (\<lambda>v. cret (MiVar v))))) ts"

definition map_projection :: "nat \<Rightarrow> cexpr cp \<Rightarrow> string \<Rightarrow> cexpr cp" where
  "map_projection k ex var ts =
     (expect_sym ''{''
       (if_tok (is_sym ''}'')
          (expect_sym ''}'' (cret (XMapProjection var [])))
          (cbind (p_commas k (projection_entry ex)) (\<lambda>items. expect_sym ''}'' (cret (XMapProjection var items)))))) ts"

text \<open>Zero or more expressions before a closing symbol.\<close>

definition p_args :: "nat \<Rightarrow> cexpr cp \<Rightarrow> string \<Rightarrow> cexpr list cp" where
  "p_args k ex close ts =
     (if_tok (is_sym close) (expect_sym close (cret []))
       (cbind (p_commas k ex) (\<lambda>es. expect_sym close (cret es)))) ts"

definition list_comprehension :: "cexpr cp \<Rightarrow> cexpr cp" where
  "list_comprehension ex ts =
     (cbind p_variable (\<lambda>v. bumped (cbind ex (\<lambda>l. cbind (p_opt_kw ''WHERE'' ex) (\<lambda>f.
       cbind (eat_sym ''|'' (cbind ex (\<lambda>m. cret (Some m))) (cret None)) (\<lambda>m.
         expect_sym '']'' (cret (XListComp v l f m)))))))) ts"

text \<open>A pattern comprehension; \<open>None\<close> when there is no pattern or no result after it.\<close>

definition pattern_comprehension :: "nat \<Rightarrow> cexpr cp \<Rightarrow> cexpr option cp" where
  "pattern_comprehension k ex ts =
     ((let body = (\<lambda>v. cbind (try_pattern k ex) (\<lambda>p.
        case p of
          None \<Rightarrow> cret None
        | Some p \<Rightarrow>
            cbind (p_opt_kw ''WHERE'' ex) (\<lambda>f.
              eat_sym ''|'' (cbind ex (\<lambda>m. expect_sym '']'' (cret (Some (XPatternComp v p f m))))) (cret None))))
      in if_toks (\<lambda>ts. is_variable (pk ts) \<and> is_sym ''='' (pk_at 1 ts))
           (cbind p_variable (\<lambda>v. bumped (body (Some v))))
           (body None))) ts"

definition plain_list :: "nat \<Rightarrow> cexpr cp \<Rightarrow> cexpr cp" where
  "plain_list k ex ts = (cbind (p_args k ex '']'') (\<lambda>es. cret (XList es))) ts"

definition try_comprehension :: "nat \<Rightarrow> cexpr cp \<Rightarrow> cexpr cp" where
  "try_comprehension k ex ts =
     cbind (pattern_comprehension k ex) (\<lambda>r ts'. case r of Some e \<Rightarrow> cret e ts' | None \<Rightarrow> plain_list k ex ts) ts"

definition list_atom :: "nat \<Rightarrow> cexpr cp \<Rightarrow> cexpr cp" where
  "list_atom k ex ts =
     (expect_sym ''[''
       (if_toks (\<lambda>ts. is_variable (pk ts) \<and> is_kw ''IN'' (pk_at 1 ts)) (list_comprehension ex)
       (if_toks (\<lambda>ts. is_sym ''('' (pk ts) \<or> (is_variable (pk ts) \<and> is_sym ''='' (pk_at 1 ts))) (try_comprehension k ex)
          (plain_list k ex)))) ts"

fun p_whens :: "nat \<Rightarrow> cexpr cp \<Rightarrow> (cexpr \<times> cexpr) list cp" where
  "p_whens 0 ex ts = None"
| "p_whens (Suc k) ex ts =
     (eat_kw ''WHEN''
       (cbind ex (\<lambda>w. expect_kw ''THEN'' (cbind ex (\<lambda>t. cbind (p_whens k ex) (\<lambda>ws. cret ((w, t) # ws))))))
       (cret [])) ts"

definition case_atom :: "nat \<Rightarrow> cexpr cp \<Rightarrow> cexpr cp" where
  "case_atom k ex ts =
     (expect_kw ''CASE''
       (cbind (if_tok (is_kw ''WHEN'') (cret None) (cbind ex (\<lambda>e. cret (Some e)))) (\<lambda>operand.
        cbind (p_whens k ex) (\<lambda>whens.
          if whens = [] then cfail ''expected WHEN''
          else cbind (p_opt_kw ''ELSE'' ex) (\<lambda>dflt. expect_kw ''END'' (cret (XCase operand whens dflt))))))) ts"

definition exists_atom :: "string list \<Rightarrow> nat \<Rightarrow> cexpr cp \<Rightarrow> cexpr cp" where
  "exists_atom src k ex ts =
     ((let body = cbind (p_parts k ex) (\<lambda>ps. cbind (p_opt_kw ''WHERE'' ex) (\<lambda>wh.
            let close = expect_sym ''}'' (cret (XExists ps wh)) in
            eat_kw ''RETURN'' (cbind (p_projection src k ex False) (\<lambda>_. close)) close))
      in bumped (bumped (eat_kw ''MATCH'' body body)))) ts"

definition quantified_atom :: "quantifier \<Rightarrow> cexpr cp \<Rightarrow> cexpr cp" where
  "quantified_atom q ex ts =
     (bumped (bumped (cbind p_variable (\<lambda>v. expect_kw ''IN'' (cbind ex (\<lambda>l. expect_kw ''WHERE'' (cbind ex (\<lambda>p.
       expect_sym '')'' (cret (XQuantified q v l p)))))))))) ts"

definition reduce_atom :: "cexpr cp \<Rightarrow> cexpr cp" where
  "reduce_atom ex ts =
     (bumped (bumped (cbind p_variable (\<lambda>acc. expect_sym ''='' (cbind ex (\<lambda>init. expect_sym '','' (cbind p_variable (\<lambda>v.
       expect_kw ''IN'' (cbind ex (\<lambda>l. expect_sym ''|'' (cbind ex (\<lambda>e. expect_sym '')'' (cret (XReduce acc init v l e)))))))))))))) ts"

text \<open>A possibly namespaced name, and what follows it.\<close>

fun dotted_name :: "string \<Rightarrow> toks \<Rightarrow> string \<times> toks" where
  "dotted_name s (CToken (TkSym d) p # CToken (TkIdent t) q # ts) =
     (if d = ''.'' then dotted_name (s @ ''.'' @ t) ts else (s, CToken (TkSym d) p # CToken (TkIdent t) q # ts))"
| "dotted_name s ts = (s, ts)"

definition call_atom :: "uni_ext \<Rightarrow> nat \<Rightarrow> cexpr cp \<Rightarrow> string \<Rightarrow> cexpr cp" where
  "call_atom x k ex word ts =
     (expect_sym ''(''
       (let name = u_lowercase x word;
            args = (\<lambda>d. cbind (p_args k ex '')'') (\<lambda>es. cret (XFunc name d es)))
        in if_tok (\<lambda>t. name = ''count'' \<and> is_sym ''*'' t)
             (bumped (expect_sym '')'' (cret XCountStar)))
             (eat_kw ''DISTINCT'' (args True) (args False)))) ts"

definition quantifier_of :: "string \<Rightarrow> quantifier option" where
  "quantifier_of w =
     (if w = ''ALL'' then Some QAll else if w = ''ANY'' then Some QAny else if w = ''NONE'' then Some QNone
      else if w = ''SINGLE'' then Some QSingle else None)"

definition name_atom :: "uni_ext \<Rightarrow> nat \<Rightarrow> cexpr cp \<Rightarrow> string \<Rightarrow> cexpr cp" where
  "name_atom x k ex word ts =
     (case dotted_name word (tl ts) of
        (name, rest) \<Rightarrow>
          if rest \<noteq> [] \<and> is_sym ''('' (pk rest) then call_atom x k ex name rest else cbind p_variable (\<lambda>v. cret (XVar v)) ts)"

definition ident_atom :: "uni_ext \<Rightarrow> string list \<Rightarrow> nat \<Rightarrow> cexpr cp \<Rightarrow> string \<Rightarrow> cexpr cp" where
  "ident_atom x src k ex word ts =
     (let w = map to_ascii_uppercase word in
      if w = ''TRUE'' then bumped (cret (XBool True)) ts
      else if w = ''FALSE'' then bumped (cret (XBool False)) ts
      else if w = ''NULL'' then bumped (cret XNull) ts
      else if w = ''CASE'' then case_atom k ex ts
      else if w = ''EXISTS'' \<and> is_sym ''{'' (pk_at 1 ts) then exists_atom src k ex ts
      else if quantifier_of w \<noteq> None \<and> is_sym ''('' (pk_at 1 ts) \<and> is_kw ''IN'' (pk_at 3 ts)
      then quantified_atom (the (quantifier_of w)) ex ts
      else if w = ''REDUCE'' \<and> is_sym ''('' (pk_at 1 ts) then reduce_atom ex ts
      else name_atom x k ex word ts)"

definition paren_atom :: "nat \<Rightarrow> cexpr cp \<Rightarrow> cexpr cp" where
  "paren_atom k ex ts =
     (cbind (try_pattern k ex) (\<lambda>p.
       case p of
         Some p \<Rightarrow> cret (XPattern p)
       | None \<Rightarrow> bumped (cbind ex (\<lambda>e. expect_sym '')'' (cret e))))) ts"

definition p_atom :: "uni_ext \<Rightarrow> string list \<Rightarrow> nat \<Rightarrow> cexpr cp \<Rightarrow> cexpr cp" where
  "p_atom x src k ex ts =
     (case pk ts of
        TkInt i \<Rightarrow> bumped (cret (XInt i)) ts
      | TkFloat f \<Rightarrow> bumped (cret (XFloat f)) ts
      | TkStr s \<Rightarrow> bumped (cret (XStr s)) ts
      | TkParam p \<Rightarrow> bumped (cret (XParam p)) ts
      | TkSym s \<Rightarrow>
          if s = ''('' then paren_atom k ex ts
          else if s = ''['' then list_atom k ex ts
          else if s = ''{'' then map_literal k ex ts
          else cfail ''expected an expression'' ts
      | TkQuoted v \<Rightarrow> bumped (cret (XVar v)) ts
      | TkIdent w \<Rightarrow> ident_atom x src k ex w ts
      | TkEof \<Rightarrow> cfail ''expected an expression'' ts)"

section \<open>Operators\<close>

definition slice_end :: "cexpr cp \<Rightarrow> (cexpr option \<Rightarrow> cexpr) \<Rightarrow> cexpr cp" where
  "slice_end ex f ts =
     (if_tok (is_sym '']'')
       (expect_sym '']'' (cret (f None)))
       (cbind ex (\<lambda>e. expect_sym '']'' (cret (f (Some e)))))) ts"

definition subscript :: "cexpr cp \<Rightarrow> cexpr \<Rightarrow> cexpr cp" where
  "subscript ex e ts =
     (eat_sym ''..'' (slice_end ex (XSlice e None))
       (cbind ex (\<lambda>i. eat_sym ''..'' (slice_end ex (XSlice e (Some i))) (expect_sym '']'' (cret (XIndex e i)))))) ts"

definition takes_labels :: "cexpr \<Rightarrow> bool" where
  "takes_labels e \<longleftrightarrow> (case e of XVar _ \<Rightarrow> True | XProp _ _ \<Rightarrow> True | _ \<Rightarrow> False)"

fun postfix_loop :: "nat \<Rightarrow> nat \<Rightarrow> cexpr cp \<Rightarrow> cexpr \<Rightarrow> cexpr cp" where
  "postfix_loop 0 k ex e ts = None"
| "postfix_loop (Suc j) k ex e ts =
     (eat_sym ''.'' (cbind p_name (\<lambda>key. postfix_loop j k ex (XProp e key)))
     (eat_sym ''['' (cbind (subscript ex e) (postfix_loop j k ex))
     (if_tok (\<lambda>t. is_sym '':'' t \<and> takes_labels e) (cbind (p_labels k) (\<lambda>ls. postfix_loop j k ex (XHasLabels e ls)))
     (if_tok (is_sym ''{'')
        (case e of XVar v \<Rightarrow> cbind (map_projection k ex v) (postfix_loop j k ex) | _ \<Rightarrow> cret e)
        (cret e))))) ts"

definition p_postfix :: "uni_ext \<Rightarrow> string list \<Rightarrow> nat \<Rightarrow> cexpr cp \<Rightarrow> cexpr cp" where
  "p_postfix x src k ex ts = (cbind (p_atom x src k ex) (postfix_loop k k ex)) ts"

definition negate_literal :: "cexpr \<Rightarrow> cexpr" where
  "negate_literal e = (case e of XInt i \<Rightarrow> XInt (- i) | XFloat f \<Rightarrow> XFloat (f64_neg f) | _ \<Rightarrow> XUnary OpNeg e)"

fun p_unary :: "nat \<Rightarrow> cexpr cp \<Rightarrow> cexpr cp" where
  "p_unary 0 pf ts = None"
| "p_unary (Suc j) pf ts =
     (eat_sym ''-'' (cbind (p_unary j pf) (\<lambda>e. cret (negate_literal e)))
     (eat_sym ''+'' (cbind (p_unary j pf) (\<lambda>e. cret (XUnary OpPlus e))) pf)) ts"

text \<open>Left-associative binary operators.\<close>

fun left_loop :: "nat \<Rightarrow> (ctok \<Rightarrow> binop option) \<Rightarrow> cexpr cp \<Rightarrow> cexpr \<Rightarrow> cexpr cp" where
  "left_loop 0 ops p e ts = None"
| "left_loop (Suc j) ops p e ts =
     (case ops (pk ts) of
             None \<Rightarrow> cret e ts
           | Some op \<Rightarrow> cbind p (\<lambda>r. left_loop j ops p (XBinary op e r)) (bump ts))"

definition left_assoc :: "nat \<Rightarrow> (ctok \<Rightarrow> binop option) \<Rightarrow> cexpr cp \<Rightarrow> cexpr cp" where
  "left_assoc k ops p ts = (cbind p (left_loop k ops p)) ts"

definition sym_op :: "(string \<times> binop) list \<Rightarrow> ctok \<Rightarrow> binop option" where
  "sym_op table t = (case t of TkSym s \<Rightarrow> map_of table s | _ \<Rightarrow> None)"

definition kw_op :: "string \<Rightarrow> binop \<Rightarrow> ctok \<Rightarrow> binop option" where
  "kw_op kw op t = (if is_kw kw t then Some op else None)"

definition p_power :: "uni_ext \<Rightarrow> string list \<Rightarrow> nat \<Rightarrow> cexpr cp \<Rightarrow> cexpr cp" where
  "p_power x src k ex ts = (left_assoc k (sym_op [(''^'', OpPow)]) (p_unary k (p_postfix x src k ex))) ts"

definition p_multiplicative :: "uni_ext \<Rightarrow> string list \<Rightarrow> nat \<Rightarrow> cexpr cp \<Rightarrow> cexpr cp" where
  "p_multiplicative x src k ex ts =
     (left_assoc k (sym_op [(''*'', OpMul), (''/'', OpDiv), (''%'', OpMod)]) (p_power x src k ex)) ts"

definition p_additive :: "uni_ext \<Rightarrow> string list \<Rightarrow> nat \<Rightarrow> cexpr cp \<Rightarrow> cexpr cp" where
  "p_additive x src k ex ts = (left_assoc k (sym_op [(''+'', OpAdd), (''-'', OpSub)]) (p_multiplicative x src k ex)) ts"

fun predicate_loop :: "nat \<Rightarrow> cexpr cp \<Rightarrow> cexpr \<Rightarrow> cexpr cp" where
  "predicate_loop 0 ad e ts = None"
| "predicate_loop (Suc j) ad e ts =
     ((let right = (\<lambda>op. cbind ad (\<lambda>r. predicate_loop j ad (XBinary op e r))) in
      if_toks (\<lambda>ts. is_kw ''STARTS'' (pk ts) \<and> is_kw ''WITH'' (pk_at 1 ts)) (bumped (bumped (right OpStartsWith)))
      (if_toks (\<lambda>ts. is_kw ''ENDS'' (pk ts) \<and> is_kw ''WITH'' (pk_at 1 ts)) (bumped (bumped (right OpEndsWith)))
      (eat_kw ''CONTAINS'' (right OpContains)
      (eat_kw ''IN'' (right OpIn)
      (eat_kw ''IS''
         (let is_null = (\<lambda>n. expect_kw ''NULL'' (predicate_loop j ad (XIsNull e n))) in eat_kw ''NOT'' (is_null True) (is_null False))
         (cret e))))))) ts"

definition p_predicate :: "uni_ext \<Rightarrow> string list \<Rightarrow> nat \<Rightarrow> cexpr cp \<Rightarrow> cexpr cp" where
  "p_predicate x src k ex ts = (cbind (p_additive x src k ex) (predicate_loop k (p_additive x src k ex))) ts"

definition comparison_op :: "ctok \<Rightarrow> binop option" where
  "comparison_op = sym_op [(''='', OpEq), (''<>'', OpNe), (''!='', OpNe), (''<'', OpLt), (''<='', OpLe), (''>'', OpGt), (''>='', OpGe), (''=~'', OpRegex)]"

text \<open>The comparisons of a chain, each with the operand before it.\<close>

fun comparison_loop :: "nat \<Rightarrow> cexpr cp \<Rightarrow> cexpr \<Rightarrow> cexpr list cp" where
  "comparison_loop 0 p prev ts = None"
| "comparison_loop (Suc j) p prev ts =
     (case comparison_op (pk ts) of
             None \<Rightarrow> cret [] ts
           | Some op \<Rightarrow> cbind p (\<lambda>r. cbind (comparison_loop j p r) (\<lambda>cs. cret (XBinary op prev r # cs))) (bump ts))"

fun chain_and :: "cexpr \<Rightarrow> cexpr list \<Rightarrow> cexpr" where
  "chain_and first [] = first"
| "chain_and first (c # cs) = fold (\<lambda>d e. XBinary OpAnd e d) cs c"

definition p_comparison :: "uni_ext \<Rightarrow> string list \<Rightarrow> nat \<Rightarrow> cexpr cp \<Rightarrow> cexpr cp" where
  "p_comparison x src k ex ts =
     (cbind (p_predicate x src k ex) (\<lambda>first.
       cbind (comparison_loop k (p_predicate x src k ex) first) (\<lambda>cs. cret (chain_and first cs)))) ts"

fun p_not :: "nat \<Rightarrow> cexpr cp \<Rightarrow> cexpr cp" where
  "p_not 0 cmp ts = None"
| "p_not (Suc j) cmp ts = (eat_kw ''NOT'' (cbind (p_not j cmp) (\<lambda>e. cret (XUnary OpNot e))) cmp) ts"

definition p_or :: "uni_ext \<Rightarrow> string list \<Rightarrow> nat \<Rightarrow> cexpr cp \<Rightarrow> cexpr cp" where
  "p_or x src k ex ts =
     (left_assoc k (kw_op ''OR'' OpOr) (left_assoc k (kw_op ''XOR'' OpXor) (left_assoc k (kw_op ''AND'' OpAnd) (p_not k (p_comparison x src k ex))))) ts"

text \<open>The expression parser: \<open>j\<close> bounds the nesting.\<close>

fun p_expr :: "uni_ext \<Rightarrow> string list \<Rightarrow> nat \<Rightarrow> nat \<Rightarrow> cexpr cp" where
  "p_expr x src k 0 ts = None"
| "p_expr x src k (Suc j) ts = (p_or x src k (p_expr x src k j)) ts"

section \<open>Clauses\<close>

definition p_set_item :: "nat \<Rightarrow> cexpr cp \<Rightarrow> set_item cp" where
  "p_set_item k ex ts =
     ((let body = (\<lambda>v.
        eat_sym ''.'' (cbind p_name (\<lambda>key. expect_sym ''='' (cbind ex (\<lambda>e. cret (SetProperty v key e)))))
        (eat_sym ''+='' (cbind ex (\<lambda>e. cret (SetMerge v e)))
        (eat_sym ''='' (cbind ex (\<lambda>e. cret (SetReplace v e)))
        (if_tok (is_sym '':'') (cbind (p_labels k) (\<lambda>ls. cret (SetLabels v ls)))
           (cfail ''expected .property, =, += or :Label in SET'')))))
      in if_toks (\<lambda>ts. is_sym ''('' (pk ts) \<and> is_sym '')'' (pk_at 2 ts))
           (bumped (cbind p_variable (\<lambda>v. expect_sym '')'' (body v))))
           (cbind p_variable body))) ts"

definition p_set_items :: "nat \<Rightarrow> cexpr cp \<Rightarrow> set_item list cp" where
  "p_set_items k ex ts = (p_commas k (p_set_item k ex)) ts"

definition p_remove_item :: "nat \<Rightarrow> remove_item cp" where
  "p_remove_item k ts =
     (cbind p_variable (\<lambda>v.
       eat_sym ''.'' (cbind p_name (\<lambda>key. cret (RemoveProperty v key)))
       (if_tok (is_sym '':'') (cbind (p_labels k) (\<lambda>ls. cret (RemoveLabels v ls))) (cfail ''expected .property or :Label'')))) ts"

definition p_match :: "nat \<Rightarrow> cexpr cp \<Rightarrow> bool \<Rightarrow> clause cp" where
  "p_match k ex optional ts =
     (cbind (p_parts k ex) (\<lambda>ps. cbind (p_opt_kw ''WHERE'' ex) (\<lambda>wh. cret (CMatch optional ps wh)))) ts"

text \<open>The \<^verbatim>\<open>ON CREATE SET\<close> and \<^verbatim>\<open>ON MATCH SET\<close> parts of a \<^verbatim>\<open>MERGE\<close>, in any order and number.\<close>

fun merge_actions :: "nat \<Rightarrow> nat \<Rightarrow> cexpr cp \<Rightarrow> (set_item list \<times> set_item list) cp" where
  "merge_actions 0 k ex ts = None"
| "merge_actions (Suc j) k ex ts =
     (eat_kw ''ON''
       (eat_kw ''CREATE''
          (expect_kw ''SET'' (cbind (p_set_items k ex) (\<lambda>is1. cbind (merge_actions j k ex) (\<lambda>(c, m). cret (is1 @ c, m)))))
       (eat_kw ''MATCH''
          (expect_kw ''SET'' (cbind (p_set_items k ex) (\<lambda>is1. cbind (merge_actions j k ex) (\<lambda>(c, m). cret (c, is1 @ m)))))
          (cfail ''expected CREATE or MATCH after ON'')))
       (cret ([], []))) ts"

definition p_merge :: "nat \<Rightarrow> cexpr cp \<Rightarrow> clause cp" where
  "p_merge k ex ts =
     (cbind (p_part k ex) (\<lambda>p. cbind (merge_actions k k ex) (\<lambda>(c, m). cret (CMerge p c m)))) ts"

fun procedure_name :: "nat \<Rightarrow> string \<Rightarrow> string cp" where
  "procedure_name 0 s ts = None"
| "procedure_name (Suc j) s ts = (eat_sym ''.'' (cbind p_name (\<lambda>n. procedure_name j (s @ ''.'' @ n))) (cret s)) ts"

definition p_yields :: "nat \<Rightarrow> cexpr cp \<Rightarrow> ((string \<times> string option) list option \<times> cexpr option) cp" where
  "p_yields k ex ts =
     (eat_kw ''YIELD''
       (cbind (eat_sym ''*'' (cret None)
                 (cbind (p_commas k (cbind p_name (\<lambda>col. cbind (p_opt_kw ''AS'' p_variable) (\<lambda>alias. cret (col, alias))))) (\<lambda>items.
                    cret (Some items)))) (\<lambda>items.
        cbind (p_opt_kw ''WHERE'' ex) (\<lambda>wh. cret (items, wh))))
       (cret (None, None))) ts"

definition p_call :: "uni_ext \<Rightarrow> nat \<Rightarrow> cexpr cp \<Rightarrow> clause cp" where
  "p_call x k ex ts =
     (cbind p_name (\<lambda>n. cbind (procedure_name k n) (\<lambda>proc.
     cbind (eat_sym ''('' (p_args k ex '')'') (cret [])) (\<lambda>args.
     cbind (p_yields k ex) (\<lambda>(yields, wh).
       cret (CCall (u_lowercase x proc) args yields wh)))))) ts"

definition p_clause :: "uni_ext \<Rightarrow> string list \<Rightarrow> nat \<Rightarrow> cexpr cp \<Rightarrow> clause cp" where
  "p_clause x src k ex ts =
     (eat_kw ''OPTIONAL'' (expect_kw ''MATCH'' (p_match k ex True))
     (eat_kw ''MATCH'' (p_match k ex False)
     (eat_kw ''UNWIND'' (cbind ex (\<lambda>e. expect_kw ''AS'' (cbind p_variable (\<lambda>v. cret (CUnwind e v)))))
     (eat_kw ''WITH'' (cbind (p_projection src k ex True) (\<lambda>p. cret (CWith p)))
     (eat_kw ''RETURN'' (cbind (p_projection src k ex False) (\<lambda>p. cret (CReturn p)))
     (eat_kw ''CREATE'' (cbind (p_parts k ex) (\<lambda>ps. cret (CCreate ps)))
     (eat_kw ''MERGE'' (p_merge k ex)
     (eat_kw ''SET'' (cbind (p_set_items k ex) (\<lambda>items. cret (CSet items)))
     (eat_kw ''REMOVE'' (cbind (p_commas k (p_remove_item k)) (\<lambda>items. cret (CRemove items)))
     (let del = (\<lambda>detach. cbind (p_commas k ex) (\<lambda>es. cret (CDelete detach es))) in
      eat_kw ''DETACH'' (eat_kw ''DELETE'' (del True) (cfail ''expected DELETE after DETACH''))
     (eat_kw ''DELETE'' (del False)
     (eat_kw ''CALL'' (p_call x k ex)
        (cfail (''expected a clause (MATCH, RETURN, CREATE'' @ map char_of [226 :: nat, 128, 166] @ '')'')))))))))))))) ts"

definition ends_query :: "ctok \<Rightarrow> bool" where
  "ends_query t \<longleftrightarrow> is_kw ''UNION'' t \<or> t = TkEof \<or> is_sym '';'' t \<or> is_sym ''}'' t"

fun p_clauses :: "nat \<Rightarrow> clause cp \<Rightarrow> clause list cp" where
  "p_clauses 0 p ts = None"
| "p_clauses (Suc j) p ts =
     (if_tok ends_query (cret []) (cbind p (\<lambda>c. cbind (p_clauses j p) (\<lambda>cs. cret (c # cs))))) ts"

definition p_single :: "uni_ext \<Rightarrow> string list \<Rightarrow> nat \<Rightarrow> cexpr cp \<Rightarrow> single_query cp" where
  "p_single x src k ex ts =
     (cbind (p_clauses k (p_clause x src k ex)) (\<lambda>cs. if cs = [] then cfail ''expected a clause'' else cret \<lparr>sq_clauses = cs\<rparr>)) ts"

fun p_unions :: "nat \<Rightarrow> single_query cp \<Rightarrow> (bool \<times> single_query) list cp" where
  "p_unions 0 p ts = None"
| "p_unions (Suc j) p ts =
     (eat_kw ''UNION''
       (let more = (\<lambda>all. cbind p (\<lambda>q. cbind (p_unions j p) (\<lambda>r. cret ((all, q) # r)))) in eat_kw ''ALL'' (more True) (more False))
       (cret [])) ts"

definition p_query :: "uni_ext \<Rightarrow> string list \<Rightarrow> nat \<Rightarrow> cexpr cp \<Rightarrow> cy_query cp" where
  "p_query x src k ex ts =
     (cbind (p_single x src k ex) (\<lambda>q. cbind (p_unions k (p_single x src k ex)) (\<lambda>r.
       cret \<lparr>cq_parts = q # map snd r, cq_union_all = map fst r\<rparr>))) ts"

definition parse_ctokens :: "uni_ext \<Rightarrow> string list \<Rightarrow> toks \<Rightarrow> (cypher_error + cy_query) option" where
  "parse_ctokens x src ts =
     (let k = length ts;
          finish = (\<lambda>q. if_tok (\<lambda>t. t = TkEof) (cret q) (cfail ''unexpected input after the end of the query''))
      in map_option (map_sum (\<lambda>e. e) fst)
           (cbind (p_query x src k (p_expr x src k k)) (\<lambda>q. eat_sym '';'' (finish q) (finish q)) ts))"

definition parse_cypher :: "uni_ext \<Rightarrow> string \<Rightarrow> (cypher_error + cy_query) option" where
  "parse_cypher x s =
     (let src = utf8_chars s in
      case cy_tokenize x src of
        Inl e \<Rightarrow> Some (Inl e)
      | Inr ts \<Rightarrow> parse_ctokens x src ts)"

end
