(* ===== verification/Cypher_Lexer_Laws.thy ===== *)
theory Cypher_Lexer_Laws
  imports Cypher_Lexer
begin

text \<open>
  The tokenizer ends: every round consumes a character, so the number of characters is enough fuel, and what it returns is a list of tokens that
  ends with \<open>TkEof\<close>, or a syntax error, at positions of the text.
\<close>

section \<open>What a token consumes\<close>

text \<open>A token leaves less than it started with; an error is a syntax error at a position of the text.\<close>

definition lexed :: "nat \<Rightarrow> nat \<Rightarrow> cypher_error + 'a \<times> string list \<Rightarrow> bool" where
  "lexed n k r \<longleftrightarrow>
     (case r of
        Inl e \<Rightarrow> \<exists>pos msg. e = CySyntax pos msg \<and> pos \<le> n
      | Inr (t, cs) \<Rightarrow> length cs < k)"

lemma lexed_err [simp]: "pos \<le> n \<Longrightarrow> lexed n k (syntax_err pos msg)"
  by (simp add: lexed_def syntax_err_def)

lemma lexed_Inr [simp]: "lexed n k (Inr (t, cs)) \<longleftrightarrow> length cs < k"
  by (simp add: lexed_def)

lemma lexed_less: "lexed n k r \<Longrightarrow> k \<le> m \<Longrightarrow> lexed n m r"
  by (auto simp: lexed_def split: sum.splits)

lemma drop_while_less: "length (dropWhile P cs) < Suc (length cs)"
  by (simp add: length_dropWhile_le le_imp_less_Suc)

lemma quoted_name_less: "quoted_name cs s = Some (t, r) \<Longrightarrow> length r \<le> length cs"
  by (induction cs s rule: quoted_name.induct) (fastforce split: if_splits list.splits)+

lemma block_end_less: "length (block_end cs) \<le> length cs"
  by (induction cs rule: block_end.induct) auto

lemma radix_lexed: "pos \<le> n \<Longrightarrow> lexed n (Suc (length cs)) (radix_number pos radix what cs)"
  by (auto simp: radix_number_def drop_while_less split: option.splits)

lemma fraction_less: "fraction_part cs = (f, r) \<Longrightarrow> length r \<le> length cs \<and> (f \<noteq> [] \<longrightarrow> length r < length cs)"
proof -
  assume f: "fraction_part cs = (f, r)"
  have d: "length (dropWhile is_digit_char ds) \<le> Suc (Suc (length ds))" for ds using length_dropWhile_le [of is_digit_char ds] by simp
  show ?thesis using f d by (auto simp: fraction_part_def less_Suc_eq_le length_dropWhile_le intro: le_SucI split: list.splits if_splits)
qed

lemma exponent_less: "exponent_part cs = (f, r) \<Longrightarrow> length r \<le> length cs"
proof -
  assume e: "exponent_part cs = (f, r)"
  have d: "length (dropWhile is_digit_char ds) \<le> Suc (Suc (length ds))" "length (dropWhile is_digit_char ds) \<le> Suc (Suc (Suc (length ds)))" for ds
    using length_dropWhile_le [of is_digit_char ds] by simp_all
  show ?thesis using e d by (auto simp: exponent_part_def Let_def split: list.splits if_splits)
qed

lemma decimal_lexed:
  assumes "pos \<le> n" "is_digit_char c \<or> (c = ''.'' \<and> r \<noteq> [] \<and> is_digit_char (hd r))"
  shows "lexed n (length (c # r)) (decimal_number pos (c # r))"
proof -
  obtain f r1 where f: "fraction_part (dropWhile is_digit_char (c # r)) = (f, r1)" by (cases "fraction_part (dropWhile is_digit_char (c # r))")
  obtain e r2 where e: "exponent_part r1 = (e, r2)" by (cases "exponent_part r1")
  have "length r1 < length (c # r)"
  proof (cases "is_digit_char c")
    case True
    then show ?thesis using fraction_less [OF f] length_dropWhile_le [of is_digit_char r] by simp
  next
    case False
    then obtain d r' where "c = ''.''" "r = d # r'" "is_digit_char d" using assms(2) by (cases r) auto
    then have "f \<noteq> []" using f False by (auto simp: fraction_part_def)
    then show ?thesis using fraction_less [OF f] False by simp
  qed
  then have "length r2 < length (c # r)" using exponent_less [OF e] by simp
  then show ?thesis using assms(1) unfolding decimal_number_def Let_def f e prod.case by (simp split: option.splits)
qed

lemma number_lexed:
  assumes "pos \<le> n" "is_digit_char c \<or> (c = ''.'' \<and> r \<noteq> [] \<and> is_digit_char (hd r))"
  shows "lexed n (length (c # r)) (number pos (c # r))"
  using decimal_lexed [OF assms] lexed_less [OF radix_lexed [OF assms(1)]] by (cases r) (auto simp: number_def)

lemma string_lexed: "start \<le> n \<Longrightarrow> length cs \<le> m \<Longrightarrow> lexed n (Suc m) (string_body n start quote k cs s)"
proof (induction k arbitrary: cs s)
  case (Suc k)
  show ?case
  proof (cases cs)
    case (Cons c r)
    note ih = Suc.IH [OF Suc.prems(1)]
    show ?thesis
    proof (cases r)
      case (Cons e r')
      then have "length (drop w r') \<le> m" for w using Suc.prems(2) \<open>cs = c # r\<close> by simp
      then show ?thesis using Suc.prems ih Cons \<open>cs = c # r\<close> by (simp add: Let_def split: option.splits)
    qed (use Cons Suc.prems ih in simp)
  qed (use Suc.prems in simp)
qed simp

lemma sym_shorter: "List.find P SYMS = Some s \<Longrightarrow> 0 < length s"
  by (auto simp: find_Some_iff SYMS_def nth_Cons' split: if_splits)

lemma next_lexed: "lexed n (length (c # r)) (cy_next_token x n c r)"
proof -
  have w: "is_alphabetic x c \<or> c = ''_'' \<Longrightarrow> is_word_char x c" by (auto simp: is_word_char_def is_alphanumeric_def)
  have p: "n - length (c # r) \<le> n" by simp
  have q: "lexed n (Suc (length r)) (case quoted_name r [] of Some (s, r') \<Rightarrow> Inr (TkQuoted s, r') | None \<Rightarrow> syntax_err (n - length (c # r)) msg)" for msg
    by (auto dest: quoted_name_less simp: less_Suc_eq_le split: option.splits)
  have st: "lexed n (Suc (length r)) (rbind (string_body n (n - length (c # r)) c (Suc (length r)) r []) (\<lambda>(s, r'). Inr (TkStr s, r')))"
    using string_lexed [OF p order_refl, of r c "Suc (length r)" "[]"]
    by (cases "string_body n (n - length (c # r)) c (Suc (length r)) r []") (auto simp: lexed_def)
  have sy: "length (drop (length s) (c # r)) < Suc (length r)" if "List.find P SYMS = Some s" for P s
    using sym_shorter [OF that] by simp
  show ?thesis
    using w q st sy number_lexed [OF p, of c r] drop_while_less length_dropWhile_le [of _ r]
    unfolding cy_next_token_def Let_def by (simp add: less_Suc_eq_le split: option.splits)
qed

section \<open>The loop\<close>

definition tokens_of :: "nat \<Rightarrow> cypher_error + ctoken list \<Rightarrow> bool" where
  "tokens_of n r \<longleftrightarrow>
     (case r of
        Inl e \<Rightarrow> \<exists>pos msg. e = CySyntax pos msg \<and> pos \<le> n
      | Inr ts \<Rightarrow> ts \<noteq> [] \<and> ct_tok (last ts) = TkEof \<and> (\<forall>t\<in>set ts. ct_pos t \<le> n))"

lemma lex_loop_tokens: "length cs \<le> k \<Longrightarrow> tokens_of n (lex_loop x n k cs)"
proof (induction k arbitrary: cs)
  case (Suc k)
  show ?case
  proof (cases cs)
    case (Cons c r)
    then have r: "length r \<le> k" using Suc.prems by simp
    have line: "length (dropWhile (\<lambda>d. d \<noteq> [CHR 0x0A]) (c # r)) \<le> k" if "c = ''/''"
      using length_dropWhile_le [of "\<lambda>d. d \<noteq> [CHR 0x0A]" r] r that by simp
    have block: "length (block_end (tl r)) \<le> k" using block_end_less [of "tl r"] r by simp
    have tok: "tokens_of n (rbind (cy_next_token x n c r) (\<lambda>(t, r'). rbind (lex_loop x n k r') (\<lambda>ts. Inr (CToken t (n - length (c # r)) # ts))))"
    proof (cases "cy_next_token x n c r")
      case (Inl e)
      then show ?thesis using next_lexed [of n c r x] by (simp add: lexed_def tokens_of_def)
    next
      case (Inr y)
      obtain t r' where y: "y = (t, r')" by (cases y)
      then have "length r' \<le> k" using next_lexed [of n c r x] Inr r by simp
      from Suc.IH [OF this] show ?thesis using Inr y by (cases "lex_loop x n k r'") (auto simp: tokens_of_def)
    qed
    show ?thesis using Cons Suc.IH r line block tok by auto
  qed (simp add: tokens_of_def)
qed (simp add: tokens_of_def)

lemma tokenize_tokens: "tokens_of (length cs) (cy_tokenize x cs)"
  unfolding cy_tokenize_def by (rule lex_loop_tokens) simp

end
