(* ===== verification/Cypher_Parser_Laws.thy ===== *)
theory Cypher_Parser_Laws
  imports Cypher_Parser Cypher_Lexer_Laws
begin

text \<open>
  Parsing ends: on a stream of \<open>n\<close> tokens that ends with \<open>TkEof\<close> every parser whose fuel is at least \<open>n\<close> returns a result or an error. A parser is
  \<open>good n c\<close> when it does so on streams of up to \<open>n\<close> tokens and consumes at least \<open>c\<close> of them when it succeeds; the rules of the
  combinators compute \<open>c\<close>.
\<close>

section \<open>Streams\<close>

definition stream :: "toks \<Rightarrow> bool" where
  "stream ts \<longleftrightarrow> ts \<noteq> [] \<and> ct_tok (last ts) = TkEof"

lemma stream_bump: "stream ts \<Longrightarrow> stream (bump ts) \<and> length (bump ts) \<le> length ts"
  by (cases ts) (auto simp: stream_def bump_def)

lemma stream_bump_less: "stream ts \<Longrightarrow> pk ts \<noteq> TkEof \<Longrightarrow> length (bump ts) < length ts"
proof -
  assume s: "stream ts" and p: "pk ts \<noteq> TkEof"
  then obtain t ts' where t: "ts = t # ts'" by (cases ts) (auto simp: stream_def)
  have "ts' \<noteq> []" using s p by (auto simp: t stream_def pk_def)
  then show ?thesis by (cases ts') (auto simp: t bump_def)
qed

lemma kw_not_eof: "is_kw kw t \<Longrightarrow> t \<noteq> TkEof"
  by (auto simp: is_kw_def)

lemma sym_not_eof: "is_sym s t \<Longrightarrow> t \<noteq> TkEof"
  by (auto simp: is_sym_def)

lemma variable_not_eof: "is_variable t \<Longrightarrow> t \<noteq> TkEof"
  by (auto simp: is_variable_def)

section \<open>Combinators\<close>

text \<open>How a parser ends on a stream: with an error at one of its tokens, or with at least \<open>c\<close> tokens consumed.\<close>

definition ends :: "nat \<Rightarrow> toks \<Rightarrow> cypher_error + 'a \<times> toks \<Rightarrow> bool" where
  "ends c ts r =
     (case r of
        Inl e \<Rightarrow> \<exists>t msg. t \<in> set ts \<and> e = CySyntax (ct_pos t) msg
      | Inr (a, ts') \<Rightarrow> stream ts' \<and> length ts' + c \<le> length ts \<and> set ts' \<subseteq> set ts)"

lemma ends_Inl [simp]: "ends c ts (Inl e) \<longleftrightarrow> (\<exists>t msg. t \<in> set ts \<and> e = CySyntax (ct_pos t) msg)"
  by (simp add: ends_def)

lemma ends_Inr [simp]: "ends c ts (Inr (a, ts')) \<longleftrightarrow> stream ts' \<and> length ts' + c \<le> length ts \<and> set ts' \<subseteq> set ts"
  by (simp add: ends_def)

lemma ends_less: "ends c ts r \<Longrightarrow> d \<le> c \<Longrightarrow> ends d ts r"
  by (auto simp: ends_def split: sum.splits)

lemma ends_later: "ends c ts1 r \<Longrightarrow> length ts1 + b \<le> length ts \<Longrightarrow> set ts1 \<subseteq> set ts \<Longrightarrow> ends (b + c) ts r"
  by (fastforce simp: ends_def split: sum.splits)

lemma bump_subset: "set (bump ts) \<subseteq> set ts"
  by (cases ts) (auto simp: bump_def)

lemma bump_member: "t \<in> set (bump ts) \<Longrightarrow> t \<in> set ts"
  using bump_subset by blast

lemma parse_err_at: "stream ts \<Longrightarrow> \<exists>t msg'. t \<in> set ts \<and> parse_err msg ts = CySyntax (ct_pos t) msg'"
  by (intro exI [of _ "hd ts"]) (simp add: parse_err_def pk_pos_def stream_def)

lemma ends_err: "stream ts1 \<Longrightarrow> set ts1 \<subseteq> set ts \<Longrightarrow> ends c ts (Inl (parse_err msg ts1))"
  using parse_err_at [of ts1 msg] by (auto simp: ends_def)

definition good :: "nat \<Rightarrow> nat \<Rightarrow> 'a cp \<Rightarrow> bool" where
  "good n c p \<longleftrightarrow> (\<forall>ts. stream ts \<longrightarrow> length ts \<le> n \<longrightarrow> (\<exists>r. p ts = Some r \<and> ends c ts r))"

lemma goodI: "(\<And>ts. stream ts \<Longrightarrow> length ts \<le> n \<Longrightarrow> \<exists>r. p ts = Some r \<and> ends c ts r) \<Longrightarrow> good n c p"
  by (simp add: good_def)

lemma goodE: "good n c p \<Longrightarrow> stream ts \<Longrightarrow> length ts \<le> n \<Longrightarrow> (\<And>r. p ts = Some r \<Longrightarrow> ends c ts r \<Longrightarrow> thesis) \<Longrightarrow> thesis"
  unfolding good_def by blast

lemma good_mono: "good n c p \<Longrightarrow> m \<le> n \<Longrightarrow> good m c p"
  unfolding good_def using order_trans by blast

lemma good_less: "good n c p \<Longrightarrow> d \<le> c \<Longrightarrow> good n d p"
  unfolding good_def using ends_less by blast

lemma good_0: "good 0 c p"
  by (simp add: good_def stream_def)

lemma good_cret: "good n 0 (cret a)"
  by (simp add: good_def cret_def)

lemma good_cfail: "good n c (cfail msg)"
  using parse_err_at by (fastforce simp: good_def cfail_def)

lemma good_cbind:
  assumes p: "good n c p" and f: "\<And>a. good (n - c) d (f a)"
  shows "good n (c + d) (cbind p f)"
proof (rule goodI)
  fix ts assume s: "stream ts" "length ts \<le> n"
  from p s obtain r where r: "p ts = Some r" "ends c ts r" by (rule goodE)
  show "\<exists>r. cbind p f ts = Some r \<and> ends (c + d) ts r"
  proof (cases r)
    case (Inl e)
    then show ?thesis using r by (auto simp: cbind_def)
  next
    case (Inr x)
    obtain a ts1 where x: "x = (a, ts1)" by (cases x) auto
    have t: "stream ts1" "length ts1 + c \<le> length ts" "set ts1 \<subseteq> set ts" using r(2) Inr x by auto
    then have "length ts1 \<le> n - c" using s(2) by simp
    with f [of a] t(1) obtain r' where "f a ts1 = Some r'" "ends d ts1 r'" by (rule goodE)
    then show ?thesis using r(1) Inr x ends_later [OF _ t(2,3)] by (auto simp: cbind_def)
  qed
qed

lemma good_after:
  assumes p: "good (n - 1) c p" and ts: "stream ts" "length ts \<le> n" "pk ts \<noteq> TkEof"
  shows "\<exists>r. p (bump ts) = Some r \<and> ends (Suc c) ts r"
proof -
  have b: "stream (bump ts)" "length (bump ts) < length ts" using stream_bump stream_bump_less ts by blast+
  then have "length (bump ts) \<le> n - 1" using ts(2) by simp
  with p b(1) obtain r where "p (bump ts) = Some r" "ends c (bump ts) r" by (rule goodE)
  then show ?thesis using ends_later [of c "bump ts" r 1 ts] b(2) bump_subset by auto
qed

lemma good_keep:
  assumes "good n d q" "stream ts" "length ts \<le> n" "e \<le> d"
  shows "\<exists>r. q ts = Some r \<and> ends e ts r"
  using good_less [OF assms(1,4)] assms(2,3) unfolding good_def by blast

text \<open>A choice on the next token, which the first branch consumes.\<close>

lemma good_choice:
  assumes "good (n - 1) c p" "good n d q" "\<And>ts. P ts \<Longrightarrow> pk ts \<noteq> TkEof"
  shows "good n (min (Suc c) d) (\<lambda>ts. if P ts then p (bump ts) else q ts)"
proof (rule goodI)
  fix ts assume s: "stream ts" "length ts \<le> n"
  show "\<exists>r. (if P ts then p (bump ts) else q ts) = Some r \<and> ends (min (Suc c) d) ts r"
  proof (cases "P ts")
    case True
    from good_after [OF assms(1) s assms(3) [OF True]] True ends_less [of "Suc c" ts] show ?thesis by fastforce
  next
    case False
    from good_keep [OF assms(2) s, of "min (Suc c) d"] False show ?thesis by simp
  qed
qed

lemma good_eat_kw: "good (n - 1) c p \<Longrightarrow> good n d q \<Longrightarrow> good n (min (Suc c) d) (eat_kw kw p q)"
  using good_choice [of n c p d q "\<lambda>ts. is_kw kw (pk ts)"] kw_not_eof by (simp add: eat_kw_def [abs_def])

lemma good_eat_sym: "good (n - 1) c p \<Longrightarrow> good n d q \<Longrightarrow> good n (min (Suc c) d) (eat_sym s p q)"
  using good_choice [of n c p d q "\<lambda>ts. is_sym s (pk ts)"] sym_not_eof by (simp add: eat_sym_def [abs_def])

lemma good_expect_kw: "good (n - 1) c p \<Longrightarrow> good n (Suc c) (expect_kw kw p)"
  using good_eat_kw [OF _ good_cfail, of n c p "Suc c" kw] by (simp add: expect_kw_def [abs_def])

lemma good_expect_sym: "good (n - 1) c p \<Longrightarrow> good n (Suc c) (expect_sym s p)"
  using good_eat_sym [OF _ good_cfail, of n c p "Suc c" s] by (simp add: expect_sym_def [abs_def])

lemma good_if_toks: "good n c p \<Longrightarrow> good n d q \<Longrightarrow> good n (min c d) (if_toks P p q)"
  using good_keep [of n c p _ "min c d"] good_keep [of n d q _ "min c d"] by (simp add: good_def if_toks_def)

lemma good_if_tok: "good n c p \<Longrightarrow> good n d q \<Longrightarrow> good n (min c d) (if_tok P p q)"
  using good_if_toks [of n c p d q "\<lambda>ts. P (pk ts)"] by (simp add: good_def if_toks_def if_tok_def)

lemma good_if: "good n c p \<Longrightarrow> good n d q \<Longrightarrow> good n (min c d) (if b then p else q)"
  using good_less [of n c p "min c d"] good_less [of n d q "min c d"] by simp

lemma good_bumped: "good n c p \<Longrightarrow> good n c (bumped p)"
proof (rule goodI)
  fix ts assume p: "good n c p" and s: "stream ts" "length ts \<le> n"
  have b: "stream (bump ts)" "length (bump ts) \<le> length ts" using stream_bump s by blast+
  then have "length (bump ts) \<le> n" using s(2) by simp
  with p b(1) obtain r where "p (bump ts) = Some r" "ends c (bump ts) r" by (rule goodE)
  then show "\<exists>r. bumped p ts = Some r \<and> ends c ts r"
    using ends_later [of c "bump ts" r 0 ts] b(2) bump_subset by (auto simp: bumped_def)
qed

lemma good_if_bumped:
  "good (n - 1) c p \<Longrightarrow> good n d q \<Longrightarrow> (\<And>ts. P ts \<Longrightarrow> pk ts \<noteq> TkEof) \<Longrightarrow> good n (min (Suc c) d) (if_toks P (bumped p) q)"
  using good_choice [of n c p d q P] unfolding if_toks_def [abs_def] bumped_def by simp

lemma good_if_tok_bumped:
  "good (n - 1) c p \<Longrightarrow> good n d q \<Longrightarrow> (\<And>t. P t \<Longrightarrow> t \<noteq> TkEof) \<Longrightarrow> good n (min (Suc c) d) (if_tok P (bumped p) q)"
  using good_choice [of n c p d q "\<lambda>ts. P (pk ts)"] unfolding if_tok_def [abs_def] bumped_def by simp

lemma good_name: "good n 1 p_name"
proof (rule goodI)
  fix ts assume s: "stream ts" "length ts \<le> n"
  then show "\<exists>r. p_name ts = Some r \<and> ends 1 ts r"
    using stream_bump [OF s(1)] stream_bump_less [OF s(1)] parse_err_at [OF s(1)]
    by (auto simp: p_name_def cret_def cfail_def bump_subset bump_member split: ctok.splits)
qed

lemma good_variable: "good n 1 p_variable"
proof (rule goodI)
  fix ts assume s: "stream ts" "length ts \<le> n"
  then show "\<exists>r. p_variable ts = Some r \<and> ends 1 ts r"
    using stream_bump [OF s(1)] stream_bump_less [OF s(1)] parse_err_at [OF s(1)]
    by (auto simp: p_variable_def cret_def cfail_def bump_subset bump_member split: ctok.splits)
qed

lemmas good_rules = good_cret good_cfail good_cbind good_eat_kw good_eat_sym good_expect_kw good_expect_sym good_name good_variable

section \<open>Loops\<close>

text \<open>
  A claim about what a parser consumes follows from what the rules compute: \<open>good_less\<close> leaves the comparison, and
  the side conditions are bounds on the tokens left.
\<close>

lemma good_commas: "good n 1 p \<Longrightarrow> n \<le> k \<Longrightarrow> good n 1 (p_commas k p)"
proof (induction k arbitrary: n)
  case 0
  then show ?case by (simp add: good_0)
next
  case (Suc k)
  have "good (n - 1 - 1) 1 (p_commas k p)" using Suc by (intro Suc.IH good_mono [OF Suc.prems(1)]) simp_all
  then have "good n (1 + min (Suc (1 + 0)) 0) (cbind p (\<lambda>a. eat_sym '','' (cbind (p_commas k p) (\<lambda>as. cret (a # as))) (cret [a])))"
    by (intro good_rules Suc.prems(1))
  then show ?case by simp
qed

lemma good_opt_kw: "good (n - 1) c p \<Longrightarrow> good n 0 (p_opt_kw kw p)"
proof -
  assume "good (n - 1) c p"
  then have "good n (min (Suc (c + 0)) 0) (eat_kw kw (cbind p (\<lambda>a. cret (Some a))) (cret None))" by (intro good_rules)
  then show ?thesis by (simp add: p_opt_kw_def [abs_def])
qed

lemma good_labels: "n \<le> k \<Longrightarrow> good n 0 (p_labels k)"
proof (induction k arbitrary: n)
  case (Suc k)
  have "good (n - 1 - 1) 0 (p_labels k)" using Suc.prems by (intro Suc.IH) simp
  then have "good n (min (Suc (1 + (0 + 0))) 0) (eat_sym '':'' (cbind p_name (\<lambda>l. cbind (p_labels k) (\<lambda>ls. cret (l # ls)))) (cret []))"
    by (intro good_rules)
  then show ?case by simp
qed (simp add: good_0)

lemma good_more_types: "n \<le> k \<Longrightarrow> good n 0 (more_types k)"
proof (induction k arbitrary: n)
  case (Suc k)
  have r: "good m (1 + (0 + 0)) (cbind p_name (\<lambda>t. cbind (more_types k) (\<lambda>ts. cret (t # ts))))" if "m \<le> n - 1" for m
    using Suc.prems that by (intro good_rules Suc.IH) simp
  have "good n (min (Suc (min (Suc (1 + (0 + 0))) (1 + (0 + 0)))) 0)
      (eat_sym ''|'' (let rest = cbind p_name (\<lambda>t. cbind (more_types k) (\<lambda>ts. cret (t # ts))) in eat_sym '':'' rest rest) (cret []))"
    unfolding Let_def by (intro good_rules r) simp_all
  then show ?case by simp
qed (simp add: good_0)

section \<open>Patterns\<close>

text \<open>The parser of expressions, on the tokens left after the first one was consumed.\<close>

lemma good_map_literal: "good N 1 ex \<Longrightarrow> n \<le> Suc N \<Longrightarrow> n \<le> k \<Longrightarrow> good n 1 (map_literal k ex)"
proof -
  assume ex: "good N 1 ex" and n: "n \<le> Suc N" "n \<le> k"
  have "good (n - 1) 1 (cbind p_name (\<lambda>key. expect_sym '':'' (cbind ex (\<lambda>e. cret (key, e)))))"
    by (rule good_less, (rule good_rules good_mono [OF ex] | (use n in simp))+)
  from good_commas [OF this, of k] have c: "good (n - 1) 1 (p_commas k (cbind p_name (\<lambda>key. expect_sym '':'' (cbind ex (\<lambda>e. cret (key, e))))))"
    using n by simp
  show ?thesis unfolding map_literal_def [abs_def]
    by (rule good_less, (rule good_rules good_if_tok c | simp)+)
qed

text \<open>What a parser does on one stream.\<close>

definition fine :: "nat \<Rightarrow> 'a cp \<Rightarrow> toks \<Rightarrow> bool" where
  "fine c p ts \<longleftrightarrow> (\<exists>r. p ts = Some r \<and> ends c ts r)"

lemma good_fine: "good n c p \<longleftrightarrow> (\<forall>ts. stream ts \<longrightarrow> length ts \<le> n \<longrightarrow> fine c p ts)"
  by (simp add: good_def fine_def)

lemma fineD: "good n c p \<Longrightarrow> stream ts \<Longrightarrow> length ts \<le> n \<Longrightarrow> d \<le> c \<Longrightarrow> fine d p ts"
  using good_less [of n c p d] by (simp add: good_fine)

lemma fine_bumped: "good (n - 1) c p \<Longrightarrow> stream ts \<Longrightarrow> length ts \<le> n \<Longrightarrow> pk ts \<noteq> TkEof \<Longrightarrow> fine (Suc c) (bumped p) ts"
  using good_after [of n c p ts] by (simp add: fine_def bumped_def)

lemma fine_cret_bump: "stream ts \<Longrightarrow> pk ts \<noteq> TkEof \<Longrightarrow> fine 1 (bumped (cret a)) ts"
  using fine_bumped [OF good_cret, of ts "length ts" a] by simp

lemma good_fail: "good n 9 (cfail msg)"
  by (rule good_cfail)

text \<open>A parser that also looks at the stream it starts on.\<close>

lemma good_state: "(\<And>t. good n c (q t)) \<Longrightarrow> good n c (\<lambda>ts. q ts ts)"
  by (simp add: good_def)

lemma good_props: "good N 1 ex \<Longrightarrow> n \<le> Suc N \<Longrightarrow> n \<le> k \<Longrightarrow> good n 0 (p_props k ex)"
proof -
  assume ex: "good N 1 ex" and n: "n \<le> Suc N" "n \<le> k"
  define q :: "cexpr option cp" where "q = (\<lambda>ts. case pk ts of TkParam p \<Rightarrow> cret (Some (XParam p)) (bump ts) | _ \<Rightarrow> cret None ts)"
  have q: "good n 0 q"
  proof (rule goodI)
    fix ts assume "stream ts"
    then show "\<exists>r. q ts = Some r \<and> ends 0 ts r" by (cases "pk ts") (simp_all add: q_def cret_def stream_bump bump_subset)
  qed
  have p: "p_props k ex = if_tok (is_sym ''{'') (cbind (map_literal k ex) (\<lambda>e. cret (Some e))) q"
    by (rule ext) (simp add: p_props_def if_tok_def q_def)
  show ?thesis unfolding p
    by (rule good_less, (rule good_rules good_if_tok q good_map_literal [OF ex n] | simp)+)
qed

lemma good_opt_var: "good n 0 p_opt_var"
  unfolding p_opt_var_def [abs_def] by (rule good_less, (rule good_rules good_if_tok | simp)+)

lemma good_node: "good N 1 ex \<Longrightarrow> n \<le> Suc N \<Longrightarrow> n \<le> k \<Longrightarrow> good n 1 (p_node k ex)"
proof -
  assume ex: "good N 1 ex" and n: "n \<le> Suc N" "n \<le> k"
  show ?thesis unfolding p_node_def [abs_def]
    by (rule good_less, (rule good_rules good_opt_var good_labels good_props [OF ex] | (use n in simp))+)
qed

lemma good_rel_types: "n \<le> k \<Longrightarrow> good n 0 (rel_types k)"
  unfolding rel_types_def [abs_def] by (rule good_less, (rule good_rules good_more_types | simp)+)

lemma good_hops: "good n 0 p_hops"
proof (rule goodI)
  fix ts assume s: "stream ts"
  have e: "ends 0 ts (Inl (parse_err msg (bump ts)) :: cypher_error + nat option \<times> toks)" for msg
    using stream_bump [OF s] by (simp add: ends_err bump_subset del: ends_Inl)
  then show "\<exists>r. p_hops ts = Some r \<and> ends 0 ts r"
    using stream_bump [OF s] s by (cases "pk ts") (simp_all add: p_hops_def cret_def cfail_def bump_subset e del: ends_Inl)
qed

lemma good_rel_length: "good n 0 rel_length"
  unfolding rel_length_def [abs_def] by (rule good_less, (rule good_rules good_hops | simp)+)

lemma good_rel: "good N 1 ex \<Longrightarrow> n \<le> Suc N \<Longrightarrow> n \<le> k \<Longrightarrow> good n 1 (p_rel k ex)"
proof -
  assume ex: "good N 1 ex" and n: "n \<le> Suc N" "n \<le> k"
  show ?thesis unfolding p_rel_def [abs_def] Let_def
    by (rule good_less, (rule good_rules good_opt_var good_rel_types good_rel_length good_props [OF ex] | (use n in simp))+)
qed

lemma good_chain: "good N 1 ex \<Longrightarrow> n \<le> Suc N \<Longrightarrow> n \<le> k \<Longrightarrow> n \<le> j \<Longrightarrow> good n 0 (p_chain j k ex)"
proof (induction j arbitrary: n)
  case (Suc j)
  note ex = Suc.prems(1) and n = Suc.prems(2-4)
  have c: "m \<le> n - 1 \<Longrightarrow> good m 0 (p_chain j k ex)" for m using n by (intro Suc.IH ex) simp_all
  have "good n 0 (if_toks at_rel (cbind (p_rel k ex) (\<lambda>r. cbind (p_node k ex) (\<lambda>n. cbind (p_chain j k ex) (\<lambda>c. cret ((r, n) # c))))) (cret []))"
    by (rule good_less, (rule good_rules good_if_toks good_rel [OF ex] good_node [OF ex] c | (use n in simp))+)
  then show ?case by simp
qed (simp add: good_0)

lemma two_parens: "is_sym ''('' (pk ts) \<and> is_sym ''('' (pk_at 1 ts) \<Longrightarrow> pk ts \<noteq> TkEof"
  using sym_not_eof by blast

lemma good_element: "good N 1 ex \<Longrightarrow> n \<le> Suc N \<Longrightarrow> n \<le> k \<Longrightarrow> n \<le> j \<Longrightarrow> good n 1 (p_element j k ex)"
proof (induction j arbitrary: n)
  case (Suc j)
  note ex = Suc.prems(1) and n = Suc.prems(2-4)
  have c: "m \<le> n - 1 \<Longrightarrow> good m 1 (p_element j k ex)" for m using n by (intro Suc.IH ex) simp_all
  have "good n 1 (if_toks (\<lambda>ts. is_sym ''('' (pk ts) \<and> is_sym ''('' (pk_at 1 ts))
       (bumped (cbind (p_element j k ex) (\<lambda>e. expect_sym '')'' (cret e))))
       (cbind (p_node k ex) (\<lambda>n. cbind (p_chain k k ex) (\<lambda>c. cret (PatternElement n c)))))"
    by (rule good_less, (rule good_rules good_if_bumped good_node [OF ex] good_chain [OF ex] c two_parens | assumption | (use n in simp))+)
  then show ?case by simp
qed (simp add: good_0)

lemma good_part: "good N 1 ex \<Longrightarrow> n \<le> Suc N \<Longrightarrow> n \<le> k \<Longrightarrow> good n 1 (p_part k ex)"
proof -
  assume ex: "good N 1 ex" and n: "n \<le> Suc N" "n \<le> k"
  show ?thesis unfolding p_part_def [abs_def] Let_def
    by (rule good_less, (rule good_rules good_if_toks good_bumped good_element [OF ex] | (use n in simp))+)
qed

lemma good_parts: "good N 1 ex \<Longrightarrow> n \<le> Suc N \<Longrightarrow> n \<le> k \<Longrightarrow> good n 1 (p_parts k ex)"
  unfolding p_parts_def [abs_def] by (intro good_commas good_part)

lemma good_try_pattern: "good N 1 ex \<Longrightarrow> n \<le> Suc N \<Longrightarrow> n \<le> k \<Longrightarrow> good n 0 (try_pattern k ex)"
proof -
  assume ex: "good N 1 ex" and n: "n \<le> Suc N" "n \<le> k"
  have "fine 0 (try_pattern k ex) ts" if ts: "stream ts" "length ts \<le> n" for ts
  proof -
    obtain r where r: "p_element k k ex ts = Some r" "ends 1 ts r"
      using good_element [OF ex n n(2)] ts unfolding good_fine fine_def by blast
    show ?thesis
    proof (cases r)
      case (Inr x)
      obtain nd ch ts' where x: "x = (PatternElement nd ch, ts')" by (metis pattern_element.exhaust surj_pair)
      show ?thesis using r Inr x ts(1) by (cases ch) (auto simp: try_pattern_def fine_def cret_def)
    qed (use r(1) ts(1) in \<open>simp add: try_pattern_def fine_def cret_def\<close>)
  qed
  then show ?thesis by (simp add: good_fine)
qed

section \<open>Projections\<close>

lemma good_order: "good N 1 ex \<Longrightarrow> n \<le> Suc N \<Longrightarrow> n \<le> k \<Longrightarrow> good n 0 (p_order k ex)"
proof -
  assume ex: "good N 1 ex" and n: "n \<le> Suc N" "n \<le> k"
  have "good (n - 1 - 1) 1 (cbind ex (\<lambda>e. let desc = cret (e, False); asc = cret (e, True) in
          eat_kw ''DESC'' desc (eat_kw ''DESCENDING'' desc (eat_kw ''ASC'' asc (eat_kw ''ASCENDING'' asc asc)))))"
    unfolding Let_def by (rule good_less, (rule good_rules good_mono [OF ex] | (use n in simp))+)
  from good_commas [OF this, of k] n have c: "good (n - 1 - 1) 1 (p_commas k (cbind ex (\<lambda>e. let desc = cret (e, False); asc = cret (e, True) in
          eat_kw ''DESC'' desc (eat_kw ''DESCENDING'' desc (eat_kw ''ASC'' asc (eat_kw ''ASCENDING'' asc asc))))))"
    by simp
  show ?thesis unfolding p_order_def [abs_def] by (rule good_less, (rule good_rules c | simp)+)
qed

lemma good_opt_ex: "good N 1 ex \<Longrightarrow> n \<le> Suc N \<Longrightarrow> good n 0 (p_opt_kw kw ex)"
  by (rule good_opt_kw [OF good_mono]) (assumption, linarith)

lemma good_tail: "good N 1 ex \<Longrightarrow> n \<le> Suc N \<Longrightarrow> n \<le> k \<Longrightarrow> good n 0 (projection_tail k ex uniq star items is_with)"
proof -
  assume ex: "good N 1 ex" and n: "n \<le> Suc N" "n \<le> k"
  show ?thesis unfolding projection_tail_def [abs_def]
    by (rule good_less, (rule good_rules good_order [OF ex] good_opt_ex [OF ex] good_if | (use n in simp))+)
qed

lemma good_item: "good N 1 ex \<Longrightarrow> n \<le> N \<Longrightarrow> good n 1 (p_item src ex)"
proof -
  assume ex: "good N 1 ex" and n: "n \<le> N"
  have i: "good m 0 (\<lambda>ts1. cbind (p_opt_kw ''AS'' p_variable) (\<lambda>alias. cret \<lparr>pi_expr = e, pi_alias = alias, pi_text = source_text src (pk_pos t) (pk_pos ts1)\<rparr>) ts1)"
    for m t e
    by (rule good_state, rule good_less, (rule good_rules good_opt_kw | simp)+)
  show ?thesis unfolding p_item_def [abs_def]
    by (rule good_state, rule good_less, (rule good_cbind good_mono [OF ex] i | (use n in simp))+)
qed

lemma good_projection: "good N 1 ex \<Longrightarrow> n \<le> N \<Longrightarrow> n \<le> k \<Longrightarrow> good n 1 (p_projection src k ex is_with)"
proof -
  assume ex: "good N 1 ex" and n: "n \<le> N" "n \<le> k"
  show ?thesis unfolding p_projection_def [abs_def] Let_def
    by (rule good_less, (rule good_rules good_commas good_item [OF ex] good_tail [OF ex] | (use n in simp))+)
qed

section \<open>Atoms\<close>

lemma good_entry: "good N 1 ex \<Longrightarrow> n \<le> Suc N \<Longrightarrow> good n 1 (projection_entry ex)"
proof -
  assume ex: "good N 1 ex" and n: "n \<le> Suc N"
  have "good n 1 (eat_sym ''.''
       (eat_sym ''*'' (cret MiAllProps) (cbind p_name (\<lambda>key. cret (MiProp key))))
       (if_toks (\<lambda>ts. is_sym '':'' (pk_at 1 ts))
          (cbind p_name (\<lambda>key. bumped (cbind ex (\<lambda>e. cret (MiEntry key e)))))
          (cbind p_variable (\<lambda>v. cret (MiVar v)))))"
    by (rule good_less, (rule good_rules good_if_toks good_bumped good_mono [OF ex] | (use n in simp))+)
  then show ?thesis by (simp add: good_def)
qed

lemma good_map_projection: "good N 1 ex \<Longrightarrow> n \<le> Suc N \<Longrightarrow> n \<le> k \<Longrightarrow> good n 1 (map_projection k ex v)"
proof -
  assume ex: "good N 1 ex" and n: "n \<le> Suc N" "n \<le> k"
  show ?thesis unfolding map_projection_def [abs_def]
    by (rule good_less, (rule good_rules good_if_tok good_commas good_entry [OF ex] | (use n in simp))+)
qed

lemma good_args: "good N 1 ex \<Longrightarrow> n \<le> N \<Longrightarrow> n \<le> k \<Longrightarrow> good n 1 (p_args k ex close)"
proof -
  assume ex: "good N 1 ex" and n: "n \<le> N" "n \<le> k"
  show ?thesis unfolding p_args_def [abs_def]
    by (rule good_less, (rule good_rules good_if_tok good_commas good_mono [OF ex] | (use n in simp))+)
qed

lemma good_list_comprehension: "good N 1 ex \<Longrightarrow> n \<le> Suc N \<Longrightarrow> good n 1 (list_comprehension ex)"
proof -
  assume ex: "good N 1 ex" and n: "n \<le> Suc N"
  show ?thesis unfolding list_comprehension_def [abs_def]
    by (rule good_less, (rule good_rules good_bumped good_opt_ex [OF ex] good_mono [OF ex] | (use n in simp))+)
qed

lemma good_option: "(\<And>a. good n c (f a)) \<Longrightarrow> good n d q \<Longrightarrow> good n (min c d) (case m of None \<Rightarrow> q | Some a \<Rightarrow> f a)"
  by (cases m) (auto intro: good_less [OF _ min.cobounded1] good_less [OF _ min.cobounded2])

lemma good_pattern_comprehension: "good N 1 ex \<Longrightarrow> n \<le> N \<Longrightarrow> n \<le> k \<Longrightarrow> good n 0 (pattern_comprehension k ex)"
proof -
  assume ex: "good N 1 ex" and n: "n \<le> N" "n \<le> k"
  show ?thesis unfolding pattern_comprehension_def [abs_def] Let_def
    by (rule good_less, (rule good_rules good_option good_bumped good_if_toks good_try_pattern [OF ex] good_opt_ex [OF ex] good_mono [OF ex] | (use n in simp))+)
qed

lemma good_plain_list: "good N 1 ex \<Longrightarrow> n \<le> N \<Longrightarrow> n \<le> k \<Longrightarrow> good n 1 (plain_list k ex)"
proof -
  assume ex: "good N 1 ex" and n: "n \<le> N" "n \<le> k"
  show ?thesis unfolding plain_list_def [abs_def]
    by (rule good_less, (rule good_rules good_args [OF ex] | (use n in simp))+)
qed

lemma good_try_comprehension: "good N 1 ex \<Longrightarrow> n \<le> N \<Longrightarrow> n \<le> k \<Longrightarrow> good n 0 (try_comprehension k ex)"
proof -
  assume ex: "good N 1 ex" and n: "n \<le> N" "n \<le> k"
  have "fine 0 (try_comprehension k ex) ts" if ts: "stream ts" "length ts \<le> n" for ts
  proof -
    obtain r where r: "pattern_comprehension k ex ts = Some r" "ends 0 ts r"
      using good_pattern_comprehension [OF ex n] ts unfolding good_fine fine_def by blast
    have p: "fine 0 (plain_list k ex) ts" using fineD [OF good_plain_list [OF ex n] ts] by simp
    show ?thesis
    proof (cases r)
      case (Inr x)
      obtain m ts' where x: "x = (m, ts')" by (cases x) auto
      show ?thesis using r Inr x p by (cases m) (auto simp: try_comprehension_def cbind_def fine_def cret_def)
    qed (use r in \<open>auto simp: try_comprehension_def cbind_def fine_def\<close>)
  qed
  then show ?thesis by (simp add: good_fine)
qed

lemma good_list_atom: "good N 1 ex \<Longrightarrow> n \<le> Suc N \<Longrightarrow> n \<le> k \<Longrightarrow> good n 1 (list_atom k ex)"
proof -
  assume ex: "good N 1 ex" and n: "n \<le> Suc N" "n \<le> k"
  show ?thesis unfolding list_atom_def [abs_def]
    by (rule good_less, (rule good_rules good_if_toks good_list_comprehension [OF ex] good_try_comprehension [OF ex] good_plain_list [OF ex] | (use n in simp))+)
qed

lemma good_whens: "good N 1 ex \<Longrightarrow> n \<le> Suc N \<Longrightarrow> n \<le> k \<Longrightarrow> good n 0 (p_whens k ex)"
proof (induction k arbitrary: n)
  case (Suc k)
  note ex = Suc.prems(1) and n = Suc.prems(2,3)
  have c: "m \<le> n - 1 \<Longrightarrow> good m 0 (p_whens k ex)" for m using n by (intro Suc.IH ex) simp_all
  have "good n 0 (eat_kw ''WHEN''
       (cbind ex (\<lambda>w. expect_kw ''THEN'' (cbind ex (\<lambda>t. cbind (p_whens k ex) (\<lambda>ws. cret ((w, t) # ws))))))
       (cret []))"
    by (rule good_less, (rule good_rules good_mono [OF ex] c | (use n in simp))+)
  then show ?case by simp
qed (simp add: good_0)

lemma good_case_atom: "good N 1 ex \<Longrightarrow> n \<le> Suc N \<Longrightarrow> n \<le> k \<Longrightarrow> good n 1 (case_atom k ex)"
proof -
  assume ex: "good N 1 ex" and n: "n \<le> Suc N" "n \<le> k"
  show ?thesis unfolding case_atom_def [abs_def]
    by (rule good_less, (rule good_rules good_fail good_if_tok good_if good_whens [OF ex] good_opt_ex [OF ex] good_mono [OF ex] | (use n in simp))+)
qed

lemma good_exists_atom: "good N 1 ex \<Longrightarrow> n \<le> Suc N \<Longrightarrow> n \<le> k \<Longrightarrow> good n 1 (exists_atom src k ex)"
proof -
  assume ex: "good N 1 ex" and n: "n \<le> Suc N" "n \<le> k"
  show ?thesis unfolding exists_atom_def [abs_def] Let_def
    by (rule good_less, (rule good_rules good_bumped good_parts [OF ex] good_opt_ex [OF ex] good_projection [OF ex] | (use n in simp))+)
qed

lemma good_quantified_atom: "good N 1 ex \<Longrightarrow> n \<le> Suc N \<Longrightarrow> good n 1 (quantified_atom q ex)"
proof -
  assume ex: "good N 1 ex" and n: "n \<le> Suc N"
  show ?thesis unfolding quantified_atom_def [abs_def]
    by (rule good_less, (rule good_rules good_bumped good_mono [OF ex] | (use n in simp))+)
qed

lemma good_reduce_atom: "good N 1 ex \<Longrightarrow> n \<le> Suc N \<Longrightarrow> good n 1 (reduce_atom ex)"
proof -
  assume ex: "good N 1 ex" and n: "n \<le> Suc N"
  show ?thesis unfolding reduce_atom_def [abs_def]
    by (rule good_less, (rule good_rules good_bumped good_mono [OF ex] | (use n in simp))+)
qed

lemma good_call_atom: "good N 1 ex \<Longrightarrow> n \<le> Suc N \<Longrightarrow> n \<le> k \<Longrightarrow> good n 1 (call_atom x k ex w)"
proof -
  assume ex: "good N 1 ex" and n: "n \<le> Suc N" "n \<le> k"
  show ?thesis unfolding call_atom_def [abs_def] Let_def
    by (rule good_less, (rule good_rules good_bumped good_if_tok good_args [OF ex] | (use n in simp))+)
qed

lemma dotted_name_stream: "stream ts \<Longrightarrow> dotted_name s ts = (n, r) \<Longrightarrow> stream r \<and> length r \<le> length ts \<and> set r \<subseteq> set ts"
proof (induction s ts rule: dotted_name.induct)
  case (1 s d p t q ts)
  show ?case
  proof (cases "d = ''.''")
    case True
    have "ts \<noteq> []" using "1.prems"(1) by (auto simp: stream_def split: if_splits)
    then have "stream ts" using "1.prems"(1) by (simp add: stream_def)
    from "1.IH" [OF True this] "1.prems"(2) True show ?thesis by auto
  qed (use 1 in auto)
qed auto

lemma fine_name_atom:
  assumes ex: "good N 1 ex" and n: "n \<le> Suc N" "n \<le> k" and ts: "stream ts" "length ts \<le> n" "pk ts \<noteq> TkEof"
  shows "fine 1 (name_atom x k ex w) ts"
proof -
  obtain m r where d: "dotted_name w (tl ts) = (m, r)" by (cases "dotted_name w (tl ts)") auto
  have "stream (tl ts)" using ts stream_bump_less [OF ts(1,3)] stream_bump [OF ts(1)] by (simp add: bump_def split: if_splits)
  from dotted_name_stream [OF this d] have r: "stream r" "length r \<le> length ts" "set r \<subseteq> set ts"
    by (cases ts; auto)+
  have "length r \<le> n" using r(2) ts(2) by simp
  with good_call_atom [OF ex n] r(1) obtain res where "call_atom x k ex m r = Some res" "ends 1 r res" by (rule goodE)
  then have "fine 1 (call_atom x k ex m) r \<and> (\<exists>res. call_atom x k ex m r = Some res \<and> ends 1 ts res)"
    using ends_later [of 1 r res 0 ts] r by (auto simp: fine_def)
  moreover have "fine 1 (cbind p_variable (\<lambda>v. cret (XVar v))) ts"
    by (rule fineD [OF _ ts(1,2)], (rule good_rules)+) simp
  ultimately show ?thesis unfolding fine_def name_atom_def d prod.case by presburger
qed

lemma fine_ident_atom:
  assumes ex: "good N 1 ex" and n: "n \<le> Suc N" "n \<le> k" and ts: "stream ts" "length ts \<le> n" "pk ts \<noteq> TkEof"
  shows "fine 1 (ident_atom x src k ex w) ts"
proof -
  note b = fine_cret_bump [OF ts(1,3)]
  note at = fineD [OF _ ts(1,2) order_refl]
  show ?thesis
    using b [of "XBool True"] b [of "XBool False"] b [of XNull] at [OF good_case_atom [OF ex n]] at [OF good_exists_atom [OF ex n]]
      at [OF good_quantified_atom [OF ex n(1)]] at [OF good_reduce_atom [OF ex n(1)]] fine_name_atom [OF ex n ts]
    unfolding fine_def ident_atom_def Let_def by presburger
qed

lemma fine_paren_atom:
  assumes ex: "good N 1 ex" and n: "n \<le> Suc N" "n \<le> k" and ts: "stream ts" "length ts \<le> n" "pk ts \<noteq> TkEof"
  shows "fine 1 (paren_atom k ex) ts"
proof -
  obtain r where r: "p_element k k ex ts = Some r" "ends 1 ts r"
    using good_element [OF ex n n(2)] ts unfolding good_fine fine_def by blast
  have "good (n - 1) 0 (cbind ex (\<lambda>e. expect_sym '')'' (cret e)))"
    by (rule good_less, (rule good_rules good_mono [OF ex] | (use n in simp))+)
  from fine_bumped [OF this ts] have p: "fine 1 (bumped (cbind ex (\<lambda>e. expect_sym '')'' (cret e)))) ts" by simp
  show ?thesis
  proof (cases r)
    case (Inr x)
    obtain nd ch ts' where x: "x = (PatternElement nd ch, ts')" by (metis pattern_element.exhaust surj_pair)
    show ?thesis using r Inr x p by (cases ch) (auto simp: paren_atom_def cbind_def try_pattern_def fine_def cret_def)
  qed (use r(1) p in \<open>simp add: paren_atom_def cbind_def try_pattern_def fine_def cret_def\<close>)
qed

lemma good_atom: "good N 1 ex \<Longrightarrow> n \<le> Suc N \<Longrightarrow> n \<le> k \<Longrightarrow> good n 1 (p_atom x src k ex)"
proof -
  assume ex: "good N 1 ex" and n: "n \<le> Suc N" "n \<le> k"
  have "fine 1 (p_atom x src k ex) ts" if ts: "stream ts" "length ts \<le> n" for ts
  proof -
    note at = fineD [OF _ ts order_refl]
    have f: "fine 1 (cfail m :: cexpr cp) ts" for m by (rule at [OF good_cfail])
    show ?thesis
    proof (cases "pk ts")
      case (TkSym s)
      then have e: "pk ts \<noteq> TkEof" by simp
      show ?thesis using fine_paren_atom [OF ex n ts e] at [OF good_list_atom [OF ex n]] at [OF good_map_literal [OF ex n]] f TkSym
        unfolding fine_def p_atom_def by simp
    next
      case (TkIdent w)
      then show ?thesis using fine_ident_atom [OF ex n ts, of x src w] by (simp add: fine_def p_atom_def)
    next
      case TkEof
      then show ?thesis using f by (simp add: fine_def p_atom_def)
    qed (use fine_cret_bump [OF ts(1)] in \<open>simp_all add: fine_def p_atom_def\<close>)
  qed
  then show ?thesis by (simp add: good_fine)
qed

section \<open>Operators\<close>

lemma good_slice_end: "good N 1 ex \<Longrightarrow> n \<le> N \<Longrightarrow> good n 1 (slice_end ex f)"
proof -
  assume ex: "good N 1 ex" and n: "n \<le> N"
  show ?thesis unfolding slice_end_def [abs_def]
    by (rule good_less, (rule good_rules good_if_tok good_mono [OF ex] | (use n in simp))+)
qed

lemma good_subscript: "good N 1 ex \<Longrightarrow> n \<le> N \<Longrightarrow> good n 1 (subscript ex e)"
proof -
  assume ex: "good N 1 ex" and n: "n \<le> N"
  show ?thesis unfolding subscript_def [abs_def]
    by (rule good_less, (rule good_rules good_slice_end [OF ex] good_mono [OF ex] | (use n in simp))+)
qed

text \<open>Labels after a colon consume it.\<close>

lemma labels_after_colon:
  "if_tok (\<lambda>t. is_sym '':'' t \<and> b) (cbind (p_labels (Suc k)) f) q =
   if_toks (\<lambda>ts. is_sym '':'' (pk ts) \<and> b) (bumped (cbind (cbind p_name (\<lambda>l. cbind (p_labels k) (\<lambda>ls. cret (l # ls)))) f)) q"
  by (rule ext) (simp add: if_tok_def if_toks_def bumped_def cbind_def eat_sym_def)

lemma good_postfix_loop: "good N 1 ex \<Longrightarrow> n \<le> Suc N \<Longrightarrow> n \<le> k \<Longrightarrow> n \<le> j \<Longrightarrow> good n 0 (postfix_loop j k ex e)"
proof (induction j arbitrary: n e)
  case (Suc j)
  note ex = Suc.prems(1) and n = Suc.prems(2-4)
  have c: "m \<le> n - 1 \<Longrightarrow> good m 0 (postfix_loop j k ex e)" for m e using n by (intro Suc.IH ex) simp_all
  show ?case
  proof (cases n)
    case 0
    then show ?thesis by (simp add: good_0)
  next
    case (Suc n')
    then obtain k' where k: "k = Suc k'" using n(2) by (cases k) auto
    have m: "good n 0 (case e of XVar v \<Rightarrow> cbind (map_projection k ex v) (postfix_loop j k ex) | _ \<Rightarrow> cret e)"
    proof (cases e)
      case (XVar v)
      then show ?thesis by simp (rule good_less, (rule good_rules good_map_projection [OF ex] c | (use n in simp))+)
    qed (simp_all add: good_cret)
    have "good n 0 (eat_sym ''.'' (cbind p_name (\<lambda>key. postfix_loop j k ex (XProp e key)))
     (eat_sym ''['' (cbind (subscript ex e) (postfix_loop j k ex))
     (if_toks (\<lambda>ts. is_sym '':'' (pk ts) \<and> takes_labels e)
        (bumped (cbind (cbind p_name (\<lambda>l. cbind (p_labels k') (\<lambda>ls. cret (l # ls)))) (\<lambda>ls. postfix_loop j k ex (XHasLabels e ls))))
     (if_tok (is_sym ''{'')
        (case e of XVar v \<Rightarrow> cbind (map_projection k ex v) (postfix_loop j k ex) | _ \<Rightarrow> cret e)
        (cret e)))))"
      by (rule good_less, (rule good_rules good_if_bumped good_if_tok good_labels good_subscript [OF ex] m c | (use n k sym_not_eof in force))+)
    then show ?thesis unfolding postfix_loop.simps labels_after_colon [symmetric] k [symmetric] by (simp add: good_def)
  qed
qed (simp add: good_0)

lemma good_postfix: "good N 1 ex \<Longrightarrow> n \<le> Suc N \<Longrightarrow> n \<le> k \<Longrightarrow> good n 1 (p_postfix x src k ex)"
proof -
  assume ex: "good N 1 ex" and n: "n \<le> Suc N" "n \<le> k"
  show ?thesis unfolding p_postfix_def [abs_def]
    by (rule good_less, (rule good_rules good_atom [OF ex] good_postfix_loop [OF ex] | (use n in simp))+)
qed

lemma good_unary: "good n 1 pf \<Longrightarrow> n \<le> j \<Longrightarrow> good n 1 (p_unary j pf)"
proof (induction j arbitrary: n)
  case (Suc j)
  have c: "m \<le> n - 1 \<Longrightarrow> good m 1 (p_unary j pf)" for m
    using Suc.prems(2) by (intro Suc.IH good_mono [OF Suc.prems(1)]) simp_all
  have "good n 1 (eat_sym ''-'' (cbind (p_unary j pf) (\<lambda>e. cret (negate_literal e)))
     (eat_sym ''+'' (cbind (p_unary j pf) (\<lambda>e. cret (XUnary OpPlus e))) pf))"
    by (rule good_less, (rule good_rules c Suc.prems(1) | simp)+)
  then show ?case by (simp add: good_def)
qed (simp add: good_0)

lemma fine_op:
  assumes "good (n - 1) c p" "stream ts" "length ts \<le> n" "pk ts \<noteq> TkEof"
  shows "\<exists>r. p (bump ts) = Some r \<and> ends 0 ts r"
  using good_after [OF assms] ends_less [of "Suc c" ts _ 0] by blast

lemma good_left_loop: "good n 1 p \<Longrightarrow> ops TkEof = None \<Longrightarrow> n \<le> j \<Longrightarrow> good n 0 (left_loop j ops p e)"
proof (induction j arbitrary: n e)
  case (Suc j)
  have c: "good (n - 1) 1 (cbind p (\<lambda>r. left_loop j ops p (XBinary op e r)))" for op
  proof (rule good_less, rule good_cbind)
    show "good (n - 1) 1 p" by (rule good_mono [OF Suc.prems(1)]) simp
    show "good (n - 1 - 1) 0 (left_loop j ops p (XBinary op e a))" for a
      using Suc.prems by (intro Suc.IH good_mono [OF Suc.prems(1)]) simp_all
  qed simp
  have "fine 0 (left_loop (Suc j) ops p e) ts" if ts: "stream ts" "length ts \<le> n" for ts
  proof (cases "ops (pk ts)")
    case (Some op)
    then have "pk ts \<noteq> TkEof" using Suc.prems(2) by auto
    from fine_op [OF c ts this] Some show ?thesis by (simp add: fine_def)
  qed (use ts in \<open>simp add: fine_def cret_def\<close>)
  then show ?case unfolding good_fine by blast
qed (simp add: good_0)

lemma good_left_assoc: "good n 1 p \<Longrightarrow> ops TkEof = None \<Longrightarrow> n \<le> k \<Longrightarrow> good n 1 (left_assoc k ops p)"
proof -
  assume p: "good n 1 p" and o: "ops TkEof = None" and n: "n \<le> k"
  have l: "good (n - 1) 0 (left_loop k ops p e)" for e using n by (intro good_left_loop good_mono [OF p] o) simp_all
  show ?thesis unfolding left_assoc_def [abs_def] by (rule good_less, (rule good_cbind p l | simp)+)
qed

lemma ops_eof [simp]: "sym_op table TkEof = None" "kw_op kw op TkEof = None" "comparison_op TkEof = None"
  by (simp_all add: sym_op_def kw_op_def is_kw_def comparison_op_def)

lemma good_additive: "good N 1 ex \<Longrightarrow> n \<le> Suc N \<Longrightarrow> n \<le> k \<Longrightarrow> good n 1 (p_additive x src k ex)"
  unfolding p_additive_def [abs_def] p_multiplicative_def [abs_def] p_power_def [abs_def]
  by (intro good_left_assoc good_unary good_postfix) simp_all

lemma with_next: "is_kw kw (pk ts) \<and> is_kw ''WITH'' (pk_at 1 ts) \<Longrightarrow> pk ts \<noteq> TkEof"
  using kw_not_eof by blast

lemma good_predicate_loop: "good n 1 ad \<Longrightarrow> n \<le> j \<Longrightarrow> good n 0 (predicate_loop j ad e)"
proof (induction j arbitrary: n e)
  case (Suc j)
  have p: "m \<le> n \<Longrightarrow> good m 1 ad" for m by (rule good_mono [OF Suc.prems(1)])
  have c: "m \<le> n - 1 \<Longrightarrow> good m 0 (predicate_loop j ad e)" for m e using Suc.prems(2) by (intro Suc.IH p) simp_all
  have "good n 0 (if_toks (\<lambda>ts. is_kw ''STARTS'' (pk ts) \<and> is_kw ''WITH'' (pk_at 1 ts))
        (bumped (bumped (cbind ad (\<lambda>r. predicate_loop j ad (XBinary OpStartsWith e r)))))
      (if_toks (\<lambda>ts. is_kw ''ENDS'' (pk ts) \<and> is_kw ''WITH'' (pk_at 1 ts))
        (bumped (bumped (cbind ad (\<lambda>r. predicate_loop j ad (XBinary OpEndsWith e r)))))
      (eat_kw ''CONTAINS'' (cbind ad (\<lambda>r. predicate_loop j ad (XBinary OpContains e r)))
      (eat_kw ''IN'' (cbind ad (\<lambda>r. predicate_loop j ad (XBinary OpIn e r)))
      (eat_kw ''IS''
         (eat_kw ''NOT'' (expect_kw ''NULL'' (predicate_loop j ad (XIsNull e True))) (expect_kw ''NULL'' (predicate_loop j ad (XIsNull e False))))
         (cret e))))))"
    by (rule good_less, (rule good_rules good_if_bumped good_bumped p c with_next | assumption | simp)+)
  then show ?case by (simp add: good_def Let_def)
qed (simp add: good_0)

lemma good_predicate: "good N 1 ex \<Longrightarrow> n \<le> Suc N \<Longrightarrow> n \<le> k \<Longrightarrow> good n 1 (p_predicate x src k ex)"
proof -
  assume ex: "good N 1 ex" and n: "n \<le> Suc N" "n \<le> k"
  have a: "m \<le> n \<Longrightarrow> good m 1 (p_additive x src k ex)" for m using n by (intro good_additive [OF ex]) simp_all
  show ?thesis unfolding p_predicate_def [abs_def]
    by (rule good_less, (rule good_cbind good_predicate_loop a | (use n in simp))+)
qed

lemma good_comparison_loop: "good n 1 p \<Longrightarrow> n \<le> j \<Longrightarrow> good n 0 (comparison_loop j p e)"
proof (induction j arbitrary: n e)
  case (Suc j)
  have p: "m \<le> n \<Longrightarrow> good m 1 p" for m by (rule good_mono [OF Suc.prems(1)])
  have l: "m \<le> n - 1 \<Longrightarrow> good m 0 (comparison_loop j p r)" for m r using Suc.prems(2) by (intro Suc.IH p) simp_all
  have c: "good (n - 1) 1 (cbind p (\<lambda>r. cbind (comparison_loop j p r) (\<lambda>cs. cret (XBinary op e r # cs))))" for op
    by (rule good_less, (rule good_rules p l | simp)+)
  have "fine 0 (comparison_loop (Suc j) p e) ts" if ts: "stream ts" "length ts \<le> n" for ts
  proof (cases "comparison_op (pk ts)")
    case (Some op)
    then have "pk ts \<noteq> TkEof" by auto
    from fine_op [OF c ts this] Some show ?thesis by (simp add: fine_def)
  qed (use ts in \<open>simp add: fine_def cret_def\<close>)
  then show ?case unfolding good_fine by blast
qed (simp add: good_0)

lemma good_comparison: "good N 1 ex \<Longrightarrow> n \<le> Suc N \<Longrightarrow> n \<le> k \<Longrightarrow> good n 1 (p_comparison x src k ex)"
proof -
  assume ex: "good N 1 ex" and n: "n \<le> Suc N" "n \<le> k"
  have a: "m \<le> n \<Longrightarrow> good m 1 (p_predicate x src k ex)" for m using n by (intro good_predicate [OF ex]) simp_all
  show ?thesis unfolding p_comparison_def [abs_def]
    by (rule good_less, (rule good_rules good_comparison_loop a | (use n in simp))+)
qed

lemma good_not: "good n 1 p \<Longrightarrow> n \<le> j \<Longrightarrow> good n 1 (p_not j p)"
proof (induction j arbitrary: n)
  case (Suc j)
  have c: "m \<le> n - 1 \<Longrightarrow> good m 1 (p_not j p)" for m
    using Suc.prems(2) by (intro Suc.IH good_mono [OF Suc.prems(1)]) simp_all
  have "good n 1 (eat_kw ''NOT'' (cbind (p_not j p) (\<lambda>e. cret (XUnary OpNot e))) p)"
    by (rule good_less, (rule good_rules c Suc.prems(1) | simp)+)
  then show ?case by (simp add: good_def)
qed (simp add: good_0)

lemma good_or: "good N 1 ex \<Longrightarrow> n \<le> Suc N \<Longrightarrow> n \<le> k \<Longrightarrow> good n 1 (p_or x src k ex)"
  unfolding p_or_def [abs_def] by (intro good_left_assoc good_not good_comparison) simp_all

lemma good_expr: "j \<le> k \<Longrightarrow> good j 1 (p_expr x src k j)"
proof (induction j)
  case (Suc j)
  then have "good j 1 (p_expr x src k j)" by simp
  from good_or [OF this order_refl] Suc.prems have "good (Suc j) 1 (p_or x src k (p_expr x src k j))" by simp
  then show ?case by (simp add: good_def)
qed (simp add: good_0)

section \<open>Clauses\<close>

lemma good_set_item: "good N 1 ex \<Longrightarrow> n \<le> Suc N \<Longrightarrow> n \<le> k \<Longrightarrow> good n 1 (p_set_item k ex)"
proof -
  assume ex: "good N 1 ex" and n: "n \<le> Suc N" "n \<le> k"
  show ?thesis unfolding p_set_item_def [abs_def] Let_def
    by (rule good_less, (rule good_rules good_fail good_if_toks good_if_tok good_bumped good_labels good_mono [OF ex] | (use n in simp))+)
qed

lemma good_set_items: "good N 1 ex \<Longrightarrow> n \<le> Suc N \<Longrightarrow> n \<le> k \<Longrightarrow> good n 1 (p_set_items k ex)"
  unfolding p_set_items_def [abs_def] by (intro good_commas good_set_item)

lemma good_remove_item: "n \<le> k \<Longrightarrow> good n 1 (p_remove_item k)"
  unfolding p_remove_item_def [abs_def] by (rule good_less, (rule good_rules good_fail good_if_tok good_labels | simp)+)

lemma good_match: "good N 1 ex \<Longrightarrow> n \<le> Suc N \<Longrightarrow> n \<le> k \<Longrightarrow> good n 1 (p_match k ex opt)"
proof -
  assume ex: "good N 1 ex" and n: "n \<le> Suc N" "n \<le> k"
  show ?thesis unfolding p_match_def [abs_def]
    by (rule good_less, (rule good_rules good_parts [OF ex] good_opt_ex [OF ex] | (use n in simp))+)
qed

lemma good_prod: "(\<And>a b. good n c (f a b)) \<Longrightarrow> good n c (case p of (a, b) \<Rightarrow> f a b)"
  by (cases p) simp

lemma good_merge_actions: "good N 1 ex \<Longrightarrow> n \<le> Suc N \<Longrightarrow> n \<le> k \<Longrightarrow> n \<le> j \<Longrightarrow> good n 0 (merge_actions j k ex)"
proof (induction j arbitrary: n)
  case (Suc j)
  note ex = Suc.prems(1) and n = Suc.prems(2-4)
  have c: "m \<le> n - 1 \<Longrightarrow> good m 0 (merge_actions j k ex)" for m using n by (intro Suc.IH ex) simp_all
  have "good n 0 (eat_kw ''ON''
       (eat_kw ''CREATE''
          (expect_kw ''SET'' (cbind (p_set_items k ex) (\<lambda>is1. cbind (merge_actions j k ex) (\<lambda>(c, m). cret (is1 @ c, m)))))
       (eat_kw ''MATCH''
          (expect_kw ''SET'' (cbind (p_set_items k ex) (\<lambda>is1. cbind (merge_actions j k ex) (\<lambda>(c, m). cret (c, is1 @ m)))))
          (cfail ''expected CREATE or MATCH after ON'')))
       (cret ([], [])))"
    by (rule good_less, (rule good_rules good_fail good_prod good_set_items [OF ex] c | (use n in simp))+)
  then show ?case by (simp add: good_def)
qed (simp add: good_0)

lemma good_merge: "good N 1 ex \<Longrightarrow> n \<le> Suc N \<Longrightarrow> n \<le> k \<Longrightarrow> good n 1 (p_merge k ex)"
proof -
  assume ex: "good N 1 ex" and n: "n \<le> Suc N" "n \<le> k"
  show ?thesis unfolding p_merge_def [abs_def]
    by (rule good_less, (rule good_rules good_prod good_part [OF ex] good_merge_actions [OF ex] | (use n in simp))+)
qed

lemma good_procedure_name: "n \<le> j \<Longrightarrow> good n 0 (procedure_name j s)"
proof (induction j arbitrary: n s)
  case (Suc j)
  have c: "m \<le> n - 1 \<Longrightarrow> good m 0 (procedure_name j s)" for m s using Suc.prems by (intro Suc.IH) simp
  have "good n 0 (eat_sym ''.'' (cbind p_name (\<lambda>n. procedure_name j (s @ ''.'' @ n))) (cret s))"
    by (rule good_less, (rule good_rules c | simp)+)
  then show ?case by (simp add: good_def)
qed (simp add: good_0)

lemma good_yields: "good N 1 ex \<Longrightarrow> n \<le> Suc N \<Longrightarrow> n \<le> k \<Longrightarrow> good n 0 (p_yields k ex)"
proof -
  assume ex: "good N 1 ex" and n: "n \<le> Suc N" "n \<le> k"
  have i: "good m 1 (cbind p_name (\<lambda>col. cbind (p_opt_kw ''AS'' p_variable) (\<lambda>alias. cret (col, alias))))" for m
    by (rule good_less, (rule good_rules good_opt_kw | simp)+)
  show ?thesis unfolding p_yields_def [abs_def]
    by (rule good_less, (rule good_rules good_commas [OF i] good_opt_ex [OF ex] | (use n in simp))+)
qed

lemma good_call: "good N 1 ex \<Longrightarrow> n \<le> Suc N \<Longrightarrow> n \<le> k \<Longrightarrow> good n 1 (p_call x k ex)"
proof -
  assume ex: "good N 1 ex" and n: "n \<le> Suc N" "n \<le> k"
  show ?thesis unfolding p_call_def [abs_def]
    by (rule good_less, (rule good_rules good_prod good_procedure_name good_args [OF ex] good_yields [OF ex] | (use n in simp))+)
qed

lemma good_eat_kw_1: "good (n - 1) 0 p \<Longrightarrow> good n 1 q \<Longrightarrow> good n 1 (eat_kw kw p q)"
  using good_less [OF good_eat_kw [of n 0 p 1 q kw], of 1] by simp

lemma good_bind_ret: "good n 1 p \<Longrightarrow> good n 0 (cbind p (\<lambda>a. cret (f a)))"
  using good_less [OF good_cbind [OF _ good_cret, of n 1 p f], of 0] by simp

lemma good_clause: "good N 1 ex \<Longrightarrow> n \<le> Suc N \<Longrightarrow> n \<le> k \<Longrightarrow> good n 1 (p_clause x src k ex)"
proof -
  assume ex: "good N 1 ex" and n: "n \<le> Suc N" "n \<le> k"
  have le: "n - 1 \<le> N" "n - 1 \<le> Suc N" "n - 1 \<le> k" using n by linarith+
  have e: "good (n - 1) 1 (p_commas k ex)" using le by (intro good_commas good_mono [OF ex])
  have r: "good (n - 1) 1 (p_commas k (p_remove_item k))" using le by (intro good_commas good_remove_item)
  have m: "good (n - 1) 0 (p_match k ex opt)" for opt by (rule good_less [OF good_match [OF ex le(2,3)]]) simp
  have mm: "good (n - 1) 0 (expect_kw ''MATCH'' (p_match k ex True))"
    by (rule good_less [OF good_expect_kw [OF good_mono [OF m]]]) simp_all
  have g: "good (n - 1) 0 (p_merge k ex)" by (rule good_less [OF good_merge [OF ex le(2,3)]]) simp
  have c: "good (n - 1) 0 (p_call x k ex)" by (rule good_less [OF good_call [OF ex le(2,3)]]) simp
  have u: "good (n - 1) 0 (cbind ex (\<lambda>e. expect_kw ''AS'' (cbind p_variable (\<lambda>v. cret (CUnwind e v)))))"
    by (rule good_less, (rule good_rules good_mono [OF ex le(1)] | simp)+)
  have d: "good (n - 1) 0 (eat_kw ''DELETE'' (cbind (p_commas k ex) (\<lambda>es. cret (CDelete detach es))) (cfail msg))" for detach msg
    by (rule good_less [OF good_eat_kw [OF good_bind_ret [OF good_mono [OF e]] good_cfail [of _ 0]]]) simp_all
  show ?thesis unfolding p_clause_def [abs_def] Let_def
    by (intro good_eat_kw_1 mm m u d g c good_bind_ret good_projection [OF ex] good_parts [OF ex] good_set_items [OF ex] good_cfail e r le)
qed

lemma good_clauses: "(\<And>m. m \<le> n \<Longrightarrow> good m 1 p) \<Longrightarrow> n \<le> j \<Longrightarrow> good n 0 (p_clauses j p)"
proof (induction j arbitrary: n)
  case (Suc j)
  have c: "m \<le> n - 1 \<Longrightarrow> good m 0 (p_clauses j p)" for m using Suc.prems by (intro Suc.IH) simp_all
  have "good n 0 (if_tok ends_query (cret []) (cbind p (\<lambda>c. cbind (p_clauses j p) (\<lambda>cs. cret (c # cs)))))"
    by (rule good_less, (rule good_rules good_if_tok Suc.prems(1) c | simp)+)
  then show ?case by (simp add: good_def)
qed (simp add: good_0)

lemma good_single: "good N 1 ex \<Longrightarrow> n \<le> Suc N \<Longrightarrow> n \<le> k \<Longrightarrow> good n 0 (p_single x src k ex)"
proof -
  assume ex: "good N 1 ex" and n: "n \<le> Suc N" "n \<le> k"
  have c: "m \<le> n \<Longrightarrow> good m 1 (p_clause x src k ex)" for m using n by (intro good_clause [OF ex]) simp_all
  have cs: "good n 0 (p_clauses k (p_clause x src k ex))" by (rule good_clauses [OF c n(2)])
  show ?thesis unfolding p_single_def [abs_def]
    by (rule good_less, (rule good_rules good_fail good_if cs | simp)+)
qed

lemma good_unions: "(\<And>m. m \<le> n \<Longrightarrow> good m 0 p) \<Longrightarrow> n \<le> j \<Longrightarrow> good n 0 (p_unions j p)"
proof (induction j arbitrary: n)
  case (Suc j)
  have c: "m \<le> n - 1 \<Longrightarrow> good m 0 (p_unions j p)" for m using Suc.prems by (intro Suc.IH) simp_all
  have "good n 0 (eat_kw ''UNION''
       (let more = (\<lambda>all. cbind p (\<lambda>q. cbind (p_unions j p) (\<lambda>r. cret ((all, q) # r)))) in eat_kw ''ALL'' (more True) (more False))
       (cret []))"
    unfolding Let_def by (rule good_less, (rule good_rules Suc.prems(1) c | simp)+)
  then show ?case by (simp add: good_def)
qed (simp add: good_0)

lemma good_query: "good n 1 ex \<Longrightarrow> n \<le> k \<Longrightarrow> good n 0 (p_query x src k ex)"
proof -
  assume ex: "good n 1 ex" and n: "n \<le> k"
  have c: "m \<le> n \<Longrightarrow> good m 0 (p_single x src k ex)" for m using n by (intro good_single [OF ex]) simp_all
  have u: "m \<le> n \<Longrightarrow> good m 0 (p_unions k (p_single x src k ex))" for m using n by (intro good_unions c) simp_all
  show ?thesis unfolding p_query_def [abs_def]
    by (rule good_less, (rule good_rules c u | simp)+)
qed

section \<open>What a query has\<close>

text \<open>A condition on what a parser returns.\<close>

definition gives :: "('a \<Rightarrow> bool) \<Rightarrow> 'a cp \<Rightarrow> bool" where
  "gives P p \<longleftrightarrow> (\<forall>ts a ts'. p ts = Some (Inr (a, ts')) \<longrightarrow> P a)"

lemma gives_cret: "P a \<Longrightarrow> gives P (cret a)"
  by (simp add: gives_def cret_def)

lemma gives_cfail: "gives P (cfail msg)"
  by (simp add: gives_def cfail_def)

lemma gives_any: "gives (\<lambda>_. True) p"
  by (simp add: gives_def)

lemma gives_cbind: "gives Q p \<Longrightarrow> (\<And>a. Q a \<Longrightarrow> gives P (f a)) \<Longrightarrow> gives P (cbind p f)"
  by (fastforce simp: gives_def cbind_def split: option.splits sum.splits)

lemma gives_eat_kw: "gives P p \<Longrightarrow> gives P q \<Longrightarrow> gives P (eat_kw kw p q)"
  by (simp add: gives_def eat_kw_def)

lemma gives_eat_sym: "gives P p \<Longrightarrow> gives P q \<Longrightarrow> gives P (eat_sym s p q)"
  by (simp add: gives_def eat_sym_def)

lemma gives_if_tok: "gives P p \<Longrightarrow> gives P q \<Longrightarrow> gives P (if_tok T p q)"
  by (simp add: gives_def if_tok_def)

lemma gives_single: "gives (\<lambda>q. sq_clauses q \<noteq> []) (p_single x src k ex)"
  unfolding p_single_def [abs_def] by (rule gives_cbind [OF gives_any]) (simp add: gives_cret gives_cfail)

lemma gives_unions: "gives P p \<Longrightarrow> gives (list_all (\<lambda>u. P (snd u))) (p_unions j p)"
proof (induction j)
  case (Suc j)
  note p = Suc.prems
  have "gives (list_all (\<lambda>u. P (snd u))) (cbind p (\<lambda>q. cbind (p_unions j p) (\<lambda>r. cret ((all, q) # r))))" for all
    by (intro gives_cbind [OF p] gives_cbind [OF Suc.IH [OF p]] gives_cret) simp
  then have "gives (list_all (\<lambda>u. P (snd u))) (eat_kw ''UNION''
       (let more = (\<lambda>all. cbind p (\<lambda>q. cbind (p_unions j p) (\<lambda>r. cret ((all, q) # r)))) in eat_kw ''ALL'' (more True) (more False))
       (cret []))"
    unfolding Let_def by (intro gives_eat_kw gives_cret) simp_all
  then show ?case by (simp add: gives_def)
qed (simp add: gives_def)

definition query_shape :: "cy_query \<Rightarrow> bool" where
  "query_shape q \<longleftrightarrow> length (cq_parts q) = Suc (length (cq_union_all q)) \<and> list_all (\<lambda>p. sq_clauses p \<noteq> []) (cq_parts q)"

lemma gives_query: "gives query_shape (p_query x src k ex)"
  unfolding p_query_def [abs_def]
  by (rule gives_cbind [OF gives_single], rule gives_cbind [OF gives_unions [OF gives_single]], rule gives_cret)
    (simp add: query_shape_def list_all_iff)

section \<open>The whole text\<close>

definition whole_query :: "uni_ext \<Rightarrow> string list \<Rightarrow> nat \<Rightarrow> cy_query cp" where
  "whole_query x src k =
     cbind (p_query x src k (p_expr x src k k)) (\<lambda>q. eat_sym '';''
      (if_tok (\<lambda>t. t = TkEof) (cret q) (cfail ''unexpected input after the end of the query''))
      (if_tok (\<lambda>t. t = TkEof) (cret q) (cfail ''unexpected input after the end of the query'')))"

lemma good_whole: "good k 0 (whole_query x src k)"
proof -
  have q: "good k 0 (p_query x src k (p_expr x src k k))" by (rule good_query [OF good_expr]) simp_all
  show ?thesis unfolding whole_query_def by (rule good_less, (rule good_rules good_fail good_if_tok q | simp)+)
qed

lemma gives_whole: "gives query_shape (whole_query x src k)"
  unfolding whole_query_def by (intro gives_cbind [OF gives_query] gives_eat_sym gives_if_tok gives_cret gives_cfail)

lemma parse_ctokens_ends:
  assumes "stream ts"
  shows "\<exists>r. parse_ctokens x src ts = Some r
    \<and> (case r of Inl e \<Rightarrow> \<exists>t msg. t \<in> set ts \<and> e = CySyntax (ct_pos t) msg | Inr q \<Rightarrow> query_shape q)"
proof -
  from good_whole assms order_refl obtain r where r: "whole_query x src (length ts) ts = Some r" "ends 0 ts r" by (rule goodE)
  have "parse_ctokens x src ts = Some (map_sum (\<lambda>e. e) fst r)"
    using r(1) unfolding parse_ctokens_def whole_query_def Let_def by simp
  moreover have "case map_sum (\<lambda>e. e) fst r of Inl e \<Rightarrow> \<exists>t msg. t \<in> set ts \<and> e = CySyntax (ct_pos t) msg | Inr q \<Rightarrow> query_shape q"
    using r gives_whole [of x src "length ts", unfolded gives_def, rule_format] by (cases r) auto
  ultimately show ?thesis by blast
qed

text \<open>
  C17. Parsing a Cypher query ends on every text, with the fuel the model gives it: the result is a query with a part for each
  \<^verbatim>\<open>UNION\<close> and one more, none of them without a clause, or a syntax error at a position of the text. No other error comes out of the
  tokenizer or the parser, and neither loops.
\<close>

theorem parse_cypher_ends:
  "case parse_cypher x s of
     Some (Inr q) \<Rightarrow> length (cq_parts q) = Suc (length (cq_union_all q)) \<and> list_all (\<lambda>p. sq_clauses p \<noteq> []) (cq_parts q)
   | Some (Inl (CySyntax pos msg)) \<Rightarrow> pos \<le> length (utf8_chars s)
   | _ \<Rightarrow> False"
proof (cases "cy_tokenize x (utf8_chars s)")
  case (Inl e)
  then show ?thesis using tokenize_tokens [of "utf8_chars s" x] by (auto simp: parse_cypher_def Let_def tokens_of_def)
next
  case (Inr ts)
  then have ts: "stream ts" "\<forall>t\<in>set ts. ct_pos t \<le> length (utf8_chars s)"
    using tokenize_tokens [of "utf8_chars s" x] by (simp_all add: tokens_of_def stream_def)
  from parse_ctokens_ends [OF ts(1), of x "utf8_chars s"] show ?thesis
    using Inr ts(2) by (elim exE conjE, case_tac r) (auto simp: parse_cypher_def Let_def query_shape_def)
qed

end
