(* ===== verification/Spec2Isabelle.thy ===== *)
theory Spec2Isabelle
  imports Datalog_Program Datalog_Exec Datalog_Parser Json Version_Jobs Cypher_Temporal_Laws Cypher_Query_Laws Cypher_Paths_Laws Cypher_Scope_Laws Cypher_Parser_Laws
begin

text \<open>
  A verification development of oxilite, an RDF store with SPARQL, Datalog and Cypher front ends on top of SQLite. The crates under
  \<^verbatim>\<open>src/crates\<close> do no I/O: an operation is a \<^emph>\<open>job\<close>, a state machine that yields SQL requests and is given the
  rows they return, and a backend (native SQLite, Turso, D1, a browser) drives it. So the program is modelled as the code has it, up to the
  text of each SQL statement; SQLite itself, and the third-party crates (\<^verbatim>\<open>oxrdf\<close>, \<^verbatim>\<open>spargebra\<close>, \<^verbatim>\<open>serde_json\<close>,
  \<^verbatim>\<open>chrono-tz\<close>, \<^verbatim>\<open>xxhash\<close>), are parameters of the definitions that use them.

  \<^bold>\<open>How the parts meet.\<close> A term becomes a 64-bit id and, unless the id carries the value, a row of a dictionary table
  (\<open>Encoding\<close>). Writes turn quads into statements (\<open>Writer\<close>); jobs send them (\<open>Job\<close>, \<open>Ops\<close>); reads collect the ids of the rows
  and resolve them to terms with batched dictionary requests (\<open>Resolve\<close>, joined with the write path in \<open>Roundtrip\<close>). A versioned
  store logs every change under a tick of its clock and answers reads of the past (\<open>Version\<close>); a wrapper opens the
  tick of each writing job (\<open>Version_Jobs\<close>). Datalog source text is lexed, parsed, analysed into strata and run as a job that iterates
  recursive strata (\<open>Datalog_*\<close>). Cypher text is read into a syntax tree, which is checked for scopes before it is planned; what SQL
  cannot do, expressions, projections, temporal values and shortest paths, is evaluated in memory (\<open>Cypher_*\<close>).

  \<^bold>\<open>Theories and sources.\<close>
  \<^item> \<open>Prelude\<close>: \<^verbatim>\<open>Result\<close> as a sum with \<open>rbind\<close> for \<^verbatim>\<open>?\<close>, loops that may fail, \<^verbatim>\<open>BTreeMap\<close> as a sorted association list (the
    locale \<open>ordered_map\<close> and its interpretation), strings as UTF-8 bytes, decimal numbers. \<open>Errors\<close>, \<open>Rdf\<close>: \<^verbatim>\<open>oxilite-core/src/error.rs\<close> and the
    terms of \<^verbatim>\<open>oxrdf\<close>.
  \<^item> \<open>F64\<close>, \<open>Floats\<close>, \<open>Float_Ints\<close>: IEEE doubles as bit patterns with exact rational arithmetic, reading and printing.
  \<^item> \<open>Encoding\<close>, \<open>Sql\<close>, \<open>Writer\<close>, \<open>Job\<close>, \<open>Resolve\<close>, \<open>Ops\<close>, \<open>Json\<close>: the files of those names of \<^verbatim>\<open>oxilite-core/src\<close>. \<open>Roundtrip\<close> composes them.
  \<^item> \<open>Version\<close>, \<open>Version_Jobs\<close>: \<^verbatim>\<open>version.rs\<close>; a statement is its text and what it does to the tables.
  \<^item> \<open>Datalog_Ast\<close>, \<open>Datalog_Lexer\<close>, \<open>Datalog_Parser\<close>, \<open>Datalog_Exec\<close>: the files of those names of \<^verbatim>\<open>oxilite-datalog/src\<close>; \<open>Scc\<close>, \<open>Topo\<close> and
    \<open>Datalog_Program\<close> are \<^verbatim>\<open>program.rs\<close>.
  \<^item> \<open>Cypher_Calendar\<close>, \<open>Cypher_Temporal\<close>, \<open>Cypher_Temporal_Ops\<close>: \<^verbatim>\<open>oxilite-cypher/src/temporal.rs\<close>, with their laws in \<open>Cypher_Text\<close>,
    \<open>Cypher_Duration\<close>, \<open>Cypher_Stored\<close> and \<open>Cypher_Temporal_Laws\<close>.
  \<^item> \<open>Cypher_Value\<close>, \<open>Cypher_Order\<close>: \<^verbatim>\<open>value.rs\<close>. \<open>Cypher_Lexer\<close>: \<^verbatim>\<open>lexer.rs\<close>. \<open>Cypher_Parser\<close>: \<^verbatim>\<open>parser.rs\<close>. \<open>Cypher_Ast\<close>: \<^verbatim>\<open>ast.rs\<close>.
    \<open>Cypher_Functions\<close>, \<open>Cypher_Eval\<close>: \<^verbatim>\<open>eval.rs\<close>. \<open>Cypher_Validate\<close>: \<^verbatim>\<open>validate.rs\<close>.
  \<^item> \<open>Cypher_Project\<close>: \<^verbatim>\<open>project\<close> and the clauses without writes of \<^verbatim>\<open>exec.rs\<close>, the aggregates of \<^verbatim>\<open>eval.rs\<close>. \<open>Cypher_Paths\<close>: the shortest path search
    of \<^verbatim>\<open>exec.rs\<close>. Their laws are in \<open>Cypher_Order_Laws\<close>, \<open>Cypher_Query_Laws\<close>, \<open>Cypher_Paths_Laws\<close>, \<open>Cypher_Scope_Laws\<close>,
    \<open>Cypher_Lexer_Laws\<close> and \<open>Cypher_Parser_Laws\<close>.

  \<^bold>\<open>What is shown.\<close>
  \<^item> Storage: ids collide only where the hashes do; a literal, its row and its JSON read back; a scan of what was written returns it; every statement
    is within the limit of the backend; SQL string quoting is invertible.
  \<^item> Jobs: a sequence sends its requests in order; inserting counts exactly its changes; materialization ends on every backend.
  \<^item> Versioning: after any history of writes, level changes and purges, every recorded tick reads the quads of its moment; a transaction is one
    tick; wrapping the jobs is the same as wrapping the backend.
  \<^item> Datalog: tokens print and read back; parsing always returns, with a well-formed program; analysis decides the specification of safety and
    stratification, its strata are the strongly connected components in dependency order; the runs compute least fixpoints, in order.
  \<^item> Cypher: parsing always returns, a query or a syntax error at a position of the text; the calendar, the texts of temporal values, differences and truncation; equality against grouping; the order of \<^verbatim>\<open>ORDER BY\<close>; counting by
    key; negation; \<^verbatim>\<open>range\<close>; shortest paths; scope checks that keep evaluation to the variables in scope.

  \<^bold>\<open>Interfaces.\<close> The locales are \<open>ordered_map\<close> (\<open>Prelude\<close>), \<open>job\<close> (what makes a driver loop return, interpreted on \<open>OneShot\<close> and \<open>Sequence\<close>),
  \<open>dictionary\<close> (what a resolver needs of the store, interpreted on the rows the writer collects), \<open>calendar_unit\<close> (a unit truncation goes down to, interpreted on
  each of the units) and \<open>comparator\<close> (a comparison a stable sort can use, interpreted on values and on the keys of a row).

  \<^bold>\<open>Bounds and fuel.\<close> Loops of the code that may not end are partial functions with value \<^const>\<open>None\<close> (the driver loop of jobs, reading shortest
  paths back), and the properties say when they return. Fuel bounds recursion elsewhere: in the strongly connected components it is the number
  of nodes, in resolution the nesting depth of terms, in the Datalog and Cypher parsers the number of tokens, each with a proof that it is never used up. The SQL of a
  recursive stratum iterates up to the limit of the code, and the fixpoint theorem is about runs within it. Ids, hashes and sort keys are words of 64
  or 128 bits. \<^verbatim>\<open>i64\<close> values of Cypher are unbounded integers with the checks of the code written out; in the calendar the code checks the
  range of years first, so nothing overflows there. Where unchecked arithmetic of an expression leaves the range the result is \<open>CyPanic\<close>, which also stands for the
  panics of the code.

  \<^bold>\<open>Not modelled.\<close> What the SQL texts of the SPARQL compiler, the Datalog compiler, reasoning, the schema registry, full text and vector search compute:
  that is the semantics of SQL and of the functions of SQLite, which no source defines here. The join planner, a heuristic that changes the cost of
  a query and not its answer. The Cypher lowering to SPARQL and write clauses. Elpi, Synalog, N3, JSON-LD, credentials and SHACL validation, which drive
  third-party engines; the backends, the store facade, the bindings, the command line and the studio, which are I/O and glue.
\<close>

end
